(* ===== verification/Prelude.thy ===== *)
theory Prelude
  imports Main "HOL-Library.Word" "HOL-Library.Monad_Syntax" "HOL-Library.Multiset"
begin

text \<open>
  Shared vocabulary of the development: the Go types the components use, slices with their
  run-time checks, and the generic lemmas the component theories rest on.

  A Go function that can fail at run time (an index out of range, a call of \<open>log.Fatalf\<close>) is a
  function into \<open>'a option\<close>: \<^term>\<open>None\<close> is the panic or the exit of the process,
  \<^term>\<open>Some x\<close> a normal return. The \<open>do\<close> notation of \<open>Monad_Syntax\<close> sequences such
  calls, so that every indexing expression of the source is one bind of the model and "this
  handler never panics" is a theorem about it.
\<close>

named_theorems go_slice "run-time checked slice operations reduced to list operations"

type_synonym Tversion = "64 word"

subsection \<open>Slices\<close>

text \<open>\<open>xs[i]\<close>: panics unless \<open>0 \<le> i < len(xs)\<close>.\<close>

definition go_nth :: "'a list \<Rightarrow> int \<Rightarrow> 'a option" where
  "go_nth xs i = (if 0 \<le> i \<and> i < int (length xs) then Some (xs ! nat i) else None)"

text \<open>\<open>xs[i:]\<close>: panics unless \<open>0 \<le> i \<le> len(xs)\<close>.\<close>

definition go_from :: "'a list \<Rightarrow> int \<Rightarrow> 'a list option" where
  "go_from xs i = (if 0 \<le> i \<and> i \<le> int (length xs) then Some (drop (nat i) xs) else None)"

text \<open>
  \<open>xs[:i]\<close>: panics unless \<open>0 \<le> i \<le> cap(xs)\<close>. The model knows the length only and refuses what
  lies between the length and the capacity; the theorems show that the code never goes there.
\<close>

definition go_upto :: "'a list \<Rightarrow> int \<Rightarrow> 'a list option" where
  "go_upto xs i = (if 0 \<le> i \<and> i \<le> int (length xs) then Some (take (nat i) xs) else None)"

text \<open>\<open>xs[i] = v\<close>: panics unless the index is in range.\<close>

definition go_upd :: "'a list \<Rightarrow> int \<Rightarrow> 'a \<Rightarrow> 'a list option" where
  "go_upd xs i v = (if 0 \<le> i \<and> i < int (length xs) then Some (xs[nat i := v]) else None)"

lemma go_nth_in [go_slice]: "0 \<le> i \<Longrightarrow> i < int (length xs) \<Longrightarrow> go_nth xs i = Some (xs ! nat i)"
  by (simp add: go_nth_def)

lemma go_from_in [go_slice]: "0 \<le> i \<Longrightarrow> i \<le> int (length xs) \<Longrightarrow> go_from xs i = Some (drop (nat i) xs)"
  by (simp add: go_from_def)

lemma go_upto_in [go_slice]: "0 \<le> i \<Longrightarrow> i \<le> int (length xs) \<Longrightarrow> go_upto xs i = Some (take (nat i) xs)"
  by (simp add: go_upto_def)

lemma go_upd_in [go_slice]: "0 \<le> i \<Longrightarrow> i < int (length xs) \<Longrightarrow> go_upd xs i v = Some (xs[nat i := v])"
  by (simp add: go_upd_def)

lemma go_nth_SomeD: "go_nth xs i = Some x \<Longrightarrow> 0 \<le> i \<and> i < int (length xs) \<and> x = xs ! nat i"
  by (simp add: go_nth_def split: if_splits)

lemma go_upd_SomeD: "go_upd xs i v = Some ys \<Longrightarrow> 0 \<le> i \<and> i < int (length xs) \<and> ys = xs[nat i := v]"
  by (simp add: go_upd_def split: if_splits)

subsection \<open>Go's \<open>int\<close>\<close>

text \<open>
  A result of \<open>int\<close> arithmetic: 64 bits in two's complement. Definitions that are about wrap-around apply
  \<open>i64\<close> to the exact result of each operation; elsewhere \<open>int\<close> stands for Go's \<open>int\<close> as long as nothing overflows.
\<close>

definition i64 :: "int \<Rightarrow> int" where
  "i64 x = (x + 2 ^ 63) mod 2 ^ 64 - 2 ^ 63"

lemma i64_word: "i64 x = sint (word_of_int x :: 64 word)"
  by (simp add: i64_def sint_sbintrunc' signed_take_bit_eq_take_bit_shift take_bit_eq_mod)

lemma i64_in: "- (2 ^ 63) \<le> x \<Longrightarrow> x < 2 ^ 63 \<Longrightarrow> i64 x = x"
  by (simp add: i64_def)

lemma i64_range: "- (2 ^ 63) \<le> i64 x \<and> i64 x < 2 ^ 63"
  by (simp add: i64_def)

subsection \<open>Generic lemmas\<close>

lemma unat_Suc_word: "Suc (unat (w :: 64 word)) < 2 ^ 64 \<Longrightarrow> unat (w + 1) = Suc (unat w)"
  by (simp add: unat_word_ariths)

lemma sorted_wrt_remove: "sorted_wrt P (xs @ e # ys) \<Longrightarrow> sorted_wrt P (xs @ ys)"
  by (auto simp: sorted_wrt_append)

text \<open>Two majorities of a finite population share a member.\<close>

lemma majorities_meet:
  assumes "finite U" "A \<subseteq> U" "B \<subseteq> U" "card U < 2 * card A" "card U < 2 * card B"
  shows "A \<inter> B \<noteq> {}"
proof
  assume "A \<inter> B = {}"
  with assms have "card (A \<union> B) = card A + card B"
    by (meson card_Un_disjoint finite_subset)
  moreover have "card (A \<union> B) \<le> card U"
    using assms by (intro card_mono) auto
  ultimately show False using assms by linarith
qed

subsection \<open>Reachable states\<close>

inductive reach :: "'s \<Rightarrow> ('s \<Rightarrow> 's \<Rightarrow> bool) \<Rightarrow> 's \<Rightarrow> bool" for init step where
  reach_init: "reach init step init"
| reach_step: "reach init step s \<Longrightarrow> step s t \<Longrightarrow> reach init step t"

lemma reach_trans: "reach s step t \<Longrightarrow> reach init step s \<Longrightarrow> reach init step t"
  by (induction rule: reach.induct) (auto intro: reach_step)

text \<open>
  The interface of an invariance proof. \<open>clock\<close> counts what must stay below \<open>bound\<close> (64-bit counters
  do not wrap within the bound); an invariant that needs no bound takes a constant clock.
\<close>

locale clocked_invariant =
  fixes init :: 's and step :: "'s \<Rightarrow> 's \<Rightarrow> bool" and clock :: "'s \<Rightarrow> nat" and bound :: nat
    and inv :: "'s \<Rightarrow> bool"
  assumes inv_start: "inv init"
    and inv_keep: "step s t \<Longrightarrow> inv s \<Longrightarrow> clock t < bound \<Longrightarrow> inv t"
    and clock_mono: "step s t \<Longrightarrow> clock s \<le> clock t"
begin

lemma reach_inv: "reach init step s \<Longrightarrow> clock s < bound \<Longrightarrow> inv s"
proof (induction rule: reach.induct)
  case reach_init
  show ?case by (rule inv_start)
next
  case (reach_step s t)
  then show ?case using inv_keep clock_mono le_less_trans by blast
qed

end

text \<open>
  A step relation that implements another one: related states stay related, each step of the concrete
  relation being at most one of the abstract relation. The concrete invariant may be used in the proof.
\<close>

locale simulation =
  fixes cinit :: 'c and cstep :: "'c \<Rightarrow> 'c \<Rightarrow> bool" and ainit :: 'a and astep :: "'a \<Rightarrow> 'a \<Rightarrow> bool"
    and cinv :: "'c \<Rightarrow> bool" and rel :: "'c \<Rightarrow> 'a \<Rightarrow> bool"
  assumes rel_init: "rel cinit ainit"
    and cinv_init: "cinv cinit"
    and cinv_step: "cinv s \<Longrightarrow> cstep s t \<Longrightarrow> cinv t"
    and rel_step: "rel s a \<Longrightarrow> cinv s \<Longrightarrow> cstep s t \<Longrightarrow> \<exists>a'. astep a a' \<and> rel t a'"
begin

lemma run_simulates:
  assumes "reach s cstep t" "rel s a" "cinv s"
  shows "cinv t \<and> (\<exists>a'. reach a astep a' \<and> rel t a')"
  using assms
proof (induction rule: reach.induct)
  case reach_init
  then show ?case using reach.reach_init [of a astep] by blast
next
  case (reach_step u t)
  then obtain a' where "cinv u" "reach a astep a'" "rel u a'" by blast
  then show ?case using rel_step [OF _ _ reach_step(2)] cinv_step [OF _ reach_step(2)] reach.reach_step [of a astep] by metis
qed

lemma reach_simulates:
  assumes "reach cinit cstep s"
  obtains a where "cinv s" "reach ainit astep a" "rel s a"
  using run_simulates [OF assms rel_init cinv_init] by blast

end

text \<open>
  Executions as data: \<open>run act s as\<close> performs the actions \<open>as\<close> in turn; \<open>act\<close> returns \<^term>\<open>None\<close>
  where an action is not enabled. An action function that only makes steps of the relation gives
  reachable states, which is how the witnesses of the step relations are evaluated.
\<close>

fun run :: "('s \<Rightarrow> 'a \<Rightarrow> 's option) \<Rightarrow> 's \<Rightarrow> 'a list \<Rightarrow> 's option" where
  "run act s [] = Some s"
| "run act s (a # as) = (case act s a of None \<Rightarrow> None | Some t \<Rightarrow> run act t as)"

lemma run_reach:
  assumes "reach init step s" "run act s as = Some t" "\<And>s a t. act s a = Some t \<Longrightarrow> step s t"
  shows "reach init step t"
  using assms(1,2)
proof (induction as arbitrary: s)
  case (Cons a as)
  from Cons.prems(2) obtain s' where s': "act s a = Some s'" "run act s' as = Some t"
    by (auto split: option.splits)
  from Cons.prems(1) assms(3) [OF s'(1)] have "reach init step s'" by (rule reach.reach_step)
  then show ?case using s'(2) by (rule Cons.IH)
qed simp

lemma run_keeps: "run act s as = Some t \<Longrightarrow> I s \<Longrightarrow> (\<And>s a t. I s \<Longrightarrow> act s a = Some t \<Longrightarrow> I t) \<Longrightarrow> I t"
  by (induction as arbitrary: s) (auto split: option.splits)

end
