(* ===== verification/Rpc.thy ===== *)
theory Rpc
  imports Prelude
begin

text \<open>
  The vocabulary of \<open>src/kvsrv1/rpc/rpc.go\<close>: the error values and the argument and reply structs
  of the key/value RPCs. A Go struct has a zero value; the replies the RPC layer hands to a handler
  are zero values, so the zero reply of each type is a constant here.
\<close>

subsection \<open>Errors\<close>

text \<open>
  \<open>type Err string\<close> with its six constants; \<open>ErrZero\<close> is the zero value \<open>""\<close>, what a reply
  carries before a handler writes it.
\<close>

datatype Err = OK | ErrNoKey | ErrVersion | ErrMaybe | ErrWrongLeader | ErrWrongGroup | ErrZero

fun err_string :: "Err \<Rightarrow> string" where
  "err_string OK = ''OK''"
| "err_string ErrNoKey = ''ErrNoKey''"
| "err_string ErrVersion = ''ErrVersion''"
| "err_string ErrMaybe = ''ErrMaybe''"
| "err_string ErrWrongLeader = ''ErrWrongLeader''"
| "err_string ErrWrongGroup = ''ErrWrongGroup''"
| "err_string ErrZero = ''''"

lemma err_string_inj [simp]: "err_string e = err_string e' \<longleftrightarrow> e = e'"
  by (cases e; cases e') simp_all

lemma err_string_OK [simp]: "err_string e = ''OK'' \<longleftrightarrow> e = OK"
  by (cases e) simp_all

subsection \<open>Arguments and replies\<close>

record PutArgs =
  pa_Key :: string
  pa_Value :: string
  pa_Version :: Tversion

record PutReply =
  pr_Err :: Err

record GetArgs =
  ga_Key :: string

record GetReply =
  gr_Value :: string
  gr_Version :: Tversion
  gr_Err :: Err

definition zero_PutReply :: PutReply where
  "zero_PutReply = \<lparr>pr_Err = ErrZero\<rparr>"

definition zero_GetReply :: GetReply where
  "zero_GetReply = \<lparr>gr_Value = '''', gr_Version = 0, gr_Err = ErrZero\<rparr>"

end
