(* ===== verification/KVServer.thy ===== *)
theory KVServer
  imports Rpc
begin

text \<open>
  The key/value server, \<open>src/kvsrv1/server.go\<close>: a map from keys to a value and its version, a
  \<open>Get\<close> and a conditional \<open>Put\<close>. Each handler holds the mutex from its first statement to its
  return, so a handler is one atomic function of the state; it writes into a reply it is given.
\<close>

subsection \<open>State\<close>

record kvEntry =
  e_value :: string
  e_version :: Tversion

record KVServer =
  store :: "string \<rightharpoonup> kvEntry"

definition MakeKVServer :: KVServer where
  "MakeKVServer = \<lparr>store = Map.empty\<rparr>"

subsection \<open>Handlers\<close>

definition KVServer_Get :: "KVServer \<Rightarrow> GetArgs \<Rightarrow> GetReply \<Rightarrow> GetReply" where
  "KVServer_Get kv args reply =
     (case store kv (ga_Key args) of
        None \<Rightarrow> reply\<lparr>gr_Err := ErrNoKey\<rparr>
      | Some entry \<Rightarrow> reply\<lparr>gr_Value := e_value entry, gr_Version := e_version entry, gr_Err := OK\<rparr>)"

definition KVServer_Put :: "KVServer \<Rightarrow> PutArgs \<Rightarrow> PutReply \<Rightarrow> KVServer \<times> PutReply" where
  "KVServer_Put kv args reply =
     (case store kv (pa_Key args) of
        None \<Rightarrow>
          if pa_Version args \<noteq> 0 then (kv, reply\<lparr>pr_Err := ErrNoKey\<rparr>)
          else (kv\<lparr>store := (store kv)(pa_Key args \<mapsto> \<lparr>e_value = pa_Value args, e_version = 1\<rparr>)\<rparr>,
                reply\<lparr>pr_Err := OK\<rparr>)
      | Some entry \<Rightarrow>
          if pa_Version args \<noteq> e_version entry then (kv, reply\<lparr>pr_Err := ErrVersion\<rparr>)
          else (kv\<lparr>store := (store kv)(pa_Key args \<mapsto>
                  \<lparr>e_value = pa_Value args, e_version = e_version entry + 1\<rparr>)\<rparr>,
                reply\<lparr>pr_Err := OK\<rparr>))"

lemmas kvserver_defs = KVServer_Get_def KVServer_Put_def

subsection \<open>Behaviour\<close>

text \<open>The version the server holds for a key, 0 for a key it does not hold.\<close>

definition ver :: "KVServer \<Rightarrow> string \<Rightarrow> Tversion" where
  "ver kv k = (case store kv k of None \<Rightarrow> 0 | Some e \<Rightarrow> e_version e)"

text \<open>A \<open>Put\<close> answers \<open>OK\<close>, \<open>ErrNoKey\<close> or \<open>ErrVersion\<close>, and only \<open>OK\<close> changes the store.\<close>

lemma Put_no_effect: "pr_Err (snd (KVServer_Put kv a r)) \<noteq> OK \<Longrightarrow> fst (KVServer_Put kv a r) = kv"
  by (auto simp: KVServer_Put_def split: option.splits)

lemma Put_Err_cases: "pr_Err (snd (KVServer_Put kv a r)) \<in> {OK, ErrNoKey, ErrVersion}"
  by (auto simp: KVServer_Put_def split: option.splits)

lemma Put_OK_iff:
  "pr_Err (snd (KVServer_Put kv a r)) = OK \<longleftrightarrow> pa_Version a = ver kv (pa_Key a)"
  by (auto simp: KVServer_Put_def ver_def split: option.splits)

lemma Put_OK_store:
  "pr_Err (snd (KVServer_Put kv a r)) = OK \<Longrightarrow>
   store (fst (KVServer_Put kv a r)) =
     (store kv)(pa_Key a \<mapsto> \<lparr>e_value = pa_Value a, e_version = pa_Version a + 1\<rparr>)"
  by (auto simp: KVServer_Put_def split: option.splits if_splits)

lemma Put_ErrNoKey_iff:
  "pr_Err (snd (KVServer_Put kv a r)) = ErrNoKey \<longleftrightarrow> store kv (pa_Key a) = None \<and> pa_Version a \<noteq> 0"
  by (auto simp: KVServer_Put_def split: option.splits)

lemma Put_ErrVersion_iff:
  "pr_Err (snd (KVServer_Put kv a r)) = ErrVersion \<longleftrightarrow>
     (\<exists>e. store kv (pa_Key a) = Some e \<and> pa_Version a \<noteq> e_version e)"
  by (auto simp: KVServer_Put_def split: option.splits)

end
