(* ===== verification/KvModel.thy ===== *)
theory KvModel
  imports KVServer "HOL-Library.List_Lexorder" "HOL-Library.Char_ord"
begin

text \<open>
  The sequential specification the test-suite checks histories against, \<open>src/models1/kv.go\<close>, and
  the operation records of \<open>src/kvtest1/porcupine.go\<close>. The checker itself (the package
  \<open>porcupine\<close>) is third-party code: what it decides, that a history is linearizable with respect to
  the model, is the predicate \<open>linearizable\<close> below, written out in the usual way.
\<close>

subsection \<open>Inputs, outputs, states\<close>

record KvInput =
  in_Op :: "8 word"
  in_Key :: string
  in_Value :: string
  in_Version :: "64 word"

record KvOutput =
  out_Value :: string
  out_Version :: "64 word"
  out_Err :: string

record KvState =
  st_Value :: string
  st_Version :: "64 word"

definition KvModel_Init :: KvState where
  "KvModel_Init = \<lparr>st_Value = '''', st_Version = 0\<rparr>"

text \<open>
  \<open>Step\<close> returns whether the output is allowed and the next state. For an \<open>Op\<close> other than 0 and 1
  the Go code returns the string \<open>"<invalid>"\<close> as a state; the verdict is false, so no state
  follows it, and the model keeps the old one.
\<close>

definition KvModel_Step :: "KvState \<Rightarrow> KvInput \<Rightarrow> KvOutput \<Rightarrow> bool \<times> KvState" where
  "KvModel_Step st inp out =
     (if in_Op inp = 0 then (out_Value out = st_Value st, st)
      else if in_Op inp = 1 then
        (if st_Version st = in_Version inp
         then (out_Err out = ''OK'' \<or> out_Err out = ''ErrMaybe'',
               \<lparr>st_Value = in_Value inp, st_Version = st_Version st + 1\<rparr>)
         else (out_Err out = ''ErrVersion'' \<or> out_Err out = ''ErrMaybe'', st))
      else (False, st))"

subsection \<open>Operations and the partition by key\<close>

record Operation =
  op_ClientId :: int
  op_Input :: KvInput
  op_Call :: nat
  op_Output :: KvOutput
  op_Return :: nat

text \<open>
  \<open>Partition\<close> collects the operations of each key in order of their appearance and lists the
  collections in the sorted order of the keys.
\<close>

fun partition_add :: "(string \<rightharpoonup> Operation list) \<Rightarrow> Operation list \<Rightarrow> (string \<rightharpoonup> Operation list)" where
  "partition_add m [] = m"
| "partition_add m (v # vs) =
     (let key = in_Key (op_Input v)
      in partition_add (m(key \<mapsto> (case m key of None \<Rightarrow> [] | Some l \<Rightarrow> l) @ [v])) vs)"

definition history_keys :: "Operation list \<Rightarrow> string list" where
  "history_keys history = sort (remdups (map (in_Key \<circ> op_Input) history))"

definition KvModel_Partition :: "Operation list \<Rightarrow> Operation list list" where
  "KvModel_Partition history =
     map (\<lambda>k. case partition_add Map.empty history k of None \<Rightarrow> [] | Some l \<Rightarrow> l) (history_keys history)"

definition op_key :: "Operation \<Rightarrow> string" where
  "op_key v = in_Key (op_Input v)"

lemma partition_add_eq:
  "partition_add m vs k =
     (if k \<in> op_key ` set vs then Some ((case m k of None \<Rightarrow> [] | Some l \<Rightarrow> l) @ filter (\<lambda>v. op_key v = k) vs)
      else m k)"
  by (induction vs arbitrary: m) (auto simp: op_key_def Let_def empty_filter_conv image_iff)

lemma Partition_eq:
  "KvModel_Partition h = map (\<lambda>k. filter (\<lambda>v. op_key v = k) h) (history_keys h)"
proof -
  have "k \<in> set (history_keys h) \<Longrightarrow> k \<in> op_key ` set h" for k
    by (auto simp: history_keys_def op_key_def)
  then show ?thesis
    unfolding KvModel_Partition_def by (intro map_cong) (auto simp: partition_add_eq)
qed

subsection \<open>Linearizability\<close>

text \<open>A sequence of operations that the model accepts from a state.\<close>

fun model_accepts :: "KvState \<Rightarrow> Operation list \<Rightarrow> bool" where
  "model_accepts st [] = True"
| "model_accepts st (v # vs) =
     (fst (KvModel_Step st (op_Input v) (op_Output v)) \<and>
      model_accepts (snd (KvModel_Step st (op_Input v) (op_Output v))) vs)"

text \<open>
  A history of one key is linearizable when its operations can be put into one order that the model
  accepts and that never puts an operation after one that was called only after it had returned.
\<close>

definition linearizable :: "Operation list \<Rightarrow> bool" where
  "linearizable h \<longleftrightarrow>
     (\<exists>xs. mset xs = mset h \<and> sorted_wrt (\<lambda>a b. \<not> op_Return b < op_Call a) xs \<and>
           model_accepts KvModel_Init xs)"

text \<open>A history without overlapping operations has one order only: its own.\<close>

lemma sequential_linearizable:
  assumes seq: "sorted_wrt (\<lambda>a b. op_Return a < op_Call b) h" and pos: "\<forall>v\<in>set h. op_Call v \<le> op_Return v"
  shows "linearizable h \<longleftrightarrow> model_accepts KvModel_Init h"
proof
  have lt: "sorted_wrt (\<lambda>a b. op_Call a < op_Call b) h"
    using seq by (rule sorted_wrt_mono_rel [rotated]) (use pos in \<open>auto intro: le_less_trans\<close>)
  then have "distinct (map op_Call h)" by (induction h) auto
  moreover have "sorted (map op_Call h)"
    unfolding sorted_wrt_map using lt by (rule sorted_wrt_mono_rel [rotated]) simp
  ultimately have h: "inj_on op_Call (set h)" "distinct (map op_Call h)" "sorted (map op_Call h)"
    by (simp_all add: distinct_map)
  have tot: "op_Return b < op_Call a" if "a \<in> set h" "b \<in> set h" "op_Call b < op_Call a" for a b
  proof -
    from that obtain i j where ij: "i < length h" "j < length h" "a = h ! i" "b = h ! j"
      by (metis in_set_conv_nth)
    have "j < i"
    proof (rule ccontr)
      assume "\<not> j < i"
      then consider "i = j" | "i < j" by linarith
      then show False
        by cases (use that(3) ij sorted_wrt_nth_less [OF lt] in \<open>auto dest: less_asym\<close>)
    qed
    with sorted_wrt_nth_less [OF seq] ij show ?thesis by blast
  qed
  assume "linearizable h"
  then obtain xs where xs: "mset xs = mset h" "sorted_wrt (\<lambda>a b. \<not> op_Return b < op_Call a) xs"
    "model_accepts KvModel_Init xs" by (auto simp: linearizable_def)
  have s: "set xs = set h" using xs(1) by (rule mset_eq_setD)
  have "sorted (map op_Call xs)"
    unfolding sorted_wrt_map using xs(2) by (rule sorted_wrt_mono_rel [rotated]) (metis tot s linorder_not_less)
  moreover have "mset (map op_Call xs) = mset (map op_Call h)" using xs(1) by simp
  then have "distinct (map op_Call xs)" using h(2) by (metis distinct_count_atmost_1 mset_eq_setD)
  ultimately have "xs = h" using map_sorted_distinct_set_unique [of op_Call xs h] h s by simp
  with xs(3) show "model_accepts KvModel_Init h" by simp
next
  have "\<not> op_Return b < op_Call a" if "a \<in> set h" "b \<in> set h" "op_Return a < op_Call b" for a b
  proof -
    from pos that have "op_Call a \<le> op_Return a" "op_Call b \<le> op_Return b" by auto
    with that(3) show ?thesis by linarith
  qed
  then have "sorted_wrt (\<lambda>a b. \<not> op_Return b < op_Call a) h"
    using seq by (intro sorted_wrt_mono_rel [OF _ seq]) blast
  moreover assume "model_accepts KvModel_Init h"
  ultimately show "linearizable h" unfolding linearizable_def by blast
qed

end
