(* ===== verification/Clerk.thy ===== *)
theory Clerk
  imports KvModel
begin

text \<open>
  The client library of the key/value server, \<open>src/kvsrv1/client.go\<close>, together with the recording
  of operations in \<open>src/kvtest1/porcupine.go\<close>, as a system of any number of clerks and one server
  joined by a network that loses requests and replies.

  \<open>Clerk.Get\<close> and \<open>Clerk.Put\<close> are loops around \<open>ck.clnt.Call\<close>. One iteration of the loop is one
  attempt: the request may be lost, the server may handle it once, the reply may be lost, or the
  reply arrives. Between two steps of one clerk any other clerk may run, so an attempt is not
  atomic: the clerk's state records whether the server has handled the attempt already.
\<close>

subsection \<open>The clerk's control state\<close>

text \<open>An RPC in flight: not handled by the server yet, or handled, with this reply on its way.\<close>

datatype 'r call = Sent | Handled 'r

datatype ClerkPc =
    Idle
  | InGet GetArgs "GetReply call"
  | InPut PutArgs bool "PutReply call"  \<comment> \<open>the arguments and the variable \<open>retried\<close>\<close>

datatype ClerkRes = GetRes string Tversion Err | PutRes Err

definition Clerk_Get :: "string \<Rightarrow> ClerkPc" where
  "Clerk_Get key = InGet \<lparr>ga_Key = key\<rparr> Sent"

definition Clerk_Put :: "string \<Rightarrow> string \<Rightarrow> Tversion \<Rightarrow> ClerkPc" where
  "Clerk_Put key val version = InPut \<lparr>pa_Key = key, pa_Value = val, pa_Version = version\<rparr> False Sent"

text \<open>The network hands the request to the server, which runs the handler on a zero reply.\<close>

fun serve :: "KVServer \<Rightarrow> ClerkPc \<Rightarrow> (KVServer \<times> ClerkPc) option" where
  "serve kv (InGet a Sent) = Some (kv, InGet a (Handled (KVServer_Get kv a zero_GetReply)))"
| "serve kv (InPut a retried Sent) =
     (let (kv', reply) = KVServer_Put kv a zero_PutReply in Some (kv', InPut a retried (Handled reply)))"
| "serve kv pc = None"

text \<open>\<open>Call\<close> returns false: the clerk sleeps and goes round its loop.\<close>

fun call_failed :: "ClerkPc \<Rightarrow> ClerkPc option" where
  "call_failed (InGet a _) = Some (InGet a Sent)"
| "call_failed (InPut a _ _) = Some (InPut a True Sent)"
| "call_failed Idle = None"

text \<open>\<open>Call\<close> returns true: the clerk returns to its caller.\<close>

fun call_returned :: "ClerkPc \<Rightarrow> ClerkRes option" where
  "call_returned (InGet a (Handled reply)) = Some (GetRes (gr_Value reply) (gr_Version reply) (gr_Err reply))"
| "call_returned (InPut a retried (Handled reply)) =
     Some (PutRes (if pr_Err reply = ErrVersion \<and> retried then ErrMaybe else pr_Err reply))"
| "call_returned pc = None"

subsection \<open>Recorded operations\<close>

text \<open>The inputs and outputs \<open>kvtest.Get\<close> and \<open>kvtest.Put\<close> append to the operation log.\<close>

fun op_input :: "ClerkPc \<Rightarrow> KvInput" where
  "op_input (InGet a _) = \<lparr>in_Op = 0, in_Key = ga_Key a, in_Value = '''', in_Version = 0\<rparr>"
| "op_input (InPut a _ _) =
     \<lparr>in_Op = 1, in_Key = pa_Key a, in_Value = pa_Value a, in_Version = pa_Version a\<rparr>"
| "op_input Idle = \<lparr>in_Op = 2, in_Key = '''', in_Value = '''', in_Version = 0\<rparr>"

fun op_output :: "ClerkRes \<Rightarrow> KvOutput" where
  "op_output (GetRes val version err) =
     \<lparr>out_Value = val, out_Version = version, out_Err = err_string err\<rparr>"
| "op_output (PutRes err) = \<lparr>out_Value = '''', out_Version = 0, out_Err = err_string err\<rparr>"

subsection \<open>The system\<close>

text \<open>
  \<open>start c\<close> is the time stamp \<open>kvtest\<close> took before the pending operation of clerk \<open>c\<close>, \<open>now\<close> the
  clock, which every step advances, and \<open>oplog\<close> the operation log.
\<close>

record KvSys =
  srv :: KVServer
  pcs :: "nat \<Rightarrow> ClerkPc"
  start :: "nat \<Rightarrow> nat"
  now :: nat
  oplog :: "Operation list"

definition kv_init :: KvSys where
  "kv_init = \<lparr>srv = MakeKVServer, pcs = (\<lambda>_. Idle), start = (\<lambda>_. 0), now = 0, oplog = []\<rparr>"

definition begin_op :: "KvSys \<Rightarrow> nat \<Rightarrow> ClerkPc \<Rightarrow> KvSys" where
  "begin_op s c pc = s\<lparr>pcs := (pcs s)(c := pc), start := (start s)(c := now s), now := Suc (now s)\<rparr>"

definition end_op :: "KvSys \<Rightarrow> nat \<Rightarrow> ClerkRes \<Rightarrow> KvSys" where
  "end_op s c res =
     s\<lparr>pcs := (pcs s)(c := Idle), now := Suc (now s),
       oplog := oplog s @ [\<lparr>op_ClientId = int c, op_Input = op_input (pcs s c), op_Call = start s c,
                            op_Output = op_output res, op_Return = now s\<rparr>]\<rparr>"

inductive kv_step :: "KvSys \<Rightarrow> KvSys \<Rightarrow> bool" where
  call_get: "pcs s c = Idle \<Longrightarrow> kv_step s (begin_op s c (Clerk_Get key))"
| call_put: "pcs s c = Idle \<Longrightarrow> kv_step s (begin_op s c (Clerk_Put key val version))"
| deliver: "serve (srv s) (pcs s c) = Some (kv', pc') \<Longrightarrow>
     kv_step s (s\<lparr>srv := kv', pcs := (pcs s)(c := pc'), now := Suc (now s)\<rparr>)"
| lose: "call_failed (pcs s c) = Some pc' \<Longrightarrow>
     kv_step s (s\<lparr>pcs := (pcs s)(c := pc'), now := Suc (now s)\<rparr>)"
| return: "call_returned (pcs s c) = Some res \<Longrightarrow> kv_step s (end_op s c res)"

abbreviation kv_reach :: "KvSys \<Rightarrow> bool" where
  "kv_reach \<equiv> reach kv_init kv_step"

text \<open>The same steps as a function of an action, for the evaluation of concrete runs.\<close>

datatype kv_action =
    CallGet nat string
  | CallPut nat string string Tversion
  | Deliver nat
  | Lose nat
  | Return nat

fun kv_act :: "KvSys \<Rightarrow> kv_action \<Rightarrow> KvSys option" where
  "kv_act s (CallGet c key) =
     (if pcs s c = Idle then Some (begin_op s c (Clerk_Get key)) else None)"
| "kv_act s (CallPut c key val version) =
     (if pcs s c = Idle then Some (begin_op s c (Clerk_Put key val version)) else None)"
| "kv_act s (Deliver c) =
     (case serve (srv s) (pcs s c) of None \<Rightarrow> None
      | Some (kv', pc') \<Rightarrow> Some (s\<lparr>srv := kv', pcs := (pcs s)(c := pc'), now := Suc (now s)\<rparr>))"
| "kv_act s (Lose c) =
     (case call_failed (pcs s c) of None \<Rightarrow> None
      | Some pc' \<Rightarrow> Some (s\<lparr>pcs := (pcs s)(c := pc'), now := Suc (now s)\<rparr>))"
| "kv_act s (Return c) =
     (case call_returned (pcs s c) of None \<Rightarrow> None | Some res \<Rightarrow> Some (end_op s c res))"

lemma kv_act_step: "kv_act s a = Some t \<Longrightarrow> kv_step s t"
  by (cases a) (auto split: if_splits option.splits prod.splits intro: kv_step.intros)

lemmas kv_run_reach = run_reach [OF reach_init _ kv_act_step]

end
