(* ===== verification/LockSrv.thy ===== *)
theory LockSrv
  imports Clerk
begin

text \<open>
  The distributed lock of \<open>src/kvsrv1/lock/lock.go\<close>, built on the clerk interface
  (\<open>kvtest.IKVClerk\<close>). A lock client writes its identifier under the lock's key with a conditional
  \<open>Put\<close>; what it relies on is the conditional store of the locale \<open>cas_store\<close>, which
  \<open>KVServer\<close> implements.
\<close>

subsection \<open>The interface: a store with compare-and-set\<close>

type_synonym content = "(string \<times> Tversion) option"

locale cas_store =
  fixes get :: "'s \<Rightarrow> string \<Rightarrow> content"
    and put :: "'s \<Rightarrow> string \<Rightarrow> string \<Rightarrow> Tversion \<Rightarrow> 's \<times> Err"
  assumes put_present: "get s k = Some (v, n) \<Longrightarrow> snd (put s k v' m) = (if m = n then OK else ErrVersion)"
    and put_absent: "get s k = None \<Longrightarrow> snd (put s k v' m) = (if m = 0 then OK else ErrNoKey)"
    and put_writes: "snd (put s k v' m) = OK \<Longrightarrow> get (fst (put s k v' m)) j =
          (if j = k then Some (v', m + 1) else get s j)"
    and put_refused: "snd (put s k v' m) \<noteq> OK \<Longrightarrow> fst (put s k v' m) = s"
begin

text \<open>A key that is present stays present, and a write to one key leaves the others alone.\<close>

lemma put_other: "j \<noteq> k \<Longrightarrow> get (fst (put s k v m)) j = get s j"
  using put_writes [of s k v m j] put_refused [of s k v m] by (cases "snd (put s k v m) = OK") auto

lemma put_same:
  "get (fst (put s k v' m)) k =
     (case get s k of
        None \<Rightarrow> if m = 0 then Some (v', 1) else None
      | Some (v, n) \<Rightarrow> if m = n then Some (v', n + 1) else Some (v, n))"
proof (cases "get s k")
  case None
  then show ?thesis
    using put_absent [OF None, of v' m] put_writes [of s k v' m k] put_refused [of s k v' m]
    by (cases "m = 0") auto
next
  case (Some x)
  then obtain v n where x: "get s k = Some (v, n)" by (cases x) auto
  then show ?thesis
    using put_present [OF x, of v' m] put_writes [of s k v' m k] put_refused [of s k v' m]
    by (cases "m = n") auto
qed

end

definition kv_content :: "KVServer \<Rightarrow> string \<Rightarrow> content" where
  "kv_content kv k = map_option (\<lambda>e. (e_value e, e_version e)) (store kv k)"

definition kv_put :: "KVServer \<Rightarrow> string \<Rightarrow> string \<Rightarrow> Tversion \<Rightarrow> KVServer \<times> Err" where
  "kv_put kv k v n =
     (let (kv', r) = KVServer_Put kv \<lparr>pa_Key = k, pa_Value = v, pa_Version = n\<rparr> zero_PutReply in (kv', pr_Err r))"

interpretation kvs: cas_store kv_content kv_put
  by unfold_locales
    (auto simp: kv_content_def kv_put_def KVServer_Put_def split: option.splits if_splits)

subsection \<open>Identifiers\<close>

text \<open>
  \<open>kvtest.RandValue\<close>: a string of \<open>n\<close> letters. The random numbers are an argument; \<open>rand.Int63\<close>
  returns non-negative numbers.
\<close>

definition letterBytes :: string where
  "letterBytes = ''abcdefghijklmnopqrstuvwxyzABCDEFGHIJKLMNOPQRSTUVWXYZ''"

definition RandValue :: "(nat \<Rightarrow> nat) \<Rightarrow> nat \<Rightarrow> string" where
  "RandValue int63 n = map (\<lambda>i. letterBytes ! (int63 i mod length letterBytes)) [0..<n]"

lemma length_RandValue [simp]: "length (RandValue int63 n) = n"
  by (simp add: RandValue_def)

subsection \<open>The lock object and its operations\<close>

record Lock =
  lk_key :: string
  lk_held :: bool
  lk_version :: Tversion
  lk_id :: string

text \<open>
  The points of \<open>MakeLock\<close>, \<open>Acquire\<close> and \<open>Release\<close> at which a clerk call is in progress, with the
  clerk's own control state; \<open>LkReady\<close> is a client that runs none of them.
\<close>

datatype LockPc =
    LkMake ClerkPc
  | LkReady
  | AcqGet ClerkPc
  | AcqPut Tversion ClerkPc
  | AcqCheck ClerkPc
  | RelPut ClerkPc
  | RelCheck ClerkPc

definition MakeLock :: "string \<Rightarrow> string \<Rightarrow> Lock \<times> LockPc" where
  "MakeLock l ident =
     (\<lparr>lk_key = l, lk_held = False, lk_version = 0, lk_id = ident\<rparr>,
      LkMake (Clerk_Put l ''available'' 0))"

definition Acquire :: "Lock \<Rightarrow> LockPc" where
  "Acquire lk = AcqGet (Clerk_Get (lk_key lk))"

definition Release :: "Lock \<Rightarrow> LockPc" where
  "Release lk = (if \<not> lk_held lk then LkReady
     else RelPut (Clerk_Put (lk_key lk) ''available'' (lk_version lk)))"

text \<open>What each of them does with the result of the clerk call it waited for.\<close>

fun lock_resume :: "Lock \<Rightarrow> LockPc \<Rightarrow> ClerkRes \<Rightarrow> Lock \<times> LockPc" where
  "lock_resume lk (LkMake _) res = (lk, LkReady)"
| "lock_resume lk (AcqGet _) (GetRes val version err) =
     (if err \<noteq> OK then (lk, Acquire lk)
      else if val = lk_id lk then (lk\<lparr>lk_held := True, lk_version := version\<rparr>, LkReady)
      else if val \<noteq> ''available'' then (lk, Acquire lk)
      else (lk, AcqPut version (Clerk_Put (lk_key lk) (lk_id lk) version)))"
| "lock_resume lk (AcqPut version _) (PutRes err) =
     (if err = OK then (lk\<lparr>lk_held := True, lk_version := version + 1\<rparr>, LkReady)
      else if err = ErrMaybe then (lk, AcqCheck (Clerk_Get (lk_key lk)))
      else (lk, Acquire lk))"
| "lock_resume lk (AcqCheck _) (GetRes val newVer err2) =
     (if err2 = OK \<and> val = lk_id lk then (lk\<lparr>lk_held := True, lk_version := newVer\<rparr>, LkReady)
      else (lk, Acquire lk))"
| "lock_resume lk (RelPut _) (PutRes err) =
     (if err = OK then (lk\<lparr>lk_held := False\<rparr>, LkReady)
      else if err = ErrMaybe then (lk, RelCheck (Clerk_Get (lk_key lk)))
      else (lk, RelPut (Clerk_Put (lk_key lk) ''available'' (lk_version lk))))"
| "lock_resume lk (RelCheck _) (GetRes val _ err2) =
     (if err2 = OK \<and> val \<noteq> lk_id lk then (lk\<lparr>lk_held := False\<rparr>, LkReady)
      else (lk, RelPut (Clerk_Put (lk_key lk) ''available'' (lk_version lk))))"
| "lock_resume lk pc res = (lk, pc)"

fun lock_clerk :: "LockPc \<Rightarrow> ClerkPc" where
  "lock_clerk (LkMake ck) = ck"
| "lock_clerk LkReady = Idle"
| "lock_clerk (AcqGet ck) = ck"
| "lock_clerk (AcqPut version ck) = ck"
| "lock_clerk (AcqCheck ck) = ck"
| "lock_clerk (RelPut ck) = ck"
| "lock_clerk (RelCheck ck) = ck"

fun with_clerk :: "LockPc \<Rightarrow> ClerkPc \<Rightarrow> LockPc" where
  "with_clerk (LkMake _) ck = LkMake ck"
| "with_clerk LkReady ck = LkReady"
| "with_clerk (AcqGet _) ck = AcqGet ck"
| "with_clerk (AcqPut version _) ck = AcqPut version ck"
| "with_clerk (AcqCheck _) ck = AcqCheck ck"
| "with_clerk (RelPut _) ck = RelPut ck"
| "with_clerk (RelCheck _) ck = RelCheck ck"

subsection \<open>The system of lock clients\<close>

text \<open>
  \<open>ls_n\<close> clients, each with one lock object, on one server. Clients with the same key share a lock.
  Other applications may write other keys at any time. The network loses requests and replies, and it
  may give up on a request whose handler has not run yet: such a \<open>Put\<close> is in \<open>ls_late\<close> and may be executed
  at any later time.
\<close>

record LockSys =
  ls_n :: nat
  ls_srv :: KVServer
  ls_lock :: "nat \<Rightarrow> Lock"
  ls_pc :: "nat \<Rightarrow> LockPc"
  ls_now :: nat
  ls_late :: "PutArgs set"

definition lock_init :: "nat \<Rightarrow> (nat \<Rightarrow> string) \<Rightarrow> (nat \<Rightarrow> string) \<Rightarrow> LockSys" where
  "lock_init n keys ids =
     \<lparr>ls_n = n, ls_srv = MakeKVServer, ls_lock = (\<lambda>c. fst (MakeLock (keys c) (ids c))),
      ls_pc = (\<lambda>c. snd (MakeLock (keys c) (ids c))), ls_now = 0, ls_late = {}\<rparr>"

definition set_client :: "LockSys \<Rightarrow> nat \<Rightarrow> KVServer \<Rightarrow> Lock \<Rightarrow> LockPc \<Rightarrow> LockSys" where
  "set_client s c kv lk pc =
     s\<lparr>ls_srv := kv, ls_lock := (ls_lock s)(c := lk), ls_pc := (ls_pc s)(c := pc), ls_now := Suc (ls_now s)\<rparr>"

inductive lock_step :: "LockSys \<Rightarrow> LockSys \<Rightarrow> bool" where
  acquire: "c < ls_n s \<Longrightarrow> ls_pc s c = LkReady \<Longrightarrow>
     lock_step s (set_client s c (ls_srv s) (ls_lock s c) (Acquire (ls_lock s c)))"
| release: "c < ls_n s \<Longrightarrow> ls_pc s c = LkReady \<Longrightarrow>
     lock_step s (set_client s c (ls_srv s) (ls_lock s c) (Release (ls_lock s c)))"
| lock_deliver: "c < ls_n s \<Longrightarrow> serve (ls_srv s) (lock_clerk (ls_pc s c)) = Some (kv', ck') \<Longrightarrow>
     lock_step s (set_client s c kv' (ls_lock s c) (with_clerk (ls_pc s c) ck'))"
| lock_lose: "c < ls_n s \<Longrightarrow> call_failed (lock_clerk (ls_pc s c)) = Some ck' \<Longrightarrow>
     lock_step s (set_client s c (ls_srv s) (ls_lock s c) (with_clerk (ls_pc s c) ck'))"
| lock_return: "c < ls_n s \<Longrightarrow> call_returned (lock_clerk (ls_pc s c)) = Some res \<Longrightarrow>
     lock_resume (ls_lock s c) (ls_pc s c) res = (lk', pc') \<Longrightarrow>
     lock_step s (set_client s c (ls_srv s) lk' pc')"
| other_put: "\<forall>c<ls_n s. pa_Key a \<noteq> lk_key (ls_lock s c) \<Longrightarrow>
     lock_step s (s\<lparr>ls_srv := fst (KVServer_Put (ls_srv s) a r), ls_now := Suc (ls_now s)\<rparr>)"
| lock_abandon: "c < ls_n s \<Longrightarrow> lock_clerk (ls_pc s c) = InPut a rt Sent \<Longrightarrow>
     lock_step s ((set_client s c (ls_srv s) (ls_lock s c) (with_clerk (ls_pc s c) (InPut a True Sent)))
       \<lparr>ls_late := insert a (ls_late s)\<rparr>)"
| lock_late: "a \<in> ls_late s \<Longrightarrow>
     lock_step s (s\<lparr>ls_srv := fst (KVServer_Put (ls_srv s) a r), ls_now := Suc (ls_now s)\<rparr>)"

text \<open>The same steps as a function of an action, for the evaluation of concrete runs.\<close>

datatype lock_action = DoAcquire nat | DoRelease nat | DoDeliver nat | DoLose nat | DoReturn nat
  | DoAbandon nat | DoLate PutArgs

fun lock_act :: "LockSys \<Rightarrow> lock_action \<Rightarrow> LockSys option" where
  "lock_act s (DoAcquire c) = (if c < ls_n s \<and> ls_pc s c = LkReady
     then Some (set_client s c (ls_srv s) (ls_lock s c) (Acquire (ls_lock s c))) else None)"
| "lock_act s (DoRelease c) = (if c < ls_n s \<and> ls_pc s c = LkReady
     then Some (set_client s c (ls_srv s) (ls_lock s c) (Release (ls_lock s c))) else None)"
| "lock_act s (DoDeliver c) = (if c < ls_n s then
     (case serve (ls_srv s) (lock_clerk (ls_pc s c)) of None \<Rightarrow> None
      | Some (kv', ck') \<Rightarrow> Some (set_client s c kv' (ls_lock s c) (with_clerk (ls_pc s c) ck'))) else None)"
| "lock_act s (DoLose c) = (if c < ls_n s then
     (case call_failed (lock_clerk (ls_pc s c)) of None \<Rightarrow> None
      | Some ck' \<Rightarrow> Some (set_client s c (ls_srv s) (ls_lock s c) (with_clerk (ls_pc s c) ck'))) else None)"
| "lock_act s (DoReturn c) = (if c < ls_n s then
     (case call_returned (lock_clerk (ls_pc s c)) of None \<Rightarrow> None
      | Some res \<Rightarrow> (let (lk', pc') = lock_resume (ls_lock s c) (ls_pc s c) res
                     in Some (set_client s c (ls_srv s) lk' pc'))) else None)"
| "lock_act s (DoAbandon c) = (if c < ls_n s then
     (case lock_clerk (ls_pc s c) of
        InPut a rt Sent \<Rightarrow> Some ((set_client s c (ls_srv s) (ls_lock s c) (with_clerk (ls_pc s c) (InPut a True Sent)))
          \<lparr>ls_late := insert a (ls_late s)\<rparr>)
      | _ \<Rightarrow> None) else None)"
| "lock_act s (DoLate a) = (if a \<in> ls_late s
     then Some (s\<lparr>ls_srv := fst (KVServer_Put (ls_srv s) a zero_PutReply), ls_now := Suc (ls_now s)\<rparr>) else None)"

lemma lock_act_step: "lock_act s a = Some t \<Longrightarrow> lock_step s t"
  by (cases a) (auto split: if_splits option.splits prod.splits ClerkPc.splits call.splits intro: lock_step.intros)

lemmas lock_run_reach = run_reach [OF reach_init _ lock_act_step]

text \<open>A client is in its critical section when \<open>Acquire\<close> has returned and \<open>Release\<close> was not called.\<close>

definition in_cs :: "LockSys \<Rightarrow> nat \<Rightarrow> bool" where
  "in_cs s c \<longleftrightarrow> c < ls_n s \<and> ls_pc s c = LkReady \<and> lk_held (ls_lock s c)"

subsection \<open>The invariant\<close>

text \<open>
  What a client at each point of its code knows about the content of its key, over every
  interleaving with the others:
  \<^item> \<open>owns c n\<close>: the key holds its identifier at version \<open>n\<close>;
  \<^item> \<open>seen_free c n\<close>: the version has reached \<open>n\<close>, and if it still is \<open>n\<close> the lock is free;
  \<^item> \<open>given_up c n\<close>: the version has passed \<open>n\<close> and the key holds another value.
\<close>

definition owns :: "string \<Rightarrow> content \<Rightarrow> Tversion \<Rightarrow> bool" where
  "owns ident c n \<longleftrightarrow> c = Some (ident, n)"

definition seen_free :: "content \<Rightarrow> Tversion \<Rightarrow> bool" where
  "seen_free c n \<longleftrightarrow> (\<exists>v m. c = Some (v, m) \<and> unat n \<le> unat m \<and> (n = m \<longrightarrow> v = ''available''))"

definition given_up :: "string \<Rightarrow> content \<Rightarrow> Tversion \<Rightarrow> bool" where
  "given_up ident c n \<longleftrightarrow> (\<exists>v m. c = Some (v, m) \<and> unat n < unat m \<and> v \<noteq> ident)"

lemmas content_defs = owns_def seen_free_def given_up_def

fun read_ok :: "string \<Rightarrow> content \<Rightarrow> GetReply call \<Rightarrow> bool" where
  "read_ok ident c Sent = True"
| "read_ok ident c (Handled r) =
     (gr_Err r = OK \<longrightarrow> (gr_Value r = ident \<longrightarrow> owns ident c (gr_Version r)) \<and>
                       (gr_Value r = ''available'' \<longrightarrow> seen_free c (gr_Version r)))"

fun rel_ok :: "string \<Rightarrow> content \<Rightarrow> Tversion \<Rightarrow> bool \<Rightarrow> PutReply call \<Rightarrow> bool" where
  "rel_ok ident c n rt Sent = (if rt then owns ident c n \<or> given_up ident c n else owns ident c n)"
| "rel_ok ident c n rt (Handled r) = (given_up ident c n \<and> (pr_Err r = OK \<or> (pr_Err r = ErrVersion \<and> rt)))"

fun lpc_ok :: "string \<Rightarrow> Lock \<Rightarrow> content \<Rightarrow> LockPc \<Rightarrow> bool" where
  "lpc_ok k lk c (LkMake ck) \<longleftrightarrow> \<not> lk_held lk \<and>
     (\<exists>rt st. ck = InPut \<lparr>pa_Key = k, pa_Value = ''available'', pa_Version = 0\<rparr> rt st)"
| "lpc_ok k lk c LkReady \<longleftrightarrow> (lk_held lk \<longrightarrow> owns (lk_id lk) c (lk_version lk))"
| "lpc_ok k lk c (AcqGet ck) \<longleftrightarrow> (\<exists>st. ck = InGet \<lparr>ga_Key = k\<rparr> st \<and> read_ok (lk_id lk) c st)"
| "lpc_ok k lk c (AcqPut v ck) \<longleftrightarrow>
     (\<exists>rt st. ck = InPut \<lparr>pa_Key = k, pa_Value = lk_id lk, pa_Version = v\<rparr> rt st \<and> seen_free c v \<and>
              (\<forall>r. st = Handled r \<and> pr_Err r = OK \<longrightarrow> owns (lk_id lk) c (v + 1)))"
| "lpc_ok k lk c (AcqCheck ck) \<longleftrightarrow> (\<exists>st. ck = InGet \<lparr>ga_Key = k\<rparr> st \<and> read_ok (lk_id lk) c st)"
| "lpc_ok k lk c (RelPut ck) \<longleftrightarrow>
     (\<exists>rt st. ck = InPut \<lparr>pa_Key = k, pa_Value = ''available'', pa_Version = lk_version lk\<rparr> rt st \<and>
              rel_ok (lk_id lk) c (lk_version lk) rt st)"
| "lpc_ok k lk c (RelCheck ck) \<longleftrightarrow>
     (\<exists>st. ck = InGet \<lparr>ga_Key = k\<rparr> st \<and> given_up (lk_id lk) c (lk_version lk) \<and>
           (\<forall>r. st = Handled r \<longrightarrow> gr_Err r = OK \<and> gr_Value r \<noteq> lk_id lk))"

text \<open>A write by somebody else, as one client sees it: never over its own identifier.\<close>

definition foreign :: "string \<Rightarrow> content \<Rightarrow> content \<Rightarrow> bool" where
  "foreign ident c c' \<longleftrightarrow> c' = c \<or>
     (\<exists>v'. v' \<noteq> ident \<and>
        (case c of None \<Rightarrow> c' = Some (v', 1)
         | Some (v, n) \<Rightarrow> v \<noteq> ident \<and> unat (n + 1) = Suc (unat n) \<and> c' = Some (v', n + 1)))"

lemma foreign_facts:
  assumes "foreign ident c c'"
  shows "owns ident c n \<Longrightarrow> owns ident c' n" "seen_free c n \<Longrightarrow> seen_free c' n"
    "given_up ident c n \<Longrightarrow> given_up ident c' n"
  using assms unfolding foreign_def content_defs by (auto split: option.splits)

lemma lpc_ok_foreign:
  assumes "foreign (lk_id lk) c c'" "lpc_ok k lk c pc"
  shows "lpc_ok k lk c' pc"
proof -
  note f = foreign_facts [OF assms(1)]
  have r: "read_ok (lk_id lk) c st \<Longrightarrow> read_ok (lk_id lk) c' st" for st
    using f by (cases st) auto
  have p: "rel_ok (lk_id lk) c n rt st \<Longrightarrow> rel_ok (lk_id lk) c' n rt st" for n rt st
    using f by (cases st) auto
  show ?thesis
  proof (cases pc)
    case (RelCheck ck)
    with assms(2) f(3) show ?thesis by fastforce
  next
    case (AcqPut v ck)
    with assms(2) f(1,2) show ?thesis by fastforce
  qed (use assms(2) f r p in auto)
qed

definition lock_inv :: "(nat \<Rightarrow> string) \<Rightarrow> (nat \<Rightarrow> string) \<Rightarrow> LockSys \<Rightarrow> bool" where
  "lock_inv keys ids s \<longleftrightarrow>
     (\<forall>c<ls_n s. lk_key (ls_lock s c) = keys c \<and> lk_id (ls_lock s c) = ids c \<and>
          lpc_ok (keys c) (ls_lock s c) (kv_content (ls_srv s) (keys c)) (ls_pc s c)) \<and>
     (\<forall>k v n. kv_content (ls_srv s) k = Some (v, n) \<longrightarrow> 0 < unat n \<and> unat n \<le> ls_now s)"

lemma lock_inv_init: "lock_inv keys ids (lock_init n keys ids)"
  by (auto simp: lock_inv_def lock_init_def MakeLock_def Clerk_Put_def kv_content_def MakeKVServer_def)

text \<open>A step that leaves the server alone concerns one client only.\<close>

lemma lock_inv_local:
  assumes "lock_inv keys ids s" "c < ls_n s" "lk_key lk' = keys c" "lk_id lk' = ids c"
    "lpc_ok (keys c) lk' (kv_content (ls_srv s) (keys c)) pc'"
  shows "lock_inv keys ids (set_client s c (ls_srv s) lk' pc')"
  using assms by (auto simp: lock_inv_def set_client_def le_SucI)

text \<open>A step that changes the server: the other clients see a foreign write.\<close>

lemma lock_inv_write:
  assumes inv: "lock_inv keys ids s"
    and c: "c < ls_n s" and me: "lpc_ok (keys c) (ls_lock s c) (kv_content kv' (keys c)) pc'"
    and others: "\<And>d. d < ls_n s \<Longrightarrow> d \<noteq> c \<Longrightarrow> foreign (ids d) (kv_content (ls_srv s) (keys d)) (kv_content kv' (keys d))"
    and vers: "\<And>k v n. kv_content kv' k = Some (v, n) \<Longrightarrow> 0 < unat n \<and> unat n \<le> Suc (ls_now s)"
  shows "lock_inv keys ids (set_client s c kv' (ls_lock s c) pc')"
proof -
  have "lpc_ok (keys d) (ls_lock s d) (kv_content kv' (keys d)) (ls_pc s d)" if "d < ls_n s" "d \<noteq> c" for d
    using inv others [OF that] that by (auto simp: lock_inv_def intro: lpc_ok_foreign)
  with inv c me vers show ?thesis by (auto simp: lock_inv_def set_client_def)
qed

subsection \<open>Every step keeps the invariant\<close>

lemma versions_put:
  assumes vers: "\<And>k v n. kv_content kv k = Some (v, n) \<Longrightarrow> 0 < unat n \<and> unat n \<le> N"
    and bound: "Suc N < 2 ^ 64" and "kv_content (fst (kv_put kv k v' m)) j = Some (w, n)"
  shows "0 < unat n \<and> unat n \<le> Suc N"
proof -
  have suc: "unat (i + 1) = Suc (unat i)" if "kv_content kv k = Some (x, i)" for x i
    using vers [OF that] bound by (intro unat_Suc_word) linarith
  show ?thesis
  proof (cases "kv_content kv j = Some (w, n)")
    case True
    from vers [OF this] show ?thesis by simp
  next
    case False
    with assms(3) have "j = k" by (metis kvs.put_other)
    with False assms(3) consider "n = 1" | x where "kv_content kv k = Some (x, m)" "n = m + 1"
      by (auto simp: kvs.put_same split: option.splits if_splits)
    then show ?thesis
    proof cases
      case 2
      with suc [OF 2(1)] vers [OF 2(1)] show ?thesis by simp
    qed simp
  qed
qed

lemma foreign_put:
  assumes vers: "\<And>k v n. kv_content kv k = Some (v, n) \<Longrightarrow> 0 < unat n \<and> unat n \<le> N"
    and bound: "Suc N < 2 ^ 64" and "v' \<noteq> ident"
    and "\<And>v. kv_content kv k = Some (v, m) \<Longrightarrow> v \<noteq> ident"
  shows "foreign ident (kv_content kv j) (kv_content (fst (kv_put kv k v' m)) j)"
proof (cases "j = k")
  case True
  have suc: "unat (i + 1) = Suc (unat i)" if "kv_content kv k = Some (x, i)" for x i
    using vers [OF that] bound by (intro unat_Suc_word) linarith
  with True assms show ?thesis
    by (auto simp: foreign_def kvs.put_same split: option.splits if_splits)
next
  case False
  then show ?thesis by (simp add: foreign_def kvs.put_other)
qed

lemma serve_put:
  "serve kv (InPut \<lparr>pa_Key = k, pa_Value = v, pa_Version = n\<rparr> rt Sent) =
     Some (fst (kv_put kv k v n), InPut \<lparr>pa_Key = k, pa_Value = v, pa_Version = n\<rparr> rt
             (Handled \<lparr>pr_Err = snd (kv_put kv k v n)\<rparr>))"
  by (simp add: kv_put_def case_prod_beta)

lemma serve_get_iff:
  "serve kv (InGet a st) = Some x \<longleftrightarrow>
     st = Sent \<and> x = (kv, InGet a (Handled (KVServer_Get kv a zero_GetReply)))"
  by (cases st) auto

lemma serve_putD: "serve kv (InPut b rt st) = Some x \<Longrightarrow> st = Sent"
  by (cases st) auto

text \<open>Where a clerk's \<open>Put\<close> is delivered: all that a lock client writes respects the others.\<close>

lemma lock_inv_put:
  assumes inv: "lock_inv keys ids s" and bound: "Suc (ls_now s) < 2 ^ 64"
    and ids: "inj_on ids {..<ls_n s}" "\<And>c. ids c \<noteq> ''available''" and c: "c < ls_n s"
    and v': "v' = ''available'' \<or> v' = ids c"
    and free: "\<And>v. kv_content (ls_srv s) (keys c) = Some (v, m) \<Longrightarrow> v = ''available'' \<or> v = ids c"
    and me: "lpc_ok (keys c) (ls_lock s c) (kv_content (fst (kv_put (ls_srv s) (keys c) v' m)) (keys c)) pc'"
  shows "lock_inv keys ids (set_client s c (fst (kv_put (ls_srv s) (keys c) v' m)) (ls_lock s c) pc')"
proof (rule lock_inv_write [where c = c, OF inv c me])
  have vers: "\<And>k v n. kv_content (ls_srv s) k = Some (v, n) \<Longrightarrow> 0 < unat n \<and> unat n \<le> ls_now s"
    using inv by (auto simp: lock_inv_def)
  fix d
  assume "d < ls_n s" "d \<noteq> c"
  with ids c have d: "ids c \<noteq> ids d" "''available'' \<noteq> ids d" by (auto dest: inj_onD) metis
  show "foreign (ids d) (kv_content (ls_srv s) (keys d))
      (kv_content (fst (kv_put (ls_srv s) (keys c) v' m)) (keys d))"
  proof (rule foreign_put [OF vers bound])
    show "v' \<noteq> ids d" using v' d by auto
    show "v \<noteq> ids d" if "kv_content (ls_srv s) (keys c) = Some (v, m)" for v
      using free [OF that] d by auto
  qed
next
  fix k v n
  assume "kv_content (fst (kv_put (ls_srv s) (keys c) v' m)) k = Some (v, n)"
  with inv bound show "0 < unat n \<and> unat n \<le> Suc (ls_now s)"
    by (intro versions_put [of "ls_srv s" "ls_now s"]) (auto simp: lock_inv_def)
qed

lemma get_reply_content:
  "KVServer_Get kv \<lparr>ga_Key = k\<rparr> zero_GetReply =
     (case kv_content kv k of None \<Rightarrow> zero_GetReply\<lparr>gr_Err := ErrNoKey\<rparr>
      | Some (v, n) \<Rightarrow> \<lparr>gr_Value = v, gr_Version = n, gr_Err = OK\<rparr>)"
  by (auto simp: KVServer_Get_def kv_content_def zero_GetReply_def split: option.splits)

lemma lock_inv_get:
  assumes inv: "lock_inv keys ids s" and c: "c < ls_n s" and pc: "lock_clerk (ls_pc s c) = InGet a Sent"
  shows "lock_inv keys ids (set_client s c (ls_srv s) (ls_lock s c)
     (with_clerk (ls_pc s c) (InGet a (Handled (KVServer_Get (ls_srv s) a zero_GetReply)))))"
proof (rule lock_inv_local [OF inv c])
  have ok: "lpc_ok (keys c) (ls_lock s c) (kv_content (ls_srv s) (keys c)) (ls_pc s c)"
    using inv c by (simp add: lock_inv_def)
  with pc have a: "a = \<lparr>ga_Key = keys c\<rparr>" by (cases "ls_pc s c") auto
  show "lpc_ok (keys c) (ls_lock s c) (kv_content (ls_srv s) (keys c))
     (with_clerk (ls_pc s c) (InGet a (Handled (KVServer_Get (ls_srv s) a zero_GetReply))))"
    using ok pc unfolding a get_reply_content
    by (cases "ls_pc s c") (auto simp: content_defs split: option.splits)
qed (use inv c in \<open>auto simp: lock_inv_def\<close>)

lemma lock_inv_deliver:
  assumes inv: "lock_inv keys ids s" and bound: "Suc (ls_now s) < 2 ^ 64"
    and ids: "inj_on ids {..<ls_n s}" "\<And>c. ids c \<noteq> ''available''" and c: "c < ls_n s"
    and sv: "serve (ls_srv s) (lock_clerk (ls_pc s c)) = Some (kv', ck')"
  shows "lock_inv keys ids (set_client s c kv' (ls_lock s c) (with_clerk (ls_pc s c) ck'))"
proof -
  let ?k = "keys c" and ?id = "ids c"
  let ?c = "kv_content (ls_srv s) ?k"
  have ok: "lpc_ok ?k (ls_lock s c) ?c (ls_pc s c)" and id: "lk_id (ls_lock s c) = ?id"
    using inv c by (auto simp: lock_inv_def)
  have vers: "0 < unat n \<and> unat n \<le> ls_now s" if "?c = Some (v, n)" for v n
    using inv that by (auto simp: lock_inv_def)
  have suc: "unat (n + 1) = Suc (unat n)" if "?c = Some (v, n)" for v n
    using vers [OF that] bound by (intro unat_Suc_word) linarith
  note put = lock_inv_put [OF inv bound ids c]
  show ?thesis
  proof (cases "ls_pc s c")
    case (LkMake ck)
    with ok obtain rt st where ck: "ck = InPut \<lparr>pa_Key = ?k, pa_Value = ''available'', pa_Version = 0\<rparr> rt st"
      and nh: "\<not> lk_held (ls_lock s c)" by auto
    with sv LkMake have "st = Sent" by (auto dest: serve_putD)
    with sv ck nh LkMake show ?thesis
      using vers by (auto simp: serve_put simp del: serve.simps intro!: put)
  next
    case (AcqPut v ck)
    with ok id obtain rt st where ck: "ck = InPut \<lparr>pa_Key = ?k, pa_Value = ?id, pa_Version = v\<rparr> rt st"
      and free: "seen_free ?c v" by auto
    with sv AcqPut have st: "st = Sent" by (auto dest: serve_putD)
    from free suc have "seen_free (kv_content (fst (kv_put (ls_srv s) ?k ?id v)) ?k) v"
      by (auto simp: seen_free_def kvs.put_same)
    moreover have "snd (kv_put (ls_srv s) ?k ?id v) = OK \<Longrightarrow>
        owns ?id (kv_content (fst (kv_put (ls_srv s) ?k ?id v)) ?k) (v + 1)"
      by (simp add: kvs.put_writes owns_def)
    ultimately show ?thesis
      using sv ck st AcqPut free id
      by (auto simp: serve_put seen_free_def simp del: serve.simps intro!: put)
  next
    case (RelPut ck)
    let ?n = "lk_version (ls_lock s c)"
    from RelPut ok id obtain rt st where
      ck: "ck = InPut \<lparr>pa_Key = ?k, pa_Value = ''available'', pa_Version = ?n\<rparr> rt st"
      and rel: "rel_ok ?id ?c ?n rt st" by auto
    with sv RelPut have st: "st = Sent" by (auto dest: serve_putD)
    have "rel_ok ?id (kv_content (fst (kv_put (ls_srv s) ?k ''available'' ?n)) ?k) ?n rt
        (Handled \<lparr>pr_Err = snd (kv_put (ls_srv s) ?k ''available'' ?n)\<rparr>)"
      using rel suc ids(2) [of c] not_sym [OF ids(2) [of c]] unfolding st
      by (auto simp: content_defs kvs.put_same kvs.put_present split: if_splits)
    then show ?thesis
      using sv ck st RelPut rel id
      by (auto simp: serve_put content_defs simp del: serve.simps rel_ok.simps(2) split: if_splits intro!: put)
  qed (use sv lock_inv_get [OF inv c] ok in \<open>auto simp: serve_get_iff\<close>)
qed

lemma lock_inv_lose:
  assumes inv: "lock_inv keys ids s" and c: "c < ls_n s" and f: "call_failed (lock_clerk (ls_pc s c)) = Some ck'"
  shows "lock_inv keys ids (set_client s c (ls_srv s) (ls_lock s c) (with_clerk (ls_pc s c) ck'))"
proof (rule lock_inv_local [OF inv c])
  have ok: "lpc_ok (keys c) (ls_lock s c) (kv_content (ls_srv s) (keys c)) (ls_pc s c)"
    using inv c by (simp add: lock_inv_def)
  have rel: "rel_ok i x n rt st \<Longrightarrow> rel_ok i x n True Sent" for i x n rt st
    by (cases st) (auto split: if_splits)
  show "lpc_ok (keys c) (ls_lock s c) (kv_content (ls_srv s) (keys c)) (with_clerk (ls_pc s c) ck')"
  proof (cases "ls_pc s c")
    case (RelPut ck)
    with ok obtain rt st where
      ck: "ck = InPut \<lparr>pa_Key = keys c, pa_Value = ''available'', pa_Version = lk_version (ls_lock s c)\<rparr> rt st"
      and r: "rel_ok (lk_id (ls_lock s c)) (kv_content (ls_srv s) (keys c)) (lk_version (ls_lock s c)) rt st"
      by auto
    from RelPut f ck rel [OF r] show ?thesis by (auto simp: ex_bool_eq simp del: rel_ok.simps)
  qed (use ok f in \<open>auto simp: ex_bool_eq\<close>)
qed (use inv c in \<open>auto simp: lock_inv_def\<close>)

lemma lock_inv_return:
  assumes inv: "lock_inv keys ids s" and c: "c < ls_n s" and ret: "call_returned (lock_clerk (ls_pc s c)) = Some res"
    and res: "lock_resume (ls_lock s c) (ls_pc s c) res = (lk', pc')"
  shows "lock_inv keys ids (set_client s c (ls_srv s) lk' pc')"
proof -
  let ?c = "kv_content (ls_srv s) (keys c)"
  have ok: "lpc_ok (keys c) (ls_lock s c) ?c (ls_pc s c)"
    and key: "lk_key (ls_lock s c) = keys c" "lk_id (ls_lock s c) = ids c"
    using inv c by (auto simp: lock_inv_def)
  note pcdefs = Acquire_def Clerk_Get_def Clerk_Put_def
  have "lk_key lk' = keys c \<and> lk_id lk' = ids c \<and> lpc_ok (keys c) lk' ?c pc'"
  proof (cases "ls_pc s c")
    case (AcqGet ck)
    with ok obtain st where ck: "ck = InGet \<lparr>ga_Key = keys c\<rparr> st" and r: "read_ok (ids c) ?c st"
      using key by auto
    with AcqGet ret res key show ?thesis
      by (cases st) (auto simp: pcdefs ex_bool_eq split: if_splits)
  next
    case (AcqCheck ck)
    with ok obtain st where ck: "ck = InGet \<lparr>ga_Key = keys c\<rparr> st" and r: "read_ok (ids c) ?c st"
      using key by auto
    with AcqCheck ret res key show ?thesis
      by (cases st) (auto simp: pcdefs ex_bool_eq split: if_splits)
  next
    case (AcqPut v ck)
    with ok ret res key show ?thesis
      by (cases "lock_clerk (ls_pc s c)" rule: call_returned.cases) (auto simp: pcdefs ex_bool_eq split: if_splits)
  next
    case (RelPut ck)
    with ok ret res key show ?thesis
      by (cases "lock_clerk (ls_pc s c)" rule: call_returned.cases) (auto simp: pcdefs ex_bool_eq split: if_splits)
  next
    case (RelCheck ck)
    with ok ret res key show ?thesis
      by (cases "lock_clerk (ls_pc s c)" rule: call_returned.cases) (auto simp: pcdefs ex_bool_eq split: if_splits)
  qed (use ok ret res key in \<open>auto\<close>)
  then show ?thesis using lock_inv_local [OF inv c, of lk' pc'] by blast
qed

subsection \<open>Late requests\<close>

text \<open>A \<open>Put\<close> that can have no effect any more, and what is known of the requests that may run late.\<close>

definition superseded :: "KVServer \<Rightarrow> PutArgs \<Rightarrow> bool" where
  "superseded kv a \<longleftrightarrow> (\<exists>v m. kv_content kv (pa_Key a) = Some (v, m) \<and> unat (pa_Version a) < unat m)"

definition late_ok :: "LockSys \<Rightarrow> bool" where
  "late_ok s \<longleftrightarrow>
     (\<forall>a\<in>ls_late s. superseded (ls_srv s) a \<or> (\<exists>c<ls_n s. \<exists>st. lock_clerk (ls_pc s c) = InPut a True st)) \<and>
     (\<forall>c<ls_n s. \<forall>a rt r. lock_clerk (ls_pc s c) = InPut a rt (Handled r) \<longrightarrow> superseded (ls_srv s) a)"

lemma Put_kv_put: "fst (KVServer_Put kv a r) = fst (kv_put kv (pa_Key a) (pa_Value a) (pa_Version a))"
  by (auto simp: kv_put_def KVServer_Put_def split: option.splits)

lemma superseded_refused: "superseded kv a \<Longrightarrow> fst (KVServer_Put kv a r) = kv"
  unfolding Put_kv_put by (rule kvs.put_refused) (auto simp: superseded_def kvs.put_present split: if_splits)

lemma superseded_put:
  assumes vers: "\<And>k v n. kv_content kv k = Some (v, n) \<Longrightarrow> 0 < unat n \<and> unat n \<le> N" and "Suc N < 2 ^ 64"
    and "superseded kv a"
  shows "superseded (fst (kv_put kv k v' m)) a"
proof (cases "pa_Key a = k")
  case True
  from assms(3) obtain v n where c: "kv_content kv k = Some (v, n)" "unat (pa_Version a) < unat n"
    by (auto simp: superseded_def True)
  have "unat (n + 1) = Suc (unat n)" using vers [OF c(1)] assms(2) by (intro unat_Suc_word) linarith
  with c show ?thesis by (auto simp: superseded_def True kvs.put_same)
qed (use assms(3) in \<open>auto simp: superseded_def kvs.put_other\<close>)

text \<open>The versions lock clients name have been reached, so a handled \<open>Put\<close> is superseded.\<close>

lemma lock_put_supersedes:
  assumes inv: "lock_inv keys ids s" and bound: "Suc (ls_now s) < 2 ^ 64" and c: "c < ls_n s"
    and pc: "lock_clerk (ls_pc s c) = InPut a rt Sent"
  shows "superseded (fst (KVServer_Put (ls_srv s) a r)) a"
proof -
  let ?c = "kv_content (ls_srv s) (keys c)"
  have ok: "lpc_ok (keys c) (ls_lock s c) ?c (ls_pc s c)" using inv c by (simp add: lock_inv_def)
  have vers: "0 < unat n \<and> unat n \<le> ls_now s" if "?c = Some (v, n)" for v n
    using inv that by (auto simp: lock_inv_def)
  have suc: "unat (n + 1) = Suc (unat n)" if "?c = Some (v, n)" for v n
    using vers [OF that] bound by (intro unat_Suc_word) linarith
  have key: "pa_Key a = keys c" using ok pc by (cases "ls_pc s c") auto
  have "(?c = None \<and> pa_Version a = 0) \<or> (\<exists>v m. ?c = Some (v, m) \<and> unat (pa_Version a) \<le> unat m)"
    using ok pc by (cases "ls_pc s c"; cases ?c) (auto simp: content_defs split: if_splits)
  then consider "?c = None" "pa_Version a = 0" | v m where "?c = Some (v, m)" "unat (pa_Version a) \<le> unat m"
    by auto
  then show ?thesis
  proof cases
    case (2 v m)
    then have "unat (pa_Version a) < unat m" if "pa_Version a \<noteq> m"
      using that by (metis order_le_less word_unat_eq_iff)
    with 2(1) suc [OF 2(1)] show ?thesis by (simp add: Put_kv_put superseded_def key kvs.put_same)
  qed (simp add: Put_kv_put superseded_def key kvs.put_same)
qed

text \<open>
  A late \<open>Put\<close> that takes effect belongs to a client that is trying it again: for the others it is the
  delivery of that client's request, the reply to which is lost.
\<close>

lemma lock_inv_late:
  assumes inv: "lock_inv keys ids s" and late: "late_ok s" and bound: "Suc (ls_now s) < 2 ^ 64"
    and ids: "inj_on ids {..<ls_n s}" "\<And>c. ids c \<noteq> ''available''" and a: "a \<in> ls_late s"
  shows "lock_inv keys ids (s\<lparr>ls_srv := fst (KVServer_Put (ls_srv s) a r), ls_now := Suc (ls_now s)\<rparr>)"
proof (cases "superseded (ls_srv s) a")
  case True
  with inv show ?thesis by (auto simp: superseded_refused lock_inv_def le_SucI)
next
  case False
  with late a obtain c st where c: "c < ls_n s" and st: "lock_clerk (ls_pc s c) = InPut a True st"
    by (auto simp: late_ok_def)
  have "st \<noteq> Handled x" for x using late False c st unfolding late_ok_def by blast
  then have pc: "lock_clerk (ls_pc s c) = InPut a True Sent" using st by (cases st) auto
  let ?kv = "fst (KVServer_Put (ls_srv s) a r)" and ?r = "snd (KVServer_Put (ls_srv s) a zero_PutReply)"
  have kv: "?kv = fst (KVServer_Put (ls_srv s) a zero_PutReply)" by (simp add: Put_kv_put)
  let ?d = "set_client s c ?kv (ls_lock s c) (with_clerk (ls_pc s c) (InPut a True (Handled ?r)))"
  have d: "lock_inv keys ids ?d"
    unfolding kv by (rule lock_inv_deliver [OF inv bound ids c]) (simp add: pc case_prod_beta)
  have "with_clerk (with_clerk (ls_pc s c) ck) (lock_clerk (ls_pc s c)) = ls_pc s c"
    "lock_clerk (with_clerk (ls_pc s c) ck) = ck" for ck
    using pc by (cases "ls_pc s c"; simp)+
  then have "lock_inv keys ids (set_client ?d c ?kv (ls_lock s c) (ls_pc s c))"
    using lock_inv_lose [OF d, of c "InPut a True Sent"] c pc by (simp add: set_client_def)
  with d show ?thesis by (auto simp: lock_inv_def set_client_def fun_upd_idem)
qed

lemma late_ok_keep:
  assumes "late_ok s" "\<And>a. superseded (ls_srv s) a \<Longrightarrow> superseded (ls_srv t) a" "ls_n t = ls_n s" "ls_late t \<subseteq> ls_late s"
    and "\<And>d. d < ls_n s \<Longrightarrow> d \<noteq> c \<Longrightarrow> ls_pc t d = ls_pc s d"
    and "\<And>a st. c < ls_n s \<Longrightarrow> lock_clerk (ls_pc s c) = InPut a True st \<Longrightarrow>
      superseded (ls_srv t) a \<or> (\<exists>st'. lock_clerk (ls_pc t c) = InPut a True st')"
    and "\<And>a rt r. c < ls_n s \<Longrightarrow> lock_clerk (ls_pc t c) = InPut a rt (Handled r) \<Longrightarrow> superseded (ls_srv t) a"
  shows "late_ok t"
  unfolding late_ok_def assms(3)
proof (intro conjI ballI allI impI)
  fix a assume "a \<in> ls_late t"
  with assms(1,4) consider "superseded (ls_srv s) a" | d st where "d < ls_n s" "lock_clerk (ls_pc s d) = InPut a True st"
    unfolding late_ok_def by blast
  then show "superseded (ls_srv t) a \<or> (\<exists>c<ls_n s. \<exists>st. lock_clerk (ls_pc t c) = InPut a True st)"
  proof cases
    case (2 d st)
    then show ?thesis using assms(5,6) by (cases "d = c") metis+
  qed (use assms(2) in blast)
next
  fix d a rt r
  assume d: "d < ls_n s" "lock_clerk (ls_pc t d) = InPut a rt (Handled r)"
  show "superseded (ls_srv t) a"
  proof (cases "d = c")
    case False
    with d assms(5) have "lock_clerk (ls_pc s d) = InPut a rt (Handled r)" by metis
    with assms(1) d(1) show ?thesis by (intro assms(2)) (auto simp: late_ok_def)
  qed (use d assms(7) in blast)
qed

lemma late_ok_client:
  assumes "late_ok s" "\<And>a. superseded (ls_srv s) a \<Longrightarrow> superseded kv' a"
    "\<And>a st. lock_clerk (ls_pc s c) = InPut a True st \<Longrightarrow> superseded kv' a \<or> (\<exists>st'. lock_clerk pc' = InPut a True st')"
    "\<And>a rt r. lock_clerk pc' = InPut a rt (Handled r) \<Longrightarrow> superseded kv' a"
  shows "late_ok (set_client s c kv' lk pc')"
  by (rule late_ok_keep [where c = c, OF assms(1)]) (use assms(2-4) in \<open>simp_all add: set_client_def\<close>)

lemma late_ok_server:
  assumes "late_ok s" "\<And>a. superseded (ls_srv s) a \<Longrightarrow> superseded kv' a"
  shows "late_ok (s\<lparr>ls_srv := kv', ls_now := n\<rparr>)"
  using assms unfolding late_ok_def by simp blast

lemma lock_clerk_with [simp]: "lock_clerk pc \<noteq> Idle \<Longrightarrow> lock_clerk (with_clerk pc ck) = ck"
  by (cases pc) simp_all

lemma lock_step_inv:
  assumes "lock_step s t" "lock_inv keys ids s" "late_ok s" "ls_now t < 2 ^ 64" "inj_on ids {..<ls_n s}"
    and ids: "\<And>c. ids c \<noteq> ''available''"
  shows "lock_inv keys ids t"
  using assms(1-5)
proof (induction rule: lock_step.induct)
  case (acquire c s)
  then show ?case
    by (intro lock_inv_local) (auto simp: lock_inv_def Acquire_def Clerk_Get_def)
next
  case (release c s)
  then have "lpc_ok (keys c) (ls_lock s c) (kv_content (ls_srv s) (keys c)) LkReady"
    by (metis lock_inv_def)
  with release show ?case
    by (intro lock_inv_local) (auto simp: lock_inv_def Release_def Clerk_Put_def)
next
  case (lock_deliver c s kv' ck')
  then show ?case by (intro lock_inv_deliver [OF _ _ _ ids]) (auto simp: set_client_def)
next
  case (lock_lose c s ck')
  then show ?case by (intro lock_inv_lose)
next
  case (lock_return c s res lk' pc')
  then show ?case by (intro lock_inv_return)
next
  case (other_put s a r)
  let ?kv = "fst (kv_put (ls_srv s) (pa_Key a) (pa_Value a) (pa_Version a))"
  have kv: "fst (KVServer_Put (ls_srv s) a r) = ?kv" by (rule Put_kv_put)
  have "pa_Key a \<noteq> keys c" if "c < ls_n s" for c using other_put that by (metis lock_inv_def)
  then have same: "kv_content ?kv (keys c) = kv_content (ls_srv s) (keys c)" if "c < ls_n s" for c
    using that by (metis kvs.put_other)
  have "0 < unat n \<and> unat n \<le> Suc (ls_now s)" if "kv_content ?kv k = Some (v, n)" for k v n
    using other_put that by (intro versions_put [OF _ _ that]) (auto simp: lock_inv_def)
  with other_put.prems same show ?case unfolding kv by (auto simp: lock_inv_def)
next
  case (lock_abandon c s a rt)
  then have "lock_inv keys ids (set_client s c (ls_srv s) (ls_lock s c) (with_clerk (ls_pc s c) (InPut a True Sent)))"
    by (intro lock_inv_lose) auto
  then show ?case by (simp add: lock_inv_def set_client_def)
next
  case (lock_late a s r)
  then show ?case by (intro lock_inv_late [OF _ _ _ _ ids]) auto
qed

lemma superseded_grows:
  assumes "lock_inv keys ids s" "Suc (ls_now s) < 2 ^ 64" "superseded (ls_srv s) b"
  shows "superseded (fst (KVServer_Put (ls_srv s) a r)) b"
  unfolding Put_kv_put by (rule superseded_put [OF _ assms(2,3)]) (use assms(1) in \<open>auto simp: lock_inv_def\<close>)

lemma late_ok_deliver:
  assumes inv: "lock_inv keys ids s" "late_ok s" and bound: "Suc (ls_now s) < 2 ^ 64" and c: "c < ls_n s"
    and sv: "serve (ls_srv s) (lock_clerk (ls_pc s c)) = Some (kv', ck')"
  shows "late_ok (set_client s c kv' (ls_lock s c) (with_clerk (ls_pc s c) ck'))"
proof -
  from sv consider (get) a where "lock_clerk (ls_pc s c) = InGet a Sent" | (put) a rt where "lock_clerk (ls_pc s c) = InPut a rt Sent"
    by (cases "(ls_srv s, lock_clerk (ls_pc s c))" rule: serve.cases) auto
  then show ?thesis
  proof cases
    case (get a)
    with sv have "kv' = ls_srv s" "ck' = InGet a (Handled (KVServer_Get (ls_srv s) a zero_GetReply))" by auto
    with get show ?thesis by (intro late_ok_client [OF inv(2)]) simp_all
  next
    case (put a rt)
    with sv have kv: "kv' = fst (KVServer_Put (ls_srv s) a zero_PutReply)"
      and ck: "ck' = InPut a rt (Handled (snd (KVServer_Put (ls_srv s) a zero_PutReply)))" by (auto simp: case_prod_beta)
    have "superseded kv' a" unfolding kv by (rule lock_put_supersedes [OF inv(1) bound c put])
    moreover have "superseded kv' b" if "superseded (ls_srv s) b" for b
      unfolding kv by (rule superseded_grows [OF inv(1) bound that])
    ultimately show ?thesis using put ck by (intro late_ok_client [OF inv(2)]) simp_all
  qed
qed

lemma late_ok_resume:
  assumes inv: "late_ok s" and c: "c < ls_n s" and ret: "call_returned (lock_clerk (ls_pc s c)) = Some res"
    and res: "lock_resume (ls_lock s c) (ls_pc s c) res = (lk', pc')"
  shows "late_ok (set_client s c (ls_srv s) lk' pc')"
proof (rule late_ok_client [OF inv])
  have h: "superseded (ls_srv s) a" if "lock_clerk (ls_pc s c) = InPut a rt (Handled r)" for a rt r
    using inv c that unfolding late_ok_def by blast
  show "superseded (ls_srv s) a \<or> (\<exists>st'. lock_clerk pc' = InPut a True st')"
    if "lock_clerk (ls_pc s c) = InPut a True st" for a st
    using ret that h by (cases st) auto
  have "pc' = ls_pc s c \<or> (\<forall>a rt r. lock_clerk pc' \<noteq> InPut a rt (Handled r))"
    using res by (cases "(ls_lock s c, ls_pc s c, res)" rule: lock_resume.cases)
      (auto simp: Acquire_def Clerk_Get_def Clerk_Put_def split: if_splits)
  then show "superseded (ls_srv s) a" if "lock_clerk pc' = InPut a rt (Handled r)" for a rt r
    using that h by auto
qed

lemma late_ok_step:
  assumes "lock_step s t" "lock_inv keys ids s" "late_ok s" "ls_now t < 2 ^ 64"
  shows "late_ok t"
  using assms
proof (induction rule: lock_step.induct)
  case (acquire c s)
  then show ?case by (intro late_ok_client) (simp_all add: Acquire_def Clerk_Get_def)
next
  case (release c s)
  then show ?case by (intro late_ok_client) (simp_all add: Release_def Clerk_Put_def split: if_splits)
next
  case (lock_deliver c s kv' ck')
  then show ?case by (intro late_ok_deliver) (simp_all add: set_client_def)
next
  case (lock_lose c s ck')
  then have ck: "lock_clerk (ls_pc s c) \<noteq> Idle" "\<And>a rt r. ck' \<noteq> InPut a rt (Handled r)"
    "\<And>a st. lock_clerk (ls_pc s c) = InPut a True st \<Longrightarrow> ck' = InPut a True Sent"
    by (cases "lock_clerk (ls_pc s c)"; auto)+
  from lock_lose(4) show ?case by (rule late_ok_client) (use ck in auto)
next
  case (lock_return c s res lk' pc')
  then show ?case by (intro late_ok_resume)
next
  case (other_put s a r)
  then have "superseded (fst (KVServer_Put (ls_srv s) a r)) b" if "superseded (ls_srv s) b" for b
    using that by (intro superseded_grows) auto
  with other_put(3) show ?case by (intro late_ok_server)
next
  case (lock_abandon c s a rt)
  let ?t = "set_client s c (ls_srv s) (ls_lock s c) (with_clerk (ls_pc s c) (InPut a True Sent))"
  have "late_ok ?t" using lock_abandon by (intro late_ok_client) simp_all
  moreover have "lock_clerk (ls_pc ?t c) = InPut a True Sent" "c < ls_n ?t"
    using lock_abandon by (simp_all add: set_client_def)
  ultimately show ?case unfolding late_ok_def by (auto simp: set_client_def)
next
  case (lock_late a s r)
  then have "superseded (fst (KVServer_Put (ls_srv s) a r)) b" if "superseded (ls_srv s) b" for b
    using that by (intro superseded_grows) auto
  with lock_late(3) show ?case by (intro late_ok_server)
qed

lemma lock_step_now: "lock_step s t \<Longrightarrow> ls_now s \<le> ls_now t \<and> ls_n t = ls_n s"
  by (auto elim!: lock_step.cases simp: set_client_def)

text \<open>The identifiers of \<open>RandValue(16)\<close> differ from the word that marks a free lock.\<close>

lemma RandValue_not_available: "RandValue rnd 16 \<noteq> ''available''"
proof
  assume "RandValue rnd 16 = ''available''"
  then have "length ''available'' = 16" by (metis length_RandValue)
  then show False by simp
qed

lemma lock_reach_inv:
  assumes "reach (lock_init n keys ids) lock_step s" and "ls_now s < 2 ^ 64"
    and rnd: "\<And>c. ids c = RandValue (rnd c) 16" and inj: "inj_on ids {..<n}"
  shows "lock_inv keys ids s \<and> ls_n s = n"
proof -
  have ids: "ids c \<noteq> ''available''" for c
    using rnd RandValue_not_available by metis
  have "clocked_invariant (lock_init n keys ids) lock_step ls_now (2 ^ 64) (\<lambda>s. lock_inv keys ids s \<and> late_ok s \<and> ls_n s = n)"
  proof (unfold_locales, goal_cases)
    case 1
    show ?case using lock_inv_init by (simp add: lock_init_def late_ok_def MakeLock_def Clerk_Put_def)
  next
    case (2 s t)
    then show ?case using lock_step_inv [OF _ _ _ _ _ ids, of s t keys] late_ok_step [of s t keys ids] lock_step_now [of s t] inj by auto
  next
    case (3 s t)
    then show ?case using lock_step_now by blast
  qed
  from clocked_invariant.reach_inv [OF this assms(1,2)] show ?thesis by blast
qed

lemma in_cs_owns:
  assumes "lock_inv keys ids s" "in_cs s c"
  shows "owns (ids c) (kv_content (ls_srv s) (keys c)) (lk_version (ls_lock s c))"
proof -
  from assms have "lpc_ok (keys c) (ls_lock s c) (kv_content (ls_srv s) (keys c)) (ls_pc s c)"
    and "lk_id (ls_lock s c) = ids c" by (auto simp: lock_inv_def in_cs_def)
  with assms(2) show ?thesis by (simp add: in_cs_def)
qed

subsection \<open>Mutual exclusion\<close>

text \<open>
  \<^bold>\<open>C4\<close>: Mutual exclusion. Any number of clients call \<open>MakeLock\<close>, \<open>Acquire\<close> and \<open>Release\<close> in any order
  over a network that loses requests and replies, so that every \<open>Put\<close> may answer \<open>ErrMaybe\<close>, and that may
  execute a request it has given up at any later time; other applications use other keys of the same
  server. Two clients of the same lock are never both
  between a return of \<open>Acquire\<close> and the next call of \<open>Release\<close>. The identifiers, drawn by
  \<open>RandValue(16)\<close>, are assumed distinct.
\<close>

theorem lock_mutual_exclusion:
  assumes "reach (lock_init n keys ids) lock_step s" and "ls_now s < 2 ^ 64"
    and "\<And>c. ids c = RandValue (rnd c) 16" and "inj_on ids {..<n}"
    and "in_cs s c" and "in_cs s d" and "keys c = keys d"
  shows "c = d"
proof -
  from lock_reach_inv [OF assms(1-4)] have inv: "lock_inv keys ids s" and n: "ls_n s = n" by auto
  from in_cs_owns [OF inv assms(5)] in_cs_owns [OF inv assms(6)] assms(7) have "ids c = ids d"
    by (simp add: owns_def)
  with assms(4-6) n show ?thesis by (auto simp: in_cs_def dest: inj_onD)
qed


definition sample_ids :: "nat \<Rightarrow> string" where
  "sample_ids c = RandValue (\<lambda>_. c) 16"

text \<open>
  Two clients make the lock; client 0 acquires it through a \<open>Put\<close> that the network gives up and executes
  late, so that it learns of its success only from the check after \<open>ErrMaybe\<close>; client 1 tries and finds it
  taken.
\<close>

definition lock_sample_run :: "lock_action list" where
  "lock_sample_run = [DoDeliver 0, DoReturn 0, DoDeliver 1, DoReturn 1, DoAcquire 0, DoDeliver 0,
     DoReturn 0, DoAbandon 0, DoLate \<lparr>pa_Key = ''l'', pa_Value = sample_ids 0, pa_Version = 1\<rparr>, DoDeliver 0,
     DoReturn 0, DoDeliver 0, DoReturn 0, DoAcquire 1, DoDeliver 1]"

lemma sample_ids_inj: "inj_on sample_ids {..<2}"
proof -
  have "{..<2::nat} = {0, 1}" by auto
  then show ?thesis by (simp add: sample_ids_def RandValue_def letterBytes_def upt_rec)
qed

lemmas lock_eval = lock_init_def set_client_def MakeLock_def Acquire_def Release_def Clerk_Get_def
  Clerk_Put_def kvserver_defs MakeKVServer_def zero_PutReply_def zero_GetReply_def Let_def

lemma lock_sample_state:
  "\<exists>s. run lock_act (lock_init 2 (\<lambda>_. ''l'') sample_ids) lock_sample_run = Some s \<and> ls_now s < 2 ^ 64 \<and>
     in_cs s 0"
proof -
  have ne: "sample_ids 0 \<noteq> ''available''" "sample_ids 1 \<noteq> ''available''"
    "sample_ids (Suc 0) \<noteq> ''available''"
    by (simp_all add: sample_ids_def RandValue_not_available)
  then have ne': "''available'' \<noteq> sample_ids 0" "''available'' \<noteq> sample_ids 1"
    "''available'' \<noteq> sample_ids (Suc 0)"
    by metis+
  show ?thesis by (simp add: lock_sample_run_def lock_eval in_cs_def ne ne')
qed

theorem lock_mutual_exclusion_witness:
  "\<exists>s. reach (lock_init 2 (\<lambda>_. ''l'') sample_ids) lock_step s \<and> ls_now s < 2 ^ 64 \<and> in_cs s 0 \<and> \<not> in_cs s 1"
proof -
  obtain s where s: "run lock_act (lock_init 2 (\<lambda>_. ''l'') sample_ids) lock_sample_run = Some s"
    "ls_now s < 2 ^ 64" "in_cs s 0" using lock_sample_state by blast
  from s(1) have r: "reach (lock_init 2 (\<lambda>_. ''l'') sample_ids) lock_step s" by (rule lock_run_reach)
  have "\<not> in_cs s 1"
    using lock_mutual_exclusion [OF r s(2) sample_ids_def sample_ids_inj s(3), of 1] by auto
  with r s show ?thesis by blast
qed

text \<open>
  \<^bold>\<open>C11\<close>: \<open>Release\<close> does not spin. Whenever the \<open>Put\<close> of a \<open>Release\<close> returns, its answer is \<open>OK\<close> or
  \<open>ErrMaybe\<close>: after \<open>OK\<close> the call returns; after \<open>ErrMaybe\<close> it checks, and the check finds the key in
  other hands, so the call returns as well. The branch "still our ID, retry" and the silent retry
  on any other error are never taken, and the client no longer owns the key when the call returns.
\<close>

theorem lock_release_returns:
  assumes "reach (lock_init n keys ids) lock_step s" and "ls_now s < 2 ^ 64"
    and "\<And>c. ids c = RandValue (rnd c) 16" and "inj_on ids {..<n}"
    and "c < n" and "ls_pc s c \<in> {RelPut ck, RelCheck ck}" and "call_returned ck = Some res"
  shows "lock_resume (ls_lock s c) (ls_pc s c) res =
    (if ls_pc s c = RelPut ck \<and> res = PutRes ErrMaybe
     then (ls_lock s c, RelCheck (Clerk_Get (keys c))) else ((ls_lock s c)\<lparr>lk_held := False\<rparr>, LkReady)) \<and>
    \<not> owns (ids c) (kv_content (ls_srv s) (keys c)) m"
proof -
  from lock_reach_inv [OF assms(1-4)] assms(5)
  have ok: "lpc_ok (keys c) (ls_lock s c) (kv_content (ls_srv s) (keys c)) (ls_pc s c)"
    and key: "lk_key (ls_lock s c) = keys c" "lk_id (ls_lock s c) = ids c"
    by (auto simp: lock_inv_def)
  from assms(6) consider "ls_pc s c = RelPut ck" | "ls_pc s c = RelCheck ck" by auto
  then show ?thesis
    using assms(7) ok key
    by cases (cases ck rule: call_returned.cases; auto simp: content_defs)+
qed


definition release_sample_run :: "lock_action list" where
  "release_sample_run = [DoDeliver 0, DoReturn 0, DoAcquire 0, DoDeliver 0, DoReturn 0, DoDeliver 0, DoReturn 0,
     DoRelease 0, DoDeliver 0, DoLose 0, DoDeliver 0]"

lemma release_sample_state:
  "\<exists>s ck. run lock_act (lock_init 2 (\<lambda>_. ''l'') sample_ids) release_sample_run = Some s \<and> ls_now s < 2 ^ 64 \<and>
     ls_pc s 0 = RelPut ck \<and> call_returned ck = Some (PutRes ErrMaybe)"
proof -
  have ne: "sample_ids 0 \<noteq> ''available''" by (simp add: sample_ids_def RandValue_not_available)
  then have ne': "''available'' \<noteq> sample_ids 0" by metis
  show ?thesis by (simp add: release_sample_run_def lock_eval ne ne')
qed

theorem lock_release_returns_witness:
  "\<exists>s ck. reach (lock_init 2 (\<lambda>_. ''l'') sample_ids) lock_step s \<and> ls_pc s 0 = RelPut ck \<and>
     call_returned ck = Some (PutRes ErrMaybe) \<and>
     lock_resume (ls_lock s 0) (ls_pc s 0) (PutRes ErrMaybe) = (ls_lock s 0, RelCheck (Clerk_Get ''l'')) \<and>
     \<not> owns (sample_ids 0) (kv_content (ls_srv s) ''l'') 2"
proof -
  obtain s ck where s: "run lock_act (lock_init 2 (\<lambda>_. ''l'') sample_ids) release_sample_run = Some s"
    "ls_now s < 2 ^ 64" "ls_pc s 0 = RelPut ck" "call_returned ck = Some (PutRes ErrMaybe)"
    using release_sample_state by blast
  from s(1) have r: "reach (lock_init 2 (\<lambda>_. ''l'') sample_ids) lock_step s" by (rule lock_run_reach)
  from lock_release_returns [OF r s(2) sample_ids_def sample_ids_inj _ _ s(4), of 0 2] s(3)
  have "lock_resume (ls_lock s 0) (ls_pc s 0) (PutRes ErrMaybe) = (ls_lock s 0, RelCheck (Clerk_Get ''l''))"
    "\<not> owns (sample_ids 0) (kv_content (ls_srv s) ''l'') 2" by auto
  with r s show ?thesis by blast
qed

end
