(* ===== verification/KvLin.thy ===== *)
theory KvLin
  imports Clerk
begin

text \<open>
  Linearizability of the key/value service: every history the clerks record is accepted by
  \<open>models.KvModel\<close>. The proof keeps, beside a reachable state, the list of the server's handler
  runs that count: one run per operation, in the order in which the server made them. A \<open>Put\<close> whose
  reply was lost is run again by a later attempt; the run that counts is the successful one, if
  there is one, and the latest otherwise.
\<close>

subsection \<open>Handler runs\<close>

datatype event = EGet GetArgs GetReply | EPut PutArgs PutReply

fun ev_exec :: "KVServer \<Rightarrow> event \<Rightarrow> KVServer option" where
  "ev_exec kv (EGet a r) = (if KVServer_Get kv a zero_GetReply = r then Some kv else None)"
| "ev_exec kv (EPut a r) =
     (if snd (KVServer_Put kv a zero_PutReply) = r then Some (fst (KVServer_Put kv a zero_PutReply)) else None)"

fun evs_exec :: "KVServer \<Rightarrow> event list \<Rightarrow> KVServer option" where
  "evs_exec kv [] = Some kv"
| "evs_exec kv (e # es) = (case ev_exec kv e of None \<Rightarrow> None | Some kv' \<Rightarrow> evs_exec kv' es)"

fun no_effect :: "event \<Rightarrow> bool" where
  "no_effect (EGet a r) = True"
| "no_effect (EPut a r) = (pr_Err r \<noteq> OK)"

lemma ev_exec_no_effect: "ev_exec kv e = Some kv' \<Longrightarrow> no_effect e \<Longrightarrow> kv' = kv"
  by (cases e) (auto split: if_splits dest: Put_no_effect)

lemma evs_exec_append:
  "evs_exec kv (xs @ ys) = (case evs_exec kv xs of None \<Rightarrow> None | Some kv' \<Rightarrow> evs_exec kv' ys)"
  by (induction xs arbitrary: kv) (auto split: option.splits)

lemma evs_exec_filter:
  "evs_exec kv (map f L) = Some kv' \<Longrightarrow> \<forall>e\<in>set L. \<not> P e \<longrightarrow> no_effect (f e) \<Longrightarrow>
   evs_exec kv (map f (filter P L)) = Some kv'"
  by (induction L arbitrary: kv) (auto split: option.splits dest!: ev_exec_no_effect)

text \<open>The recorded input of an operation, and the outputs its counting run allows.\<close>

fun ev_input :: "event \<Rightarrow> KvInput" where
  "ev_input (EGet a r) = op_input (InGet a Sent)"
| "ev_input (EPut a r) = op_input (InPut a False Sent)"

fun ev_allows :: "event \<Rightarrow> KvOutput \<Rightarrow> bool" where
  "ev_allows (EGet a r) out \<longleftrightarrow> out = op_output (GetRes (gr_Value r) (gr_Version r) (gr_Err r))"
| "ev_allows (EPut a r) out \<longleftrightarrow>
     out = op_output (PutRes (pr_Err r)) \<or> (pr_Err r \<in> {OK, ErrVersion} \<and> out = op_output (PutRes ErrMaybe))"

fun ev_output :: "event \<Rightarrow> KvOutput" where
  "ev_output (EGet a r) = op_output (GetRes (gr_Value r) (gr_Version r) (gr_Err r))"
| "ev_output (EPut a r) = op_output (PutRes (pr_Err r))"

lemma ev_allows_output [simp]: "ev_allows e (ev_output e)"
  by (cases e) auto

subsection \<open>The server simulates the model, key by key\<close>

definition kvabs :: "KVServer \<Rightarrow> string \<Rightarrow> KvState" where
  "kvabs kv k =
     (case store kv k of None \<Rightarrow> KvModel_Init
      | Some e \<Rightarrow> \<lparr>st_Value = e_value e, st_Version = e_version e\<rparr>)"

text \<open>A \<open>Put\<close> that was answered \<open>ErrNoKey\<close>: the model has no such answer.\<close>

definition put_nokey :: "Operation \<Rightarrow> bool" where
  "put_nokey v \<longleftrightarrow> in_Op (op_Input v) = 1 \<and> out_Err (op_Output v) = ''ErrNoKey''"

lemma event_other_key:
  assumes "ev_exec kv e = Some kv'" "in_Key (ev_input e) \<noteq> k"
  shows "kvabs kv' k = kvabs kv k"
  using assms by (cases e) (auto simp: kvabs_def KVServer_Put_def split: if_splits option.splits)

lemma event_model_step:
  assumes "ev_exec kv e = Some kv'" "op_Input v = ev_input e" "ev_allows e (op_Output v)"
    "\<not> put_nokey v" "k = in_Key (ev_input e)"
  shows "KvModel_Step (kvabs kv k) (op_Input v) (op_Output v) = (True, kvabs kv' k)"
proof (cases e)
  case (EGet a r)
  with assms show ?thesis
    by (auto simp: KvModel_Step_def kvabs_def KVServer_Get_def KvModel_Init_def zero_GetReply_def
        split: if_splits option.splits)
next
  case (EPut a r)
  with assms show ?thesis
    by (auto simp: KvModel_Step_def kvabs_def KVServer_Put_def KvModel_Init_def zero_PutReply_def
        put_nokey_def split: if_splits option.splits)
qed

lemma event_nokey:
  assumes "ev_exec kv e = Some kv'" "op_Input v = ev_input e" "ev_allows e (op_Output v)" "put_nokey v"
  shows "kv' = kv"
proof (rule ev_exec_no_effect [OF assms(1)])
  show "no_effect e" using assms by (cases e) (auto simp: put_nokey_def)
qed

lemma events_accepted:
  assumes "evs_exec kv (map f L) = Some kv'"
    and "\<forall>x\<in>set L. op_Input (g x) = ev_input (f x) \<and> ev_allows (f x) (op_Output (g x))"
  shows "model_accepts (kvabs kv k) (filter (\<lambda>v. op_key v = k \<and> \<not> put_nokey v) (map g L))"
  using assms
proof (induction L arbitrary: kv)
  case (Cons x L)
  then obtain kv1 where ex: "ev_exec kv (f x) = Some kv1" and rest: "evs_exec kv1 (map f L) = Some kv'"
    by (auto split: option.splits)
  from Cons.prems have x: "op_Input (g x) = ev_input (f x)" "ev_allows (f x) (op_Output (g x))" by auto
  have IH: "model_accepts (kvabs kv1 k) (filter (\<lambda>v. op_key v = k \<and> \<not> put_nokey v) (map g L))"
    using Cons.IH [OF rest] Cons.prems by simp
  show ?case
  proof (cases "op_key (g x) = k \<and> \<not> put_nokey (g x)")
    case True
    then have "k = in_Key (ev_input (f x))" using x by (simp add: op_key_def)
    with event_model_step [OF ex x] True IH show ?thesis by auto
  next
    case False
    then have "kvabs kv1 k = kvabs kv k"
      using event_other_key [OF ex] event_nokey [OF ex x] x by (auto simp: op_key_def)
    with False IH show ?thesis by auto
  qed
qed simp

subsection \<open>The invariant\<close>

record lin =
  l_client :: nat
  l_call :: nat
  l_time :: nat
  l_ev :: event
  l_done :: "Operation option"

abbreviation pending :: "nat \<Rightarrow> lin \<Rightarrow> bool" where
  "pending c e \<equiv> l_done e = None \<and> l_client e = c"

text \<open>How the control state of one clerk and the runs recorded for it agree.\<close>

fun pc_lin :: "nat \<Rightarrow> ClerkPc \<Rightarrow> lin list \<Rightarrow> bool" where
  "pc_lin c Idle L \<longleftrightarrow> (\<forall>e\<in>set L. \<not> pending c e)"
| "pc_lin c (InGet a Sent) L \<longleftrightarrow> True"
| "pc_lin c (InGet a (Handled r)) L \<longleftrightarrow> (\<exists>e\<in>set L. pending c e \<and> l_ev e = EGet a r)"
| "pc_lin c (InPut a rt Sent) L \<longleftrightarrow> rt \<or> (\<forall>e\<in>set L. \<not> pending c e)"
| "pc_lin c (InPut a rt (Handled r)) L \<longleftrightarrow>
     (\<exists>e\<in>set L. pending c e \<and>
        (\<exists>r'. l_ev e = EPut a r' \<and> (r' = r \<or> (rt \<and> pr_Err r' = OK \<and> pr_Err r = ErrVersion))))"

text \<open>What every recorded run satisfies in a state of the system.\<close>

definition lin_ok :: "KvSys \<Rightarrow> lin \<Rightarrow> bool" where
  "lin_ok s e \<longleftrightarrow>
     l_call e < l_time e \<and> l_time e < now s \<and>
     (case l_done e of
        Some v \<Rightarrow> op_Call v = l_call e \<and> l_time e < op_Return v \<and> op_Input v = ev_input (l_ev e) \<and>
                   ev_allows (l_ev e) (op_Output v)
      | None \<Rightarrow> l_call e = start s (l_client e) \<and> op_input (pcs s (l_client e)) = ev_input (l_ev e) \<and>
                 (\<forall>a r. l_ev e = EPut a r \<and> pr_Err r = OK \<longrightarrow>
                    unat (pa_Version a) < unat (ver (srv s) (pa_Key a))))"

definition done_ops :: "lin list \<Rightarrow> Operation list" where
  "done_ops L = map (the \<circ> l_done) (filter (\<lambda>e. l_done e \<noteq> None) L)"

definition one_pending :: "lin list \<Rightarrow> bool" where
  "one_pending L \<longleftrightarrow> (\<forall>c. length (filter (pending c) L) \<le> 1)"

definition lin_inv :: "KvSys \<Rightarrow> lin list \<Rightarrow> bool" where
  "lin_inv s L \<longleftrightarrow>
     evs_exec MakeKVServer (map l_ev L) = Some (srv s) \<and>
     sorted_wrt (\<lambda>a b. l_time a < l_time b) L \<and>
     (\<forall>e\<in>set L. lin_ok s e) \<and>
     mset (done_ops L) = mset (oplog s) \<and>
     one_pending L \<and>
     (\<forall>c. pc_lin c (pcs s c) L) \<and>
     (\<forall>c. pcs s c \<noteq> Idle \<longrightarrow> start s c < now s) \<and>
     (\<forall>k. unat (ver (srv s) k) \<le> now s)"

lemma lin_invD:
  assumes "lin_inv s L"
  shows "evs_exec MakeKVServer (map l_ev L) = Some (srv s)"
    "sorted_wrt (\<lambda>a b. l_time a < l_time b) L"
    "e \<in> set L \<Longrightarrow> lin_ok s e"
    "mset (done_ops L) = mset (oplog s)"
    "one_pending L"
    "pc_lin c (pcs s c) L"
    "pcs s c \<noteq> Idle \<Longrightarrow> start s c < now s"
    "unat (ver (srv s) k) \<le> now s"
  using assms unfolding lin_inv_def by blast+

lemma lin_invI:
  assumes "evs_exec MakeKVServer (map l_ev L) = Some (srv s)"
    "sorted_wrt (\<lambda>a b. l_time a < l_time b) L"
    "\<And>e. e \<in> set L \<Longrightarrow> lin_ok s e"
    "mset (done_ops L) = mset (oplog s)"
    "one_pending L"
    "\<And>c. pc_lin c (pcs s c) L"
    "\<And>c. pcs s c \<noteq> Idle \<Longrightarrow> start s c < now s"
    "\<And>k. unat (ver (srv s) k) \<le> now s"
  shows "lin_inv s L"
  using assms unfolding lin_inv_def by blast

lemma lin_inv_init: "lin_inv kv_init []"
  by (simp add: lin_inv_def kv_init_def MakeKVServer_def ver_def done_ops_def one_pending_def)

text \<open>A clerk's runs are not affected by runs of other clerks, nor by their completion.\<close>

lemma pc_lin_cong:
  assumes "\<And>e. pending c e \<Longrightarrow> e \<in> set L \<longleftrightarrow> e \<in> set L'"
  shows "pc_lin c pc L \<longleftrightarrow> pc_lin c pc L'"
proof -
  have "(\<exists>e\<in>set L. pending c e \<and> P e) \<longleftrightarrow> (\<exists>e\<in>set L'. pending c e \<and> P e)" for P
    using assms by blast
  moreover have "(\<forall>e\<in>set L. \<not> pending c e) \<longleftrightarrow> (\<forall>e\<in>set L'. \<not> pending c e)"
    using assms by blast
  ultimately show ?thesis by (cases "(c, pc, L)" rule: pc_lin.cases) simp_all
qed

text \<open>The clock and the other clerks' control states do not matter to a recorded run.\<close>

lemma lin_ok_mono:
  assumes "lin_ok s e" "now s \<le> now t" "l_done e = None \<Longrightarrow> start t (l_client e) = start s (l_client e)"
    "l_done e = None \<Longrightarrow> op_input (pcs t (l_client e)) = op_input (pcs s (l_client e))"
    "\<And>k. unat (ver (srv s) k) \<le> unat (ver (srv t) k)"
  shows "lin_ok t e"
  using assms unfolding lin_ok_def by (auto split: option.splits intro: less_le_trans)

subsection \<open>Every step keeps the invariant\<close>

lemma lin_inv_begin:
  assumes inv: "lin_inv s L" and idle: "pcs s c = Idle"
    and pc: "pc \<noteq> Idle" "pc_lin c pc L"
  shows "lin_inv (begin_op s c pc) L"
proof -
  note I = lin_invD [OF inv]
  have none: "\<forall>e\<in>set L. \<not> pending c e" using I(6) [of c] idle by simp
  have "lin_ok (begin_op s c pc) e" if "e \<in> set L" for e
    by (rule lin_ok_mono [OF I(3) [OF that]]) (use none that in \<open>auto simp: begin_op_def\<close>)
  moreover have "pc_lin d (pcs (begin_op s c pc) d) L" for d
    using I(6) [of d] pc by (auto simp: begin_op_def)
  moreover have "start (begin_op s c pc) d < now (begin_op s c pc)" if "pcs (begin_op s c pc) d \<noteq> Idle" for d
    using I(7) [of d] that by (auto simp: begin_op_def less_Suc_eq split: if_splits)
  ultimately show ?thesis
    by (intro lin_invI) (simp_all add: begin_op_def I(1,2,4,5) I(8) le_SucI)
qed

lemma lin_inv_lose:
  assumes inv: "lin_inv s L" and f: "call_failed (pcs s c) = Some pc'"
  shows "lin_inv (s\<lparr>pcs := (pcs s)(c := pc'), now := Suc (now s)\<rparr>) L"
proof -
  note I = lin_invD [OF inv]
  let ?t = "s\<lparr>pcs := (pcs s)(c := pc'), now := Suc (now s)\<rparr>"
  from f have same: "op_input pc' = op_input (pcs s c)" "pcs s c \<noteq> Idle" "pc_lin c pc' L" "pc' \<noteq> Idle"
    by (cases "pcs s c"; auto)+
  have "lin_ok ?t e" if "e \<in> set L" for e
    by (rule lin_ok_mono [OF I(3) [OF that]]) (use same in auto)
  moreover have "pc_lin d (pcs ?t d) L" for d
    using I(6) [of d] same by simp
  moreover have "start ?t d < now ?t" if "pcs ?t d \<noteq> Idle" for d
    using I(7) [of d] I(7) [of c] that same(2) by (auto simp: less_Suc_eq split: if_splits)
  ultimately show ?thesis
    by (intro lin_invI) (simp_all add: I(1,2,4,5) I(8) le_SucI)
qed


text \<open>
  A delivery that changes nothing that is recorded: the clerk's earlier run was successful, and the
  server refuses the repetition.
\<close>

lemma lin_inv_refused:
  assumes inv: "lin_inv s L" and pc: "pcs s c = InPut a rt Sent"
    and e: "e \<in> set L" "pending c e" "l_ev e = EPut a' r'" "pr_Err r' = OK"
  shows "\<exists>r. KVServer_Put (srv s) a zero_PutReply = (srv s, r) \<and>
     lin_inv (s\<lparr>pcs := (pcs s)(c := InPut a rt (Handled r)), now := Suc (now s)\<rparr>) L"
proof -
  note I = lin_invD [OF inv]
  from I(3) [OF e(1)] e pc have a': "a' = a" and lt: "unat (pa_Version a) < unat (ver (srv s) (pa_Key a))"
    by (auto simp: lin_ok_def intro: PutArgs.equality)
  then have "\<exists>x. store (srv s) (pa_Key a) = Some x \<and> pa_Version a \<noteq> e_version x"
    by (auto simp: ver_def split: option.splits)
  then have put: "KVServer_Put (srv s) a zero_PutReply = (srv s, zero_PutReply\<lparr>pr_Err := ErrVersion\<rparr>)"
    by (auto simp: KVServer_Put_def)
  define r where "r = zero_PutReply\<lparr>pr_Err := ErrVersion\<rparr>"
  then have r: "pr_Err r = ErrVersion" by simp
  from I(6) [of c] pc e have rt: rt by auto
  let ?t = "s\<lparr>pcs := (pcs s)(c := InPut a rt (Handled r)), now := Suc (now s)\<rparr>"
  have "lin_inv ?t L"
  proof (rule lin_invI)
    show "lin_ok ?t x" if "x \<in> set L" for x
      by (rule lin_ok_mono [OF I(3) [OF that]]) (use pc in auto)
    show "pc_lin d (pcs ?t d) L" for d
      using I(6) [of d] e rt r a' by auto
    show "start ?t d < now ?t" if "pcs ?t d \<noteq> Idle" for d
      using I(7) [of d] I(7) [of c] that pc by (auto simp: less_Suc_eq split: if_splits)
  qed (simp_all add: I(1,2,4,5) I(8) le_SucI)
  with put show ?thesis unfolding r_def by blast
qed

text \<open>
  A delivery that is recorded: it replaces an earlier run of the same operation, which had no
  effect.
\<close>

definition record_run :: "KvSys \<Rightarrow> nat \<Rightarrow> event \<Rightarrow> lin list \<Rightarrow> lin list" where
  "record_run s c ev L = filter (\<lambda>e. \<not> pending c e) L @
     [\<lparr>l_client = c, l_call = start s c, l_time = now s, l_ev = ev, l_done = None\<rparr>]"

lemma record_run_pc:
  assumes "d \<noteq> c"
  shows "pc_lin d pc (record_run s c ev L) = pc_lin d pc L"
  using assms by (intro pc_lin_cong) (auto simp: record_run_def)

lemma record_run_done: "done_ops (record_run s c ev L) = done_ops L"
proof -
  have "filter (\<lambda>e. l_done e \<noteq> None) (filter (\<lambda>e. \<not> pending c e) L) = filter (\<lambda>e. l_done e \<noteq> None) L"
    unfolding filter_filter by (rule filter_cong) auto
  then show ?thesis by (simp add: record_run_def done_ops_def)
qed

lemma record_run_one:
  assumes "one_pending L"
  shows "one_pending (record_run s c ev L)"
  unfolding one_pending_def
proof
  fix d
  have "filter (pending d) (filter (\<lambda>e. \<not> pending c e) L) = (if d = c then [] else filter (pending d) L)"
    unfolding filter_filter by (auto intro!: filter_cong simp: filter_empty_conv)
  with assms show "length (filter (pending d) (record_run s c ev L)) \<le> 1"
    by (auto simp: record_run_def one_pending_def)
qed

lemma lin_inv_recorded:
  assumes inv: "lin_inv s L" and busy: "pcs s c \<noteq> Idle"
    and ex: "ev_exec (srv s) ev = Some kv'"
    and old: "\<forall>e\<in>set L. pending c e \<longrightarrow> no_effect (l_ev e)"
    and inp: "op_input pc' = op_input (pcs s c)" "ev_input ev = op_input (pcs s c)" "pc' \<noteq> Idle"
    and pc': "pc_lin c pc' (record_run s c ev L)"
    and grow: "\<And>k. unat (ver (srv s) k) \<le> unat (ver kv' k)" "\<And>k. unat (ver kv' k) \<le> Suc (now s)"
    and eff: "\<And>a r. ev = EPut a r \<Longrightarrow> pr_Err r = OK \<Longrightarrow> unat (pa_Version a) < unat (ver kv' (pa_Key a))"
  shows "lin_inv (s\<lparr>srv := kv', pcs := (pcs s)(c := pc'), now := Suc (now s)\<rparr>) (record_run s c ev L)"
proof (rule lin_invI)
  note I = lin_invD [OF inv]
  let ?t = "s\<lparr>srv := kv', pcs := (pcs s)(c := pc'), now := Suc (now s)\<rparr>"
  let ?L = "record_run s c ev L"
  have "evs_exec MakeKVServer (map l_ev (filter (\<lambda>e. \<not> pending c e) L)) = Some (srv s)"
    using evs_exec_filter [OF I(1)] old by simp
  then show "evs_exec MakeKVServer (map l_ev ?L) = Some (srv ?t)"
    by (simp add: record_run_def evs_exec_append ex)
  show "sorted_wrt (\<lambda>a b. l_time a < l_time b) ?L"
    using I(2) I(3) by (auto simp: record_run_def sorted_wrt_append lin_ok_def intro: sorted_wrt_filter)
  show "lin_ok ?t e" if "e \<in> set ?L" for e
  proof (cases "e \<in> set L \<and> \<not> pending c e")
    case True
    show ?thesis
      by (rule lin_ok_mono [OF I(3)]) (use True grow(1) in auto)
  next
    case False
    with that have "e = \<lparr>l_client = c, l_call = start s c, l_time = now s, l_ev = ev, l_done = None\<rparr>"
      by (auto simp: record_run_def)
    then show ?thesis using I(7) [OF busy] inp eff by (simp add: lin_ok_def)
  qed
  show "pc_lin d (pcs ?t d) ?L" for d
    using pc' I(6) [of d] by (simp add: record_run_pc)
  show "start ?t d < now ?t" if "pcs ?t d \<noteq> Idle" for d
    using I(7) [of d] I(7) [OF busy] that by (auto simp: less_Suc_eq split: if_splits)
  show "one_pending ?L"
    by (rule record_run_one) (rule I(5))
qed (simp_all add: record_run_done lin_invD(4) [OF inv] grow(2))


text \<open>The version of a key grows by at most one per delivery, and does not wrap below \<open>2 ^ 64\<close> steps.\<close>

lemma Put_ver:
  assumes "unat (ver kv k) \<le> n" "Suc n < 2 ^ 64"
  shows "unat (ver kv k) \<le> unat (ver (fst (KVServer_Put kv a r)) k)"
    and "unat (ver (fst (KVServer_Put kv a r)) k) \<le> Suc n"
    and "pr_Err (snd (KVServer_Put kv a r)) = OK \<Longrightarrow> k = pa_Key a \<Longrightarrow>
         unat (ver (fst (KVServer_Put kv a r)) k) = Suc (unat (pa_Version a))"
proof -
  have suc: "unat (ver kv k + 1) = Suc (unat (ver kv k))"
    using assms by (intro unat_Suc_word) linarith
  have "ver (fst (KVServer_Put kv a r)) k =
      (if pr_Err (snd (KVServer_Put kv a r)) = OK \<and> k = pa_Key a then ver kv k + 1 else ver kv k)"
    and ok: "pr_Err (snd (KVServer_Put kv a r)) = OK \<Longrightarrow> k = pa_Key a \<Longrightarrow> pa_Version a = ver kv k"
    by (auto simp: KVServer_Put_def ver_def split: option.splits if_splits)
  with suc assms show "unat (ver kv k) \<le> unat (ver (fst (KVServer_Put kv a r)) k)"
    "unat (ver (fst (KVServer_Put kv a r)) k) \<le> Suc n"
    "pr_Err (snd (KVServer_Put kv a r)) = OK \<Longrightarrow> k = pa_Key a \<Longrightarrow>
         unat (ver (fst (KVServer_Put kv a r)) k) = Suc (unat (pa_Version a))"
    by auto
qed

lemma lin_inv_deliver:
  assumes inv: "lin_inv s L" and sv: "serve (srv s) (pcs s c) = Some (kv', pc')"
    and bound: "Suc (now s) < 2 ^ 64"
  shows "\<exists>L'. lin_inv (s\<lparr>srv := kv', pcs := (pcs s)(c := pc'), now := Suc (now s)\<rparr>) L'"
proof -
  note I = lin_invD [OF inv]
  from sv consider (get) a where "pcs s c = InGet a Sent" | (put) a rt where "pcs s c = InPut a rt Sent"
    by (cases "(srv s, pcs s c)" rule: serve.cases) auto
  then show ?thesis
  proof cases
    case (get a)
    let ?ev = "EGet a (KVServer_Get (srv s) a zero_GetReply)"
    have "no_effect (l_ev e)" if "e \<in> set L" "pending c e" for e
      using I(3) [OF that(1)] that get by (cases "l_ev e") (auto simp: lin_ok_def)
    then have "lin_inv (s\<lparr>srv := kv', pcs := (pcs s)(c := pc'), now := Suc (now s)\<rparr>) (record_run s c ?ev L)"
      using get sv I(8) by (intro lin_inv_recorded [OF inv]) (auto simp: record_run_def intro: le_SucI)
    then show ?thesis ..
  next
    case (put a rt)
    let ?res = "KVServer_Put (srv s) a zero_PutReply"
    let ?ev = "EPut a (snd ?res)"
    from put sv have res: "kv' = fst ?res" "pc' = InPut a rt (Handled (snd ?res))"
      by (auto simp: case_prod_beta)
    show ?thesis
    proof (cases "\<exists>e\<in>set L. pending c e \<and> \<not> no_effect (l_ev e)")
      case True
      then obtain e a' r' where e: "e \<in> set L" "pending c e" "l_ev e = EPut a' r'" "pr_Err r' = OK"
        by (metis event.exhaust no_effect.simps)
      from lin_inv_refused [OF inv put e] res show ?thesis by auto
    next
      case False
      have "lin_inv (s\<lparr>srv := kv', pcs := (pcs s)(c := pc'), now := Suc (now s)\<rparr>) (record_run s c ?ev L)"
        unfolding res using put False Put_ver [OF I(8) bound]
        by (intro lin_inv_recorded [OF inv]) (auto simp: record_run_def)
      then show ?thesis ..
    qed
  qed
qed

text \<open>The clerk returns: its recorded run becomes a completed operation of the log.\<close>

lemma lin_inv_return:
  assumes inv: "lin_inv s L" and ret: "call_returned (pcs s c) = Some res"
  shows "\<exists>L'. lin_inv (end_op s c res) L'"
proof -
  note I = lin_invD [OF inv]
  from ret I(6) [of c] obtain e where e: "e \<in> set L" "pending c e" and allowed: "ev_allows (l_ev e) (op_output res)"
    by (cases "pcs s c" rule: call_returned.cases) auto
  from e(1) obtain xs ys where L: "L = xs @ e # ys" by (auto dest: split_list)
  from I(5) have "length (filter (pending c) L) \<le> 1" by (simp only: one_pending_def)
  then have "filter (pending c) xs = []" "filter (pending c) ys = []" using e(2) by (simp_all add: L)
  then have lone: "\<forall>x\<in>set xs \<union> set ys. \<not> pending c x" by (simp only: filter_empty_conv) blast
  let ?v = "\<lparr>op_ClientId = int c, op_Input = op_input (pcs s c), op_Call = start s c,
             op_Output = op_output res, op_Return = now s\<rparr>"
  let ?e = "e\<lparr>l_done := Some ?v\<rparr>" and ?t = "end_op s c res"
  let ?L = "xs @ ?e # ys"
  have okt: "lin_ok ?t x" if x: "x \<in> set xs \<union> set ys" for x
  proof -
    from lone x have "\<not> pending c x" by blast
    with x L show ?thesis by (intro lin_ok_mono [OF I(3)]) (auto simp: end_op_def)
  qed
  have "lin_inv ?t ?L"
  proof (rule lin_invI)
    show "evs_exec MakeKVServer (map l_ev ?L) = Some (srv ?t)"
      using I(1) by (simp add: L end_op_def)
    show "sorted_wrt (\<lambda>a b. l_time a < l_time b) ?L"
      using I(2) by (simp add: L sorted_wrt_append)
    show "lin_ok ?t x" if "x \<in> set ?L" for x
    proof (cases "x = ?e")
      case True
      with I(3) [OF e(1)] e allowed show ?thesis by (simp add: lin_ok_def end_op_def)
    qed (use that okt in auto)
    show "mset (done_ops ?L) = mset (oplog ?t)"
      using I(4) e(2) by (simp add: L done_ops_def end_op_def)
    have "length (filter (pending d) ?L) \<le> length (filter (pending d) L)" for d
      by (simp add: L)
    then show "one_pending ?L"
      using I(5) le_trans unfolding one_pending_def by blast
    show "pc_lin d (pcs ?t d) ?L" for d
    proof (cases "d = c")
      case False
      then have "pc_lin d (pcs s d) ?L = pc_lin d (pcs s d) L"
        by (intro pc_lin_cong) (use e in \<open>auto simp: L\<close>)
      with I(6) [of d] False show ?thesis by (simp add: end_op_def)
    qed (use lone in \<open>auto simp: end_op_def\<close>)
    show "start ?t d < now ?t" if "pcs ?t d \<noteq> Idle" for d
      using I(7) [of d] that by (auto simp: end_op_def less_Suc_eq split: if_splits)
  qed (simp add: end_op_def I(8) le_SucI)
  then show ?thesis ..
qed

lemma kv_step_now: "kv_step s t \<Longrightarrow> now t = Suc (now s)"
  by (auto elim!: kv_step.cases simp: begin_op_def end_op_def)

lemma kv_step_lin_inv:
  assumes "kv_step s t" "lin_inv s L" "now t < 2 ^ 64"
  shows "\<exists>L'. lin_inv t L'"
  using assms
proof (induction rule: kv_step.induct)
  case (call_get s c key)
  then show ?case using lin_inv_begin [OF call_get.prems(1) call_get.hyps, of "Clerk_Get key"]
    by (auto simp: Clerk_Get_def)
next
  case (call_put s c key val version)
  then have "pc_lin c (Clerk_Put key val version) L"
    using lin_invD(6) [OF call_put.prems(1), of c] by (simp add: Clerk_Put_def)
  with lin_inv_begin [OF call_put.prems(1) call_put.hyps, of "Clerk_Put key val version"]
  show ?case by (auto simp: Clerk_Put_def)
next
  case (deliver s c kv' pc')
  then show ?case using lin_inv_deliver by simp
next
  case (lose s c pc')
  then show ?case using lin_inv_lose by blast
next
  case (return s c res)
  then show ?case using lin_inv_return by blast
qed

interpretation kv: clocked_invariant kv_init kv_step now "2 ^ 64" "\<lambda>s. \<exists>L. lin_inv s L"
  by unfold_locales (auto dest: kv_step_lin_inv kv_step_now intro: lin_inv_init)

subsection \<open>Linearizability\<close>

text \<open>
  An operation still running in a state may have taken effect; the history is completed with a
  response for it. \<open>completes s v\<close>: \<open>v\<close> is a completion of the operation its client has pending.
\<close>

definition completes :: "KvSys \<Rightarrow> Operation \<Rightarrow> bool" where
  "completes s v \<longleftrightarrow>
     0 \<le> op_ClientId v \<and> pcs s (nat (op_ClientId v)) \<noteq> Idle \<and>
     op_Input v = op_input (pcs s (nat (op_ClientId v))) \<and>
     op_Call v = start s (nat (op_ClientId v)) \<and> op_Return v = now s"

definition lin_op :: "KvSys \<Rightarrow> lin \<Rightarrow> Operation" where
  "lin_op s e = (case l_done e of Some v \<Rightarrow> v
     | None \<Rightarrow> \<lparr>op_ClientId = int (l_client e), op_Input = ev_input (l_ev e), op_Call = l_call e,
                op_Output = ev_output (l_ev e), op_Return = now s\<rparr>)"

lemma lin_op_props:
  assumes "lin_ok s e"
  shows "op_Input (lin_op s e) = ev_input (l_ev e)" "ev_allows (l_ev e) (op_Output (lin_op s e))"
    "op_Call (lin_op s e) < l_time e" "l_time e < op_Return (lin_op s e)"
  using assms by (auto simp: lin_ok_def lin_op_def split: option.splits)

lemma lin_op_completes:
  assumes inv: "lin_inv s L" and e: "e \<in> set L" "l_done e = None"
  shows "completes s (lin_op s e)"
proof -
  have "pcs s (l_client e) \<noteq> Idle"
  proof
    assume "pcs s (l_client e) = Idle"
    then have "\<forall>x\<in>set L. \<not> pending (l_client e) x"
      using lin_invD(6) [OF inv, of "l_client e"] by (simp only: pc_lin.simps)
    with e show False by blast
  qed
  with lin_invD(3) [OF inv e(1)] e show ?thesis
    by (auto simp: completes_def lin_op_def lin_ok_def)
qed

lemma filter_partition_mset:
  "mset (map f (filter P L)) + mset (map f (filter (\<lambda>x. \<not> P x) L)) = mset (map f L)"
  by (induction L) auto

lemma sorted_wrt_transfer:
  assumes "sorted_wrt P L" "\<And>a b. a \<in> set L \<Longrightarrow> b \<in> set L \<Longrightarrow> P a b \<Longrightarrow> Q (f a) (f b)"
  shows "sorted_wrt Q (map f L)"
  using assms(1) unfolding sorted_wrt_map by (rule sorted_wrt_mono_rel [rotated]) (use assms(2) in auto)

lemma pending_clients_distinct:
  assumes "one_pending L"
  shows "distinct (map l_client (filter (\<lambda>e. l_done e = None) L))"
proof -
  have "length (filter (pending c) xs) \<le> length (filter (pending c) (x # xs))" for c x and xs :: "lin list"
    by simp
  then have tl: "one_pending (x # xs) \<Longrightarrow> one_pending xs" for x xs
    using le_trans unfolding one_pending_def by blast
  from assms show ?thesis
  proof (induction L)
    case (Cons x xs)
    have "l_client x \<notin> l_client ` {e \<in> set xs. l_done e = None}" if "l_done x = None"
    proof
      assume "l_client x \<in> l_client ` {e \<in> set xs. l_done e = None}"
      then have "filter (pending (l_client x)) xs \<noteq> []" by (auto simp: filter_empty_conv)
      moreover have "length (filter (pending (l_client x)) (x # xs)) \<le> 1"
        using Cons.prems by (simp only: one_pending_def)
      ultimately show False using that by simp
    qed
    with Cons.IH [OF tl [OF Cons.prems]] show ?case by auto
  qed simp
qed

lemma lin_inv_linearizable:
  assumes inv: "lin_inv s L"
  defines "ext \<equiv> map (lin_op s) (filter (\<lambda>e. l_done e = None) L)"
  shows "linearizable (filter (\<lambda>v. op_key v = k \<and> \<not> put_nokey v) (oplog s @ ext))"
proof -
  note I = lin_invD [OF inv]
  let ?P = "\<lambda>v. op_key v = k \<and> \<not> put_nokey v"
  let ?xs = "map (lin_op s) L"
  have "done_ops L = map (lin_op s) (filter (\<lambda>e. l_done e \<noteq> None) L)"
    unfolding done_ops_def by (rule map_cong) (auto simp: lin_op_def)
  then have "mset ?xs = mset (oplog s @ ext)"
    using filter_partition_mset [of "lin_op s" "\<lambda>e. l_done e \<noteq> None" L] I(4) by (simp add: ext_def)
  then have "mset (filter ?P ?xs) = mset (filter ?P (oplog s @ ext))"
    by (metis mset_filter)
  moreover have "sorted_wrt (\<lambda>a b. \<not> op_Return b < op_Call a) ?xs"
  proof (rule sorted_wrt_transfer [OF I(2)])
    fix a b
    assume ab: "a \<in> set L" "b \<in> set L" "l_time a < l_time b"
    from lin_op_props(3) [OF I(3) [OF ab(1)]] lin_op_props(4) [OF I(3) [OF ab(2)]] ab(3)
    show "\<not> op_Return (lin_op s b) < op_Call (lin_op s a)" by linarith
  qed
  then have "sorted_wrt (\<lambda>a b. \<not> op_Return b < op_Call a) (filter ?P ?xs)"
    by (rule sorted_wrt_filter)
  moreover have "model_accepts (kvabs MakeKVServer k) (filter ?P ?xs)"
    by (rule events_accepted [OF I(1)]) (use lin_op_props I(3) in auto)
  then have "model_accepts KvModel_Init (filter ?P ?xs)"
    by (simp add: kvabs_def MakeKVServer_def)
  ultimately show ?thesis unfolding linearizable_def by (intro exI conjI)
qed

lemma distinct_map_int: "distinct xs \<Longrightarrow> distinct (map int xs)"
  by (simp add: distinct_map inj_on_def)

text \<open>The runs recorded for a state give the completion of its history.\<close>

lemma lin_inv_history:
  assumes inv: "lin_inv s L"
  shows "\<exists>ext. list_all (completes s) ext \<and> distinct (map op_ClientId ext) \<and>
    (\<forall>k. linearizable (filter (\<lambda>v. op_key v = k \<and> \<not> put_nokey v) (oplog s @ ext)))"
proof -
  let ?ext = "map (lin_op s) (filter (\<lambda>e. l_done e = None) L)"
  have "list_all (completes s) ?ext"
    using lin_op_completes [OF inv] by (auto simp: list_all_iff)
  moreover have "map op_ClientId ?ext = map int (map l_client (filter (\<lambda>e. l_done e = None) L))"
    by (auto simp: lin_op_def)
  then have "distinct (map op_ClientId ?ext)"
    using distinct_map_int [OF pending_clients_distinct [OF lin_invD(5) [OF inv]]] by metis
  ultimately show ?thesis using lin_inv_linearizable [OF inv] by blast
qed

text \<open>
  \<^bold>\<open>C1\<close>: Every history the clerks can produce is linearizable. Take any reachable state of the server,
  any number of clerks and a network that loses requests and replies, at any point of the run: with
  suitable responses for the operations still in progress, the operation log of every key, without
  the \<open>Put\<close>s answered \<open>ErrNoKey\<close>, can be ordered so that \<open>models.KvModel\<close> accepts it and no operation
  comes before one that had returned before it was called. The bound on the clock keeps the 64-bit
  version counters from wrapping.
\<close>

theorem kv_linearizable:
  assumes "kv_reach s" and "now s < 2 ^ 64"
  shows "\<exists>ext. list_all (completes s) ext \<and> distinct (map op_ClientId ext) \<and>
    (\<forall>k. linearizable (filter (\<lambda>v. op_key v = k \<and> \<not> put_nokey v) (oplog s @ ext)))"
  using kv.reach_inv [OF assms] lin_inv_history by blast

text \<open>
  Two clerks race to create the key \<open>k\<close>; the reply of the winner is lost, its repetition is refused,
  and it answers \<open>ErrMaybe\<close>.
\<close>

definition kv_sample_run :: "kv_action list" where
  "kv_sample_run = [CallPut 0 ''k'' ''a'' 0, CallPut 1 ''k'' ''b'' 0, Deliver 0, Deliver 1, Lose 0,
     Deliver 0, Return 0, Return 1, CallGet 1 ''k'', Deliver 1]"

theorem kv_linearizable_witness:
  "\<exists>s. run kv_act kv_init kv_sample_run = Some s \<and> kv_reach s \<and> now s < 2 ^ 64 \<and>
    map (out_Err \<circ> op_Output) (oplog s) = [''ErrMaybe'', ''ErrVersion''] \<and>
    (\<exists>ext. list_all (completes s) ext \<and> distinct (map op_ClientId ext) \<and>
      (\<forall>k. linearizable (filter (\<lambda>v. op_key v = k \<and> \<not> put_nokey v) (oplog s @ ext))))"
proof -
  obtain s where s: "run kv_act kv_init kv_sample_run = Some s" "now s < 2 ^ 64"
    "map (out_Err \<circ> op_Output) (oplog s) = [''ErrMaybe'', ''ErrVersion'']"
    by (simp add: kv_sample_run_def kv_init_def begin_op_def end_op_def Clerk_Get_def Clerk_Put_def
        kvserver_defs MakeKVServer_def zero_PutReply_def zero_GetReply_def)
  then have "kv_reach s" by (intro kv_run_reach)
  with s kv_linearizable [OF this s(2)] show ?thesis by (intro exI [of _ s] conjI)
qed


subsection \<open>Versions count the successful puts\<close>

text \<open>The answer a client has for a key, as the operation log shows it.\<close>

definition put_answers :: "string \<Rightarrow> Err \<Rightarrow> Operation list \<Rightarrow> nat" where
  "put_answers k err h =
     length (filter (\<lambda>v. op_key v = k \<and> in_Op (op_Input v) = 1 \<and> out_Err (op_Output v) = err_string err) h)"

fun ok_put :: "string \<Rightarrow> event \<Rightarrow> bool" where
  "ok_put k (EGet a r) = False"
| "ok_put k (EPut a r) = (pa_Key a = k \<and> pr_Err r = OK)"

lemma ver_counts:
  "evs_exec kv es = Some kv' \<Longrightarrow> ver kv' k = ver kv k + of_nat (length (filter (ok_put k) es))"
proof (induction es arbitrary: kv)
  case (Cons e es)
  then obtain kv1 where e: "ev_exec kv e = Some kv1" and es: "evs_exec kv1 es = Some kv'"
    by (auto split: option.splits)
  have "ver kv1 k = ver kv k + (if ok_put k e then 1 else 0)"
    using e by (cases e) (auto simp: ver_def KVServer_Put_def zero_PutReply_def split: if_splits option.splits)
  with Cons.IH [OF es] show ?case by simp
qed simp

lemma length_filter_le_imp:
  "(\<And>x. x \<in> set L \<Longrightarrow> P x \<Longrightarrow> Q x) \<Longrightarrow> length (filter P L) \<le> length (filter Q L)"
  by (induction L) (auto intro: le_SucI)

lemma length_le_now:
  "sorted_wrt (\<lambda>a b. l_time a < l_time b) L \<Longrightarrow> \<forall>e\<in>set L. l_time e < n \<Longrightarrow> length L \<le> n"
proof -
  assume s: "sorted_wrt (\<lambda>a b. l_time a < l_time b) L" and n: "\<forall>e\<in>set L. l_time e < n"
  from s have "distinct (map l_time L)" by (induction L) auto
  then have "length L = card (l_time ` set L)" by (metis distinct_card length_map list.set_map)
  also have "\<dots> \<le> card {..<n}" using n by (intro card_mono) auto
  finally show ?thesis by simp
qed

lemma put_answers_mset: "mset h = mset h' \<Longrightarrow> put_answers k err h = put_answers k err h'"
proof -
  assume "mset h = mset h'"
  then have "size (mset (filter P h)) = size (mset (filter P h'))" for P by simp
  then show ?thesis unfolding put_answers_def size_mset by simp
qed

lemma quiescent_done:
  assumes inv: "lin_inv s L" and idle: "\<And>c. pcs s c = Idle" and e: "e \<in> set L"
  shows "l_done e \<noteq> None"
proof
  assume "l_done e = None"
  with lin_op_completes [OF inv e] idle show False by (simp add: completes_def)
qed

text \<open>
  \<^bold>\<open>C12\<close>: When no operation is in progress, the version of a key lies between the number of its puts
  that answered \<open>OK\<close> and that number plus the number that answered \<open>ErrMaybe\<close>: no put is applied
  twice, none that answered \<open>OK\<close> is lost and none that answered \<open>ErrVersion\<close> or \<open>ErrNoKey\<close> was
  applied. This is what \<open>CheckPutConcurrent\<close> tests.
\<close>

theorem kv_version_between:
  assumes "kv_reach s" and "now s < 2 ^ 64" and "\<And>c. pcs s c = Idle"
  shows "put_answers k OK (oplog s) \<le> unat (ver (srv s) k) \<and>
    unat (ver (srv s) k) \<le> put_answers k OK (oplog s) + put_answers k ErrMaybe (oplog s)"
proof -
  from assms obtain L where inv: "lin_inv s L" using kv.reach_inv by blast
  note I = lin_invD [OF inv] and dn = quiescent_done [OF inv assms(3)]
  let ?ops = "map (the \<circ> l_done) L"
  have "done_ops L = ?ops" using dn by (simp add: done_ops_def filter_True)
  then have ans: "put_answers k err (oplog s) = put_answers k err ?ops" for err
    using put_answers_mset I(4) by metis
  have l: "length (filter P ?ops) = length (filter (\<lambda>e. P (the (l_done e))) L)" for P
    by (simp add: filter_map o_def)
  have ok: "op_Input (the (l_done e)) = ev_input (l_ev e) \<and> ev_allows (l_ev e) (op_Output (the (l_done e)))"
    if "e \<in> set L" for e
    using I(3) [OF that] dn [OF that] by (auto simp: lin_ok_def)
  let ?n = "length (filter (\<lambda>e. ok_put k (l_ev e)) L)"
  have "ver (srv s) k = of_nat ?n"
    using ver_counts [OF I(1), of k] by (simp add: ver_def MakeKVServer_def filter_map o_def)
  moreover have "length L \<le> now s"
    using I(2,3) by (intro length_le_now) (auto simp: lin_ok_def)
  then have "?n < 2 ^ 64"
    using assms(2) length_filter_le [of "\<lambda>e. ok_put k (l_ev e)" L] by linarith
  ultimately have n: "unat (ver (srv s) k) = ?n" by (simp add: unat_of_nat)
  have "put_answers k OK ?ops \<le> ?n"
    unfolding put_answers_def l
  proof (rule length_filter_le_imp)
    fix e
    assume "e \<in> set L"
    from ok [OF this] show "ok_put k (l_ev e)" if "op_key (the (l_done e)) = k \<and> in_Op (op_Input (the (l_done e))) = 1 \<and>
        out_Err (op_Output (the (l_done e))) = err_string OK"
      using that by (cases "l_ev e") (auto simp: op_key_def)
  qed
  moreover have "?n \<le> put_answers k OK ?ops + put_answers k ErrMaybe ?ops"
  proof -
    let ?A = "\<lambda>err e. op_key (the (l_done e)) = k \<and> in_Op (op_Input (the (l_done e))) = 1 \<and>
        out_Err (op_Output (the (l_done e))) = err_string err"
    have "?n \<le> length (filter (\<lambda>e. ?A OK e \<or> ?A ErrMaybe e) L)"
    proof (rule length_filter_le_imp)
      fix e
      assume "e \<in> set L" "ok_put k (l_ev e)"
      with ok [OF this(1)] show "?A OK e \<or> ?A ErrMaybe e"
        by (cases "l_ev e") (auto simp: op_key_def)
    qed
    also have "\<dots> \<le> length (filter (?A OK) L) + length (filter (?A ErrMaybe) L)"
      by (induction L) auto
    finally show ?thesis unfolding put_answers_def l .
  qed
  ultimately show ?thesis unfolding ans n by simp
qed


text \<open>The race of \<open>kv_sample_run\<close>, run to the end: one \<open>ErrMaybe\<close> that was applied, one \<open>ErrVersion\<close>.\<close>

theorem kv_version_between_witness:
  "\<exists>s. kv_reach s \<and> now s < 2 ^ 64 \<and> pcs s = (\<lambda>_. Idle) \<and> unat (ver (srv s) ''k'') = 1 \<and>
    put_answers ''k'' OK (oplog s) \<le> unat (ver (srv s) ''k'') \<and>
    unat (ver (srv s) ''k'') \<le> put_answers ''k'' OK (oplog s) + put_answers ''k'' ErrMaybe (oplog s)"
proof -
  obtain s where s: "run kv_act kv_init (kv_sample_run @ [Return 1]) = Some s" "now s < 2 ^ 64"
    "pcs s = (\<lambda>_. Idle)" "unat (ver (srv s) ''k'') = 1"
    by (auto simp: kv_sample_run_def kv_init_def begin_op_def end_op_def Clerk_Get_def Clerk_Put_def
        kvserver_defs MakeKVServer_def zero_PutReply_def zero_GetReply_def ver_def fun_upd_idem)
  then have r: "kv_reach s" by (intro kv_run_reach)
  have idle: "pcs s c = Idle" for c using s(3) by simp
  from r s kv_version_between [OF r s(2) idle] show ?thesis by (intro exI [of _ s] conjI) blast+
qed

end
