(* ===== verification/KvLate.thy ===== *)
theory KvLate
  imports KvLin
begin

text \<open>
  The clerks and the server over a network that gives up on a request without stopping it. In
  \<open>src/labrpc/labrpc.go\<close> the handler of a request runs in a goroutine of its own; when the end is
  disabled or the server removed while \<open>processReq\<close> waits, \<open>Call\<close> returns false and the handler
  still runs, at any later time. This theory adds such runs to the system of theory \<open>Clerk\<close>: a request
  that is given up may be executed later, even several times, while its clerk tries again, goes on to
  other operations, or does nothing. It is the abstract system that \<open>KvNet\<close> implements.

  A late \<open>Put\<close> that names a version the server has passed is refused. The histories are therefore
  linearizable as long as clients name versions they have learned: 0, a version some \<open>Get\<close> has
  returned, or the successor of a version with which some \<open>Put\<close> has answered \<open>OK\<close>. The flag
  \<open>kl_learned\<close> says whether they have done so up to now.
\<close>

subsection \<open>The system\<close>

definition learned :: "Operation list \<Rightarrow> string \<Rightarrow> Tversion \<Rightarrow> bool" where
  "learned h k n \<longleftrightarrow> n = 0 \<or>
     list_ex (\<lambda>v. op_key v = k \<and>
       (in_Op (op_Input v) = 0 \<and> out_Version (op_Output v) = n \<or>
        in_Op (op_Input v) = 1 \<and> out_Err (op_Output v) = ''OK'' \<and> in_Version (op_Input v) + 1 = n)) h"

record KvLate =
  kl_sys :: KvSys
  kl_late :: "PutArgs set"
  kl_learned :: bool

definition kl_init :: KvLate where
  "kl_init = \<lparr>kl_sys = kv_init, kl_late = {}, kl_learned = True\<rparr>"

definition put_pc :: "KvSys \<Rightarrow> nat \<Rightarrow> ClerkPc \<Rightarrow> KvSys" where
  "put_pc s c pc = s\<lparr>pcs := (pcs s)(c := pc), now := Suc (now s)\<rparr>"

definition late_put :: "KvSys \<Rightarrow> PutArgs \<Rightarrow> KvSys" where
  "late_put s a = s\<lparr>srv := fst (KVServer_Put (srv s) a zero_PutReply), now := Suc (now s)\<rparr>"

text \<open>What the network and the server do by themselves: the clerks go on with their loops.\<close>

inductive kl_net :: "KvLate \<Rightarrow> KvLate \<Rightarrow> bool" where
  kl_deliver: "serve (srv (kl_sys s)) (pcs (kl_sys s) c) = Some (kv', pc') \<Longrightarrow>
    kl_net s (s\<lparr>kl_sys := put_pc ((kl_sys s)\<lparr>srv := kv'\<rparr>) c pc'\<rparr>)"
| kl_lose: "call_failed (pcs (kl_sys s) c) = Some pc' \<Longrightarrow>
    kl_net s (s\<lparr>kl_sys := put_pc (kl_sys s) c pc'\<rparr>)"
| kl_abandon: "pcs (kl_sys s) c = InPut a rt Sent \<Longrightarrow>
    kl_net s (s\<lparr>kl_sys := put_pc (kl_sys s) c (InPut a True Sent), kl_late := insert a (kl_late s)\<rparr>)"
| kl_late: "a \<in> kl_late s \<Longrightarrow> kl_net s (s\<lparr>kl_sys := late_put (kl_sys s) a\<rparr>)"
| kl_pass: "kl_net s (s\<lparr>kl_sys := (kl_sys s)\<lparr>now := Suc (now (kl_sys s))\<rparr>\<rparr>)"

inductive kl_step :: "KvLate \<Rightarrow> KvLate \<Rightarrow> bool" where
  kl_get: "pcs (kl_sys s) c = Idle \<Longrightarrow> kl_step s (s\<lparr>kl_sys := begin_op (kl_sys s) c (Clerk_Get key)\<rparr>)"
| kl_put: "pcs (kl_sys s) c = Idle \<Longrightarrow>
    kl_step s (s\<lparr>kl_sys := begin_op (kl_sys s) c (Clerk_Put key val version),
                 kl_learned := kl_learned s \<and> learned (oplog (kl_sys s)) key version\<rparr>)"
| kl_return: "call_returned (pcs (kl_sys s) c) = Some res \<Longrightarrow>
    kl_step s (s\<lparr>kl_sys := end_op (kl_sys s) c res\<rparr>)"
| kl_move: "kl_net s t \<Longrightarrow> kl_step s t"

abbreviation kl_reach :: "KvLate \<Rightarrow> bool" where
  "kl_reach \<equiv> reach kl_init kl_step"

lemma kl_step_now: "kl_step s t \<Longrightarrow> now (kl_sys t) = Suc (now (kl_sys s))"
  by (auto elim!: kl_step.cases kl_net.cases simp: begin_op_def end_op_def put_pc_def late_put_def)

lemma kl_step_learned: "kl_step s t \<Longrightarrow> kl_learned t \<Longrightarrow> kl_learned s"
  by (auto elim!: kl_step.cases kl_net.cases)

subsection \<open>What learned versions give\<close>

text \<open>The version of a request against the server's version of its key.\<close>

definition passed :: "KVServer \<Rightarrow> PutArgs \<Rightarrow> bool" where
  "passed kv a \<longleftrightarrow> unat (pa_Version a) < unat (ver kv (pa_Key a))"

definition reached :: "KVServer \<Rightarrow> PutArgs \<Rightarrow> bool" where
  "reached kv a \<longleftrightarrow> unat (pa_Version a) \<le> unat (ver kv (pa_Key a))"

fun pc_ver :: "KVServer \<Rightarrow> ClerkPc \<Rightarrow> bool" where
  "pc_ver kv Idle \<longleftrightarrow> True"
| "pc_ver kv (InGet a Sent) \<longleftrightarrow> True"
| "pc_ver kv (InGet a (Handled r)) \<longleftrightarrow> unat (gr_Version r) \<le> unat (ver kv (ga_Key a))"
| "pc_ver kv (InPut a rt Sent) \<longleftrightarrow> reached kv a"
| "pc_ver kv (InPut a rt (Handled r)) \<longleftrightarrow> passed kv a \<and> pr_Err r \<noteq> ErrNoKey"

definition op_ver :: "KVServer \<Rightarrow> Operation \<Rightarrow> bool" where
  "op_ver kv v \<longleftrightarrow>
     (in_Op (op_Input v) = 0 \<longrightarrow> unat (out_Version (op_Output v)) \<le> unat (ver kv (op_key v))) \<and>
     (in_Op (op_Input v) = 1 \<and> out_Err (op_Output v) = ''OK'' \<longrightarrow>
        unat (in_Version (op_Input v)) < unat (ver kv (op_key v))) \<and>
     \<not> put_nokey v"

definition ver_inv :: "KvSys \<Rightarrow> bool" where
  "ver_inv s \<longleftrightarrow> (\<forall>c. pc_ver (srv s) (pcs s c)) \<and> (\<forall>v\<in>set (oplog s). op_ver (srv s) v)"

definition late_inv :: "KvSys \<Rightarrow> PutArgs set \<Rightarrow> bool" where
  "late_inv s B \<longleftrightarrow> (\<forall>a\<in>B. passed (srv s) a \<or> (\<exists>c x. pcs s c = InPut a True x))"

definition ver_le :: "KVServer \<Rightarrow> KVServer \<Rightarrow> bool" where
  "ver_le kv kv' \<longleftrightarrow> (\<forall>k. unat (ver kv k) \<le> unat (ver kv' k))"

lemma ver_le_refl [simp]: "ver_le kv kv"
  by (simp add: ver_le_def)

lemma passed_mono: "ver_le kv kv' \<Longrightarrow> passed kv a \<Longrightarrow> passed kv' a"
  unfolding ver_le_def passed_def by (blast intro: less_le_trans)

lemma pc_ver_mono: "ver_le kv kv' \<Longrightarrow> pc_ver kv pc \<Longrightarrow> pc_ver kv' pc"
  by (cases "(kv, pc)" rule: pc_ver.cases)
    (auto simp: ver_le_def passed_def reached_def intro: le_trans less_le_trans)

lemma op_ver_mono: "ver_le kv kv' \<Longrightarrow> op_ver kv v \<Longrightarrow> op_ver kv' v"
  unfolding ver_le_def op_ver_def by (meson le_trans less_le_trans)

lemma ver_inv_mono:
  assumes "ver_inv s" "ver_le (srv s) (srv t)" "oplog t = oplog s"
    "\<And>c. pcs t c = pcs s c \<or> pc_ver (srv t) (pcs t c)"
  shows "ver_inv t"
  unfolding ver_inv_def
proof (intro conjI allI ballI)
  show "pc_ver (srv t) (pcs t c)" for c
    using assms(4) [of c] pc_ver_mono [OF assms(2)] assms(1) by (auto simp: ver_inv_def)
  show "op_ver (srv t) v" if "v \<in> set (oplog t)" for v
    using that assms op_ver_mono [OF assms(2)] by (auto simp: ver_inv_def)
qed

lemma late_inv_mono:
  assumes "late_inv s B" "ver_le (srv s) (srv t)"
    "\<And>c a x. pcs s c = InPut a True x \<Longrightarrow> passed (srv t) a \<or> (\<exists>y. pcs t c = InPut a True y)"
  shows "late_inv t B"
  unfolding late_inv_def
proof
  fix a assume "a \<in> B"
  with assms(1) consider "passed (srv s) a" | c x where "pcs s c = InPut a True x"
    unfolding late_inv_def by blast
  then show "passed (srv t) a \<or> (\<exists>c x. pcs t c = InPut a True x)"
    by cases (use passed_mono [OF assms(2)] assms(3) in blast)+
qed

lemma Put_ver_le: "lin_inv s L \<Longrightarrow> Suc (now s) < 2 ^ 64 \<Longrightarrow> ver_le (srv s) (fst (KVServer_Put (srv s) a r))"
  unfolding ver_le_def using Put_ver(1) [OF lin_invD(8)] by blast

text \<open>A put whose version the server has reached is answered \<open>OK\<close> or \<open>ErrVersion\<close>, and is passed then.\<close>

lemma Put_passes:
  assumes "lin_inv s L" "Suc (now s) < 2 ^ 64" "reached (srv s) a"
  shows "passed (fst (KVServer_Put (srv s) a zero_PutReply)) a"
    and "pr_Err (snd (KVServer_Put (srv s) a zero_PutReply)) \<noteq> ErrNoKey"
proof -
  let ?r = "KVServer_Put (srv s) a zero_PutReply"
  show nokey: "pr_Err (snd ?r) \<noteq> ErrNoKey"
  proof
    assume "pr_Err (snd ?r) = ErrNoKey"
    then have "ver (srv s) (pa_Key a) = 0" "pa_Version a \<noteq> 0"
      by (auto simp: Put_ErrNoKey_iff ver_def)
    with assms(3) show False by (simp add: reached_def unat_eq_0)
  qed
  show "passed (fst ?r) a"
  proof (cases "pr_Err (snd ?r) = OK")
    case True
    from Put_ver(3) [OF lin_invD(8) [OF assms(1)] assms(2) True] show ?thesis by (simp add: passed_def)
  next
    case False
    then have "pa_Version a \<noteq> ver (srv s) (pa_Key a)" using Put_OK_iff by blast
    with assms(3) Put_no_effect [OF False] show ?thesis
      by (simp add: reached_def passed_def order_le_less word_unat_eq_iff)
  qed
qed

lemma Put_not_passed_OK:
  "\<not> passed (srv s) a \<Longrightarrow> reached (srv s) a \<Longrightarrow> pr_Err (snd (KVServer_Put (srv s) a r)) = OK"
  unfolding Put_OK_iff by (auto simp: passed_def reached_def word_unat_eq_iff)

lemma passed_refused: "passed kv a \<Longrightarrow> fst (KVServer_Put kv a r) = kv"
  by (rule Put_no_effect) (auto simp: Put_OK_iff passed_def)

subsection \<open>The invariant\<close>

text \<open>The clock may run while nothing happens.\<close>

lemma lin_inv_tick:
  assumes inv: "lin_inv s L"
  shows "lin_inv (s\<lparr>now := Suc (now s)\<rparr>) L"
proof (rule lin_invI)
  note I = lin_invD [OF inv]
  show "lin_ok (s\<lparr>now := Suc (now s)\<rparr>) e" if "e \<in> set L" for e
    by (rule lin_ok_mono [OF I(3) [OF that]]) simp_all
  show "pc_lin c (pcs (s\<lparr>now := Suc (now s)\<rparr>) c) L" for c
    using I(6) by simp
  show "start (s\<lparr>now := Suc (now s)\<rparr>) c < now (s\<lparr>now := Suc (now s)\<rparr>)" if "pcs (s\<lparr>now := Suc (now s)\<rparr>) c \<noteq> Idle" for c
    using I(7) [of c] that by (simp add: less_Suc_eq)
qed (simp_all add: lin_invD(1,2,4,5) [OF inv] lin_invD(8) [OF inv] le_SucI)

text \<open>
  A late run that succeeds counts for a clerk that is trying the same \<open>Put\<close> again and has not been
  answered: it takes effect while that operation is in progress.
\<close>

lemma lin_inv_late:
  assumes inv: "lin_inv s L" and pc: "pcs s c = InPut a True Sent" and new: "\<not> passed (srv s) a"
    and bound: "Suc (now s) < 2 ^ 64"
  shows "\<exists>L'. lin_inv (late_put s a) L'"
proof -
  note I = lin_invD [OF inv]
  let ?res = "KVServer_Put (srv s) a zero_PutReply"
  have old: "no_effect (l_ev e)" if e: "e \<in> set L" "pending c e" for e
  proof (cases "l_ev e")
    case (EPut a' r)
    with I(3) [OF e(1)] e pc have "a' = a" "pr_Err r = OK \<longrightarrow> passed (srv s) a"
      by (auto simp: lin_ok_def passed_def intro: PutArgs.equality)
    with new EPut show ?thesis by simp
  qed simp
  have "lin_inv (s\<lparr>srv := fst ?res, pcs := (pcs s)(c := pcs s c), now := Suc (now s)\<rparr>)
      (record_run s c (EPut a (snd ?res)) L)"
    using pc old Put_ver [OF I(8) bound] by (intro lin_inv_recorded [OF inv]) auto
  then show ?thesis unfolding late_put_def by (simp add: fun_upd_triv) blast
qed

definition kl_inv :: "KvLate \<Rightarrow> bool" where
  "kl_inv s \<longleftrightarrow> (kl_learned s \<longrightarrow>
     (\<exists>L. lin_inv (kl_sys s) L) \<and> ver_inv (kl_sys s) \<and> late_inv (kl_sys s) (kl_late s))"

lemma kl_inv_init: "kl_inv kl_init"
  using lin_inv_init by (auto simp: kl_inv_def kl_init_def ver_inv_def late_inv_def kv_init_def)

lemma learned_reached:
  assumes "ver_inv s" "learned (oplog s) key version" "lin_inv s L" "now s < 2 ^ 64"
  shows "unat version \<le> unat (ver (srv s) key)"
proof -
  from assms(2) consider "version = 0" | v where "v \<in> set (oplog s)" "op_key v = key"
      "in_Op (op_Input v) = 0 \<and> out_Version (op_Output v) = version \<or>
       in_Op (op_Input v) = 1 \<and> out_Err (op_Output v) = ''OK'' \<and> in_Version (op_Input v) + 1 = version"
    unfolding learned_def list_ex_iff by blast
  then show ?thesis
  proof cases
    case (2 v)
    with assms(1) have v: "op_ver (srv s) v" by (simp add: ver_inv_def)
    from 2(3) show ?thesis
    proof
      assume "in_Op (op_Input v) = 1 \<and> out_Err (op_Output v) = ''OK'' \<and> in_Version (op_Input v) + 1 = version"
      with v 2(2) have lt: "unat (in_Version (op_Input v)) < unat (ver (srv s) key)"
        and eq: "version = in_Version (op_Input v) + 1" by (auto simp: op_ver_def)
      have "Suc (unat (in_Version (op_Input v))) < 2 ^ 64"
        using lt lin_invD(8) [OF assms(3), of key] assms(4) by linarith
      with unat_Suc_word lt show ?thesis by (simp add: eq)
    qed (use v 2(2) in \<open>auto simp: op_ver_def\<close>)
  qed simp
qed

subsection \<open>Every step keeps the invariant\<close>

lemma ver_inv_begin:
  assumes "ver_inv s" "pc_ver (srv s) pc"
  shows "ver_inv (begin_op s c pc)"
  by (rule ver_inv_mono [OF assms(1)]) (use assms(2) in \<open>auto simp: begin_op_def\<close>)

lemma late_inv_begin: "late_inv s B \<Longrightarrow> pcs s c = Idle \<Longrightarrow> late_inv (begin_op s c pc) B"
  by (rule late_inv_mono [where s = s]) (auto simp: begin_op_def)

lemma call_failed_ver:
  assumes "ver_inv s" "call_failed (pcs s c) = Some pc'"
  shows "pc_ver (srv s) pc'"
proof -
  have "pc_ver (srv s) (pcs s c)" using assms(1) by (simp add: ver_inv_def)
  with assms(2) show ?thesis
    by (cases "(srv s, pcs s c)" rule: pc_ver.cases) (auto simp: passed_def reached_def)
qed

lemma ver_inv_lose: "ver_inv s \<Longrightarrow> call_failed (pcs s c) = Some pc' \<Longrightarrow> ver_inv (put_pc s c pc')"
  by (rule ver_inv_mono [where s = s]) (auto simp: put_pc_def call_failed_ver)

lemma late_inv_lose: "late_inv s B \<Longrightarrow> call_failed (pcs s c) = Some pc' \<Longrightarrow> late_inv (put_pc s c pc') B"
  by (rule late_inv_mono [where s = s]) (auto simp: put_pc_def)

lemma lose_step: "call_failed (pcs s c) = Some pc' \<Longrightarrow> kv_step s (put_pc s c pc')"
  unfolding put_pc_def by (rule kv_step.lose)

lemma deliver_step:
  "serve (srv s) (pcs s c) = Some (kv', pc') \<Longrightarrow> kv_step s (put_pc (s\<lparr>srv := kv'\<rparr>) c pc')"
  using kv_step.deliver [of s c kv' pc'] by (simp add: put_pc_def)

lemma serve_ver:
  assumes "lin_inv s L" "Suc (now s) < 2 ^ 64" "ver_inv s" "serve (srv s) (pcs s c) = Some (kv', pc')"
  shows "ver_le (srv s) kv'" "pc_ver kv' pc'"
proof -
  have pc: "pc_ver (srv s) (pcs s c)" using assms(3) by (simp add: ver_inv_def)
  from assms(4) consider (get) a where "pcs s c = InGet a Sent" | (put) a rt where "pcs s c = InPut a rt Sent"
    by (cases "(srv s, pcs s c)" rule: serve.cases) auto
  then have "ver_le (srv s) kv' \<and> pc_ver kv' pc'"
  proof cases
    case get
    then show ?thesis using assms(4)
      by (auto simp: KVServer_Get_def ver_def zero_GetReply_def split: option.splits)
  next
    case (put a rt)
    have re: "reached (srv s) a" using pc put by simp
    show ?thesis
      using put assms(4) Put_passes [OF assms(1,2) re] Put_ver_le [OF assms(1,2), of a zero_PutReply]
      by (auto simp: case_prod_beta)
  qed
  then show "ver_le (srv s) kv'" "pc_ver kv' pc'" by blast+
qed

lemma serve_put_kept: "serve kv pc = Some (kv', pc') \<Longrightarrow> pc = InPut a rt x \<Longrightarrow> \<exists>y. pc' = InPut a rt y"
  by (cases "(kv, pc)" rule: serve.cases) (auto simp: case_prod_beta)

lemma deliver_inv:
  assumes lin: "lin_inv s L" and b: "Suc (now s) < 2 ^ 64" and inv: "ver_inv s" "late_inv s B"
    and sv: "serve (srv s) (pcs s c) = Some (kv', pc')"
  shows "ver_inv (put_pc (s\<lparr>srv := kv'\<rparr>) c pc') \<and> late_inv (put_pc (s\<lparr>srv := kv'\<rparr>) c pc') B"
proof
  note S = serve_ver [OF lin b inv(1) sv]
  show "ver_inv (put_pc (s\<lparr>srv := kv'\<rparr>) c pc')"
    by (rule ver_inv_mono [OF inv(1)]) (use S in \<open>auto simp: put_pc_def\<close>)
  show "late_inv (put_pc (s\<lparr>srv := kv'\<rparr>) c pc') B"
    by (rule late_inv_mono [OF inv(2)]) (use S serve_put_kept [OF sv] in \<open>auto simp: put_pc_def\<close>)
qed

lemma err_string_nokey: "err_string e = ''ErrNoKey'' \<longleftrightarrow> e = ErrNoKey"
  by (cases e) simp_all

lemma return_inv:
  assumes inv: "ver_inv s" "late_inv s B" and ret: "call_returned (pcs s c) = Some res"
  shows "ver_inv (end_op s c res) \<and> late_inv (end_op s c res) B"
proof
  have pc: "pc_ver (srv s) (pcs s c)" using inv(1) by (simp add: ver_inv_def)
  let ?v = "\<lparr>op_ClientId = int c, op_Input = op_input (pcs s c), op_Call = start s c,
             op_Output = op_output res, op_Return = now s\<rparr>"
  have v: "op_ver (srv s) ?v"
    using pc ret by (cases "(srv s, pcs s c)" rule: pc_ver.cases)
      (auto simp: op_ver_def op_key_def put_nokey_def passed_def err_string_nokey split: if_splits)
  then show "ver_inv (end_op s c res)"
    using inv(1) by (auto simp: ver_inv_def end_op_def)
  show "late_inv (end_op s c res) B"
    by (rule late_inv_mono [OF inv(2)])
      (use pc ret in \<open>auto simp: end_op_def elim: call_returned.elims\<close>)
qed

lemma late_run_inv:
  assumes lin: "lin_inv s L" and b: "Suc (now s) < 2 ^ 64" and inv: "ver_inv s" "late_inv s B" and a: "a \<in> B"
  shows "(\<exists>L'. lin_inv (late_put s a) L') \<and> ver_inv (late_put s a) \<and> late_inv (late_put s a) B"
proof (intro conjI)
  have le: "ver_le (srv s) (srv (late_put s a))"
    using Put_ver_le [OF lin b] by (simp add: late_put_def)
  show "ver_inv (late_put s a)"
    by (rule ver_inv_mono [OF inv(1) le]) (auto simp: late_put_def)
  show "late_inv (late_put s a) B"
    by (rule late_inv_mono [OF inv(2) le]) (auto simp: late_put_def)
  show "\<exists>L'. lin_inv (late_put s a) L'"
  proof (cases "passed (srv s) a")
    case True
    with lin_inv_tick [OF lin] show ?thesis by (auto simp: late_put_def passed_refused)
  next
    case False
    with inv(2) a obtain c x where c: "pcs s c = InPut a True x" by (auto simp: late_inv_def)
    moreover have "pc_ver (srv s) (pcs s c)" using inv(1) by (simp add: ver_inv_def)
    ultimately have "pcs s c = InPut a True Sent" using False by (cases x) auto
    from lin_inv_late [OF lin this False b] show ?thesis .
  qed
qed

lemma kl_net_inv:
  assumes "kl_net s t" "lin_inv (kl_sys s) L" "ver_inv (kl_sys s)" "late_inv (kl_sys s) (kl_late s)"
    and b: "Suc (now (kl_sys s)) < 2 ^ 64"
  shows "(\<exists>L. lin_inv (kl_sys t) L) \<and> ver_inv (kl_sys t) \<and> late_inv (kl_sys t) (kl_late t)"
proof -
  note I = assms(2-4)
  have lin: "\<exists>L'. lin_inv u L'" if "kv_step (kl_sys s) u" for u
    using kv_step_lin_inv [OF that I(1)] kv_step_now [OF that] b by simp
  from assms(1) show ?thesis
  proof cases
    case (kl_deliver c kv' pc')
    then show ?thesis
      using lin [OF deliver_step] deliver_inv [OF I(1) b I(2,3)] by simp
  next
    case (kl_lose c pc')
    then show ?thesis
      using lin [OF lose_step] ver_inv_lose [OF I(2)] late_inv_lose [OF I(3)] by simp
  next
    case (kl_abandon c a rt)
    then have f: "call_failed (pcs (kl_sys s) c) = Some (InPut a True Sent)" by simp
    have "late_inv (put_pc (kl_sys s) c (InPut a True Sent)) (insert a (kl_late s))"
      using late_inv_lose [OF I(3) f] by (auto simp: late_inv_def put_pc_def)
    with kl_abandon show ?thesis
      using lin [OF lose_step [OF f]] ver_inv_lose [OF I(2) f] by simp
  next
    case (kl_late a)
    then show ?thesis using late_run_inv [OF I(1) b I(2,3)] by simp
  next
    case kl_pass
    then show ?thesis
      using lin_inv_tick [OF I(1)] I(2,3) by (auto simp: ver_inv_def late_inv_def)
  qed
qed

lemma kl_step_inv:
  assumes "kl_step s t" "kl_inv s" "now (kl_sys t) < 2 ^ 64"
  shows "kl_inv t"
  unfolding kl_inv_def
proof
  assume lt: "kl_learned t"
  from kl_step_learned [OF assms(1) lt] assms(2) obtain L
    where I: "lin_inv (kl_sys s) L" "ver_inv (kl_sys s)" "late_inv (kl_sys s) (kl_late s)"
    by (auto simp: kl_inv_def)
  have b: "Suc (now (kl_sys s)) < 2 ^ 64" using assms(3) kl_step_now [OF assms(1)] by simp
  have lin: "\<exists>L'. lin_inv u L'" if "kv_step (kl_sys s) u" for u
    using kv_step_lin_inv [OF that I(1)] kv_step_now [OF that] b by simp
  from assms(1) show "(\<exists>L. lin_inv (kl_sys t) L) \<and> ver_inv (kl_sys t) \<and> late_inv (kl_sys t) (kl_late t)"
  proof cases
    case (kl_get c key)
    then show ?thesis
      using lin [OF kv_step.call_get] ver_inv_begin [OF I(2)] late_inv_begin [OF I(3)]
      by (simp add: Clerk_Get_def)
  next
    case (kl_put c key version val)
    then have "unat version \<le> unat (ver (srv (kl_sys s)) key)"
      using lt learned_reached [OF I(2) _ I(1)] b by simp
    with kl_put show ?thesis
      using lin [OF kv_step.call_put] ver_inv_begin [OF I(2)] late_inv_begin [OF I(3)]
      by (simp add: Clerk_Put_def reached_def)
  next
    case (kl_return c res)
    then show ?thesis
      using lin [OF kv_step.return] return_inv [OF I(2,3)] by simp
  next
    case kl_move
    then show ?thesis using kl_net_inv [OF _ I b] by blast
  qed
qed

interpretation kl: clocked_invariant kl_init kl_step "\<lambda>s. now (kl_sys s)" "2 ^ 64" kl_inv
  by unfold_locales (auto dest: kl_step_inv kl_step_now intro: kl_inv_init)

subsection \<open>Linearizability with late executions\<close>

text \<open>
  Every history of clients that name learned versions is linearizable, although requests that were
  given up may run at any later time. No \<open>Put\<close> is answered \<open>ErrNoKey\<close> then, so the whole history of a
  key is covered.
\<close>

lemma kl_linearizable:
  assumes "kl_reach s" and "now (kl_sys s) < 2 ^ 64" and "kl_learned s"
  shows "\<exists>ext. list_all (completes (kl_sys s)) ext \<and> distinct (map op_ClientId ext) \<and>
    (\<forall>k. linearizable (filter (\<lambda>v. op_key v = k) (oplog (kl_sys s) @ ext)))"
proof -
  from kl.reach_inv [OF assms(1,2)] assms(3) obtain L
    where inv: "lin_inv (kl_sys s) L" and v: "ver_inv (kl_sys s)" by (auto simp: kl_inv_def)
  obtain ext where ext: "list_all (completes (kl_sys s)) ext" "distinct (map op_ClientId ext)"
      "\<forall>k. linearizable (filter (\<lambda>v. op_key v = k \<and> \<not> put_nokey v) (oplog (kl_sys s) @ ext))"
    using lin_inv_history [OF inv] by blast
  let ?ext = "filter (\<lambda>v. \<not> put_nokey v) ext"
  have "filter (\<lambda>v. op_key v = k \<and> \<not> put_nokey v) (oplog (kl_sys s)) = filter (\<lambda>v. op_key v = k) (oplog (kl_sys s))" for k
    using v by (intro filter_cong) (auto simp: ver_inv_def op_ver_def)
  then have "filter (\<lambda>v. op_key v = k) (oplog (kl_sys s) @ ?ext) =
      filter (\<lambda>v. op_key v = k \<and> \<not> put_nokey v) (oplog (kl_sys s) @ ext)" for k
    by (simp add: conj_commute)
  then have "\<forall>k. linearizable (filter (\<lambda>v. op_key v = k) (oplog (kl_sys s) @ ?ext))" using ext(3) by simp
  moreover have "list_all (completes (kl_sys s)) ?ext" using ext(1) by (auto simp: list_all_iff)
  moreover have "distinct (map op_ClientId ?ext)" using ext(2) by (rule distinct_map_filter)
  ultimately show ?thesis by blast
qed

end
