(* ===== verification/Persister.thy ===== *)
theory Persister
  imports Prelude
begin

text \<open>
  The storage of a server that survives a crash, \<open>src/tester1/persister.go\<close>, and the encoded values
  it holds.

  \<open>labgob\<close> writes a sequence of values into a buffer; a decoder reads them back in order and fails
  on a value of another type or at the end of the buffer. A buffer is modelled as the list of the
  values encoded into it, of a type \<open>'v\<close> the user of the buffer chooses. Every read and write of a
  buffer clones it, and a nil buffer and an empty one are told apart by no reader, so a buffer is a
  plain list.
\<close>

type_synonym bytes = "8 word list"

record 'v Persister =
  ps_raftstate :: "'v list"
  ps_snapshot :: bytes

definition MakePersister :: "'v Persister" where
  "MakePersister = \<lparr>ps_raftstate = [], ps_snapshot = []\<rparr>"

definition clone :: "'a list \<Rightarrow> 'a list" where
  "clone orig = map (\<lambda>i. orig ! i) [0..<length orig]"

definition ReadRaftState :: "'v Persister \<Rightarrow> 'v list" where
  "ReadRaftState ps = clone (ps_raftstate ps)"

definition ReadSnapshot :: "'v Persister \<Rightarrow> bytes" where
  "ReadSnapshot ps = clone (ps_snapshot ps)"

definition Save :: "'v Persister \<Rightarrow> 'v list \<Rightarrow> bytes \<Rightarrow> 'v Persister" where
  "Save ps raftstate snapshot = ps\<lparr>ps_raftstate := clone raftstate, ps_snapshot := clone snapshot\<rparr>"

definition Checkpoint :: "'v Persister \<Rightarrow> 'v Persister" where
  "Checkpoint ps =
     MakePersister\<lparr>ps_raftstate := clone (ps_raftstate ps), ps_snapshot := clone (ps_snapshot ps)\<rparr>"

text \<open>The sizes the tester asks for; the size in bytes of an encoded value is an argument.\<close>

definition RaftStateSize :: "('v \<Rightarrow> nat) \<Rightarrow> 'v Persister \<Rightarrow> nat" where
  "RaftStateSize size_of ps = sum_list (map size_of (ps_raftstate ps))"

definition SnapshotSize :: "'v Persister \<Rightarrow> nat" where
  "SnapshotSize ps = length (ps_snapshot ps)"

lemma clone_id [simp]: "clone xs = xs"
  by (simp add: clone_def map_nth)

subsection \<open>The contract\<close>

text \<open>What Raft relies on: a saved pair is read back as it was saved, both parts at once.\<close>

locale stable_storage =
  fixes save :: "'p \<Rightarrow> 'r \<Rightarrow> 's \<Rightarrow> 'p" and read_state :: "'p \<Rightarrow> 'r" and read_snap :: "'p \<Rightarrow> 's"
    and checkpoint :: "'p \<Rightarrow> 'p"
  assumes read_state_save: "read_state (save p r s) = r"
    and read_snap_save: "read_snap (save p r s) = s"
    and read_state_checkpoint: "read_state (checkpoint p) = read_state p"
    and read_snap_checkpoint: "read_snap (checkpoint p) = read_snap p"
begin

lemmas storage_simps = read_state_save read_snap_save read_state_checkpoint read_snap_checkpoint

text \<open>Saving the state with the snapshot just read leaves the snapshot as it was.\<close>

lemma save_keeps_snap: "read_snap (save p r (read_snap p)) = read_snap p"
  by (rule read_snap_save)

lemma save_last: "read_state (save (save p r s) r' s') = r'" "read_snap (save (save p r s) r' s') = s'"
  by (rule read_state_save read_snap_save)+

end

interpretation disk: stable_storage Save ReadRaftState ReadSnapshot Checkpoint
  by unfold_locales (simp_all add: Save_def ReadRaftState_def ReadSnapshot_def Checkpoint_def)

end
