(* ===== verification/Labrpc.thy ===== *)
theory Labrpc
  imports Persister
begin

text \<open>
  The simulated network, \<open>src/labrpc/labrpc.go\<close>: client ends, the network that routes their requests
  and may lose, delay or refuse them, and the servers that dispatch them to the methods of services.

  A \<open>*Server\<close> is an address of a heap of servers. End and server names (\<open>interface{}\<close>) are of types
  \<open>'e\<close> and \<open>'n\<close>, \<open>nil\<close> is \<^term>\<open>None\<close>. The methods of a service are what \<open>reflect\<close> finds in its receiver:
  functions on the receiver's state \<open>'o\<close> over the values \<open>'v\<close> that \<open>labgob\<close> encodes; \<open>enc\<close> and \<open>dec\<close>
  are that encoding. \<open>log.Fatalf\<close> is \<^term>\<open>None\<close>. Random numbers and the passing of time are arguments:
  the steps of a request are functions, and a run of a request is a sequence of steps.
\<close>

definition SHORTDELAY :: nat where "SHORTDELAY = 27"
definition LONGDELAY :: nat where "LONGDELAY = 7000"
definition MAXDELAY :: nat where "MAXDELAY = LONGDELAY + 100"

record 'e reqMsg =
  rq_endname :: 'e
  rq_svcMeth :: string
  rq_args :: bytes

record replyMsg =
  rp_ok :: bool
  rp_reply :: bytes

definition Marshall :: "('v \<Rightarrow> bytes option) \<Rightarrow> 'v \<Rightarrow> bytes option" where
  "Marshall enc args = enc args"

definition Unmarshall :: "(bytes \<Rightarrow> 'v option) \<Rightarrow> bytes \<Rightarrow> 'v option" where
  "Unmarshall dec b = dec b"

subsection \<open>Services and servers\<close>

text \<open>What \<open>reflect\<close> reports about a method of a receiver.\<close>

record ('o, 'v) Method =
  mt_Name :: string
  mt_PkgPath :: string
  mt_NumIn :: nat
  mt_In2_Ptr :: bool
  mt_NumOut :: nat
  mt_Func :: "'v \<Rightarrow> 'o \<Rightarrow> 'o \<times> 'v"

record ('o, 'v) Service =
  svc_name :: string
  svc_rcvr :: 'o
  svc_methods :: "string \<rightharpoonup> ('o, 'v) Method"

definition handler_like :: "('o, 'v) Method \<Rightarrow> bool" where
  "handler_like m \<longleftrightarrow> \<not> (mt_PkgPath m \<noteq> [] \<or> mt_NumIn m \<noteq> 3 \<or> \<not> mt_In2_Ptr m \<or> mt_NumOut m \<noteq> 0)"

fun service_methods :: "('o, 'v) Method list \<Rightarrow> (string \<rightharpoonup> ('o, 'v) Method) \<Rightarrow> (string \<rightharpoonup> ('o, 'v) Method)" where
  "service_methods [] tab = tab"
| "service_methods (m # ms) tab = service_methods ms (if handler_like m then tab(mt_Name m \<mapsto> m) else tab)"

definition MakeService :: "string \<Rightarrow> 'o \<Rightarrow> ('o, 'v) Method list \<Rightarrow> ('o, 'v) Service" where
  "MakeService typname rcvr typ = \<lparr>svc_name = typname, svc_rcvr = rcvr, svc_methods = service_methods typ Map.empty\<rparr>"

definition Service_dispatch ::
  "('v \<Rightarrow> bytes option) \<Rightarrow> (bytes \<Rightarrow> 'v option) \<Rightarrow> ('o, 'v) Service \<Rightarrow> string \<Rightarrow> 'e reqMsg \<Rightarrow>
     (('o, 'v) Service \<times> replyMsg) option" where
  "Service_dispatch enc dec svc methname req =
     (case svc_methods svc methname of
        Some method \<Rightarrow> do {
          args \<leftarrow> Unmarshall dec (rq_args req);
          let (rcvr, reply) = mt_Func method args (svc_rcvr svc);
          b \<leftarrow> enc reply;
          Some (svc\<lparr>svc_rcvr := rcvr\<rparr>, \<lparr>rp_ok = True, rp_reply = b\<rparr>)
        }
      | None \<Rightarrow> None)"

record ('o, 'v) Server =
  sv_services :: "string \<rightharpoonup> ('o, 'v) Service"
  sv_count :: int
  sv_dispatchf :: "(string \<Rightarrow> bytes \<Rightarrow> bytes \<times> bool) option"

definition MakeServer :: "('o, 'v) Server" where
  "MakeServer = \<lparr>sv_services = Map.empty, sv_count = 0, sv_dispatchf = None\<rparr>"

definition SetDispatch :: "('o, 'v) Server \<Rightarrow> (string \<Rightarrow> bytes \<Rightarrow> bytes \<times> bool) \<Rightarrow> ('o, 'v) Server" where
  "SetDispatch rs f = rs\<lparr>sv_dispatchf := Some f\<rparr>"

definition AddService :: "('o, 'v) Server \<Rightarrow> ('o, 'v) Service \<Rightarrow> ('o, 'v) Server" where
  "AddService rs svc = rs\<lparr>sv_services := (sv_services rs)(svc_name svc \<mapsto> svc)\<rparr>"

definition Server_GetCount :: "('o, 'v) Server \<Rightarrow> int" where
  "Server_GetCount rs = sv_count rs"

text \<open>\<open>strings.LastIndex(s, ".")\<close>: \<open>-1\<close> when there is none.\<close>

fun last_index :: "char \<Rightarrow> string \<Rightarrow> int" where
  "last_index x [] = -1"
| "last_index x (y # ys) = (let i = last_index x ys in if i \<ge> 0 then i + 1 else if x = y then 0 else -1)"

definition Server_dispatch ::
  "('v \<Rightarrow> bytes option) \<Rightarrow> (bytes \<Rightarrow> 'v option) \<Rightarrow> ('o, 'v) Server \<Rightarrow> 'e reqMsg \<Rightarrow>
     (('o, 'v) Server \<times> replyMsg) option" where
  "Server_dispatch enc dec rs req = do {
     let rs = rs\<lparr>sv_count := sv_count rs + 1\<rparr>;
     let dot = last_index (CHR ''.'') (rq_svcMeth req);
     serviceName \<leftarrow> go_upto (rq_svcMeth req) dot;
     methodName \<leftarrow> go_from (rq_svcMeth req) (dot + 1);
     case sv_dispatchf rs of
       Some f \<Rightarrow> (case f (rq_svcMeth req) (rq_args req) of (rep, ok) \<Rightarrow> Some (rs, \<lparr>rp_ok = ok, rp_reply = rep\<rparr>))
     | None \<Rightarrow>
         (case sv_services rs serviceName of
            Some service \<Rightarrow> do {
              (service, rep) \<leftarrow> Service_dispatch enc dec service methodName req;
              Some (rs\<lparr>sv_services := (sv_services rs)(serviceName \<mapsto> service)\<rparr>, rep)
            }
          | None \<Rightarrow> None)
   }"

definition Dispatch ::
  "('v \<Rightarrow> bytes option) \<Rightarrow> (bytes \<Rightarrow> 'v option) \<Rightarrow> ('o, 'v) Server \<Rightarrow> string \<Rightarrow> 'e \<Rightarrow> bytes \<Rightarrow>
     (('o, 'v) Server \<times> bytes \<times> bool) option" where
  "Dispatch enc dec rs svcMeth clnt args = do {
     (rs, rep) \<leftarrow> Server_dispatch enc dec rs \<lparr>rq_endname = clnt, rq_svcMeth = svcMeth, rq_args = args\<rparr>;
     Some (rs, rp_reply rep, rp_ok rep)
   }"

subsection \<open>The network\<close>

text \<open>
  \<open>count\<close> and \<open>bytes\<close> are 32- and 64-bit atomics. A key that is absent from a map reads as the zero
  value: \<open>enabled\<close> false, \<open>connections\<close> and \<open>servers\<close> nil.
\<close>

record ('e, 'n, 'o, 'v) Network =
  nw_reliable :: bool
  nw_longDelays :: bool
  nw_longReordering :: bool
  nw_ends :: "'e set"
  nw_enabled :: "'e \<Rightarrow> bool"
  nw_servers :: "'n \<Rightarrow> nat option"
  nw_connections :: "'e \<Rightarrow> 'n option"
  nw_done :: bool
  nw_count :: "32 word"
  nw_bytes :: "64 word"
  nw_heap :: "nat \<Rightarrow> ('o, 'v) Server"

definition MakeNetwork :: "(nat \<Rightarrow> ('o, 'v) Server) \<Rightarrow> ('e, 'n, 'o, 'v) Network" where
  "MakeNetwork heap = \<lparr>nw_reliable = True, nw_longDelays = False, nw_longReordering = False, nw_ends = {},
     nw_enabled = (\<lambda>_. False), nw_servers = (\<lambda>_. None), nw_connections = (\<lambda>_. None), nw_done = False,
     nw_count = 0, nw_bytes = 0, nw_heap = heap\<rparr>"

definition Cleanup :: "('e, 'n, 'o, 'v) Network \<Rightarrow> ('e, 'n, 'o, 'v) Network option" where
  "Cleanup rn = (if nw_done rn then None else Some (rn\<lparr>nw_done := True\<rparr>))"  \<comment> \<open>closing a closed channel panics\<close>

definition Reliable :: "('e, 'n, 'o, 'v) Network \<Rightarrow> bool \<Rightarrow> ('e, 'n, 'o, 'v) Network" where
  "Reliable rn yes = rn\<lparr>nw_reliable := yes\<rparr>"

definition IsReliable :: "('e, 'n, 'o, 'v) Network \<Rightarrow> bool" where
  "IsReliable rn = nw_reliable rn"

definition LongReordering :: "('e, 'n, 'o, 'v) Network \<Rightarrow> bool \<Rightarrow> ('e, 'n, 'o, 'v) Network" where
  "LongReordering rn yes = rn\<lparr>nw_longReordering := yes\<rparr>"

definition LongDelays :: "('e, 'n, 'o, 'v) Network \<Rightarrow> bool \<Rightarrow> ('e, 'n, 'o, 'v) Network" where
  "LongDelays rn yes = rn\<lparr>nw_longDelays := yes\<rparr>"

definition IsLongDelays :: "('e, 'n, 'o, 'v) Network \<Rightarrow> bool" where
  "IsLongDelays rn = nw_longDelays rn"

definition MakeEnd :: "('e, 'n, 'o, 'v) Network \<Rightarrow> 'e \<Rightarrow> ('e, 'n, 'o, 'v) Network option" where
  "MakeEnd rn endname =
     (if endname \<in> nw_ends rn then None
      else Some (rn\<lparr>nw_ends := insert endname (nw_ends rn), nw_enabled := (nw_enabled rn)(endname := False),
                    nw_connections := (nw_connections rn)(endname := None)\<rparr>))"

definition LookupEnd :: "('e, 'n, 'o, 'v) Network \<Rightarrow> 'e \<Rightarrow> 'e option" where
  "LookupEnd rn endname = (if endname \<notin> nw_ends rn then None else Some endname)"

definition DeleteEnd :: "('e, 'n, 'o, 'v) Network \<Rightarrow> 'e \<Rightarrow> ('e, 'n, 'o, 'v) Network option" where
  "DeleteEnd rn endname =
     (if endname \<notin> nw_ends rn then None
      else Some (rn\<lparr>nw_ends := nw_ends rn - {endname}, nw_enabled := (nw_enabled rn)(endname := False),
                    nw_connections := (nw_connections rn)(endname := None)\<rparr>))"

definition AddServer :: "('e, 'n, 'o, 'v) Network \<Rightarrow> 'n \<Rightarrow> nat \<Rightarrow> ('e, 'n, 'o, 'v) Network" where
  "AddServer rn servername rs = rn\<lparr>nw_servers := (nw_servers rn)(servername := Some rs)\<rparr>"

definition DeleteServer :: "('e, 'n, 'o, 'v) Network \<Rightarrow> 'n \<Rightarrow> ('e, 'n, 'o, 'v) Network" where
  "DeleteServer rn servername = rn\<lparr>nw_servers := (nw_servers rn)(servername := None)\<rparr>"

definition Connect :: "('e, 'n, 'o, 'v) Network \<Rightarrow> 'e \<Rightarrow> 'n \<Rightarrow> ('e, 'n, 'o, 'v) Network" where
  "Connect rn endname servername = rn\<lparr>nw_connections := (nw_connections rn)(endname := Some servername)\<rparr>"

definition Enable :: "('e, 'n, 'o, 'v) Network \<Rightarrow> 'e \<Rightarrow> bool \<Rightarrow> ('e, 'n, 'o, 'v) Network" where
  "Enable rn endname enabled = rn\<lparr>nw_enabled := (nw_enabled rn)(endname := enabled)\<rparr>"

text \<open>\<open>svr.GetCount()\<close> on a nil server locks a mutex of a nil struct: a panic.\<close>

definition GetCount :: "('e, 'n, 'o, 'v) Network \<Rightarrow> 'n \<Rightarrow> int option" where
  "GetCount rn servername = map_option (\<lambda>a. Server_GetCount (nw_heap rn a)) (nw_servers rn servername)"

definition GetTotalCount :: "('e, 'n, 'o, 'v) Network \<Rightarrow> int" where
  "GetTotalCount rn = sint (nw_count rn)"

definition GetTotalBytes :: "('e, 'n, 'o, 'v) Network \<Rightarrow> int" where
  "GetTotalBytes rn = sint (nw_bytes rn)"

definition readEndnameInfo ::
  "('e, 'n, 'o, 'v) Network \<Rightarrow> 'e \<Rightarrow> bool \<times> 'n option \<times> nat option \<times> bool \<times> bool" where
  "readEndnameInfo rn endname =
     (let servername = nw_connections rn endname;
          server = (case servername of None \<Rightarrow> None | Some n \<Rightarrow> nw_servers rn n)
      in (nw_enabled rn endname, servername, server, nw_reliable rn, nw_longReordering rn))"

definition isServerDead :: "('e, 'n, 'o, 'v) Network \<Rightarrow> 'e \<Rightarrow> 'n \<Rightarrow> nat \<Rightarrow> bool" where
  "isServerDead rn endname servername server \<longleftrightarrow>
     nw_enabled rn endname = False \<or> nw_servers rn servername \<noteq> Some server"

subsection \<open>A request on its way\<close>

text \<open>
  The goroutine of \<open>processReq\<close>: the request has arrived; it waits for the handler; it has left the wait
  loop, with the value of \<open>replyOK\<close>; it has sent its reply. \<open>pr_started\<close> says that the goroutine that
  calls the handler has been created and has not called it yet, \<open>pr_ech\<close> what it sends when the handler has
  returned, \<open>pr_out\<close> what has been sent on \<open>replyCh\<close>.
\<close>

datatype ReqPc = RqArrived | RqWaiting | RqLeft bool | RqFinished

record ('e, 'n) ReqProc =
  pr_req :: "'e reqMsg"
  pr_pc :: ReqPc
  pr_servername :: "'n option"
  pr_server :: "nat option"
  pr_reliable :: bool
  pr_longreordering :: bool
  pr_started :: bool
  pr_ech :: "replyMsg option"
  pr_out :: "replyMsg option"

definition failed :: replyMsg where
  "failed = \<lparr>rp_ok = False, rp_reply = []\<rparr>"

definition new_req :: "'e reqMsg \<Rightarrow> ('e, 'n) ReqProc" where
  "new_req req = \<lparr>pr_req = req, pr_pc = RqArrived, pr_servername = None, pr_server = None, pr_reliable = False,
     pr_longreordering = False, pr_started = False, pr_ech = None, pr_out = None\<rparr>"

text \<open>The network's receiving goroutine counts the request.\<close>

definition accept_req :: "('e, 'n, 'o, 'v) Network \<Rightarrow> 'e reqMsg \<Rightarrow> ('e, 'n, 'o, 'v) Network" where
  "accept_req rn req =
     rn\<lparr>nw_count := nw_count rn + 1, nw_bytes := nw_bytes rn + of_nat (length (rq_args req))\<rparr>"

text \<open>From the start to the wait loop; \<open>lose\<close> is \<open>rand.Int() % 1000\<close>.\<close>

definition route_req :: "('e, 'n, 'o, 'v) Network \<Rightarrow> nat \<Rightarrow> ('e, 'n) ReqProc \<Rightarrow> ('e, 'n) ReqProc" where
  "route_req rn lose p =
     (case readEndnameInfo rn (rq_endname (pr_req p)) of (enabled, servername, server, reliable, longreordering) \<Rightarrow>
        let p = p\<lparr>pr_servername := servername, pr_server := server, pr_reliable := reliable,
                  pr_longreordering := longreordering\<rparr>
        in if enabled \<and> servername \<noteq> None \<and> server \<noteq> None then
             if reliable = False \<and> lose < 100 then p\<lparr>pr_pc := RqFinished, pr_out := Some failed\<rparr>
             else p\<lparr>pr_pc := RqWaiting, pr_started := True\<rparr>
           else p\<lparr>pr_pc := RqFinished, pr_out := Some failed\<rparr>)"

text \<open>How long a request without a server is held before it fails; \<open>r\<close> is \<open>rand.Int()\<close>.\<close>

definition unroutable_delay :: "('e, 'n, 'o, 'v) Network \<Rightarrow> nat \<Rightarrow> nat" where
  "unroutable_delay rn r = (if IsLongDelays rn then r mod LONGDELAY else r mod 100)"

text \<open>The handler runs, on the server that the request was routed to.\<close>

definition execute_req ::
  "('v \<Rightarrow> bytes option) \<Rightarrow> (bytes \<Rightarrow> 'v option) \<Rightarrow> ('e, 'n, 'o, 'v) Network \<Rightarrow> ('e, 'n) ReqProc \<Rightarrow>
     (('e, 'n, 'o, 'v) Network \<times> ('e, 'n) ReqProc) option" where
  "execute_req enc dec rn p = do {
     server \<leftarrow> pr_server p;
     (rs, r) \<leftarrow> Server_dispatch enc dec (nw_heap rn server) (pr_req p);
     Some (rn\<lparr>nw_heap := (nw_heap rn)(server := rs)\<rparr>, p\<lparr>pr_started := False, pr_ech := Some r\<rparr>)
   }"

definition receive_req :: "('e, 'n) ReqProc \<Rightarrow> ('e, 'n) ReqProc" where
  "receive_req p = p\<lparr>pr_pc := RqLeft True\<rparr>"

definition req_dead :: "('e, 'n, 'o, 'v) Network \<Rightarrow> ('e, 'n) ReqProc \<Rightarrow> bool" where
  "req_dead rn p =
     (case (pr_servername p, pr_server p) of
        (Some n, Some a) \<Rightarrow> isServerDead rn (rq_endname (pr_req p)) n a
      | _ \<Rightarrow> True)"

definition poll_req :: "('e, 'n, 'o, 'v) Network \<Rightarrow> ('e, 'n) ReqProc \<Rightarrow> ('e, 'n) ReqProc" where
  "poll_req rn p = (if req_dead rn p then p\<lparr>pr_pc := RqLeft False\<rparr> else p)"

text \<open>
  The end: the answer that goes to the caller. \<open>lose\<close> and \<open>slow\<close> are the random numbers; a slow reply is
  the same reply sent later.
\<close>

definition finish_req ::
  "('e, 'n, 'o, 'v) Network \<Rightarrow> nat \<Rightarrow> nat \<Rightarrow> bool \<Rightarrow> ('e, 'n) ReqProc \<Rightarrow> ('e, 'n, 'o, 'v) Network \<times> ('e, 'n) ReqProc" where
  "finish_req rn lose slow replyOK p =
     (let reply = (case pr_ech p of Some r \<Rightarrow> r | None \<Rightarrow> failed);
          serverDead = req_dead rn p;
          rn' = rn\<lparr>nw_bytes := nw_bytes rn + of_nat (length (rp_reply reply))\<rparr>
      in if replyOK = False \<or> serverDead = True then (rn, p\<lparr>pr_pc := RqFinished, pr_out := Some failed\<rparr>)
         else if pr_reliable p = False \<and> lose < 100 then (rn, p\<lparr>pr_pc := RqFinished, pr_out := Some failed\<rparr>)
         else if pr_longreordering p = True \<and> slow < 600 then (rn', p\<lparr>pr_pc := RqFinished, pr_out := Some reply\<rparr>)
         else (rn', p\<lparr>pr_pc := RqFinished, pr_out := Some reply\<rparr>))"

text \<open>What \<open>Call\<close> makes of the answer: the decoded reply and true, or false.\<close>

definition Call_result :: "(bytes \<Rightarrow> 'v option) \<Rightarrow> replyMsg \<Rightarrow> 'v option option" where
  "Call_result dec rep = (if rp_ok rep then map_option Some (Unmarshall dec (rp_reply rep)) else Some None)"

definition Forward_result :: "replyMsg \<Rightarrow> bytes \<times> bool" where
  "Forward_result rep = (rp_reply rep, rp_ok rep)"

text \<open>The steps of one request: its own goroutine and the one that calls the handler.\<close>

inductive req_step ::
  "('v \<Rightarrow> bytes option) \<Rightarrow> (bytes \<Rightarrow> 'v option) \<Rightarrow> ('e, 'n, 'o, 'v) Network \<times> ('e, 'n) ReqProc \<Rightarrow>
     ('e, 'n, 'o, 'v) Network \<times> ('e, 'n) ReqProc \<Rightarrow> bool" for enc dec where
  route: "pr_pc p = RqArrived \<Longrightarrow> req_step enc dec (rn, p) (accept_req rn (pr_req p), route_req rn lose p)"
| execute: "pr_started p \<Longrightarrow> execute_req enc dec rn p = Some (rn', p') \<Longrightarrow>
    req_step enc dec (rn, p) (rn', p')"
| receive: "pr_pc p = RqWaiting \<Longrightarrow> pr_ech p \<noteq> None \<Longrightarrow> req_step enc dec (rn, p) (rn, receive_req p)"
| poll: "pr_pc p = RqWaiting \<Longrightarrow> req_step enc dec (rn, p) (rn, poll_req rn p)"
| finish: "pr_pc p = RqLeft ok \<Longrightarrow> finish_req rn lose slow ok p = (rn', p') \<Longrightarrow> req_step enc dec (rn, p) (rn', p')"

text \<open>
  The requests of a test on one network: requests arrive, the goroutines of all of them take their steps in any
  order, and the tester changes ends, connections and the table of servers as it likes. Server objects change
  only when a request is executed.
\<close>

inductive net_step ::
  "('v \<Rightarrow> bytes option) \<Rightarrow> (bytes \<Rightarrow> 'v option) \<Rightarrow> ('e, 'n, 'o, 'v) Network \<times> ('e, 'n) ReqProc list \<Rightarrow>
     ('e, 'n, 'o, 'v) Network \<times> ('e, 'n) ReqProc list \<Rightarrow> bool" for enc dec where
  arrive: "net_step enc dec (rn, ps) (rn, ps @ [new_req req])"
| move: "i < length ps \<Longrightarrow> req_step enc dec (rn, ps ! i) (rn', p) \<Longrightarrow> net_step enc dec (rn, ps) (rn', ps[i := p])"
| tester: "nw_heap rn' = nw_heap rn \<Longrightarrow> net_step enc dec (rn, ps) (rn', ps)"

subsection \<open>Properties\<close>

lemma last_index_append: "x \<notin> set zs \<Longrightarrow> last_index x (ys @ x # zs) = int (length ys)"
proof (induction ys)
  case Nil
  then have "last_index x zs = -1" by (induction zs) (auto simp: Let_def)
  then show ?case by simp
qed (simp add: Let_def)

text \<open>
  A server takes a request \<open>Service.Method\<close> apart at the last dot, counts it, and runs exactly that
  method of that service on the decoded argument: the reply is the encoded result, and only the state of
  that service changes.
\<close>

theorem server_dispatch_method:
  assumes "rq_svcMeth req = sname @ CHR ''.'' # mname" "CHR ''.'' \<notin> set mname" "sv_dispatchf rs = None"
    "sv_services rs sname = Some svc" "svc_methods svc mname = Some m"
    "dec (rq_args req) = Some args" "mt_Func m args (svc_rcvr svc) = (rcvr, v)" "enc v = Some b"
  shows "Server_dispatch enc dec rs req = Some
    (rs\<lparr>sv_count := sv_count rs + 1, sv_services := (sv_services rs)(sname \<mapsto> svc\<lparr>svc_rcvr := rcvr\<rparr>)\<rparr>,
     \<lparr>rp_ok = True, rp_reply = b\<rparr>)"
  using assms
  by (simp add: Server_dispatch_def Service_dispatch_def Unmarshall_def last_index_append go_upto_def go_from_def
      nat_add_distrib)

text \<open>A counter service: its method adds the decoded byte to its state and returns the sum.\<close>

definition add_method :: "(8 word, 8 word) Method" where
  "add_method = \<lparr>mt_Name = ''Add'', mt_PkgPath = [], mt_NumIn = 3, mt_In2_Ptr = True, mt_NumOut = 0,
     mt_Func = (\<lambda>v x. (x + v, x + v))\<rparr>"

definition one_byte :: "8 word \<Rightarrow> bytes option" where "one_byte v = Some [v]"

definition get_byte :: "bytes \<Rightarrow> 8 word option" where "get_byte b = (case b of [v] \<Rightarrow> Some v | _ \<Rightarrow> None)"

definition counter_server :: "(8 word, 8 word) Server" where
  "counter_server = AddService MakeServer (MakeService ''Counter'' 5 [add_method])"

definition add_req :: "nat reqMsg" where
  "add_req = \<lparr>rq_endname = 0, rq_svcMeth = ''Counter.Add'', rq_args = [3]\<rparr>"

lemma counter_dispatch:
  "\<exists>rs. Server_dispatch one_byte get_byte counter_server add_req = Some (rs, \<lparr>rp_ok = True, rp_reply = [8]\<rparr>)"
  by (simp add: Server_dispatch_def Service_dispatch_def Unmarshall_def go_upto_def go_from_def Let_def
      add_req_def counter_server_def AddService_def MakeServer_def MakeService_def handler_like_def
      add_method_def get_byte_def one_byte_def)

theorem server_dispatch_method_witness:
  "\<exists>rs. Server_dispatch one_byte get_byte counter_server add_req = Some (rs, \<lparr>rp_ok = True, rp_reply = [8]\<rparr>)"
  using server_dispatch_method [of add_req "''Counter''" "''Add''" counter_server
      "MakeService ''Counter'' 5 [add_method]" add_method get_byte 3 8 8 one_byte "[8]"]
  by (simp add: add_req_def counter_server_def AddService_def MakeServer_def MakeService_def handler_like_def
      add_method_def get_byte_def one_byte_def)

text \<open>What holds of a request at every moment.\<close>

definition req_inv :: "('e, 'n) ReqProc \<Rightarrow> bool" where
  "req_inv p \<longleftrightarrow>
     (pr_out p \<noteq> None \<longleftrightarrow> pr_pc p = RqFinished) \<and> (pr_pc p = RqArrived \<longrightarrow> \<not> pr_started p)
     \<and> (pr_started p \<or> pr_pc p = RqArrived \<longrightarrow> pr_ech p = None) \<and> (pr_pc p = RqLeft True \<longrightarrow> pr_ech p \<noteq> None)
     \<and> (\<forall>r. pr_out p = Some r \<and> rp_ok r \<longrightarrow> pr_ech p = Some r)"

text \<open>What no step undoes: an answer that was sent, and a handler that has run.\<close>

definition req_keeps :: "('e, 'n) ReqProc \<Rightarrow> ('e, 'n) ReqProc \<Rightarrow> bool" where
  "req_keeps p p' \<longleftrightarrow>
     (\<forall>r. pr_out p = Some r \<longrightarrow> pr_out p' = Some r) \<and> (\<forall>r. pr_ech p = Some r \<longrightarrow> pr_ech p' = Some r)"

lemma req_step_inv:
  assumes "req_step enc dec x y" "req_inv (snd x)"
  shows "req_inv (snd y) \<and> req_keeps (snd x) (snd y)"
  using assms
proof (cases rule: req_step.cases)
  case (route p rn lose)
  then show ?thesis using assms(2)
    by (auto simp: req_inv_def req_keeps_def route_req_def Let_def failed_def split: prod.splits)
next
  case (execute p rn rn' p')
  then show ?thesis using assms(2)
    by (auto simp: req_inv_def req_keeps_def execute_req_def bind_eq_Some_conv)
next
  case (finish p ok rn lose slow rn' p')
  then show ?thesis using assms(2)
    by (auto simp: req_inv_def req_keeps_def finish_req_def Let_def failed_def split: if_splits option.splits)
qed (use assms(2) in \<open>auto simp: req_inv_def req_keeps_def receive_req_def poll_req_def\<close>)

lemma new_req_inv: "req_inv (new_req req)"
  by (simp add: req_inv_def new_req_def)

text \<open>
  The reference: requests executed one after the other, each by one run of the handler on the server that it was
  routed to, with the reply that its goroutine has.
\<close>

definition exec_one ::
  "('v \<Rightarrow> bytes option) \<Rightarrow> (bytes \<Rightarrow> 'v option) \<Rightarrow> ('e, 'n) ReqProc \<Rightarrow> (nat \<Rightarrow> ('o, 'v) Server) \<Rightarrow> (nat \<Rightarrow> ('o, 'v) Server) option" where
  "exec_one enc dec p heap = do {
     a \<leftarrow> pr_server p;
     (rs, r) \<leftarrow> Server_dispatch enc dec (heap a) (pr_req p);
     if pr_ech p = Some r then Some (heap(a := rs)) else None
   }"

fun exec_all ::
  "('v \<Rightarrow> bytes option) \<Rightarrow> (bytes \<Rightarrow> 'v option) \<Rightarrow> ('e, 'n) ReqProc list \<Rightarrow> (nat \<Rightarrow> ('o, 'v) Server) \<Rightarrow> nat list \<Rightarrow>
     (nat \<Rightarrow> ('o, 'v) Server) option" where
  "exec_all enc dec ps heap [] = Some heap"
| "exec_all enc dec ps heap (i # is) = do { heap \<leftarrow> exec_one enc dec (ps ! i) heap; exec_all enc dec ps heap is }"

definition executed :: "('e, 'n) ReqProc list \<Rightarrow> nat set" where
  "executed ps = {i. i < length ps \<and> pr_ech (ps ! i) \<noteq> None}"

lemma exec_all_append:
  "exec_all enc dec ps heap (is @ js) = do { heap \<leftarrow> exec_all enc dec ps heap is; exec_all enc dec ps heap js }"
  by (induction "is" arbitrary: heap) (auto split: Option.bind_splits)

text \<open>What \<^const>\<open>exec_one\<close> reads of a request.\<close>

definition same_run :: "('e, 'n) ReqProc \<Rightarrow> ('e, 'n) ReqProc \<Rightarrow> bool" where
  "same_run p q \<longleftrightarrow> pr_server p = pr_server q \<and> pr_req p = pr_req q \<and> pr_ech p = pr_ech q"

lemma same_run_refl [simp]: "same_run p p"
  by (simp add: same_run_def)

lemma exec_one_same: "same_run p q \<Longrightarrow> exec_one enc dec p heap = exec_one enc dec q heap"
  by (simp add: exec_one_def same_run_def)

lemma exec_all_cong:
  "(\<And>i. i \<in> set is \<Longrightarrow> same_run (ps ! i) (qs ! i)) \<Longrightarrow> exec_all enc dec ps heap is = exec_all enc dec qs heap is"
proof (induction "is" arbitrary: heap)
  case (Cons i "is")
  then have "exec_one enc dec (ps ! i) heap = exec_one enc dec (qs ! i) heap" by (intro exec_one_same) simp
  with Cons show ?case by simp
qed simp

text \<open>A step is the execution of a request that has not been executed, or leaves servers and what was executed alone.\<close>

lemma req_step_exec:
  assumes "req_step enc dec (rn, p) (rn', p')" "req_inv p"
  obtains (run) r where "pr_ech p = None" "pr_ech p' = Some r" "exec_one enc dec p' (nw_heap rn) = Some (nw_heap rn')"
  | (stay) "pr_ech p' = pr_ech p" "nw_heap rn' = nw_heap rn" "pr_ech p \<noteq> None \<longrightarrow> same_run p' p"
  using assms(1)
proof (cases rule: req_step.cases)
  case (route lose)
  then have "pr_ech p = None" "pr_ech p' = None"
    using assms(2) by (auto simp: req_inv_def route_req_def Let_def split: prod.splits)
  with route show thesis by (intro stay) (auto simp: accept_req_def)
next
  case execute
  then have "pr_ech p = None" using assms(2) by (simp add: req_inv_def)
  moreover from execute obtain r where "pr_ech p' = Some r" "exec_one enc dec p' (nw_heap rn) = Some (nw_heap rn')"
    by (auto simp: execute_req_def exec_one_def bind_eq_Some_conv)
  ultimately show thesis by (rule run)
next
  case (finish ok lose slow)
  then show thesis
    by (intro stay) (auto simp: finish_req_def Let_def same_run_def split: if_splits option.splits)
qed (auto intro!: stay simp: receive_req_def poll_req_def same_run_def)

definition net_inv ::
  "('v \<Rightarrow> bytes option) \<Rightarrow> (bytes \<Rightarrow> 'v option) \<Rightarrow> (nat \<Rightarrow> ('o, 'v) Server) \<Rightarrow> ('e, 'n, 'o, 'v) Network \<times> ('e, 'n) ReqProc list \<Rightarrow> bool" where
  "net_inv enc dec heap s \<longleftrightarrow> (\<forall>p\<in>set (snd s). req_inv p)
     \<and> (\<exists>L. distinct L \<and> set L = executed (snd s) \<and> exec_all enc dec (snd s) heap L = Some (nw_heap (fst s)))"

lemma move_keeps_log:
  assumes i: "i < length ps" and st: "req_step enc dec (rn, ps ! i) (rn', p)" and p: "req_inv (ps ! i)"
    and L: "distinct L" "set L = executed ps" "exec_all enc dec ps heap L = Some (nw_heap rn)"
  shows "\<exists>L. distinct L \<and> set L = executed (ps[i := p]) \<and> exec_all enc dec (ps[i := p]) heap L = Some (nw_heap rn')"
  using st p
proof (cases rule: req_step_exec)
  case (run r)
  then have "i \<notin> set L" by (simp add: L executed_def)
  then have "exec_all enc dec (ps[i := p]) heap L = exec_all enc dec ps heap L"
    by (intro exec_all_cong) (metis nth_list_update_neq same_run_refl)
  with L run i \<open>i \<notin> set L\<close> show ?thesis
    by (intro exI [of _ "L @ [i]"]) (auto simp: exec_all_append executed_def nth_list_update)
next
  case stay
  have "exec_all enc dec (ps[i := p]) heap L = exec_all enc dec ps heap L"
  proof (rule exec_all_cong)
    fix j assume "j \<in> set L"
    then show "same_run (ps[i := p] ! j) (ps ! j)" using stay(3) L(2) i by (cases "j = i") (auto simp: executed_def)
  qed
  moreover have "executed (ps[i := p]) = executed ps" using stay(1) i by (auto simp: executed_def nth_list_update)
  ultimately show ?thesis using L stay(2) by auto
qed

lemma net_step_inv:
  assumes "net_step enc dec s t" "net_inv enc dec heap s"
  shows "net_inv enc dec heap t"
  using assms(1)
proof (cases rule: net_step.cases)
  case (arrive rn ps req)
  from assms(2) obtain L where L: "distinct L" "set L = executed ps" "exec_all enc dec ps heap L = Some (nw_heap rn)"
    by (auto simp: net_inv_def arrive)
  then have "exec_all enc dec (ps @ [new_req req]) heap L = exec_all enc dec ps heap L"
    by (intro exec_all_cong) (auto simp: nth_append executed_def)
  moreover have "executed (ps @ [new_req req]) = executed ps"
    by (auto simp: executed_def nth_append new_req_def split: if_splits)
  ultimately show ?thesis using L assms(2) new_req_inv arrive by (auto simp: net_inv_def)
next
  case (move i ps rn rn' p)
  with assms(2) have "req_inv (ps ! i)" by (auto simp: net_inv_def)
  moreover from this move req_step_inv [of enc dec "(rn, ps ! i)" "(rn', p)"] have "req_inv p" by simp
  ultimately show ?thesis
    using assms(2) move move_keeps_log [OF move(3,4)] set_update_subset_insert [of ps i p] by (fastforce simp: net_inv_def)
next
  case (tester rn' rn ps)
  with assms(2) show ?thesis by (simp add: net_inv_def)
qed

text \<open>What is kept of the requests that were there.\<close>

definition reqs_keep :: "('e, 'n) ReqProc list \<Rightarrow> ('e, 'n) ReqProc list \<Rightarrow> bool" where
  "reqs_keep ps qs \<longleftrightarrow> length ps \<le> length qs \<and> (\<forall>i < length ps. req_keeps (ps ! i) (qs ! i))"

lemma net_step_keeps: "net_step enc dec s t \<Longrightarrow> net_inv enc dec heap s \<Longrightarrow> reqs_keep (snd s) (snd t)"
proof (induction rule: net_step.induct)
  case (move i ps rn rn' p)
  then have "req_keeps (ps ! i) p" using req_step_inv [of enc dec "(rn, ps ! i)" "(rn', p)"] by (auto simp: net_inv_def)
  with move(1) show ?case by (auto simp: reqs_keep_def nth_list_update req_keeps_def)
qed (auto simp: reqs_keep_def nth_append req_keeps_def)

lemma net_reach_inv:
  assumes "reach s (net_step enc dec) t" "net_inv enc dec heap s"
  shows "net_inv enc dec heap t \<and> reqs_keep (snd s) (snd t)"
  using assms
proof (induction rule: reach.induct)
  case reach_init
  then show ?case by (simp add: reqs_keep_def req_keeps_def)
next
  case (reach_step u t)
  then have "reqs_keep (snd s) (snd u)" "reqs_keep (snd u) (snd t)" using net_step_keeps by blast+
  then have "reqs_keep (snd s) (snd t)" by (auto simp: reqs_keep_def req_keeps_def)
  with reach_step net_step_inv show ?case by blast
qed

text \<open>
  \<^bold>\<open>C27\<close>: A request is executed at most once and answered at most once, and a positive answer is the reply of
  that execution. Of all the requests that have come to a network, in any interleaving of their goroutines and
  with any changes of ends, connections and servers, those that have been executed can be listed without
  repetition such that the state of every server is what running the handler once for each of them gives,
  on the server the request was routed to, and that run gives the reply that its goroutine has. A caller that is told true
  has that reply; and what has been executed or answered stays so.
\<close>

theorem rpc_at_most_once:
  assumes "reach (rn, []) (net_step enc dec) (rn1, ps1)" "reach (rn1, ps1) (net_step enc dec) (rn2, ps2)"
  shows "(\<exists>L. distinct L \<and> set L = executed ps1 \<and> exec_all enc dec ps1 (nw_heap rn) L = Some (nw_heap rn1))
    \<and> (\<forall>i < length ps1. \<forall>a. pr_out (ps1 ! i) = Some a \<and> rp_ok a \<longrightarrow> i \<in> executed ps1 \<and> pr_ech (ps1 ! i) = Some a)
    \<and> (\<forall>i < length ps1. (\<forall>r. pr_ech (ps1 ! i) = Some r \<longrightarrow> pr_ech (ps2 ! i) = Some r)
        \<and> (\<forall>a. pr_out (ps1 ! i) = Some a \<longrightarrow> pr_out (ps2 ! i) = Some a))"
proof -
  have "net_inv enc dec (nw_heap rn) (rn, [])" by (simp add: net_inv_def executed_def)
  from net_reach_inv [OF assms(1) this] have inv: "net_inv enc dec (nw_heap rn) (rn1, ps1)" by blast
  from net_reach_inv [OF assms(2) this] have "reqs_keep ps1 ps2" by simp
  with inv show ?thesis by (fastforce simp: net_inv_def reqs_keep_def req_keeps_def req_inv_def executed_def)
qed

text \<open>The network of the witnesses: end 0 connected to server 7, which is the counter server.\<close>

definition counter_net :: "(nat, nat, 8 word, 8 word) Network" where
  "counter_net = Enable (Connect (AddServer (MakeNetwork (\<lambda>_. counter_server)) 7 0) 0 7) 0 True"

text \<open>A request that has been executed, and the network after it.\<close>

definition counter_done :: "(nat, nat, 8 word, 8 word) Network \<times> (nat, nat) ReqProc" where
  "counter_done = the (execute_req one_byte get_byte (accept_req counter_net add_req) (route_req counter_net 0 (new_req add_req)))"

lemma counter_run:
  "reach (counter_net, []) (net_step one_byte get_byte) (fst counter_done, [snd counter_done])"
  "pr_ech (snd counter_done) = Some \<lparr>rp_ok = True, rp_reply = [8]\<rparr>"
proof -
  let ?p = "route_req counter_net 0 (new_req add_req)"
  let ?rn = "accept_req counter_net add_req"
  have r: "?p = (new_req add_req)\<lparr>pr_servername := Some 7, pr_server := Some 0, pr_reliable := True,
      pr_pc := RqWaiting, pr_started := True\<rparr>"
    by (simp add: route_req_def readEndnameInfo_def counter_net_def Enable_def Connect_def AddServer_def
        MakeNetwork_def new_req_def add_req_def)
  have heap: "nw_heap ?rn 0 = counter_server"
    by (simp add: accept_req_def counter_net_def Enable_def Connect_def AddServer_def MakeNetwork_def)
  obtain rs where rs: "Server_dispatch one_byte get_byte counter_server add_req = Some (rs, \<lparr>rp_ok = True, rp_reply = [8]\<rparr>)"
    using counter_dispatch by blast
  have ex: "execute_req one_byte get_byte ?rn ?p = Some (?rn\<lparr>nw_heap := (nw_heap ?rn)(0 := rs)\<rparr>,
      ?p\<lparr>pr_started := False, pr_ech := Some \<lparr>rp_ok = True, rp_reply = [8]\<rparr>\<rparr>)"
    using rs unfolding r by (simp add: execute_req_def heap new_req_def)
  then have ex': "execute_req one_byte get_byte ?rn ?p = Some (fst counter_done, snd counter_done)"
    by (simp add: counter_done_def)
  show "pr_ech (snd counter_done) = Some \<lparr>rp_ok = True, rp_reply = [8]\<rparr>" by (simp add: counter_done_def ex)
  have 1: "net_step one_byte get_byte (counter_net, []) (counter_net, [new_req add_req])"
    using net_step.arrive [of one_byte get_byte counter_net "[]"] by simp
  have "req_step one_byte get_byte (counter_net, new_req add_req) (?rn, ?p)"
    using req_step.route [of "new_req add_req" one_byte get_byte counter_net 0] by (simp add: new_req_def)
  then have 2: "net_step one_byte get_byte (counter_net, [new_req add_req]) (?rn, [?p])"
    using net_step.move [of 0 "[new_req add_req]"] by simp
  have "req_step one_byte get_byte (?rn, ?p) (fst counter_done, snd counter_done)"
    using ex' by (intro req_step.execute) (simp_all add: r)
  then have 3: "net_step one_byte get_byte (?rn, [?p]) (fst counter_done, [snd counter_done])"
    using net_step.move [of 0 "[?p]" one_byte get_byte ?rn "fst counter_done" "snd counter_done"] by simp
  show "reach (counter_net, []) (net_step one_byte get_byte) (fst counter_done, [snd counter_done])"
    by (rule reach.reach_step [where step = "net_step one_byte get_byte", OF reach.reach_step [where step = "net_step one_byte get_byte",
          OF reach.reach_step [where step = "net_step one_byte get_byte", OF reach.reach_init 1] 2] 3])
qed

theorem rpc_at_most_once_witness:
  "reach (counter_net, []) (net_step one_byte get_byte) (fst counter_done, [snd counter_done])
   \<and> exec_one one_byte get_byte (snd counter_done) (nw_heap counter_net) = Some (nw_heap (fst counter_done))"
proof -
  have ex: "executed [snd counter_done] = {0}" using counter_run(2) by (auto simp: executed_def)
  obtain L where L: "distinct L" "set L = {0}"
      "exec_all one_byte get_byte [snd counter_done] (nw_heap counter_net) L = Some (nw_heap (fst counter_done))"
    using conjunct1 [OF rpc_at_most_once [OF counter_run(1) reach_init]] unfolding ex by blast
  have "L = [0]"
  proof (cases L)
    case (Cons i js)
    with L(1,2) have "i = 0" "set js \<subseteq> {0}" "0 \<notin> set js" by auto
    then have "js = []" by (cases js) auto
    with Cons \<open>i = 0\<close> show ?thesis by simp
  qed (use L(2) in simp)
  with L(3) have "exec_one one_byte get_byte (snd counter_done) (nw_heap counter_net) = Some (nw_heap (fst counter_done))"
    by (simp add: bind_eq_Some_conv)
  with counter_run(1) show ?thesis by blast
qed

text \<open>
  On a reliable network a call gets through: when the end is enabled and connected to a server that is
  registered, and stays so, the request is routed to that server, its handler runs, and the caller receives
  the handler's reply, whatever the random numbers are and whether or not replies are reordered.
\<close>

theorem reliable_call_succeeds:
  assumes "nw_reliable rn" "nw_enabled rn (rq_endname req)" "nw_connections rn (rq_endname req) = Some n"
    "nw_servers rn n = Some a" "Server_dispatch enc dec (nw_heap rn a) req = Some (rs, r)"
  shows "\<exists>rn2 p2. execute_req enc dec rn (route_req rn lose (new_req req)) = Some (rn2, p2)
    \<and> nw_heap rn2 = (nw_heap rn)(a := rs)
    \<and> pr_out (snd (finish_req rn2 lose' slow True (receive_req p2))) = Some r"
  using assms
  by (simp add: route_req_def readEndnameInfo_def new_req_def execute_req_def receive_req_def finish_req_def
      req_dead_def isServerDead_def Let_def)

theorem reliable_call_succeeds_witness:
  "\<exists>rn2 p2. execute_req one_byte get_byte counter_net (route_req counter_net 3 (new_req add_req)) = Some (rn2, p2)
     \<and> pr_out (snd (finish_req rn2 4 5 True (receive_req p2))) = Some \<lparr>rp_ok = True, rp_reply = [8]\<rparr>"
proof -
  obtain rs where rs: "Server_dispatch one_byte get_byte (nw_heap counter_net 0) add_req = Some (rs, \<lparr>rp_ok = True, rp_reply = [8]\<rparr>)"
    using counter_dispatch
    by (auto simp: counter_net_def Enable_def Connect_def AddServer_def MakeNetwork_def)
  show ?thesis
    using reliable_call_succeeds [OF _ _ _ _ rs, of 7 3 4 5]
    by (auto simp: counter_net_def Enable_def Connect_def AddServer_def MakeNetwork_def add_req_def)
qed

text \<open>
  A server that has been deleted, replaced or cut off does not answer any more: once the server that a
  request was routed to is no longer the one registered under its name, or the end is disabled, the caller
  is told false, even if the handler has run. This is what makes it safe to replace the persister of a
  server after \<open>DeleteServer\<close>.
\<close>

theorem deleted_server_is_silent:
  assumes "pr_servername p = Some n" "pr_server p = Some a"
  shows "(a' \<noteq> a \<longrightarrow> pr_out (snd (finish_req (AddServer rn n a') lose slow ok p)) = Some failed)
    \<and> pr_out (snd (finish_req (DeleteServer rn n) lose slow ok p)) = Some failed
    \<and> pr_out (snd (finish_req (Enable rn (rq_endname (pr_req p)) False) lose slow ok p)) = Some failed"
  using assms
  by (simp add: finish_req_def req_dead_def isServerDead_def AddServer_def DeleteServer_def Enable_def Let_def)

definition routed_add :: "(nat, nat) ReqProc" where
  "routed_add = receive_req ((route_req counter_net 0 (new_req add_req))\<lparr>pr_ech := Some \<lparr>rp_ok = True, rp_reply = [8]\<rparr>\<rparr>)"

theorem deleted_server_is_silent_witness:
  "pr_ech routed_add = Some \<lparr>rp_ok = True, rp_reply = [8]\<rparr>
   \<and> pr_out (snd (finish_req (DeleteServer counter_net 7) 0 0 True routed_add)) = Some failed"
proof -
  have "pr_servername routed_add = Some 7" "pr_server routed_add = Some 0" "pr_ech routed_add = Some \<lparr>rp_ok = True, rp_reply = [8]\<rparr>"
    by (simp_all add: routed_add_def receive_req_def route_req_def readEndnameInfo_def counter_net_def Enable_def
        Connect_def AddServer_def MakeNetwork_def new_req_def add_req_def)
  then show ?thesis using deleted_server_is_silent [of routed_add 7 0 0 counter_net 0 0 True] by simp
qed

end
