(* ===== verification/KvNet.thy ===== *)
theory KvNet
  imports KvLate Labrpc
begin

text \<open>
  The key/value service put together: the clerks of \<open>src/kvsrv1/client.go\<close>, whose calls are requests in
  the network of \<open>src/labrpc/labrpc.go\<close>, which dispatches them to the server of
  \<open>src/kvsrv1/server.go\<close>, while the tester makes the network unreliable, cuts ends off, takes the server
  out of the network and puts it back. Each request of each clerk is a process of theory \<open>Labrpc\<close>; a
  request that was given up stays in the system and its handler may still run.

  \<open>enc\<close> and \<open>dec\<close> are \<open>labgob\<close>'s encoding of the four structs; what the service relies on is that
  decoding gives back what was encoded (\<open>gob_ok\<close>). The end of clerk \<open>c\<close> is named \<open>c\<close>.

  The theory shows that this system implements the one of \<open>KvLate\<close>; \<open>KvNetLin\<close> draws the conclusions.
\<close>

subsection \<open>The server in the network\<close>

datatype kvval = VGetArgs GetArgs | VGetReply GetReply | VPutArgs PutArgs | VPutReply PutReply

text \<open>
  The methods that \<open>reflect\<close> finds in a \<open>*KVServer\<close>. A request that carries the arguments of another
  method is not made by the clerks.
\<close>

definition Get_method :: "(KVServer, kvval) Method" where
  "Get_method = \<lparr>mt_Name = ''Get'', mt_PkgPath = [], mt_NumIn = 3, mt_In2_Ptr = True, mt_NumOut = 0,
     mt_Func = (\<lambda>v kv. case v of VGetArgs a \<Rightarrow> (kv, VGetReply (KVServer_Get kv a zero_GetReply))
                                | _ \<Rightarrow> (kv, VGetReply zero_GetReply))\<rparr>"

definition Put_method :: "(KVServer, kvval) Method" where
  "Put_method = \<lparr>mt_Name = ''Put'', mt_PkgPath = [], mt_NumIn = 3, mt_In2_Ptr = True, mt_NumOut = 0,
     mt_Func = (\<lambda>v kv. case v of VPutArgs a \<Rightarrow> (let (kv', r) = KVServer_Put kv a zero_PutReply in (kv', VPutReply r))
                                | _ \<Rightarrow> (kv, VPutReply zero_PutReply))\<rparr>"

definition Kill_method :: "(KVServer, kvval) Method" where
  "Kill_method = \<lparr>mt_Name = ''Kill'', mt_PkgPath = [], mt_NumIn = 1, mt_In2_Ptr = False, mt_NumOut = 0,
     mt_Func = (\<lambda>v kv. (kv, v))\<rparr>"

definition StartKVServer :: "KVServer list" where
  "StartKVServer = [MakeKVServer]"

text \<open>The tester's process registers the services of \<open>StartKVServer\<close> one by one with a new server.\<close>

definition kv_process :: "(KVServer, kvval) Server" where
  "kv_process =
     foldl (\<lambda>srv kv. AddService srv (MakeService ''KVServer'' kv [Get_method, Kill_method, Put_method])) MakeServer StartKVServer"

subsection \<open>Clerks and their requests\<close>

text \<open>What a clerk waits for: the request with this number.\<close>

datatype NetPc = NIdle | NGet GetArgs nat | NPut PutArgs bool nat

definition send_req :: "(kvval \<Rightarrow> bytes option) \<Rightarrow> nat \<Rightarrow> string \<Rightarrow> kvval \<Rightarrow> nat reqMsg option" where
  "send_req enc c svcMeth args = do {
     b \<leftarrow> Marshall enc args;
     Some \<lparr>rq_endname = c, rq_svcMeth = svcMeth, rq_args = b\<rparr>
   }"

abbreviation get_call :: "(kvval \<Rightarrow> bytes option) \<Rightarrow> nat \<Rightarrow> GetArgs \<Rightarrow> nat reqMsg option" where
  "get_call enc c a \<equiv> send_req enc c ''KVServer.Get'' (VGetArgs a)"

abbreviation put_call :: "(kvval \<Rightarrow> bytes option) \<Rightarrow> nat \<Rightarrow> PutArgs \<Rightarrow> nat reqMsg option" where
  "put_call enc c a \<equiv> send_req enc c ''KVServer.Put'' (VPutArgs a)"

record KvNet =
  kn_net :: "(nat, string, KVServer, kvval) Network"
  kn_reqs :: "(nat, string) ReqProc list"
  kn_clerks :: "nat \<Rightarrow> NetPc"
  kn_start :: "nat \<Rightarrow> nat"
  kn_now :: nat
  kn_oplog :: "Operation list"
  kn_learned :: bool

definition kn_init :: KvNet where
  "kn_init = \<lparr>kn_net = AddServer (MakeNetwork (\<lambda>_. kv_process)) ''server-0-0'' 0, kn_reqs = [],
     kn_clerks = (\<lambda>_. NIdle), kn_start = (\<lambda>_. 0), kn_now = 0, kn_oplog = [], kn_learned = True\<rparr>"

text \<open>\<open>Call\<close> hands a request to the network; the clerk then waits for it.\<close>

definition issue :: "KvNet \<Rightarrow> nat \<Rightarrow> (nat \<Rightarrow> NetPc) \<Rightarrow> nat reqMsg \<Rightarrow> KvNet" where
  "issue s c pc req =
     s\<lparr>kn_reqs := kn_reqs s @ [new_req req], kn_clerks := (kn_clerks s)(c := pc (length (kn_reqs s))),
       kn_now := Suc (kn_now s)\<rparr>"

definition net_Get :: "(kvval \<Rightarrow> bytes option) \<Rightarrow> KvNet \<Rightarrow> nat \<Rightarrow> string \<Rightarrow> KvNet option" where
  "net_Get enc s c key = do {
     let args = \<lparr>ga_Key = key\<rparr>;
     req \<leftarrow> get_call enc c args;
     Some ((issue s c (NGet args) req)\<lparr>kn_start := (kn_start s)(c := kn_now s)\<rparr>)
   }"

definition net_Put :: "(kvval \<Rightarrow> bytes option) \<Rightarrow> KvNet \<Rightarrow> nat \<Rightarrow> string \<Rightarrow> string \<Rightarrow> Tversion \<Rightarrow> KvNet option" where
  "net_Put enc s c key val version = do {
     let args = \<lparr>pa_Key = key, pa_Value = val, pa_Version = version\<rparr>;
     req \<leftarrow> put_call enc c args;
     Some ((issue s c (NPut args False) req)\<lparr>kn_start := (kn_start s)(c := kn_now s),
             kn_learned := kn_learned s \<and> learned (kn_oplog s) key version\<rparr>)
   }"

definition net_end :: "KvNet \<Rightarrow> nat \<Rightarrow> KvInput \<Rightarrow> ClerkRes \<Rightarrow> KvNet" where
  "net_end s c inp res =
     s\<lparr>kn_clerks := (kn_clerks s)(c := NIdle), kn_now := Suc (kn_now s),
       kn_oplog := kn_oplog s @ [\<lparr>op_ClientId = int c, op_Input = inp, op_Call = kn_start s c,
                                   op_Output = op_output res, op_Return = kn_now s\<rparr>]\<rparr>"

text \<open>
  A call returns when the network has answered its request: with false, or with true and the reply, of
  which the clerk makes its result.
\<close>

definition clerk_answer :: "(bytes \<Rightarrow> kvval option) \<Rightarrow> KvNet \<Rightarrow> nat \<Rightarrow> ClerkRes option option" where
  "clerk_answer dec s c =
     (case kn_clerks s c of
        NIdle \<Rightarrow> None
      | NGet args i \<Rightarrow> do {
          rep \<leftarrow> pr_out (kn_reqs s ! i);
          ok \<leftarrow> Call_result dec rep;
          case ok of
            Some (VGetReply reply) \<Rightarrow> Some (Some (GetRes (gr_Value reply) (gr_Version reply) (gr_Err reply)))
          | Some _ \<Rightarrow> None
          | None \<Rightarrow> Some None
        }
      | NPut args retried i \<Rightarrow> do {
          rep \<leftarrow> pr_out (kn_reqs s ! i);
          ok \<leftarrow> Call_result dec rep;
          case ok of
            Some (VPutReply reply) \<Rightarrow>
              Some (Some (PutRes (if pr_Err reply = ErrVersion \<and> retried then ErrMaybe else pr_Err reply)))
          | Some _ \<Rightarrow> None
          | None \<Rightarrow> Some None
        })"

text \<open>After false the clerk goes round its loop and calls again.\<close>

definition clerk_again :: "(kvval \<Rightarrow> bytes option) \<Rightarrow> KvNet \<Rightarrow> nat \<Rightarrow> KvNet option" where
  "clerk_again enc s c =
     (case kn_clerks s c of
        NIdle \<Rightarrow> None
      | NGet args i \<Rightarrow> do { req \<leftarrow> get_call enc c args; Some (issue s c (NGet args) req) }
      | NPut args retried i \<Rightarrow> do { req \<leftarrow> put_call enc c args; Some (issue s c (NPut args True) req) })"

text \<open>After true it returns to its caller, which records the operation.\<close>

fun clerk_input :: "NetPc \<Rightarrow> KvInput" where
  "clerk_input NIdle = op_input Idle"
| "clerk_input (NGet args i) = op_input (InGet args Sent)"
| "clerk_input (NPut args retried i) = op_input (InPut args retried Sent)"

definition net_return :: "(kvval \<Rightarrow> bytes option) \<Rightarrow> (bytes \<Rightarrow> kvval option) \<Rightarrow> KvNet \<Rightarrow> nat \<Rightarrow> KvNet option" where
  "net_return enc dec s c = do {
     ans \<leftarrow> clerk_answer dec s c;
     case ans of
       Some res \<Rightarrow> Some (net_end s c (clerk_input (kn_clerks s c)) res)
     | None \<Rightarrow> clerk_again enc s c
   }"

subsection \<open>The network and the tester\<close>

datatype req_action = DoRoute nat | DoExecute | DoReceive | DoPoll | DoFinish nat nat

fun req_act ::
  "('v \<Rightarrow> bytes option) \<Rightarrow> (bytes \<Rightarrow> 'v option) \<Rightarrow> ('e, 'n, 'o, 'v) Network \<Rightarrow> ('e, 'n) ReqProc \<Rightarrow> req_action \<Rightarrow>
     (('e, 'n, 'o, 'v) Network \<times> ('e, 'n) ReqProc) option" where
  "req_act enc dec rn p (DoRoute lose) =
     (if pr_pc p = RqArrived then Some (accept_req rn (pr_req p), route_req rn lose p) else None)"
| "req_act enc dec rn p DoExecute = (if pr_started p then execute_req enc dec rn p else None)"
| "req_act enc dec rn p DoReceive =
     (if pr_pc p = RqWaiting \<and> pr_ech p \<noteq> None then Some (rn, receive_req p) else None)"
| "req_act enc dec rn p DoPoll = (if pr_pc p = RqWaiting then Some (rn, poll_req rn p) else None)"
| "req_act enc dec rn p (DoFinish lose slow) =
     (case pr_pc p of RqLeft ok \<Rightarrow> Some (finish_req rn lose slow ok p) | _ \<Rightarrow> None)"

lemma req_act_step: "req_act enc dec rn p a = Some (rn', p') \<Longrightarrow> req_step enc dec (rn, p) (rn', p')"
  by (cases a) (auto split: if_splits ReqPc.splits intro: req_step.intros)

text \<open>What the tester does to the network; the only server object is the one at address 0.\<close>

datatype net_config =
    SetReliable bool | SetLongReordering bool | SetLongDelays bool
  | SetEnabled nat bool | ConnectEnd nat string | RemoveServer string | RestoreServer string

fun configure :: "(nat, string, 'o, 'v) Network \<Rightarrow> net_config \<Rightarrow> (nat, string, 'o, 'v) Network" where
  "configure rn (SetReliable yes) = Reliable rn yes"
| "configure rn (SetLongReordering yes) = LongReordering rn yes"
| "configure rn (SetLongDelays yes) = LongDelays rn yes"
| "configure rn (SetEnabled e yes) = Enable rn e yes"
| "configure rn (ConnectEnd e n) = Connect rn e n"
| "configure rn (RemoveServer n) = DeleteServer rn n"
| "configure rn (RestoreServer n) = AddServer rn n 0"

datatype net_action =
    NCallGet nat string
  | NCallPut nat string string Tversion
  | NReturn nat
  | NReq nat req_action
  | NConfig net_config

fun net_act :: "(kvval \<Rightarrow> bytes option) \<Rightarrow> (bytes \<Rightarrow> kvval option) \<Rightarrow> KvNet \<Rightarrow> net_action \<Rightarrow> KvNet option" where
  "net_act enc dec s (NCallGet c key) = (if kn_clerks s c = NIdle then net_Get enc s c key else None)"
| "net_act enc dec s (NCallPut c key val version) =
     (if kn_clerks s c = NIdle then net_Put enc s c key val version else None)"
| "net_act enc dec s (NReturn c) = net_return enc dec s c"
| "net_act enc dec s (NReq i a) =
     (if i < length (kn_reqs s) then do {
        (rn, p) \<leftarrow> req_act enc dec (kn_net s) (kn_reqs s ! i) a;
        Some (s\<lparr>kn_net := rn, kn_reqs := (kn_reqs s)[i := p], kn_now := Suc (kn_now s)\<rparr>)
      } else None)"
| "net_act enc dec s (NConfig g) = Some (s\<lparr>kn_net := configure (kn_net s) g, kn_now := Suc (kn_now s)\<rparr>)"

definition kn_step :: "(kvval \<Rightarrow> bytes option) \<Rightarrow> (bytes \<Rightarrow> kvval option) \<Rightarrow> KvNet \<Rightarrow> KvNet \<Rightarrow> bool" where
  "kn_step enc dec s t \<longleftrightarrow> (\<exists>a. net_act enc dec s a = Some t)"

abbreviation kn_reach :: "(kvval \<Rightarrow> bytes option) \<Rightarrow> (bytes \<Rightarrow> kvval option) \<Rightarrow> KvNet \<Rightarrow> bool" where
  "kn_reach enc dec \<equiv> reach kn_init (kn_step enc dec)"

text \<open>What the service relies on of \<open>labgob\<close>.\<close>

definition gob_ok :: "('v \<Rightarrow> bytes option) \<Rightarrow> (bytes \<Rightarrow> 'v option) \<Rightarrow> bool" where
  "gob_ok enc dec \<longleftrightarrow> (\<forall>v. \<exists>b. enc v = Some b \<and> dec b = Some v)"

subsection \<open>The server answers as its handlers say\<close>

text \<open>The server in the network, with this state and this many requests served.\<close>

definition kv_at :: "KVServer \<Rightarrow> int \<Rightarrow> (KVServer, kvval) Server" where
  "kv_at kv n = \<lparr>sv_services = [''KVServer'' \<mapsto> \<lparr>svc_name = ''KVServer'', svc_rcvr = kv,
     svc_methods = [''Get'' \<mapsto> Get_method, ''Put'' \<mapsto> Put_method]\<rparr>], sv_count = n, sv_dispatchf = None\<rparr>"

lemma kv_process_at: "kv_process = kv_at MakeKVServer 0"
  by (simp add: kv_process_def StartKVServer_def kv_at_def AddService_def MakeServer_def MakeService_def handler_like_def
      Get_method_def Put_method_def Kill_method_def)

lemma gob_okD:
  assumes "gob_ok enc dec"
  obtains b where "enc v = Some b" "dec b = Some v"
  using assms unfolding gob_ok_def by blast

lemma gob_enc_dec: "gob_ok enc dec \<Longrightarrow> enc v = Some b \<Longrightarrow> dec b = Some v"
  by (metis gob_okD option.inject)

lemma send_req_eq: "send_req enc c m v = Some req \<longleftrightarrow> (\<exists>b. enc v = Some b \<and> req = \<lparr>rq_endname = c, rq_svcMeth = m, rq_args = b\<rparr>)"
  by (auto simp: send_req_def Marshall_def bind_eq_Some_conv)

lemma send_req_inj:
  assumes "gob_ok enc dec" "send_req enc c m v = Some req" "send_req enc c' m' v' = Some req"
  shows "c' = c \<and> m' = m \<and> v' = v"
  using assms gob_enc_dec [OF assms(1)] by (auto simp: send_req_eq) (metis option.inject)

lemma dispatch_get:
  assumes "gob_ok enc dec" "get_call enc c a = Some req"
  shows "\<exists>b. dec b = Some (VGetReply (KVServer_Get kv a zero_GetReply)) \<and>
    Server_dispatch enc dec (kv_at kv n) req = Some (kv_at kv (n + 1), \<lparr>rp_ok = True, rp_reply = b\<rparr>)"
proof -
  obtain b where b: "enc (VGetReply (KVServer_Get kv a zero_GetReply)) = Some b"
      "dec b = Some (VGetReply (KVServer_Get kv a zero_GetReply))"
    using gob_okD [OF assms(1)] .
  from assms have "dec (rq_args req) = Some (VGetArgs a)" "rq_svcMeth req = ''KVServer'' @ CHR ''.'' # ''Get''"
    by (auto simp: send_req_eq gob_enc_dec)
  from server_dispatch_method [where rs = "kv_at kv n" and enc = enc and dec = dec and req = req and sname = "''KVServer''" and mname = "''Get''", OF this(2) _ _ _ _ this(1) _ b(1)] b(2) show ?thesis
    by (simp add: kv_at_def Get_method_def)
qed

lemma dispatch_put:
  fixes kv :: KVServer
  assumes "gob_ok enc dec" "put_call enc c a = Some req"
  defines "res \<equiv> KVServer_Put kv a zero_PutReply"
  shows "\<exists>b. dec b = Some (VPutReply (snd res)) \<and>
    Server_dispatch enc dec (kv_at kv n) req = Some (kv_at (fst res) (n + 1), \<lparr>rp_ok = True, rp_reply = b\<rparr>)"
proof -
  obtain b where b: "enc (VPutReply (snd res)) = Some b" "dec b = Some (VPutReply (snd res))"
    using gob_okD [OF assms(1)] .
  from assms have "dec (rq_args req) = Some (VPutArgs a)" "rq_svcMeth req = ''KVServer'' @ CHR ''.'' # ''Put''"
    by (auto simp: send_req_eq gob_enc_dec)
  from server_dispatch_method [where rs = "kv_at kv n" and enc = enc and dec = dec and req = req and sname = "''KVServer''" and mname = "''Put''", OF this(2) _ _ _ _ this(1) _ b(1)] b(2) show ?thesis
    by (simp add: kv_at_def Put_method_def case_prod_beta res_def)
qed

subsection \<open>The state of a run as the clerks see it\<close>

definition get_answer :: "(bytes \<Rightarrow> kvval option) \<Rightarrow> replyMsg \<Rightarrow> GetReply" where
  "get_answer dec r = (case dec (rp_reply r) of Some (VGetReply x) \<Rightarrow> x | _ \<Rightarrow> zero_GetReply)"

definition put_answer :: "(bytes \<Rightarrow> kvval option) \<Rightarrow> replyMsg \<Rightarrow> PutReply" where
  "put_answer dec r = (case dec (rp_reply r) of Some (VPutReply x) \<Rightarrow> x | _ \<Rightarrow> zero_PutReply)"

definition call_of :: "(replyMsg \<Rightarrow> 'r) \<Rightarrow> ('e, 'n) ReqProc \<Rightarrow> 'r call" where
  "call_of f p = (case pr_ech p of None \<Rightarrow> Sent | Some r \<Rightarrow> Handled (f r))"

fun abs_pc :: "(bytes \<Rightarrow> kvval option) \<Rightarrow> (nat, string) ReqProc list \<Rightarrow> NetPc \<Rightarrow> ClerkPc" where
  "abs_pc dec ps NIdle = Idle"
| "abs_pc dec ps (NGet a i) = InGet a (call_of (get_answer dec) (ps ! i))"
| "abs_pc dec ps (NPut a rt i) = InPut a rt (call_of (put_answer dec) (ps ! i))"

definition kv_of :: "(nat, string, KVServer, kvval) Network \<Rightarrow> KVServer" where
  "kv_of rn = svc_rcvr (the (sv_services (nw_heap rn 0) ''KVServer''))"

definition abs_sys :: "(bytes \<Rightarrow> kvval option) \<Rightarrow> KvNet \<Rightarrow> KvSys" where
  "abs_sys dec s = \<lparr>srv = kv_of (kn_net s), pcs = (\<lambda>c. abs_pc dec (kn_reqs s) (kn_clerks s c)),
     start = kn_start s, now = kn_now s, oplog = kn_oplog s\<rparr>"

subsection \<open>The invariant of the requests\<close>

definition net_ok :: "(nat, string, KVServer, kvval) Network \<Rightarrow> bool" where
  "net_ok rn \<longleftrightarrow> (\<exists>kv n. nw_heap rn 0 = kv_at kv n) \<and> (\<forall>n a. nw_servers rn n = Some a \<longrightarrow> a = 0)"

text \<open>A request is a well-formed \<open>Get\<close> or \<open>Put\<close>, and what its handler returned is a reply of its type.\<close>

definition typed_req :: "(kvval \<Rightarrow> bytes option) \<Rightarrow> (bytes \<Rightarrow> kvval option) \<Rightarrow> (nat, string) ReqProc \<Rightarrow> bool" where
  "typed_req enc dec p \<longleftrightarrow>
     (\<exists>c a. get_call enc c a = Some (pr_req p) \<and>
        (\<forall>r. pr_ech p = Some r \<longrightarrow> rp_ok r \<and> (\<exists>x. dec (rp_reply r) = Some (VGetReply x)))) \<or>
     (\<exists>c a. put_call enc c a = Some (pr_req p) \<and>
        (\<forall>r. pr_ech p = Some r \<longrightarrow> rp_ok r \<and> (\<exists>x. dec (rp_reply r) = Some (VPutReply x))))"

definition proc_ok :: "(kvval \<Rightarrow> bytes option) \<Rightarrow> (bytes \<Rightarrow> kvval option) \<Rightarrow> (nat, string) ReqProc \<Rightarrow> bool" where
  "proc_ok enc dec p \<longleftrightarrow> req_inv p \<and> (\<forall>a. pr_server p = Some a \<longrightarrow> a = 0) \<and> typed_req enc dec p"

fun clerk_ok :: "(kvval \<Rightarrow> bytes option) \<Rightarrow> (nat, string) ReqProc list \<Rightarrow> nat \<Rightarrow> NetPc \<Rightarrow> bool" where
  "clerk_ok enc ps c NIdle \<longleftrightarrow> True"
| "clerk_ok enc ps c (NGet a i) \<longleftrightarrow> i < length ps \<and> get_call enc c a = Some (pr_req (ps ! i))"
| "clerk_ok enc ps c (NPut a rt i) \<longleftrightarrow> i < length ps \<and> put_call enc c a = Some (pr_req (ps ! i))"

definition kn_inv :: "(kvval \<Rightarrow> bytes option) \<Rightarrow> (bytes \<Rightarrow> kvval option) \<Rightarrow> KvNet \<Rightarrow> bool" where
  "kn_inv enc dec s \<longleftrightarrow>
     net_ok (kn_net s) \<and> (\<forall>p\<in>set (kn_reqs s). proc_ok enc dec p) \<and>
     (\<forall>c. clerk_ok enc (kn_reqs s) c (kn_clerks s c))"

text \<open>A \<open>Put\<close> whose handler may still run is the one its clerk waits for, or was given up.\<close>

definition may_run :: "('e, 'n) ReqProc \<Rightarrow> bool" where
  "may_run p \<longleftrightarrow> (pr_started p \<or> pr_pc p = RqArrived) \<and> pr_ech p = None"

definition late_rel :: "(kvval \<Rightarrow> bytes option) \<Rightarrow> (nat, string) ReqProc list \<Rightarrow> (nat \<Rightarrow> NetPc) \<Rightarrow> PutArgs set \<Rightarrow> bool" where
  "late_rel enc ps pc B \<longleftrightarrow>
     (\<forall>i<length ps. \<forall>c a. may_run (ps ! i) \<and> put_call enc c a = Some (pr_req (ps ! i)) \<longrightarrow>
        (\<exists>rt. pc c = NPut a rt i) \<or> a \<in> B)"

definition kn_rel :: "(kvval \<Rightarrow> bytes option) \<Rightarrow> (bytes \<Rightarrow> kvval option) \<Rightarrow> KvNet \<Rightarrow> KvLate \<Rightarrow> bool" where
  "kn_rel enc dec s a \<longleftrightarrow>
     kl_sys a = abs_sys dec s \<and> kl_learned a = kn_learned s \<and>
     late_rel enc (kn_reqs s) (kn_clerks s) (kl_late a)"

lemma kn_invD:
  assumes "kn_inv enc dec s"
  shows "net_ok (kn_net s)" "p \<in> set (kn_reqs s) \<Longrightarrow> proc_ok enc dec p" "clerk_ok enc (kn_reqs s) c (kn_clerks s c)"
  using assms unfolding kn_inv_def by blast+

lemma kn_inv_init: "kn_inv enc dec kn_init"
  by (auto simp: kn_inv_def net_ok_def kn_init_def AddServer_def MakeNetwork_def kv_process_at)

lemma kn_rel_init: "kn_rel enc dec kn_init kl_init"
  by (auto simp: kn_rel_def kl_init_def kv_init_def abs_sys_def kn_init_def late_rel_def kv_of_def AddServer_def
      MakeNetwork_def kv_process_at kv_at_def)

subsection \<open>The invariant is kept\<close>

lemma net_ok_cong: "net_ok rn \<Longrightarrow> nw_heap rn' = nw_heap rn \<Longrightarrow> nw_servers rn' = nw_servers rn \<Longrightarrow> net_ok rn'"
  by (simp add: net_ok_def)

lemma configure_ok: "net_ok rn \<Longrightarrow> net_ok (configure rn g) \<and> kv_of (configure rn g) = kv_of rn"
  by (cases g) (auto simp: net_ok_def kv_of_def Reliable_def LongReordering_def LongDelays_def Enable_def Connect_def
      DeleteServer_def AddServer_def)

text \<open>Every step of a request but the run of its handler leaves the server and the reply alone.\<close>

lemma net_quiet:
  assumes "req_act enc dec rn p act = Some (rn', p')" "act \<noteq> DoExecute"
  shows "nw_heap rn' = nw_heap rn" "nw_servers rn' = nw_servers rn" "pr_ech p' = pr_ech p" "pr_req p' = pr_req p"
    "may_run p' \<Longrightarrow> may_run p"
    "pr_server p' = Some a \<Longrightarrow> pr_server p = Some a \<or> (\<exists>n. nw_servers rn n = Some a)"
  using assms
  by (cases act; auto simp: accept_req_def route_req_def readEndnameInfo_def receive_req_def poll_req_def finish_req_def
      may_run_def Let_def split: if_splits ReqPc.splits option.splits)+

text \<open>The run of a handler is the run of \<open>KVServer.Get\<close> or \<open>KVServer.Put\<close> on the server's state.\<close>

lemma execute_kinds:
  assumes g: "gob_ok enc dec" and n: "net_ok rn" and p: "proc_ok enc dec p"
    and ex: "req_act enc dec rn p DoExecute = Some (rn', p')"
  obtains
    (get) c a r where "get_call enc c a = Some (pr_req p)" "pr_ech p = None" "pr_started p" "p' = p\<lparr>pr_started := False, pr_ech := Some r\<rparr>"
      "net_ok rn'" "kv_of rn' = kv_of rn" "rp_ok r" "dec (rp_reply r) = Some (VGetReply (KVServer_Get (kv_of rn) a zero_GetReply))"
  | (put) c a r where "put_call enc c a = Some (pr_req p)" "pr_ech p = None" "pr_started p" "p' = p\<lparr>pr_started := False, pr_ech := Some r\<rparr>"
      "net_ok rn'" "kv_of rn' = fst (KVServer_Put (kv_of rn) a zero_PutReply)" "rp_ok r"
      "dec (rp_reply r) = Some (VPutReply (snd (KVServer_Put (kv_of rn) a zero_PutReply)))"
proof -
  obtain kv m where at: "nw_heap rn 0 = kv_at kv m" using n by (auto simp: net_ok_def)
  then have kv: "kv_of rn = kv" by (simp add: kv_of_def kv_at_def)
  from ex p obtain rs r where st: "pr_started p" "pr_ech p = None"
    and d: "Server_dispatch enc dec (kv_at kv m) (pr_req p) = Some (rs, r)"
    and rn': "rn' = rn\<lparr>nw_heap := (nw_heap rn)(0 := rs)\<rparr>" and p': "p' = p\<lparr>pr_started := False, pr_ech := Some r\<rparr>"
    by (auto simp: execute_req_def bind_eq_Some_conv proc_ok_def req_inv_def at split: if_splits)
  have ok: "net_ok rn'" if "rs = kv_at kv' k" for kv' k
    using n that by (auto simp: net_ok_def rn')
  have of: "kv_of rn' = kv'" if "rs = kv_at kv' k" for kv' k
    using that by (simp add: kv_of_def rn' kv_at_def)
  from p consider (g) c a where "get_call enc c a = Some (pr_req p)" | (p) c a where "put_call enc c a = Some (pr_req p)"
    unfolding proc_ok_def typed_req_def by blast
  then show thesis
  proof cases
    case (g c a)
    with dispatch_get [OF \<open>gob_ok enc dec\<close> g, of kv m] d have "rs = kv_at kv (m + 1)" "rp_ok r"
      "dec (rp_reply r) = Some (VGetReply (KVServer_Get kv a zero_GetReply))" by auto
    then show thesis using get [OF g st(2,1) p'] ok of kv by blast
  next
    case (p c a)
    with dispatch_put [OF \<open>gob_ok enc dec\<close> p, of kv m] d
    have "rs = kv_at (fst (KVServer_Put kv a zero_PutReply)) (m + 1)" "rp_ok r"
      "dec (rp_reply r) = Some (VPutReply (snd (KVServer_Put kv a zero_PutReply)))" by auto
    then show thesis using put [OF p st(2,1) p'] ok of kv by blast
  qed
qed

lemma clerk_ok_upd: "clerk_ok enc ps c pc \<Longrightarrow> i < length ps \<Longrightarrow> pr_req p = pr_req (ps ! i) \<Longrightarrow> clerk_ok enc (ps[i := p]) c pc"
  by (cases pc) (auto simp: nth_list_update)

lemma clerk_ok_append: "clerk_ok enc ps c pc \<Longrightarrow> clerk_ok enc (ps @ qs) c pc"
  by (cases pc) (auto simp: nth_append)

lemma proc_ok_new:
  "get_call enc c a = Some req \<or> put_call enc c b = Some req \<Longrightarrow> proc_ok enc dec (new_req req)"
  using new_req_inv [of req] by (auto simp: proc_ok_def typed_req_def new_req_def)

lemma kn_inv_issue:
  assumes inv: "kn_inv enc dec s" and req: "get_call enc c a = Some req \<or> put_call enc c b = Some req"
    and pc: "clerk_ok enc (kn_reqs s @ [new_req req]) c (pc (length (kn_reqs s)))"
  shows "kn_inv enc dec (issue s c pc req)"
proof -
  note I = kn_invD [OF inv]
  have "\<forall>p\<in>set (kn_reqs s @ [new_req req]). proc_ok enc dec p"
    using I(2) proc_ok_new [OF req] by auto
  moreover have "clerk_ok enc (kn_reqs s @ [new_req req]) d (kn_clerks s d)" for d
    by (rule clerk_ok_append [OF I(3)])
  ultimately show ?thesis using I(1) pc by (simp add: kn_inv_def issue_def)
qed

lemma kn_inv_req:
  assumes g: "gob_ok enc dec" and inv: "kn_inv enc dec s" and i: "i < length (kn_reqs s)"
    and act: "req_act enc dec (kn_net s) (kn_reqs s ! i) act = Some (rn', p')"
  shows "net_ok rn' \<and> proc_ok enc dec p' \<and> pr_req p' = pr_req (kn_reqs s ! i)"
proof -
  note I = kn_invD [OF inv]
  have p: "proc_ok enc dec (kn_reqs s ! i)" using I(2) i by simp
  have ri: "req_inv p'" using req_step_inv [OF req_act_step [OF act]] p by (simp add: proc_ok_def)
  show ?thesis
  proof (cases "act = DoExecute")
    case True
    from act have "req_act enc dec (kn_net s) (kn_reqs s ! i) DoExecute = Some (rn', p')" by (simp only: True)
    from execute_kinds [OF g I(1) p this] show ?thesis
      using p ri by cases (auto simp: proc_ok_def typed_req_def)
  next
    case False
    note Q = net_quiet [OF act False]
    have "typed_req enc dec p'" using p by (simp add: proc_ok_def typed_req_def Q(3,4))
    moreover have "a = 0" if "pr_server p' = Some a" for a
      using Q(6) [OF that] p I(1) by (auto simp: proc_ok_def net_ok_def)
    ultimately show ?thesis using net_ok_cong [OF I(1) Q(1,2)] ri Q(4) by (simp add: proc_ok_def)
  qed
qed

text \<open>The four ways in which a call ends.\<close>

lemma Call_result_iff:
  "Call_result dec rep = Some (Some v) \<longleftrightarrow> rp_ok rep \<and> dec (rp_reply rep) = Some v"
  "Call_result dec rep = Some None \<longleftrightarrow> \<not> rp_ok rep"
  by (auto simp: Call_result_def Unmarshall_def)

lemma clerk_answer_cases:
  assumes "clerk_answer dec s c = Some ans"
  obtains
    (got) a i rep reply where "kn_clerks s c = NGet a i" "pr_out (kn_reqs s ! i) = Some rep" "rp_ok rep"
      "dec (rp_reply rep) = Some (VGetReply reply)" "ans = Some (GetRes (gr_Value reply) (gr_Version reply) (gr_Err reply))"
  | (put) a rt i rep reply where "kn_clerks s c = NPut a rt i" "pr_out (kn_reqs s ! i) = Some rep" "rp_ok rep"
      "dec (rp_reply rep) = Some (VPutReply reply)"
      "ans = Some (PutRes (if pr_Err reply = ErrVersion \<and> rt then ErrMaybe else pr_Err reply))"
  | (failed) rep where "ans = None" "kn_clerks s c \<noteq> NIdle" "\<not> rp_ok rep"
      "\<And>a i. kn_clerks s c = NGet a i \<Longrightarrow> pr_out (kn_reqs s ! i) = Some rep"
      "\<And>a rt i. kn_clerks s c = NPut a rt i \<Longrightarrow> pr_out (kn_reqs s ! i) = Some rep"
proof (cases "kn_clerks s c")
  case NIdle
  with assms show thesis by (simp add: clerk_answer_def)
next
  case (NGet a i)
  with assms obtain rep ok where rep: "pr_out (kn_reqs s ! i) = Some rep" and ok: "Call_result dec rep = Some ok"
    by (auto simp: clerk_answer_def bind_eq_Some_conv)
  show thesis
  proof (cases ok)
    case None
    with assms NGet rep ok failed show thesis by (auto simp: clerk_answer_def Call_result_iff)
  next
    case (Some v)
    with assms NGet rep ok obtain reply where "v = VGetReply reply"
      "ans = Some (GetRes (gr_Value reply) (gr_Version reply) (gr_Err reply))"
      by (cases v) (auto simp: clerk_answer_def)
    with ok Some got [OF NGet rep] show thesis by (simp add: Call_result_iff)
  qed
next
  case (NPut a rt i)
  with assms obtain rep ok where rep: "pr_out (kn_reqs s ! i) = Some rep" and ok: "Call_result dec rep = Some ok"
    by (auto simp: clerk_answer_def bind_eq_Some_conv)
  show thesis
  proof (cases ok)
    case None
    with assms NPut rep ok failed show thesis by (auto simp: clerk_answer_def Call_result_iff)
  next
    case (Some v)
    with assms NPut rep ok obtain reply where "v = VPutReply reply"
      "ans = Some (PutRes (if pr_Err reply = ErrVersion \<and> rt then ErrMaybe else pr_Err reply))"
      by (cases v) (auto simp: clerk_answer_def)
    with ok Some put [OF NPut rep] show thesis by (simp add: Call_result_iff)
  qed
qed

lemma clerk_again_cases:
  assumes "clerk_again enc s c = Some t"
  obtains
    (got) a i req where "kn_clerks s c = NGet a i" "get_call enc c a = Some req" "t = issue s c (NGet a) req"
  | (put) a rt i req where "kn_clerks s c = NPut a rt i" "put_call enc c a = Some req" "t = issue s c (NPut a True) req"
  using assms by (cases "kn_clerks s c") (auto simp: clerk_again_def bind_eq_Some_conv)

lemma net_return_cases:
  assumes "net_return enc dec s c = Some t"
  obtains
    (ended) res where "clerk_answer dec s c = Some (Some res)" "t = net_end s c (clerk_input (kn_clerks s c)) res"
  | (again) "clerk_answer dec s c = Some None" "clerk_again enc s c = Some t"
proof -
  from assms obtain ans where ans: "clerk_answer dec s c = Some ans"
    and t: "(case ans of Some res \<Rightarrow> Some (net_end s c (clerk_input (kn_clerks s c)) res) | None \<Rightarrow> clerk_again enc s c) = Some t"
    by (auto simp: net_return_def bind_eq_Some_conv)
  then show thesis by (cases ans) (simp_all add: ended again)
qed

lemma kn_inv_again: "kn_inv enc dec s \<Longrightarrow> clerk_again enc s c = Some t \<Longrightarrow> kn_inv enc dec t"
proof (elim clerk_again_cases)
  fix a i req
  assume "kn_inv enc dec s" "get_call enc c a = Some req" "t = issue s c (NGet a) req"
  then show ?thesis using kn_inv_issue [OF _ disjI1, of enc dec s c a req "NGet a"] by (simp add: new_req_def)
next
  fix a rt i req
  assume "kn_inv enc dec s" "put_call enc c a = Some req" "t = issue s c (NPut a True) req"
  then show ?thesis using kn_inv_issue [OF _ disjI2, of enc dec s c a req "NPut a True"] by (simp add: new_req_def)
qed

lemma kn_inv_end: "kn_inv enc dec s \<Longrightarrow> kn_inv enc dec (net_end s c inp res)"
  by (simp add: kn_inv_def net_end_def)

lemma kn_inv_step:
  assumes g: "gob_ok enc dec" and inv: "kn_inv enc dec s" and st: "kn_step enc dec s t"
  shows "kn_inv enc dec t"
proof -
  note I = kn_invD [OF inv]
  from st obtain act where act: "net_act enc dec s act = Some t" by (auto simp: kn_step_def)
  show ?thesis
  proof (cases act)
    case (NCallGet c key)
    with act obtain req where r: "get_call enc c \<lparr>ga_Key = key\<rparr> = Some req"
      and t: "t = (issue s c (NGet \<lparr>ga_Key = key\<rparr>) req)\<lparr>kn_start := (kn_start s)(c := kn_now s)\<rparr>"
      by (auto simp: net_Get_def Let_def bind_eq_Some_conv split: if_splits)
    have "kn_inv enc dec (issue s c (NGet \<lparr>ga_Key = key\<rparr>) req)"
      by (rule kn_inv_issue [OF inv disjI1 [OF r]]) (simp add: r new_req_def)
    then show ?thesis by (simp add: t kn_inv_def)
  next
    case (NCallPut c key val version)
    let ?a = "\<lparr>pa_Key = key, pa_Value = val, pa_Version = version\<rparr>"
    from NCallPut act obtain req where r: "put_call enc c ?a = Some req"
      and t: "t = (issue s c (NPut ?a False) req)\<lparr>kn_start := (kn_start s)(c := kn_now s),
             kn_learned := kn_learned s \<and> learned (kn_oplog s) key version\<rparr>"
      by (auto simp: net_Put_def Let_def bind_eq_Some_conv split: if_splits)
    have "kn_inv enc dec (issue s c (NPut ?a False) req)"
      by (rule kn_inv_issue [OF inv disjI2 [OF r]]) (simp add: r new_req_def)
    then show ?thesis by (simp add: t kn_inv_def)
  next
    case (NReturn c)
    from NReturn act have "net_return enc dec s c = Some t" by simp
    then show ?thesis by (cases rule: net_return_cases) (simp_all add: kn_inv_end [OF inv] kn_inv_again [OF inv])
  next
    case (NReq i a)
    with act obtain rn' p' where i: "i < length (kn_reqs s)"
      and a: "req_act enc dec (kn_net s) (kn_reqs s ! i) a = Some (rn', p')"
      and t: "t = s\<lparr>kn_net := rn', kn_reqs := (kn_reqs s)[i := p'], kn_now := Suc (kn_now s)\<rparr>"
      by (auto simp: bind_eq_Some_conv split: if_splits)
    from kn_inv_req [OF g inv i a] I show ?thesis
      by (auto simp: t kn_inv_def i clerk_ok_upd dest: set_update_subset_insert [THEN subsetD])
  next
    case (NConfig cf)
    with act inv configure_ok [of "kn_net s" cf] show ?thesis by (auto simp: kn_inv_def)
  qed
qed

subsection \<open>The system implements the abstract one\<close>

lemma call_of_new [simp]: "call_of f (new_req req) = Sent"
  by (simp add: call_of_def new_req_def)

lemma abs_pc_append: "clerk_ok enc ps c pc \<Longrightarrow> abs_pc dec (ps @ qs) pc = abs_pc dec ps pc"
  by (cases pc) (auto simp: nth_append)

lemma abs_pc_same: "i < length ps \<Longrightarrow> pr_ech p = pr_ech (ps ! i) \<Longrightarrow> abs_pc dec (ps[i := p]) pc = abs_pc dec ps pc"
  by (cases pc) (auto simp: nth_list_update call_of_def)

lemma abs_pc_other:
  "\<forall>a rt. pc \<noteq> NPut a rt i \<Longrightarrow> \<forall>a. pc \<noteq> NGet a i \<Longrightarrow> abs_pc dec (ps[i := p]) pc = abs_pc dec ps pc"
  by (cases pc) (auto simp: nth_list_update_neq)

lemma abs_issue:
  assumes "kn_inv enc dec s"
  shows "abs_sys dec (issue s c pc req) =
    put_pc (abs_sys dec s) c (abs_pc dec (kn_reqs s @ [new_req req]) (pc (length (kn_reqs s))))"
proof -
  have "abs_pc dec (kn_reqs s @ [new_req req]) (kn_clerks s d) = abs_pc dec (kn_reqs s) (kn_clerks s d)" for d
    by (rule abs_pc_append [OF kn_invD(3) [OF assms]])
  then show ?thesis by (auto simp: abs_sys_def issue_def put_pc_def)
qed

lemma late_rel_issue:
  assumes "late_rel enc ps pc B" "B \<subseteq> B'"
    and "\<And>a rt i. pc c = NPut a rt i \<Longrightarrow> may_run (ps ! i) \<Longrightarrow> a \<in> B'"
    and "\<And>d a. put_call enc d a = Some req \<Longrightarrow> d = c \<and> (\<exists>rt. pc' = NPut a rt (length ps))"
  shows "late_rel enc (ps @ [new_req req]) (pc(c := pc')) B'"
  unfolding late_rel_def
proof (intro allI impI)
  fix i d a
  assume i: "i < length (ps @ [new_req req])"
    and m: "may_run ((ps @ [new_req req]) ! i) \<and> put_call enc d a = Some (pr_req ((ps @ [new_req req]) ! i))"
  show "(\<exists>rt. (pc(c := pc')) d = NPut a rt i) \<or> a \<in> B'"
  proof (cases "i = length ps")
    case True
    with m assms(4) [of d a] show ?thesis by (auto simp: new_req_def)
  next
    case False
    with i m have "i < length ps" "may_run (ps ! i)" "put_call enc d a = Some (pr_req (ps ! i))"
      by (auto simp: nth_append)
    with assms(1-3) show ?thesis unfolding late_rel_def by (cases "d = c") (auto, blast+)
  qed
qed

lemma late_rel_upd:
  assumes "late_rel enc ps pc B" "i < length ps" "pr_req p = pr_req (ps ! i)" "may_run p \<Longrightarrow> may_run (ps ! i)"
  shows "late_rel enc (ps[i := p]) pc B"
  using assms unfolding late_rel_def by (auto simp: nth_list_update)

lemma late_rel_idle:
  assumes "late_rel enc ps pc B" "\<And>a rt i. pc c = NPut a rt i \<Longrightarrow> \<not> may_run (ps ! i)"
  shows "late_rel enc ps (pc(c := NIdle)) B"
  using assms unfolding late_rel_def by (metis fun_upd_apply)

lemma abs_sys_simps [simp]:
  "srv (abs_sys dec s) = kv_of (kn_net s)" "pcs (abs_sys dec s) c = abs_pc dec (kn_reqs s) (kn_clerks s c)"
  "start (abs_sys dec s) = kn_start s" "now (abs_sys dec s) = kn_now s" "oplog (abs_sys dec s) = kn_oplog s"
  "abs_sys dec (s\<lparr>kn_start := f\<rparr>) = (abs_sys dec s)\<lparr>start := f\<rparr>"
  "abs_sys dec (s\<lparr>kn_learned := b\<rparr>) = abs_sys dec s"
  by (simp_all add: abs_sys_def)

lemma begin_put_pc: "begin_op s c pc = (put_pc s c pc)\<lparr>start := (start s)(c := now s)\<rparr>"
  by (simp add: begin_op_def put_pc_def)

lemma issue_simps [simp]:
  "kn_reqs (issue s c pc req) = kn_reqs s @ [new_req req]"
  "kn_clerks (issue s c pc req) = (kn_clerks s)(c := pc (length (kn_reqs s)))"
  "kn_learned (issue s c pc req) = kn_learned s"
  by (simp_all add: issue_def)

lemma put_call_get: "get_call enc c a = Some req \<Longrightarrow> put_call enc d b \<noteq> Some req"
  by (auto simp: send_req_eq)

lemma put_call_inj:
  assumes "gob_ok enc dec" "put_call enc c a = Some req" "put_call enc d b = Some req"
  shows "d = c \<and> b = a"
  using send_req_inj [OF assms] by simp

lemma net_Get_rel:
  assumes inv: "kn_inv enc dec s" and rel: "kn_rel enc dec s A" and idle: "kn_clerks s c = NIdle"
    and act: "net_Get enc s c key = Some t"
  shows "kn_rel enc dec t (A\<lparr>kl_sys := begin_op (kl_sys A) c (Clerk_Get key)\<rparr>)"
proof -
  from act obtain req where r: "get_call enc c \<lparr>ga_Key = key\<rparr> = Some req"
    and t: "t = (issue s c (NGet \<lparr>ga_Key = key\<rparr>) req)\<lparr>kn_start := (kn_start s)(c := kn_now s)\<rparr>"
    by (auto simp: net_Get_def Let_def bind_eq_Some_conv)
  from rel have A: "kl_sys A = abs_sys dec s" "kl_learned A = kn_learned s"
    and late: "late_rel enc (kn_reqs s) (kn_clerks s) (kl_late A)" by (auto simp: kn_rel_def)
  have "late_rel enc (kn_reqs s @ [new_req req]) ((kn_clerks s)(c := NGet \<lparr>ga_Key = key\<rparr> (length (kn_reqs s)))) (kl_late A)"
    by (rule late_rel_issue [OF late]) (use idle put_call_get [OF r] in auto)
  then show ?thesis by (simp add: kn_rel_def t A abs_issue [OF inv] begin_put_pc Clerk_Get_def)
qed

lemma net_Put_rel:
  assumes g: "gob_ok enc dec" and inv: "kn_inv enc dec s" and rel: "kn_rel enc dec s A"
    and idle: "kn_clerks s c = NIdle" and act: "net_Put enc s c key val version = Some t"
  shows "kn_rel enc dec t (A\<lparr>kl_sys := begin_op (kl_sys A) c (Clerk_Put key val version),
      kl_learned := kl_learned A \<and> learned (oplog (kl_sys A)) key version\<rparr>)"
proof -
  let ?a = "\<lparr>pa_Key = key, pa_Value = val, pa_Version = version\<rparr>"
  from act obtain req where r: "put_call enc c ?a = Some req"
    and t: "t = (issue s c (NPut ?a False) req)\<lparr>kn_start := (kn_start s)(c := kn_now s),
             kn_learned := kn_learned s \<and> learned (kn_oplog s) key version\<rparr>"
    by (auto simp: net_Put_def Let_def bind_eq_Some_conv)
  from rel have A: "kl_sys A = abs_sys dec s" "kl_learned A = kn_learned s"
    and late: "late_rel enc (kn_reqs s) (kn_clerks s) (kl_late A)" by (auto simp: kn_rel_def)
  have "late_rel enc (kn_reqs s @ [new_req req]) ((kn_clerks s)(c := NPut ?a False (length (kn_reqs s)))) (kl_late A)"
    by (rule late_rel_issue [OF late]) (use idle put_call_inj [OF g r] in auto)
  then show ?thesis by (simp add: kn_rel_def t A abs_issue [OF inv] begin_put_pc Clerk_Put_def)
qed

lemma idle_abs: "kn_rel enc dec s A \<Longrightarrow> kn_clerks s c = NIdle \<Longrightarrow> pcs (kl_sys A) c = Idle"
  by (simp add: kn_rel_def)

lemma net_sim_get:
  assumes "kn_inv enc dec s" "kn_rel enc dec s A" "kn_clerks s c = NIdle" "net_Get enc s c key = Some t"
  shows "\<exists>A'. kl_step A A' \<and> kn_rel enc dec t A'"
  using net_Get_rel [OF assms] kl_get [OF idle_abs [OF assms(2,3)]] by blast

lemma net_sim_put:
  assumes "gob_ok enc dec" "kn_inv enc dec s" "kn_rel enc dec s A" "kn_clerks s c = NIdle"
    "net_Put enc s c key val version = Some t"
  shows "\<exists>A'. kl_step A A' \<and> kn_rel enc dec t A'"
  using net_Put_rel [OF assms] kl_put [OF idle_abs [OF assms(3,4)]] by blast

text \<open>A call that returns true returns the reply of the handler's run.\<close>

lemma answered:
  assumes "proc_ok enc dec p" "pr_out p = Some rep" "rp_ok rep"
  shows "pr_ech p = Some rep"
  using assms by (auto simp: proc_ok_def req_inv_def)

lemma clerk_answered:
  assumes inv: "kn_inv enc dec s" and ans: "clerk_answer dec s c = Some (Some res)"
  shows "call_returned (abs_pc dec (kn_reqs s) (kn_clerks s c)) = Some res"
    and "kn_clerks s c = NPut a rt i \<Longrightarrow> \<not> may_run (kn_reqs s ! i)"
proof -
  have clerk: "clerk_ok enc (kn_reqs s) c (kn_clerks s c)" by (rule kn_invD(3) [OF inv])
  have proc: "proc_ok enc dec (kn_reqs s ! j)" if "j < length (kn_reqs s)" for j
    using kn_invD(2) [OF inv] that by simp
  from ans have "call_returned (abs_pc dec (kn_reqs s) (kn_clerks s c)) = Some res
      \<and> (kn_clerks s c = NPut a rt i \<longrightarrow> \<not> may_run (kn_reqs s ! i))"
  proof (cases rule: clerk_answer_cases)
    case (got b j rep reply)
    with clerk proc have "pr_ech (kn_reqs s ! j) = Some rep" by (auto intro: answered)
    with got show ?thesis by (simp add: call_of_def get_answer_def)
  next
    case (put b rt' j rep reply)
    with clerk proc have "pr_ech (kn_reqs s ! j) = Some rep" by (auto intro: answered)
    with put show ?thesis by (auto simp: call_of_def put_answer_def may_run_def)
  qed simp
  then show "call_returned (abs_pc dec (kn_reqs s) (kn_clerks s c)) = Some res"
    "kn_clerks s c = NPut a rt i \<Longrightarrow> \<not> may_run (kn_reqs s ! i)" by blast+
qed

lemma clerk_input_abs: "clerk_input pc = op_input (abs_pc dec ps pc)"
  by (cases pc) simp_all

text \<open>A clerk that returns to its caller.\<close>

lemma net_end_rel:
  assumes inv: "kn_inv enc dec s" and rel: "kn_rel enc dec s A" and ans: "clerk_answer dec s c = Some (Some res)"
  shows "kn_rel enc dec (net_end s c (clerk_input (kn_clerks s c)) res) (A\<lparr>kl_sys := end_op (kl_sys A) c res\<rparr>)"
    and "call_returned (pcs (kl_sys A) c) = Some res"
proof -
  from rel have A: "kl_sys A = abs_sys dec s" "kl_learned A = kn_learned s"
    and late: "late_rel enc (kn_reqs s) (kn_clerks s) (kl_late A)" by (auto simp: kn_rel_def)
  have "abs_sys dec (net_end s c (clerk_input (kn_clerks s c)) res) = end_op (abs_sys dec s) c res"
    by (auto simp: abs_sys_def net_end_def end_op_def clerk_input_abs)
  then show "kn_rel enc dec (net_end s c (clerk_input (kn_clerks s c)) res) (A\<lparr>kl_sys := end_op (kl_sys A) c res\<rparr>)"
    using late_rel_idle [OF late clerk_answered(2) [OF inv ans]] A by (simp add: kn_rel_def net_end_def)
  show "call_returned (pcs (kl_sys A) c) = Some res" using clerk_answered(1) [OF inv ans] by (simp add: A)
qed

lemma net_sim_again:
  assumes g: "gob_ok enc dec" and inv: "kn_inv enc dec s" and rel: "kn_rel enc dec s A"
    and act: "clerk_again enc s c = Some t"
  shows "\<exists>A'. kl_net A A' \<and> kn_rel enc dec t A'"
proof -
  from rel have A: "kl_sys A = abs_sys dec s" "kl_learned A = kn_learned s"
    and late: "late_rel enc (kn_reqs s) (kn_clerks s) (kl_late A)" by (auto simp: kn_rel_def)
  have lose: "\<exists>A'. kl_net A A' \<and> kn_rel enc dec (issue s c pc req) A'"
    if f: "call_failed (abs_pc dec (kn_reqs s) (kn_clerks s c)) =
        Some (abs_pc dec (kn_reqs s @ [new_req req]) (pc (length (kn_reqs s))))"
      and l: "late_rel enc (kn_reqs s @ [new_req req]) ((kn_clerks s)(c := pc (length (kn_reqs s)))) (kl_late A)"
    for pc req
  proof -
    have "kl_net A (A\<lparr>kl_sys := put_pc (kl_sys A) c (abs_pc dec (kn_reqs s @ [new_req req]) (pc (length (kn_reqs s))))\<rparr>)"
      by (rule kl_lose) (simp add: A f)
    then show ?thesis using l by (auto simp: kn_rel_def A abs_issue [OF inv])
  qed
  from act show ?thesis
  proof (cases rule: clerk_again_cases)
    case (got a i req)
    have "late_rel enc (kn_reqs s @ [new_req req]) ((kn_clerks s)(c := NGet a (length (kn_reqs s)))) (kl_late A)"
      by (rule late_rel_issue [OF late]) (use got put_call_get [OF got(2)] in auto)
    with lose [of req "NGet a"] got show ?thesis by simp
  next
    case (put a rt i req)
    note inj = put_call_inj [OF g put(2)]
    show ?thesis
    proof (cases "may_run (kn_reqs s ! i)")
      case True
      let ?A = "A\<lparr>kl_sys := put_pc (kl_sys A) c (InPut a True Sent), kl_late := insert a (kl_late A)\<rparr>"
      have "kl_net A ?A"
        by (rule kl_abandon [where rt = rt]) (use True put in \<open>simp add: A call_of_def may_run_def\<close>)
      moreover have "late_rel enc (kn_reqs s @ [new_req req]) ((kn_clerks s)(c := NPut a True (length (kn_reqs s)))) (insert a (kl_late A))"
        by (rule late_rel_issue [OF late]) (use inj put(1) in \<open>blast | simp\<close>)+
      then have "kn_rel enc dec t ?A"
        using put by (simp add: kn_rel_def A abs_issue [OF inv])
      ultimately show ?thesis by blast
    next
      case False
      have "late_rel enc (kn_reqs s @ [new_req req]) ((kn_clerks s)(c := NPut a True (length (kn_reqs s)))) (kl_late A)"
        by (rule late_rel_issue [OF late]) (use inj put(1) False in \<open>blast | simp\<close>)+
      with lose [of req "NPut a True"] put show ?thesis by simp
    qed
  qed
qed

lemma net_sim_return:
  assumes g: "gob_ok enc dec" and inv: "kn_inv enc dec s" and rel: "kn_rel enc dec s A"
    and act: "net_return enc dec s c = Some t"
  shows "\<exists>A'. kl_step A A' \<and> kn_rel enc dec t A'"
  using act
proof (cases rule: net_return_cases)
  case (ended res)
  show ?thesis
    unfolding ended(2) using net_end_rel [OF inv rel ended(1)] kl_return by blast
next
  case again
  then show ?thesis using net_sim_again [OF g inv rel] kl_move by blast
qed

text \<open>The request that a handler runs for is waited for by the clerk that made it, or by nobody.\<close>

lemma request_owner:
  assumes "gob_ok enc dec" "send_req enc c m v = Some (pr_req (ps ! i))" "clerk_ok enc ps d pc"
  shows "pc = NGet a i \<Longrightarrow> d = c \<and> v = VGetArgs a" "pc = NPut b rt i \<Longrightarrow> d = c \<and> v = VPutArgs b"
proof -
  show "d = c \<and> v = VGetArgs a" if "pc = NGet a i"
  proof -
    from assms(3) that have "get_call enc d a = Some (pr_req (ps ! i))" by simp
    from send_req_inj [OF assms(1,2) this] show ?thesis by simp
  qed
  show "d = c \<and> v = VPutArgs b" if "pc = NPut b rt i"
  proof -
    from assms(3) that have "put_call enc d b = Some (pr_req (ps ! i))" by simp
    from send_req_inj [OF assms(1,2) this] show ?thesis by simp
  qed
qed

lemma abs_sys_req:
  assumes g: "gob_ok enc dec" and inv: "kn_inv enc dec s" and i: "i < length (kn_reqs s)"
    and own: "send_req enc c m v = Some (pr_req (kn_reqs s ! i))"
  shows "abs_sys dec (s\<lparr>kn_net := rn', kn_reqs := (kn_reqs s)[i := p'], kn_now := Suc (kn_now s)\<rparr>) =
    put_pc ((abs_sys dec s)\<lparr>srv := kv_of rn'\<rparr>) c (abs_pc dec ((kn_reqs s)[i := p']) (kn_clerks s c))"
proof -
  have "abs_pc dec ((kn_reqs s)[i := p']) (kn_clerks s d) = abs_pc dec (kn_reqs s) (kn_clerks s d)" if "d \<noteq> c" for d
    using request_owner [OF g own kn_invD(3) [OF inv]] that by (intro abs_pc_other) blast+
  then show ?thesis by (auto simp: abs_sys_def put_pc_def)
qed

lemma net_sim_quiet:
  assumes rel: "kn_rel enc dec s A" and i: "i < length (kn_reqs s)"
    and act: "req_act enc dec (kn_net s) (kn_reqs s ! i) act = Some (rn', p')" and q: "act \<noteq> DoExecute"
  shows "\<exists>A'. kl_net A A' \<and>
    kn_rel enc dec (s\<lparr>kn_net := rn', kn_reqs := (kn_reqs s)[i := p'], kn_now := Suc (kn_now s)\<rparr>) A'"
proof -
  note Q = net_quiet [OF act q]
  from rel have A: "kl_sys A = abs_sys dec s" "kl_learned A = kn_learned s"
    and late: "late_rel enc (kn_reqs s) (kn_clerks s) (kl_late A)" by (auto simp: kn_rel_def)
  have "kv_of rn' = kv_of (kn_net s)" by (simp add: kv_of_def Q(1))
  then have "abs_sys dec (s\<lparr>kn_net := rn', kn_reqs := (kn_reqs s)[i := p'], kn_now := Suc (kn_now s)\<rparr>) =
      (abs_sys dec s)\<lparr>now := Suc (kn_now s)\<rparr>"
    using abs_pc_same [OF i Q(3)] by (simp add: abs_sys_def)
  then show ?thesis
    using late_rel_upd [OF late i Q(4) Q(5)] kl_pass [of A] by (auto simp: kn_rel_def A)
qed

text \<open>A handler's run is a delivery, or a late run of a \<open>Put\<close> that was given up, or a \<open>Get\<close> nobody waits for.\<close>

lemma net_sim_execute:
  assumes g: "gob_ok enc dec" and inv: "kn_inv enc dec s" and rel: "kn_rel enc dec s A" and i: "i < length (kn_reqs s)"
    and act: "req_act enc dec (kn_net s) (kn_reqs s ! i) DoExecute = Some (rn', p')"
  shows "\<exists>A'. kl_net A A' \<and>
    kn_rel enc dec (s\<lparr>kn_net := rn', kn_reqs := (kn_reqs s)[i := p'], kn_now := Suc (kn_now s)\<rparr>) A'"
    (is "\<exists>A'. _ \<and> kn_rel enc dec ?t A'")
proof -
  from rel have A: "kl_sys A = abs_sys dec s" "kl_learned A = kn_learned s"
    and late: "late_rel enc (kn_reqs s) (kn_clerks s) (kl_late A)" by (auto simp: kn_rel_def)
  let ?p = "kn_reqs s ! i"
  have p: "proc_ok enc dec ?p" using kn_invD(2) [OF inv] i by simp
  have keep: "late_rel enc ((kn_reqs s)[i := ?p\<lparr>pr_started := False, pr_ech := Some r\<rparr>]) (kn_clerks s) (kl_late A)" for r
    by (rule late_rel_upd [OF late i]) (simp_all add: may_run_def)
  have stale: "abs_pc dec ((kn_reqs s)[i := p']) (kn_clerks s c) = abs_pc dec (kn_reqs s) (kn_clerks s c)"
    if "\<forall>a. kn_clerks s c \<noteq> NGet a i" "\<forall>a rt. kn_clerks s c \<noteq> NPut a rt i" for c
    using that by (intro abs_pc_other) blast+
  from g kn_invD(1) [OF inv] p act show ?thesis
  proof (cases rule: execute_kinds)
    case (get c a r)
    note own = request_owner [OF g get(1) kn_invD(3) [OF inv]]
    note abs = abs_sys_req [OF g inv i get(1), where rn' = rn' and p' = p']
    have rel': "kn_rel enc dec ?t (A\<lparr>kl_sys := abs_sys dec ?t\<rparr>)"
      using keep get(4) by (simp add: kn_rel_def A)
    show ?thesis
    proof (cases "\<exists>a. kn_clerks s c = NGet a i")
      case True
      then have pc: "kn_clerks s c = NGet a i" using own(1) by blast
      have "kl_net A (A\<lparr>kl_sys := put_pc ((kl_sys A)\<lparr>srv := kv_of (kn_net s)\<rparr>) c
          (InGet a (Handled (KVServer_Get (kv_of (kn_net s)) a zero_GetReply)))\<rparr>)"
        by (rule kl_deliver) (simp add: A pc call_of_def get(2))
      with rel' show ?thesis
        unfolding abs using pc get i by (auto simp: A call_of_def get_answer_def)
    next
      case False
      with own(2) have "abs_pc dec ((kn_reqs s)[i := p']) (kn_clerks s c) = abs_pc dec (kn_reqs s) (kn_clerks s c)"
        by (intro stale) auto
      then have "abs_sys dec ?t = (abs_sys dec s)\<lparr>now := Suc (kn_now s)\<rparr>"
        unfolding abs using get(6) by (auto simp: put_pc_def abs_sys_def)
      with rel' kl_pass [of A] show ?thesis by (auto simp: A)
    qed
  next
    case (put c a r)
    note own = request_owner [OF g put(1) kn_invD(3) [OF inv]]
    note abs = abs_sys_req [OF g inv i put(1), where rn' = rn' and p' = p']
    have rel': "kn_rel enc dec ?t (A\<lparr>kl_sys := abs_sys dec ?t\<rparr>)"
      using keep put(4) by (simp add: kn_rel_def A)
    show ?thesis
    proof (cases "\<exists>a rt. kn_clerks s c = NPut a rt i")
      case True
      then obtain rt where pc: "kn_clerks s c = NPut a rt i" using own(2) by blast
      have "kl_net A (A\<lparr>kl_sys := put_pc ((kl_sys A)\<lparr>srv := kv_of rn'\<rparr>) c
          (InPut a rt (Handled (snd (KVServer_Put (kv_of (kn_net s)) a zero_PutReply))))\<rparr>)"
        by (rule kl_deliver) (simp add: A pc call_of_def put(2,6) case_prod_beta)
      with rel' show ?thesis
        unfolding abs using pc put i by (auto simp: A call_of_def put_answer_def)
    next
      case False
      have "may_run ?p" using put by (simp add: may_run_def)
      with late i put(1) False have "a \<in> kl_late A" unfolding late_rel_def by blast
      then have "kl_net A (A\<lparr>kl_sys := late_put (kl_sys A) a\<rparr>)" by (rule kl_late)
      moreover have "abs_pc dec ((kn_reqs s)[i := p']) (kn_clerks s c) = abs_pc dec (kn_reqs s) (kn_clerks s c)"
        using False own(1) by (intro stale) auto
      then have "abs_sys dec ?t = late_put (abs_sys dec s) a"
        unfolding abs using put(6) by (auto simp: put_pc_def late_put_def abs_sys_def)
      ultimately show ?thesis using rel' by (auto simp: A)
    qed
  qed
qed

lemma net_sim_req:
  assumes g: "gob_ok enc dec" and inv: "kn_inv enc dec s" and rel: "kn_rel enc dec s A" and i: "i < length (kn_reqs s)"
    and act: "req_act enc dec (kn_net s) (kn_reqs s ! i) a = Some (rn', p')"
  shows "\<exists>A'. kl_net A A' \<and>
    kn_rel enc dec (s\<lparr>kn_net := rn', kn_reqs := (kn_reqs s)[i := p'], kn_now := Suc (kn_now s)\<rparr>) A'"
proof (cases "a = DoExecute")
  case True
  from act have "req_act enc dec (kn_net s) (kn_reqs s ! i) DoExecute = Some (rn', p')" by (simp only: True)
  from net_sim_execute [OF g inv rel i this] show ?thesis .
next
  case False
  from net_sim_quiet [OF rel i act False] show ?thesis .
qed

lemma net_sim_config:
  assumes inv: "kn_inv enc dec s" and rel: "kn_rel enc dec s A"
  shows "\<exists>A'. kl_net A A' \<and> kn_rel enc dec (s\<lparr>kn_net := configure (kn_net s) cf, kn_now := Suc (kn_now s)\<rparr>) A'"
proof -
  have "kn_rel enc dec (s\<lparr>kn_net := configure (kn_net s) cf, kn_now := Suc (kn_now s)\<rparr>)
      (A\<lparr>kl_sys := (kl_sys A)\<lparr>now := Suc (now (kl_sys A))\<rparr>\<rparr>)"
    using rel configure_ok [OF kn_invD(1) [OF inv], of cf] by (auto simp: kn_rel_def abs_sys_def)
  with kl_pass [of A] show ?thesis by blast
qed

lemma net_sim_step:
  assumes g: "gob_ok enc dec" and inv: "kn_inv enc dec s" and rel: "kn_rel enc dec s A" and st: "kn_step enc dec s t"
  shows "\<exists>A'. kl_step A A' \<and> kn_rel enc dec t A'"
proof -
  from st obtain act where act: "net_act enc dec s act = Some t" by (auto simp: kn_step_def)
  show ?thesis
  proof (cases act)
    case (NCallGet c key)
    with act show ?thesis using net_sim_get [OF inv rel] by (auto split: if_splits)
  next
    case (NCallPut c key val version)
    with act show ?thesis using net_sim_put [OF g inv rel] by (auto split: if_splits)
  next
    case (NReturn c)
    with act show ?thesis using net_sim_return [OF g inv rel] by simp
  next
    case (NReq i a)
    with act obtain rn' p' where i: "i < length (kn_reqs s)"
      and a: "req_act enc dec (kn_net s) (kn_reqs s ! i) a = Some (rn', p')"
      and t: "t = s\<lparr>kn_net := rn', kn_reqs := (kn_reqs s)[i := p'], kn_now := Suc (kn_now s)\<rparr>"
      by (auto simp: bind_eq_Some_conv split: if_splits)
    from net_sim_req [OF g inv rel i a] show ?thesis unfolding t using kl_move by blast
  next
    case (NConfig cf)
    with act have t: "t = s\<lparr>kn_net := configure (kn_net s) cf, kn_now := Suc (kn_now s)\<rparr>" by simp
    from net_sim_config [OF inv rel, of cf] show ?thesis unfolding t using kl_move by blast
  qed
qed

lemma kn_simulation:
  assumes "gob_ok enc dec"
  shows "simulation kn_init (kn_step enc dec) kl_init kl_step (kn_inv enc dec) (kn_rel enc dec)"
  by unfold_locales (auto intro: kn_rel_init kn_inv_init kn_inv_step [OF assms] net_sim_step [OF assms])

end
