(* ===== verification/KvNetLin.thy ===== *)
theory KvNetLin
  imports KvNet
begin

text \<open>
  Linearizability of the key/value service over the simulated network, for clients that name versions
  they have learned, and a run that shows that this condition is needed. The runs are evaluated with an
  encoding of the four structs that stands for \<open>labgob\<close>.
\<close>

subsection \<open>An encoding for the concrete runs\<close>

text \<open>Strings are preceded by their length in unary, versions and errors are unary.\<close>

definition put_nat :: "nat \<Rightarrow> bytes" where
  "put_nat n = replicate n 1 @ [0]"

definition get_nat :: "bytes \<Rightarrow> nat \<times> bytes" where
  "get_nat b = (let n = length (takeWhile ((=) 1) b) in (n, drop (Suc n) b))"

definition put_str :: "string \<Rightarrow> bytes" where
  "put_str s = put_nat (length s) @ map (\<lambda>c. word_of_int (of_char c)) s"

definition get_str :: "bytes \<Rightarrow> string \<times> bytes" where
  "get_str b = (case get_nat b of (n, r) \<Rightarrow> (map (\<lambda>w. char_of (uint w)) (take n r), drop n r))"

definition errs :: "Err list" where
  "errs = [OK, ErrNoKey, ErrVersion, ErrMaybe, ErrWrongLeader, ErrWrongGroup, ErrZero]"

definition put_err :: "Err \<Rightarrow> bytes" where
  "put_err e = put_nat (length (takeWhile (\<lambda>x. x \<noteq> e) errs))"

definition get_err :: "bytes \<Rightarrow> Err" where
  "get_err b = errs ! fst (get_nat b)"

fun kv_enc :: "kvval \<Rightarrow> bytes option" where
  "kv_enc (VGetArgs a) = Some (0 # put_str (ga_Key a))"
| "kv_enc (VGetReply r) = Some (1 # put_str (gr_Value r) @ put_nat (unat (gr_Version r)) @ put_err (gr_Err r))"
| "kv_enc (VPutArgs a) = Some (2 # put_str (pa_Key a) @ put_str (pa_Value a) @ put_nat (unat (pa_Version a)))"
| "kv_enc (VPutReply r) = Some (3 # put_err (pr_Err r))"

definition kv_dec :: "bytes \<Rightarrow> kvval option" where
  "kv_dec b =
     (case b of [] \<Rightarrow> None
      | t # r \<Rightarrow>
          if t = 0 then Some (VGetArgs \<lparr>ga_Key = fst (get_str r)\<rparr>)
          else if t = 1 then
            (case get_str r of (v, r) \<Rightarrow> case get_nat r of (n, r) \<Rightarrow>
               Some (VGetReply \<lparr>gr_Value = v, gr_Version = of_nat n, gr_Err = get_err r\<rparr>))
          else if t = 2 then
            (case get_str r of (k, r) \<Rightarrow> case get_str r of (v, r) \<Rightarrow>
               Some (VPutArgs \<lparr>pa_Key = k, pa_Value = v, pa_Version = of_nat (fst (get_nat r))\<rparr>))
          else Some (VPutReply \<lparr>pr_Err = get_err r\<rparr>))"

lemma takeWhile_replicate: "takeWhile ((=) 1) (replicate n (1 :: 8 word) @ 0 # r) = replicate n 1"
  by (induction n) simp_all

lemma get_put_nat [simp]: "get_nat (put_nat n @ r) = (n, r)"
  by (simp add: get_nat_def put_nat_def takeWhile_replicate)

lemma get_put_str [simp]: "get_str (put_str s @ r) = (s, r)"
proof -
  have "uint (word_of_int (of_char c) :: 8 word) = of_char c" for c :: char
    by (simp add: uint_word_of_int)
  then have "map ((\<lambda>w. char_of (uint w)) \<circ> (\<lambda>c. word_of_int (of_char c) :: 8 word)) s = s"
    by (simp add: o_def)
  then show ?thesis by (simp add: get_str_def put_str_def)
qed

lemma get_put_err [simp]: "get_err (put_err e) = e"
  using get_put_nat [of _ "[]"] by (cases e) (simp_all add: get_err_def put_err_def errs_def)

lemma kv_gob_ok: "gob_ok kv_enc kv_dec"
  unfolding gob_ok_def
proof
  fix v
  show "\<exists>b. kv_enc v = Some b \<and> kv_dec b = Some v"
    using get_put_nat [of _ "[]"] get_put_str [of _ "[]"] by (cases v) (simp_all add: kv_dec_def)
qed

subsection \<open>Linearizability of the service over the network\<close>

text \<open>
  \<^bold>\<open>C2\<close>: The key/value service is linearizable over the simulated network. Take the clerks, the requests in
  the network and the server at any point of any run in which the tester makes the network unreliable,
  disconnects and reconnects ends and removes and restores the server as it likes; handlers of requests
  that were given up may run at any later time. As long as every \<open>Put\<close> named a version that had been
  learned, the recorded history of every key, with suitable responses for the operations in progress, is
  linearizable with respect to \<open>models.KvModel\<close>.
\<close>

theorem kv_net_linearizable:
  assumes "gob_ok enc dec" and "kn_reach enc dec s" and "kn_now s < 2 ^ 64" and "kn_learned s"
  shows "\<exists>ext. list_all (completes (abs_sys dec s)) ext \<and> distinct (map op_ClientId ext) \<and>
    (\<forall>k. linearizable (filter (\<lambda>v. op_key v = k) (kn_oplog s @ ext)))"
proof -
  obtain A where A: "kl_reach A" "kn_rel enc dec s A"
    using simulation.reach_simulates [OF kn_simulation [OF assms(1)] assms(2)] .
  then have sys: "kl_sys A = abs_sys dec s" "kl_learned A" using assms(4) by (auto simp: kn_rel_def)
  from kl_linearizable [OF A(1)] assms(3) sys show ?thesis by simp
qed

text \<open>Requests that are handled at once, as they come, and the tester connecting the end of a clerk.\<close>

definition handle :: "nat \<Rightarrow> net_action list" where
  "handle i = [NReq i (DoRoute 500), NReq i DoExecute, NReq i DoReceive, NReq i (DoFinish 500 700)]"

definition plug_in :: "nat \<Rightarrow> net_action list" where
  "plug_in c = [NConfig (ConnectEnd c ''server-0-0''), NConfig (SetEnabled c True)]"

text \<open>
  Clerk 0 creates a key; its first request is given up when its end is disabled, the repetition is
  handled, and the first request is handled after that.
\<close>

definition net_sample_run :: "net_action list" where
  "net_sample_run = plug_in 0 @
     [NCallPut 0 ''k'' ''a'' 0, NReq 0 (DoRoute 500), NConfig (SetEnabled 0 False), NReq 0 DoPoll,
      NReq 0 (DoFinish 500 700), NConfig (SetEnabled 0 True), NReturn 0] @ handle 1 @ [NReturn 0, NReq 0 DoExecute]"

definition net_history :: "net_action list \<Rightarrow> (Operation list \<times> bool \<times> nat) option" where
  "net_history as = map_option (\<lambda>s. (kn_oplog s, kn_learned s, kn_now s)) (run (net_act kv_enc kv_dec) kn_init as)"

lemma net_sample_history:
  "net_history net_sample_run = Some
     ([\<lparr>op_ClientId = 0, op_Input = \<lparr>in_Op = 1, in_Key = ''k'', in_Value = ''a'', in_Version = 0\<rparr>, op_Call = 2,
        op_Output = \<lparr>out_Value = '''', out_Version = 0, out_Err = ''OK''\<rparr>, op_Return = 13\<rparr>], True, 15)"
  by code_simp

lemmas kn_run_reach = run_reach [OF reach_init, where step = "kn_step kv_enc kv_dec"]

lemma net_history_reach:
  assumes "net_history as = Some (h, l, n)"
  obtains s where "run (net_act kv_enc kv_dec) kn_init as = Some s" "kn_reach kv_enc kv_dec s"
    "kn_oplog s = h" "kn_learned s = l" "kn_now s = n"
proof -
  from assms obtain s where s: "run (net_act kv_enc kv_dec) kn_init as = Some s"
      "kn_oplog s = h" "kn_learned s = l" "kn_now s = n"
    by (auto simp: net_history_def)
  moreover have "kn_reach kv_enc kv_dec s"
    by (rule kn_run_reach [OF s(1)]) (auto simp: kn_step_def)
  ultimately show thesis by (intro that)
qed

theorem kv_net_linearizable_witness:
  "\<exists>s. run (net_act kv_enc kv_dec) kn_init net_sample_run = Some s \<and> gob_ok kv_enc kv_dec \<and>
    kn_reach kv_enc kv_dec s \<and> kn_now s < 2 ^ 64 \<and> kn_learned s \<and>
    (\<exists>ext. list_all (completes (abs_sys kv_dec s)) ext \<and> distinct (map op_ClientId ext) \<and>
      (\<forall>k. linearizable (filter (\<lambda>v. op_key v = k) (kn_oplog s @ ext))))"
proof -
  obtain s where s: "run (net_act kv_enc kv_dec) kn_init net_sample_run = Some s" "kn_reach kv_enc kv_dec s"
    "kn_learned s" "kn_now s = 15"
    using net_history_reach [OF net_sample_history] by metis
  with kv_net_linearizable [OF kv_gob_ok s(2) _ s(3)] kv_gob_ok show ?thesis by (intro exI [of _ s] conjI) simp_all
qed

subsection \<open>Why the versions must be learned\<close>

text \<open>
  Clerk 0 puts with version 2 while the server is at version 1. Its request is given up before the
  handler runs; the repetition is refused and the clerk answers \<open>ErrMaybe\<close>. Clerk 1 then puts with
  version 1, which brings the server to version 2, and now the handler of the first request runs and
  overwrites the value. Clerk 1 reads a value that was put by an operation that had returned before its
  own put began.
\<close>

definition future_put_run :: "net_action list" where
  "future_put_run = plug_in 0 @ plug_in 1 @
     NCallPut 1 ''k'' ''a'' 0 # handle 0 @ NReturn 1 #
     [NCallPut 0 ''k'' ''b'' 2, NReq 1 (DoRoute 500), NConfig (SetEnabled 0 False), NReq 1 DoPoll,
      NReq 1 (DoFinish 500 700), NConfig (SetEnabled 0 True), NReturn 0] @ handle 2 @ NReturn 0 #
     NCallPut 1 ''k'' ''c'' 1 # handle 3 @ NReturn 1 # NReq 1 DoExecute #
     NCallGet 1 ''k'' # handle 4 @ [NReturn 1]"

definition future_put_history :: "Operation list" where
  "future_put_history =
     [\<lparr>op_ClientId = 1, op_Input = \<lparr>in_Op = 1, in_Key = ''k'', in_Value = ''a'', in_Version = 0\<rparr>, op_Call = 4,
        op_Output = \<lparr>out_Value = '''', out_Version = 0, out_Err = ''OK''\<rparr>, op_Return = 9\<rparr>,
      \<lparr>op_ClientId = 0, op_Input = \<lparr>in_Op = 1, in_Key = ''k'', in_Value = ''b'', in_Version = 2\<rparr>, op_Call = 10,
        op_Output = \<lparr>out_Value = '''', out_Version = 0, out_Err = ''ErrMaybe''\<rparr>, op_Return = 21\<rparr>,
      \<lparr>op_ClientId = 1, op_Input = \<lparr>in_Op = 1, in_Key = ''k'', in_Value = ''c'', in_Version = 1\<rparr>, op_Call = 22,
        op_Output = \<lparr>out_Value = '''', out_Version = 0, out_Err = ''OK''\<rparr>, op_Return = 27\<rparr>,
      \<lparr>op_ClientId = 1, op_Input = \<lparr>in_Op = 0, in_Key = ''k'', in_Value = '''', in_Version = 0\<rparr>, op_Call = 29,
        op_Output = \<lparr>out_Value = ''b'', out_Version = 3, out_Err = ''OK''\<rparr>, op_Return = 34\<rparr>]"

lemma future_put_evaluates: "net_history future_put_run = Some (future_put_history, False, 35)"
  by code_simp

lemma future_put_rejected: "\<not> model_accepts KvModel_Init future_put_history"
  by code_simp

text \<open>The actions of a run that belong to a clerk; the others leave its control state alone.\<close>

fun of_clerk :: "nat \<Rightarrow> net_action \<Rightarrow> bool" where
  "of_clerk c (NCallGet d key) \<longleftrightarrow> d = c"
| "of_clerk c (NCallPut d key val version) \<longleftrightarrow> d = c"
| "of_clerk c (NReturn d) \<longleftrightarrow> d = c"
| "of_clerk c a \<longleftrightarrow> False"

lemma net_act_other:
  assumes "net_act enc dec s a = Some t" "\<not> of_clerk c a"
  shows "kn_clerks t c = kn_clerks s c"
proof (cases a)
  case (NReturn d)
  with assms have "net_return enc dec s d = Some t" "d \<noteq> c" by auto
  then show ?thesis
    by (cases rule: net_return_cases) (auto simp: net_end_def elim: clerk_again_cases)
qed (use assms in \<open>auto simp: net_Get_def net_Put_def Let_def bind_eq_Some_conv split: if_splits\<close>)

lemma run_other:
  "run (net_act enc dec) s as = Some t \<Longrightarrow> \<forall>a\<in>set as. \<not> of_clerk c a \<Longrightarrow> kn_clerks t c = kn_clerks s c"
proof (induction as arbitrary: s)
  case (Cons a as)
  from Cons.prems(1) obtain u where u: "net_act enc dec s a = Some u" "run (net_act enc dec) u as = Some t"
    by (auto split: option.splits)
  from Cons.IH [OF u(2)] net_act_other [OF u(1)] Cons.prems(2) show ?case by simp
qed simp

lemma future_put_idle:
  "map_option (\<lambda>s. (kn_clerks s 0, kn_clerks s 1)) (run (net_act kv_enc kv_dec) kn_init future_put_run) = Some (NIdle, NIdle)"
  by code_simp

text \<open>
  \<^bold>\<open>C39\<close>: The condition on versions is needed. There is a run of the service, with all its operations
  completed and an encoder that works, whose history of a key is not linearizable: a \<open>Put\<close> that named a
  version the server had not reached takes effect after it has returned.
\<close>

theorem future_put_not_linearizable:
  "\<exists>s. run (net_act kv_enc kv_dec) kn_init future_put_run = Some s \<and> kn_reach kv_enc kv_dec s \<and>
    (\<forall>c. kn_clerks s c = NIdle) \<and> \<not> linearizable (filter (\<lambda>v. op_key v = ''k'') (kn_oplog s))"
proof -
  obtain s where s: "run (net_act kv_enc kv_dec) kn_init future_put_run = Some s" "kn_reach kv_enc kv_dec s"
    "kn_oplog s = future_put_history"
    using net_history_reach [OF future_put_evaluates] by metis
  have "kn_clerks s 0 = NIdle" "kn_clerks s 1 = NIdle" using future_put_idle s(1) by auto
  moreover have "kn_clerks s c = NIdle" if "c \<noteq> 0" "c \<noteq> 1" for c
    using run_other [OF s(1), of c] that by (simp add: future_put_run_def plug_in_def handle_def kn_init_def)
  ultimately have idle: "\<forall>c. kn_clerks s c = NIdle" by metis
  have "filter (\<lambda>v. op_key v = ''k'') future_put_history = future_put_history"
    by (simp add: future_put_history_def op_key_def)
  moreover have "\<not> linearizable future_put_history"
    using future_put_rejected by (subst sequential_linearizable) (simp_all add: future_put_history_def)
  ultimately show ?thesis using s idle by metis
qed

end
