(* ===== verification/LockNet.thy ===== *)
theory LockNet
  imports LockSrv KvNetLin
begin

text \<open>
  The distributed lock end to end: the lock of \<open>src/kvsrv1/lock/lock.go\<close> (theory \<open>LockSrv\<close>) on the clerks
  of \<open>src/kvsrv1/client.go\<close>, whose calls are requests in the network of \<open>src/labrpc/labrpc.go\<close>, dispatched
  to the server of \<open>src/kvsrv1/server.go\<close> (theory \<open>KvNet\<close>). The clients \<open>0, \<dots>, n - 1\<close> have a lock each,
  lock \<open>c\<close> on clerk \<open>c\<close>; the clerks from \<open>n\<close> on belong to other applications, which use other keys.

  The theory shows that this system implements the system of lock clients of \<open>LockSrv\<close>, and that mutual
  exclusion holds in it.
\<close>

subsection \<open>Lock clients in the network\<close>

text \<open>
  \<open>ln_pc\<close> is \<^term>\<open>None\<close> for a client that has not called \<open>MakeLock\<close> yet. The clerk state inside a \<open>LockPc\<close> is
  the one its call started with; where the call has got to is in the network.
\<close>

record LockNet =
  ln_kv :: KvNet
  ln_n :: nat
  ln_lock :: "nat \<Rightarrow> Lock"
  ln_pc :: "nat \<Rightarrow> LockPc option"

definition ln_init :: "nat \<Rightarrow> (nat \<Rightarrow> string) \<Rightarrow> (nat \<Rightarrow> string) \<Rightarrow> LockNet" where
  "ln_init n keys ids = \<lparr>ln_kv = kn_init, ln_n = n, ln_lock = (\<lambda>c. fst (MakeLock (keys c) (ids c))), ln_pc = (\<lambda>_. None)\<rparr>"

text \<open>The clerk call a client makes next, if it makes one.\<close>

fun start_call :: "(kvval \<Rightarrow> bytes option) \<Rightarrow> KvNet \<Rightarrow> nat \<Rightarrow> ClerkPc \<Rightarrow> KvNet option" where
  "start_call enc kv c Idle = Some kv"
| "start_call enc kv c (InGet a _) = net_Get enc kv c (ga_Key a)"
| "start_call enc kv c (InPut a _ _) = net_Put enc kv c (pa_Key a) (pa_Value a) (pa_Version a)"

definition ln_goto :: "(kvval \<Rightarrow> bytes option) \<Rightarrow> LockNet \<Rightarrow> KvNet \<Rightarrow> nat \<Rightarrow> Lock \<times> LockPc \<Rightarrow> LockNet option" where
  "ln_goto enc s kv c x = do {
     kv' \<leftarrow> start_call enc kv c (lock_clerk (snd x));
     Some (s\<lparr>ln_kv := kv', ln_lock := (ln_lock s)(c := fst x), ln_pc := (ln_pc s)(c \<mapsto> snd x)\<rparr>)
   }"

text \<open>
  A clerk call of a lock client returns: with a result, with which \<open>lock.go\<close> goes on, or to the head of
  the clerk's loop.
\<close>

definition ln_return :: "(kvval \<Rightarrow> bytes option) \<Rightarrow> (bytes \<Rightarrow> kvval option) \<Rightarrow> LockNet \<Rightarrow> nat \<Rightarrow> LockNet option" where
  "ln_return enc dec s c = do {
     pc \<leftarrow> ln_pc s c;
     ans \<leftarrow> clerk_answer dec (ln_kv s) c;
     case ans of
       Some res \<Rightarrow> ln_goto enc s (net_end (ln_kv s) c (clerk_input (kn_clerks (ln_kv s) c)) res) c
                     (lock_resume (ln_lock s c) pc res)
     | None \<Rightarrow> do { kv' \<leftarrow> clerk_again enc (ln_kv s) c; Some (s\<lparr>ln_kv := kv'\<rparr>) }
   }"

definition other_key :: "LockNet \<Rightarrow> string \<Rightarrow> bool" where
  "other_key s k \<longleftrightarrow> list_all (\<lambda>c. k \<noteq> lk_key (ln_lock s c)) [0..<ln_n s]"

text \<open>What the network, the tester and the other applications do.\<close>

fun others_act :: "LockNet \<Rightarrow> net_action \<Rightarrow> bool" where
  "others_act s (NCallGet c key) \<longleftrightarrow> ln_n s \<le> c"
| "others_act s (NCallPut c key val version) \<longleftrightarrow> ln_n s \<le> c \<and> other_key s key"
| "others_act s (NReturn c) \<longleftrightarrow> ln_n s \<le> c"
| "others_act s a \<longleftrightarrow> True"

datatype ln_action = LnMake nat | LnAcquire nat | LnRelease nat | LnReturn nat | LnNet net_action

fun ln_act :: "(kvval \<Rightarrow> bytes option) \<Rightarrow> (bytes \<Rightarrow> kvval option) \<Rightarrow> LockNet \<Rightarrow> ln_action \<Rightarrow> LockNet option" where
  "ln_act enc dec s (LnMake c) =
     (if c < ln_n s \<and> ln_pc s c = None
      then ln_goto enc s (ln_kv s) c (MakeLock (lk_key (ln_lock s c)) (lk_id (ln_lock s c))) else None)"
| "ln_act enc dec s (LnAcquire c) =
     (if c < ln_n s \<and> ln_pc s c = Some LkReady
      then ln_goto enc s (ln_kv s) c (ln_lock s c, Acquire (ln_lock s c)) else None)"
| "ln_act enc dec s (LnRelease c) =
     (if c < ln_n s \<and> ln_pc s c = Some LkReady
      then ln_goto enc s (ln_kv s) c (ln_lock s c, Release (ln_lock s c)) else None)"
| "ln_act enc dec s (LnReturn c) = (if c < ln_n s then ln_return enc dec s c else None)"
| "ln_act enc dec s (LnNet a) =
     (if others_act s a then do { kv' \<leftarrow> net_act enc dec (ln_kv s) a; Some (s\<lparr>ln_kv := kv'\<rparr>) } else None)"

definition ln_step :: "(kvval \<Rightarrow> bytes option) \<Rightarrow> (bytes \<Rightarrow> kvval option) \<Rightarrow> LockNet \<Rightarrow> LockNet \<Rightarrow> bool" where
  "ln_step enc dec s t \<longleftrightarrow> (\<exists>a. ln_act enc dec s a = Some t)"

text \<open>A client is in its critical section when \<open>Acquire\<close> has returned and \<open>Release\<close> was not called.\<close>

definition ln_in_cs :: "LockNet \<Rightarrow> nat \<Rightarrow> bool" where
  "ln_in_cs s c \<longleftrightarrow> c < ln_n s \<and> ln_pc s c = Some LkReady \<and> lk_held (ln_lock s c)"

subsection \<open>How it relates to the system of lock clients\<close>

text \<open>The kind of clerk call that a client waits for at each point of its code.\<close>

fun clerk_fits :: "LockPc \<Rightarrow> ClerkPc \<Rightarrow> bool" where
  "clerk_fits (LkMake _) ck \<longleftrightarrow> (\<exists>a rt st. ck = InPut a rt st)"
| "clerk_fits LkReady ck \<longleftrightarrow> ck = Idle"
| "clerk_fits (AcqGet _) ck \<longleftrightarrow> (\<exists>a st. ck = InGet a st)"
| "clerk_fits (AcqPut version _) ck \<longleftrightarrow> (\<exists>a rt st. ck = InPut a rt st)"
| "clerk_fits (AcqCheck _) ck \<longleftrightarrow> (\<exists>a st. ck = InGet a st)"
| "clerk_fits (RelPut _) ck \<longleftrightarrow> (\<exists>a rt st. ck = InPut a rt st)"
| "clerk_fits (RelCheck _) ck \<longleftrightarrow> (\<exists>a st. ck = InGet a st)"

text \<open>The client of \<open>LockSrv\<close> that a client and the state of its clerk stand for.\<close>

definition pc_view :: "Lock \<Rightarrow> LockPc option \<Rightarrow> ClerkPc \<Rightarrow> LockPc" where
  "pc_view lk pc ck = (case pc of None \<Rightarrow> snd (MakeLock (lk_key lk) (lk_id lk)) | Some p \<Rightarrow> with_clerk p ck)"

definition pc_fits :: "Lock \<Rightarrow> LockPc option \<Rightarrow> ClerkPc \<Rightarrow> bool" where
  "pc_fits lk pc ck =
     (case pc of None \<Rightarrow> ck = Idle \<and> lk = fst (MakeLock (lk_key lk) (lk_id lk)) | Some p \<Rightarrow> clerk_fits p ck)"

definition lrel :: "KvLate \<Rightarrow> LockNet \<Rightarrow> LockSys \<Rightarrow> bool" where
  "lrel A s L \<longleftrightarrow>
     ls_n L = ln_n s \<and> ls_lock L = ln_lock s \<and> ls_srv L = srv (kl_sys A) \<and> ls_now L \<le> now (kl_sys A) \<and>
     (\<forall>c<ln_n s. ls_pc L c = pc_view (ln_lock s c) (ln_pc s c) (pcs (kl_sys A) c) \<and> pc_fits (ln_lock s c) (ln_pc s c) (pcs (kl_sys A) c)) \<and>
     (\<forall>c a rt st. ln_n s \<le> c \<longrightarrow> pcs (kl_sys A) c = InPut a rt st \<longrightarrow> other_key s (pa_Key a)) \<and>
     (\<forall>a\<in>kl_late A. a \<in> ls_late L \<or> other_key s (pa_Key a))"

definition ln_rel :: "(kvval \<Rightarrow> bytes option) \<Rightarrow> (bytes \<Rightarrow> kvval option) \<Rightarrow> LockNet \<Rightarrow> LockSys \<Rightarrow> bool" where
  "ln_rel enc dec s L \<longleftrightarrow> (\<exists>A. kn_rel enc dec (ln_kv s) A \<and> lrel A s L)"

abbreviation lock_stutter :: "LockSys \<Rightarrow> LockSys \<Rightarrow> bool" where
  "lock_stutter s t \<equiv> t = s \<or> lock_step s t"

lemma other_key_iff: "other_key s k \<longleftrightarrow> (\<forall>c<ln_n s. k \<noteq> lk_key (ln_lock s c))"
  by (auto simp: other_key_def list_all_iff)

lemma reach_stutter: "reach init (\<lambda>s t. t = s \<or> step s t) s \<Longrightarrow> reach init step s"
  by (induction rule: reach.induct) (auto intro: reach.intros)

lemma with_clerk_twice [simp]: "with_clerk (with_clerk pc a) b = with_clerk pc b"
  by (cases pc) simp_all

lemma lrelD:
  assumes "lrel A s L"
  shows "ls_n L = ln_n s" "ls_lock L = ln_lock s" "ls_srv L = srv (kl_sys A)" "ls_now L \<le> now (kl_sys A)"
    "c < ln_n s \<Longrightarrow> ls_pc L c = pc_view (ln_lock s c) (ln_pc s c) (pcs (kl_sys A) c)"
    "c < ln_n s \<Longrightarrow> pc_fits (ln_lock s c) (ln_pc s c) (pcs (kl_sys A) c)"
    "ln_n s \<le> c \<Longrightarrow> pcs (kl_sys A) c = InPut a rt st \<Longrightarrow> other_key s (pa_Key a)"
    "a \<in> kl_late A \<Longrightarrow> a \<in> ls_late L \<or> other_key s (pa_Key a)"
  using assms unfolding lrel_def by blast+

lemma lrel_kv [simp]: "lrel A (s\<lparr>ln_kv := kv'\<rparr>) L = lrel A s L"
  by (simp add: lrel_def other_key_iff)

text \<open>A client whose clerk is in a call.\<close>

lemma lrel_busy:
  assumes "lrel A s L" "c < ln_n s" "pcs (kl_sys A) c \<noteq> Idle"
  obtains pc where "ln_pc s c = Some pc" "ls_pc L c = with_clerk pc (pcs (kl_sys A) c)"
    "lock_clerk (ls_pc L c) = pcs (kl_sys A) c" "clerk_fits pc (pcs (kl_sys A) c)"
proof -
  note R = lrelD(5,6) [OF assms(1,2)]
  from R(2) assms(3) obtain pc where pc: "ln_pc s c = Some pc" "clerk_fits pc (pcs (kl_sys A) c)"
    by (auto simp: pc_fits_def split: option.splits)
  with R(1) have "ls_pc L c = with_clerk pc (pcs (kl_sys A) c)" by (simp add: pc_view_def)
  moreover from this have "lock_clerk (ls_pc L c) = pcs (kl_sys A) c" using pc(2) assms(3) by (cases pc) auto
  ultimately show thesis using that pc by blast
qed

text \<open>The clerk of a client moves, and the client with it.\<close>

lemma lrel_move:
  assumes rel: "lrel A s L" and c: "c < ln_n s" and pc: "ln_pc s c = Some pc" "clerk_fits pc ck"
    and A': "kl_sys A' = put_pc ((kl_sys A)\<lparr>srv := kv\<rparr>) c ck" "kl_late A' = C \<union> kl_late A"
    and L': "L' = (set_client L c kv (ls_lock L c) (with_clerk (ls_pc L c) ck))\<lparr>ls_late := C \<union> ls_late L\<rparr>"
  shows "lrel A' s L'"
proof -
  note R = lrelD [OF rel]
  have "ls_pc L' d = pc_view (ln_lock s d) (ln_pc s d) (pcs (kl_sys A') d)" if "d < ln_n s" for d
    using R(5) [OF c] R(5) [OF that] pc by (auto simp: L' A' set_client_def put_pc_def pc_view_def)
  moreover have "pc_fits (ln_lock s d) (ln_pc s d) (pcs (kl_sys A') d)" if "d < ln_n s" for d
    using R(6) [OF that] pc by (auto simp: A' put_pc_def pc_fits_def)
  moreover have "other_key s (pa_Key b)" if "ln_n s \<le> d" "pcs (kl_sys A') d = InPut b rt st" for d b rt st
    using R(7) [OF that(1)] that c by (auto simp: A' put_pc_def split: if_splits)
  moreover have "b \<in> ls_late L' \<or> other_key s (pa_Key b)" if "b \<in> kl_late A'" for b
    using that R(8) [of b] by (auto simp: L' A' set_client_def)
  ultimately show ?thesis using R(1-4) c unfolding lrel_def by (auto simp: L' A' set_client_def put_pc_def)
qed

text \<open>The clerk of another application moves, and the lock clients see a write to another key, or nothing.\<close>

lemma lrel_other:
  assumes rel: "lrel A s L" and c: "ln_n s \<le> c" and ck: "\<And>a rt st. ck = InPut a rt st \<Longrightarrow> other_key s (pa_Key a)"
    and A': "kl_sys A' = put_pc ((kl_sys A)\<lparr>srv := kv\<rparr>) c ck"
      "\<And>a. a \<in> kl_late A' \<Longrightarrow> a \<in> kl_late A \<or> other_key s (pa_Key a)"
    and L': "ls_n L' = ls_n L" "ls_lock L' = ls_lock L" "ls_srv L' = kv" "ls_now L' \<le> Suc (ls_now L)"
      "ls_pc L' = ls_pc L" "ls_late L' = ls_late L"
  shows "lrel A' s L'"
proof -
  note R = lrelD [OF rel]
  have "ls_pc L' d = pc_view (ln_lock s d) (ln_pc s d) (pcs (kl_sys A') d) \<and> pc_fits (ln_lock s d) (ln_pc s d) (pcs (kl_sys A') d)"
    if "d < ln_n s" for d
    using R(5,6) [OF that] c that by (auto simp: L' A' put_pc_def)
  moreover have "other_key s (pa_Key b)" if "ln_n s \<le> d" "pcs (kl_sys A') d = InPut b rt st" for d b rt st
    using R(7) [OF that(1)] that ck by (auto simp: A' put_pc_def split: if_splits)
  moreover have "b \<in> ls_late L' \<or> other_key s (pa_Key b)" if "b \<in> kl_late A'" for b
    using A'(2) [OF that] R(8) [of b] by (auto simp: L')
  moreover have "ls_now L' \<le> now (kl_sys A')" using R(4) L'(4) by (simp add: A' put_pc_def)
  ultimately show ?thesis using R(1-3) unfolding lrel_def by (auto simp: L'(1-3,5,6) A' put_pc_def)
qed

lemma lrel_pass:
  assumes "lrel A s L" "kl_sys A' = (kl_sys A)\<lparr>now := n\<rparr>" "now (kl_sys A) \<le> n" "kl_late A' = kl_late A"
  shows "lrel A' s L"
  using assms unfolding lrel_def by auto

lemma lrel_server:
  assumes "lrel A s L" "kl_sys A' = (kl_sys A)\<lparr>srv := kv, now := Suc (now (kl_sys A))\<rparr>" "kl_late A' = kl_late A"
  shows "lrel A' s (L\<lparr>ls_srv := kv, ls_now := Suc (ls_now L)\<rparr>)"
  using assms unfolding lrel_def by simp

lemma other_put_step:
  assumes "lrel A s L" "other_key s (pa_Key a)"
  shows "lock_step L (L\<lparr>ls_srv := fst (KVServer_Put (srv (kl_sys A)) a r), ls_now := Suc (ls_now L)\<rparr>)"
  using other_put [of L a r] assms lrelD(1-3) [OF assms(1)] by (simp add: other_key_iff)

subsection \<open>What the network does, as the lock clients see it\<close>

lemma serve_fits: "serve kv ck = Some (kv', ck') \<Longrightarrow> clerk_fits pc ck \<Longrightarrow> clerk_fits pc ck'"
  by (cases pc; cases "(kv, ck)" rule: serve.cases) (auto simp: Let_def split: prod.splits)

lemma failed_fits: "call_failed ck = Some ck' \<Longrightarrow> clerk_fits pc ck \<Longrightarrow> clerk_fits pc ck'"
  by (cases pc; cases ck) auto

lemma serve_others:
  assumes "serve kv ck = Some (kv', ck')"
  obtains (get) a where "ck = InGet a Sent" "kv' = kv" "\<And>a rt st. ck' \<noteq> InPut a rt st"
  | (put) a rt where "ck = InPut a rt Sent" "kv' = fst (KVServer_Put kv a zero_PutReply)"
      "\<And>b rt' st. ck' = InPut b rt' st \<Longrightarrow> b = a"
  using assms by (cases "(kv, ck)" rule: serve.cases) (auto simp: Let_def split: prod.splits)

lemma lock_net_deliver:
  assumes rel: "lrel A s L" and sv: "serve (srv (kl_sys A)) (pcs (kl_sys A) c) = Some (kv', ck')"
    and A': "A' = A\<lparr>kl_sys := put_pc ((kl_sys A)\<lparr>srv := kv'\<rparr>) c ck'\<rparr>"
  shows "\<exists>L'. lock_stutter L L' \<and> lrel A' s L'"
proof (cases "c < ln_n s")
  case True
  note R = lrelD [OF rel]
  have "pcs (kl_sys A) c \<noteq> Idle" using sv by auto
  from lrel_busy [OF rel True this] obtain pc where pc: "ln_pc s c = Some pc"
    "ls_pc L c = with_clerk pc (pcs (kl_sys A) c)" "lock_clerk (ls_pc L c) = pcs (kl_sys A) c"
    "clerk_fits pc (pcs (kl_sys A) c)" .
  let ?L = "set_client L c kv' (ls_lock L c) (with_clerk (ls_pc L c) ck')"
  have "lock_step L ?L" by (rule lock_deliver) (use sv pc(3) True R(1,3) in simp_all)
  moreover have "lrel A' s (?L\<lparr>ls_late := {} \<union> ls_late L\<rparr>)"
    by (rule lrel_move [OF rel True pc(1) serve_fits [OF sv pc(4)], where A' = A' and C = "{}"]) (auto simp: A')
  moreover have "?L\<lparr>ls_late := {} \<union> ls_late L\<rparr> = ?L" by (simp add: set_client_def)
  ultimately show ?thesis by metis
next
  case False
  then have c: "ln_n s \<le> c" by simp
  note other = lrel_other [OF rel c, where A' = A' and kv = kv' and ck = ck']
  from sv show ?thesis
  proof (cases rule: serve_others)
    case (get a)
    have "lrel A' s L" by (rule other) (use get lrelD(3) [OF rel] in \<open>auto simp: A'\<close>)
    then show ?thesis by blast
  next
    case (put a rt)
    have a: "other_key s (pa_Key a)" by (rule lrelD(7) [OF rel c put(1)])
    let ?L = "L\<lparr>ls_srv := kv', ls_now := Suc (ls_now L)\<rparr>"
    have "lrel A' s ?L" by (rule other) (use put a in \<open>auto simp: A'\<close>)
    moreover have "lock_step L ?L" unfolding put(2) by (rule other_put_step [OF rel a])
    ultimately show ?thesis by blast
  qed
qed

lemma lock_net_lose:
  assumes rel: "lrel A s L" and f: "call_failed (pcs (kl_sys A) c) = Some ck'"
    and A': "A' = A\<lparr>kl_sys := put_pc (kl_sys A) c ck'\<rparr>"
  shows "\<exists>L'. lock_stutter L L' \<and> lrel A' s L'"
proof (cases "c < ln_n s")
  case True
  note R = lrelD [OF rel]
  have "pcs (kl_sys A) c \<noteq> Idle" using f by auto
  from lrel_busy [OF rel True this] obtain pc where pc: "ln_pc s c = Some pc"
    "ls_pc L c = with_clerk pc (pcs (kl_sys A) c)" "lock_clerk (ls_pc L c) = pcs (kl_sys A) c"
    "clerk_fits pc (pcs (kl_sys A) c)" .
  let ?L = "set_client L c (ls_srv L) (ls_lock L c) (with_clerk (ls_pc L c) ck')"
  have "lock_step L ?L" by (rule lock_lose) (use f pc(3) True R(1) in simp_all)
  moreover have "lrel A' s (?L\<lparr>ls_late := {} \<union> ls_late L\<rparr>)"
    by (rule lrel_move [OF rel True pc(1) failed_fits [OF f pc(4)], where A' = A' and C = "{}"])
      (auto simp: A' R(3))
  moreover have "?L\<lparr>ls_late := {} \<union> ls_late L\<rparr> = ?L" by (simp add: set_client_def)
  ultimately show ?thesis by metis
next
  case False
  then have c: "ln_n s \<le> c" by simp
  have "lrel A' s L"
    by (rule lrel_other [OF rel c, where kv = "srv (kl_sys A)" and ck = ck'])
      (use f lrelD(3) [OF rel] lrelD(7) [OF rel c] in \<open>cases "pcs (kl_sys A) c"; auto simp: A'\<close>)+
  then show ?thesis by blast
qed

lemma lock_net_abandon:
  assumes rel: "lrel A s L" and p: "pcs (kl_sys A) c = InPut a rt Sent"
    and A': "A' = A\<lparr>kl_sys := put_pc (kl_sys A) c (InPut a True Sent), kl_late := insert a (kl_late A)\<rparr>"
  shows "\<exists>L'. lock_stutter L L' \<and> lrel A' s L'"
proof (cases "c < ln_n s")
  case True
  note R = lrelD [OF rel]
  have "pcs (kl_sys A) c \<noteq> Idle" using p by simp
  from lrel_busy [OF rel True this] obtain pc where pc: "ln_pc s c = Some pc"
    "ls_pc L c = with_clerk pc (pcs (kl_sys A) c)" "lock_clerk (ls_pc L c) = pcs (kl_sys A) c"
    "clerk_fits pc (pcs (kl_sys A) c)" .
  let ?L = "set_client L c (ls_srv L) (ls_lock L c) (with_clerk (ls_pc L c) (InPut a True Sent))"
  have "lock_step L (?L\<lparr>ls_late := insert a (ls_late L)\<rparr>)"
    by (rule lock_abandon) (use p pc(3) True R(1) in simp_all)
  moreover have "clerk_fits pc (InPut a True Sent)" using pc(4) p by (cases pc) auto
  then have "lrel A' s (?L\<lparr>ls_late := {a} \<union> ls_late L\<rparr>)"
    by (rule lrel_move [OF rel True pc(1), where A' = A']) (auto simp: A' R(3))
  ultimately show ?thesis by auto
next
  case False
  then have c: "ln_n s \<le> c" by simp
  have "lrel A' s L"
    by (rule lrel_other [OF rel c, where kv = "srv (kl_sys A)" and ck = "InPut a True Sent"])
      (use lrelD(3) [OF rel] lrelD(7) [OF rel c p] in \<open>auto simp: A'\<close>)
  then show ?thesis by blast
qed

lemma lock_net_late:
  assumes rel: "lrel A s L" and a: "a \<in> kl_late A" and A': "A' = A\<lparr>kl_sys := late_put (kl_sys A) a\<rparr>"
  shows "\<exists>L'. lock_stutter L L' \<and> lrel A' s L'"
proof -
  let ?kv = "fst (KVServer_Put (srv (kl_sys A)) a zero_PutReply)"
  let ?L = "L\<lparr>ls_srv := ?kv, ls_now := Suc (ls_now L)\<rparr>"
  have "lock_step L ?L"
    using lrelD(8) [OF rel a] lock_late [of a L zero_PutReply] other_put_step [OF rel, of a zero_PutReply]
    by (auto simp: lrelD(3) [OF rel])
  moreover have "lrel A' s ?L" by (rule lrel_server [OF rel]) (simp_all add: A' late_put_def)
  ultimately show ?thesis by blast
qed

lemma lock_net_moves:
  assumes "kl_net A A'" "lrel A s L"
  shows "\<exists>L'. lock_stutter L L' \<and> lrel A' s L'"
  using assms(1)
proof cases
  case (kl_deliver c kv' pc')
  from lock_net_deliver [OF assms(2) kl_deliver(2,1)] show ?thesis .
next
  case (kl_lose c pc')
  from lock_net_lose [OF assms(2) kl_lose(2,1)] show ?thesis .
next
  case (kl_abandon c a rt)
  from lock_net_abandon [OF assms(2) kl_abandon(2,1)] show ?thesis .
next
  case (kl_late a)
  from lock_net_late [OF assms(2) kl_late(2,1)] show ?thesis .
next
  case kl_pass
  have "lrel A' s L" by (rule lrel_pass [OF assms(2), where n = "Suc (now (kl_sys A))"]) (simp_all add: kl_pass)
  then show ?thesis by blast
qed

subsection \<open>What a client does\<close>

text \<open>The clerk state with which a call starts.\<close>

definition fresh :: "ClerkPc \<Rightarrow> bool" where
  "fresh ck \<longleftrightarrow> ck = Idle \<or> (\<exists>k. ck = Clerk_Get k) \<or> (\<exists>k v n. ck = Clerk_Put k v n)"

definition fresh_pc :: "LockPc \<Rightarrow> bool" where
  "fresh_pc pc \<longleftrightarrow> clerk_fits pc (lock_clerk pc) \<and> fresh (lock_clerk pc)"

lemma fresh_pcs:
  "fresh_pc (snd (MakeLock k i))" "fresh_pc (Acquire lk)" "fresh_pc (Release lk)"
  by (auto simp: fresh_pc_def fresh_def MakeLock_def Acquire_def Release_def Clerk_Get_def Clerk_Put_def)

lemma resume_fresh:
  assumes "clerk_fits pc ck" "call_returned ck = Some res"
  shows "fresh_pc (snd (lock_resume lk pc res))" "lk_key (fst (lock_resume lk pc res)) = lk_key lk"
    "lock_resume lk (with_clerk pc ck) res = lock_resume lk pc res"
  using assms
  by (cases "(lk, pc, res)" rule: lock_resume.cases; cases ck rule: call_returned.cases;
      auto simp: fresh_pcs(2) fresh_pc_def fresh_def Acquire_def Clerk_Get_def Clerk_Put_def)+

lemma with_own_clerk [simp]: "with_clerk pc (lock_clerk pc) = pc"
  by (cases pc) simp_all

text \<open>A call of a clerk that is idle, in the network and in the system above it.\<close>

definition called :: "KvLate \<Rightarrow> nat \<Rightarrow> ClerkPc \<Rightarrow> KvLate \<Rightarrow> bool" where
  "called A c ck A' \<longleftrightarrow> srv (kl_sys A') = srv (kl_sys A) \<and> pcs (kl_sys A') = (pcs (kl_sys A))(c := ck) \<and>
     kl_late A' = kl_late A \<and> now (kl_sys A) \<le> now (kl_sys A') \<and> (ck = Idle \<or> now (kl_sys A) < now (kl_sys A'))"

lemma start_call_rel:
  assumes g: "gob_ok enc dec" and inv: "kn_inv enc dec kv" and rel: "kn_rel enc dec kv A"
    and idle: "kn_clerks kv c = NIdle" and ck: "fresh ck" and st: "start_call enc kv c ck = Some kv'"
  shows "kn_inv enc dec kv' \<and> (\<exists>A'. kn_rel enc dec kv' A' \<and> called A c ck A')"
proof -
  have keep: "kn_inv enc dec kv'" if "net_act enc dec kv a = Some kv'" for a
    by (rule kn_inv_step [OF g inv]) (use that in \<open>auto simp: kn_step_def\<close>)
  from ck consider "ck = Idle" | k where "ck = Clerk_Get k" | k v n where "ck = Clerk_Put k v n" by (auto simp: fresh_def)
  then show ?thesis
  proof cases
    case 1
    with st inv rel idle_abs [OF rel idle] show ?thesis by (auto simp: called_def fun_upd_idem)
  next
    case (2 k)
    with st have n: "net_Get enc kv c k = Some kv'" by (simp add: Clerk_Get_def)
    from keep [of "NCallGet c k"] net_Get_rel [OF inv rel idle n] n idle 2 show ?thesis
      by (auto simp: called_def begin_op_def)
  next
    case (3 k v n)
    with st have n: "net_Put enc kv c k v n = Some kv'" by (simp add: Clerk_Put_def)
    from keep [of "NCallPut c k v n"] net_Put_rel [OF g inv rel idle n] n idle 3 show ?thesis
      by (auto simp: called_def begin_op_def)
  qed
qed

lemma lrel_goto:
  assumes rel: "lrel A s L" and c: "c < ln_n s" and A': "srv (kl_sys A') = srv (kl_sys A)"
      "pcs (kl_sys A') = (pcs (kl_sys A))(c := lock_clerk pc)" "kl_late A' = kl_late A"
    and pc: "fresh_pc pc" and lk: "lk_key lk = lk_key (ln_lock s c)"
    and L': "L' = L\<lparr>ls_lock := (ls_lock L)(c := lk), ls_pc := (ls_pc L)(c := pc), ls_now := n\<rparr>" "n \<le> now (kl_sys A')"
  shows "lrel A' (s\<lparr>ln_kv := kv', ln_lock := (ln_lock s)(c := lk), ln_pc := (ln_pc s)(c \<mapsto> pc)\<rparr>) L'"
proof -
  note R = lrelD [OF rel]
  let ?s = "s\<lparr>ln_kv := kv', ln_lock := (ln_lock s)(c := lk), ln_pc := (ln_pc s)(c \<mapsto> pc)\<rparr>"
  have key: "other_key ?s k = other_key s k" for k using lk by (auto simp: other_key_iff)
  have "ls_pc L' d = pc_view (ln_lock ?s d) (ln_pc ?s d) (pcs (kl_sys A') d) \<and> pc_fits (ln_lock ?s d) (ln_pc ?s d) (pcs (kl_sys A') d)"
    if "d < ln_n s" for d
    using R(5,6) [OF that] pc by (auto simp: A' L' pc_view_def pc_fits_def fresh_pc_def)
  moreover have "other_key s (pa_Key b)" if "ln_n s \<le> d" "pcs (kl_sys A') d = InPut b rt st" for d b rt st
    using R(7) [OF that(1)] that c by (auto simp: A')
  ultimately show ?thesis using R(1-3,8) L'(2) A'(1,3) unfolding lrel_def key by (simp add: L'(1))
qed

text \<open>A client that is in no clerk call goes on; the lock client of \<open>LockSrv\<close> follows, or is there already.\<close>

lemma ln_goto_rel:
  assumes g: "gob_ok enc dec" and kv: "kn_inv enc dec kv" "kn_rel enc dec kv A" "kn_clerks kv c = NIdle"
    and rel: "lrel A0 s L" "called A0 c Idle A" and c: "c < ln_n s" and pc: "fresh_pc (snd x)" and lk: "lk_key (fst x) = lk_key (ln_lock s c)"
    and L': "L' = L\<lparr>ls_lock := (ls_lock L)(c := fst x), ls_pc := (ls_pc L)(c := snd x), ls_now := n\<rparr>"
      "n \<le> Suc (now (kl_sys A))" "snd x = LkReady \<Longrightarrow> n \<le> now (kl_sys A)"
    and t: "ln_goto enc s kv c x = Some t"
  shows "kn_inv enc dec (ln_kv t) \<and> ln_rel enc dec t L'"
proof -
  from t obtain kv' where st: "start_call enc kv c (lock_clerk (snd x)) = Some kv'"
    and t: "t = s\<lparr>ln_kv := kv', ln_lock := (ln_lock s)(c := fst x), ln_pc := (ln_pc s)(c \<mapsto> snd x)\<rparr>"
    by (auto simp: ln_goto_def bind_eq_Some_conv)
  from pc have "fresh (lock_clerk (snd x))" by (simp add: fresh_pc_def)
  from start_call_rel [OF g kv this st] obtain A' where inv: "kn_inv enc dec kv'" and A': "kn_rel enc dec kv' A'"
    "called A c (lock_clerk (snd x)) A'" by blast
  have "snd x = LkReady" if "lock_clerk (snd x) = Idle" using that pc by (cases "snd x") (auto simp: fresh_pc_def)
  with A'(2) L'(2,3) have "n \<le> now (kl_sys A')" by (fastforce simp: called_def)
  with A'(2) rel(2) have "lrel A' t L'"
    unfolding t by (intro lrel_goto [OF rel(1) c _ _ _ pc lk L'(1)]) (simp_all add: called_def)
  with A'(1) inv show ?thesis by (auto simp: ln_rel_def t)
qed

lemma called_refl: "pcs (kl_sys A) c = Idle \<Longrightarrow> called A c Idle A"
  by (simp add: called_def fun_upd_idem)

text \<open>Clients without a call in progress have idle clerks.\<close>

lemma ready_idle:
  assumes "kn_rel enc dec kv A" "lrel A s L" "c < ln_n s" "ln_pc s c = None \<or> ln_pc s c = Some LkReady"
  shows "pcs (kl_sys A) c = Idle" "kn_clerks kv c = NIdle"
proof -
  show idle: "pcs (kl_sys A) c = Idle" using lrelD(6) [OF assms(2,3)] assms(4) by (auto simp: pc_fits_def)
  with assms(1) show "kn_clerks kv c = NIdle" by (cases "kn_clerks kv c") (auto simp: kn_rel_def)
qed

lemma ln_call_sim:
  assumes g: "gob_ok enc dec" and inv: "kn_inv enc dec (ln_kv s)" and rel: "kn_rel enc dec (ln_kv s) A" "lrel A s L"
    and c: "c < ln_n s" "ln_pc s c = None \<or> ln_pc s c = Some LkReady"
    and x: "fresh_pc (snd x)" "fst x = ln_lock s c" and t: "ln_goto enc s (ln_kv s) c x = Some t"
    and stay: "\<not> lock_step L (set_client L c (ls_srv L) (ls_lock L c) (snd x)) \<Longrightarrow> ls_pc L c = snd x"
      "snd x = LkReady \<Longrightarrow> ls_pc L c = LkReady"
  shows "kn_inv enc dec (ln_kv t) \<and> (\<exists>L'. lock_stutter L L' \<and> ln_rel enc dec t L')"
proof -
  note R = lrelD [OF rel(2)]
  note idle = ready_idle [OF rel c]
  note sim = ln_goto_rel [OF g inv rel(1) idle(2) rel(2) called_refl [OF idle(1)] c(1) x(1) _ _ _ _ t]
  show ?thesis
  proof (cases "ls_pc L c = snd x")
    case True
    have L: "L = L\<lparr>ls_lock := (ls_lock L)(c := fst x), ls_pc := (ls_pc L)(c := snd x), ls_now := ls_now L\<rparr>"
      using True x(2) R(2) by (simp add: fun_upd_idem)
    have "kn_inv enc dec (ln_kv t) \<and> ln_rel enc dec t L" by (rule sim [OF _ L]) (use R(4) x(2) in auto)
    then show ?thesis by blast
  next
    case False
    let ?L = "set_client L c (ls_srv L) (ls_lock L c) (snd x)"
    have L: "?L = L\<lparr>ls_lock := (ls_lock L)(c := fst x), ls_pc := (ls_pc L)(c := snd x), ls_now := Suc (ls_now L)\<rparr>"
      using x(2) R(2) by (simp add: set_client_def)
    have "kn_inv enc dec (ln_kv t) \<and> ln_rel enc dec t ?L" by (rule sim [OF _ L]) (use R(4) x(2) False stay in auto)
    with False stay(1) show ?thesis by blast
  qed
qed

lemma ln_return_sim:
  assumes g: "gob_ok enc dec" and inv: "kn_inv enc dec (ln_kv s)" and rel: "kn_rel enc dec (ln_kv s) A" "lrel A s L"
    and c: "c < ln_n s" and t: "ln_return enc dec s c = Some t"
  shows "kn_inv enc dec (ln_kv t) \<and> (\<exists>L'. lock_stutter L L' \<and> ln_rel enc dec t L')"
proof -
  note R = lrelD [OF rel(2)]
  from t obtain p ans where p: "ln_pc s c = Some p" and ans: "clerk_answer dec (ln_kv s) c = Some ans"
    by (auto simp: ln_return_def bind_eq_Some_conv)
  show ?thesis
  proof (cases ans)
    case None
    with t p ans obtain kv' where a: "clerk_again enc (ln_kv s) c = Some kv'" and t: "t = s\<lparr>ln_kv := kv'\<rparr>"
      by (auto simp: ln_return_def bind_eq_Some_conv)
    from net_sim_again [OF g inv rel(1) a] obtain A' where A': "kl_net A A'" "kn_rel enc dec kv' A'" by blast
    from lock_net_moves [OF A'(1) rel(2)] obtain L' where L': "lock_stutter L L'" "lrel A' s L'" by blast
    with A'(2) have "ln_rel enc dec t L'" by (auto simp: ln_rel_def t)
    with L'(1) kn_inv_again [OF inv a] show ?thesis by (auto simp: t)
  next
    case (Some res)
    let ?kv = "net_end (ln_kv s) c (clerk_input (kn_clerks (ln_kv s) c)) res" and ?x = "lock_resume (ln_lock s c) p res"
    let ?A = "A\<lparr>kl_sys := end_op (kl_sys A) c res\<rparr>"
    from t p ans Some have t: "ln_goto enc s ?kv c ?x = Some t" by (simp add: ln_return_def)
    note E = net_end_rel [OF inv rel(1) ans [unfolded Some]]
    have fits: "clerk_fits p (pcs (kl_sys A) c)" using R(6) [OF c] p by (simp add: pc_fits_def)
    note F = resume_fresh [OF fits E(2)]
    have "pcs (kl_sys A) c \<noteq> Idle" using E(2) by auto
    from lrel_busy [OF rel(2) c this] obtain q where "ln_pc s c = Some q" "ls_pc L c = with_clerk q (pcs (kl_sys A) c)"
      "lock_clerk (ls_pc L c) = pcs (kl_sys A) c" .
    with p have pc: "ls_pc L c = with_clerk p (pcs (kl_sys A) c)" "lock_clerk (ls_pc L c) = pcs (kl_sys A) c" by simp_all
    let ?L = "set_client L c (ls_srv L) (fst ?x) (snd ?x)"
    have "lock_step L ?L" by (rule lock_return) (use c R(1,2) pc E(2) F(3) in simp_all)
    moreover have "kn_inv enc dec (ln_kv t) \<and> ln_rel enc dec t ?L"
    proof (rule ln_goto_rel [OF g kn_inv_end [OF inv] E(1) _ rel(2) _ c F(1,2) _ _ _ t])
      show "?L = L\<lparr>ls_lock := (ls_lock L)(c := fst ?x), ls_pc := (ls_pc L)(c := snd ?x), ls_now := Suc (ls_now L)\<rparr>"
        by (simp add: set_client_def)
    qed (use R(4) in \<open>simp_all add: net_end_def called_def end_op_def\<close>)
    ultimately show ?thesis by blast
  qed
qed

text \<open>The network, the tester and the other applications.\<close>

lemma lrel_others_call:
  assumes rel: "lrel A s L" and c: "ln_n s \<le> c" and A': "called A c ck A'"
    and ck: "\<And>a rt st. ck = InPut a rt st \<Longrightarrow> other_key s (pa_Key a)"
  shows "lrel A' s L"
proof -
  note R = lrelD [OF rel]
  have "pcs (kl_sys A') d = pcs (kl_sys A) d" if "d < ln_n s" for d using A' c that by (simp add: called_def)
  moreover have "other_key s (pa_Key b)" if "ln_n s \<le> d" "pcs (kl_sys A') d = InPut b rt st" for d b rt st
    using R(7) [OF that(1)] that ck A' by (auto simp: called_def split: if_splits)
  moreover have "ls_now L \<le> now (kl_sys A')" using R(4) A' by (auto simp: called_def)
  ultimately show ?thesis using R A' unfolding lrel_def by (auto simp: called_def)
qed

lemma ln_others_sim:
  assumes g: "gob_ok enc dec" and inv: "kn_inv enc dec (ln_kv s)" and rel: "kn_rel enc dec (ln_kv s) A" "lrel A s L"
    and o: "others_act s a" and t: "net_act enc dec (ln_kv s) a = Some kv'"
  shows "\<exists>L'. lock_stutter L L' \<and> ln_rel enc dec (s\<lparr>ln_kv := kv'\<rparr>) L'"
proof -
  have net: ?thesis if "\<exists>A'. kl_net A A' \<and> kn_rel enc dec kv' A'"
    using that lock_net_moves [OF _ rel(2)] by (fastforce simp: ln_rel_def)
  have same: ?thesis if "kn_rel enc dec kv' A'" "called A c ck A'" "ln_n s \<le> c"
      "\<And>a rt st. ck = InPut a rt st \<Longrightarrow> other_key s (pa_Key a)" for A' c ck
  proof -
    have "lrel A' s L" by (rule lrel_others_call [OF rel(2) that(3,2)]) (rule that(4))
    with that(1) show ?thesis by (auto simp: ln_rel_def)
  qed
  show ?thesis
  proof (cases a)
    case (NCallGet c key)
    with t o have n: "kn_clerks (ln_kv s) c = NIdle" "net_Get enc (ln_kv s) c key = Some kv'" "ln_n s \<le> c" by (auto split: if_splits)
    show ?thesis
      by (rule same [OF net_Get_rel [OF inv rel(1) n(1,2)], of c "Clerk_Get key"])
        (use n(3) in \<open>auto simp: called_def begin_op_def Clerk_Get_def\<close>)
  next
    case (NCallPut c key val version)
    with t o have n: "kn_clerks (ln_kv s) c = NIdle" "net_Put enc (ln_kv s) c key val version = Some kv'" "ln_n s \<le> c"
      "other_key s key" by (auto split: if_splits)
    show ?thesis
      by (rule same [OF net_Put_rel [OF g inv rel(1) n(1,2)], of c "Clerk_Put key val version"])
        (use n(3,4) in \<open>auto simp: called_def begin_op_def Clerk_Put_def\<close>)
  next
    case (NReturn c)
    with t have "net_return enc dec (ln_kv s) c = Some kv'" by simp
    then show ?thesis
    proof (cases rule: net_return_cases)
      case (ended res)
      show ?thesis
        by (rule same [OF net_end_rel(1) [OF inv rel(1) ended(1), folded ended(2)], of c Idle])
          (use o NReturn in \<open>auto simp: called_def end_op_def\<close>)
    next
      case again
      from net [OF net_sim_again [OF g inv rel(1) again(2)]] show ?thesis .
    qed
  next
    case (NReq i b)
    with t obtain rn' p' where i: "i < length (kn_reqs (ln_kv s))"
      and b: "req_act enc dec (kn_net (ln_kv s)) (kn_reqs (ln_kv s) ! i) b = Some (rn', p')"
      and kv': "kv' = (ln_kv s)\<lparr>kn_net := rn', kn_reqs := (kn_reqs (ln_kv s))[i := p'], kn_now := Suc (kn_now (ln_kv s))\<rparr>"
      by (auto simp: bind_eq_Some_conv split: if_splits)
    from net [unfolded kv', OF net_sim_req [OF g inv rel(1) i b]] show ?thesis unfolding kv' .
  next
    case (NConfig cf)
    with t have kv': "kv' = (ln_kv s)\<lparr>kn_net := configure (kn_net (ln_kv s)) cf, kn_now := Suc (kn_now (ln_kv s))\<rparr>" by simp
    from net [unfolded kv', OF net_sim_config [OF inv rel(1)]] show ?thesis unfolding kv' .
  qed
qed

lemma ln_sim_step:
  assumes g: "gob_ok enc dec" and inv: "kn_inv enc dec (ln_kv s)" and rel: "ln_rel enc dec s L" and st: "ln_step enc dec s t"
  shows "kn_inv enc dec (ln_kv t) \<and> (\<exists>L'. lock_stutter L L' \<and> ln_rel enc dec t L')"
proof -
  from rel obtain A where A: "kn_rel enc dec (ln_kv s) A" "lrel A s L" by (auto simp: ln_rel_def)
  note R = lrelD [OF A(2)]
  from st obtain a where t: "ln_act enc dec s a = Some t" by (auto simp: ln_step_def)
  show ?thesis
  proof (cases a)
    case (LnMake c)
    with t have c: "c < ln_n s" "ln_pc s c = None"
      and t: "ln_goto enc s (ln_kv s) c (MakeLock (lk_key (ln_lock s c)) (lk_id (ln_lock s c))) = Some t" by (auto split: if_splits)
    have "ls_pc L c = snd (MakeLock (lk_key (ln_lock s c)) (lk_id (ln_lock s c)))"
      "fst (MakeLock (lk_key (ln_lock s c)) (lk_id (ln_lock s c))) = ln_lock s c"
      using R(5,6) [OF c(1)] c(2) by (simp_all add: pc_view_def pc_fits_def)
    then show ?thesis by (intro ln_call_sim [OF g inv A c(1) _ fresh_pcs(1) _ t]) (use c in auto)
  next
    case (LnAcquire c)
    with t have c: "c < ln_n s" "ln_pc s c = Some LkReady"
      and t: "ln_goto enc s (ln_kv s) c (ln_lock s c, Acquire (ln_lock s c)) = Some t" by (auto split: if_splits)
    have pc: "ls_pc L c = LkReady" using R(5) [OF c(1)] c(2) by (simp add: pc_view_def)
    show ?thesis
      by (rule ln_call_sim [OF g inv A c(1) _ _ _ t])
        (use c pc R(1,2) acquire [of c L] fresh_pcs(2) in \<open>simp_all add: Acquire_def\<close>)
  next
    case (LnRelease c)
    with t have c: "c < ln_n s" "ln_pc s c = Some LkReady"
      and t: "ln_goto enc s (ln_kv s) c (ln_lock s c, Release (ln_lock s c)) = Some t" by (auto split: if_splits)
    have pc: "ls_pc L c = LkReady" using R(5) [OF c(1)] c(2) by (simp add: pc_view_def)
    show ?thesis
      by (rule ln_call_sim [OF g inv A c(1) _ _ _ t]) (use c pc R(1,2) release [of c L] fresh_pcs(3) in simp_all)
  next
    case (LnReturn c)
    with t have "c < ln_n s" "ln_return enc dec s c = Some t" by (auto split: if_splits)
    from ln_return_sim [OF g inv A this] show ?thesis .
  next
    case (LnNet b)
    with t obtain kv' where o: "others_act s b" and b: "net_act enc dec (ln_kv s) b = Some kv'" and t: "t = s\<lparr>ln_kv := kv'\<rparr>"
      by (auto simp: bind_eq_Some_conv split: if_splits)
    have "kn_inv enc dec kv'" by (rule kn_inv_step [OF g inv]) (use b in \<open>auto simp: kn_step_def\<close>)
    with ln_others_sim [OF g inv A o b] show ?thesis unfolding t by simp
  qed
qed

lemma ln_rel_init: "ln_rel enc dec (ln_init n keys ids) (lock_init n keys ids)"
proof -
  have "lrel kl_init (ln_init n keys ids) (lock_init n keys ids)"
    by (auto simp: lrel_def kl_init_def kv_init_def ln_init_def lock_init_def pc_view_def pc_fits_def MakeLock_def)
  then show ?thesis using kn_rel_init by (auto simp: ln_rel_def ln_init_def)
qed

lemma ln_simulation:
  assumes "gob_ok enc dec"
  shows "simulation (ln_init n keys ids) (ln_step enc dec) (lock_init n keys ids) lock_stutter
    (\<lambda>_. True) (\<lambda>s L. kn_inv enc dec (ln_kv s) \<and> ln_rel enc dec s L)"
proof (unfold_locales, goal_cases)
  case 1
  show ?case using ln_rel_init kn_inv_init by (simp add: ln_init_def)
next
  case (4 s L t)
  then have "kn_inv enc dec (ln_kv s)" "ln_rel enc dec s L" by simp_all
  from ln_sim_step [OF assms this 4(3)] show ?case by blast
qed simp_all

subsection \<open>Mutual exclusion in the network\<close>

lemma ln_cs_rel:
  assumes "ln_rel enc dec s L"
  shows "ln_in_cs s c \<Longrightarrow> in_cs L c" "ls_now L \<le> kn_now (ln_kv s)"
proof -
  from assms obtain A where A: "kn_rel enc dec (ln_kv s) A" "lrel A s L" by (auto simp: ln_rel_def)
  note R = lrelD [OF A(2)]
  show "in_cs L c" if "ln_in_cs s c"
    using that R(5) [of c] R(1,2) by (simp add: ln_in_cs_def in_cs_def pc_view_def)
  show "ls_now L \<le> kn_now (ln_kv s)" using R(4) A(1) by (simp add: kn_rel_def)
qed

text \<open>
  \<^bold>\<open>C5\<close>: Mutual exclusion, end to end. Any number of clients call \<open>MakeLock\<close>, \<open>Acquire\<close> and \<open>Release\<close> over
  clerks, the simulated network and the key/value server, while the network loses, delays and reorders
  requests and replies and runs handlers of requests it has given up, the tester cuts off ends and removes
  and restores the server, and other clerks use other keys. Two clients of the same lock are never both
  between a return of \<open>Acquire\<close> and the next call of \<open>Release\<close>. The encoder is assumed to decode what it
  encodes, and the identifiers, drawn by \<open>RandValue(16)\<close>, to be distinct.
\<close>

theorem lock_net_mutual_exclusion:
  assumes "gob_ok enc dec" and "reach (ln_init n keys ids) (ln_step enc dec) s" and "kn_now (ln_kv s) < 2 ^ 64"
    and "\<And>c. ids c = RandValue (rnd c) 16" and "inj_on ids {..<n}"
    and "ln_in_cs s c" and "ln_in_cs s d" and "keys c = keys d"
  shows "c = d"
proof -
  obtain L where L: "reach (lock_init n keys ids) lock_stutter L" "ln_rel enc dec s L"
    using simulation.reach_simulates [OF ln_simulation [OF assms(1)] assms(2)] by blast
  from reach_stutter [OF L(1)] have r: "reach (lock_init n keys ids) lock_step L" .
  have now: "ls_now L < 2 ^ 64" using ln_cs_rel(2) [OF L(2)] assms(3) by simp
  from lock_reach_inv [OF r now assms(4,5)] have inv: "lock_inv keys ids L" and n: "ls_n L = n" by auto
  note cs = ln_cs_rel(1) [OF L(2) assms(6)] ln_cs_rel(1) [OF L(2) assms(7)]
  from in_cs_owns [OF inv cs(1)] in_cs_owns [OF inv cs(2)] assms(8) have "ids c = ids d" by (simp add: owns_def)
  with assms(5) cs n show ?thesis by (auto simp: in_cs_def dest: inj_onD)
qed

text \<open>
  Client 0 makes the lock and acquires it; the \<open>Put\<close> of its \<open>Acquire\<close> is given up when its end is disabled,
  its handler runs late, and the repetition is refused: the client learns of its success by the check after
  \<open>ErrMaybe\<close>. Client 1 makes its lock and tries, and clerk 2 writes another key.
\<close>

definition ln_handle :: "nat \<Rightarrow> ln_action list" where
  "ln_handle i = map LnNet (handle i)"

definition lock_net_run :: "ln_action list" where
  "lock_net_run = map LnNet (plug_in 0 @ plug_in 1 @ plug_in 2) @
     LnMake 0 # ln_handle 0 @ LnReturn 0 # LnMake 1 # ln_handle 1 @ LnReturn 1 #
     LnAcquire 0 # ln_handle 2 @ LnReturn 0 #
     map LnNet [NReq 3 (DoRoute 500), NConfig (SetEnabled 0 False), NReq 3 DoPoll, NReq 3 (DoFinish 500 700),
       NConfig (SetEnabled 0 True)] @ LnReturn 0 # LnNet (NReq 3 DoExecute) #
     ln_handle 4 @ LnReturn 0 # ln_handle 5 @ LnReturn 0 #
     LnAcquire 1 # ln_handle 6 @ LnReturn 1 # LnNet (NCallPut 2 ''other'' ''v'' 0) # ln_handle 8 @ [LnNet (NReturn 2)]"

definition drawn_ids :: "nat \<Rightarrow> string" where
  "drawn_ids c = (if c = 0 then ''aaaaaaaaaaaaaaaa'' else ''bbbbbbbbbbbbbbbb'')"

lemma drawn_ids_RandValue: "drawn_ids c = RandValue (\<lambda>_. if c = 0 then 0 else 1) 16"
  by (simp add: drawn_ids_def RandValue_def letterBytes_def upt_rec)

lemma drawn_ids_inj: "inj_on drawn_ids {..<2}"
  by (auto simp: inj_on_def drawn_ids_def)

definition lock_net_view :: "ln_action list \<Rightarrow> (bool \<times> bool \<times> nat) option" where
  "lock_net_view as = map_option (\<lambda>s. (ln_in_cs s 0, lk_held (ln_lock s 1), kn_now (ln_kv s)))
     (run (ln_act kv_enc kv_dec) (ln_init 2 (\<lambda>_. ''l'') drawn_ids) as)"

lemma lock_net_evaluates: "lock_net_view lock_net_run = Some (True, False, 56)"
  by code_simp

theorem lock_net_mutual_exclusion_witness:
  "\<exists>s. gob_ok kv_enc kv_dec \<and> reach (ln_init 2 (\<lambda>_. ''l'') drawn_ids) (ln_step kv_enc kv_dec) s \<and>
    kn_now (ln_kv s) < 2 ^ 64 \<and> ln_in_cs s 0 \<and> \<not> ln_in_cs s 1"
proof -
  from lock_net_evaluates obtain s where s: "run (ln_act kv_enc kv_dec) (ln_init 2 (\<lambda>_. ''l'') drawn_ids) lock_net_run = Some s"
    "ln_in_cs s 0" "kn_now (ln_kv s) = 56" by (auto simp: lock_net_view_def)
  have r: "reach (ln_init 2 (\<lambda>_. ''l'') drawn_ids) (ln_step kv_enc kv_dec) s"
    by (rule run_reach [OF reach_init s(1)]) (auto simp: ln_step_def)
  have "\<not> ln_in_cs s 1"
    using lock_net_mutual_exclusion [OF kv_gob_ok r _ drawn_ids_RandValue drawn_ids_inj s(2), of 1] s(3) by auto
  with r s kv_gob_ok show ?thesis by (intro exI [of _ s]) simp
qed

end
