(* ===== verification/ShardCfg.thy ===== *)
theory ShardCfg
  imports Prelude
begin

unbundle bit_operations_syntax

text \<open>
  The assignment of shards to replica groups, \<open>src/shardkv1/shardcfg/shardcfg.go\<close>.

  \<open>Tgid\<close>, \<open>Tnum\<close> and \<open>Tshid\<close> are Go ints. The array \<open>Shards\<close> is a list of length \<open>NShards\<close>, the map
  \<open>Groups\<close> an association list with distinct keys. Go iterates over a map in an order of its own
  choice: the map given to \<open>Join\<close> is a list in the order of that iteration, and the theorems hold for
  every such list. \<open>log.Fatalf\<close> and \<open>t.Fatalf\<close> end the process: \<^term>\<open>None\<close>.
\<close>

type_synonym Tgid = int
type_synonym Tshid = int

definition NShards :: nat where "NShards = 12"

definition NumFirst :: int where "NumFirst = 1"

definition Gid1 :: Tgid where "Gid1 = 1"

text \<open>\<open>hash/fnv\<close>, 32-bit FNV-1a: exclusive or with the next byte, then a multiplication that wraps.\<close>

definition fnv_step :: "32 word \<Rightarrow> 8 word \<Rightarrow> 32 word" where
  "fnv_step h b = (h XOR ucast b) * 16777619"

definition fnv32a :: "8 word list \<Rightarrow> 32 word" where
  "fnv32a bs = foldl fnv_step 2166136261 bs"

definition Key2Shard :: "8 word list \<Rightarrow> Tshid" where
  "Key2Shard key = uint (fnv32a key) mod int NShards"

record ShardConfig =
  cfg_Num :: int
  cfg_Shards :: "Tgid list"
  cfg_Groups :: "(Tgid \<times> string list) list"

definition MakeShardConfig :: ShardConfig where
  "MakeShardConfig = \<lparr>cfg_Num = 0, cfg_Shards = replicate NShards 0, cfg_Groups = []\<rparr>"

text \<open>\<open>make\<close> and \<open>copy\<close> of a slice give an equal one.\<close>

definition Copy :: "ShardConfig \<Rightarrow> ShardConfig" where
  "Copy cfg = MakeShardConfig\<lparr>cfg_Num := cfg_Num cfg, cfg_Shards := cfg_Shards cfg,
     cfg_Groups := map (\<lambda>(k, srvs). (k, take (length srvs) srvs)) (cfg_Groups cfg)\<rparr>"

definition gids :: "ShardConfig \<Rightarrow> Tgid list" where
  "gids c = map fst (cfg_Groups c)"

subsection \<open>Balancing\<close>

definition counts :: "ShardConfig \<Rightarrow> Tgid \<Rightarrow> int" where
  "counts c g = int (count_list (cfg_Shards c) g)"

fun analyze_loop :: "(Tgid \<Rightarrow> int) \<Rightarrow> Tgid list \<Rightarrow> Tgid \<times> int \<times> Tgid \<times> int \<Rightarrow> Tgid \<times> int \<times> Tgid \<times> int" where
  "analyze_loop cnt [] r = r"
| "analyze_loop cnt (g # gs) (mg, mn, lg, ln) =
     (let (lg, ln) = (if cnt g < ln then (g, cnt g) else (lg, ln));
          (mg, mn) = (if cnt g > mn then (g, cnt g) else (mg, mn))
      in analyze_loop cnt gs (mg, mn, lg, ln))"

definition analyze :: "ShardConfig \<Rightarrow> Tgid \<times> int \<times> Tgid \<times> int" where
  "analyze c = analyze_loop (counts c) (sort (gids c)) (-1, -1, -1, 257)"

definition least_group :: "ShardConfig \<Rightarrow> Tgid" where
  "least_group c = (case analyze c of (_, _, lg, _) \<Rightarrow> lg)"

text \<open>The loop that assigns the unassigned shards, from shard \<open>s\<close> on.\<close>

fun assign_loop :: "nat list \<Rightarrow> ShardConfig \<Rightarrow> ShardConfig" where
  "assign_loop [] c = c"
| "assign_loop (s # ss) c =
     (if cfg_Shards c ! s \<in> set (gids c) then assign_loop ss c
      else assign_loop ss (c\<lparr>cfg_Shards := (cfg_Shards c)[s := least_group c]\<rparr>))"

text \<open>Moves the first shard of \<open>mg\<close> to \<open>lg\<close>.\<close>

fun move_first :: "Tgid \<Rightarrow> Tgid \<Rightarrow> Tgid list \<Rightarrow> Tgid list" where
  "move_first mg lg [] = []"
| "move_first mg lg (g # gs) = (if g = mg then lg # gs else g # move_first mg lg gs)"

lemma count_list_pos: "x \<in> set xs \<longleftrightarrow> 0 < count_list xs x"
  using count_list_0_iff [of xs x] by auto

lemma count_move_first:
  "mg \<in> set gs \<Longrightarrow> count_list (move_first mg lg gs) x + (if x = mg then 1 else 0) =
     count_list gs x + (if x = lg then 1 else 0)"
proof (induction gs)
  case (Cons g gs)
  then show ?case by (cases "g = mg") (auto split: if_splits)
qed simp

lemma length_move_first [simp]: "length (move_first mg lg gs) = length gs"
  by (induction gs) auto

text \<open>What the scan finds.\<close>

lemma analyze_loop_spec:
  assumes "analyze_loop cnt gs (mg0, mn0, lg0, ln0) = (mg, mn, lg, ln)"
  shows "mn0 \<le> mn \<and> ln \<le> ln0 \<and> (\<forall>g \<in> set gs. cnt g \<le> mn \<and> ln \<le> cnt g)
    \<and> ((mg, mn) = (mg0, mn0) \<or> mg \<in> set gs \<and> cnt mg = mn) \<and> ((lg, ln) = (lg0, ln0) \<or> lg \<in> set gs \<and> cnt lg = ln)"
  using assms
proof (induction gs arbitrary: mg0 mn0 lg0 ln0)
  case (Cons g gs)
  define lg1 ln1 where "lg1 = (if cnt g < ln0 then g else lg0)" and "ln1 = (if cnt g < ln0 then cnt g else ln0)"
  define mg1 mn1 where "mg1 = (if cnt g > mn0 then g else mg0)" and "mn1 = (if cnt g > mn0 then cnt g else mn0)"
  have "analyze_loop cnt gs (mg1, mn1, lg1, ln1) = (mg, mn, lg, ln)"
    using Cons.prems by (auto simp: lg1_def ln1_def mg1_def mn1_def Let_def split: if_splits)
  from Cons.IH [OF this] show ?case
    by (auto simp: lg1_def ln1_def mg1_def mn1_def split: if_splits)
qed simp

lemma analyze_spec:
  assumes "analyze c = (mg, mn, lg, ln)"
  shows "ln \<le> 257" "-1 \<le> mn" "\<And>g. g \<in> set (gids c) \<Longrightarrow> counts c g \<le> mn \<and> ln \<le> counts c g"
    "(mg, mn) = (-1, -1) \<or> mg \<in> set (gids c) \<and> counts c mg = mn"
    "(lg, ln) = (-1, 257) \<or> lg \<in> set (gids c) \<and> counts c lg = ln"
  using analyze_loop_spec [OF assms [unfolded analyze_def]] by auto

text \<open>The imbalance that every move reduces.\<close>

definition imbalance :: "ShardConfig \<Rightarrow> nat" where
  "imbalance c = (\<Sum>g \<in> set (gids c). (count_list (cfg_Shards c) g)\<^sup>2)"

lemma count_bound: "count_list xs x \<le> length xs"
  by (induction xs) auto

text \<open>With fewer shards than the scan's initial minimum, a gap of two is a gap between two groups.\<close>

lemma analyze_gap:
  assumes "analyze c = (mg, mn, lg, ln)" "\<not> mn < ln + 2" "length (cfg_Shards c) < 257"
  shows "mg \<in> set (gids c)" "lg \<in> set (gids c)" "count_list (cfg_Shards c) lg + 2 \<le> count_list (cfg_Shards c) mg"
proof -
  note an = analyze_spec [OF assms(1)]
  have small: "counts c g < 257" for g using count_bound [of "cfg_Shards c" g] assms(3) by (simp add: counts_def)
  have l: "lg \<in> set (gids c) \<and> counts c lg = ln"
  proof (rule ccontr)
    assume "\<not> ?thesis"
    with an(5) have "ln = 257" by auto
    with an(4) assms(2) small [of mg] show False by auto
  qed
  moreover have "0 \<le> counts c lg" by (simp add: counts_def)
  ultimately have m: "mg \<in> set (gids c) \<and> counts c mg = mn" using an(4) assms(2) by auto
  from l m assms(2) show "mg \<in> set (gids c)" "lg \<in> set (gids c)"
    "count_list (cfg_Shards c) lg + 2 \<le> count_list (cfg_Shards c) mg" by (auto simp: counts_def)
qed

lemma squares_closer: "b + 2 \<le> a \<Longrightarrow> (a - 1)\<^sup>2 + (b + 1)\<^sup>2 < a\<^sup>2 + b\<^sup>2" for a b :: nat
proof -
  assume "b + 2 \<le> a"
  then obtain d where "a = b + 2 + d" using le_Suc_ex by blast
  then show ?thesis by (simp add: power2_eq_square algebra_simps)
qed

lemma move_reduces:
  assumes "analyze c = (mg, mn, lg, ln)" "\<not> mn < ln + 2" "length (cfg_Shards c) < 257"
  shows "imbalance (c\<lparr>cfg_Shards := move_first mg lg (cfg_Shards c)\<rparr>) < imbalance c"
proof -
  let ?n = "count_list (cfg_Shards c)" and ?m = "count_list (move_first mg lg (cfg_Shards c))"
  note gap = analyze_gap [OF assms]
  then have mem: "mg \<in> set (cfg_Shards c)" and ne: "mg \<noteq> lg" by (auto simp: count_list_pos)
  have m: "?m mg = ?n mg - 1" "?m lg = ?n lg + 1" "\<And>x. x \<noteq> mg \<Longrightarrow> x \<noteq> lg \<Longrightarrow> ?m x = ?n x"
    using ne count_move_first [OF mem, of lg] by (metis add.right_neutral add_diff_cancel_right')+
  let ?R = "set (gids c) - {mg} - {lg}"
  have split: "(\<Sum>g \<in> set (gids c). f g) = f mg + (f lg + (\<Sum>g \<in> ?R. f g))" for f :: "int \<Rightarrow> nat"
    using gap(1,2) ne by (simp add: sum.remove)
  have "(\<Sum>g \<in> ?R. (?m g)\<^sup>2) = (\<Sum>g \<in> ?R. (?n g)\<^sup>2)" using m(3) by (intro sum.cong) auto
  moreover have "imbalance (c\<lparr>cfg_Shards := move_first mg lg (cfg_Shards c)\<rparr>) = (\<Sum>g \<in> set (gids c). (?m g)\<^sup>2)"
    by (simp add: imbalance_def gids_def)
  ultimately show ?thesis
    using squares_closer [OF gap(3)] by (simp only: imbalance_def split m(1,2))
qed

text \<open>The loop of \<open>Rebalance\<close>; \<^term>\<open>None\<close> is a loop that does not end.\<close>

partial_function (option) balance_loop :: "ShardConfig \<Rightarrow> ShardConfig option" where
  "balance_loop c =
     (case analyze c of (mg, mn, lg, ln) \<Rightarrow>
        if mn < ln + 2 then Some c
        else balance_loop (c\<lparr>cfg_Shards := move_first mg lg (cfg_Shards c)\<rparr>))"

declare balance_loop.simps [code]

definition Rebalance :: "ShardConfig \<Rightarrow> ShardConfig option" where
  "Rebalance c =
     (if length (cfg_Groups c) < 1
      then Some (c\<lparr>cfg_Shards := map (\<lambda>_. 0) (cfg_Shards c)\<rparr>)
      else balance_loop (assign_loop [0..<length (cfg_Shards c)] c))"

subsection \<open>Changes of the configuration\<close>

fun join_loop :: "(Tgid \<times> string list) list \<Rightarrow> ShardConfig \<Rightarrow> (bool \<times> ShardConfig) option" where
  "join_loop [] cfg = Some (True, cfg)"
| "join_loop ((gid, servers) # rest) cfg =
     (if gid \<in> set (gids cfg) then Some (False, cfg)
      else if \<exists>(xgid, xservers) \<in> set (cfg_Groups cfg). \<exists>s1 \<in> set xservers. \<exists>s2 \<in> set servers. s1 = s2 then None
      else join_loop rest (cfg\<lparr>cfg_Groups := cfg_Groups cfg @ [(gid, servers)]\<rparr>))"

text \<open>The result of \<open>Join\<close> and the configuration it leaves, also when it returns false.\<close>

definition Join :: "ShardConfig \<Rightarrow> (Tgid \<times> string list) list \<Rightarrow> (bool \<times> ShardConfig) option" where
  "Join cfg servers = do {
     (ok, cfg) \<leftarrow> join_loop servers cfg;
     if \<not> ok then Some (False, cfg)
     else if servers = [] then None
     else Some (True, cfg\<lparr>cfg_Num := cfg_Num cfg + 1\<rparr>)
   }"

fun leave_loop :: "Tgid list \<Rightarrow> ShardConfig \<Rightarrow> bool \<times> ShardConfig" where
  "leave_loop [] cfg = (True, cfg)"
| "leave_loop (gid # rest) cfg =
     (if gid \<notin> set (gids cfg) then (False, cfg)
      else leave_loop rest (cfg\<lparr>cfg_Groups := filter (\<lambda>(k, _). k \<noteq> gid) (cfg_Groups cfg)\<rparr>))"

definition Leave :: "ShardConfig \<Rightarrow> Tgid list \<Rightarrow> (bool \<times> ShardConfig) option" where
  "Leave cfg gs =
     (case leave_loop gs cfg of (ok, cfg) \<Rightarrow>
        if \<not> ok then Some (False, cfg)
        else if gs = [] then None
        else Some (True, cfg\<lparr>cfg_Num := cfg_Num cfg + 1\<rparr>))"

definition JoinBalance :: "ShardConfig \<Rightarrow> (Tgid \<times> string list) list \<Rightarrow> (bool \<times> ShardConfig) option" where
  "JoinBalance cfg servers = do {
     (ok, cfg) \<leftarrow> Join cfg servers;
     if \<not> ok then Some (False, cfg) else do { cfg \<leftarrow> Rebalance cfg; Some (True, cfg) }
   }"

definition LeaveBalance :: "ShardConfig \<Rightarrow> Tgid list \<Rightarrow> (bool \<times> ShardConfig) option" where
  "LeaveBalance cfg gs = do {
     (ok, cfg) \<leftarrow> Leave cfg gs;
     if \<not> ok then Some (False, cfg) else do { cfg \<leftarrow> Rebalance cfg; Some (True, cfg) }
   }"

definition GidServers :: "ShardConfig \<Rightarrow> Tshid \<Rightarrow> (Tgid \<times> string list \<times> bool) option" where
  "GidServers cfg sh = do {
     gid \<leftarrow> go_nth (cfg_Shards cfg) sh;
     Some (case map_of (cfg_Groups cfg) gid of None \<Rightarrow> (gid, [], False) | Some srvs \<Rightarrow> (gid, srvs, True))
   }"

definition IsMember :: "ShardConfig \<Rightarrow> Tgid \<Rightarrow> bool" where
  "IsMember cfg gid = (\<exists>g \<in> set (cfg_Shards cfg). g = gid)"

text \<open>\<open>CheckConfig\<close> ends the test with \<open>Fatalf\<close> unless the configuration is as wanted.\<close>

definition CheckConfig :: "ShardConfig \<Rightarrow> Tgid list \<Rightarrow> unit option" where
  "CheckConfig cfg groups =
     (if length (cfg_Groups cfg) \<noteq> length groups then None
      else if \<exists>g \<in> set groups. g \<notin> set (gids cfg) then None
      else if length groups > 0 \<and> (\<exists>g \<in> set (cfg_Shards cfg). g \<notin> set (gids cfg)) then None
      else
        let mx = fold (\<lambda>g m. if counts cfg g > m then counts cfg g else m) (gids cfg) 0;
            mn = fold (\<lambda>g m. if counts cfg g < m then counts cfg g else m) (gids cfg) 257
        in if mx > mn + 1 then None else Some ())"

subsection \<open>Properties\<close>

text \<open>
  Every key belongs to one of the \<open>NShards\<close> shards.
\<close>

theorem key2shard_in_range: "0 \<le> Key2Shard key \<and> Key2Shard key < int NShards"
  by (simp add: Key2Shard_def NShards_def)

definition balanced :: "ShardConfig \<Rightarrow> bool" where
  "balanced c \<longleftrightarrow> (\<forall>g \<in> set (gids c). \<forall>g' \<in> set (gids c). counts c g \<le> counts c g' + 1)"

definition assigned :: "ShardConfig \<Rightarrow> bool" where
  "assigned c \<longleftrightarrow> set (cfg_Shards c) \<subseteq> set (gids c)"

lemma set_move_first: "set (move_first mg lg gs) \<subseteq> insert lg (set gs)"
  by (induction gs) auto

text \<open>The balancing loop ends, with balanced groups, and moves shards between groups only.\<close>

lemma balance_loop_ends:
  assumes "length (cfg_Shards c) < 257"
  shows "\<exists>xs. balance_loop c = Some (c\<lparr>cfg_Shards := xs\<rparr>) \<and> length xs = length (cfg_Shards c)
    \<and> balanced (c\<lparr>cfg_Shards := xs\<rparr>) \<and> (assigned c \<longrightarrow> assigned (c\<lparr>cfg_Shards := xs\<rparr>))"
  using assms
proof (induction c rule: measure_induct_rule [of imbalance])
  case (less c)
  obtain mg mn lg ln where an: "analyze c = (mg, mn, lg, ln)" by (metis prod_cases4)
  show ?case
  proof (cases "mn < ln + 2")
    case True
    have "balanced c" unfolding balanced_def
    proof (intro ballI)
      fix g g'
      assume "g \<in> set (gids c)" "g' \<in> set (gids c)"
      then show "counts c g \<le> counts c g' + 1"
        using analyze_spec(3) [OF an, of g] analyze_spec(3) [OF an, of g'] True by linarith
    qed
    moreover have "balance_loop c = Some c" using True an by (simp add: balance_loop.simps [of c])
    ultimately show ?thesis by (intro exI [of _ "cfg_Shards c"]) simp
  next
    case False
    let ?c = "c\<lparr>cfg_Shards := move_first mg lg (cfg_Shards c)\<rparr>"
    have "imbalance ?c < imbalance c" using an False less.prems by (rule move_reduces)
    from less.IH [OF this] obtain xs where xs: "balance_loop ?c = Some (?c\<lparr>cfg_Shards := xs\<rparr>)"
      "length xs = length (cfg_Shards c)" "balanced (?c\<lparr>cfg_Shards := xs\<rparr>)"
      "assigned ?c \<longrightarrow> assigned (?c\<lparr>cfg_Shards := xs\<rparr>)" using less.prems by auto
    have "assigned c \<Longrightarrow> assigned ?c"
      using set_move_first [of mg lg "cfg_Shards c"] analyze_gap(2) [OF an False less.prems]
      by (auto simp: assigned_def gids_def)
    moreover have "balance_loop c = balance_loop ?c" using False an by (simp add: balance_loop.simps [of c])
    ultimately show ?thesis using xs by (intro exI [of _ xs]) simp
  qed
qed

lemma least_group_in:
  assumes "gids c \<noteq> []" "length (cfg_Shards c) < 257"
  shows "least_group c \<in> set (gids c)"
proof -
  obtain mg mn lg ln where an: "analyze c = (mg, mn, lg, ln)" by (metis prod_cases4)
  have "hd (gids c) \<in> set (gids c)" using assms(1) by simp
  then have "ln \<le> counts c (hd (gids c))" using analyze_spec(3) [OF an] by blast
  moreover have "counts c (hd (gids c)) < 257"
    using count_bound [of "cfg_Shards c" "hd (gids c)"] assms(2) by (simp add: counts_def)
  ultimately show ?thesis using analyze_spec(5) [OF an] an by (auto simp: least_group_def)
qed

lemma assign_loop_spec:
  assumes "gids c \<noteq> []" "length (cfg_Shards c) < 257" "set ss \<subseteq> {..<length (cfg_Shards c)}"
  shows "\<exists>xs. assign_loop ss c = c\<lparr>cfg_Shards := xs\<rparr> \<and> length xs = length (cfg_Shards c)
    \<and> (\<forall>i < length xs. i \<in> set ss \<or> cfg_Shards c ! i \<in> set (gids c) \<longrightarrow> xs ! i \<in> set (gids c))"
  using assms
proof (induction ss arbitrary: c)
  case Nil
  then show ?case by (intro exI [of _ "cfg_Shards c"]) simp
next
  case (Cons s ss)
  show ?case
  proof (cases "cfg_Shards c ! s \<in> set (gids c)")
    case True
    then show ?thesis using Cons.IH [of c] Cons.prems by auto
  next
    case False
    let ?c = "c\<lparr>cfg_Shards := (cfg_Shards c)[s := least_group c]\<rparr>"
    have g: "gids ?c = gids c" by (simp add: gids_def)
    have "\<exists>xs. assign_loop ss ?c = ?c\<lparr>cfg_Shards := xs\<rparr> \<and> length xs = length (cfg_Shards ?c)
      \<and> (\<forall>i < length xs. i \<in> set ss \<or> cfg_Shards ?c ! i \<in> set (gids ?c) \<longrightarrow> xs ! i \<in> set (gids ?c))"
      using Cons.prems g by (intro Cons.IH) simp_all
    then obtain xs where xs: "assign_loop ss ?c = ?c\<lparr>cfg_Shards := xs\<rparr>" "length xs = length (cfg_Shards c)"
      "\<forall>i < length xs. i \<in> set ss \<or> cfg_Shards ?c ! i \<in> set (gids c) \<longrightarrow> xs ! i \<in> set (gids c)"
      by (simp only: g) auto
    have "i = s \<or> cfg_Shards c ! i \<in> set (gids c) \<Longrightarrow> i < length xs \<Longrightarrow> cfg_Shards ?c ! i \<in> set (gids c)" for i
      using least_group_in [OF Cons.prems(1,2)] xs(2) by (cases "i = s") simp_all
    with xs False show ?thesis by (intro exI [of _ xs]) auto
  qed
qed

lemma Rebalance_result:
  assumes "length (cfg_Shards c) = NShards" "cfg_Groups c \<noteq> []"
  shows "\<exists>xs. Rebalance c = Some (c\<lparr>cfg_Shards := xs\<rparr>) \<and> length xs = NShards
    \<and> balanced (c\<lparr>cfg_Shards := xs\<rparr>) \<and> assigned (c\<lparr>cfg_Shards := xs\<rparr>)"
proof -
  have small: "length (cfg_Shards c) < 257" using assms by (simp add: NShards_def)
  have ne: "gids c \<noteq> []" using assms(2) by (simp add: gids_def)
  obtain ys where ys: "assign_loop [0..<length (cfg_Shards c)] c = c\<lparr>cfg_Shards := ys\<rparr>" "length ys = length (cfg_Shards c)"
    "\<forall>i < length ys. ys ! i \<in> set (gids c)"
    using assign_loop_spec [OF ne small, of "[0..<length (cfg_Shards c)]"]
    by (metis atLeast_upt order_refl lessThan_iff)
  have asg: "assigned (c\<lparr>cfg_Shards := ys\<rparr>)" using ys(3) by (auto simp: assigned_def gids_def in_set_conv_nth)
  obtain xs where xs: "balance_loop (c\<lparr>cfg_Shards := ys\<rparr>) = Some (c\<lparr>cfg_Shards := xs\<rparr>)" "length xs = length ys"
    "balanced (c\<lparr>cfg_Shards := xs\<rparr>)" "assigned (c\<lparr>cfg_Shards := xs\<rparr>)"
    using balance_loop_ends [of "c\<lparr>cfg_Shards := ys\<rparr>"] asg ys(2) small by auto
  with assms ys show ?thesis by (intro exI [of _ xs]) (simp add: Rebalance_def)
qed

lemma balanced_count:
  "balanced c \<longleftrightarrow> (\<forall>g \<in> fst ` set (cfg_Groups c). \<forall>g' \<in> fst ` set (cfg_Groups c).
     count_list (cfg_Shards c) g \<le> count_list (cfg_Shards c) g' + 1)"
proof -
  have "counts c g \<le> counts c g' + 1 \<longleftrightarrow> count_list (cfg_Shards c) g \<le> count_list (cfg_Shards c) g' + 1" for g g'
    unfolding counts_def by arith
  then show ?thesis by (simp add: balanced_def gids_def)
qed

text \<open>
  \<^bold>\<open>C33\<close>: \<open>Rebalance\<close> returns and balances: with at least one group it ends with every shard assigned to an
  existing group and the groups' shares at most one apart; without groups every shard becomes 0. It
  changes the assignment only.
\<close>

theorem rebalance_balances:
  assumes "length (cfg_Shards c) = NShards"
  shows "\<exists>xs. Rebalance c = Some (c\<lparr>cfg_Shards := xs\<rparr>) \<and> length xs = NShards
    \<and> (if cfg_Groups c = [] then xs = replicate NShards 0
       else (\<forall>g \<in> set xs. g \<in> fst ` set (cfg_Groups c))
         \<and> (\<forall>g \<in> fst ` set (cfg_Groups c). \<forall>g' \<in> fst ` set (cfg_Groups c). count_list xs g \<le> count_list xs g' + 1))"
proof (cases "cfg_Groups c = []")
  case True
  then show ?thesis using assms by (auto simp: Rebalance_def map_replicate_const)
next
  case False
  from Rebalance_result [OF assms False] show ?thesis
    using False by (auto simp: balanced_count assigned_def gids_def)
qed

definition two_groups :: ShardConfig where
  "two_groups = MakeShardConfig\<lparr>cfg_Groups := [(1, [''a'', ''b'']), (2, [''c''])]\<rparr>"

theorem rebalance_balances_witness:
  "length (cfg_Shards two_groups) = NShards
   \<and> (\<exists>xs. Rebalance two_groups = Some (two_groups\<lparr>cfg_Shards := xs\<rparr>) \<and> count_list xs 1 \<le> count_list xs 2 + 1
         \<and> count_list xs 2 \<le> count_list xs 1 + 1)"
  using rebalance_balances [of two_groups] by (auto simp: two_groups_def MakeShardConfig_def)

text \<open>A balanced and assigned configuration is a fixed point.\<close>

lemma analyze_balanced:
  assumes "balanced c" "analyze c = (mg, mn, lg, ln)" "gids c \<noteq> []" "length (cfg_Shards c) < 257"
  shows "mn < ln + 2"
proof (rule ccontr)
  assume "\<not> mn < ln + 2"
  note gap = analyze_gap [OF assms(2) this assms(4)]
  then have "counts c mg \<le> counts c lg + 1" using assms(1) by (simp add: balanced_def)
  then show False using gap(3) by (simp add: counts_def)
qed

lemma assign_loop_same: "\<forall>s \<in> set ss. cfg_Shards c ! s \<in> set (gids c) \<Longrightarrow> assign_loop ss c = c"
  by (induction ss) auto

text \<open>
  \<open>Rebalance\<close> moves no shard of a configuration that is balanced already: rebalancing twice is
  rebalancing once.
\<close>

theorem rebalance_idempotent:
  assumes "length (cfg_Shards c) = NShards" "Rebalance c = Some c'"
  shows "Rebalance c' = Some c'"
proof (cases "cfg_Groups c = []")
  case True
  then show ?thesis using assms by (auto simp: Rebalance_def comp_def)
next
  case False
  obtain xs where xs: "c' = c\<lparr>cfg_Shards := xs\<rparr>" "length xs = NShards" and bal: "balanced c'" and asg: "assigned c'"
    using Rebalance_result [OF assms(1) False] assms(2) by auto
  have small: "length (cfg_Shards c') < 257" using xs(1,2) by (simp add: NShards_def)
  have ne: "gids c' \<noteq> []" using False xs(1) by (simp add: gids_def)
  obtain mg mn lg ln where an: "analyze c' = (mg, mn, lg, ln)" by (metis prod_cases4)
  have "balance_loop c' = Some c'"
    using analyze_balanced [OF bal an ne small] an by (simp add: balance_loop.simps [of c'])
  moreover have "assign_loop [0..<length (cfg_Shards c')] c' = c'"
    using asg by (intro assign_loop_same) (auto simp: assigned_def)
  ultimately show ?thesis using False xs(1) by (simp add: Rebalance_def)
qed

theorem rebalance_idempotent_witness:
  "\<exists>c'. Rebalance two_groups = Some c' \<and> Rebalance c' = Some c'"
proof -
  have len: "length (cfg_Shards two_groups) = NShards" by (simp add: two_groups_def MakeShardConfig_def)
  obtain xs where "Rebalance two_groups = Some (two_groups\<lparr>cfg_Shards := xs\<rparr>)"
    using Rebalance_result [OF len] by (auto simp: two_groups_def)
  then show ?thesis using rebalance_idempotent [OF len] by blast
qed

text \<open>The scans of \<open>CheckConfig\<close> return their start value or the value of a group.\<close>

lemma fold_pick: "fold (\<lambda>g m. if P (f g) m then f g else m) gs m0 \<in> insert m0 (f ` set gs)"
proof (induction gs arbitrary: m0)
  case (Cons g gs)
  show ?case using Cons.IH [of "if P (f g) m0 then f g else m0"] by (auto split: if_splits)
qed simp

lemma CheckConfig_ok:
  assumes "balanced c" "assigned c \<or> gids c = []" "length (cfg_Shards c) = NShards" "length (gids c) = length groups"
    "set groups \<subseteq> set (gids c)"
  shows "CheckConfig c groups = Some ()"
proof -
  let ?mx = "fold (\<lambda>g m. if counts c g > m then counts c g else m) (gids c) 0"
  let ?mn = "fold (\<lambda>g m. if counts c g < m then counts c g else m) (gids c) 257"
  have small: "counts c g \<le> 258" "0 \<le> counts c g" for g
    using count_bound [of "cfg_Shards c" g] assms(3) by (simp_all add: counts_def NShards_def)
  have mx: "?mx \<in> insert 0 (counts c ` set (gids c))" and mn: "?mn \<in> insert 257 (counts c ` set (gids c))"
    by (rule fold_pick)+
  have "m \<le> n + 1" if "m \<in> insert 0 (counts c ` set (gids c))" "n \<in> insert 257 (counts c ` set (gids c))" for m n
  proof -
    have "m = 0 \<or> (\<exists>g \<in> set (gids c). m = counts c g)" "n = 257 \<or> (\<exists>g \<in> set (gids c). n = counts c g)"
      using that by auto
    then show ?thesis
      using assms(1) small unfolding balanced_def by (elim disjE bexE) (auto intro: less_imp_le add_nonneg_nonneg)
  qed
  from this [OF mx mn] have "?mx \<le> ?mn + 1" .
  with assms show ?thesis
    unfolding CheckConfig_def Let_def by (auto simp: gids_def assigned_def)
qed

lemma join_loop_spec:
  "join_loop servers cfg = Some (True, cfg') \<Longrightarrow>
     cfg' = cfg\<lparr>cfg_Groups := cfg_Groups cfg @ servers\<rparr>"
proof (induction servers arbitrary: cfg)
  case (Cons x rest)
  obtain gid srvs where x: "x = (gid, srvs)" by (cases x)
  let ?c = "cfg\<lparr>cfg_Groups := cfg_Groups cfg @ [(gid, srvs)]\<rparr>"
  have "join_loop rest ?c = Some (True, cfg')" using Cons.prems x by (auto split: if_splits)
  from Cons.IH [OF this] show ?case using x by simp
qed simp

lemma leave_loop_spec:
  "leave_loop gs cfg = (True, cfg') \<Longrightarrow>
     cfg' = cfg\<lparr>cfg_Groups := filter (\<lambda>(k, _). k \<notin> set gs) (cfg_Groups cfg)\<rparr>"
proof (induction gs arbitrary: cfg)
  case (Cons g gs)
  let ?c = "cfg\<lparr>cfg_Groups := filter (\<lambda>(k, _). k \<noteq> g) (cfg_Groups cfg)\<rparr>"
  have "leave_loop gs ?c = (True, cfg')" using Cons.prems by (auto split: if_splits)
  from Cons.IH [OF this] show ?case
    by (simp add: conj_commute case_prod_unfold)
qed simp

text \<open>
  \<^bold>\<open>C34\<close>: A successful \<open>JoinBalance\<close> or \<open>LeaveBalance\<close> passes \<open>CheckConfig\<close> for the groups it should have: the
  old ones and the new ones, or the old ones less those that left; the configuration number grows by one.
\<close>

theorem join_leave_check:
  assumes "length (cfg_Shards cfg) = NShards"
  shows "(JoinBalance cfg servers = Some (True, cfg') \<longrightarrow>
      CheckConfig cfg' (gids cfg @ map fst servers) = Some () \<and> cfg_Num cfg' = cfg_Num cfg + 1)
    \<and> (LeaveBalance cfg gs = Some (True, cfg') \<longrightarrow>
      CheckConfig cfg' (filter (\<lambda>g. g \<notin> set gs) (gids cfg)) = Some () \<and> cfg_Num cfg' = cfg_Num cfg + 1)"
proof -
  have ok: "CheckConfig c' (gids c) = Some () \<and> cfg_Num c' = cfg_Num c"
    if "length (cfg_Shards c) = NShards" "Rebalance c = Some c'" for c c'
  proof (cases "cfg_Groups c = []")
    case True
    then show ?thesis using that by (auto simp: Rebalance_def CheckConfig_def gids_def)
  next
    case False
    with Rebalance_result [OF that(1) False] that(2) show ?thesis
      by (auto intro!: CheckConfig_ok simp: gids_def)
  qed
  have join: "CheckConfig cfg' (gids cfg @ map fst servers) = Some () \<and> cfg_Num cfg' = cfg_Num cfg + 1"
    if j: "JoinBalance cfg servers = Some (True, cfg')"
  proof -
    obtain c where c: "join_loop servers cfg = Some (True, c)" "Rebalance (c\<lparr>cfg_Num := cfg_Num c + 1\<rparr>) = Some cfg'"
      using j unfolding JoinBalance_def Join_def by (auto simp: bind_eq_Some_conv split: if_splits)
    with join_loop_spec [OF c(1)] ok [OF _ c(2)] assms show ?thesis by (simp add: gids_def)
  qed
  have leave: "CheckConfig cfg' (filter (\<lambda>g. g \<notin> set gs) (gids cfg)) = Some () \<and> cfg_Num cfg' = cfg_Num cfg + 1"
    if l: "LeaveBalance cfg gs = Some (True, cfg')"
  proof -
    obtain c where c: "leave_loop gs cfg = (True, c)" "Rebalance (c\<lparr>cfg_Num := cfg_Num c + 1\<rparr>) = Some cfg'"
      using l unfolding LeaveBalance_def Leave_def by (auto simp: bind_eq_Some_conv split: if_splits prod.splits)
    have "gids (c\<lparr>cfg_Num := cfg_Num c + 1\<rparr>) = filter (\<lambda>g. g \<notin> set gs) (gids cfg)"
      using leave_loop_spec [OF c(1)] by (simp add: gids_def filter_map comp_def case_prod_unfold)
    with leave_loop_spec [OF c(1)] ok [OF _ c(2)] assms show ?thesis by simp
  qed
  show ?thesis using join leave by blast
qed

lemma join_two: "\<exists>cfg'. JoinBalance MakeShardConfig [(1, [''a'', ''b'']), (2, [''c''])] = Some (True, cfg')"
proof -
  let ?c = "MakeShardConfig\<lparr>cfg_Groups := [(1, [''a'', ''b'']), (2, [''c''])], cfg_Num := 1\<rparr>"
  have "length (cfg_Shards ?c) = NShards" "cfg_Groups ?c \<noteq> []" by (simp_all add: MakeShardConfig_def)
  from Rebalance_result [OF this] obtain c' where c': "Rebalance ?c = Some c'" by blast
  have "Join MakeShardConfig [(1, [''a'', ''b'']), (2, [''c''])] = Some (True, ?c)"
    by (simp add: Join_def MakeShardConfig_def gids_def)
  then show ?thesis by (simp add: JoinBalance_def c')
qed

theorem join_leave_check_witness:
  "length (cfg_Shards MakeShardConfig) = NShards
   \<and> (\<exists>cfg'. JoinBalance MakeShardConfig [(1, [''a'', ''b'']), (2, [''c''])] = Some (True, cfg')
        \<and> CheckConfig cfg' [1, 2] = Some () \<and> cfg_Num cfg' = 1)"
proof -
  obtain cfg' where j: "JoinBalance MakeShardConfig [(1, [''a'', ''b'']), (2, [''c''])] = Some (True, cfg')"
    using join_two by blast
  have len: "length (cfg_Shards MakeShardConfig) = NShards" by (simp add: MakeShardConfig_def)
  show ?thesis
    using join_leave_check [OF len, of "[(1, [''a'', ''b'']), (2, [''c''])]" cfg' "[]"] j len
    by (auto simp: gids_def MakeShardConfig_def)
qed

text \<open>
  A refused \<open>Join\<close> or \<open>Leave\<close> may have changed the configuration: both update the groups while they
  scan their argument and return false at the first bad element. The groups before it have been added or
  removed, although the configuration number has not changed.
\<close>

theorem refused_change_is_partial:
  assumes "g \<notin> set (gids cfg)" "h \<in> set (gids cfg)" "g \<noteq> h"
  shows "(\<forall>srvs srvs'. (\<forall>x \<in> set (cfg_Groups cfg). set (snd x) \<inter> set srvs = {}) \<longrightarrow>
      Join cfg [(g, srvs), (h, srvs')] = Some (False, cfg\<lparr>cfg_Groups := cfg_Groups cfg @ [(g, srvs)]\<rparr>))
    \<and> Leave cfg [h, g] = Some (False, cfg\<lparr>cfg_Groups := filter (\<lambda>(k, _). k \<noteq> h) (cfg_Groups cfg)\<rparr>)"
  using assms by (fastforce simp: Join_def Leave_def gids_def)

theorem refused_change_is_partial_witness:
  "Leave two_groups [1, 7] = Some (False, two_groups\<lparr>cfg_Groups := [(2, [''c''])]\<rparr>)"
  using refused_change_is_partial [of 7 two_groups 1] by (simp add: two_groups_def gids_def)

end
