(* ===== verification/RaftNode.thy ===== *)
theory RaftNode
  imports Persister
begin

text \<open>
  One Raft peer, \<open>src/raft1/raft.go\<close>: its state, its RPC handlers, the parts of its goroutines that
  run under the mutex, and the apply loop. Every such part holds \<open>rf.mu\<close> from its first access of the
  state to its last, so each is one function of the state. An indexing or slicing expression that
  would panic yields \<^term>\<open>None\<close>.

  Go's \<open>int\<close> (64 bits) is \<^typ>\<open>int\<close>: terms and log indices grow by one per election and per
  command. \<open>RaftWord\<close> has the operations with 64 bits and shows within which bounds they are these. \<open>interface{}\<close> commands are values of a type \<open>'c\<close>, \<open>nil\<close> is \<^term>\<open>None\<close>. A reading of
  the clock is an argument. \<open>applyCond.Signal\<close> and \<open>Wait\<close> have no effect on the state: the apply
  loop's next iteration is enabled by the state itself.
\<close>

subsection \<open>State\<close>

datatype Role = Follower | Candidate | Leader

record 'c LogEntry =
  le_Term :: int
  le_Command :: "'c option"

text \<open>The values \<open>persist\<close> encodes.\<close>

datatype 'c gobval = GInt int | GLog "'c LogEntry list"

record 'c Raft =
  rf_peers :: nat  \<comment> \<open>\<open>len(rf.peers)\<close>\<close>
  rf_persister :: "'c gobval Persister"
  rf_me :: int
  rf_dead :: bool
  rf_currentTerm :: int
  rf_votedFor :: int
  rf_log :: "'c LogEntry list"
  rf_lastIncludedIndex :: int
  rf_lastIncludedTerm :: int
  rf_commitIndex :: int
  rf_lastApplied :: int
  rf_nextIndex :: "int list"
  rf_matchIndex :: "int list"
  rf_role :: Role
  rf_lastHeardAt :: int
  rf_electionReset :: int
  rf_pendingSnapshot :: "bytes option"
  rf_pendingSnapshotIndex :: int
  rf_pendingSnapshotTerm :: int

definition GetState :: "'c Raft \<Rightarrow> int \<times> bool" where
  "GetState rf = (rf_currentTerm rf, rf_role rf = Leader)"

definition lastLogIndex :: "'c Raft \<Rightarrow> int" where
  "lastLogIndex rf = rf_lastIncludedIndex rf + int (length (rf_log rf)) - 1"

definition lastLogTerm :: "'c Raft \<Rightarrow> int option" where
  "lastLogTerm rf = map_option le_Term (go_nth (rf_log rf) (int (length (rf_log rf)) - 1))"

definition termAt :: "'c Raft \<Rightarrow> int \<Rightarrow> int option" where
  "termAt rf index = map_option le_Term (go_nth (rf_log rf) (index - rf_lastIncludedIndex rf))"

subsection \<open>Persistence\<close>

definition raftstate :: "'c Raft \<Rightarrow> 'c gobval list" where
  "raftstate rf = [GInt (rf_currentTerm rf), GInt (rf_votedFor rf), GLog (rf_log rf),
     GInt (rf_lastIncludedIndex rf), GInt (rf_lastIncludedTerm rf)]"

definition persist :: "'c Raft \<Rightarrow> 'c Raft" where
  "persist rf = rf\<lparr>rf_persister := Save (rf_persister rf) (raftstate rf) (ReadSnapshot (rf_persister rf))\<rparr>"

definition persistWithSnapshot :: "'c Raft \<Rightarrow> bytes \<Rightarrow> 'c Raft" where
  "persistWithSnapshot rf snapshot = rf\<lparr>rf_persister := Save (rf_persister rf) (raftstate rf) snapshot\<rparr>"

text \<open>One \<open>Decode\<close>: the next value of the buffer, if it has the type that is asked for.\<close>

fun decodeInt :: "'c gobval list \<Rightarrow> (int \<times> 'c gobval list) option" where
  "decodeInt (GInt i # d) = Some (i, d)"
| "decodeInt d = None"

fun decodeLog :: "'c gobval list \<Rightarrow> ('c LogEntry list \<times> 'c gobval list) option" where
  "decodeLog (GLog l # d) = Some (l, d)"
| "decodeLog d = None"

definition decode_state :: "'c gobval list \<Rightarrow> (int \<times> int \<times> 'c LogEntry list \<times> int \<times> int) option" where
  "decode_state d = do {
     (currentTerm, d) \<leftarrow> decodeInt d;
     (votedFor, d) \<leftarrow> decodeInt d;
     (log, d) \<leftarrow> decodeLog d;
     (lastIncludedIndex, d) \<leftarrow> decodeInt d;
     (lastIncludedTerm, d) \<leftarrow> decodeInt d;
     Some (currentTerm, votedFor, log, lastIncludedIndex, lastIncludedTerm)
   }"

definition readPersist :: "'c Raft \<Rightarrow> 'c gobval list \<Rightarrow> 'c Raft" where
  "readPersist rf d =
     (if length d < 1 then rf
      else case decode_state d of
        None \<Rightarrow> rf
      | Some (currentTerm, votedFor, log, lastIncludedIndex, lastIncludedTerm) \<Rightarrow>
          rf\<lparr>rf_currentTerm := currentTerm, rf_votedFor := votedFor, rf_log := log,
             rf_lastIncludedIndex := lastIncludedIndex, rf_lastIncludedTerm := lastIncludedTerm,
             rf_commitIndex := lastIncludedIndex, rf_lastApplied := lastIncludedIndex\<rparr>)"

definition PersistBytes :: "('c gobval \<Rightarrow> nat) \<Rightarrow> 'c Raft \<Rightarrow> nat" where
  "PersistBytes size_of rf = RaftStateSize size_of (rf_persister rf)"

subsection \<open>Snapshot\<close>

text \<open>\<open>make([]T, len, cap)\<close> panics when the capacity is below the length.\<close>

definition go_make_cap :: "int \<Rightarrow> int \<Rightarrow> unit option" where
  "go_make_cap len cap = (if 0 \<le> len \<and> len \<le> cap then Some () else None)"

definition Snapshot :: "'c Raft \<Rightarrow> int \<Rightarrow> bytes \<Rightarrow> 'c Raft option" where
  "Snapshot rf index snapshot =
     (if index \<le> rf_lastIncludedIndex rf then Some rf
      else if index > lastLogIndex rf then Some rf
      else do {
        newLastTerm \<leftarrow> termAt rf index;
        _ \<leftarrow> go_make_cap 1 (int (length (rf_log rf)) - (index - rf_lastIncludedIndex rf));
        tail \<leftarrow> go_from (rf_log rf) (index - rf_lastIncludedIndex rf + 1);
        Some (persistWithSnapshot
          (rf\<lparr>rf_log := \<lparr>le_Term = newLastTerm, le_Command = None\<rparr> # tail,
              rf_lastIncludedIndex := index, rf_lastIncludedTerm := newLastTerm\<rparr>) snapshot)
      })"

subsection \<open>State transitions\<close>

definition becomeFollower :: "'c Raft \<Rightarrow> int \<Rightarrow> 'c Raft" where
  "becomeFollower rf term =
     (let rf = rf\<lparr>rf_role := Follower\<rparr>
      in if term > rf_currentTerm rf
         then persist (rf\<lparr>rf_currentTerm := term, rf_votedFor := -1\<rparr>) else rf)"

text \<open>\<open>for i := range rf.peers { xs[i] = v }\<close>\<close>

fun set_all :: "int list \<Rightarrow> nat \<Rightarrow> int \<Rightarrow> int list option" where
  "set_all xs 0 v = Some xs"
| "set_all xs (Suc n) v = do { ys \<leftarrow> set_all xs n v; go_upd ys (int n) v }"

definition becomeLeader :: "'c Raft \<Rightarrow> 'c Raft option" where
  "becomeLeader rf = do {
     let last = lastLogIndex rf;
     next \<leftarrow> set_all (rf_nextIndex rf) (rf_peers rf) (last + 1);
     match \<leftarrow> set_all (rf_matchIndex rf) (rf_peers rf) 0;
     match \<leftarrow> go_upd match (rf_me rf) last;
     Some (rf\<lparr>rf_role := Leader, rf_nextIndex := next, rf_matchIndex := match\<rparr>)
   }"

subsection \<open>RequestVote\<close>

record RequestVoteArgs =
  rv_Term :: int
  rv_CandidateId :: int
  rv_LastLogIndex :: int
  rv_LastLogTerm :: int

record RequestVoteReply =
  rvr_Term :: int
  rvr_VoteGranted :: bool

definition RequestVote :: "int \<Rightarrow> 'c Raft \<Rightarrow> RequestVoteArgs \<Rightarrow> ('c Raft \<times> RequestVoteReply) option" where
  "RequestVote time rf args =
     (let reply = \<lparr>rvr_Term = rf_currentTerm rf, rvr_VoteGranted = False\<rparr>
      in if rv_Term args < rf_currentTerm rf then Some (rf, reply)
      else
        let (rf, reply) =
          (if rv_Term args > rf_currentTerm rf
           then let rf = becomeFollower rf (rv_Term args) in (rf, reply\<lparr>rvr_Term := rf_currentTerm rf\<rparr>)
           else (rf, reply))
        in do {
          let myLastIdx = lastLogIndex rf;
          myLastTerm \<leftarrow> lastLogTerm rf;
          let upToDate = (rv_LastLogTerm args > myLastTerm \<or>
                (rv_LastLogTerm args = myLastTerm \<and> rv_LastLogIndex args \<ge> myLastIdx));
          if (rf_votedFor rf = -1 \<or> rf_votedFor rf = rv_CandidateId args) \<and> upToDate
          then Some (persist (rf\<lparr>rf_votedFor := rv_CandidateId args, rf_lastHeardAt := time\<rparr>),
                     reply\<lparr>rvr_VoteGranted := True\<rparr>)
          else Some (rf, reply)
        })"

subsection \<open>AppendEntries\<close>

record 'c AppendEntriesArgs =
  ae_Term :: int
  ae_LeaderId :: int
  ae_PrevLogIndex :: int
  ae_PrevLogTerm :: int
  ae_Entries :: "'c LogEntry list"
  ae_LeaderCommit :: int

record AppendEntriesReply =
  aer_Term :: int
  aer_Success :: bool
  aer_ConflictTerm :: int
  aer_ConflictIndex :: int
  aer_XLen :: int

text \<open>The update of \<open>commitIndex\<close>, which the handler performs in two places.\<close>

definition ae_commit :: "'c Raft \<Rightarrow> int \<Rightarrow> 'c Raft" where
  "ae_commit rf leaderCommit =
     (if leaderCommit > rf_commitIndex rf then
        let newCommit = (if leaderCommit > lastLogIndex rf then lastLogIndex rf else leaderCommit)
        in if newCommit > rf_commitIndex rf then rf\<lparr>rf_commitIndex := newCommit\<rparr> else rf
      else rf)"

text \<open>The search for the first index of the conflicting term.\<close>

function conflictIndex :: "'c Raft \<Rightarrow> int \<Rightarrow> int \<Rightarrow> int option" where
  "conflictIndex rf conflictTerm idx =
     (if idx > rf_lastIncludedIndex rf then do {
        t \<leftarrow> termAt rf (idx - 1);
        if t = conflictTerm then conflictIndex rf conflictTerm (idx - 1) else Some idx
      } else Some idx)"
  by pat_completeness auto
termination
  by (relation "measure (\<lambda>(rf, t, idx). nat (idx - rf_lastIncludedIndex rf))") auto

declare conflictIndex.simps [simp del]

text \<open>
  The merge loop. The log changes only in the iteration that ends the loop, so the loop carries the
  entries that are left and their absolute index.
\<close>

fun ae_merge :: "'c Raft \<Rightarrow> int \<Rightarrow> 'c LogEntry list \<Rightarrow> 'c LogEntry list option" where
  "ae_merge rf absIdx [] = Some (rf_log rf)"
| "ae_merge rf absIdx (e # es) =
     (if absIdx > lastLogIndex rf then Some (rf_log rf @ e # es)
      else do {
        t \<leftarrow> termAt rf absIdx;
        if t \<noteq> le_Term e then do {
          kept \<leftarrow> go_upto (rf_log rf) (absIdx - rf_lastIncludedIndex rf);
          Some (kept @ e # es)
        } else ae_merge rf (absIdx + 1) es
      })"

text \<open>The handler from the check of \<open>PrevLogIndex\<close> against the log onwards.\<close>

definition ae_check_merge ::
  "'c Raft \<Rightarrow> 'c AppendEntriesArgs \<Rightarrow> AppendEntriesReply \<Rightarrow> ('c Raft \<times> AppendEntriesReply) option" where
  "ae_check_merge rf args reply =
     (if ae_PrevLogIndex args > lastLogIndex rf then
        Some (rf, reply\<lparr>aer_ConflictIndex := lastLogIndex rf + 1, aer_ConflictTerm := -1\<rparr>)
      else do {
        t \<leftarrow> termAt rf (ae_PrevLogIndex args);
        if t \<noteq> ae_PrevLogTerm args then do {
          idx \<leftarrow> conflictIndex rf t (ae_PrevLogIndex args);
          Some (rf, reply\<lparr>aer_ConflictTerm := t, aer_ConflictIndex := idx\<rparr>)
        } else do {
          log \<leftarrow> ae_merge rf (ae_PrevLogIndex args + 1) (ae_Entries args);
          let rf = persist (rf\<lparr>rf_log := log\<rparr>);
          let rf = ae_commit rf (ae_LeaderCommit args);
          Some (rf, reply\<lparr>aer_Success := True\<rparr>)
        }
      })"

definition AppendEntries ::
  "int \<Rightarrow> 'c Raft \<Rightarrow> 'c AppendEntriesArgs \<Rightarrow> ('c Raft \<times> AppendEntriesReply) option" where
  "AppendEntries time rf args =
     (let reply = \<lparr>aer_Term = rf_currentTerm rf, aer_Success = False, aer_ConflictTerm = -1,
                   aer_ConflictIndex = -1, aer_XLen = lastLogIndex rf + 1\<rparr>
      in if ae_Term args < rf_currentTerm rf then Some (rf, reply)
      else
        let (rf, reply) =
          (if ae_Term args > rf_currentTerm rf
           then let rf = becomeFollower rf (ae_Term args) in (rf, reply\<lparr>aer_Term := rf_currentTerm rf\<rparr>)
           else (rf, reply));
          rf = rf\<lparr>rf_role := Follower, rf_lastHeardAt := time\<rparr>
        in if ae_PrevLogIndex args < rf_lastIncludedIndex rf then
             let startAt = rf_lastIncludedIndex rf - ae_PrevLogIndex args
             in if startAt > int (length (ae_Entries args)) then
                  Some (ae_commit rf (ae_LeaderCommit args), reply\<lparr>aer_Success := True\<rparr>)
                else do {
                  es \<leftarrow> go_from (ae_Entries args) startAt;
                  ae_check_merge rf
                    (args\<lparr>ae_PrevLogIndex := rf_lastIncludedIndex rf,
                          ae_PrevLogTerm := rf_lastIncludedTerm rf, ae_Entries := es\<rparr>) reply
                }
           else ae_check_merge rf args reply)"

subsection \<open>InstallSnapshot\<close>

record InstallSnapshotArgs =
  is_Term :: int
  is_LeaderId :: int
  is_LastIncludedIndex :: int
  is_LastIncludedTerm :: int
  is_Data :: "bytes option"

record InstallSnapshotReply =
  isr_Term :: int

text \<open>A nil slice is read as an empty one by \<open>Persister.Save\<close>.\<close>

definition data_bytes :: "bytes option \<Rightarrow> bytes" where
  "data_bytes d = (case d of None \<Rightarrow> [] | Some b \<Rightarrow> b)"

definition InstallSnapshot ::
  "int \<Rightarrow> 'c Raft \<Rightarrow> InstallSnapshotArgs \<Rightarrow> ('c Raft \<times> InstallSnapshotReply) option" where
  "InstallSnapshot time rf args =
     (let reply = \<lparr>isr_Term = rf_currentTerm rf\<rparr>
      in if is_Term args < rf_currentTerm rf then Some (rf, reply)
      else
        let (rf, reply) =
          (if is_Term args > rf_currentTerm rf
           then let rf = becomeFollower rf (is_Term args) in (rf, reply\<lparr>isr_Term := rf_currentTerm rf\<rparr>)
           else (rf, reply));
          rf = rf\<lparr>rf_role := Follower, rf_lastHeardAt := time\<rparr>
        in if is_LastIncludedIndex args \<le> rf_lastIncludedIndex rf then Some (rf, reply)
        else do {
          same \<leftarrow> (if is_LastIncludedIndex args \<le> lastLogIndex rf
                   then map_option (\<lambda>t. t = is_LastIncludedTerm args) (termAt rf (is_LastIncludedIndex args))
                   else Some False);
          newLog \<leftarrow> (if same then do {
                        tail \<leftarrow> go_from (rf_log rf) (is_LastIncludedIndex args - rf_lastIncludedIndex rf + 1);
                        Some (\<lparr>le_Term = is_LastIncludedTerm args, le_Command = None\<rparr> # tail)
                      } else Some [\<lparr>le_Term = is_LastIncludedTerm args, le_Command = None\<rparr>]);
          let rf = rf\<lparr>rf_log := newLog, rf_lastIncludedIndex := is_LastIncludedIndex args,
                       rf_lastIncludedTerm := is_LastIncludedTerm args\<rparr>;
          let rf = (if rf_commitIndex rf < is_LastIncludedIndex args
                    then rf\<lparr>rf_commitIndex := is_LastIncludedIndex args\<rparr> else rf);
          let rf = (if rf_lastApplied rf < is_LastIncludedIndex args
                    then rf\<lparr>rf_lastApplied := is_LastIncludedIndex args\<rparr> else rf);
          let rf = persistWithSnapshot rf (data_bytes (is_Data args));
          Some (rf\<lparr>rf_pendingSnapshot := is_Data args,
                   rf_pendingSnapshotIndex := is_LastIncludedIndex args,
                   rf_pendingSnapshotTerm := is_LastIncludedTerm args\<rparr>, reply)
        })"

end
