(* ===== verification/RaftAbs.thy ===== *)
theory RaftAbs
  imports RaftNode
begin

text \<open>
  The abstract Raft protocol: an unbounded log per peer instead of a log and a snapshot, the log of the
  leader of every term, who has acknowledged how much of it, and the messages that were ever sent. A
  message carries the leader's whole log; a follower takes it over unless its own log extends it.

  The theory states the protocol as a step relation and proves its safety: log matching, leader
  completeness and agreement on the committed entries. \<open>RaftSim\<close> shows that the cluster of peers of
  \<open>raft.go\<close> implements it.
\<close>

type_synonym 'c elog = "'c LogEntry list"

record 'c ARaft =
  ar_n :: nat
  ar_term :: "nat \<Rightarrow> int"
  ar_log :: "nat \<Rightarrow> 'c elog"
  ar_commit :: "nat \<Rightarrow> nat"
  ar_lead :: "int \<Rightarrow> nat option"  \<comment> \<open>the leader of a term\<close>
  ar_llog :: "int \<Rightarrow> 'c elog"  \<comment> \<open>the log of the leader of a term\<close>
  ar_ack :: "int \<Rightarrow> nat \<Rightarrow> nat"  \<comment> \<open>how much of it a peer has acknowledged\<close>
  ar_reqs :: "(int \<times> nat \<times> 'c elog) set"  \<comment> \<open>candidacies, with the candidate's log\<close>
  ar_grants :: "(int \<times> nat \<times> nat) set"  \<comment> \<open>votes: term, candidate, voter\<close>
  ar_msgs :: "(int \<times> 'c elog \<times> nat) set"  \<comment> \<open>term, log, leader commit\<close>

definition ar_init :: "nat \<Rightarrow> 'c ARaft" where
  "ar_init n = \<lparr>ar_n = n, ar_term = (\<lambda>_. 0), ar_log = (\<lambda>_. []), ar_commit = (\<lambda>_. 0), ar_lead = (\<lambda>_. None),
     ar_llog = (\<lambda>_. []), ar_ack = (\<lambda>_ _. 0), ar_reqs = {}, ar_grants = {}, ar_msgs = {}\<rparr>"

definition last_term :: "'c elog \<Rightarrow> int" where
  "last_term xs = (if xs = [] then 0 else le_Term (last xs))"

definition log_up_to_date :: "'c elog \<Rightarrow> 'c elog \<Rightarrow> bool" where
  "log_up_to_date xs ys \<longleftrightarrow> last_term xs > last_term ys \<or> last_term xs = last_term ys \<and> length xs \<ge> length ys"

definition is_prefix :: "'a list \<Rightarrow> 'a list \<Rightarrow> bool" where
  "is_prefix xs ys \<longleftrightarrow> take (length xs) ys = xs"

text \<open>What a follower makes of a leader's log.\<close>

definition take_over :: "'c elog \<Rightarrow> 'c elog \<Rightarrow> 'c elog" where
  "take_over mine theirs = (if is_prefix theirs mine then mine else theirs)"

definition majority :: "'c ARaft \<Rightarrow> nat set \<Rightarrow> bool" where
  "majority s Q \<longleftrightarrow> Q \<subseteq> {..<ar_n s} \<and> ar_n s < 2 * card Q"

text \<open>Index \<open>k\<close> of the leader's log of term \<open>T\<close> is committed: an entry of the term itself on a majority.\<close>

definition own_entry :: "'c ARaft \<Rightarrow> int \<Rightarrow> nat \<Rightarrow> bool" where
  "own_entry s T k \<longleftrightarrow> 1 \<le> k \<and> k \<le> length (ar_llog s T) \<and> le_Term (ar_llog s T ! (k - 1)) = T"

definition acked :: "'c ARaft \<Rightarrow> int \<Rightarrow> nat \<Rightarrow> nat set" where
  "acked s T k = {v. v < ar_n s \<and> k \<le> ar_ack s T v}"

definition committed :: "'c ARaft \<Rightarrow> int \<Rightarrow> nat \<Rightarrow> bool" where
  "committed s T k \<longleftrightarrow> own_entry s T k \<and> majority s (acked s T k)"

subsection \<open>Steps\<close>

inductive ar_step :: "'c ARaft \<Rightarrow> 'c ARaft \<Rightarrow> bool" for s where
  stutter: "ar_step s s"
| newterm: "v < ar_n s \<Longrightarrow> ar_term s v \<le> T \<Longrightarrow> ar_step s (s\<lparr>ar_term := (ar_term s)(v := T)\<rparr>)"
| candidate: "c < ar_n s \<Longrightarrow> T = ar_term s c + 1 \<Longrightarrow>
    ar_step s (s\<lparr>ar_term := (ar_term s)(c := T), ar_reqs := insert (T, c, ar_log s c) (ar_reqs s),
      ar_grants := insert (T, c, c) (ar_grants s)\<rparr>)"
| grant: "v < ar_n s \<Longrightarrow> (T, c, H) \<in> ar_reqs s \<Longrightarrow> ar_term s v \<le> T \<Longrightarrow> log_up_to_date H (ar_log s v) \<Longrightarrow>
    (\<And>c'. (T, c', v) \<in> ar_grants s \<Longrightarrow> c' = c) \<Longrightarrow>
    ar_step s (s\<lparr>ar_term := (ar_term s)(v := T), ar_grants := insert (T, c, v) (ar_grants s)\<rparr>)"
| lead: "c < ar_n s \<Longrightarrow> ar_term s c = T \<Longrightarrow> ar_lead s T = None \<Longrightarrow> (T, c, ar_log s c) \<in> ar_reqs s \<Longrightarrow>
    majority s Q \<Longrightarrow> (\<And>v. v \<in> Q \<Longrightarrow> (T, c, v) \<in> ar_grants s) \<Longrightarrow>
    ar_step s (s\<lparr>ar_lead := (ar_lead s)(T := Some c), ar_llog := (ar_llog s)(T := ar_log s c),
      ar_ack := (ar_ack s)(T := (ar_ack s T)(c := length (ar_log s c)))\<rparr>)"
| append: "ar_lead s T = Some c \<Longrightarrow> ar_term s c = T \<Longrightarrow> le_Term e = T \<Longrightarrow>
    ar_step s (s\<lparr>ar_log := (ar_log s)(c := ar_log s c @ [e]), ar_llog := (ar_llog s)(T := ar_llog s T @ [e]),
      ar_ack := (ar_ack s)(T := (ar_ack s T)(c := Suc (length (ar_log s c))))\<rparr>)"
| send: "ar_lead s T = Some c \<Longrightarrow> ar_term s c = T \<Longrightarrow> lc \<le> ar_commit s c \<Longrightarrow> lc \<le> m \<Longrightarrow> m \<le> length (ar_log s c) \<Longrightarrow>
    ar_step s (s\<lparr>ar_msgs := insert (T, take m (ar_log s c), lc) (ar_msgs s)\<rparr>)"
| recv: "v < ar_n s \<Longrightarrow> (T, H, lc) \<in> ar_msgs s \<Longrightarrow> ar_term s v \<le> T \<Longrightarrow>
    ar_step s (s\<lparr>ar_term := (ar_term s)(v := T), ar_log := (ar_log s)(v := take_over (ar_log s v) H),
      ar_ack := (ar_ack s)(T := (ar_ack s T)(v := max (ar_ack s T v) (length H))),
      ar_commit := (ar_commit s)(v := max (ar_commit s v) lc)\<rparr>)"
| advance: "ar_lead s T = Some c \<Longrightarrow> ar_term s c = T \<Longrightarrow> committed s T k \<Longrightarrow> ar_commit s c \<le> k \<Longrightarrow>
    ar_step s (s\<lparr>ar_commit := (ar_commit s)(c := k)\<rparr>)"
| reset: "v < ar_n s \<Longrightarrow> m \<le> ar_commit s v \<Longrightarrow> ar_step s (s\<lparr>ar_commit := (ar_commit s)(v := m)\<rparr>)"

subsection \<open>The invariant\<close>

text \<open>
  A list all of whose prefixes are prefixes of leaders' logs: the prefix up to an entry of term \<open>U\<close> is
  the prefix of the log of the leader of \<open>U\<close>. Two such lists that have an entry of the same term at the
  same index agree up to it.
\<close>

definition good :: "'c ARaft \<Rightarrow> 'c elog \<Rightarrow> bool" where
  "good s xs \<longleftrightarrow> (\<forall>k < length xs. ar_lead s (le_Term (xs ! k)) \<noteq> None \<and>
     take (Suc k) xs = take (Suc k) (ar_llog s (le_Term (xs ! k))))"

text \<open>
  Index \<open>k\<close> of term \<open>T\<close> may be committed now or later: a majority has acknowledged it or may still do so.
  Once this is false it stays false.
\<close>

definition may_ack :: "'c ARaft \<Rightarrow> int \<Rightarrow> nat \<Rightarrow> nat set" where
  "may_ack s T k = {v. v < ar_n s \<and> (k \<le> ar_ack s T v \<or> ar_term s v \<le> T)}"

definition choosable :: "'c ARaft \<Rightarrow> int \<Rightarrow> nat \<Rightarrow> bool" where
  "choosable s T k \<longleftrightarrow> own_entry s T k \<and> majority s (may_ack s T k)"

definition inv_votes :: "'c ARaft \<Rightarrow> bool" where
  "inv_votes s \<longleftrightarrow>
     (\<forall>v. 0 \<le> ar_term s v) \<and>
     (\<forall>T c v. (T, c, v) \<in> ar_grants s \<longrightarrow> v < ar_n s \<and> T \<le> ar_term s v \<and> (\<exists>H. (T, c, H) \<in> ar_reqs s)) \<and>
     (\<forall>T c c' v. (T, c, v) \<in> ar_grants s \<longrightarrow> (T, c', v) \<in> ar_grants s \<longrightarrow> c = c') \<and>
     (\<forall>T c H. (T, c, H) \<in> ar_reqs s \<longrightarrow> c < ar_n s \<and> 1 \<le> T \<and> T \<le> ar_term s c \<and> good s H \<and> (\<forall>e \<in> set H. le_Term e < T)) \<and>
     (\<forall>T c H H'. (T, c, H) \<in> ar_reqs s \<longrightarrow> (T, c, H') \<in> ar_reqs s \<longrightarrow> H = H') \<and>
     (\<forall>T c. ar_lead s T = Some c \<longrightarrow> c < ar_n s \<and> 1 \<le> T \<and> T \<le> ar_term s c \<and> majority s {v. (T, c, v) \<in> ar_grants s}) \<and>
     (\<forall>T. ar_lead s T = None \<longrightarrow> ar_llog s T = [] \<and> (\<forall>v. ar_ack s T v = 0))"

definition inv_logs :: "'c ARaft \<Rightarrow> bool" where
  "inv_logs s \<longleftrightarrow>
     (\<forall>v. good s (ar_log s v) \<and> (\<forall>e \<in> set (ar_log s v). le_Term e \<le> ar_term s v)) \<and>
     (\<forall>T. good s (ar_llog s T) \<and> (\<forall>e \<in> set (ar_llog s T). le_Term e \<le> T)) \<and>
     (\<forall>T H lc. (T, H, lc) \<in> ar_msgs s \<longrightarrow> ar_lead s T \<noteq> None \<and> is_prefix H (ar_llog s T) \<and> lc \<le> length H) \<and>
     (\<forall>T c. ar_lead s T = Some c \<longrightarrow> ar_term s c = T \<longrightarrow> ar_log s c = ar_llog s T) \<and>
     (\<forall>T v. ar_ack s T v \<le> length (ar_llog s T)) \<and> (\<forall>T v. 0 < ar_ack s T v \<longrightarrow> T \<le> ar_term s v)"

text \<open>Who has acknowledged an index that may be committed keeps it; later leaders have it; so had every voter's candidate.\<close>

definition inv_keep :: "'c ARaft \<Rightarrow> bool" where
  "inv_keep s \<longleftrightarrow>
     (\<forall>T k v. choosable s T k \<longrightarrow> k \<le> ar_ack s T v \<longrightarrow> take k (ar_log s v) = take k (ar_llog s T)) \<and>
     (\<forall>T T' k. choosable s T k \<longrightarrow> T < T' \<longrightarrow> ar_lead s T' \<noteq> None \<longrightarrow> take k (ar_llog s T') = take k (ar_llog s T)) \<and>
     (\<forall>T T' k c v H. choosable s T k \<longrightarrow> T < T' \<longrightarrow> (T', c, v) \<in> ar_grants s \<longrightarrow> (T', c, H) \<in> ar_reqs s \<longrightarrow>
        k \<le> ar_ack s T v \<longrightarrow> take k H = take k (ar_llog s T))"

text \<open>A prefix of a log that is known to be committed by a term not after \<open>T\<close>.\<close>

definition secure :: "'c ARaft \<Rightarrow> int \<Rightarrow> 'c elog \<Rightarrow> nat \<Rightarrow> bool" where
  "secure s T xs m \<longleftrightarrow> m \<le> length xs \<and>
     (m = 0 \<or> (\<exists>U k. committed s U k \<and> U \<le> T \<and> m \<le> k \<and> take m xs = take m (ar_llog s U)))"

definition inv_commit :: "'c ARaft \<Rightarrow> bool" where
  "inv_commit s \<longleftrightarrow>
     (\<forall>v. secure s (ar_term s v) (ar_log s v) (ar_commit s v)) \<and>
     (\<forall>T H lc. (T, H, lc) \<in> ar_msgs s \<longrightarrow> secure s T H lc)"

definition ar_inv :: "'c ARaft \<Rightarrow> bool" where
  "ar_inv s \<longleftrightarrow> inv_votes s \<and> inv_logs s \<and> inv_keep s \<and> inv_commit s"


subsection \<open>Prefixes and good lists\<close>

lemma is_prefix_refl [simp]: "is_prefix xs xs" and is_prefix_Nil [simp]: "is_prefix [] xs"
  and is_prefix_append [simp]: "is_prefix xs (xs @ ys)"
  by (simp_all add: is_prefix_def)

lemma is_prefix_take [simp]: "is_prefix (take m xs) xs"
  by (simp add: is_prefix_def min_def)

lemma is_prefix_length: "is_prefix xs ys \<Longrightarrow> length xs \<le> length ys"
  unfolding is_prefix_def by (metis length_take min.cobounded1)

lemma is_prefix_takeD: "is_prefix xs ys \<Longrightarrow> k \<le> length xs \<Longrightarrow> take k ys = take k xs"
  unfolding is_prefix_def by (metis min.absorb1 take_take)

lemma is_prefix_nth: "is_prefix xs ys \<Longrightarrow> k < length xs \<Longrightarrow> ys ! k = xs ! k"
  unfolding is_prefix_def by (metis nth_take)

lemma is_prefix_trans: "is_prefix xs ys \<Longrightarrow> is_prefix ys zs \<Longrightarrow> is_prefix xs zs"
  using is_prefix_length is_prefix_takeD unfolding is_prefix_def by metis

lemma is_prefix_set: "is_prefix xs ys \<Longrightarrow> set xs \<subseteq> set ys"
  unfolding is_prefix_def by (metis set_take_subset)

text \<open>A list that agrees with another one up to an index of the other reaches that index.\<close>

lemma take_eq_length: "take k xs = take k ys \<Longrightarrow> k \<le> length ys \<Longrightarrow> k \<le> length xs"
  by (metis length_take min.absorb2 min.cobounded1)

lemma take_eq_le: "take k xs = take k ys \<Longrightarrow> m \<le> k \<Longrightarrow> take m xs = take m ys"
  by (metis min.absorb1 take_take)

lemma take_eq_nth: "take k xs = take k ys \<Longrightarrow> i < k \<Longrightarrow> xs ! i = ys ! i"
  by (metis nth_take)

lemma goodD:
  assumes "good s xs" "k < length xs"
  shows "ar_lead s (le_Term (xs ! k)) \<noteq> None" "take (Suc k) xs = take (Suc k) (ar_llog s (le_Term (xs ! k)))"
    and "k < length (ar_llog s (le_Term (xs ! k)))"
proof -
  show a: "ar_lead s (le_Term (xs ! k)) \<noteq> None" and b: "take (Suc k) xs = take (Suc k) (ar_llog s (le_Term (xs ! k)))"
    using assms by (auto simp: good_def)
  show "k < length (ar_llog s (le_Term (xs ! k)))"
    using take_eq_length [OF b [symmetric]] assms(2) by simp
qed

lemma good_Nil [simp]: "good s []"
  by (simp add: good_def)

lemma good_prefix: "good s ys \<Longrightarrow> is_prefix xs ys \<Longrightarrow> good s xs"
  unfolding good_def
  by (metis Suc_leI is_prefix_length is_prefix_nth is_prefix_takeD less_le_trans)

text \<open>Log matching: an entry of the same term at the same index means the same prefix.\<close>

lemma good_match:
  assumes "good s xs" "good s ys" "k < length xs" "k < length ys" "le_Term (xs ! k) = le_Term (ys ! k)"
  shows "take (Suc k) xs = take (Suc k) ys"
  using goodD(2) [OF assms(1,3)] goodD(2) [OF assms(2,4)] assms(5) by simp

lemma good_mono:
  assumes "good s xs" "inv_logs s" "i \<le> k" "k < length xs"
  shows "le_Term (xs ! i) \<le> le_Term (xs ! k)"
proof -
  let ?U = "le_Term (xs ! k)"
  have "xs ! i = ar_llog s ?U ! i"
    by (rule take_eq_nth [OF goodD(2) [OF assms(1,4)]]) (use assms(3) in simp)
  moreover have "i < length (ar_llog s ?U)" using goodD(3) [OF assms(1,4)] assms(3) by simp
  ultimately have "xs ! i \<in> set (ar_llog s ?U)" by simp
  then show ?thesis using assms(2) by (auto simp: inv_logs_def)
qed

lemma good_last:
  assumes "good s xs" "xs \<noteq> []"
  shows "ar_lead s (last_term xs) \<noteq> None" "is_prefix xs (ar_llog s (last_term xs))"
  using goodD(1,2) [OF assms(1), of "length xs - 1"] assms(2)
  by (auto simp: last_term_def last_conv_nth is_prefix_def)

subsection \<open>Progress of the state\<close>

text \<open>
  What every step keeps: leaders' logs only grow, acknowledgements of a term come from peers that have
  not left it.
\<close>

definition ext :: "'c ARaft \<Rightarrow> 'c ARaft \<Rightarrow> bool" where
  "ext s s' \<longleftrightarrow> ar_n s' = ar_n s \<and>
     (\<forall>T c. ar_lead s T = Some c \<longrightarrow> ar_lead s' T = Some c) \<and>
     (\<forall>T. is_prefix (ar_llog s T) (ar_llog s' T)) \<and>
     (\<forall>v. ar_term s v \<le> ar_term s' v) \<and>
     (\<forall>T v. ar_ack s T v \<le> ar_ack s' T v) \<and>
     (\<forall>T v. ar_ack s' T v = ar_ack s T v \<or> ar_term s v \<le> T)"

lemma extD:
  assumes "ext s s'"
  shows "ar_n s' = ar_n s" "ar_lead s T = Some c \<Longrightarrow> ar_lead s' T = Some c" "ar_lead s T \<noteq> None \<Longrightarrow> ar_lead s' T \<noteq> None"
    "is_prefix (ar_llog s T) (ar_llog s' T)" "ar_term s v \<le> ar_term s' v" "ar_ack s T v \<le> ar_ack s' T v"
    "ar_ack s' T v = ar_ack s T v \<or> ar_term s v \<le> T"
  using assms by (auto simp: ext_def)

lemma ext_refl [simp]: "ext s s"
  by (simp add: ext_def)

lemma good_ext:
  assumes "ext s s'" "good s xs"
  shows "good s' xs"
  unfolding good_def
proof (intro allI impI conjI)
  fix k assume k: "k < length xs"
  let ?U = "le_Term (xs ! k)"
  show "ar_lead s' ?U \<noteq> None" using extD(3) [OF assms(1)] goodD(1) [OF assms(2) k] by blast
  show "take (Suc k) xs = take (Suc k) (ar_llog s' ?U)"
    using is_prefix_takeD [OF extD(4) [OF assms(1)], of "Suc k"] goodD(2,3) [OF assms(2) k] by simp
qed

lemma majority_mono: "majority s Q \<Longrightarrow> Q \<subseteq> Q' \<Longrightarrow> Q' \<subseteq> {..<ar_n s'} \<Longrightarrow> ar_n s' = ar_n s \<Longrightarrow> majority s' Q'"
  unfolding majority_def using card_mono [of Q' Q] finite_subset [of Q' "{..<ar_n s}"] by force

lemma majority_meet: "majority s P \<Longrightarrow> majority s Q \<Longrightarrow> \<exists>v. v \<in> P \<and> v \<in> Q"
  using majorities_meet [of "{..<ar_n s}" P Q] by (auto simp: majority_def)

lemma own_entry_ext: "ext s s' \<Longrightarrow> own_entry s T k \<Longrightarrow> own_entry s' T k"
  unfolding own_entry_def
  using is_prefix_nth [OF extD(4), of s s' "k - 1" T] is_prefix_length [OF extD(4), of s s' T] by fastforce

lemma committed_ext:
  assumes "ext s s'" "committed s T k"
  shows "committed s' T k"
  unfolding committed_def
proof
  show "own_entry s' T k" using assms own_entry_ext by (auto simp: committed_def)
  show "majority s' (acked s' T k)"
    by (rule majority_mono [of s "acked s T k"])
      (use assms extD(1,6) [OF assms(1)] in \<open>auto simp: committed_def acked_def intro: order_trans\<close>)
qed

lemma committed_choosable: "committed s T k \<Longrightarrow> choosable s T k"
  unfolding committed_def choosable_def
  by (auto intro: majority_mono simp: acked_def may_ack_def)

lemma choosable_back:
  assumes "ext s s'" "choosable s' T k" "own_entry s T k"
  shows "choosable s T k"
  unfolding choosable_def
proof
  show "majority s (may_ack s T k)"
  proof (rule majority_mono [of s' "may_ack s' T k"])
    show "may_ack s' T k \<subseteq> may_ack s T k"
      using extD(1,5,7) [OF assms(1)] unfolding may_ack_def by (auto intro: order_trans) (metis order_trans)+
  qed (use assms extD(1) [OF assms(1)] in \<open>auto simp: choosable_def may_ack_def\<close>)
qed (rule assms(3))

lemma secure_ext:
  assumes "ext s s'" "secure s T xs m" "T \<le> T'"
  shows "secure s' T' xs m"
proof -
  { fix U k assume c: "committed s U k" and h: "m \<le> k" "take m xs = take m (ar_llog s U)" "U \<le> T"
    have "k \<le> length (ar_llog s U)" using c by (simp add: committed_def own_entry_def)
    with h have "take m xs = take m (ar_llog s' U)"
      using is_prefix_takeD [OF extD(4) [OF assms(1)], of m U] by simp
    with c h assms(3) have "\<exists>U k. committed s' U k \<and> U \<le> T' \<and> m \<le> k \<and> take m xs = take m (ar_llog s' U)"
      using committed_ext [OF assms(1) c] by (meson order_trans) }
  then show ?thesis using assms(2) by (auto simp: secure_def)
qed

lemma secure_take: "secure s T xs m \<Longrightarrow> m' \<le> m \<Longrightarrow> m' \<le> j \<Longrightarrow> secure s T (take j xs) m'"
  unfolding secure_def by (auto simp: min_def intro: order_trans take_eq_le)

lemma secure_prefix: "secure s T xs m \<Longrightarrow> is_prefix xs ys \<Longrightarrow> secure s T ys m"
  unfolding secure_def using is_prefix_takeD [of xs ys m] is_prefix_length [of xs ys] by auto


subsection \<open>Every step is progress\<close>

lemma inv_votesD:
  assumes "inv_votes s"
  shows "0 \<le> ar_term s v"
    "(T, c, v) \<in> ar_grants s \<Longrightarrow> v < ar_n s" "(T, c, v) \<in> ar_grants s \<Longrightarrow> T \<le> ar_term s v"
    "(T, c, v) \<in> ar_grants s \<Longrightarrow> \<exists>H. (T, c, H) \<in> ar_reqs s"
    "(T, c, v) \<in> ar_grants s \<Longrightarrow> (T, c', v) \<in> ar_grants s \<Longrightarrow> c = c'"
    "(T, c, H) \<in> ar_reqs s \<Longrightarrow> c < ar_n s" "(T, c, H) \<in> ar_reqs s \<Longrightarrow> 1 \<le> T"
    "(T, c, H) \<in> ar_reqs s \<Longrightarrow> T \<le> ar_term s c" "(T, c, H) \<in> ar_reqs s \<Longrightarrow> good s H"
    "(T, c, H) \<in> ar_reqs s \<Longrightarrow> e \<in> set H \<Longrightarrow> le_Term e < T"
    "(T, c, H) \<in> ar_reqs s \<Longrightarrow> (T, c, H') \<in> ar_reqs s \<Longrightarrow> H = H'"
    "ar_lead s T = Some c \<Longrightarrow> c < ar_n s" "ar_lead s T = Some c \<Longrightarrow> 1 \<le> T" "ar_lead s T = Some c \<Longrightarrow> T \<le> ar_term s c"
    "ar_lead s T = Some c \<Longrightarrow> majority s {v. (T, c, v) \<in> ar_grants s}"
    "ar_lead s T = None \<Longrightarrow> ar_llog s T = []" "ar_lead s T = None \<Longrightarrow> ar_ack s T v = 0"
  using assms unfolding inv_votes_def by (blast | simp)+

lemma inv_logsD:
  assumes "inv_logs s"
  shows "good s (ar_log s v)" "e \<in> set (ar_log s v) \<Longrightarrow> le_Term e \<le> ar_term s v"
    "good s (ar_llog s T)" "e \<in> set (ar_llog s T) \<Longrightarrow> le_Term e \<le> T"
    "(T, H, lc) \<in> ar_msgs s \<Longrightarrow> ar_lead s T \<noteq> None" "(T, H, lc) \<in> ar_msgs s \<Longrightarrow> is_prefix H (ar_llog s T)"
    "(T, H, lc) \<in> ar_msgs s \<Longrightarrow> lc \<le> length H"
    "ar_lead s T = Some c \<Longrightarrow> ar_term s c = T \<Longrightarrow> ar_log s c = ar_llog s T"
    "ar_ack s T v \<le> length (ar_llog s T)" "0 < ar_ack s T v \<Longrightarrow> T \<le> ar_term s v"
  using assms unfolding inv_logs_def by (blast | simp)+

lemma inv_keepD:
  assumes "inv_keep s" "choosable s T k"
  shows "k \<le> ar_ack s T v \<Longrightarrow> take k (ar_log s v) = take k (ar_llog s T)"
    "T < T' \<Longrightarrow> ar_lead s T' \<noteq> None \<Longrightarrow> take k (ar_llog s T') = take k (ar_llog s T)"
    "T < T' \<Longrightarrow> (T', c, v) \<in> ar_grants s \<Longrightarrow> (T', c, H) \<in> ar_reqs s \<Longrightarrow> k \<le> ar_ack s T v \<Longrightarrow>
       take k H = take k (ar_llog s T)"
  using assms unfolding inv_keep_def by blast+

lemma step_ext:
  assumes "ar_step s s'" "inv_votes s" "inv_logs s"
  shows "ext s s'"
  using assms(1)
proof cases
  case (append T c e)
  have "ar_log s c = ar_llog s T" by (rule inv_logsD(8) [OF assms(3) append(2,3)])
  then show ?thesis unfolding append(1) ext_def using append inv_logsD(9) [OF assms(3), of T c] by auto
next
  case (lead c T Q)
  have "ar_llog s T = []" "ar_ack s T v = 0" for v using inv_votesD(16,17) [OF assms(2) lead(4)] by blast+
  then show ?thesis unfolding lead(1) ext_def using lead by auto
qed (auto simp: ext_def)

subsection \<open>Votes and logs\<close>

lemma majority_iff: "ar_n s' = ar_n s \<Longrightarrow> majority s' Q = majority s Q"
  by (simp add: majority_def)

lemma majority_grants:
  assumes "inv_votes s" "majority s Q" "\<And>v. v \<in> Q \<Longrightarrow> (T, c, v) \<in> ar_grants s"
  shows "majority s {v. (T, c, v) \<in> ar_grants s}"
  by (rule majority_mono [OF assms(2)]) (use assms(3) inv_votesD(2) [OF assms(1)] in auto)

text \<open>\<open>inv_votes\<close> when the votes and candidacies stay as they are.\<close>

lemma inv_votes_same:
  assumes "inv_votes s" "ext s s'" "ar_reqs s' = ar_reqs s" "ar_grants s' = ar_grants s" "ar_lead s' = ar_lead s"
    and "\<And>T. ar_lead s T = None \<Longrightarrow> ar_llog s' T = ar_llog s T \<and> (\<forall>v. ar_ack s' T v = ar_ack s T v)"
  shows "inv_votes s'"
proof -
  note D = inv_votesD [OF assms(1)] and E = extD [OF assms(2)]
  have t: "T \<le> ar_term s v \<Longrightarrow> T \<le> ar_term s' v" for T v using E(5) by (meson order_trans)
  have m: "majority s' Q = majority s Q" for Q by (rule majority_iff [OF E(1)])
  show ?thesis unfolding inv_votes_def assms(3-5) E(1) m
  proof (intro conjI allI impI)
    show "0 \<le> ar_term s' v" for v by (rule t [OF D(1)])
  qed (use D t good_ext [OF assms(2)] assms(6) in \<open>blast | simp\<close>)+
qed

lemma inv_votes_step:
  assumes "ar_step s s'" "inv_votes s" "inv_logs s"
  shows "inv_votes s'"
proof -
  note D = inv_votesD [OF assms(2)] and L = inv_logsD [OF assms(3)]
  have e: "ext s s'" by (rule step_ext [OF assms])
  note E = extD [OF e] and g = good_ext [OF e]
  have t: "T \<le> ar_term s v \<Longrightarrow> T \<le> ar_term s' v" for T v using E(5) by (meson order_trans)
  have t0: "0 \<le> ar_term s' v" for v by (rule t [OF D(1)])
  have m: "majority s' Q = majority s Q" for Q by (rule majority_iff [OF E(1)])
  show ?thesis using assms(1)
  proof cases
    case (candidate c T)
    have fresh: "(T, c, H) \<notin> ar_reqs s" and freshg: "(T, c', c) \<notin> ar_grants s" for c' H
      using D(8) [of T c H] D(3) [of T c' c] candidate(3) by force+
    have q: "majority s {v. (T', c', v) \<in> ar_grants s} \<Longrightarrow> majority s {v. (T', c', v) \<in> ar_grants s'}" for T' c'
      by (rule majority_mono) (use D(2) candidate(1,2) in auto)
    show ?thesis unfolding inv_votes_def m E(1)
    proof (intro conjI)
      show "\<forall>v. 0 \<le> ar_term s' v" using t0 by blast
      show "\<forall>T c v. (T, c, v) \<in> ar_grants s' \<longrightarrow> v < ar_n s \<and> T \<le> ar_term s' v \<and> (\<exists>H. (T, c, H) \<in> ar_reqs s')"
        using D(2,3,4) t candidate(2) by (fastforce simp: candidate(1))
      show "\<forall>T c c' v. (T, c, v) \<in> ar_grants s' \<longrightarrow> (T, c', v) \<in> ar_grants s' \<longrightarrow> c = c'"
        using D(5) freshg by (auto simp: candidate(1))
      show "\<forall>T c H. (T, c, H) \<in> ar_reqs s' \<longrightarrow> c < ar_n s \<and> 1 \<le> T \<and> T \<le> ar_term s' c \<and> good s' H \<and> (\<forall>e\<in>set H. le_Term e < T)"
        using D(6,7,8,9,10) t g L(1,2) candidate(2,3) D(1) by (fastforce simp: candidate(1))
      show "\<forall>T c H H'. (T, c, H) \<in> ar_reqs s' \<longrightarrow> (T, c, H') \<in> ar_reqs s' \<longrightarrow> H = H'"
        using D(11) fresh by (auto simp: candidate(1))
      show "\<forall>T c. ar_lead s' T = Some c \<longrightarrow> c < ar_n s \<and> 1 \<le> T \<and> T \<le> ar_term s' c \<and> majority s {v. (T, c, v) \<in> ar_grants s'}"
        using D(12,13,14,15) t q by (simp add: candidate(1))
      show "\<forall>T. ar_lead s' T = None \<longrightarrow> ar_llog s' T = [] \<and> (\<forall>v. ar_ack s' T v = 0)"
        using D(16,17) by (simp add: candidate(1))
    qed
  next
    case (grant v T c H)
    have q: "majority s {v. (T', c', v) \<in> ar_grants s} \<Longrightarrow> majority s {v. (T', c', v) \<in> ar_grants s'}" for T' c'
      by (rule majority_mono) (use D(2) grant(1,2) in auto)
    show ?thesis unfolding inv_votes_def m E(1)
    proof (intro conjI)
      show "\<forall>v. 0 \<le> ar_term s' v" using t0 by blast
      show "\<forall>T c v. (T, c, v) \<in> ar_grants s' \<longrightarrow> v < ar_n s \<and> T \<le> ar_term s' v \<and> (\<exists>H. (T, c, H) \<in> ar_reqs s')"
        using D(2,3,4) t grant(2,3) by (fastforce simp: grant(1))
      show "\<forall>T c c' v. (T, c, v) \<in> ar_grants s' \<longrightarrow> (T, c', v) \<in> ar_grants s' \<longrightarrow> c = c'"
        using D(5) grant(6) by (auto simp: grant(1))
      show "\<forall>T c H. (T, c, H) \<in> ar_reqs s' \<longrightarrow> c < ar_n s \<and> 1 \<le> T \<and> T \<le> ar_term s' c \<and> good s' H \<and> (\<forall>e\<in>set H. le_Term e < T)"
        using D(6,7,8,9,10) t g by (simp add: grant(1))
      show "\<forall>T c H H'. (T, c, H) \<in> ar_reqs s' \<longrightarrow> (T, c, H') \<in> ar_reqs s' \<longrightarrow> H = H'"
        using D(11) by (auto simp: grant(1))
      show "\<forall>T c. ar_lead s' T = Some c \<longrightarrow> c < ar_n s \<and> 1 \<le> T \<and> T \<le> ar_term s' c \<and> majority s {v. (T, c, v) \<in> ar_grants s'}"
        using D(12,13,14,15) t q by (simp add: grant(1))
      show "\<forall>T. ar_lead s' T = None \<longrightarrow> ar_llog s' T = [] \<and> (\<forall>v. ar_ack s' T v = 0)"
        using D(16,17) by (simp add: grant(1))
    qed
  next
    case (lead c T Q)
    show ?thesis unfolding inv_votes_def m E(1)
    proof (intro conjI)
      show "\<forall>v. 0 \<le> ar_term s' v" using t0 by blast
      show "\<forall>T c. ar_lead s' T = Some c \<longrightarrow> c < ar_n s \<and> 1 \<le> T \<and> T \<le> ar_term s' c \<and> majority s {v. (T, c, v) \<in> ar_grants s'}"
        using D(12,13,14,15) D(7) [OF lead(5)] lead(2,3) majority_grants [OF assms(2) lead(6,7)] by (simp add: lead(1))
      show "\<forall>T c H. (T, c, H) \<in> ar_reqs s' \<longrightarrow> c < ar_n s \<and> 1 \<le> T \<and> T \<le> ar_term s' c \<and> good s' H \<and> (\<forall>e\<in>set H. le_Term e < T)"
        using D(6,7,8,9,10) t g by (simp add: lead(1))
    qed (use D(2,3,4,5,11,16,17) in \<open>auto simp: lead(1)\<close>)
  qed (rule inv_votes_same [OF assms(2) e]; use L(5) in force)+
qed


text \<open>What a step does to one peer's log.\<close>

lemma take_over_cases: "take_over xs ys = xs \<and> is_prefix ys xs \<or> take_over xs ys = ys \<and> \<not> is_prefix ys xs"
  by (simp add: take_over_def)

lemma take_over_set: "e \<in> set (take_over xs ys) \<Longrightarrow> e \<in> set xs \<or> e \<in> set ys"
  by (simp add: take_over_def split: if_splits)

lemma inv_logs_same:
  assumes "inv_logs s" "ext s s'" "ar_log s' = ar_log s" "ar_llog s' = ar_llog s" "ar_lead s' = ar_lead s" "ar_ack s' = ar_ack s"
    and "\<And>T H lc. (T, H, lc) \<in> ar_msgs s' \<Longrightarrow> (T, H, lc) \<in> ar_msgs s \<or>
      ar_lead s T \<noteq> None \<and> is_prefix H (ar_llog s T) \<and> lc \<le> length H"
    and "\<And>T c. ar_lead s T = Some c \<Longrightarrow> ar_term s' c = T \<Longrightarrow> ar_term s c = T"
  shows "inv_logs s'"
proof -
  note L = inv_logsD [OF assms(1)] and E = extD [OF assms(2)]
  have t: "T \<le> ar_term s v \<Longrightarrow> T \<le> ar_term s' v" for T v using E(5) by (meson order_trans)
  show ?thesis unfolding inv_logs_def assms(3-6)
  proof (intro conjI allI impI ballI)
  qed (use L t good_ext [OF assms(2)] assms(7,8) in \<open>blast | simp\<close>)+
qed

lemma inv_logs_step:
  assumes "ar_step s s'" "inv_votes s" "inv_logs s"
  shows "inv_logs s'"
proof -
  note D = inv_votesD [OF assms(2)] and L = inv_logsD [OF assms(3)]
  have e: "ext s s'" by (rule step_ext [OF assms])
  note E = extD [OF e] and g = good_ext [OF e]
  have t: "T \<le> ar_term s v \<Longrightarrow> T \<le> ar_term s' v" for T v using E(5) by (meson order_trans)
  show ?thesis using assms(1)
  proof cases
    case (lead c T Q)
    have lt: "x \<in> set (ar_log s c) \<Longrightarrow> le_Term x < T" for x by (rule D(10) [OF lead(5)])
    have nm: "(T, H, lc) \<notin> ar_msgs s" for H lc using L(5) lead(4) by blast
    show ?thesis unfolding inv_logs_def
      by (intro conjI allI impI ballI)
        (use L t g lt nm D(17) [OF lead(4)] lead(3,4) in \<open>auto simp: lead(1) split: if_splits dest: less_imp_le\<close>)
  next
    case (append T c x)
    have eq: "ar_log s c = ar_llog s T" by (rule L(8) [OF append(2,3)])
    have gx: "good s' (ar_llog s T @ [x])"
      unfolding good_def
    proof (intro allI impI)
      fix k assume "k < length (ar_llog s T @ [x])"
      then consider "k < length (ar_llog s T)" | "k = length (ar_llog s T)" by force
      then show "ar_lead s' (le_Term ((ar_llog s T @ [x]) ! k)) \<noteq> None \<and>
        take (Suc k) (ar_llog s T @ [x]) = take (Suc k) (ar_llog s' (le_Term ((ar_llog s T @ [x]) ! k)))"
      proof cases
        case 1
        then show ?thesis using g [OF L(3) [of T]] by (auto simp: good_def nth_append)
      next
        case 2
        then show ?thesis using append(2,4) by (simp add: append(1))
      qed
    qed
    show ?thesis unfolding inv_logs_def
    proof (intro conjI)
      show "\<forall>v. good s' (ar_log s' v) \<and> (\<forall>y\<in>set (ar_log s' v). le_Term y \<le> ar_term s' v)"
        using g L(1,2) gx append(3,4) eq L(4) by (auto simp: append(1))
      show "\<forall>T. good s' (ar_llog s' T) \<and> (\<forall>y\<in>set (ar_llog s' T). le_Term y \<le> T)"
        using g L(3,4) gx append(4) by (auto simp: append(1))
      show "\<forall>T H lc. (T, H, lc) \<in> ar_msgs s' \<longrightarrow> ar_lead s' T \<noteq> None \<and> is_prefix H (ar_llog s' T) \<and> lc \<le> length H"
      proof (intro allI impI)
        fix T' H lc assume "(T', H, lc) \<in> ar_msgs s'"
        then have "(T', H, lc) \<in> ar_msgs s" by (simp add: append(1))
        from L(5,6,7) [OF this] show "ar_lead s' T' \<noteq> None \<and> is_prefix H (ar_llog s' T') \<and> lc \<le> length H"
          using E(3) is_prefix_trans [OF _ E(4)] by blast
      qed
      show "\<forall>T c. ar_lead s' T = Some c \<longrightarrow> ar_term s' c = T \<longrightarrow> ar_log s' c = ar_llog s' T"
        using L(8) eq append(2,3) by (auto simp: append(1))
      show "\<forall>T v. ar_ack s' T v \<le> length (ar_llog s' T)"
        using L(9) eq by (auto simp: append(1) intro: le_SucI)
      show "\<forall>T v. 0 < ar_ack s' T v \<longrightarrow> T \<le> ar_term s' v"
        using L(10) append(3) by (auto simp: append(1))
    qed
  next
    case (recv v T H lc)
    note H = L(5,6,7) [OF recv(3)]
    have eq: "take_over (ar_log s v) H = ar_llog s T'" if "ar_lead s T' = Some v" "T = T'" for T'
    proof -
      have "ar_term s v = T'" using D(14) [OF that(1)] recv(4) that(2) by simp
      then have "ar_log s v = ar_llog s T'" using L(8) that(1) by blast
      then show ?thesis using H(2) that(2) by (simp add: take_over_def)
    qed
    have gt: "good s' (take_over (ar_log s v) H)"
      using take_over_cases [of "ar_log s v" H] g L(1,3) good_prefix [OF _ H(2)] by auto
    have tt: "x \<in> set (take_over (ar_log s v) H) \<Longrightarrow> le_Term x \<le> T" for x
      using take_over_set [of x] L(2) [of x v] L(4) [of x T] is_prefix_set [OF H(2)] recv(4) by force
    have av: "0 < ar_ack s T' v \<Longrightarrow> T' \<le> T" for T' using L(10) recv(4) by (meson order_trans)
    show ?thesis unfolding inv_logs_def
      by (intro conjI allI impI ballI)
        (use L t g eq gt tt av is_prefix_length [OF H(2)] recv(4) in \<open>auto simp: recv(1) split: if_splits\<close>)
  next
    case (send T c lc m)
    show ?thesis
      by (rule inv_logs_same [OF assms(3) e]) (use L(8) [OF send(2,3)] send in auto)
  next
    case (newterm v T)
    show ?thesis
      by (rule inv_logs_same [OF assms(3) e]) (use D(14) newterm in \<open>auto split: if_splits intro: antisym\<close>)
  next
    case (candidate c T)
    show ?thesis
      by (rule inv_logs_same [OF assms(3) e]) (use D(14) candidate in \<open>fastforce split: if_splits\<close>)+
  next
    case (grant v T c H)
    show ?thesis
      by (rule inv_logs_same [OF assms(3) e]) (use D(14) grant in \<open>auto split: if_splits intro: antisym\<close>)
  qed (rule inv_logs_same [OF assms(3) e]; force)+
qed


subsection \<open>What may be committed is kept\<close>

lemma own_entry_lead: "inv_votes s \<Longrightarrow> own_entry s T k \<Longrightarrow> ar_lead s T \<noteq> None"
  using inv_votesD(16) [of s T] by (cases "ar_lead s T") (auto simp: own_entry_def)

lemma choosable_length: "choosable s T k \<Longrightarrow> 1 \<le> k \<and> k \<le> length (ar_llog s T)"
  by (simp add: choosable_def own_entry_def)

text \<open>Entries of a term come into being by \<open>append\<close> only.\<close>

lemma own_entry_back:
  assumes "ar_step s s'" "inv_votes s" "own_entry s' T k"
  shows "own_entry s T k \<or>
    (\<exists>c. ar_lead s T = Some c \<and> ar_term s c = T \<and> k = Suc (length (ar_llog s T)) \<and> ar_log s' c = ar_llog s' T \<and>
      ar_term s' = ar_term s \<and> ar_grants s' = ar_grants s \<and> ar_lead s' = ar_lead s \<and>
      (\<forall>v. v \<noteq> c \<longrightarrow> ar_ack s' T v = ar_ack s T v)) \<or> \<not> inv_logs s"
  using assms(1)
proof cases
  case (lead c T' Q)
  have "\<not> own_entry s' T' k"
    using inv_votesD(10) [OF assms(2) lead(5)] nth_mem [of "k - 1" "ar_log s c"] by (force simp: own_entry_def lead(1))
  then show ?thesis using assms(3) by (auto simp: own_entry_def lead(1) split: if_splits)
next
  case (append T' c x)
  show ?thesis
  proof (cases "inv_logs s")
    case True
    have "ar_log s c = ar_llog s T'" by (rule inv_logsD(8) [OF True append(2,3)])
    then show ?thesis using assms(3) append(2,3)
      by (cases "T = T'") (auto simp: own_entry_def append(1) nth_append le_Suc_eq split: if_splits)
  qed simp
qed (use assms(3) in \<open>auto simp: own_entry_def\<close>)

text \<open>
  An entry that has just been appended may be committed only while no later term has a leader, and only
  its leader has acknowledged it.
\<close>

lemma choosable_step:
  assumes "ar_step s s'" "inv_votes s" "inv_logs s" "choosable s' T k"
  shows "choosable s T k \<or>
    (\<forall>v. k \<le> ar_ack s' T v \<longrightarrow> ar_log s' v = ar_llog s' T \<and> ar_term s' v = T) \<and> (\<forall>T' > T. ar_lead s' T' = None)"
proof -
  note D = inv_votesD [OF assms(2)]
  have e: "ext s s'" by (rule step_ext [OF assms(1-3)])
  from assms(4) have o: "own_entry s' T k" and maj: "majority s' (may_ack s' T k)" by (simp_all add: choosable_def)
  show ?thesis
  proof (cases "own_entry s T k")
    case True
    then show ?thesis using choosable_back [OF e assms(4)] by blast
  next
    case False
    then obtain c where c: "ar_lead s T = Some c" "ar_term s c = T" "k = Suc (length (ar_llog s T))"
      "ar_log s' c = ar_llog s' T" "ar_term s' = ar_term s" "ar_grants s' = ar_grants s" "ar_lead s' = ar_lead s"
      and ack: "\<And>v. v \<noteq> c \<Longrightarrow> ar_ack s' T v = ar_ack s T v"
      using own_entry_back [OF assms(1,2) o] assms(3) by blast
    have only: "v = c" if "k \<le> ar_ack s' T v" for v
      using that ack [of v] inv_logsD(9) [OF assms(3), of T v] c(3) by force
    have "ar_lead s' T' = None" if "T < T'" for T'
    proof (rule ccontr)
      assume "ar_lead s' T' \<noteq> None"
      then obtain c' where "ar_lead s T' = Some c'" using c(7) by auto
      from D(15) [OF this] have "majority s' {v. (T', c', v) \<in> ar_grants s}" by (simp add: majority_iff [OF extD(1) [OF e]])
      from majority_meet [OF maj this] obtain v where "v \<in> may_ack s' T k" "(T', c', v) \<in> ar_grants s" by blast
      moreover from this(2) have "T' \<le> ar_term s v" by (rule D(3))
      ultimately show False using only [of v] c(2,5) that by (auto simp: may_ack_def)
    qed
    with only c show ?thesis by auto
  qed
qed

text \<open>\<open>inv_keep\<close> needs to be looked at only for indices that could be committed before the step.\<close>

lemma inv_keep_intro:
  assumes "ar_step s s'" "inv_votes s" "inv_logs s"
    and "inv_votes s'"
    and 1: "\<And>T k v. choosable s T k \<Longrightarrow> choosable s' T k \<Longrightarrow> k \<le> ar_ack s' T v \<Longrightarrow> take k (ar_log s' v) = take k (ar_llog s T)"
    and 2: "\<And>T T' k. choosable s T k \<Longrightarrow> choosable s' T k \<Longrightarrow> T < T' \<Longrightarrow> ar_lead s' T' \<noteq> None \<Longrightarrow>
       take k (ar_llog s' T') = take k (ar_llog s T)"
    and 3: "\<And>T T' k c v H. choosable s T k \<Longrightarrow> choosable s' T k \<Longrightarrow> T < T' \<Longrightarrow> (T', c, v) \<in> ar_grants s' \<Longrightarrow> (T', c, H) \<in> ar_reqs s' \<Longrightarrow>
       k \<le> ar_ack s' T v \<Longrightarrow> take k H = take k (ar_llog s T)"
  shows "inv_keep s'"
proof -
  have e: "ext s s'" by (rule step_ext [OF assms(1-3)])
  have eq: "take k (ar_llog s' T) = take k (ar_llog s T)" if "choosable s T k" for T k
    using is_prefix_takeD [OF extD(4) [OF e]] choosable_length [OF that] by blast
  note st = choosable_step [OF assms(1-3)]
  show ?thesis unfolding inv_keep_def
  proof (intro conjI allI impI)
    fix T k v assume h: "choosable s' T k" "k \<le> ar_ack s' T v"
    then show "take k (ar_log s' v) = take k (ar_llog s' T)" using st [OF h(1)] 1 [OF _ h] eq by fastforce
  next
    fix T T' k assume h: "choosable s' T k" "T < T'" "ar_lead s' T' \<noteq> None"
    then show "take k (ar_llog s' T') = take k (ar_llog s' T)" using st [OF h(1)] 2 [OF _ h] eq by fastforce
  next
    fix T T' k c v H
    assume h: "choosable s' T k" "T < T'" "(T', c, v) \<in> ar_grants s'" "(T', c, H) \<in> ar_reqs s'" "k \<le> ar_ack s' T v"
    have "T' \<le> ar_term s' v" by (rule inv_votesD(3) [OF assms(4) h(3)])
    then show "take k H = take k (ar_llog s' T)" using st [OF h(1)] 3 [OF _ h] eq h(2,5) by fastforce
  qed
qed


text \<open>A candidate whose log is up to date with that of a voter has what the voter has.\<close>

lemma log_up_to_date_keeps:
  assumes "inv_votes s" "inv_logs s" "inv_keep s" "choosable s T k" "take k xs = take k (ar_llog s T)"
    and "good s xs" "good s H" "log_up_to_date H xs"
  shows "take k H = take k (ar_llog s T)"
proof -
  have k: "1 \<le> k" "k \<le> length (ar_llog s T)" "le_Term (ar_llog s T ! (k - 1)) = T"
    using assms(4) by (auto simp: choosable_def own_entry_def)
  have kx: "k \<le> length xs" by (rule take_eq_length [OF assms(5) k(2)])
  have T1: "1 \<le> T"
    using own_entry_lead [OF assms(1), of T k] assms(4) inv_votesD(13) [OF assms(1)] by (auto simp: choosable_def)
  have "xs ! (k - 1) = ar_llog s T ! (k - 1)" by (rule take_eq_nth [OF assms(5)]) (use k in simp)
  then have Tx: "T \<le> last_term xs"
    using good_mono [OF assms(6,2), of "k - 1" "length xs - 1"] kx k by (auto simp: last_term_def last_conv_nth)
  have xs: "xs \<noteq> []" using k kx by auto
  have H: "H \<noteq> []" using assms(8) Tx T1 by (auto simp: log_up_to_date_def last_term_def)
  note px = good_last(2) [OF assms(6) xs] and ph = good_last [OF assms(7) H]
  show ?thesis
  proof (cases "last_term H = last_term xs")
    case True
    then have len: "length xs \<le> length H" using assms(8) by (simp add: log_up_to_date_def)
    have "take k H = take k (ar_llog s (last_term H))"
      using is_prefix_takeD [OF ph(2), of k] kx len by simp
    also have "\<dots> = take k xs" using is_prefix_takeD [OF px kx] True by simp
    finally show ?thesis using assms(5) by simp
  next
    case False
    then have gt: "T < last_term H" using assms(8) Tx by (auto simp: log_up_to_date_def)
    have lc: "take k (ar_llog s (last_term H)) = take k (ar_llog s T)"
      by (rule inv_keepD(2) [OF assms(3,4) gt ph(1)])
    have "k \<le> length H"
    proof (rule ccontr)
      assume "\<not> k \<le> length H"
      then have i: "length H - 1 < k" by simp
      have "last H = ar_llog s (last_term H) ! (length H - 1)"
        using is_prefix_nth [OF ph(2), of "length H - 1"] H by (simp add: last_conv_nth)
      also have "\<dots> = ar_llog s T ! (length H - 1)" by (rule take_eq_nth [OF lc i])
      also have "\<dots> \<in> set (ar_llog s T)" using i k(2) by simp
      finally have "le_Term (last H) \<le> T" by (rule inv_logsD(4) [OF assms(2)])
      with gt H show False by (simp add: last_term_def)
    qed
    then show ?thesis using is_prefix_takeD [OF ph(2), of k] lc by simp
  qed
qed

text \<open>A follower that takes over a leader's log keeps every prefix that agrees with the leader's log.\<close>

lemma take_over_keeps:
  assumes "take k xs = take k L" "is_prefix H L" "k \<le> length L"
  shows "take k (take_over xs H) = take k L"
proof (cases "is_prefix H xs")
  case True
  then show ?thesis using assms(1) by (simp add: take_over_def)
next
  case False
  have "k \<le> length H"
  proof (rule ccontr)
    assume "\<not> k \<le> length H"
    then have "take (length H) xs = take (length H) L" using take_eq_le [OF assms(1), of "length H"] by simp
    with assms(2) False show False by (simp add: is_prefix_def)
  qed
  with False show ?thesis using is_prefix_takeD [OF assms(2), of k] by (simp add: take_over_def)
qed

lemma take_over_has: "is_prefix H L \<Longrightarrow> k \<le> length H \<Longrightarrow> take k (take_over xs H) = take k L"
  using is_prefix_takeD [of H L k] is_prefix_takeD [of H xs k] by (simp add: take_over_def)

lemma inv_keep_recv:
  assumes "inv_votes s" "inv_logs s" "inv_keep s" "(T0, H, lc) \<in> ar_msgs s" "ar_term s v \<le> T0" "choosable s T k"
    and "k \<le> (if T = T0 then max (ar_ack s T v) (length H) else ar_ack s T v)"
  shows "take k (take_over (ar_log s v) H) = take k (ar_llog s T)"
proof -
  note M = inv_logsD(5,6) [OF assms(2,4)] and len = choosable_length [OF assms(6)]
  show ?thesis
  proof (cases "k \<le> ar_ack s T v")
    case True
    have eq: "take k (ar_log s v) = take k (ar_llog s T)" by (rule inv_keepD(1) [OF assms(3,6) True])
    have "T \<le> ar_term s v" using inv_logsD(10) [OF assms(2), of T v] True len by simp
    then have "T \<le> T0" using assms(5) by simp
    then have L: "take k (ar_llog s T0) = take k (ar_llog s T)"
      using inv_keepD(2) [OF assms(3,6) _ M(1)] by (cases "T = T0") auto
    have "take k (take_over (ar_log s v) H) = take k (ar_llog s T0)"
      by (rule take_over_keeps) (use eq L M take_eq_length [OF L] len in auto)
    with L show ?thesis by simp
  next
    case False
    then have "T = T0" "k \<le> length H" using assms(7) by (auto split: if_splits)
    then show ?thesis using take_over_has [OF M(2)] by simp
  qed
qed

lemma inv_keep_step:
  assumes "ar_step s s'" "inv_votes s" "inv_logs s" "inv_keep s"
  shows "inv_keep s'"
proof -
  note D = inv_votesD [OF assms(2)] and L = inv_logsD [OF assms(3)] and K = inv_keepD [OF assms(4)]
  have e: "ext s s'" by (rule step_ext [OF assms(1-3)])
  have v': "inv_votes s'" by (rule inv_votes_step [OF assms(1-3)])
  note intro = inv_keep_intro [OF assms(1-3) v']
  show ?thesis using assms(1)
  proof cases
    case (candidate c T)
    have fresh: "(T, c, H) \<notin> ar_reqs s" "(T, c, v) \<notin> ar_grants s" for H v
      using D(8) [of T c H] D(4) [of T c v] D(8) [of T c] candidate(3) by force+
    show ?thesis
      by (rule intro) (use K fresh in \<open>auto simp: candidate(1) split: if_splits\<close>)
  next
    case (grant v T c H)
    have new: "take k H' = take k (ar_llog s T1)" if "choosable s T1 k" "(T, c, H') \<in> ar_reqs s" "k \<le> ar_ack s T1 v" for T1 k H'
      using log_up_to_date_keeps [OF assms(2-4) that(1) K(1) [OF that(1,3)] L(1) D(9) [OF grant(3)] grant(5)]
        D(11) [OF that(2) grant(3)] by simp
    show ?thesis
      by (rule intro) (use K new in \<open>auto simp: grant(1) split: if_splits\<close>)
  next
    case (lead c T Q)
    have no: "\<not> choosable s T k" for k using D(16) [OF lead(4)] by (auto simp: choosable_def own_entry_def)
    have new: "take k (ar_log s c) = take k (ar_llog s T1)" if "choosable s T1 k" "T1 < T" for T1 k
    proof -
      have "majority s (may_ack s T1 k)" using that(1) by (simp add: choosable_def)
      from majority_meet [OF this lead(6)] obtain v where "v \<in> may_ack s T1 k" "v \<in> Q" by blast
      then have g: "(T, c, v) \<in> ar_grants s" and "T \<le> ar_term s v" using lead(7) D(3) by blast+
      with \<open>v \<in> may_ack s T1 k\<close> that(2) have "k \<le> ar_ack s T1 v" by (auto simp: may_ack_def)
      then show ?thesis by (rule K(3) [OF that(1,2) g lead(5)])
    qed
    show ?thesis
      by (rule intro) (use K no new in \<open>auto simp: lead(1) split: if_splits\<close>)
  next
    case (append T c x)
    have eq: "ar_log s c = ar_llog s T" by (rule L(8) [OF append(2,3)])
    have len: "take k xs = take k (ar_llog s T1) \<Longrightarrow> choosable s T1 k \<Longrightarrow> k \<le> length xs" for k xs T1
      using take_eq_length choosable_length by blast
    have ll: "take k (ar_llog s T @ ys) = take k (ar_llog s T1)"
      if "choosable s T1 k" "T1 \<le> T" for T1 k ys
    proof -
      have "take k (ar_llog s T) = take k (ar_llog s T1)"
        using K(2) [OF that(1)] that(2) append(2) by (cases "T1 = T") auto
      with len [OF this that(1)] show ?thesis by simp
    qed
    have ll1: "take k (ar_llog s T @ ys) = take k (ar_llog s T1)"
      if "choosable s T1 k" "k \<le> ar_ack s T1 c" for T1 k ys
      using ll [OF that(1)] L(10) [of T1 c] choosable_length [OF that(1)] that(2) append(3) by simp
    show ?thesis
    proof (rule intro)
      fix T1 k v assume "choosable s T1 k" "k \<le> ar_ack s' T1 v"
      then show "take k (ar_log s' v) = take k (ar_llog s T1)"
        using K(1) ll ll1 eq by (auto simp: append(1) split: if_splits)
    next
      fix T1 T2 k assume "choosable s T1 k" "T1 < T2" "ar_lead s' T2 \<noteq> None"
      then show "take k (ar_llog s' T2) = take k (ar_llog s T1)"
        using K(2) [of T1 k T2] ll [of T1 k "[x]"] by (auto simp: append(1) split: if_splits)
    next
      fix T1 T2 k c' v H assume h: "choosable s T1 k" "T1 < T2" "(T2, c', v) \<in> ar_grants s'" "(T2, c', H) \<in> ar_reqs s'"
        "k \<le> ar_ack s' T1 v"
      moreover have "T2 \<le> ar_term s v" using D(3) h(3) by (simp add: append(1))
      ultimately show "take k H = take k (ar_llog s T1)"
        using K(3) [of T1 k T2 c' v H] append(3) by (auto simp: append(1) split: if_splits)
    qed
  next
    case (recv v T H lc)
    show ?thesis
    proof (rule intro)
      fix T1 k w assume "choosable s T1 k" "k \<le> ar_ack s' T1 w"
      then show "take k (ar_log s' w) = take k (ar_llog s T1)"
        using K(1) inv_keep_recv [OF assms(2-4) recv(3,4)] by (auto simp: recv(1) split: if_splits)
    next
      fix T1 T2 k assume "choosable s T1 k" "T1 < T2" "ar_lead s' T2 \<noteq> None"
      then show "take k (ar_llog s' T2) = take k (ar_llog s T1)" using K(2) by (simp add: recv(1))
    next
      fix T1 T2 k c' w H' assume h: "choosable s T1 k" "T1 < T2" "(T2, c', w) \<in> ar_grants s'" "(T2, c', H') \<in> ar_reqs s'"
        "k \<le> ar_ack s' T1 w"
      moreover have "T2 \<le> ar_term s w" using D(3) h(3) by (simp add: recv(1))
      ultimately show "take k H' = take k (ar_llog s T1)"
        using K(3) [of T1 k T2 c' w H'] recv(4) by (auto simp: recv(1) split: if_splits)
    qed
  qed (rule intro; use K in \<open>auto split: if_splits\<close>)+
qed


subsection \<open>What is committed is agreed upon\<close>

lemma inv_commitD:
  assumes "inv_commit s"
  shows "secure s (ar_term s v) (ar_log s v) (ar_commit s v)" "(T, H, lc) \<in> ar_msgs s \<Longrightarrow> secure s T H lc"
  using assms unfolding inv_commit_def by blast+

text \<open>A committed prefix is a prefix of the logs of all later leaders.\<close>

lemma secure_lead:
  assumes "inv_votes s" "inv_keep s" "secure s T xs m" "T \<le> T'" "ar_lead s T' \<noteq> None"
  shows "take m xs = take m (ar_llog s T')" "m \<le> length (ar_llog s T')"
proof -
  have "take m xs = take m (ar_llog s T') \<and> m \<le> length (ar_llog s T')"
  proof (cases "m = 0")
    case False
    then obtain U k where u: "committed s U k" "U \<le> T" "m \<le> k" "take m xs = take m (ar_llog s U)"
      using assms(3) by (auto simp: secure_def)
    note ch = committed_choosable [OF u(1)]
    have eq: "take k (ar_llog s T') = take k (ar_llog s U)"
      using inv_keepD(2) [OF assms(2) ch _ assms(5)] u(2) assms(4) by (cases "U = T'") auto
    then show ?thesis
      using take_eq_le [OF eq u(3)] take_eq_length [OF eq] choosable_length [OF ch] u(3,4) by simp
  qed simp
  then show "take m xs = take m (ar_llog s T')" "m \<le> length (ar_llog s T')" by auto
qed

lemma secure_agree_le:
  assumes "inv_votes s" "inv_keep s" "secure s T xs m" "secure s T' ys m'" "i < m" "i < m'"
  shows "xs ! i = ys ! i"
proof -
  obtain U k where u: "committed s U k" "m \<le> k" "take m xs = take m (ar_llog s U)"
    using assms(3,5) by (auto simp: secure_def)
  obtain U' k' where u': "committed s U' k'" "m' \<le> k'" "take m' ys = take m' (ar_llog s U')"
    using assms(4,6) by (auto simp: secure_def)
  note ch = committed_choosable [OF u(1)] and ch' = committed_choosable [OF u'(1)]
  have lead: "ar_lead s U \<noteq> None" "ar_lead s U' \<noteq> None"
    using own_entry_lead [OF assms(1)] u(1) u'(1) by (auto simp: committed_def)
  have "ar_llog s U ! i = ar_llog s U' ! i"
  proof (cases U U' rule: linorder_cases)
    case less
    show ?thesis using take_eq_nth [OF inv_keepD(2) [OF assms(2) ch less lead(2)], of i] u(2) assms(5) by simp
  next
    case greater
    show ?thesis using take_eq_nth [OF inv_keepD(2) [OF assms(2) ch' greater lead(1)], of i] u'(2) assms(6) by simp
  qed simp
  then show ?thesis using take_eq_nth [OF u(3) assms(5)] take_eq_nth [OF u'(3) assms(6)] by simp
qed

lemma secure_committed:
  assumes "committed s T k"
  shows "secure s T (ar_llog s T) k"
  using assms unfolding secure_def committed_def own_entry_def by blast

lemma inv_commit_same:
  assumes "inv_commit s" "ext s s'"
    and "\<And>v. is_prefix (ar_log s v) (ar_log s' v)" "\<And>v. ar_commit s' v \<le> ar_commit s v" "ar_msgs s' = ar_msgs s"
  shows "inv_commit s'"
proof -
  have "secure s' (ar_term s' v) (ar_log s' v) (ar_commit s' v)" for v
  proof -
    have "secure s' (ar_term s' v) (ar_log s v) (ar_commit s v)"
      by (rule secure_ext [OF assms(2) inv_commitD(1) [OF assms(1)] extD(5) [OF assms(2)]])
    from secure_take [OF this assms(4) order_refl]
    show ?thesis by (rule secure_prefix) (rule is_prefix_trans [OF is_prefix_take assms(3)])
  qed
  moreover have "secure s' T H lc" if "(T, H, lc) \<in> ar_msgs s'" for T H lc
    by (rule secure_ext [OF assms(2) _ order_refl]) (use that assms(5) inv_commitD(2) [OF assms(1)] in simp)
  ultimately show ?thesis unfolding inv_commit_def by blast
qed

lemma inv_commit_step:
  assumes "ar_step s s'" "inv_votes s" "inv_logs s" "inv_keep s" "inv_commit s"
  shows "inv_commit s'"
proof -
  note L = inv_logsD [OF assms(3)] and C = inv_commitD [OF assms(5)]
  have e: "ext s s'" by (rule step_ext [OF assms(1-3)])
  note X = secure_ext [OF e]
  show ?thesis using assms(1)
  proof cases
    case (send T c lc m)
    have "secure s T (take m (ar_log s c)) lc"
      by (rule secure_take [OF _ send(4,5)]) (use C(1) [of c] send(3) in simp)
    then have "secure s' T (take m (ar_log s c)) lc" by (rule X) simp
    moreover have "secure s' (ar_term s v) (ar_log s v) (ar_commit s v)" for v by (rule X [OF C(1)]) simp
    moreover have "(T', H, k) \<in> ar_msgs s \<Longrightarrow> secure s' T' H k" for T' H k by (rule X [OF C(2) order_refl])
    ultimately show ?thesis by (auto simp: inv_commit_def send(1))
  next
    case (recv v T H lc)
    have t: "ar_term s v \<le> ar_term s' v" by (rule extD(5) [OF e])
    have old: "secure s' (ar_term s w) (ar_log s w) (ar_commit s w)" for w by (rule X [OF C(1)]) simp
    have msg: "(T', H', k) \<in> ar_msgs s \<Longrightarrow> secure s' T' H' k" for T' H' k by (rule X [OF C(2) order_refl])
    note S = secure_lead [OF assms(2,4) C(1) recv(4) L(5) [OF recv(3)]]
    have keep: "take (ar_commit s v) (take_over (ar_log s v) H) = take (ar_commit s v) (ar_llog s T)"
      by (rule take_over_keeps [OF S(1) L(6) [OF recv(3)] S(2)])
    have "secure s' T (take_over (ar_log s v) H) (ar_commit s v)"
      using X [OF C(1) recv(4)] keep S take_eq_length [OF keep S(2)] unfolding secure_def by auto
    moreover have "secure s' T (take_over (ar_log s v) H) lc"
      using msg [OF recv(3)] secure_prefix take_over_cases [of "ar_log s v" H] by metis
    ultimately show ?thesis using old msg by (auto simp: inv_commit_def recv(1) max_def)
  next
    case (advance T c k)
    have "secure s T (ar_log s c) k" using secure_committed [OF advance(4)] L(8) [OF advance(2,3)] by simp
    then have "secure s' T (ar_log s c) k" by (rule X) simp
    moreover have "secure s' (ar_term s v) (ar_log s v) (ar_commit s v)" for v by (rule X [OF C(1)]) simp
    moreover have "(T', H, j) \<in> ar_msgs s \<Longrightarrow> secure s' T' H j" for T' H j by (rule X [OF C(2) order_refl])
    ultimately show ?thesis using advance(3) by (auto simp: inv_commit_def advance(1))
  qed (rule inv_commit_same [OF assms(5) e]; simp)+
qed

subsection \<open>Safety\<close>

lemma ar_inv_init: "ar_inv (ar_init n)"
  by (simp add: ar_inv_def inv_votes_def inv_logs_def inv_keep_def inv_commit_def secure_def choosable_def own_entry_def
      ar_init_def)

lemma ar_inv_step: "ar_inv s \<Longrightarrow> ar_step s s' \<Longrightarrow> ar_inv s'"
  unfolding ar_inv_def using inv_votes_step inv_logs_step inv_keep_step inv_commit_step by blast

lemma ar_step_ext: "ar_inv s \<Longrightarrow> ar_step s s' \<Longrightarrow> ext s s'"
  unfolding ar_inv_def using step_ext by blast

text \<open>Committed prefixes stay committed through every run.\<close>

lemma run_secure:
  assumes "reach s ar_step s'" "ar_inv s"
  shows "ar_inv s' \<and> (\<forall>T xs m. secure s T xs m \<longrightarrow> secure s' T xs m)"
  using assms
proof (induction rule: reach.induct)
  case (reach_step y z)
  then have y: "ar_inv y" and sec: "\<And>T xs m. secure s T xs m \<Longrightarrow> secure y T xs m" by auto
  have "secure z T xs m" if "secure s T xs m" for T xs m
    by (rule secure_ext [OF ar_step_ext [OF y reach_step(2)] sec [OF that] order_refl])
  then show ?case using ar_inv_step [OF y reach_step(2)] by blast
qed simp

lemma secure_agree: "ar_inv s \<Longrightarrow> secure s T xs m \<Longrightarrow> secure s T' ys m' \<Longrightarrow> i < m \<Longrightarrow> i < m' \<Longrightarrow> xs ! i = ys ! i"
  unfolding ar_inv_def using secure_agree_le by blast

lemma ar_log_secure: "ar_inv s \<Longrightarrow> secure s (ar_term s v) (ar_log s v) (ar_commit s v)"
  unfolding ar_inv_def using inv_commitD(1) by blast

end
