(* ===== verification/RaftLead.thy ===== *)
theory RaftLead
  imports RaftNode
begin

text \<open>
  The goroutines of a Raft peer, \<open>src/raft1/raft.go\<close>: \<open>Start\<close>, elections, replication, the advance of
  the commit index, the apply loop, and \<open>Make\<close>. A goroutine that releases \<open>rf.mu\<close> around a remote
  call or a channel send is one function per stretch of code that holds the mutex: what it reads
  before the call, and what it does with the reply.
\<close>

subsection \<open>Start\<close>

definition Start :: "'c Raft \<Rightarrow> 'c option \<Rightarrow> ('c Raft \<times> int \<times> int \<times> bool) option" where
  "Start rf command =
     (if rf_role rf \<noteq> Leader then Some (rf, -1, rf_currentTerm rf, False)
      else do {
        let entry = \<lparr>le_Term = rf_currentTerm rf, le_Command = command\<rparr>;
        let rf = rf\<lparr>rf_log := rf_log rf @ [entry]\<rparr>;
        let index = lastLogIndex rf;
        match \<leftarrow> go_upd (rf_matchIndex rf) (rf_me rf) index;
        next \<leftarrow> go_upd (rf_nextIndex rf) (rf_me rf) (index + 1);
        let rf = persist (rf\<lparr>rf_matchIndex := match, rf_nextIndex := next\<rparr>);
        Some (rf, index, rf_currentTerm rf, True)
      })"

subsection \<open>Elections\<close>

text \<open>Durations are in milliseconds; \<open>rand\<close> is the value of \<open>rand.Intn(300)\<close>.\<close>

definition resetElectionTimer :: "int \<Rightarrow> int \<Rightarrow> 'c Raft \<Rightarrow> 'c Raft" where
  "resetElectionTimer time rand rf = rf\<lparr>rf_lastHeardAt := time, rf_electionReset := 400 + rand\<rparr>"

text \<open>
  \<open>startElection\<close> up to the creation of the goroutines: the new state and the arguments that each of
  them sends. The shared counter \<open>votes\<close> starts at 1.
\<close>

definition startElection :: "int \<Rightarrow> int \<Rightarrow> 'c Raft \<Rightarrow> ('c Raft \<times> RequestVoteArgs) option" where
  "startElection time rand rf = do {
     let rf = rf\<lparr>rf_role := Candidate, rf_currentTerm := rf_currentTerm rf + 1, rf_votedFor := rf_me rf\<rparr>;
     let rf = persist (resetElectionTimer time rand rf);
     let lastIdx = lastLogIndex rf;
     lastTerm \<leftarrow> lastLogTerm rf;
     Some (rf, \<lparr>rv_Term = rf_currentTerm rf, rv_CandidateId = rf_me rf,
                rv_LastLogIndex = lastIdx, rv_LastLogTerm = lastTerm\<rparr>)
   }"

text \<open>The peers a loop \<open>for i := range rf.peers { if i == rf.me { continue }; ... }\<close> visits.\<close>

definition other_peers :: "'c Raft \<Rightarrow> nat list" where
  "other_peers rf = filter (\<lambda>i. int i \<noteq> rf_me rf) [0..<rf_peers rf]"

text \<open>What the goroutine of \<open>startElection\<close> does with a reply; \<open>votes\<close> is the shared counter.\<close>

definition vote_reply ::
  "'c Raft \<Rightarrow> int \<Rightarrow> int \<Rightarrow> RequestVoteReply \<Rightarrow> ('c Raft \<times> int) option" where
  "vote_reply rf term votes reply =
     (if rf_currentTerm rf \<noteq> term \<or> rf_role rf \<noteq> Candidate then Some (rf, votes)
      else if rvr_Term reply > rf_currentTerm rf then Some (becomeFollower rf (rvr_Term reply), votes)
      else if rvr_VoteGranted reply then do {
        let n = votes + 1;
        if n * 2 > int (rf_peers rf) \<and> rf_role rf = Candidate
        then do { rf \<leftarrow> becomeLeader rf; Some (rf, n) }
        else Some (rf, n)
      } else Some (rf, votes))"

text \<open>One iteration of \<open>ticker\<close>: an election when the timer has run out.\<close>

definition ticker :: "int \<Rightarrow> int \<Rightarrow> 'c Raft \<Rightarrow> ('c Raft \<times> RequestVoteArgs option) option" where
  "ticker time rand rf =
     (if rf_role rf \<noteq> Leader \<and> time - rf_lastHeardAt rf \<ge> rf_electionReset rf
      then do { (rf, args) \<leftarrow> startElection time rand rf; Some (rf, Some args) }
      else Some (rf, None))"

subsection \<open>Replication\<close>

text \<open>The peers \<open>broadcastAppendEntries\<close> starts a \<open>replicateTo\<close> for.\<close>

definition broadcastAppendEntries :: "'c Raft \<Rightarrow> nat list" where
  "broadcastAppendEntries rf = (if rf_role rf \<noteq> Leader then [] else other_peers rf)"

text \<open>One iteration of \<open>heartbeatLoop\<close>; the role is read again by the broadcast.\<close>

definition heartbeatLoop :: "'c Raft \<Rightarrow> nat list" where
  "heartbeatLoop rf = (let isLeader = (rf_role rf = Leader) in if isLeader then broadcastAppendEntries rf else [])"

datatype 'c replCall = SendInstallSnapshot InstallSnapshotArgs | SendAppendEntries "'c AppendEntriesArgs"

text \<open>
  \<open>replicateTo\<close> up to the remote call: nothing to send when the peer is not the leader, a panic
  (outer \<^term>\<open>None\<close>) when an index is out of range.
\<close>

definition replicateTo :: "'c Raft \<Rightarrow> nat \<Rightarrow> 'c replCall option option" where
  "replicateTo rf peer =
     (if rf_role rf \<noteq> Leader then Some None
      else do {
        let term = rf_currentTerm rf;
        next \<leftarrow> go_nth (rf_nextIndex rf) (int peer);
        if next \<le> rf_lastIncludedIndex rf then
          Some (Some (SendInstallSnapshot
            \<lparr>is_Term = term, is_LeaderId = rf_me rf, is_LastIncludedIndex = rf_lastIncludedIndex rf,
             is_LastIncludedTerm = rf_lastIncludedTerm rf,
             is_Data = Some (ReadSnapshot (rf_persister rf))\<rparr>))
        else do {
          let prevIdx = next - 1;
          prevTerm \<leftarrow> termAt rf prevIdx;
          entries \<leftarrow> go_from (rf_log rf) (next - rf_lastIncludedIndex rf);
          Some (Some (SendAppendEntries
            \<lparr>ae_Term = term, ae_LeaderId = rf_me rf, ae_PrevLogIndex = prevIdx, ae_PrevLogTerm = prevTerm,
             ae_Entries = entries, ae_LeaderCommit = rf_commitIndex rf\<rparr>))
        }
      })"

text \<open>The reply of an \<open>InstallSnapshot\<close> call.\<close>

definition install_reply ::
  "'c Raft \<Rightarrow> nat \<Rightarrow> InstallSnapshotArgs \<Rightarrow> InstallSnapshotReply \<Rightarrow> 'c Raft option" where
  "install_reply rf peer args reply =
     (if rf_currentTerm rf \<noteq> is_Term args \<or> rf_role rf \<noteq> Leader then Some rf
      else if isr_Term reply > rf_currentTerm rf then Some (becomeFollower rf (isr_Term reply))
      else do {
        next \<leftarrow> go_nth (rf_nextIndex rf) (int peer);
        rf \<leftarrow> (if is_LastIncludedIndex args + 1 > next
               then do { ns \<leftarrow> go_upd (rf_nextIndex rf) (int peer) (is_LastIncludedIndex args + 1);
                         Some (rf\<lparr>rf_nextIndex := ns\<rparr>) }
               else Some rf);
        match \<leftarrow> go_nth (rf_matchIndex rf) (int peer);
        if is_LastIncludedIndex args > match
        then do { ms \<leftarrow> go_upd (rf_matchIndex rf) (int peer) (is_LastIncludedIndex args);
                  Some (rf\<lparr>rf_matchIndex := ms\<rparr>) }
        else Some rf
      })"

text \<open>The votes for \<open>N\<close> that \<open>advanceCommit\<close> counts: the leader and the other peers that match it.\<close>

fun count_match :: "int list \<Rightarrow> int \<Rightarrow> nat list \<Rightarrow> int option" where
  "count_match match N [] = Some 1"
| "count_match match N (i # is) = do {
     m \<leftarrow> go_nth match (int i);
     c \<leftarrow> count_match match N is;
     Some (if m \<ge> N then c + 1 else c)
   }"

function advance_loop :: "'c Raft \<Rightarrow> int \<Rightarrow> 'c Raft option" where
  "advance_loop rf N =
     (if N > rf_commitIndex rf then
        if N \<le> rf_lastIncludedIndex rf then Some rf
        else do {
          t \<leftarrow> termAt rf N;
          if t \<noteq> rf_currentTerm rf then advance_loop rf (N - 1)
          else do {
            count \<leftarrow> count_match (rf_matchIndex rf) N (other_peers rf);
            if count * 2 > int (rf_peers rf) then Some (rf\<lparr>rf_commitIndex := N\<rparr>)
            else advance_loop rf (N - 1)
          }
        }
      else Some rf)"
  by pat_completeness auto
termination
  by (relation "measure (\<lambda>(rf, N). nat (N - rf_commitIndex rf))") auto

declare advance_loop.simps [simp del]

definition advanceCommit :: "'c Raft \<Rightarrow> 'c Raft option" where
  "advanceCommit rf = advance_loop rf (lastLogIndex rf)"

text \<open>The search for the last entry with the conflicting term; \<open>-1\<close> when there is none.\<close>

function found_term :: "'c Raft \<Rightarrow> int \<Rightarrow> int \<Rightarrow> int option" where
  "found_term rf conflictTerm i =
     (if i > rf_lastIncludedIndex rf then do {
        t \<leftarrow> termAt rf i;
        if t = conflictTerm then Some i else found_term rf conflictTerm (i - 1)
      } else Some (-1))"
  by pat_completeness auto
termination
  by (relation "measure (\<lambda>(rf, t, i). nat (i - rf_lastIncludedIndex rf))") auto

declare found_term.simps [simp del]

text \<open>The value that the fast backup stores in \<open>nextIndex[peer]\<close>; the old one is kept without hints.\<close>

definition fast_backup :: "'c Raft \<Rightarrow> int \<Rightarrow> AppendEntriesReply \<Rightarrow> int option" where
  "fast_backup rf old reply =
     (if aer_ConflictTerm reply = -1 then
        Some (if aer_ConflictIndex reply > 0 then aer_ConflictIndex reply
              else if aer_XLen reply > 0 then aer_XLen reply else old)
      else do {
        found \<leftarrow> found_term rf (aer_ConflictTerm reply) (lastLogIndex rf);
        Some (if found \<noteq> -1 then found + 1 else aer_ConflictIndex reply)
      })"

text \<open>The reply of an \<open>AppendEntries\<close> call; the flag asks for another \<open>replicateTo\<close>.\<close>

definition append_reply ::
  "'c Raft \<Rightarrow> nat \<Rightarrow> 'c AppendEntriesArgs \<Rightarrow> AppendEntriesReply \<Rightarrow> ('c Raft \<times> bool) option" where
  "append_reply rf peer args reply =
     (if rf_currentTerm rf \<noteq> ae_Term args \<or> rf_role rf \<noteq> Leader then Some (rf, False)
      else if aer_Term reply > rf_currentTerm rf then Some (becomeFollower rf (aer_Term reply), False)
      else if aer_Success reply then do {
        let newMatch = ae_PrevLogIndex args + int (length (ae_Entries args));
        match \<leftarrow> go_nth (rf_matchIndex rf) (int peer);
        rf \<leftarrow> (if newMatch > match
               then do { ms \<leftarrow> go_upd (rf_matchIndex rf) (int peer) newMatch; Some (rf\<lparr>rf_matchIndex := ms\<rparr>) }
               else Some rf);
        next \<leftarrow> go_nth (rf_nextIndex rf) (int peer);
        rf \<leftarrow> (if newMatch + 1 > next
               then do { ns \<leftarrow> go_upd (rf_nextIndex rf) (int peer) (newMatch + 1); Some (rf\<lparr>rf_nextIndex := ns\<rparr>) }
               else Some rf);
        rf \<leftarrow> advanceCommit rf;
        Some (rf, False)
      } else do {
        old \<leftarrow> go_nth (rf_nextIndex rf) (int peer);
        next \<leftarrow> fast_backup rf old reply;
        ns \<leftarrow> go_upd (rf_nextIndex rf) (int peer) (if next < 1 then 1 else next);
        Some (rf\<lparr>rf_nextIndex := ns\<rparr>, True)
      })"

subsection \<open>The apply loop\<close>

record 'c ApplyMsg =
  CommandValid :: bool
  Command :: "'c option"
  CommandIndex :: int
  SnapshotValid :: bool
  am_Snapshot :: "bytes option"
  SnapshotTerm :: int
  SnapshotIndex :: int

definition snapshot_msg :: "bytes option \<Rightarrow> int \<Rightarrow> int \<Rightarrow> 'c ApplyMsg" where
  "snapshot_msg data idx term =
     \<lparr>CommandValid = False, Command = None, CommandIndex = 0, SnapshotValid = True,
      am_Snapshot = data, SnapshotTerm = term, SnapshotIndex = idx\<rparr>"

definition command_msg :: "'c option \<Rightarrow> int \<Rightarrow> 'c ApplyMsg" where
  "command_msg command index =
     \<lparr>CommandValid = True, Command = command, CommandIndex = index, SnapshotValid = False,
      am_Snapshot = None, SnapshotTerm = 0, SnapshotIndex = 0\<rparr>"

text \<open>
  An iteration of \<open>applier\<close> up to the channel send: the message it sends, or no message when it only
  catches up with the snapshot or waits.
\<close>

definition applier :: "'c Raft \<Rightarrow> ('c Raft \<times> 'c ApplyMsg option) option" where
  "applier rf =
     (case rf_pendingSnapshot rf of
        Some data \<Rightarrow>
          Some (rf\<lparr>rf_pendingSnapshot := None\<rparr>,
                Some (snapshot_msg (Some data) (rf_pendingSnapshotIndex rf) (rf_pendingSnapshotTerm rf)))
      | None \<Rightarrow>
          if rf_lastApplied rf < rf_commitIndex rf \<and> rf_lastApplied rf \<ge> rf_lastIncludedIndex rf then
            let next = rf_lastApplied rf + 1
            in if next \<le> rf_lastIncludedIndex rf
               then Some (rf\<lparr>rf_lastApplied := rf_lastIncludedIndex rf\<rparr>, None)
               else do {
                 entry \<leftarrow> go_nth (rf_log rf) (next - rf_lastIncludedIndex rf);
                 Some (rf, Some (command_msg (le_Command entry) next))
               }
          else Some (rf, None))"

text \<open>The rest of the iteration, after the receiver has taken the message.\<close>

definition applier_sent :: "'c Raft \<Rightarrow> 'c ApplyMsg \<Rightarrow> 'c Raft" where
  "applier_sent rf msg =
     (let i = (if SnapshotValid msg then SnapshotIndex msg else CommandIndex msg)
      in if i > rf_lastApplied rf then rf\<lparr>rf_lastApplied := i\<rparr> else rf)"

subsection \<open>Kill and Make\<close>

definition Kill :: "'c Raft \<Rightarrow> 'c Raft" where
  "Kill rf = rf\<lparr>rf_dead := True\<rparr>"

definition killed :: "'c Raft \<Rightarrow> bool" where
  "killed rf = rf_dead rf"

definition Make :: "int \<Rightarrow> int \<Rightarrow> nat \<Rightarrow> int \<Rightarrow> 'c gobval Persister \<Rightarrow> 'c Raft" where
  "Make time rand peers me persister =
     (let rf = \<lparr>rf_peers = peers, rf_persister = persister, rf_me = me, rf_dead = False,
                rf_currentTerm = 0, rf_votedFor = -1, rf_log = [\<lparr>le_Term = 0, le_Command = None\<rparr>],
                rf_lastIncludedIndex = 0, rf_lastIncludedTerm = 0, rf_commitIndex = 0, rf_lastApplied = 0,
                rf_nextIndex = replicate peers 0, rf_matchIndex = replicate peers 0, rf_role = Follower,
                rf_lastHeardAt = 0, rf_electionReset = 0,
                rf_pendingSnapshot = None, rf_pendingSnapshotIndex = 0, rf_pendingSnapshotTerm = 0\<rparr>;
          rf = readPersist rf (ReadRaftState persister);
          rf = resetElectionTimer time rand rf
      in if rf_lastIncludedIndex rf > 0 then
           let snap = ReadSnapshot persister
           in if length snap > 0
              then rf\<lparr>rf_pendingSnapshot := Some snap, rf_pendingSnapshotIndex := rf_lastIncludedIndex rf,
                      rf_pendingSnapshotTerm := rf_lastIncludedTerm rf\<rparr>
              else rf
         else rf)"

end
