(* ===== verification/RaftInv.thy ===== *)
theory RaftInv
  imports RaftLead
begin

text \<open>
  What one Raft peer guarantees by itself, whatever the network and the other peers do: no RPC
  handler panics, the disk always holds the state a restart needs, terms never go back and a peer
  votes once per term, across crashes too.
\<close>

lemmas persist_defs = persist_def persistWithSnapshot_def
lemmas log_defs = lastLogIndex_def lastLogTerm_def termAt_def

lemma log_defs_persist [simp]:
  "lastLogIndex (persist rf) = lastLogIndex rf" "lastLogTerm (persist rf) = lastLogTerm rf"
  "termAt (persist rf) = termAt rf"
  by (simp_all add: log_defs persist_def fun_eq_iff)

lemma log_defs_volatile [simp]:
  "lastLogIndex (rf\<lparr>rf_role := r\<rparr>) = lastLogIndex rf" "termAt (rf\<lparr>rf_role := r\<rparr>) = termAt rf"
  "lastLogIndex (rf\<lparr>rf_lastHeardAt := h\<rparr>) = lastLogIndex rf" "termAt (rf\<lparr>rf_lastHeardAt := h\<rparr>) = termAt rf"
  by (simp_all add: log_defs fun_eq_iff)

subsection \<open>Well-formed peers\<close>

definition raft_wf :: "'c Raft \<Rightarrow> bool" where
  "raft_wf rf \<longleftrightarrow>
     rf_log rf \<noteq> [] \<and> le_Term (hd (rf_log rf)) = rf_lastIncludedTerm rf \<and> 0 \<le> rf_lastIncludedIndex rf
     \<and> length (rf_nextIndex rf) = rf_peers rf \<and> length (rf_matchIndex rf) = rf_peers rf
     \<and> 0 \<le> rf_me rf \<and> rf_me rf < int (rf_peers rf)"

text \<open>The state that \<open>Make\<close> would rebuild from the disk is the state in memory.\<close>

definition on_disk :: "'c Raft \<Rightarrow> bool" where
  "on_disk rf \<longleftrightarrow> raftstate (Make 0 0 (rf_peers rf) (rf_me rf) (rf_persister rf)) = raftstate rf"

lemma decode_raftstate:
  "decode_state (raftstate rf) =
     Some (rf_currentTerm rf, rf_votedFor rf, rf_log rf, rf_lastIncludedIndex rf, rf_lastIncludedTerm rf)"
  by (simp add: decode_state_def raftstate_def)

lemma readPersist_raftstate:
  "readPersist rf (raftstate rf') =
     rf\<lparr>rf_currentTerm := rf_currentTerm rf', rf_votedFor := rf_votedFor rf', rf_log := rf_log rf',
        rf_lastIncludedIndex := rf_lastIncludedIndex rf', rf_lastIncludedTerm := rf_lastIncludedTerm rf',
        rf_commitIndex := rf_lastIncludedIndex rf', rf_lastApplied := rf_lastIncludedIndex rf'\<rparr>"
  by (simp add: readPersist_def decode_raftstate) (simp add: raftstate_def)

text \<open>What \<open>Make\<close> restores depends on the disk alone.\<close>

lemma raftstate_Make:
  "raftstate (Make time rand n me ps) =
     (case decode_state (ps_raftstate ps) of
        None \<Rightarrow> [GInt 0, GInt (-1), GLog [\<lparr>le_Term = 0, le_Command = None\<rparr>], GInt 0, GInt 0]
      | Some (ct, vf, lg, li, lt) \<Rightarrow> [GInt ct, GInt vf, GLog lg, GInt li, GInt lt])"
  by (cases "ps_raftstate ps")
     (auto simp: Make_def readPersist_def ReadRaftState_def resetElectionTimer_def raftstate_def
        decode_state_def Let_def split: option.splits prod.splits)

lemma on_disk_saved: "ps_raftstate (rf_persister rf) = raftstate rf \<Longrightarrow> on_disk rf"
  by (simp add: on_disk_def raftstate_Make decode_raftstate) (simp add: raftstate_def)

lemma ps_persist [simp]:
  "ps_raftstate (rf_persister (persist rf)) = raftstate rf"
  "ps_raftstate (rf_persister (persistWithSnapshot rf snap)) = raftstate rf"
  by (simp_all add: persist_defs Save_def)

lemma raftstate_persist [simp]:
  "raftstate (persist rf) = raftstate rf" "raftstate (persistWithSnapshot rf snap) = raftstate rf"
  by (simp_all add: persist_defs raftstate_def)

lemma on_disk_persist [simp]: "on_disk (persist rf)" "on_disk (persistWithSnapshot rf snap)"
  by (simp_all add: on_disk_saved)

text \<open>Only the persistent fields and the disk matter.\<close>

lemma on_disk_cong:
  "on_disk rf \<Longrightarrow> rf_persister rf' = rf_persister rf \<Longrightarrow> raftstate rf' = raftstate rf \<Longrightarrow> on_disk rf'"
  by (simp add: on_disk_def raftstate_Make)

lemma raft_wf_persist [simp]:
  "raft_wf (persist rf) = raft_wf rf" "raft_wf (persistWithSnapshot rf snap) = raft_wf rf"
  by (simp_all add: persist_defs raft_wf_def)

lemma raft_wf_Make:
  assumes "0 \<le> me" "me < int n"
  shows "raft_wf (Make time rand n me MakePersister)" "on_disk (Make time rand n me MakePersister)"
  using assms
  by (simp_all add: Make_def raft_wf_def on_disk_def raftstate_Make MakePersister_def readPersist_def
      ReadRaftState_def resetElectionTimer_def Let_def raftstate_def decode_state_def)

subsection \<open>The log of a well-formed peer\<close>

lemma lastLogTerm_wf: "raft_wf rf \<Longrightarrow> lastLogTerm rf = Some (le_Term (last (rf_log rf)))"
  by (simp add: raft_wf_def lastLogTerm_def go_nth_def last_conv_nth nat_diff_distrib)
     (metis One_nat_def diff_Suc_1 length_greater_0_conv nat_int of_nat_1 of_nat_diff Suc_leI)

lemma termAt_in:
  "rf_lastIncludedIndex rf \<le> i \<Longrightarrow> i \<le> lastLogIndex rf \<Longrightarrow>
     termAt rf i = Some (le_Term (rf_log rf ! nat (i - rf_lastIncludedIndex rf)))"
  by (simp add: log_defs go_nth_def)

lemma termAt_Some_iff:
  "termAt rf i \<noteq> None \<longleftrightarrow> rf_lastIncludedIndex rf \<le> i \<and> i \<le> lastLogIndex rf"
  by (auto simp: log_defs go_nth_def)

lemma termAt_sentinel: "raft_wf rf \<Longrightarrow> termAt rf (rf_lastIncludedIndex rf) = Some (rf_lastIncludedTerm rf)"
  by (auto simp: raft_wf_def log_defs go_nth_def hd_conv_nth)

lemma lastLogIndex_ge: "raft_wf rf \<Longrightarrow> rf_lastIncludedIndex rf \<le> lastLogIndex rf"
  by (simp add: raft_wf_def lastLogIndex_def Suc_leI)

text \<open>The search for the conflict stays in the log and finds the first entry of the term's run.\<close>

lemma conflictIndex_spec:
  assumes "termAt rf idx = Some t"
  shows "\<exists>k. conflictIndex rf t idx = Some k \<and> rf_lastIncludedIndex rf \<le> k \<and> k \<le> idx
    \<and> (\<forall>i. k \<le> i \<and> i \<le> idx \<longrightarrow> termAt rf i = Some t)
    \<and> (k = rf_lastIncludedIndex rf \<or> termAt rf (k - 1) \<noteq> Some t)"
  using assms
proof (induction rf t idx rule: conflictIndex.induct)
  case (1 rf t idx)
  have in_log: "rf_lastIncludedIndex rf \<le> idx" "idx \<le> lastLogIndex rf"
    using "1.prems" termAt_Some_iff [of rf idx] by auto
  show ?case
  proof (cases "idx > rf_lastIncludedIndex rf \<and> termAt rf (idx - 1) = Some t")
    case True
    then obtain k where k: "conflictIndex rf t (idx - 1) = Some k" "rf_lastIncludedIndex rf \<le> k"
      "k \<le> idx - 1" "\<forall>i. k \<le> i \<and> i \<le> idx - 1 \<longrightarrow> termAt rf i = Some t"
      "k = rf_lastIncludedIndex rf \<or> termAt rf (k - 1) \<noteq> Some t"
      using "1.IH" [of t] by auto
    have "\<forall>i. k \<le> i \<and> i \<le> idx \<longrightarrow> termAt rf i = Some t"
      using k(4) "1.prems" by (metis zle_diff1_eq order_le_less)
    with True k show ?thesis
      by (intro exI [of _ k]) (simp add: conflictIndex.simps [of rf t idx])
  next
    case False
    have "idx > rf_lastIncludedIndex rf \<Longrightarrow> termAt rf (idx - 1) \<noteq> None"
      using in_log termAt_Some_iff [of rf "idx - 1"] by simp
    with False in_log "1.prems" show ?thesis
      by (intro exI [of _ idx]) (auto simp: conflictIndex.simps [of rf t idx])
  qed
qed

text \<open>
  The merge as a function of the log: the entries are compared by term up to the first one that
  differs or that the log lacks, and replace the log from there on.
\<close>

fun merge :: "'c LogEntry list \<Rightarrow> nat \<Rightarrow> 'c LogEntry list \<Rightarrow> 'c LogEntry list" where
  "merge l i [] = l"
| "merge l i (e # es) =
     (if i < length l \<and> le_Term (l ! i) = le_Term e then merge l (Suc i) es else take i l @ e # es)"

lemma ae_merge_merge:
  assumes "rf_lastIncludedIndex rf \<le> absIdx" "absIdx \<le> lastLogIndex rf + 1"
  shows "ae_merge rf absIdx es = Some (merge (rf_log rf) (nat (absIdx - rf_lastIncludedIndex rf)) es)"
  using assms
proof (induction rf absIdx es rule: ae_merge.induct)
  case (2 rf absIdx e es)
  show ?case
  proof (cases "absIdx > lastLogIndex rf")
    case True
    with "2.prems" show ?thesis by (auto simp: lastLogIndex_def nat_less_iff)
  next
    case False
    with "2.prems" have t: "termAt rf absIdx = Some (le_Term (rf_log rf ! nat (absIdx - rf_lastIncludedIndex rf)))"
      by (intro termAt_in) simp_all
    have S: "nat (absIdx + 1 - rf_lastIncludedIndex rf) = Suc (nat (absIdx - rf_lastIncludedIndex rf))"
      using "2.prems" by simp
    show ?thesis
      using False "2.prems" "2.IH" t S
      by (auto simp: go_upto_def lastLogIndex_def nat_less_iff)
  qed
qed simp

lemma merge_take: "i \<le> length l \<Longrightarrow> take i (merge l i es) = take i l"
proof (induction l i es rule: merge.induct)
  case (2 l i e es)
  have "i < length l \<Longrightarrow> le_Term (l ! i) = le_Term e \<Longrightarrow>
      take i (take (Suc i) (merge l (Suc i) es)) = take i (take (Suc i) l)"
    by (subst "2.IH") simp_all
  then show ?case using "2.prems" by (simp add: min_def)
qed simp

lemma merge_length: "i \<le> length l \<Longrightarrow> i + length es \<le> length (merge l i es)"
  by (induction l i es rule: merge.induct) auto

text \<open>Afterwards the log carries the terms of all the entries.\<close>

lemma merge_terms:
  "i \<le> length l \<Longrightarrow> k < length es \<Longrightarrow> le_Term (merge l i es ! (i + k)) = le_Term (es ! k)"
proof (induction l i es arbitrary: k rule: merge.induct)
  case (2 l i e es)
  show ?case
  proof (cases "i < length l \<and> le_Term (l ! i) = le_Term e")
    case True
    show ?thesis
    proof (cases k)
      case 0
      have "merge l (Suc i) es ! i = take (Suc i) (merge l (Suc i) es) ! i" by simp
      also have "\<dots> = l ! i" using True by (simp add: merge_take)
      finally show ?thesis using True 0 by simp
    next
      case (Suc k')
      then show ?thesis using True "2.IH" [of k'] "2.prems" by simp
    qed
  next
    case False
    then show ?thesis using "2.prems" by (auto simp: nth_append)
  qed
qed simp

text \<open>A log that has the entries' terms already is left alone: a stale RPC truncates nothing.\<close>

lemma merge_same:
  "i + length es \<le> length l \<Longrightarrow> (\<forall>k < length es. le_Term (l ! (i + k)) = le_Term (es ! k)) \<Longrightarrow> merge l i es = l"
proof (induction l i es rule: merge.induct)
  case (2 l i e es)
  have "le_Term (l ! i) = le_Term e" using "2.prems"(2) by (auto dest: spec [of _ 0])
  moreover have "\<forall>k < length es. le_Term (l ! (Suc i + k)) = le_Term (es ! k)"
    using "2.prems"(2) by (auto dest: spec [of _ "Suc _"])
  ultimately show ?case using 2 by simp
qed simp

lemma merge_idem: "i \<le> length l \<Longrightarrow> merge (merge l i es) i es = merge l i es"
  by (rule merge_same) (simp_all add: merge_length merge_terms)

lemma merge_Nil_iff: "merge l i es = [] \<longleftrightarrow> l = [] \<and> es = []"
  by (induction l i es rule: merge.induct) auto

subsection \<open>Every operation keeps the peer well-formed and its disk current\<close>

text \<open>
  How a peer may move: it stays well-formed, its disk is current, its term does not fall, and a vote
  of the current term is not changed.
\<close>

definition raft_moves :: "'c Raft \<Rightarrow> 'c Raft \<Rightarrow> bool" where
  "raft_moves rf rf' \<longleftrightarrow>
     raft_wf rf' \<and> on_disk rf' \<and> rf_peers rf' = rf_peers rf \<and> rf_me rf' = rf_me rf
     \<and> rf_currentTerm rf \<le> rf_currentTerm rf'
     \<and> (rf_currentTerm rf' = rf_currentTerm rf \<and> rf_votedFor rf \<noteq> -1 \<longrightarrow> rf_votedFor rf' = rf_votedFor rf)"

lemma raft_moves_trans: "raft_moves a b \<Longrightarrow> raft_moves b c \<Longrightarrow> raft_moves a c"
  unfolding raft_moves_def by auto

lemma raft_moves_refl: "raft_wf rf \<Longrightarrow> on_disk rf \<Longrightarrow> raft_moves rf rf"
  by (simp add: raft_moves_def)

text \<open>An update of fields that are neither persistent nor part of well-formedness.\<close>

lemma raft_moves_volatile:
  assumes "raft_wf rf" "on_disk rf" "raftstate rf' = raftstate rf" "rf_persister rf' = rf_persister rf"
    "rf_peers rf' = rf_peers rf" "rf_me rf' = rf_me rf"
    "length (rf_nextIndex rf') = rf_peers rf" "length (rf_matchIndex rf') = rf_peers rf"
  shows "raft_moves rf rf'"
proof -
  have "on_disk rf'" using assms(2,4,3) by (rule on_disk_cong)
  with assms show ?thesis by (simp add: raft_moves_def raft_wf_def raftstate_def)
qed

text \<open>An update of the persistent fields followed by \<open>persist\<close>.\<close>

lemma raft_moves_persist:
  assumes "raft_wf rf'" "rf_peers rf' = rf_peers rf" "rf_me rf' = rf_me rf"
    "rf_currentTerm rf \<le> rf_currentTerm rf'"
    "rf_currentTerm rf' = rf_currentTerm rf \<Longrightarrow> rf_votedFor rf \<noteq> -1 \<Longrightarrow> rf_votedFor rf' = rf_votedFor rf"
  shows "raft_moves rf (persist rf')" "raft_moves rf (persistWithSnapshot rf' snap)"
  using assms by (auto simp: raft_moves_def persist_defs) (simp_all add: persist_defs [symmetric])

lemma becomeFollower_moves: "raft_wf rf \<Longrightarrow> on_disk rf \<Longrightarrow> raft_moves rf (becomeFollower rf term)"
  unfolding becomeFollower_def Let_def
  by (auto intro!: raft_moves_persist raft_moves_volatile) (auto simp: raft_wf_def raftstate_def)

lemma becomeFollower_simps [simp]:
  "rf_role (becomeFollower rf term) = Follower"
  "rf_currentTerm (becomeFollower rf term) = max term (rf_currentTerm rf)"
  "rf_log (becomeFollower rf term) = rf_log rf"
  "rf_lastIncludedIndex (becomeFollower rf term) = rf_lastIncludedIndex rf"
  "rf_lastIncludedTerm (becomeFollower rf term) = rf_lastIncludedTerm rf"
  "rf_commitIndex (becomeFollower rf term) = rf_commitIndex rf"
  "rf_lastApplied (becomeFollower rf term) = rf_lastApplied rf"
  "rf_peers (becomeFollower rf term) = rf_peers rf"
  "rf_me (becomeFollower rf term) = rf_me rf"
  "lastLogIndex (becomeFollower rf term) = lastLogIndex rf"
  "lastLogTerm (becomeFollower rf term) = lastLogTerm rf"
  "termAt (becomeFollower rf term) = termAt rf"
  by (simp_all add: becomeFollower_def Let_def persist_def log_defs fun_eq_iff)

text \<open>The state in which a handler goes on after its check of the term.\<close>

definition seen_term :: "'c Raft \<Rightarrow> int \<Rightarrow> 'c Raft" where
  "seen_term rf term = (if term > rf_currentTerm rf then becomeFollower rf term else rf)"

lemma seen_term_moves: "raft_wf rf \<Longrightarrow> on_disk rf \<Longrightarrow> raft_moves rf (seen_term rf term)"
  by (simp add: seen_term_def becomeFollower_moves raft_moves_refl)

lemma seen_term_simps [simp]:
  "rf_currentTerm (seen_term rf term) = max term (rf_currentTerm rf)"
  "rf_log (seen_term rf term) = rf_log rf"
  "rf_lastIncludedIndex (seen_term rf term) = rf_lastIncludedIndex rf"
  "rf_lastIncludedTerm (seen_term rf term) = rf_lastIncludedTerm rf"
  "rf_commitIndex (seen_term rf term) = rf_commitIndex rf"
  "rf_lastApplied (seen_term rf term) = rf_lastApplied rf"
  "lastLogIndex (seen_term rf term) = lastLogIndex rf"
  "lastLogTerm (seen_term rf term) = lastLogTerm rf"
  "termAt (seen_term rf term) = termAt rf"
  by (simp_all add: seen_term_def)

subsection \<open>The handlers, with their run-time checks discharged\<close>

definition up_to_date :: "'c Raft \<Rightarrow> RequestVoteArgs \<Rightarrow> bool" where
  "up_to_date rf args \<longleftrightarrow>
     rv_LastLogTerm args > le_Term (last (rf_log rf))
     \<or> (rv_LastLogTerm args = le_Term (last (rf_log rf)) \<and> rv_LastLogIndex args \<ge> lastLogIndex rf)"

definition grants :: "'c Raft \<Rightarrow> RequestVoteArgs \<Rightarrow> bool" where
  "grants rf args \<longleftrightarrow>
     (rf_votedFor rf = -1 \<or> rf_votedFor rf = rv_CandidateId args) \<and> up_to_date rf args"

lemma RequestVote_eq:
  assumes "raft_wf rf"
  shows "RequestVote time rf args = Some
    (if rv_Term args < rf_currentTerm rf then (rf, \<lparr>rvr_Term = rf_currentTerm rf, rvr_VoteGranted = False\<rparr>)
     else let rf1 = seen_term rf (rv_Term args)
          in if grants rf1 args
             then (persist (rf1\<lparr>rf_votedFor := rv_CandidateId args, rf_lastHeardAt := time\<rparr>),
                   \<lparr>rvr_Term = rv_Term args, rvr_VoteGranted = True\<rparr>)
             else (rf1, \<lparr>rvr_Term = rv_Term args, rvr_VoteGranted = False\<rparr>))"
  using lastLogTerm_wf [OF assms]
  by (cases "rv_Term args > rf_currentTerm rf")
     (simp_all add: RequestVote_def seen_term_def grants_def up_to_date_def Let_def)

lemma RequestVote_moves:
  assumes "raft_wf rf" "on_disk rf" "RequestVote time rf args = Some (rf', reply)"
  shows "raft_moves rf rf'"
proof -
  let ?rf1 = "seen_term rf (rv_Term args)"
  have m: "raft_moves rf ?rf1" using assms(1,2) by (rule seen_term_moves)
  then have wf: "raft_wf ?rf1" by (simp add: raft_moves_def)
  have "grants ?rf1 args \<Longrightarrow>
      raft_moves ?rf1 (persist (?rf1\<lparr>rf_votedFor := rv_CandidateId args, rf_lastHeardAt := time\<rparr>))"
    using wf by (intro raft_moves_persist) (auto simp: raft_wf_def grants_def)
  with m assms show ?thesis
    by (auto simp: RequestVote_eq [OF assms(1)] raft_moves_refl Let_def split: if_splits
        intro: raft_moves_trans)
qed

definition hear_leader :: "int \<Rightarrow> 'c Raft \<Rightarrow> int \<Rightarrow> 'c Raft" where
  "hear_leader time rf term = (seen_term rf term)\<lparr>rf_role := Follower, rf_lastHeardAt := time\<rparr>"

lemma hear_leader_moves:
  assumes "raft_wf rf" "on_disk rf"
  shows "raft_moves rf (hear_leader time rf term)"
proof (rule raft_moves_trans)
  show m: "raft_moves rf (seen_term rf term)" using assms by (rule seen_term_moves)
  show "raft_moves (seen_term rf term) (hear_leader time rf term)"
    using m unfolding hear_leader_def raft_moves_def [of rf]
    by (intro raft_moves_volatile) (auto simp: raft_wf_def raftstate_def)
qed

lemma hear_leader_simps [simp]:
  "rf_role (hear_leader time rf term) = Follower"
  "rf_currentTerm (hear_leader time rf term) = max term (rf_currentTerm rf)"
  "rf_log (hear_leader time rf term) = rf_log rf"
  "rf_lastIncludedIndex (hear_leader time rf term) = rf_lastIncludedIndex rf"
  "rf_lastIncludedTerm (hear_leader time rf term) = rf_lastIncludedTerm rf"
  "rf_commitIndex (hear_leader time rf term) = rf_commitIndex rf"
  "rf_lastApplied (hear_leader time rf term) = rf_lastApplied rf"
  "lastLogIndex (hear_leader time rf term) = lastLogIndex rf"
  "termAt (hear_leader time rf term) = termAt rf"
  "le_Term (last (rf_log (hear_leader time rf term))) = le_Term (last (rf_log rf))"
  by (simp_all add: hear_leader_def log_defs fun_eq_iff)

text \<open>The arguments after the handler has cut away what its snapshot covers.\<close>

definition ae_trim :: "'c Raft \<Rightarrow> 'c AppendEntriesArgs \<Rightarrow> 'c AppendEntriesArgs" where
  "ae_trim rf args =
     (if ae_PrevLogIndex args < rf_lastIncludedIndex rf
      then args\<lparr>ae_PrevLogIndex := rf_lastIncludedIndex rf, ae_PrevLogTerm := rf_lastIncludedTerm rf,
                ae_Entries := drop (nat (rf_lastIncludedIndex rf - ae_PrevLogIndex args)) (ae_Entries args)\<rparr>
      else args)"

definition ae_covered :: "'c Raft \<Rightarrow> 'c AppendEntriesArgs \<Rightarrow> bool" where
  "ae_covered rf args \<longleftrightarrow> ae_PrevLogIndex args + int (length (ae_Entries args)) < rf_lastIncludedIndex rf"

definition ae_reply :: "'c Raft \<Rightarrow> 'c AppendEntriesArgs \<Rightarrow> AppendEntriesReply" where
  "ae_reply rf args =
     \<lparr>aer_Term = max (ae_Term args) (rf_currentTerm rf), aer_Success = False, aer_ConflictTerm = -1,
      aer_ConflictIndex = -1, aer_XLen = lastLogIndex rf + 1\<rparr>"

lemma AppendEntries_eq:
  "AppendEntries time rf args =
     (if ae_Term args < rf_currentTerm rf then Some (rf, ae_reply rf args)
      else let rf1 = hear_leader time rf (ae_Term args)
           in if ae_covered rf args
              then Some (ae_commit rf1 (ae_LeaderCommit args), (ae_reply rf args)\<lparr>aer_Success := True\<rparr>)
              else ae_check_merge rf1 (ae_trim rf args) (ae_reply rf args))"
proof -
  have cov: "ae_covered rf args \<longleftrightarrow> ae_PrevLogIndex args < rf_lastIncludedIndex rf \<and>
      rf_lastIncludedIndex rf - ae_PrevLogIndex args > int (length (ae_Entries args))"
    by (auto simp: ae_covered_def)
  show ?thesis
    unfolding AppendEntries_def
    by (simp add: Let_def ae_reply_def hear_leader_def seen_term_def ae_trim_def go_from_def cov)
qed

text \<open>The check and the merge of a well-formed peer.\<close>

definition ae_matches :: "'c Raft \<Rightarrow> 'c AppendEntriesArgs \<Rightarrow> bool" where
  "ae_matches rf args \<longleftrightarrow> termAt rf (ae_PrevLogIndex args) = Some (ae_PrevLogTerm args)"

definition ae_merged :: "'c Raft \<Rightarrow> 'c AppendEntriesArgs \<Rightarrow> 'c Raft" where
  "ae_merged rf args = rf\<lparr>rf_log := merge (rf_log rf)
     (Suc (nat (ae_PrevLogIndex args - rf_lastIncludedIndex rf))) (ae_Entries args)\<rparr>"

lemma ae_check_merge_cases:
  assumes "rf_lastIncludedIndex rf \<le> ae_PrevLogIndex args"
  shows "if ae_matches rf args then
      ae_check_merge rf args reply =
        Some (ae_commit (persist (ae_merged rf args)) (ae_LeaderCommit args), reply\<lparr>aer_Success := True\<rparr>)
    else if ae_PrevLogIndex args > lastLogIndex rf then
      ae_check_merge rf args reply =
        Some (rf, reply\<lparr>aer_ConflictIndex := lastLogIndex rf + 1, aer_ConflictTerm := -1\<rparr>)
    else \<exists>t k. termAt rf (ae_PrevLogIndex args) = Some t \<and> conflictIndex rf t (ae_PrevLogIndex args) = Some k
      \<and> ae_check_merge rf args reply = Some (rf, reply\<lparr>aer_ConflictTerm := t, aer_ConflictIndex := k\<rparr>)"
proof (cases "ae_PrevLogIndex args > lastLogIndex rf")
  case True
  then have "\<not> ae_matches rf args"
    using termAt_Some_iff [of rf "ae_PrevLogIndex args"] by (auto simp: ae_matches_def)
  with True show ?thesis by (simp add: ae_check_merge_def)
next
  case False
  let ?p = "ae_PrevLogIndex args"
  obtain t where t: "termAt rf ?p = Some t"
    using termAt_Some_iff [of rf ?p] assms False by auto
  obtain k where k: "conflictIndex rf t ?p = Some k" using conflictIndex_spec [OF t] by auto
  have m: "ae_merge rf (?p + 1) (ae_Entries args) =
      Some (merge (rf_log rf) (Suc (nat (?p - rf_lastIncludedIndex rf))) (ae_Entries args))"
    using assms False by (subst ae_merge_merge) (simp_all add: Suc_nat_eq_nat_zadd1 algebra_simps)
  from False t k m show ?thesis
    by (auto simp: ae_check_merge_def ae_matches_def ae_merged_def)
qed

lemma ae_trim_ge: "rf_lastIncludedIndex rf \<le> ae_PrevLogIndex (ae_trim rf args)"
  by (simp add: ae_trim_def)

lemma ae_commit_moves: "raft_wf rf \<Longrightarrow> on_disk rf \<Longrightarrow> raft_moves rf (ae_commit rf c)"
  by (rule raft_moves_volatile) (auto simp: ae_commit_def Let_def raftstate_def raft_wf_def)

lemma hd_merge: "0 < i \<Longrightarrow> i \<le> length l \<Longrightarrow> hd (merge l i es) = hd l"
proof (induction l i es rule: merge.induct)
  case (2 l i e es)
  then show ?case by (cases l) (auto simp: take_Cons' neq_Nil_conv)
qed simp

lemma ae_merged_wf:
  assumes "raft_wf rf" "ae_matches rf args"
  shows "raft_wf (ae_merged rf args)"
proof -
  have "rf_lastIncludedIndex rf \<le> ae_PrevLogIndex args" "ae_PrevLogIndex args \<le> lastLogIndex rf"
    using assms(2) termAt_Some_iff [of rf "ae_PrevLogIndex args"] by (auto simp: ae_matches_def)
  then have "Suc (nat (ae_PrevLogIndex args - rf_lastIncludedIndex rf)) \<le> length (rf_log rf)"
    by (simp add: lastLogIndex_def Suc_le_eq nat_less_iff)
  with assms(1) show ?thesis
    by (simp add: raft_wf_def ae_merged_def merge_Nil_iff hd_merge)
qed

lemma ae_check_merge_moves:
  assumes "raft_wf rf" "on_disk rf" "rf_lastIncludedIndex rf \<le> ae_PrevLogIndex args"
  shows "\<exists>rf' r. ae_check_merge rf args reply = Some (rf', r) \<and> raft_moves rf rf'"
proof (cases "ae_matches rf args")
  case True
  have m: "raft_moves rf (persist (ae_merged rf args))"
    using ae_merged_wf [OF assms(1) True] by (intro raft_moves_persist) (simp_all add: ae_merged_def)
  then have "raft_moves (persist (ae_merged rf args)) (ae_commit (persist (ae_merged rf args)) (ae_LeaderCommit args))"
    by (intro ae_commit_moves) (simp_all add: raft_moves_def)
  with m have "raft_moves rf (ae_commit (persist (ae_merged rf args)) (ae_LeaderCommit args))"
    by (rule raft_moves_trans)
  with True ae_check_merge_cases [OF assms(3), of reply] show ?thesis by simp
next
  case False
  with ae_check_merge_cases [OF assms(3), of reply] raft_moves_refl [OF assms(1,2)] show ?thesis
    by (auto split: if_splits)
qed

lemma AppendEntries_moves:
  assumes "raft_wf rf" "on_disk rf"
  shows "\<exists>rf' reply. AppendEntries time rf args = Some (rf', reply) \<and> raft_moves rf rf'"
proof -
  let ?rf1 = "hear_leader time rf (ae_Term args)"
  have m: "raft_moves rf ?rf1" using assms by (rule hear_leader_moves)
  then have ok: "raft_wf ?rf1" "on_disk ?rf1" by (simp_all add: raft_moves_def)
  have c: "raft_moves rf (ae_commit ?rf1 (ae_LeaderCommit args))"
    using m ae_commit_moves [OF ok] by (rule raft_moves_trans)
  obtain rf' r where g: "ae_check_merge ?rf1 (ae_trim rf args) (ae_reply rf args) = Some (rf', r)"
    "raft_moves ?rf1 rf'"
    using ae_check_merge_moves [OF ok, of "ae_trim rf args" "ae_reply rf args"] ae_trim_ge [of rf args] by auto
  from raft_moves_trans [OF m g(2)] c g(1) raft_moves_refl [OF assms] show ?thesis
    by (auto simp: AppendEntries_eq Let_def)
qed

text \<open>The log that \<open>InstallSnapshot\<close> keeps: the sentinel, and the entries after it when the term at
  the snapshot's index is the one of the snapshot.\<close>

definition is_log :: "'c Raft \<Rightarrow> InstallSnapshotArgs \<Rightarrow> 'c LogEntry list" where
  "is_log rf args =
     \<lparr>le_Term = is_LastIncludedTerm args, le_Command = None\<rparr> #
     (if termAt rf (is_LastIncludedIndex args) = Some (is_LastIncludedTerm args)
      then drop (Suc (nat (is_LastIncludedIndex args - rf_lastIncludedIndex rf))) (rf_log rf) else [])"

definition is_installed :: "'c Raft \<Rightarrow> InstallSnapshotArgs \<Rightarrow> 'c Raft" where
  "is_installed rf args =
     (persistWithSnapshot (rf\<lparr>rf_log := is_log rf args, rf_lastIncludedIndex := is_LastIncludedIndex args,
        rf_lastIncludedTerm := is_LastIncludedTerm args,
        rf_commitIndex := max (rf_commitIndex rf) (is_LastIncludedIndex args),
        rf_lastApplied := max (rf_lastApplied rf) (is_LastIncludedIndex args)\<rparr>) (data_bytes (is_Data args)))
     \<lparr>rf_pendingSnapshot := is_Data args, rf_pendingSnapshotIndex := is_LastIncludedIndex args,
      rf_pendingSnapshotTerm := is_LastIncludedTerm args\<rparr>"

lemma raise_index:
  "(if rf_commitIndex rf < i then rf\<lparr>rf_commitIndex := i\<rparr> else rf) = rf\<lparr>rf_commitIndex := max (rf_commitIndex rf) i\<rparr>"
  "(if rf_lastApplied rf < i then rf\<lparr>rf_lastApplied := i\<rparr> else rf) = rf\<lparr>rf_lastApplied := max (rf_lastApplied rf) i\<rparr>"
  by (cases rf; simp add: max_def)+

lemma InstallSnapshot_eq:
  "InstallSnapshot time rf args = Some
     (if is_Term args < rf_currentTerm rf then (rf, \<lparr>isr_Term = rf_currentTerm rf\<rparr>)
      else let rf1 = hear_leader time rf (is_Term args)
           in (if is_LastIncludedIndex args \<le> rf_lastIncludedIndex rf then rf1 else is_installed rf1 args,
               \<lparr>isr_Term = is_Term args\<rparr>))"
proof (cases "is_Term args < rf_currentTerm rf \<or> is_LastIncludedIndex args \<le> rf_lastIncludedIndex rf")
  case True
  then show ?thesis
    by (auto simp: InstallSnapshot_def hear_leader_def seen_term_def Let_def)
next
  case False
  let ?i = "is_LastIncludedIndex args"
  let ?rf1 = "hear_leader time rf (is_Term args)"
  show ?thesis
  proof (cases "?i \<le> lastLogIndex rf")
    case True
    moreover have "rf_lastIncludedIndex rf \<le> ?i" using False by simp
    ultimately obtain t where t: "termAt rf ?i = Some t" using termAt_Some_iff [of rf ?i] by auto
    have "go_from (rf_log rf) (?i - rf_lastIncludedIndex rf + 1) =
        Some (drop (Suc (nat (?i - rf_lastIncludedIndex rf))) (rf_log rf))"
      using True False by (simp add: go_from_def lastLogIndex_def Suc_nat_eq_nat_zadd1 algebra_simps)
    with True False t show ?thesis
      by (cases "is_Term args > rf_currentTerm rf")
         (simp_all add: InstallSnapshot_def Let_def is_installed_def is_log_def hear_leader_def seen_term_def raise_index)
  next
    case outside: False
    then have "termAt rf ?i = None" using termAt_Some_iff [of rf ?i] by auto
    with outside False show ?thesis
      by (cases "is_Term args > rf_currentTerm rf")
         (simp_all add: InstallSnapshot_def Let_def is_installed_def is_log_def hear_leader_def seen_term_def raise_index)
  qed
qed

lemma is_installed_moves:
  assumes "raft_wf rf" "rf_lastIncludedIndex rf < is_LastIncludedIndex args"
  shows "raft_moves rf (is_installed rf args)"
proof -
  let ?rf' = "rf\<lparr>rf_log := is_log rf args, rf_lastIncludedIndex := is_LastIncludedIndex args,
        rf_lastIncludedTerm := is_LastIncludedTerm args,
        rf_commitIndex := max (rf_commitIndex rf) (is_LastIncludedIndex args),
        rf_lastApplied := max (rf_lastApplied rf) (is_LastIncludedIndex args)\<rparr>"
  have m: "raft_moves rf (persistWithSnapshot ?rf' (data_bytes (is_Data args)))"
    using assms by (intro raft_moves_persist) (simp_all add: raft_wf_def is_log_def)
  show ?thesis unfolding is_installed_def
    by (rule raft_moves_trans [OF m], rule raft_moves_volatile)
       (use m in \<open>auto simp: raft_moves_def raft_wf_def raftstate_def\<close>)
qed

lemma InstallSnapshot_moves:
  assumes "raft_wf rf" "on_disk rf" "InstallSnapshot time rf args = Some (rf', reply)"
  shows "raft_moves rf rf'"
proof -
  let ?rf1 = "hear_leader time rf (is_Term args)"
  have m: "raft_moves rf ?rf1" using assms(1,2) by (rule hear_leader_moves)
  then have "raft_wf ?rf1" by (simp add: raft_moves_def)
  then have "rf_lastIncludedIndex rf < is_LastIncludedIndex args \<Longrightarrow> raft_moves ?rf1 (is_installed ?rf1 args)"
    by (rule is_installed_moves) simp
  with m assms show ?thesis
    by (auto simp: InstallSnapshot_eq raft_moves_refl Let_def split: if_splits intro: raft_moves_trans)
qed

subsection \<open>The other operations\<close>

lemma Snapshot_eq:
  assumes "raft_wf rf"
  shows "Snapshot rf index snap = Some
    (if rf_lastIncludedIndex rf < index \<and> index \<le> lastLogIndex rf then
       (let t = le_Term (rf_log rf ! nat (index - rf_lastIncludedIndex rf))
        in persistWithSnapshot
             (rf\<lparr>rf_log := \<lparr>le_Term = t, le_Command = None\<rparr> # drop (Suc (nat (index - rf_lastIncludedIndex rf))) (rf_log rf),
                 rf_lastIncludedIndex := index, rf_lastIncludedTerm := t\<rparr>) snap)
     else rf)"
proof (cases "rf_lastIncludedIndex rf < index \<and> index \<le> lastLogIndex rf")
  case True
  then have "index - rf_lastIncludedIndex rf + 1 \<le> int (length (rf_log rf))" by (simp add: lastLogIndex_def)
  with True show ?thesis
    by (simp add: Snapshot_def go_make_cap_def go_from_def termAt_in Let_def Suc_nat_eq_nat_zadd1)
       (simp add: lastLogIndex_def algebra_simps)
qed (auto simp: Snapshot_def)

lemma Snapshot_moves:
  assumes "raft_wf rf" "on_disk rf" "Snapshot rf index snap = Some rf'"
  shows "raft_moves rf rf'"
  using assms(3) unfolding Snapshot_eq [OF assms(1)] Let_def
  using assms by (auto split: if_splits intro!: raft_moves_refl raft_moves_persist simp: raft_wf_def)

lemma set_all_eq: "n \<le> length xs \<Longrightarrow> set_all xs n v = Some (replicate n v @ drop n xs)"
proof (induction n)
  case (Suc n)
  then have "drop n xs = xs ! n # drop (Suc n) xs" by (simp add: Cons_nth_drop_Suc)
  with Suc show ?case
    by (simp add: go_upd_def list_update_append replicate_append_same [symmetric])
qed simp

lemma becomeLeader_eq:
  assumes "raft_wf rf"
  shows "becomeLeader rf = Some (rf\<lparr>rf_role := Leader,
    rf_nextIndex := replicate (rf_peers rf) (lastLogIndex rf + 1),
    rf_matchIndex := (replicate (rf_peers rf) 0)[nat (rf_me rf) := lastLogIndex rf]\<rparr>)"
  using assms by (simp add: becomeLeader_def raft_wf_def set_all_eq go_upd_def Let_def)

lemma becomeLeader_moves:
  "raft_wf rf \<Longrightarrow> on_disk rf \<Longrightarrow> becomeLeader rf = Some rf' \<Longrightarrow> raft_moves rf rf'"
  by (auto simp: becomeLeader_eq raftstate_def intro!: raft_moves_volatile)

lemma Start_eq:
  assumes "raft_wf rf"
  shows "Start rf command = Some
    (if rf_role rf = Leader then
       (persist (rf\<lparr>rf_log := rf_log rf @ [\<lparr>le_Term = rf_currentTerm rf, le_Command = command\<rparr>],
          rf_matchIndex := (rf_matchIndex rf)[nat (rf_me rf) := lastLogIndex rf + 1],
          rf_nextIndex := (rf_nextIndex rf)[nat (rf_me rf) := lastLogIndex rf + 2]\<rparr>),
        lastLogIndex rf + 1, rf_currentTerm rf, True)
     else (rf, -1, rf_currentTerm rf, False))"
  using assms by (simp add: Start_def raft_wf_def go_upd_def Let_def lastLogIndex_def) (simp add: persist_def algebra_simps)

lemma Start_moves:
  assumes "raft_wf rf" "on_disk rf" "Start rf command = Some (rf', r)"
  shows "raft_moves rf rf'"
  using assms(3) unfolding Start_eq [OF assms(1)]
  using assms by (auto split: if_splits intro!: raft_moves_refl raft_moves_persist simp: raft_wf_def)

lemma startElection_eq:
  assumes "raft_wf rf"
  shows "startElection time rand rf = Some
    (persist (rf\<lparr>rf_role := Candidate, rf_currentTerm := rf_currentTerm rf + 1, rf_votedFor := rf_me rf,
        rf_lastHeardAt := time, rf_electionReset := 400 + rand\<rparr>),
     \<lparr>rv_Term = rf_currentTerm rf + 1, rv_CandidateId = rf_me rf, rv_LastLogIndex = lastLogIndex rf,
      rv_LastLogTerm = le_Term (last (rf_log rf))\<rparr>)"
proof -
  have "lastLogTerm (rf\<lparr>rf_role := Candidate, rf_currentTerm := rf_currentTerm rf + 1, rf_votedFor := rf_me rf,
      rf_lastHeardAt := time, rf_electionReset := 400 + rand\<rparr>) = Some (le_Term (last (rf_log rf)))"
    using lastLogTerm_wf [OF assms] by (simp add: log_defs)
  then show ?thesis
    by (simp add: startElection_def resetElectionTimer_def Let_def lastLogIndex_def) (simp add: persist_def)
qed

lemma startElection_moves:
  "raft_wf rf \<Longrightarrow> on_disk rf \<Longrightarrow> startElection time rand rf = Some (rf', args) \<Longrightarrow> raft_moves rf rf'"
  by (auto simp: startElection_eq raft_wf_def intro!: raft_moves_persist)

lemma vote_reply_moves:
  "raft_wf rf \<Longrightarrow> on_disk rf \<Longrightarrow> vote_reply rf term votes reply = Some (rf', n) \<Longrightarrow> raft_moves rf rf'"
  by (auto simp: vote_reply_def bind_eq_Some_conv Let_def split: if_splits
      intro: raft_moves_refl becomeFollower_moves becomeLeader_moves)

text \<open>Where the range checks of the reply handlers hold, they are total.\<close>

lemma vote_reply_total: "raft_wf rf \<Longrightarrow> \<exists>rf' n. vote_reply rf term votes reply = Some (rf', n)"
  by (auto simp: vote_reply_def becomeLeader_eq Let_def)

text \<open>A reply changes the indices of the peer or makes the leader step down.\<close>

lemma moves_indices:
  "raft_wf rf \<Longrightarrow> on_disk rf \<Longrightarrow> length ns = length (rf_nextIndex rf) \<Longrightarrow> length ms = length (rf_matchIndex rf) \<Longrightarrow>
     raft_moves rf (rf\<lparr>rf_nextIndex := ns, rf_matchIndex := ms, rf_commitIndex := c\<rparr>)"
  by (rule raft_moves_volatile) (simp_all add: raft_wf_def raftstate_def)

lemma moves_next: "raft_wf rf \<Longrightarrow> on_disk rf \<Longrightarrow> length ns = length (rf_nextIndex rf) \<Longrightarrow> raft_moves rf (rf\<lparr>rf_nextIndex := ns\<rparr>)"
  using moves_indices [of rf ns "rf_matchIndex rf" "rf_commitIndex rf"] by simp

lemma moves_match: "raft_wf rf \<Longrightarrow> on_disk rf \<Longrightarrow> length ms = length (rf_matchIndex rf) \<Longrightarrow> raft_moves rf (rf\<lparr>rf_matchIndex := ms\<rparr>)"
  using moves_indices [of rf "rf_nextIndex rf" ms "rf_commitIndex rf"] by simp

text \<open>The conditional updates of \<open>nextIndex[peer]\<close> and \<open>matchIndex[peer]\<close> raise the old value.\<close>

definition raise_next :: "'c Raft \<Rightarrow> nat \<Rightarrow> int \<Rightarrow> 'c Raft" where
  "raise_next rf peer v = rf\<lparr>rf_nextIndex := (rf_nextIndex rf)[peer := max (rf_nextIndex rf ! peer) v]\<rparr>"

definition raise_match :: "'c Raft \<Rightarrow> nat \<Rightarrow> int \<Rightarrow> 'c Raft" where
  "raise_match rf peer v = rf\<lparr>rf_matchIndex := (rf_matchIndex rf)[peer := max (rf_matchIndex rf ! peer) v]\<rparr>"

lemma raise_next_eq:
  "peer < length (rf_nextIndex rf) \<Longrightarrow>
   (if rf_nextIndex rf ! peer < v
    then do { ns \<leftarrow> go_upd (rf_nextIndex rf) (int peer) v; Some (rf\<lparr>rf_nextIndex := ns\<rparr>) }
    else Some rf) = Some (raise_next rf peer v)"
  by (cases rf) (simp add: raise_next_def go_upd_def max_def)

lemma raise_match_eq:
  "peer < length (rf_matchIndex rf) \<Longrightarrow>
   (if rf_matchIndex rf ! peer < v
    then do { ms \<leftarrow> go_upd (rf_matchIndex rf) (int peer) v; Some (rf\<lparr>rf_matchIndex := ms\<rparr>) }
    else Some rf) = Some (raise_match rf peer v)"
  by (cases rf) (simp add: raise_match_def go_upd_def max_def)

lemma raise_simps [simp]:
  "length (rf_nextIndex (raise_next rf p v)) = length (rf_nextIndex rf)"
  "rf_matchIndex (raise_next rf p v) = rf_matchIndex rf"
  "rf_nextIndex (raise_match rf p v) = rf_nextIndex rf"
  "length (rf_matchIndex (raise_match rf p v)) = length (rf_matchIndex rf)"
  by (simp_all add: raise_next_def raise_match_def)

lemma raise_moves:
  "raft_wf rf \<Longrightarrow> on_disk rf \<Longrightarrow> raft_moves rf (raise_next rf p v)"
  "raft_wf rf \<Longrightarrow> on_disk rf \<Longrightarrow> raft_moves rf (raise_match rf p v)"
  by (simp_all add: raise_next_def raise_match_def moves_next moves_match)

lemma install_reply_eq:
  assumes "raft_wf rf" "peer < rf_peers rf"
  shows "install_reply rf peer args reply = Some
    (if rf_currentTerm rf \<noteq> is_Term args \<or> rf_role rf \<noteq> Leader then rf
     else if isr_Term reply > rf_currentTerm rf then becomeFollower rf (isr_Term reply)
     else raise_match (raise_next rf peer (is_LastIncludedIndex args + 1)) peer (is_LastIncludedIndex args))"
proof -
  have len: "peer < length (rf_nextIndex rf)" "peer < length (rf_matchIndex rf)"
    using assms by (simp_all add: raft_wf_def)
  have nth: "go_nth (rf_nextIndex rf) (int peer) = Some (rf_nextIndex rf ! peer)"
    "go_nth (rf_matchIndex rf) (int peer) = Some (rf_matchIndex rf ! peer)"
    using len by (simp_all add: go_nth_def)
  have 2: "(if rf_matchIndex rf ! peer < v
    then do { ms \<leftarrow> go_upd (rf_matchIndex rf) (int peer) v; Some (raise_next rf peer w\<lparr>rf_matchIndex := ms\<rparr>) }
    else Some (raise_next rf peer w)) = Some (raise_match (raise_next rf peer w) peer v)" for v w
    by (rule raise_match_eq [of peer "raise_next rf peer w" v, unfolded raise_simps, OF len(2)])
  show ?thesis
    unfolding install_reply_def by (simp only: nth raise_next_eq [OF len(1)] bind.bind_lunit raise_simps 2 if_distrib [of Some])
qed

lemma install_reply_moves:
  assumes "raft_wf rf" "on_disk rf" "peer < rf_peers rf" "install_reply rf peer args reply = Some rf'"
  shows "raft_moves rf rf'"
proof -
  have m: "raft_moves rf (raise_next rf peer v)" for v using assms(1,2) by (rule raise_moves)
  then have "raft_moves (raise_next rf peer v) (raise_match (raise_next rf peer v) peer w)" for v w
    by (intro raise_moves) (simp_all add: raft_moves_def)
  with m assms show ?thesis
    by (auto simp: install_reply_eq split: if_splits
        intro: raft_moves_refl becomeFollower_moves raft_moves_trans)
qed

lemma count_match_total: "\<forall>i \<in> set is. i < length match \<Longrightarrow> \<exists>c. count_match match N is = Some c"
  by (induction "is") (auto simp: go_nth_def)

text \<open>The number of peers whose match index reaches \<open>N\<close>, the leader itself included.\<close>

definition matching :: "'c Raft \<Rightarrow> int \<Rightarrow> nat set" where
  "matching rf N = {i. i < rf_peers rf \<and> (int i = rf_me rf \<or> rf_matchIndex rf ! i \<ge> N)}"

lemma count_match_card:
  "distinct is \<Longrightarrow> \<forall>i \<in> set is. i < length match \<Longrightarrow>
     count_match match N is = Some (1 + int (card {i \<in> set is. match ! i \<ge> N}))"
proof (induction "is")
  case (Cons i "is")
  have "{j \<in> set (i # is). match ! j \<ge> N} =
      (if match ! i \<ge> N then insert i {j \<in> set is. match ! j \<ge> N} else {j \<in> set is. match ! j \<ge> N})"
    by auto
  with Cons show ?case by (simp add: go_nth_def)
qed simp

lemma count_match_matching:
  assumes "raft_wf rf"
  shows "count_match (rf_matchIndex rf) N (other_peers rf) = Some (int (card (matching rf N)))"
proof -
  let ?A = "{i \<in> set (other_peers rf). rf_matchIndex rf ! i \<ge> N}"
  have "matching rf N = insert (nat (rf_me rf)) ?A" "nat (rf_me rf) \<notin> ?A"
    using assms by (auto simp: matching_def other_peers_def raft_wf_def)
  moreover have "distinct (other_peers rf)" "\<forall>i \<in> set (other_peers rf). i < length (rf_matchIndex rf)"
    using assms by (auto simp: other_peers_def raft_wf_def)
  ultimately show ?thesis by (simp add: count_match_card)
qed

text \<open>Index \<open>N\<close> may be committed by counting: an entry of the current term on a majority.\<close>

definition committable :: "'c Raft \<Rightarrow> int \<Rightarrow> bool" where
  "committable rf N \<longleftrightarrow>
     rf_lastIncludedIndex rf < N \<and> termAt rf N = Some (rf_currentTerm rf)
     \<and> rf_peers rf < 2 * card (matching rf N)"

lemma advance_loop_spec:
  assumes "raft_wf rf" "N \<le> lastLogIndex rf"
  shows "\<exists>c. advance_loop rf N = Some (rf\<lparr>rf_commitIndex := c\<rparr>)
    \<and> (if \<exists>k. rf_commitIndex rf < k \<and> k \<le> N \<and> committable rf k
        then rf_commitIndex rf < c \<and> c \<le> N \<and> committable rf c \<and> (\<forall>k. c < k \<and> k \<le> N \<longrightarrow> \<not> committable rf k)
        else c = rf_commitIndex rf)"
  using assms
proof (induction rf N rule: advance_loop.induct)
  case (1 rf N)
  have keep: "rf\<lparr>rf_commitIndex := rf_commitIndex rf\<rparr> = rf" by simp
  have le: "k \<le> N - 1 \<longleftrightarrow> k \<le> N \<and> k \<noteq> N" for k :: int by auto
  consider "N \<le> rf_commitIndex rf \<or> N \<le> rf_lastIncludedIndex rf"
    | "N > rf_commitIndex rf" "N > rf_lastIncludedIndex rf" by linarith
  then show ?case
  proof cases
    case 1
    then have "\<not> (\<exists>k. rf_commitIndex rf < k \<and> k \<le> N \<and> committable rf k)"
      by (auto simp: committable_def)
    with 1 show ?thesis
      by (intro exI [of _ "rf_commitIndex rf"]) (auto simp: advance_loop.simps [of rf N])
  next
    case 2
    then obtain t where t: "termAt rf N = Some t"
      using termAt_Some_iff [of rf N] "1.prems" by auto
    note cm = count_match_matching [OF "1.prems"(1), of N]
    show ?thesis
    proof (cases "committable rf N")
      case True
      with 2 t cm show ?thesis
        by (intro exI [of _ N]) (auto simp: advance_loop.simps [of rf N] committable_def)
    next
      case False
      have step: "advance_loop rf N = advance_loop rf (N - 1)"
        using False 2 t cm by (auto simp: advance_loop.simps [of rf N] committable_def)
      have "\<exists>c. advance_loop rf (N - 1) = Some (rf\<lparr>rf_commitIndex := c\<rparr>)
        \<and> (if \<exists>k. rf_commitIndex rf < k \<and> k \<le> N - 1 \<and> committable rf k
            then rf_commitIndex rf < c \<and> c \<le> N - 1 \<and> committable rf c \<and> (\<forall>k. c < k \<and> k \<le> N - 1 \<longrightarrow> \<not> committable rf k)
            else c = rf_commitIndex rf)"
      proof (cases "t = rf_currentTerm rf")
        case True
        with False 2 t cm have "\<not> int (rf_peers rf) < int (card (matching rf N)) * 2"
          by (auto simp: committable_def)
        then show ?thesis using "1.IH"(2) [of t "int (card (matching rf N))"] 2 t cm True "1.prems" by simp
      next
        case False
        then show ?thesis using "1.IH"(1) [of t] 2 t "1.prems" by simp
      qed
      with step False show ?thesis unfolding le by (auto split: if_splits)
    qed
  qed
qed

lemma advanceCommit_spec:
  assumes "raft_wf rf"
  obtains c where "advanceCommit rf = Some (rf\<lparr>rf_commitIndex := c\<rparr>)"
    "if \<exists>k. rf_commitIndex rf < k \<and> committable rf k
     then rf_commitIndex rf < c \<and> committable rf c \<and> (\<forall>k > c. \<not> committable rf k)
     else c = rf_commitIndex rf"
proof -
  have le: "committable rf k \<Longrightarrow> k \<le> lastLogIndex rf" for k
    using termAt_Some_iff [of rf k] by (auto simp: committable_def)
  obtain c where c: "advance_loop rf (lastLogIndex rf) = Some (rf\<lparr>rf_commitIndex := c\<rparr>)"
    "if \<exists>k. rf_commitIndex rf < k \<and> k \<le> lastLogIndex rf \<and> committable rf k
        then rf_commitIndex rf < c \<and> c \<le> lastLogIndex rf \<and> committable rf c \<and>
          (\<forall>k. c < k \<and> k \<le> lastLogIndex rf \<longrightarrow> \<not> committable rf k)
        else c = rf_commitIndex rf"
    using advance_loop_spec [OF assms order_refl] by auto
  show thesis
  proof (rule that)
    show "advanceCommit rf = Some (rf\<lparr>rf_commitIndex := c\<rparr>)" using c(1) by (simp add: advanceCommit_def)
    have "(\<exists>k. rf_commitIndex rf < k \<and> k \<le> lastLogIndex rf \<and> committable rf k) \<longleftrightarrow>
        (\<exists>k. rf_commitIndex rf < k \<and> committable rf k)" using le by blast
    moreover have "(\<forall>k. c < k \<and> k \<le> lastLogIndex rf \<longrightarrow> \<not> committable rf k) \<longleftrightarrow> (\<forall>k > c. \<not> committable rf k)"
      using le by blast
    ultimately show "if \<exists>k. rf_commitIndex rf < k \<and> committable rf k
      then rf_commitIndex rf < c \<and> committable rf c \<and> (\<forall>k > c. \<not> committable rf k)
      else c = rf_commitIndex rf"
      using c(2) by presburger
  qed
qed

lemma advanceCommit_moves:
  assumes "raft_wf rf" "on_disk rf" "advanceCommit rf = Some rf'"
  shows "raft_moves rf rf'"
proof -
  obtain c where "rf' = rf\<lparr>rf_commitIndex := c\<rparr>"
    using advanceCommit_spec [OF assms(1)] assms(3) by (metis option.inject)
  then show ?thesis using moves_indices [OF assms(1,2), of "rf_nextIndex rf" "rf_matchIndex rf" c] by simp
qed

lemma found_term_total: "i \<le> lastLogIndex rf \<Longrightarrow> \<exists>k. found_term rf t i = Some k"
proof (induction rf t i rule: found_term.induct)
  case (1 rf t i)
  then show ?case
    using termAt_Some_iff [of rf i] by (cases "i > rf_lastIncludedIndex rf") (auto simp: found_term.simps [of rf t i])
qed

text \<open>A search from index \<open>i\<close> returns \<open>-1\<close> or an index at most \<open>i\<close>.\<close>

lemma found_term_le:
  "found_term rf t i = Some k \<Longrightarrow> k = -1 \<or> (rf_lastIncludedIndex rf < k \<and> k \<le> i \<and> termAt rf k = Some t)"
proof (induction rf t i rule: found_term.induct)
  case (1 rf t i)
  show ?case
  proof (cases "i > rf_lastIncludedIndex rf \<and> termAt rf i \<noteq> Some t")
    case True
    with "1.prems" obtain u where u: "termAt rf i = Some u" "found_term rf t (i - 1) = Some k"
      by (auto simp: found_term.simps [of rf t i] bind_eq_Some_conv)
    with True "1.IH" [of u] show ?thesis by auto
  next
    case False
    then show ?thesis
      using "1.prems" [unfolded found_term.simps [of rf t i]]
      by (cases "i > rf_lastIncludedIndex rf") simp_all
  qed
qed

lemma fast_backup_total: "\<exists>k. fast_backup rf old reply = Some k"
  using found_term_total [OF order_refl, of rf "aer_ConflictTerm reply"] by (auto simp: fast_backup_def)

lemma append_reply_eq:
  assumes "raft_wf rf" "peer < rf_peers rf"
  shows "append_reply rf peer args reply =
    (if rf_currentTerm rf \<noteq> ae_Term args \<or> rf_role rf \<noteq> Leader then Some (rf, False)
     else if aer_Term reply > rf_currentTerm rf then Some (becomeFollower rf (aer_Term reply), False)
     else if aer_Success reply then
       (let newMatch = ae_PrevLogIndex args + int (length (ae_Entries args))
        in map_option (\<lambda>rf. (rf, False)) (advanceCommit (raise_next (raise_match rf peer newMatch) peer (newMatch + 1))))
     else map_option (\<lambda>k. (rf\<lparr>rf_nextIndex := (rf_nextIndex rf)[peer := max 1 k]\<rparr>, True))
            (fast_backup rf (rf_nextIndex rf ! peer) reply))"
proof -
  have len: "peer < length (rf_nextIndex rf)" "peer < length (rf_matchIndex rf)"
    using assms by (simp_all add: raft_wf_def)
  have nth: "go_nth (rf_nextIndex rf) (int peer) = Some (rf_nextIndex rf ! peer)"
    "go_nth (rf_matchIndex rf) (int peer) = Some (rf_matchIndex rf ! peer)"
    using len by (simp_all add: go_nth_def)
  have 2: "(if rf_nextIndex rf ! peer < v
    then do { ns \<leftarrow> go_upd (rf_nextIndex rf) (int peer) v; Some (raise_match rf peer w\<lparr>rf_nextIndex := ns\<rparr>) }
    else Some (raise_match rf peer w)) = Some (raise_next (raise_match rf peer w) peer v)" for v w
    by (rule raise_next_eq [of peer "raise_match rf peer w" v, unfolded raise_simps, OF len(1)])
  obtain k where k: "fast_backup rf (rf_nextIndex rf ! peer) reply = Some k" using fast_backup_total by blast
  have upd: "go_upd (rf_nextIndex rf) (int peer) v = Some ((rf_nextIndex rf)[peer := v])" for v
    using len by (simp add: go_upd_def)
  have clamp: "(if k < 1 then 1 else k) = max 1 k" by simp
  have mb: "m \<bind> (\<lambda>rf. Some (rf, False)) = map_option (\<lambda>rf. (rf, False)) m" for m :: "'a Raft option"
    by (cases m) simp_all
  show ?thesis
    unfolding append_reply_def Let_def
    by (simp only: nth raise_match_eq [OF len(2)] bind.bind_lunit raise_simps 2 k option.map mb)
       (simp only: upd clamp bind.bind_lunit)
qed

lemma append_reply_moves:
  assumes "raft_wf rf" "on_disk rf" "peer < rf_peers rf" "append_reply rf peer args reply = Some (rf', again)"
  shows "raft_moves rf rf'"
proof -
  have 1: "raft_moves rf (raise_match rf peer v)" for v using assms(1,2) by (rule raise_moves)
  then have 2: "raft_moves (raise_match rf peer v) (raise_next (raise_match rf peer v) peer w)" for v w
    by (intro raise_moves) (simp_all add: raft_moves_def)
  have 3: "raft_moves rf (raise_next (raise_match rf peer v) peer w)" for v w
    using 1 2 by (rule raft_moves_trans)
  then have "raft_moves (raise_next (raise_match rf peer v) peer w) rf'"
    if "advanceCommit (raise_next (raise_match rf peer v) peer w) = Some rf'" for v w
    using that by (intro advanceCommit_moves) (simp_all add: raft_moves_def)
  with 3 have "raft_moves rf rf'"
    if "advanceCommit (raise_next (raise_match rf peer v) peer w) = Some rf'" for v w
    using that by (blast intro: raft_moves_trans)
  with assms show ?thesis
    by (auto simp: append_reply_eq Let_def split: if_splits
        intro: raft_moves_refl becomeFollower_moves moves_next)
qed

lemma append_reply_total:
  assumes "raft_wf rf" "on_disk rf" "peer < rf_peers rf"
  shows "\<exists>rf' again. append_reply rf peer args reply = Some (rf', again)"
proof -
  have "\<exists>rf'. advanceCommit (raise_next (raise_match rf peer v) peer w) = Some rf'" for v w
  proof -
    have "raft_wf (raise_next (raise_match rf peer v) peer w)"
      using assms(1) by (simp add: raft_wf_def raise_next_def raise_match_def)
    then show ?thesis by (rule advanceCommit_spec) blast
  qed
  moreover obtain k where "fast_backup rf (rf_nextIndex rf ! peer) reply = Some k" using fast_backup_total by blast
  ultimately show ?thesis using assms(1,3) by (auto simp: append_reply_eq Let_def)
qed

end
