(* ===== verification/RaftLocal.thy ===== *)
theory RaftLocal
  imports RaftInv
begin

text \<open>
  Properties of one Raft peer under any sequence of operations, with any arguments and replies: the
  network is free to deliver anything, the service may call \<open>Start\<close> and \<open>Snapshot\<close> at any time, and
  the process may crash and be restarted by \<open>Make\<close> from its disk between any two operations.
\<close>

inductive raft_step :: "'c Raft \<Rightarrow> 'c Raft \<Rightarrow> bool" where
  vote: "RequestVote time rf args = Some (rf', r) \<Longrightarrow> raft_step rf rf'"
| append: "AppendEntries time rf args = Some (rf', ar) \<Longrightarrow> raft_step rf rf'"
| install: "InstallSnapshot time rf iargs = Some (rf', ir) \<Longrightarrow> raft_step rf rf'"
| snapshot: "Snapshot rf index snap = Some rf' \<Longrightarrow> raft_step rf rf'"
| start: "Start rf command = Some (rf', sr) \<Longrightarrow> raft_step rf rf'"
| tick: "ticker time rand rf = Some (rf', targs) \<Longrightarrow> raft_step rf rf'"
| voted: "vote_reply rf term votes reply = Some (rf', n) \<Longrightarrow> raft_step rf rf'"
| installed: "peer < rf_peers rf \<Longrightarrow> install_reply rf peer iargs ireply = Some rf' \<Longrightarrow> raft_step rf rf'"
| appended: "peer < rf_peers rf \<Longrightarrow> append_reply rf peer aargs areply = Some (rf', again) \<Longrightarrow> raft_step rf rf'"
| apply_msg: "applier rf = Some (rf', m) \<Longrightarrow> raft_step rf rf'"
| applied: "raft_step rf (applier_sent rf msg)"
| kill: "raft_step rf (Kill rf)"
| crash: "raft_step rf (Make time rand (rf_peers rf) (rf_me rf) (Checkpoint (rf_persister rf)))"

lemma ticker_moves:
  "raft_wf rf \<Longrightarrow> on_disk rf \<Longrightarrow> ticker time rand rf = Some (rf', targs) \<Longrightarrow> raft_moves rf rf'"
  by (auto simp: ticker_def bind_eq_Some_conv split: if_splits intro: raft_moves_refl startElection_moves)

lemma applier_moves:
  "raft_wf rf \<Longrightarrow> on_disk rf \<Longrightarrow> applier rf = Some (rf', m) \<Longrightarrow> raft_moves rf rf'"
  by (rule raft_moves_volatile)
     (auto simp: applier_def bind_eq_Some_conv Let_def raftstate_def raft_wf_def split: option.splits if_splits)

lemma applier_sent_moves: "raft_wf rf \<Longrightarrow> on_disk rf \<Longrightarrow> raft_moves rf (applier_sent rf msg)"
  by (rule raft_moves_volatile) (auto simp: applier_sent_def Let_def raftstate_def raft_wf_def)

lemma Kill_moves: "raft_wf rf \<Longrightarrow> on_disk rf \<Longrightarrow> raft_moves rf (Kill rf)"
  by (rule raft_moves_volatile) (auto simp: Kill_def raftstate_def raft_wf_def)

lemma Make_simps:
  "rf_peers (Make time rand n me ps) = n" "rf_me (Make time rand n me ps) = me"
  "rf_persister (Make time rand n me ps) = ps" "rf_role (Make time rand n me ps) = Follower"
  "rf_nextIndex (Make time rand n me ps) = replicate n 0" "rf_matchIndex (Make time rand n me ps) = replicate n 0"
  by (auto simp: Make_def readPersist_def resetElectionTimer_def Let_def split: option.splits)

lemma ps_Checkpoint [simp]: "ps_raftstate (Checkpoint ps) = ps_raftstate ps" "ps_snapshot (Checkpoint ps) = ps_snapshot ps"
  by (simp_all add: Checkpoint_def)

text \<open>A restart rebuilds the persistent state: the same term, vote and log.\<close>

lemma restart_state:
  assumes "on_disk rf"
  shows "raftstate (Make time rand (rf_peers rf) (rf_me rf) (Checkpoint (rf_persister rf))) = raftstate rf"
  using assms by (simp add: on_disk_def raftstate_Make)

lemma restart_moves:
  assumes "raft_wf rf" "on_disk rf"
  shows "raft_moves rf (Make time rand (rf_peers rf) (rf_me rf) (Checkpoint (rf_persister rf)))"
    (is "raft_moves rf ?rf'")
proof -
  have "raftstate ?rf' = raftstate rf" using assms(2) by (rule restart_state)
  moreover from this have "on_disk ?rf'" by (simp add: on_disk_def Make_simps raftstate_Make)
  ultimately show ?thesis using assms(1) by (auto simp: raft_moves_def raft_wf_def raftstate_def Make_simps)
qed

lemma raft_step_moves: "raft_step rf rf' \<Longrightarrow> raft_wf rf \<Longrightarrow> on_disk rf \<Longrightarrow> raft_moves rf rf'"
proof (induction rule: raft_step.induct)
  case (append time rf args rf' ar)
  then show ?case using AppendEntries_moves [of rf time args] by auto
qed (blast intro: RequestVote_moves InstallSnapshot_moves Snapshot_moves Start_moves ticker_moves
    vote_reply_moves install_reply_moves append_reply_moves applier_moves applier_sent_moves Kill_moves
    restart_moves)+

lemma raft_steps_move:
  assumes "reach rf raft_step rf'" "raft_wf rf" "on_disk rf"
  shows "raft_moves rf rf'"
  using assms
proof (induction rule: reach.induct)
  case reach_init
  then show ?case by (rule raft_moves_refl)
next
  case (reach_step s t)
  then have "raft_moves rf s" by blast
  moreover from this have "raft_moves s t" using reach_step by (intro raft_step_moves) (simp_all add: raft_moves_def)
  ultimately show ?case by (rule raft_moves_trans)
qed

lemma raft_reachable:
  assumes "reach (Make time rand n me MakePersister) raft_step rf" "0 \<le> me" "me < int n"
  shows "raft_wf rf \<and> on_disk rf \<and> rf_peers rf = n \<and> rf_me rf = me"
proof -
  have "raft_moves (Make time rand n me MakePersister) rf"
    using assms(1) raft_wf_Make [OF assms(2,3)] by (rule raft_steps_move)
  then show ?thesis by (simp add: raft_moves_def Make_simps)
qed

text \<open>
  On exact integers no RPC handler and no reply handler of a peer panics: \<open>RequestVote\<close>, \<open>AppendEntries\<close>, \<open>InstallSnapshot\<close>,
  \<open>Snapshot\<close>, \<open>Start\<close>, \<open>startElection\<close> and the handling of the replies of its own calls index the log and the
  peer tables within their ranges, whatever the arguments and replies contain.
\<close>

lemma handlers_total:
  assumes "raft_wf rf" "on_disk rf" "peer < rf_peers rf"
  shows "RequestVote now rf args \<noteq> None \<and> AppendEntries now rf aargs \<noteq> None
    \<and> InstallSnapshot now rf iargs \<noteq> None \<and> Snapshot rf index snap \<noteq> None \<and> Start rf command \<noteq> None
    \<and> startElection now rand' rf \<noteq> None \<and> vote_reply rf term votes reply \<noteq> None
    \<and> install_reply rf peer iargs' ireply \<noteq> None \<and> append_reply rf peer aargs' areply \<noteq> None"
proof -
  have "AppendEntries now rf aargs \<noteq> None" using AppendEntries_moves [OF assms(1,2), of now aargs] by auto
  moreover have "vote_reply rf term votes reply \<noteq> None"
    using vote_reply_total [OF assms(1)] by (metis option.distinct(1))
  moreover have "append_reply rf peer aargs' areply \<noteq> None"
    using append_reply_total [OF assms] by (metis option.distinct(1))
  ultimately show ?thesis
    using assms(3)
    by (simp add: RequestVote_eq [OF assms(1)] InstallSnapshot_eq Snapshot_eq [OF assms(1)] Start_eq [OF assms(1)]
        startElection_eq [OF assms(1)] install_reply_eq [OF assms(1)])
qed

text \<open>A fresh peer 0 of three, and the handler's answer to an append far beyond its log.\<close>

definition peer0 :: "nat Raft" where
  "peer0 = Make 0 0 3 0 MakePersister"

definition far_append :: "nat AppendEntriesArgs" where
  "far_append = \<lparr>ae_Term = 1, ae_LeaderId = 1, ae_PrevLogIndex = 70, ae_PrevLogTerm = 1,
     ae_Entries = [\<lparr>le_Term = 1, le_Command = Some 5\<rparr>], ae_LeaderCommit = 70\<rparr>"

lemma peer0_reach: "reach (Make 0 0 3 0 MakePersister) raft_step peer0"
  by (simp add: peer0_def reach_init)

text \<open>
  \<^bold>\<open>C15\<close>: A crash loses nothing that matters: whenever a peer has returned from an operation, the term,
  the vote, the log and the snapshot position that \<open>Make\<close> rebuilds from the disk are those the peer had
  in memory; commit index and last applied index restart at the snapshot, and a non-empty snapshot is
  queued for delivery to the service.
\<close>

theorem raft_crash_recovers:
  assumes "reach (Make time rand n me MakePersister) raft_step rf" "0 \<le> me" "me < int n"
    and rf'_def: "rf' = Make time' rand' n me (Checkpoint (rf_persister rf))"
  shows "rf_currentTerm rf' = rf_currentTerm rf \<and> rf_votedFor rf' = rf_votedFor rf \<and> rf_log rf' = rf_log rf
    \<and> rf_lastIncludedIndex rf' = rf_lastIncludedIndex rf \<and> rf_lastIncludedTerm rf' = rf_lastIncludedTerm rf
    \<and> rf_commitIndex rf' = rf_lastIncludedIndex rf \<and> rf_lastApplied rf' = rf_lastIncludedIndex rf
    \<and> rf_role rf' = Follower
    \<and> rf_pendingSnapshot rf' =
        (if rf_lastIncludedIndex rf > 0 \<and> ReadSnapshot (rf_persister rf) \<noteq> []
         then Some (ReadSnapshot (rf_persister rf)) else None)"
proof -
  have wf: "raft_wf rf" "on_disk rf" "rf_peers rf = n" "rf_me rf = me" using raft_reachable [OF assms(1,2,3)] by auto
  have st: "raftstate rf' = raftstate rf" using restart_state [OF wf(2)] wf(3,4) by (simp add: rf'_def)
  have vol: "rf_commitIndex rf' = rf_lastIncludedIndex rf'" "rf_lastApplied rf' = rf_lastIncludedIndex rf'"
    "rf_pendingSnapshot rf' = (if rf_lastIncludedIndex rf' > 0 \<and> ReadSnapshot (rf_persister rf) \<noteq> []
         then Some (ReadSnapshot (rf_persister rf)) else None)"
    by (auto simp: rf'_def Make_def readPersist_def resetElectionTimer_def Let_def ReadSnapshot_def split: option.splits)
  have "rf_role rf' = Follower" by (simp add: rf'_def Make_simps)
  with st vol show ?thesis by (simp add: raftstate_def)
qed

text \<open>Peer 0 after it has voted for peer 2 in term 1.\<close>

definition vote2 :: RequestVoteArgs where
  "vote2 = \<lparr>rv_Term = 1, rv_CandidateId = 2, rv_LastLogIndex = 0, rv_LastLogTerm = 0\<rparr>"

definition peer0_voted :: "nat Raft" where
  "peer0_voted = fst (the (RequestVote 5 peer0 vote2))"

lemmas run_defs = Make_def readPersist_def ReadRaftState_def ReadSnapshot_def resetElectionTimer_def Let_def
  MakePersister_def decode_state_def persist_defs raftstate_def Save_def Checkpoint_def becomeFollower_def
  log_defs go_nth_def

lemma peer0_voted_eq:
  "peer0_voted = peer0\<lparr>rf_currentTerm := 1, rf_votedFor := 2, rf_lastHeardAt := 5, rf_persister :=
     \<lparr>ps_raftstate = [GInt 1, GInt 2, GLog [\<lparr>le_Term = 0, le_Command = None\<rparr>], GInt 0, GInt 0], ps_snapshot = []\<rparr>\<rparr>"
  by (simp add: peer0_voted_def peer0_def vote2_def RequestVote_def run_defs)

lemma peer0_voted_state:
  "RequestVote 5 peer0 vote2 = Some (peer0_voted, \<lparr>rvr_Term = 1, rvr_VoteGranted = True\<rparr>)"
  "rf_votedFor peer0_voted = 2" "rf_currentTerm peer0_voted = 1"
  by (simp_all add: peer0_voted_eq) (simp add: peer0_def vote2_def RequestVote_def run_defs)

lemma peer0_voted_reach: "reach (Make 0 0 3 0 MakePersister) raft_step peer0_voted"
  using peer0_reach raft_step.vote [OF peer0_voted_state(1)] by (rule reach_step)

theorem raft_crash_recovers_witness:
  "reach (Make 0 0 3 0 MakePersister) raft_step peer0_voted \<and> rf_votedFor peer0_voted = 2
   \<and> rf_votedFor (Make 9 9 3 0 (Checkpoint (rf_persister peer0_voted))) = 2"
  using raft_crash_recovers [OF peer0_voted_reach _ _ refl, of 9 9] peer0_voted_reach
  by (simp add: peer0_voted_state)

text \<open>The peer after a crash, and a request of another candidate in the same term.\<close>

definition peer0_again :: "nat Raft" where
  "peer0_again = Make 9 9 3 0 (Checkpoint (rf_persister peer0_voted))"

definition vote1 :: RequestVoteArgs where
  "vote1 = \<lparr>rv_Term = 1, rv_CandidateId = 1, rv_LastLogIndex = 7, rv_LastLogTerm = 3\<rparr>"

lemma peer0_again_state:
  "RequestVote 11 peer0_again vote1 = Some (peer0_again, \<lparr>rvr_Term = 1, rvr_VoteGranted = False\<rparr>)"
  "rf_currentTerm peer0_again = 1" "rf_peers peer0_voted = 3" "rf_me peer0_voted = 0"
  by (simp_all add: peer0_again_def peer0_voted_eq peer0_def vote1_def RequestVote_def run_defs)

lemma peer0_again_reach: "reach peer0_voted raft_step peer0_again"
proof -
  have "raft_step peer0_voted peer0_again"
    using raft_step.crash [of peer0_voted 9 9] by (simp add: peer0_again_def peer0_again_state)
  then show ?thesis by (rule reach_step [OF reach_init])
qed

end
