(* ===== verification/RaftLog.thy ===== *)
theory RaftLog
  imports RaftLocal
begin

text \<open>
  What the handlers do to the log: the effect of an accepted \<open>AppendEntries\<close>, its repetition, the
  hints of a refused one, the commit rule of a leader, log compaction, and the order in which the
  apply loop hands entries to the service.
\<close>

subsection \<open>AppendEntries\<close>

lemma ae_commit_simps [simp]:
  "rf_log (ae_commit rf c) = rf_log rf" "rf_lastIncludedIndex (ae_commit rf c) = rf_lastIncludedIndex rf"
  "rf_currentTerm (ae_commit rf c) = rf_currentTerm rf" "rf_role (ae_commit rf c) = rf_role rf"
  "rf_lastIncludedTerm (ae_commit rf c) = rf_lastIncludedTerm rf"
  "lastLogIndex (ae_commit rf c) = lastLogIndex rf" "termAt (ae_commit rf c) = termAt rf"
  "rf_commitIndex (ae_commit rf c) = max (rf_commitIndex rf) (min c (lastLogIndex rf))"
  by (auto simp: ae_commit_def Let_def log_defs fun_eq_iff)

lemma persist_simps [simp]:
  "rf_log (persist rf) = rf_log rf" "rf_lastIncludedIndex (persist rf) = rf_lastIncludedIndex rf"
  "rf_currentTerm (persist rf) = rf_currentTerm rf" "rf_commitIndex (persist rf) = rf_commitIndex rf"
  "rf_votedFor (persist rf) = rf_votedFor rf" "rf_role (persist rf) = rf_role rf"
  "rf_lastIncludedTerm (persist rf) = rf_lastIncludedTerm rf" "rf_lastApplied (persist rf) = rf_lastApplied rf"
  "rf_nextIndex (persist rf) = rf_nextIndex rf" "rf_matchIndex (persist rf) = rf_matchIndex rf"
  "rf_peers (persist rf) = rf_peers rf" "rf_me (persist rf) = rf_me rf"
  "rf_pendingSnapshot (persist rf) = rf_pendingSnapshot rf"
  by (simp_all add: persist_def)

lemma ae_merged_simps [simp]:
  "rf_lastIncludedIndex (ae_merged rf args) = rf_lastIncludedIndex rf"
  "rf_lastIncludedTerm (ae_merged rf args) = rf_lastIncludedTerm rf"
  "rf_currentTerm (ae_merged rf args) = rf_currentTerm rf" "rf_role (ae_merged rf args) = rf_role rf"
  "rf_commitIndex (ae_merged rf args) = rf_commitIndex rf"
  by (simp_all add: ae_merged_def)

text \<open>The ways in which the handler can answer.\<close>

lemma AppendEntries_cases:
  assumes "AppendEntries time rf args = Some (rf', reply)"
  obtains (stale) "ae_Term args < rf_currentTerm rf" "rf' = rf" "\<not> aer_Success reply"
  | (covered) "rf_currentTerm rf \<le> ae_Term args" "ae_covered rf args"
      "rf' = ae_commit (hear_leader time rf (ae_Term args)) (ae_LeaderCommit args)" "aer_Success reply"
  | (merged) "rf_currentTerm rf \<le> ae_Term args" "\<not> ae_covered rf args"
      "ae_matches rf (ae_trim rf args)"
      "rf' = ae_commit (persist (ae_merged (hear_leader time rf (ae_Term args)) (ae_trim rf args))) (ae_LeaderCommit args)"
      "aer_Success reply"
  | (short) "rf_currentTerm rf \<le> ae_Term args" "\<not> ae_covered rf args" "ae_PrevLogIndex (ae_trim rf args) > lastLogIndex rf"
      "rf' = hear_leader time rf (ae_Term args)" "\<not> aer_Success reply"
      "aer_ConflictTerm reply = -1" "aer_ConflictIndex reply = lastLogIndex rf + 1"
  | (conflict) t k where "rf_currentTerm rf \<le> ae_Term args" "\<not> ae_covered rf args"
      "ae_PrevLogIndex (ae_trim rf args) \<le> lastLogIndex rf"
      "termAt rf (ae_PrevLogIndex (ae_trim rf args)) = Some t" "t \<noteq> ae_PrevLogTerm (ae_trim rf args)"
      "conflictIndex (hear_leader time rf (ae_Term args)) t (ae_PrevLogIndex (ae_trim rf args)) = Some k"
      "rf' = hear_leader time rf (ae_Term args)" "\<not> aer_Success reply"
      "aer_ConflictTerm reply = t" "aer_ConflictIndex reply = k"
proof (cases "ae_Term args < rf_currentTerm rf")
  case True
  with assms show thesis by (intro stale) (auto simp: AppendEntries_eq ae_reply_def)
next
  case cur: False
  let ?rf1 = "hear_leader time rf (ae_Term args)"
  show thesis
  proof (cases "ae_covered rf args")
    case True
    with assms cur show thesis by (intro covered) (auto simp: AppendEntries_eq Let_def)
  next
    case False
    with assms cur have eq: "ae_check_merge ?rf1 (ae_trim rf args) (ae_reply rf args) = Some (rf', reply)"
      by (simp add: AppendEntries_eq Let_def)
    have m: "ae_matches ?rf1 (ae_trim rf args) = ae_matches rf (ae_trim rf args)" by (simp add: ae_matches_def)
    have ge: "rf_lastIncludedIndex ?rf1 \<le> ae_PrevLogIndex (ae_trim rf args)" using ae_trim_ge by simp
    have lc: "ae_LeaderCommit (ae_trim rf args) = ae_LeaderCommit args" by (simp add: ae_trim_def)
    note cases = ae_check_merge_cases [OF ge, of "ae_reply rf args", unfolded m eq]
    consider (m) "ae_matches rf (ae_trim rf args)" | (s) "\<not> ae_matches rf (ae_trim rf args)"
        "ae_PrevLogIndex (ae_trim rf args) > lastLogIndex rf"
      | (c) "\<not> ae_matches rf (ae_trim rf args)" "\<not> ae_PrevLogIndex (ae_trim rf args) > lastLogIndex rf" by blast
    then show thesis
    proof cases
      case m
      with cases cur False lc show thesis by (intro merged) auto
    next
      case s
      with cases cur False show thesis by (intro short) (auto simp: ae_reply_def)
    next
      case c
      with cases obtain t k where "termAt rf (ae_PrevLogIndex (ae_trim rf args)) = Some t"
        "conflictIndex ?rf1 t (ae_PrevLogIndex (ae_trim rf args)) = Some k" "rf' = ?rf1"
        "reply = (ae_reply rf args)\<lparr>aer_ConflictTerm := t, aer_ConflictIndex := k\<rparr>"
        by auto
      with c cur False show thesis
        by (intro conflict [of t k]) (auto simp: ae_matches_def ae_reply_def)
    qed
  qed
qed

lemma termAt_nat: "termAt rf (rf_lastIncludedIndex rf + int j) = (if j < length (rf_log rf) then Some (le_Term (rf_log rf ! j)) else None)"
  by (simp add: termAt_def go_nth_def)

lemma in_log_offset:
  assumes "rf_lastIncludedIndex rf \<le> i" "i \<le> lastLogIndex rf"
  obtains p where "i = rf_lastIncludedIndex rf + int p" "Suc p \<le> length (rf_log rf)"
  using assms by (intro that [of "nat (i - rf_lastIncludedIndex rf)"]) (auto simp: lastLogIndex_def)

lemma ae_merged_termAt:
  assumes "ae_matches rf args"
  defines "i \<equiv> ae_PrevLogIndex args"
  shows "\<And>k. k < length (ae_Entries args) \<Longrightarrow> termAt (ae_merged rf args) (i + 1 + int k) = Some (le_Term (ae_Entries args ! k))"
    "\<And>j. j \<le> i \<Longrightarrow> termAt (ae_merged rf args) j = termAt rf j"
    "i + int (length (ae_Entries args)) \<le> lastLogIndex (ae_merged rf args)"
proof -
  have "rf_lastIncludedIndex rf \<le> i" "i \<le> lastLogIndex rf"
    using assms termAt_Some_iff [of rf i] by (auto simp: ae_matches_def)
  then obtain p where p: "i = rf_lastIncludedIndex rf + int p" and pl: "Suc p \<le> length (rf_log rf)"
    by (rule in_log_offset)
  have log: "rf_log (ae_merged rf args) = merge (rf_log rf) (Suc p) (ae_Entries args)"
    using p by (simp add: ae_merged_def i_def [symmetric])
  note len = merge_length [OF pl, of "ae_Entries args"]
  show "termAt (ae_merged rf args) (i + 1 + int k) = Some (le_Term (ae_Entries args ! k))"
    if "k < length (ae_Entries args)" for k
  proof -
    have "i + 1 + int k = rf_lastIncludedIndex (ae_merged rf args) + int (Suc p + k)" using p by simp
    then show ?thesis using that len merge_terms [OF pl that] by (simp only: termAt_nat log) simp
  qed
  show "termAt (ae_merged rf args) j = termAt rf j" if "j \<le> i" for j
  proof (cases "rf_lastIncludedIndex rf \<le> j")
    case True
    define q where "q = nat (j - rf_lastIncludedIndex rf)"
    with True that p have q: "j = rf_lastIncludedIndex rf + int q" "q < Suc p" by auto
    have "merge (rf_log rf) (Suc p) (ae_Entries args) ! q = take (Suc p) (merge (rf_log rf) (Suc p) (ae_Entries args)) ! q"
      using q by simp
    also have "\<dots> = rf_log rf ! q" using q pl by (simp add: merge_take)
    finally show ?thesis
      using q pl len termAt_nat [of "ae_merged rf args" q] termAt_nat [of rf q] log by simp
  next
    case False
    then show ?thesis by (simp add: termAt_def go_nth_def)
  qed
  show "i + int (length (ae_Entries args)) \<le> lastLogIndex (ae_merged rf args)"
    using p len log by (simp add: lastLogIndex_def)
qed

text \<open>
  The merge keeps the entries that agree by term and, from the first one that does not, has the entries of the
  message instead.
\<close>

lemma merge_spec:
  "i \<le> length l \<Longrightarrow> \<exists>m \<le> length es. (\<forall>k < m. i + k < length l \<and> le_Term (l ! (i + k)) = le_Term (es ! k))
     \<and> (if m = length es then merge l i es = l
        else \<not> (i + m < length l \<and> le_Term (l ! (i + m)) = le_Term (es ! m))
          \<and> merge l i es = take (i + m) l @ drop m es)"
proof (induction l i es rule: merge.induct)
  case (2 l i e es)
  show ?case
  proof (cases "i < length l \<and> le_Term (l ! i) = le_Term e")
    case True
    with 2 obtain m where m: "m \<le> length es" "\<forall>k < m. Suc i + k < length l \<and> le_Term (l ! (Suc i + k)) = le_Term (es ! k)"
      "if m = length es then merge l (Suc i) es = l
        else \<not> (Suc i + m < length l \<and> le_Term (l ! (Suc i + m)) = le_Term (es ! m))
          \<and> merge l (Suc i) es = take (Suc i + m) l @ drop m es" by auto
    with True show ?thesis by (intro exI [of _ "Suc m"]) (auto simp: less_Suc_eq_0_disj split: if_splits)
  next
    case False
    then show ?thesis by (intro exI [of _ 0]) auto
  qed
qed simp

text \<open>What the log becomes: everything of the message after the snapshot that agrees stays, and the first entry
  that is missing or differs starts the new end of the log.\<close>

definition log_merged :: "'c Raft \<Rightarrow> int \<Rightarrow> 'c LogEntry list \<Rightarrow> nat \<Rightarrow> 'c LogEntry list \<Rightarrow> bool" where
  "log_merged rf i es m log' \<longleftrightarrow> m \<le> length es
     \<and> (\<forall>k < m. i + int k > rf_lastIncludedIndex rf \<longrightarrow> termAt rf (i + int k) = Some (le_Term (es ! k)))
     \<and> (if m = length es then log' = rf_log rf
        else i + int m > rf_lastIncludedIndex rf \<and> termAt rf (i + int m) \<noteq> Some (le_Term (es ! m))
          \<and> log' = take (nat (i + int m - rf_lastIncludedIndex rf)) (rf_log rf) @ drop m es)"

lemma log_merged_drop:
  assumes "log_merged rf (i + int d) (drop d es) m log'" "i + int d = rf_lastIncludedIndex rf + 1 \<or> d = 0" "d \<le> length es"
  shows "log_merged rf i es (d + m) log'"
proof -
  have "\<forall>k < d + m. i + int k > rf_lastIncludedIndex rf \<longrightarrow> termAt rf (i + int k) = Some (le_Term (es ! k))"
  proof (intro allI impI)
    fix k assume k: "k < d + m" "i + int k > rf_lastIncludedIndex rf"
    with assms(2) have "d \<le> k" by auto
    with k assms(1,3) show "termAt rf (i + int k) = Some (le_Term (es ! k))"
      by (auto simp: log_merged_def of_nat_diff dest: spec [of _ "k - d"])
  qed
  with assms(1,3) show ?thesis unfolding log_merged_def by (auto simp: add.assoc [symmetric] add.commute [of m d] split: if_splits)
qed

lemma ae_merged_log:
  assumes "ae_matches rf args"
  shows "\<exists>m. log_merged rf (ae_PrevLogIndex args + 1) (ae_Entries args) m (rf_log (ae_merged rf args))"
proof -
  have "rf_lastIncludedIndex rf \<le> ae_PrevLogIndex args" "ae_PrevLogIndex args \<le> lastLogIndex rf"
    using assms termAt_Some_iff [of rf "ae_PrevLogIndex args"] by (auto simp: ae_matches_def)
  then obtain p where p: "ae_PrevLogIndex args = rf_lastIncludedIndex rf + int p" and pl: "Suc p \<le> length (rf_log rf)"
    by (rule in_log_offset)
  have at: "termAt rf (ae_PrevLogIndex args + 1 + int k) =
      (if Suc p + k < length (rf_log rf) then Some (le_Term (rf_log rf ! (Suc p + k))) else None)" for k
  proof -
    have "ae_PrevLogIndex args + 1 + int k = rf_lastIncludedIndex rf + int (Suc p + k)" using p by simp
    then show ?thesis by (simp only: termAt_nat)
  qed
  have "nat (ae_PrevLogIndex args + 1 + int m - rf_lastIncludedIndex rf) = Suc p + m" for m using p by simp
  moreover have "rf_log (ae_merged rf args) = merge (rf_log rf) (Suc p) (ae_Entries args)"
    using p by (simp add: ae_merged_def)
  ultimately show ?thesis
    using merge_spec [OF pl, of "ae_Entries args"] p unfolding log_merged_def at by (auto split: if_splits)
qed

text \<open>
  \<^bold>\<open>C17\<close>: An accepted \<open>AppendEntries\<close> leaves the follower's log in agreement with the message: the term is
  current, the log holds the previous entry with its term and every entry of the message that lies after
  the follower's snapshot, by term; what precedes the message is as it was; the log reaches to the end of
  the message; and the commit index becomes the leader's, cut to the end of the log, and never falls.
  The new log is determined: if all entries of the message after the snapshot are in the log it is the old one;
  otherwise it is the old log up to the first entry that is missing or has another term, followed by the rest of
  the message, entry by entry with its commands, and by nothing else. A log that was on disk before is on disk after.
\<close>

theorem append_entries_accepted:
  assumes "AppendEntries time rf args = Some (rf', reply)" "aer_Success reply" "raft_wf rf"
  shows "rf_currentTerm rf' = ae_Term args \<and> rf_role rf' = Follower
    \<and> rf_lastIncludedIndex rf' = rf_lastIncludedIndex rf
    \<and> (ae_PrevLogIndex args \<ge> rf_lastIncludedIndex rf \<longrightarrow> termAt rf' (ae_PrevLogIndex args) = Some (ae_PrevLogTerm args))
    \<and> (\<forall>k < length (ae_Entries args). ae_PrevLogIndex args + 1 + int k > rf_lastIncludedIndex rf \<longrightarrow>
          termAt rf' (ae_PrevLogIndex args + 1 + int k) = Some (le_Term (ae_Entries args ! k)))
    \<and> (\<forall>i \<le> ae_PrevLogIndex args. termAt rf' i = termAt rf i)
    \<and> ae_PrevLogIndex args + int (length (ae_Entries args)) \<le> lastLogIndex rf'
    \<and> rf_commitIndex rf' = max (rf_commitIndex rf) (min (ae_LeaderCommit args) (lastLogIndex rf'))
    \<and> (\<exists>m. log_merged rf (ae_PrevLogIndex args + 1) (ae_Entries args) m (rf_log rf')) \<and> (on_disk rf \<longrightarrow> on_disk rf')"
proof -
  have disk: "on_disk rf \<longrightarrow> on_disk rf'"
    using AppendEntries_moves [OF assms(3), of time args] assms(1) by (auto simp: raft_moves_def)
  show ?thesis
    using assms(1)
  proof (cases rule: AppendEntries_cases)
    case covered
    then have "log_merged rf (ae_PrevLogIndex args + 1) (ae_Entries args) (length (ae_Entries args)) (rf_log rf')"
      by (auto simp: log_merged_def ae_covered_def)
    with covered show ?thesis using lastLogIndex_ge [OF assms(3)] disk by (auto simp: ae_covered_def)
  next
    case merged
    let ?rf1 = "hear_leader time rf (ae_Term args)"
    let ?a = "ae_trim rf args"
    have m: "ae_matches ?rf1 ?a" using merged(3) by (simp add: ae_matches_def)
    note t = ae_merged_termAt [OF m]
    have prev: "termAt (ae_merged ?rf1 ?a) (ae_PrevLogIndex ?a) = Some (ae_PrevLogTerm ?a)"
      using t(2) [OF order_refl] m by (simp add: ae_matches_def)
    define d where "d = nat (rf_lastIncludedIndex rf - ae_PrevLogIndex args)"
    have a: "ae_PrevLogIndex ?a = ae_PrevLogIndex args + int d" "ae_Entries ?a = drop d (ae_Entries args)"
      by (auto simp: ae_trim_def d_def)
    have dl: "d \<le> length (ae_Entries args)" using merged(2) by (simp add: ae_covered_def d_def)
    have ents: "termAt (ae_merged ?rf1 ?a) (ae_PrevLogIndex args + 1 + int k) = Some (le_Term (ae_Entries args ! k))"
      if "k < length (ae_Entries args)" "ae_PrevLogIndex args + 1 + int k > rf_lastIncludedIndex rf" for k
    proof -
      have "d \<le> k" using that by (simp add: d_def)
      then show ?thesis using that t(1) [of "k - d"] a by (simp add: of_nat_diff add.assoc)
    qed
    have len: "ae_PrevLogIndex args + int (length (ae_Entries args)) \<le> lastLogIndex (ae_merged ?rf1 ?a)"
      using t(3) a dl by (simp add: of_nat_diff)
    have below: "\<forall>i \<le> ae_PrevLogIndex args. termAt (ae_merged ?rf1 ?a) i = termAt rf i"
      using t(2) a(1) by simp
    obtain k where "log_merged ?rf1 (ae_PrevLogIndex args + 1 + int d) (drop d (ae_Entries args)) k (rf_log rf')"
      using ae_merged_log [OF m] merged(4) a by (auto simp: algebra_simps)
    then have "log_merged rf (ae_PrevLogIndex args + 1 + int d) (drop d (ae_Entries args)) k (rf_log rf')"
      unfolding log_merged_def hear_leader_simps .
    then have "log_merged rf (ae_PrevLogIndex args + 1) (ae_Entries args) (d + k) (rf_log rf')"
      by (rule log_merged_drop) (use dl in \<open>auto simp: d_def\<close>)
    with merged ents len below prev disk show ?thesis by (auto simp: ae_trim_def)
  qed (use assms in auto)
qed

definition append12 :: "nat AppendEntriesArgs" where
  "append12 = \<lparr>ae_Term = 1, ae_LeaderId = 1, ae_PrevLogIndex = 0, ae_PrevLogTerm = 0,
     ae_Entries = [\<lparr>le_Term = 1, le_Command = Some 5\<rparr>, \<lparr>le_Term = 1, le_Command = Some 6\<rparr>], ae_LeaderCommit = 1\<rparr>"

definition peer0_appended :: "nat Raft" where
  "peer0_appended = fst (the (AppendEntries 3 peer0 append12))"

lemma peer0_appended_eq:
  "peer0_appended = peer0\<lparr>rf_currentTerm := 1, rf_votedFor := -1, rf_lastHeardAt := 3, rf_commitIndex := 1,
     rf_log := \<lparr>le_Term = 0, le_Command = None\<rparr> # ae_Entries append12,
     rf_persister := \<lparr>ps_raftstate = [GInt 1, GInt (-1), GLog (\<lparr>le_Term = 0, le_Command = None\<rparr> # ae_Entries append12),
        GInt 0, GInt 0], ps_snapshot = []\<rparr>\<rparr>"
  by (simp add: peer0_appended_def peer0_def append12_def AppendEntries_def ae_check_merge_def ae_commit_def run_defs)

lemma peer0_appended_state:
  "AppendEntries 3 peer0 append12 =
     Some (peer0_appended, \<lparr>aer_Term = 1, aer_Success = True, aer_ConflictTerm = -1, aer_ConflictIndex = -1, aer_XLen = 1\<rparr>)"
  unfolding peer0_appended_eq
  by (simp add: peer0_def append12_def AppendEntries_def ae_check_merge_def ae_commit_def run_defs)

lemma peer0_wf: "raft_wf peer0" "on_disk peer0"
  unfolding peer0_def by (rule raft_wf_Make; simp)+

theorem append_entries_accepted_witness:
  "\<exists>reply. AppendEntries 3 peer0 append12 = Some (peer0_appended, reply) \<and> aer_Success reply
     \<and> termAt peer0_appended 2 = Some 1 \<and> rf_commitIndex peer0_appended = 1"
proof -
  have "rf_lastIncludedIndex peer0 = 0" "rf_commitIndex peer0 = 0" by (simp_all add: peer0_def run_defs)
  then have "termAt peer0_appended 2 = Some 1" "rf_commitIndex peer0_appended = 1"
    using append_entries_accepted [OF peer0_appended_state _ peer0_wf(1)]
    by (auto simp: append12_def dest: spec [of _ "Suc 0"])
  then show ?thesis using peer0_appended_state by simp
qed

lemma merge_agrees:
  "i \<le> length l \<Longrightarrow> (\<forall>k < length es. i + k < length l \<longrightarrow> le_Term (l ! (i + k)) = le_Term (es ! k)) \<Longrightarrow>
     \<exists>new. merge l i es = l @ new"
proof (induction l i es rule: merge.induct)
  case (2 l i e es)
  show ?case
  proof (cases "i < length l")
    case True
    moreover have "le_Term (l ! i) = le_Term e" using "2.prems"(2) True by (auto dest: spec [of _ 0])
    moreover have "\<forall>k < length es. Suc i + k < length l \<longrightarrow> le_Term (l ! (Suc i + k)) = le_Term (es ! k)"
      using "2.prems"(2) by (auto dest: spec [of _ "Suc _"])
    ultimately show ?thesis using "2.IH" by simp
  next
    case False
    then show ?thesis using "2.prems" by simp
  qed
qed simp

lemma ae_trim_entries:
  "ae_PrevLogIndex (ae_trim rf args) = ae_PrevLogIndex args + int (nat (rf_lastIncludedIndex rf - ae_PrevLogIndex args))"
  "ae_Entries (ae_trim rf args) = drop (nat (rf_lastIncludedIndex rf - ae_PrevLogIndex args)) (ae_Entries args)"
  by (auto simp: ae_trim_def)

text \<open>
  \<^bold>\<open>C18\<close>: A delayed or reordered \<open>AppendEntries\<close> truncates nothing: when the log of the follower agrees, by
  term, with every entry of the message that it also has, the old log is a prefix of the new one. So
  entries that a later RPC has added stay.
\<close>

theorem append_entries_no_truncation:
  assumes "AppendEntries time rf args = Some (rf', reply)" "raft_wf rf"
    and agree: "\<forall>k < length (ae_Entries args). \<forall>t. termAt rf (ae_PrevLogIndex args + 1 + int k) = Some t \<longrightarrow>
      t = le_Term (ae_Entries args ! k)"
  shows "\<exists>new. rf_log rf' = rf_log rf @ new"
  using assms(1)
proof (cases rule: AppendEntries_cases)
  case merged
  define d where "d = nat (rf_lastIncludedIndex rf - ae_PrevLogIndex args)"
  have "rf_lastIncludedIndex rf \<le> ae_PrevLogIndex (ae_trim rf args)" "ae_PrevLogIndex (ae_trim rf args) \<le> lastLogIndex rf"
    using merged(3) termAt_Some_iff [of rf "ae_PrevLogIndex (ae_trim rf args)"] by (auto simp: ae_matches_def)
  then obtain p where p: "ae_PrevLogIndex (ae_trim rf args) = rf_lastIncludedIndex rf + int p" "Suc p \<le> length (rf_log rf)"
    by (rule in_log_offset)
  have "le_Term (rf_log rf ! (Suc p + k)) = le_Term (ae_Entries args ! (d + k))"
    if "k < length (ae_Entries args) - d" "Suc p + k < length (rf_log rf)" for k
  proof -
    have "ae_PrevLogIndex args + 1 + int (d + k) = rf_lastIncludedIndex rf + int (Suc p + k)"
      using p(1) ae_trim_entries(1) [of rf args] by (simp add: d_def)
    then have "termAt rf (ae_PrevLogIndex args + 1 + int (d + k)) = Some (le_Term (rf_log rf ! (Suc p + k)))"
      using that(2) by (simp only: termAt_nat) simp
    moreover have "d + k < length (ae_Entries args)" using that(1) by simp
    ultimately show ?thesis using agree by blast
  qed
  then have "\<exists>new. merge (rf_log rf) (Suc p) (drop d (ae_Entries args)) = rf_log rf @ new"
    using p(2) by (intro merge_agrees) simp_all
  then show ?thesis
    using merged p(1) by (simp add: ae_merged_def ae_trim_entries(2) d_def)
qed auto

definition append1 :: "nat AppendEntriesArgs" where
  "append1 = append12\<lparr>ae_Entries := [\<lparr>le_Term = 1, le_Command = Some 5\<rparr>]\<rparr>"

text \<open>An earlier, shorter message arrives after the longer one.\<close>

lemma append_late_state:
  "\<exists>rf' r. AppendEntries 4 peer0_appended append1 = Some (rf', r) \<and> rf_log rf' = rf_log peer0_appended"
  by (simp add: peer0_appended_eq append12_def append1_def peer0_def AppendEntries_def ae_check_merge_def ae_commit_def run_defs)

lemma peer0_appended_wf: "raft_wf peer0_appended"
  by (simp add: peer0_appended_eq append12_def peer0_def raft_wf_def run_defs)

theorem append_entries_no_truncation_witness:
  "\<exists>rf' r. AppendEntries 4 peer0_appended append1 = Some (rf', r) \<and> (\<exists>new. rf_log rf' = rf_log peer0_appended @ new)"
proof -
  obtain rf' r where 1: "AppendEntries 4 peer0_appended append1 = Some (rf', r)" using append_late_state by blast
  have "\<exists>new. rf_log rf' = rf_log peer0_appended @ new"
    by (rule append_entries_no_truncation [OF 1 peer0_appended_wf])
       (simp add: peer0_appended_eq append1_def append12_def peer0_def run_defs)
  with 1 show ?thesis by blast
qed

text \<open>
  \<open>AppendEntries\<close> is idempotent: delivering an accepted message again is accepted again and
  changes neither the log nor the commit index nor the term.
\<close>

theorem append_entries_idempotent:
  assumes "AppendEntries time rf args = Some (rf', reply)" "aer_Success reply" "raft_wf rf" "on_disk rf"
  shows "\<exists>rf'' reply'. AppendEntries time' rf' args = Some (rf'', reply') \<and> aer_Success reply'
    \<and> rf_log rf'' = rf_log rf' \<and> rf_commitIndex rf'' = rf_commitIndex rf' \<and> rf_currentTerm rf'' = rf_currentTerm rf'"
proof -
  have "raft_moves rf rf'" using AppendEntries_moves [OF assms(3,4), of time args] assms(1) by auto
  then obtain rf'' r where again: "AppendEntries time' rf' args = Some (rf'', r)"
    using AppendEntries_moves [of rf' time' args] by (auto simp: raft_moves_def)
  have "aer_Success r \<and> rf_log rf'' = rf_log rf' \<and> rf_commitIndex rf'' = rf_commitIndex rf' \<and> rf_currentTerm rf'' = rf_currentTerm rf'"
    using assms(1)
  proof (cases rule: AppendEntries_cases)
    case covered
    then have "ae_covered rf' args" "rf_currentTerm rf' = ae_Term args" by (simp_all add: ae_covered_def)
    with again covered show ?thesis by (auto simp: AppendEntries_eq Let_def)
  next
    case merged
    let ?rf1 = "hear_leader time rf (ae_Term args)"
    let ?a = "ae_trim rf args"
    have m: "ae_matches ?rf1 ?a" using merged(3) by (simp add: ae_matches_def)
    have trim: "ae_trim rf' args = ?a" using merged(4) by (simp add: ae_trim_def)
    have m': "ae_matches rf' ?a"
      using merged(4) m ae_merged_termAt(2) [OF m order_refl] by (simp add: ae_matches_def)
    have nc: "\<not> ae_covered rf' args" "\<not> ae_Term args < rf_currentTerm rf'"
      using merged by (simp_all add: ae_covered_def)
    have "Suc (nat (ae_PrevLogIndex ?a - rf_lastIncludedIndex rf)) \<le> length (rf_log rf)"
      using merged(3) termAt_Some_iff [of rf "ae_PrevLogIndex ?a"]
      by (auto simp: ae_matches_def lastLogIndex_def Suc_le_eq nat_less_iff)
    then have idem: "rf_log (ae_merged rf' ?a) = rf_log rf'"
      using merged(4) by (simp add: ae_merged_def merge_idem)
    show ?thesis
      using again
    proof (cases rule: AppendEntries_cases)
      case merged2: merged
      have "rf_log rf'' = rf_log rf'" using merged2(4) idem by (simp add: trim ae_merged_def)
      moreover from this have "lastLogIndex rf'' = lastLogIndex rf'"
        using merged2(4) by (simp add: lastLogIndex_def)
      ultimately show ?thesis
        using merged2(4,5) merged(4) by (auto simp: lastLogIndex_def)
    qed (use nc m' trim in \<open>auto simp: ae_matches_def termAt_def go_nth_def lastLogIndex_def split: if_splits\<close>)
  qed (use assms in auto)
  with again show ?thesis by blast
qed

theorem append_entries_idempotent_witness:
  "\<exists>rf'' reply'. AppendEntries 4 peer0_appended append12 = Some (rf'', reply') \<and> aer_Success reply'
     \<and> rf_log rf'' = rf_log peer0_appended"
  using append_entries_idempotent [OF peer0_appended_state _ peer0_wf, of 4] by auto

lemma conflictIndex_hear [simp]: "conflictIndex (hear_leader time rf u) t i = conflictIndex rf t i"
proof (induction rf t i rule: conflictIndex.induct)
  case (1 rf t i)
  show ?case
    using 1 by (cases "termAt rf (i - 1)")
      (simp_all add: conflictIndex.simps [of rf t i] conflictIndex.simps [of "hear_leader time rf u" t i])
qed

text \<open>
  The hints of a refused \<open>AppendEntries\<close> are exact. A message of a current term is refused for one
  of two reasons: the follower's log ends before the previous entry, and the hint is the index after its
  last entry; or it holds another term there, and the hints are that term and the first index of the run
  of entries of that term that ends at the previous index (or the snapshot). The log is not changed, and
  the hinted index is always at most the previous index.
\<close>

theorem append_entries_refused:
  assumes "AppendEntries time rf args = Some (rf', reply)" "\<not> aer_Success reply"
    "rf_currentTerm rf \<le> ae_Term args" "raft_wf rf"
  shows "rf_log rf' = rf_log rf \<and> rf_commitIndex rf' = rf_commitIndex rf \<and> aer_ConflictIndex reply \<le> ae_PrevLogIndex args
    \<and> (if ae_PrevLogIndex args > lastLogIndex rf
       then aer_ConflictTerm reply = -1 \<and> aer_ConflictIndex reply = lastLogIndex rf + 1
       else aer_ConflictTerm reply \<noteq> ae_PrevLogTerm args
         \<and> rf_lastIncludedIndex rf \<le> aer_ConflictIndex reply
         \<and> (\<forall>i. aer_ConflictIndex reply \<le> i \<and> i \<le> ae_PrevLogIndex args \<longrightarrow> termAt rf i = Some (aer_ConflictTerm reply))
         \<and> (aer_ConflictIndex reply = rf_lastIncludedIndex rf
            \<or> termAt rf (aer_ConflictIndex reply - 1) \<noteq> Some (aer_ConflictTerm reply)))"
proof -
  have nz: "\<not> ae_PrevLogIndex args < rf_lastIncludedIndex rf" if "\<not> ae_covered rf args"
    "\<not> ae_matches rf (ae_trim rf args)"
    using that termAt_sentinel [OF assms(4)] by (auto simp: ae_matches_def ae_trim_def)
  show ?thesis
    using assms(1)
  proof (cases rule: AppendEntries_cases)
    case short
    then have "\<not> ae_matches rf (ae_trim rf args)"
      using termAt_Some_iff [of rf "ae_PrevLogIndex (ae_trim rf args)"] by (auto simp: ae_matches_def)
    with nz short have "\<not> ae_PrevLogIndex args < rf_lastIncludedIndex rf" by blast
    with short show ?thesis by (simp add: ae_trim_def)
  next
    case (conflict t k)
    then have "\<not> ae_matches rf (ae_trim rf args)" by (simp add: ae_matches_def)
    with nz conflict have trim: "ae_trim rf args = args" by (auto simp: ae_trim_def)
    with conflict conflictIndex_spec [of rf "ae_PrevLogIndex args" t] show ?thesis by auto
  qed (use assms in auto)
qed

lemma far_append_state: "\<exists>rf' reply. AppendEntries 0 peer0 far_append = Some (rf', reply) \<and> \<not> aer_Success reply"
  by (simp add: peer0_def far_append_def AppendEntries_def ae_check_merge_def run_defs)

theorem append_entries_refused_witness:
  "\<exists>rf' reply. AppendEntries 0 peer0 far_append = Some (rf', reply) \<and> \<not> aer_Success reply \<and> aer_ConflictIndex reply = 1"
proof -
  obtain rf' reply where 1: "AppendEntries 0 peer0 far_append = Some (rf', reply)" "\<not> aer_Success reply"
    using far_append_state by blast
  have 2: "rf_currentTerm peer0 \<le> ae_Term far_append" "lastLogIndex peer0 = 0" "ae_PrevLogIndex far_append = 70"
    by (simp_all add: peer0_def far_append_def run_defs)
  show ?thesis using append_entries_refused [OF 1 2(1) peer0_wf(1)] 1 2 by auto
qed

subsection \<open>The commit rule\<close>

text \<open>
  \<^bold>\<open>C19\<close>: \<open>advanceCommit\<close> implements the commit rule: it moves the commit index to the highest index that
  holds an entry of the leader's current term and is matched by a majority of the peers, the leader
  included, if there is one above the commit index, and otherwise changes nothing.
\<close>

theorem advance_commit_rule:
  assumes "raft_wf rf"
  shows "\<exists>c. advanceCommit rf = Some (rf\<lparr>rf_commitIndex := c\<rparr>)
    \<and> (if \<exists>k > rf_commitIndex rf. committable rf k
        then c > rf_commitIndex rf \<and> committable rf c \<and> (\<forall>k > c. \<not> committable rf k)
        else c = rf_commitIndex rf)"
proof (rule advanceCommit_spec [OF assms])
  fix c
  assume "advanceCommit rf = Some (rf\<lparr>rf_commitIndex := c\<rparr>)"
    "if \<exists>k. rf_commitIndex rf < k \<and> committable rf k
     then rf_commitIndex rf < c \<and> committable rf c \<and> (\<forall>k > c. \<not> committable rf k) else c = rf_commitIndex rf"
  then show ?thesis by (intro exI [of _ c]) simp
qed

text \<open>A leader of three peers with two entries of its term; peer 2 has matched the first.\<close>

definition leader0 :: "nat Raft" where
  "leader0 = peer0_appended\<lparr>rf_role := Leader, rf_votedFor := 0, rf_commitIndex := 0, rf_nextIndex := [3, 1, 2],
     rf_matchIndex := [2, 0, 1]\<rparr>"

lemma leader0_wf: "raft_wf leader0"
  by (simp add: leader0_def peer0_appended_eq append12_def peer0_def raft_wf_def run_defs)

lemma leader0_commit: "\<exists>rf'. advanceCommit leader0 = Some rf' \<and> rf_commitIndex rf' = 1"
  by (simp add: leader0_def peer0_appended_eq append12_def peer0_def advanceCommit_def advance_loop.simps
      other_peers_def upt_rec run_defs)

theorem advance_commit_rule_witness:
  "raft_wf leader0 \<and> (\<exists>rf'. advanceCommit leader0 = Some rf' \<and> rf_commitIndex rf' = 1 \<and> committable leader0 1
     \<and> \<not> committable leader0 2)"
proof -
  obtain c where c: "advanceCommit leader0 = Some (leader0\<lparr>rf_commitIndex := c\<rparr>)"
    "if \<exists>k > rf_commitIndex leader0. committable leader0 k
     then c > rf_commitIndex leader0 \<and> committable leader0 c \<and> (\<forall>k > c. \<not> committable leader0 k)
     else c = rf_commitIndex leader0"
    using advance_commit_rule [OF leader0_wf] by blast
  from c(1) leader0_commit have "c = 1" by auto
  moreover have "rf_commitIndex leader0 = 0" by (simp add: leader0_def)
  ultimately have "committable leader0 1" "\<not> committable leader0 2" using c(2) by (auto split: if_splits)
  with \<open>c = 1\<close> c(1) leader0_wf show ?thesis by auto
qed

subsection \<open>Log compaction\<close>

text \<open>The entry at an absolute index; the sentinel holds no entry.\<close>

definition entryAt :: "'c Raft \<Rightarrow> int \<Rightarrow> 'c LogEntry option" where
  "entryAt rf i = (if i > rf_lastIncludedIndex rf then go_nth (rf_log rf) (i - rf_lastIncludedIndex rf) else None)"

lemma entryAt_nat:
  "entryAt rf (rf_lastIncludedIndex rf + int j) = (if 0 < j \<and> j < length (rf_log rf) then Some (rf_log rf ! j) else None)"
  by (auto simp: entryAt_def go_nth_def)

text \<open>A log cut at offset \<open>p\<close>, with a sentinel that keeps the term.\<close>

lemma cut_log:
  assumes "p < length l" "l' = \<lparr>le_Term = le_Term (l ! p), le_Command = None\<rparr> # drop (Suc p) l"
  shows "\<And>j. j < length l' \<longleftrightarrow> p + j < length l"
    "\<And>j. 0 < j \<Longrightarrow> p + j < length l \<Longrightarrow> l' ! j = l ! (p + j)"
    "\<And>j. p + j < length l \<Longrightarrow> le_Term (l' ! j) = le_Term (l ! (p + j))"
    "le_Term (last l') = le_Term (last l)"
proof -
  show nth: "l' ! j = l ! (p + j)" if "0 < j" "p + j < length l" for j using that assms by (cases j) simp_all
  show "j < length l' \<longleftrightarrow> p + j < length l" for j using assms by auto
  show trm: "le_Term (l' ! j) = le_Term (l ! (p + j))" if "p + j < length l" for j
    using nth [of j] that assms by (cases j) auto
  have "l \<noteq> []" "l' \<noteq> []" using assms by auto
  then have "last l' = l' ! (length l - Suc p)" "last l = l ! (p + (length l - Suc p))"
    using assms by (simp_all add: last_conv_nth)
  then show "le_Term (last l') = le_Term (last l)" using trm [of "length l - Suc p"] assms(1) by simp
qed

text \<open>
  \<^bold>\<open>C20\<close>: \<open>Snapshot(index, data)\<close> compacts the log and changes nothing else about it: within the log, it makes
  \<open>index\<close> the last included index, keeps every entry after it, the terms from \<open>index\<close> on and the index and
  term of the last entry, so that votes and consistency checks come out as before, and the snapshot with
  the compacted log is on disk. An index outside the log is ignored.
\<close>

theorem snapshot_keeps_log:
  assumes "raft_wf rf" "on_disk rf"
  shows "\<exists>rf'. Snapshot rf index data = Some rf' \<and> on_disk rf'
    \<and> lastLogIndex rf' = lastLogIndex rf \<and> lastLogTerm rf' = lastLogTerm rf
    \<and> rf_currentTerm rf' = rf_currentTerm rf \<and> rf_votedFor rf' = rf_votedFor rf
    \<and> (if rf_lastIncludedIndex rf < index \<and> index \<le> lastLogIndex rf
       then rf_lastIncludedIndex rf' = index \<and> ReadSnapshot (rf_persister rf') = data
         \<and> (\<forall>i \<ge> index. termAt rf' i = termAt rf i) \<and> (\<forall>i > index. entryAt rf' i = entryAt rf i)
       else rf' = rf)"
proof (cases "rf_lastIncludedIndex rf < index \<and> index \<le> lastLogIndex rf")
  case True
  define p where "p = nat (index - rf_lastIncludedIndex rf)"
  have p: "index = rf_lastIncludedIndex rf + int p" "p < length (rf_log rf)" "0 < p"
    using True by (auto simp: p_def lastLogIndex_def)
  obtain rf' where snap: "Snapshot rf index data = Some rf'" using Snapshot_eq [OF assms(1)] by blast
  then have log: "rf_log rf' = \<lparr>le_Term = le_Term (rf_log rf ! p), le_Command = None\<rparr> # drop (Suc p) (rf_log rf)"
    and lii: "rf_lastIncludedIndex rf' = index" and ps: "ReadSnapshot (rf_persister rf') = data"
    and tv: "rf_currentTerm rf' = rf_currentTerm rf" "rf_votedFor rf' = rf_votedFor rf"
    using True by (auto simp: Snapshot_eq [OF assms(1)] Let_def p_def persistWithSnapshot_def Save_def ReadSnapshot_def)
  have off: "i = rf_lastIncludedIndex rf + int (p + nat (i - index))" "i = rf_lastIncludedIndex rf' + int (nat (i - index))"
    if "i \<ge> index" for i using that p(1) lii by auto
  note cut = cut_log [OF p(2) log]
  have "termAt rf' i = termAt rf i" if "i \<ge> index" for i
    using termAt_nat [of rf' "nat (i - index)"] termAt_nat [of rf "p + nat (i - index)"] cut(3) [of "nat (i - index)"]
    unfolding cut(1) off(1) [OF that, symmetric] off(2) [OF that, symmetric] by simp
  moreover have "entryAt rf' i = entryAt rf i" if "i > index" for i
  proof -
    have i: "0 < nat (i - index)" "i \<ge> index" using that by simp_all
    then show ?thesis
      using entryAt_nat [of rf' "nat (i - index)"] entryAt_nat [of rf "p + nat (i - index)"] cut(2) [OF i(1)]
      unfolding cut(1) off(1) [OF i(2), symmetric] off(2) [OF i(2), symmetric] by simp
  qed
  moreover have "lastLogIndex rf' = lastLogIndex rf" using log lii p by (simp add: lastLogIndex_def of_nat_diff)
  moreover have wf': "raft_wf rf'" "on_disk rf'" using Snapshot_moves [OF assms snap] by (simp_all add: raft_moves_def)
  moreover have "lastLogTerm rf' = lastLogTerm rf"
    using cut(4) by (simp add: lastLogTerm_wf [OF assms(1)] lastLogTerm_wf [OF wf'(1)])
  ultimately show ?thesis using snap lii ps tv True by simp
next
  case False
  then show ?thesis using assms by (auto simp: Snapshot_eq)
qed

lemma peer0_appended_disk: "on_disk peer0_appended"
  by (simp add: on_disk_saved peer0_appended_eq peer0_def run_defs)

theorem snapshot_keeps_log_witness:
  "raft_wf peer0_appended \<and> on_disk peer0_appended
   \<and> (\<exists>rf'. Snapshot peer0_appended 1 [7] = Some rf' \<and> rf_lastIncludedIndex rf' = 1 \<and> lastLogIndex rf' = 2)"
proof -
  have "lastLogIndex peer0_appended = 2" "rf_lastIncludedIndex peer0_appended = 0"
    by (simp_all add: peer0_appended_eq append12_def peer0_def run_defs)
  then show ?thesis
    using snapshot_keeps_log [OF peer0_appended_wf peer0_appended_disk, of 1 "[7]"] peer0_appended_wf peer0_appended_disk
    by auto
qed

subsection \<open>The apply loop\<close>

text \<open>
  Iterations of \<open>applier\<close> with nothing in between: each message is taken by the service before the next
  iteration begins. The run ends when the loop waits.
\<close>

fun deliver :: "nat \<Rightarrow> 'c Raft \<Rightarrow> ('c Raft \<times> 'c ApplyMsg list) option" where
  "deliver 0 rf = Some (rf, [])"
| "deliver (Suc n) rf = do {
     (rf1, m) \<leftarrow> applier rf;
     case m of
       None \<Rightarrow> Some (rf1, [])
     | Some msg \<Rightarrow> do { (rf2, ms) \<leftarrow> deliver n (applier_sent rf1 msg); Some (rf2, msg # ms) }
   }"

text \<open>
  \<^bold>\<open>C21\<close>: The apply loop hands over every committed entry exactly once and in order: with no snapshot queued
  and the commit index within the log, it sends the commands at \<open>lastApplied + 1\<close> to \<open>commitIndex\<close>, each with
  its index, then waits, and \<open>lastApplied\<close> has become \<open>commitIndex\<close>.
\<close>

theorem applier_delivers_in_order:
  assumes "rf_pendingSnapshot rf = None" "rf_lastIncludedIndex rf \<le> rf_lastApplied rf"
    "rf_lastApplied rf \<le> rf_commitIndex rf" "rf_commitIndex rf \<le> lastLogIndex rf"
    "nat (rf_commitIndex rf - rf_lastApplied rf) < n"
  shows "deliver n rf = Some (rf\<lparr>rf_lastApplied := rf_commitIndex rf\<rparr>,
    map (\<lambda>i. command_msg (le_Command (rf_log rf ! nat (i - rf_lastIncludedIndex rf))) i)
      [rf_lastApplied rf + 1 .. rf_commitIndex rf])"
  using assms
proof (induction n arbitrary: rf)
  case 0
  from "0.prems"(5) show ?case by (simp only: not_less0)
next
  case (Suc n)
  show ?case
  proof (cases "rf_lastApplied rf < rf_commitIndex rf")
    case True
    let ?i = "rf_lastApplied rf + 1"
    let ?rf' = "rf\<lparr>rf_lastApplied := ?i\<rparr>"
    let ?m = "command_msg (le_Command (rf_log rf ! nat (?i - rf_lastIncludedIndex rf))) ?i"
    have "applier rf = Some (rf, Some ?m)"
      using True Suc.prems by (simp add: applier_def Let_def go_nth_def lastLogIndex_def)
    moreover have "applier_sent rf ?m = ?rf'" by (simp add: applier_sent_def command_msg_def)
    moreover have "deliver n ?rf' = Some (?rf'\<lparr>rf_lastApplied := rf_commitIndex ?rf'\<rparr>,
        map (\<lambda>i. command_msg (le_Command (rf_log ?rf' ! nat (i - rf_lastIncludedIndex ?rf'))) i)
          [rf_lastApplied ?rf' + 1 .. rf_commitIndex ?rf'])"
      using True Suc.prems by (intro Suc.IH) (simp_all add: lastLogIndex_def)
    moreover have "[?i .. rf_commitIndex rf] = ?i # [?i + 1 .. rf_commitIndex rf]"
      using True by (simp add: upto_rec1)
    ultimately show ?thesis by simp
  next
    case False
    with Suc.prems have eq: "rf_lastApplied rf = rf_commitIndex rf" by simp
    with Suc.prems have "applier rf = Some (rf, None)" by (simp add: applier_def)
    moreover have "rf = rf\<lparr>rf_lastApplied := rf_commitIndex rf\<rparr>" using eq by (cases rf) simp
    ultimately show ?thesis using eq by simp
  qed
qed

theorem applier_delivers_in_order_witness:
  "deliver 5 peer0_appended = Some (peer0_appended\<lparr>rf_lastApplied := 1\<rparr>, [command_msg (Some 5) 1])"
  using applier_delivers_in_order [of peer0_appended 5]
  by (simp add: peer0_appended_eq append12_def peer0_def run_defs)

text \<open>
  \<^bold>\<open>C40\<close>: A delayed \<open>InstallSnapshot\<close> can take the service back. The handler compares the snapshot's index with
  \<open>lastIncludedIndex\<close> only, not with \<open>lastApplied\<close>: a message of a current term whose index lies between
  the two is queued, and the apply loop's next message is that snapshot, although the entries up to
  \<open>lastApplied\<close> have been delivered; \<open>lastApplied\<close> stays where it is, so the entries between the snapshot
  and \<open>lastApplied\<close> are not delivered again.
\<close>

theorem install_snapshot_rolls_back:
  assumes "rf_currentTerm rf \<le> is_Term args" "rf_lastIncludedIndex rf < is_LastIncludedIndex args"
    "is_LastIncludedIndex args < rf_lastApplied rf" "is_Data args = Some data"
  shows "\<exists>rf' reply rf''. InstallSnapshot time rf args = Some (rf', reply)
    \<and> applier rf' = Some (rf'', Some (snapshot_msg (Some data) (is_LastIncludedIndex args) (is_LastIncludedTerm args)))
    \<and> rf_lastApplied (applier_sent rf'' (snapshot_msg (Some data) (is_LastIncludedIndex args) (is_LastIncludedTerm args)))
        = rf_lastApplied rf"
  using assms
  by (simp add: InstallSnapshot_eq Let_def is_installed_def applier_def applier_sent_def snapshot_msg_def persistWithSnapshot_def)

definition stale_install :: InstallSnapshotArgs where
  "stale_install = \<lparr>is_Term = 1, is_LeaderId = 1, is_LastIncludedIndex = 1, is_LastIncludedTerm = 1, is_Data = Some [7]\<rparr>"

definition heartbeat2 :: "nat AppendEntriesArgs" where
  "heartbeat2 = \<lparr>ae_Term = 1, ae_LeaderId = 1, ae_PrevLogIndex = 2, ae_PrevLogTerm = 1, ae_Entries = [], ae_LeaderCommit = 2\<rparr>"

definition peer0_applied :: "nat Raft" where
  "peer0_applied = applier_sent (applier_sent (fst (the (AppendEntries 4 peer0_appended heartbeat2)))
     (command_msg (Some 5) 1)) (command_msg (Some 6) 2)"

lemma peer0_applied_reach: "reach (Make 0 0 3 0 MakePersister) raft_step peer0_applied"
proof -
  have 1: "reach (Make 0 0 3 0 MakePersister) raft_step peer0_appended"
    using peer0_reach raft_step.append [OF peer0_appended_state] by (rule reach_step)
  obtain rf' r where a: "AppendEntries 4 peer0_appended heartbeat2 = Some (rf', r)"
    using AppendEntries_moves [OF peer0_appended_wf peer0_appended_disk] by blast
  have "reach (Make 0 0 3 0 MakePersister) raft_step rf'" using 1 raft_step.append [OF a] by (rule reach_step)
  then have "reach (Make 0 0 3 0 MakePersister) raft_step (applier_sent rf' (command_msg (Some 5) 1))"
    by (rule reach_step) (rule raft_step.applied)
  then have "reach (Make 0 0 3 0 MakePersister) raft_step
      (applier_sent (applier_sent rf' (command_msg (Some 5) 1)) (command_msg (Some 6) 2))"
    by (rule reach_step) (rule raft_step.applied)
  then show ?thesis by (simp add: peer0_applied_def a)
qed

theorem install_snapshot_rolls_back_witness:
  "reach (Make 0 0 3 0 MakePersister) raft_step peer0_applied \<and> rf_lastApplied peer0_applied = 2
   \<and> (\<exists>rf' reply rf''. InstallSnapshot 9 peer0_applied stale_install = Some (rf', reply)
        \<and> applier rf' = Some (rf'', Some (snapshot_msg (Some [7]) 1 1)))"
proof -
  have st: "rf_lastApplied peer0_applied = 2" "rf_currentTerm peer0_applied = 1" "rf_lastIncludedIndex peer0_applied = 0"
    by (simp_all add: peer0_applied_def peer0_appended_eq append12_def peer0_def heartbeat2_def AppendEntries_def
        ae_check_merge_def ae_commit_def applier_sent_def command_msg_def run_defs)
  show ?thesis
    using install_snapshot_rolls_back [of peer0_applied stale_install "[7]" 9] peer0_applied_reach st
    by (auto simp: stale_install_def)
qed

end
