(* ===== verification/RaftCluster.thy ===== *)
theory RaftCluster
  imports RaftLog
begin

text \<open>
  A cluster of Raft peers and the network between them.

  Every remote call is the work of one goroutine: it sends its arguments, waits, and handles at most
  one reply. A call is recorded once it is made and stays in the record, so that its request can be
  delivered late, more than once or never; each delivery runs the handler of the callee and records
  the reply; the caller, while the goroutine waits, may take any recorded reply of its call or give up
  (\<open>Call\<close> returns false). This covers what \<open>src/labrpc/labrpc.go\<close> does to requests and replies.

  A crash loses the memory of a peer and its goroutines and restarts it with \<open>Make\<close> from a copy of its
  persister, as \<open>src/tester1/group.go\<close> does. The apply loop sends one message at a time; the service has
  received it before the loop goes on, and may call \<open>Snapshot\<close> for an index it has received.
\<close>

datatype 'c Args = RV RequestVoteArgs | AE "'c AppendEntriesArgs" | IS InstallSnapshotArgs

datatype Reply = RVReply RequestVoteReply | AEReply AppendEntriesReply | ISReply InstallSnapshotReply

record 'c Call =
  call_from :: nat
  call_to :: nat
  call_args :: "'c Args"

record 'c Cluster =
  cl_n :: nat
  cl_node :: "nat \<Rightarrow> 'c Raft"
  cl_calls :: "'c Call list"  \<comment> \<open>every call ever made; its position is its identity\<close>
  cl_open :: "nat set"  \<comment> \<open>the calls whose goroutine waits\<close>
  cl_replies :: "(nat \<times> Reply) list"
  cl_votes :: "nat \<Rightarrow> int \<Rightarrow> int"  \<comment> \<open>the counter \<open>votes\<close> of a peer's election in a term\<close>
  cl_sending :: "nat \<Rightarrow> ('c ApplyMsg \<times> bool) option"  \<comment> \<open>the apply loop's message, and whether it has been taken\<close>
  cl_received :: "nat \<Rightarrow> 'c ApplyMsg list"  \<comment> \<open>what the service has received since the peer started\<close>

definition cluster_init :: "nat \<Rightarrow> 'c Cluster" where
  "cluster_init n = \<lparr>cl_n = n, cl_node = (\<lambda>j. Make 0 0 n (int j) MakePersister), cl_calls = [], cl_open = {},
     cl_replies = [], cl_votes = (\<lambda>_ _. 0), cl_sending = (\<lambda>_. None), cl_received = (\<lambda>_. [])\<rparr>"

definition set_node :: "nat \<Rightarrow> 'c Raft \<Rightarrow> 'c Cluster \<Rightarrow> 'c Cluster" where
  "set_node j rf s = s\<lparr>cl_node := (cl_node s)(j := rf)\<rparr>"

text \<open>New calls, one after the other.\<close>

definition add_calls :: "nat \<Rightarrow> (nat \<times> 'c Args) list \<Rightarrow> 'c Cluster \<Rightarrow> 'c Cluster" where
  "add_calls j cs s =
     s\<lparr>cl_calls := cl_calls s @ map (\<lambda>(p, a). \<lparr>call_from = j, call_to = p, call_args = a\<rparr>) cs,
       cl_open := cl_open s \<union> {length (cl_calls s) ..< length (cl_calls s) + length cs}\<rparr>"

text \<open>\<open>labgob\<close> does not transmit an empty slice: the receiver finds nil.\<close>

definition wire_data :: "InstallSnapshotArgs \<Rightarrow> InstallSnapshotArgs" where
  "wire_data args = args\<lparr>is_Data := (if is_Data args = Some [] then None else is_Data args)\<rparr>"

text \<open>The callee's handler.\<close>

definition handle :: "int \<Rightarrow> 'c Raft \<Rightarrow> 'c Args \<Rightarrow> ('c Raft \<times> Reply) option" where
  "handle time rf a =
     (case a of
        RV args \<Rightarrow> map_option (\<lambda>(rf, r). (rf, RVReply r)) (RequestVote time rf args)
      | AE args \<Rightarrow> map_option (\<lambda>(rf, r). (rf, AEReply r)) (AppendEntries time rf args)
      | IS args \<Rightarrow> map_option (\<lambda>(rf, r). (rf, ISReply r)) (InstallSnapshot time rf (wire_data args)))"

text \<open>The caller's handling of a reply: the new state of the peer and of its vote counter.\<close>

definition handle_reply :: "'c Raft \<Rightarrow> nat \<Rightarrow> (int \<Rightarrow> int) \<Rightarrow> 'c Args \<Rightarrow> Reply \<Rightarrow> ('c Raft \<times> (int \<Rightarrow> int)) option" where
  "handle_reply rf peer votes a r =
     (case (a, r) of
        (RV args, RVReply reply) \<Rightarrow>
          map_option (\<lambda>(rf, n). (rf, votes(rv_Term args := n))) (vote_reply rf (rv_Term args) (votes (rv_Term args)) reply)
      | (AE args, AEReply reply) \<Rightarrow> map_option (\<lambda>(rf, again). (rf, votes)) (append_reply rf peer args reply)
      | (IS args, ISReply reply) \<Rightarrow> map_option (\<lambda>rf. (rf, votes)) (install_reply rf peer args reply)
      | _ \<Rightarrow> None)"

fun repl_args :: "'c replCall \<Rightarrow> 'c Args" where
  "repl_args (SendInstallSnapshot args) = IS args"
| "repl_args (SendAppendEntries args) = AE args"

datatype 'c action =
    Tick nat int int
  | Replicate nat nat
  | Deliver nat int
  | Return nat Reply
  | GiveUp nat
  | Client nat "'c option"
  | ApplyBegin nat
  | ApplyTake nat
  | ApplyEnd nat
  | Compact nat int bytes
  | Crash nat int int

fun cluster_act :: "'c Cluster \<Rightarrow> 'c action \<Rightarrow> 'c Cluster option" where
  "cluster_act s (Tick j time rand) =
     (if j < cl_n s then do {
        (rf, margs) \<leftarrow> ticker time rand (cl_node s j);
        Some (case margs of
          None \<Rightarrow> set_node j rf s
        | Some args \<Rightarrow>
            add_calls j (map (\<lambda>p. (p, RV args)) (other_peers rf))
              ((set_node j rf s)\<lparr>cl_votes := (cl_votes s)(j := (cl_votes s j)(rv_Term args := 1))\<rparr>))
      } else None)"
| "cluster_act s (Replicate j p) =
     (if j < cl_n s \<and> p \<in> set (broadcastAppendEntries (cl_node s j)) then do {
        mcall \<leftarrow> replicateTo (cl_node s j) p;
        Some (case mcall of None \<Rightarrow> s | Some c \<Rightarrow> add_calls j [(p, repl_args c)] s)
      } else None)"
| "cluster_act s (Deliver i time) =
     (if i < length (cl_calls s) then do {
        let c = cl_calls s ! i;
        (rf, r) \<leftarrow> handle time (cl_node s (call_to c)) (call_args c);
        Some ((set_node (call_to c) rf s)\<lparr>cl_replies := cl_replies s @ [(i, r)]\<rparr>)
      } else None)"
| "cluster_act s (Return i r) =
     (if i \<in> cl_open s \<and> (i, r) \<in> set (cl_replies s) then do {
        let c = cl_calls s ! i;
        let j = call_from c;
        (rf, votes) \<leftarrow> handle_reply (cl_node s j) (call_to c) (cl_votes s j) (call_args c) r;
        Some ((set_node j rf s)\<lparr>cl_open := cl_open s - {i}, cl_votes := (cl_votes s)(j := votes)\<rparr>)
      } else None)"
| "cluster_act s (GiveUp i) = (if i \<in> cl_open s then Some (s\<lparr>cl_open := cl_open s - {i}\<rparr>) else None)"
| "cluster_act s (Client j command) =
     (if j < cl_n s then do { (rf, r) \<leftarrow> Start (cl_node s j) command; Some (set_node j rf s) } else None)"
| "cluster_act s (ApplyBegin j) =
     (if j < cl_n s \<and> cl_sending s j = None then do {
        (rf, m) \<leftarrow> applier (cl_node s j);
        Some ((set_node j rf s)\<lparr>cl_sending := (cl_sending s)(j := map_option (\<lambda>msg. (msg, False)) m)\<rparr>)
      } else None)"
| "cluster_act s (ApplyTake j) =
     (case cl_sending s j of
        Some (msg, False) \<Rightarrow>
          Some (s\<lparr>cl_sending := (cl_sending s)(j := Some (msg, True)),
                  cl_received := (cl_received s)(j := cl_received s j @ [msg])\<rparr>)
      | _ \<Rightarrow> None)"
| "cluster_act s (ApplyEnd j) =
     (case cl_sending s j of
        Some (msg, True) \<Rightarrow>
          if j < cl_n s
          then Some ((set_node j (applier_sent (cl_node s j) msg) s)\<lparr>cl_sending := (cl_sending s)(j := None)\<rparr>)
          else None
      | _ \<Rightarrow> None)"
| "cluster_act s (Compact j index data) =
     (if j < cl_n s \<and> (\<exists>m \<in> set (cl_received s j). CommandValid m \<and> CommandIndex m = index) then do {
        rf \<leftarrow> Snapshot (cl_node s j) index data;
        Some (set_node j rf s)
      } else None)"
| "cluster_act s (Crash j time rand) =
     (if j < cl_n s then
        Some ((set_node j (Make time rand (cl_n s) (int j) (Checkpoint (rf_persister (cl_node s j)))) s)
          \<lparr>cl_open := {i \<in> cl_open s. call_from (cl_calls s ! i) \<noteq> j},
           cl_sending := (cl_sending s)(j := None), cl_received := (cl_received s)(j := [])\<rparr>)
      else None)"

inductive cluster_step :: "'c Cluster \<Rightarrow> 'c Cluster \<Rightarrow> bool" where
  "cluster_act s a = Some t \<Longrightarrow> cluster_step s t"

abbreviation cluster_reach :: "nat \<Rightarrow> 'c Cluster \<Rightarrow> bool" where
  "cluster_reach n \<equiv> reach (cluster_init n) cluster_step"

lemma cluster_run_reach: "run cluster_act s as = Some t \<Longrightarrow> reach s cluster_step t"
  by (erule run_reach [OF reach_init]) (rule cluster_step.intros)

end
