(* ===== verification/RaftElection.thy ===== *)
theory RaftElection
  imports RaftCluster
begin

text \<open>
  Election safety: in each term at most one peer becomes leader, over the whole history of the cluster,
  with message loss, delay, duplication and reordering, and with crashes and restarts.
\<close>

subsection \<open>Well-formed clusters\<close>

definition node_ok :: "nat \<Rightarrow> nat \<Rightarrow> 'c Raft \<Rightarrow> bool" where
  "node_ok n j rf \<longleftrightarrow> raft_wf rf \<and> on_disk rf \<and> rf_peers rf = n \<and> rf_me rf = int j"

lemma node_ok_moves: "node_ok n j rf \<Longrightarrow> raft_moves rf rf' \<Longrightarrow> node_ok n j rf'"
  by (simp add: node_ok_def raft_moves_def)

definition cluster_wf :: "'c Cluster \<Rightarrow> bool" where
  "cluster_wf s \<longleftrightarrow>
     (\<forall>j < cl_n s. node_ok (cl_n s) j (cl_node s j))
     \<and> (\<forall>c \<in> set (cl_calls s). call_from c < cl_n s \<and> call_to c < cl_n s \<and> call_from c \<noteq> call_to c)
     \<and> cl_open s \<subseteq> {..<length (cl_calls s)} \<and> fst ` set (cl_replies s) \<subseteq> {..<length (cl_calls s)}"

text \<open>A change of a peer that does not make it the leader of a new term.\<close>

definition humble :: "'c Raft \<Rightarrow> 'c Raft \<Rightarrow> bool" where
  "humble rf rf' \<longleftrightarrow>
     raft_moves rf rf' \<and> (rf_role rf' = Leader \<longrightarrow> rf_role rf = Leader \<and> rf_currentTerm rf' = rf_currentTerm rf)"

lemma humble_refl: "node_ok n j rf \<Longrightarrow> humble rf rf"
  by (simp add: humble_def node_ok_def raft_moves_refl)

text \<open>The kinds of steps as far as votes are concerned.\<close>

inductive vote_step :: "'c Cluster \<Rightarrow> 'c Cluster \<Rightarrow> bool" for s t where
  quiet: "cl_n t = cl_n s \<Longrightarrow> cl_calls t = cl_calls s \<Longrightarrow> cl_replies t = cl_replies s \<Longrightarrow> cl_votes t = cl_votes s \<Longrightarrow>
    cl_open t \<subseteq> cl_open s \<Longrightarrow> (\<And>j. j < cl_n s \<Longrightarrow> humble (cl_node s j) (cl_node t j)) \<Longrightarrow> vote_step s t"
| send: "j < cl_n s \<Longrightarrow> p < cl_n s \<Longrightarrow> j \<noteq> p \<Longrightarrow> (\<And>args. a \<noteq> RV args) \<Longrightarrow> t = add_calls j [(p, a)] s \<Longrightarrow> vote_step s t"
| elect: "j < cl_n s \<Longrightarrow> raft_moves (cl_node s j) rf \<Longrightarrow> rf_role rf = Candidate \<Longrightarrow>
    rf_currentTerm rf = rf_currentTerm (cl_node s j) + 1 \<Longrightarrow> rf_votedFor rf = int j \<Longrightarrow>
    rv_Term args = rf_currentTerm rf \<Longrightarrow> rv_CandidateId args = int j \<Longrightarrow>
    t = add_calls j (map (\<lambda>p. (p, RV args)) (filter (\<lambda>p. p \<noteq> j) [0..<cl_n s]))
          ((set_node j rf s)\<lparr>cl_votes := (cl_votes s)(j := (cl_votes s j)(rv_Term args := 1))\<rparr>) \<Longrightarrow> vote_step s t"
| deliver: "i < length (cl_calls s) \<Longrightarrow> j = call_to (cl_calls s ! i) \<Longrightarrow> humble (cl_node s j) rf \<Longrightarrow>
    (\<And>args reply. call_args (cl_calls s ! i) = RV args \<Longrightarrow> r = RVReply reply \<Longrightarrow> rvr_VoteGranted reply \<Longrightarrow>
      rf_currentTerm rf = rv_Term args \<and> rf_votedFor rf = rv_CandidateId args) \<Longrightarrow>
    t = (set_node j rf s)\<lparr>cl_replies := cl_replies s @ [(i, r)]\<rparr> \<Longrightarrow> vote_step s t"
| count: "i \<in> cl_open s \<Longrightarrow> (i, RVReply reply) \<in> set (cl_replies s) \<Longrightarrow> call_args (cl_calls s ! i) = RV args \<Longrightarrow>
    j = call_from (cl_calls s ! i) \<Longrightarrow> raft_moves (cl_node s j) rf \<Longrightarrow>
    rf_currentTerm rf = rf_currentTerm (cl_node s j) \<Longrightarrow> rf_currentTerm rf = rv_Term args \<Longrightarrow> rvr_VoteGranted reply \<Longrightarrow>
    (rf_role rf = Leader \<Longrightarrow> 2 * (cl_votes s j (rv_Term args) + 1) > int (cl_n s)) \<Longrightarrow>
    t = (set_node j rf s)\<lparr>cl_open := cl_open s - {i},
          cl_votes := (cl_votes s)(j := (cl_votes s j)(rv_Term args := cl_votes s j (rv_Term args) + 1))\<rparr> \<Longrightarrow> vote_step s t"

lemma RequestVote_humble:
  assumes "raft_wf rf" "on_disk rf" "RequestVote time rf args = Some (rf', r)"
  shows "humble rf rf'" "rvr_VoteGranted r \<Longrightarrow> rf_currentTerm rf' = rv_Term args \<and> rf_votedFor rf' = rv_CandidateId args"
proof -
  show "humble rf rf'"
    using RequestVote_moves [OF assms] assms(3)
    by (auto simp: humble_def RequestVote_eq [OF assms(1)] Let_def seen_term_def split: if_splits)
  show "rvr_VoteGranted r \<Longrightarrow> rf_currentTerm rf' = rv_Term args \<and> rf_votedFor rf' = rv_CandidateId args"
    using assms(3) by (auto simp: RequestVote_eq [OF assms(1)] Let_def split: if_splits)
qed

lemma AppendEntries_humble:
  assumes "raft_wf rf" "on_disk rf" "AppendEntries time rf args = Some (rf', r)"
  shows "humble rf rf'"
proof -
  have "raft_moves rf rf'" using AppendEntries_moves [OF assms(1,2)] assms(3) by (metis option.inject prod.inject)
  moreover have "rf_role rf' = Leader \<Longrightarrow> rf' = rf" using assms(3) by (cases rule: AppendEntries_cases) simp_all
  ultimately show ?thesis by (auto simp: humble_def)
qed

lemma InstallSnapshot_humble:
  assumes "raft_wf rf" "on_disk rf" "InstallSnapshot time rf args = Some (rf', r)"
  shows "humble rf rf'"
  using InstallSnapshot_moves [OF assms] assms(3)
  by (auto simp: humble_def InstallSnapshot_eq Let_def is_installed_def persistWithSnapshot_def split: if_splits)

lemma advanceCommit_shape: "raft_wf rf \<Longrightarrow> \<exists>c. advanceCommit rf = Some (rf\<lparr>rf_commitIndex := c\<rparr>)"
  by (erule advanceCommit_spec) blast

lemma append_reply_humble:
  assumes "raft_wf rf" "on_disk rf" "peer < rf_peers rf" "append_reply rf peer args reply = Some (rf', again)"
  shows "humble rf rf'"
proof -
  have wf: "raft_wf (raise_next (raise_match rf peer v) peer w)" for v w
    using assms(1) by (simp add: raft_wf_def raise_next_def raise_match_def)
  have "rf_role rf' = rf_role rf \<and> rf_currentTerm rf' = rf_currentTerm rf"
    if "advanceCommit (raise_next (raise_match rf peer v) peer w) = Some rf'" for v w
    using advanceCommit_shape [OF wf, of v w] that by (auto simp: raise_next_def raise_match_def)
  then have "rf_role rf' = Leader \<longrightarrow> rf_role rf = Leader \<and> rf_currentTerm rf' = rf_currentTerm rf"
    using assms(4) by (auto simp: append_reply_eq [OF assms(1,3)] Let_def split: if_splits)
  then show ?thesis using append_reply_moves [OF assms] by (simp add: humble_def)
qed

lemma install_reply_humble:
  assumes "raft_wf rf" "on_disk rf" "peer < rf_peers rf" "install_reply rf peer args reply = Some rf'"
  shows "humble rf rf'"
  using install_reply_moves [OF assms] assms(4)
  by (auto simp: humble_def install_reply_eq [OF assms(1,3)] raise_next_def raise_match_def split: if_splits)

text \<open>A vote reply counts, or it changes nothing that matters.\<close>

lemma vote_reply_cases:
  assumes "raft_wf rf" "on_disk rf" "vote_reply rf term votes reply = Some (rf', n)"
  obtains (no) "humble rf rf'" "n = votes"
  | (yes) "raft_moves rf rf'" "rf_currentTerm rf' = rf_currentTerm rf" "rf_currentTerm rf' = term" "rvr_VoteGranted reply"
      "n = votes + 1" "rf_role rf' = Leader \<Longrightarrow> 2 * n > int (rf_peers rf)"
proof (cases "rf_currentTerm rf \<noteq> term \<or> rf_role rf \<noteq> Candidate \<or> rvr_Term reply > rf_currentTerm rf \<or> \<not> rvr_VoteGranted reply")
  case True
  with assms vote_reply_moves [OF assms] show thesis
    by (intro no) (auto simp: vote_reply_def humble_def split: if_splits)
next
  case False
  with assms(3) have "rf_currentTerm rf' = rf_currentTerm rf" "n = votes + 1"
    "rf_role rf' = Leader \<Longrightarrow> 2 * n > int (rf_peers rf)"
    by (auto simp: vote_reply_def becomeLeader_eq [OF assms(1)] Let_def split: if_splits)
  with False vote_reply_moves [OF assms] show thesis by (intro yes) auto
qed

lemma Snapshot_humble:
  assumes "raft_wf rf" "on_disk rf" "Snapshot rf index data = Some rf'"
  shows "humble rf rf'"
  using Snapshot_moves [OF assms] assms(3)
  by (auto simp: humble_def Snapshot_eq [OF assms(1)] Let_def persistWithSnapshot_def split: if_splits)

lemma Start_humble:
  assumes "raft_wf rf" "on_disk rf" "Start rf command = Some (rf', r)"
  shows "humble rf rf'"
  using Start_moves [OF assms] assms(3) by (auto simp: humble_def Start_eq [OF assms(1)] split: if_splits)

lemma applier_humble:
  assumes "raft_wf rf" "on_disk rf" "applier rf = Some (rf', m)"
  shows "humble rf rf'"
  using applier_moves [OF assms] assms(3)
  by (auto simp: humble_def applier_def bind_eq_Some_conv Let_def split: option.splits if_splits)

lemma applier_sent_humble: "raft_wf rf \<Longrightarrow> on_disk rf \<Longrightarrow> humble rf (applier_sent rf msg)"
  using applier_sent_moves [of rf msg] by (auto simp: humble_def applier_sent_def Let_def)

lemma restart_humble:
  "raft_wf rf \<Longrightarrow> on_disk rf \<Longrightarrow> humble rf (Make time rand (rf_peers rf) (rf_me rf) (Checkpoint (rf_persister rf)))"
  using restart_moves [of rf time rand] by (simp add: humble_def Make_simps)

lemma ticker_cases:
  assumes "raft_wf rf" "on_disk rf" "ticker time rand rf = Some (rf', margs)"
  obtains (no) "margs = None" "humble rf rf'"
  | (yes) args where "margs = Some args" "raft_moves rf rf'" "rf_role rf' = Candidate"
      "rf_currentTerm rf' = rf_currentTerm rf + 1" "rf_votedFor rf' = rf_me rf" "rv_Term args = rf_currentTerm rf'"
      "rv_CandidateId args = rf_me rf"
proof (cases "rf_role rf \<noteq> Leader \<and> time - rf_lastHeardAt rf \<ge> rf_electionReset rf")
  case True
  with assms(3) obtain args where "startElection time rand rf = Some (rf', args)" "margs = Some args"
    by (auto simp: ticker_def bind_eq_Some_conv)
  with ticker_moves [OF assms] show thesis by (intro yes) (auto simp: startElection_eq [OF assms(1)])
next
  case False
  with assms show thesis by (intro no) (auto simp: ticker_def humble_def raft_moves_refl)
qed

lemma quiet_node:
  assumes "cluster_wf s" "j < cl_n s" "humble (cl_node s j) rf"
    "cl_n t = cl_n s" "cl_node t = (cl_node s)(j := rf)" "cl_calls t = cl_calls s" "cl_replies t = cl_replies s"
    "cl_votes t = cl_votes s" "cl_open t \<subseteq> cl_open s"
  shows "vote_step s t"
  by (rule quiet) (use assms in \<open>auto simp: cluster_wf_def intro: humble_refl\<close>)

lemma cluster_wf_node:
  "cluster_wf s \<Longrightarrow> j < cl_n s \<Longrightarrow>
     raft_wf (cl_node s j) \<and> on_disk (cl_node s j) \<and> rf_peers (cl_node s j) = cl_n s \<and> rf_me (cl_node s j) = int j"
  by (simp add: cluster_wf_def node_ok_def)

lemma cluster_wf_call:
  "cluster_wf s \<Longrightarrow> i < length (cl_calls s) \<Longrightarrow>
     call_from (cl_calls s ! i) < cl_n s \<and> call_to (cl_calls s ! i) < cl_n s \<and> call_from (cl_calls s ! i) \<noteq> call_to (cl_calls s ! i)"
  by (simp add: cluster_wf_def)

lemma other_peers_filter: "rf_me rf = int j \<Longrightarrow> other_peers rf = filter (\<lambda>p. p \<noteq> j) [0..<rf_peers rf]"
  by (auto simp: other_peers_def intro: filter_cong)

lemma handle_vote_step:
  assumes "cluster_wf s" "i < length (cl_calls s)"
    "handle time (cl_node s (call_to (cl_calls s ! i))) (call_args (cl_calls s ! i)) = Some (rf, r)"
  shows "vote_step s ((set_node (call_to (cl_calls s ! i)) rf s)\<lparr>cl_replies := cl_replies s @ [(i, r)]\<rparr>)"
proof -
  let ?rf = "cl_node s (call_to (cl_calls s ! i))"
  have ok: "raft_wf ?rf" "on_disk ?rf" using cluster_wf_call [OF assms(1,2)] cluster_wf_node [OF assms(1)] by auto
  have "humble ?rf rf"
    using assms(3) RequestVote_humble(1) [OF ok] AppendEntries_humble [OF ok] InstallSnapshot_humble [OF ok]
    by (auto simp: handle_def split: Args.splits)
  then show ?thesis
  proof (rule deliver [OF assms(2) refl])
    show "rf_currentTerm rf = rv_Term args \<and> rf_votedFor rf = rv_CandidateId args"
      if "call_args (cl_calls s ! i) = RV args" "r = RVReply reply" "rvr_VoteGranted reply" for args reply
      using assms(3) that RequestVote_humble(2) [OF ok] by (auto simp: handle_def)
  qed simp
qed

lemma handle_reply_vote_step:
  assumes "cluster_wf s" "i \<in> cl_open s" "(i, r) \<in> set (cl_replies s)" "j = call_from (cl_calls s ! i)"
    "handle_reply (cl_node s j) (call_to (cl_calls s ! i)) (cl_votes s j) (call_args (cl_calls s ! i)) r = Some (rf, votes)"
  shows "vote_step s ((set_node j rf s)\<lparr>cl_open := cl_open s - {i}, cl_votes := (cl_votes s)(j := votes)\<rparr>)"
    (is "vote_step s ?t")
proof -
  have il: "i < length (cl_calls s)" using assms(1,2) by (auto simp: cluster_wf_def)
  have j: "j < cl_n s" "call_to (cl_calls s ! i) < cl_n s" using cluster_wf_call [OF assms(1) il] assms(4) by auto
  have ok: "raft_wf (cl_node s j)" "on_disk (cl_node s j)" "rf_peers (cl_node s j) = cl_n s"
    using cluster_wf_node [OF assms(1) j(1)] by auto
  have q: "vote_step s ?t" if "humble (cl_node s j) rf" "votes = cl_votes s j"
    by (rule quiet_node [OF assms(1) j(1) that(1)]) (auto simp: set_node_def that(2))
  from assms(5) consider args reply n where "call_args (cl_calls s ! i) = RV args" "r = RVReply reply"
      "vote_reply (cl_node s j) (rv_Term args) (cl_votes s j (rv_Term args)) reply = Some (rf, n)"
      "votes = (cl_votes s j)(rv_Term args := n)"
    | "humble (cl_node s j) rf" "votes = cl_votes s j"
    using append_reply_humble [OF ok(1,2)] install_reply_humble [OF ok(1,2)] j(2) ok(3)
    by (auto simp: handle_reply_def split: Args.splits Reply.splits)
  then show ?thesis
  proof cases
    case (1 args reply n)
    from ok(1,2) 1(3) show ?thesis
    proof (cases rule: vote_reply_cases)
      case no
      then show ?thesis using q 1(4) by simp
    next
      case yes
      then show ?thesis
        using count [OF assms(2) _ 1(1) assms(4), of reply rf ?t] assms(3) 1 ok(3) by simp
    qed
  qed (rule q)
qed

lemma tick_vote_step:
  assumes "cluster_wf s" "cluster_act s (Tick j time rand) = Some t"
  shows "vote_step s t"
proof -
  from assms(2) obtain rf margs where j: "j < cl_n s" and tk: "ticker time rand (cl_node s j) = Some (rf, margs)"
    and t: "t = (case margs of None \<Rightarrow> set_node j rf s | Some args \<Rightarrow>
          add_calls j (map (\<lambda>p. (p, RV args)) (other_peers rf))
            ((set_node j rf s)\<lparr>cl_votes := (cl_votes s)(j := (cl_votes s j)(rv_Term args := 1))\<rparr>))"
    by (auto split: if_splits simp: bind_eq_Some_conv)
  note ok = cluster_wf_node [OF assms(1) j]
  then have w: "raft_wf (cl_node s j)" "on_disk (cl_node s j)" by auto
  from w tk show ?thesis
  proof (cases rule: ticker_cases)
    case no
    then show ?thesis using quiet_node [OF assms(1) j no(2)] t by (simp add: set_node_def)
  next
    case (yes args)
    then have "other_peers rf = filter (\<lambda>p. p \<noteq> j) [0..<cl_n s]"
      using ok by (simp add: other_peers_filter raft_moves_def)
    with yes t ok show ?thesis using elect [OF j yes(2,3,4), of args t] by simp
  qed
qed

lemma replicate_vote_step:
  assumes "cluster_wf s" "cluster_act s (Replicate j p) = Some t"
  shows "vote_step s t"
proof -
  from assms(2) obtain mcall where j: "j < cl_n s" "p \<in> set (broadcastAppendEntries (cl_node s j))"
    and t: "t = (case mcall of None \<Rightarrow> s | Some c \<Rightarrow> add_calls j [(p, repl_args c)] s)"
    by (auto split: if_splits simp: bind_eq_Some_conv)
  note ok = cluster_wf_node [OF assms(1) j(1)]
  have p: "p < cl_n s" "j \<noteq> p" using j ok by (auto simp: broadcastAppendEntries_def other_peers_def split: if_splits)
  have nr: "repl_args c \<noteq> RV args" for c and args by (cases c) simp_all
  show ?thesis
  proof (cases mcall)
    case None
    have "vote_step s s"
      by (rule quiet_node [OF assms(1) j(1) humble_refl]) (use ok in \<open>auto simp: node_ok_def\<close>)
    with None t show ?thesis by simp
  next
    case (Some c)
    with send [OF j(1) p nr [of c] t [unfolded Some option.case]] show ?thesis by simp
  qed
qed

lemma cluster_act_vote_step:
  assumes "cluster_wf s" "cluster_act s a = Some t"
  shows "vote_step s t"
proof -
  note ok = cluster_wf_node [OF assms(1)]
  note q = quiet_node [OF assms(1)]
  show ?thesis
  proof (cases a)
    case (Tick j time rand)
    then show ?thesis using assms tick_vote_step by blast
  next
    case (Replicate j p)
    then show ?thesis using assms replicate_vote_step by blast
  next
    case (Deliver i time)
    with assms(2) handle_vote_step [OF assms(1), of i time] show ?thesis
      by (auto split: if_splits simp: bind_eq_Some_conv Let_def)
  next
    case (Return i r)
    with assms(2) handle_reply_vote_step [OF assms(1), of i r] show ?thesis
      by (auto split: if_splits simp: bind_eq_Some_conv Let_def)
  next
    case (GiveUp i)
    have h: "j < cl_n s \<Longrightarrow> humble (cl_node s j) (cl_node s j)" for j
      using assms(1) by (auto simp: cluster_wf_def intro: humble_refl)
    show ?thesis by (rule quiet) (use GiveUp assms(2) h in \<open>auto split: if_splits\<close>)
  next
    case (Client j command)
    with assms(2) ok show ?thesis
      by (auto split: if_splits simp: bind_eq_Some_conv set_node_def intro!: q [of j] Start_humble)
  next
    case (ApplyBegin j)
    with assms(2) ok show ?thesis
      by (auto split: if_splits simp: bind_eq_Some_conv set_node_def intro!: q [of j] applier_humble)
  next
    case (ApplyTake j)
    have h: "j < cl_n s \<Longrightarrow> humble (cl_node s j) (cl_node s j)" for j
      using assms(1) by (auto simp: cluster_wf_def intro: humble_refl)
    show ?thesis by (rule quiet) (use ApplyTake assms(2) h in \<open>auto split: option.splits prod.splits bool.splits\<close>)
  next
    case (ApplyEnd j)
    with assms(2) ok show ?thesis
      by (auto split: if_splits option.splits prod.splits bool.splits simp: set_node_def intro!: q [of j] applier_sent_humble)
  next
    case (Compact j index data)
    with assms(2) ok show ?thesis
      by (auto split: if_splits simp: bind_eq_Some_conv set_node_def intro!: q [of j] Snapshot_humble)
  next
    case (Crash j time rand)
    with assms(2) have j: "j < cl_n s" by (auto split: if_splits)
    have "humble (cl_node s j) (Make time rand (cl_n s) (int j) (Checkpoint (rf_persister (cl_node s j))))"
      using restart_humble [of "cl_node s j" time rand] ok [OF j] by simp
    with Crash assms(2) j show ?thesis by (auto simp: set_node_def intro!: q [of j])
  qed
qed

subsection \<open>The invariant\<close>

text \<open>Call \<open>i\<close> asks \<open>j\<close> for its vote for \<open>c\<close> in term \<open>T\<close>.\<close>

definition rv_call :: "'c Cluster \<Rightarrow> nat \<Rightarrow> nat \<Rightarrow> nat \<Rightarrow> int \<Rightarrow> bool" where
  "rv_call s i c j T \<longleftrightarrow> i < length (cl_calls s) \<and>
     (\<exists>args. cl_calls s ! i = \<lparr>call_from = c, call_to = j, call_args = RV args\<rparr> \<and> rv_Term args = T)"

definition granted :: "'c Cluster \<Rightarrow> nat \<Rightarrow> bool" where
  "granted s i \<longleftrightarrow> (\<exists>reply. (i, RVReply reply) \<in> set (cl_replies s) \<and> rvr_VoteGranted reply)"

text \<open>Peer \<open>j\<close> has voted for \<open>c\<close> in term \<open>T\<close>: it has granted a request, or it is \<open>c\<close> and has sent one.\<close>

definition voted :: "'c Cluster \<Rightarrow> nat \<Rightarrow> int \<Rightarrow> nat \<Rightarrow> bool" where
  "voted s j T c \<longleftrightarrow> (\<exists>i. rv_call s i c j T \<and> granted s i) \<or> (j = c \<and> (\<exists>i p. rv_call s i c p T))"

text \<open>The votes of others that candidate \<open>c\<close> may have counted in term \<open>T\<close>.\<close>

definition backers :: "'c Cluster \<Rightarrow> nat \<Rightarrow> int \<Rightarrow> nat set" where
  "backers s c T = {j. \<exists>i. i \<notin> cl_open s \<and> rv_call s i c j T \<and> granted s i}"

definition elected :: "'c Cluster \<Rightarrow> nat \<Rightarrow> int \<Rightarrow> bool" where
  "elected s c T \<longleftrightarrow> (\<exists>i p. rv_call s i c p T) \<and> cl_n s < 2 * (1 + card (backers s c T))"

definition vote_inv :: "'c Cluster \<Rightarrow> bool" where
  "vote_inv s \<longleftrightarrow>
     (\<forall>i args. i < length (cl_calls s) \<longrightarrow> call_args (cl_calls s ! i) = RV args \<longrightarrow>
        rv_CandidateId args = int (call_from (cl_calls s ! i)))
     \<and> (\<forall>i i' c j T. rv_call s i c j T \<longrightarrow> rv_call s i' c j T \<longrightarrow> i = i')
     \<and> (\<forall>j T c. voted s j T c \<longrightarrow>
          T \<le> rf_currentTerm (cl_node s j) \<and> (T = rf_currentTerm (cl_node s j) \<longrightarrow> rf_votedFor (cl_node s j) = int c))
     \<and> (\<forall>j T c c'. voted s j T c \<longrightarrow> voted s j T c' \<longrightarrow> c = c')
     \<and> (\<forall>c T. cl_votes s c T \<le> 1 + int (card (backers s c T)))
     \<and> (\<forall>c < cl_n s. rf_role (cl_node s c) = Leader \<longrightarrow> elected s c (rf_currentTerm (cl_node s c)))"

lemma vote_step_wf:
  assumes "vote_step s t" "cluster_wf s"
  shows "cluster_wf t"
  using assms
proof (induction rule: vote_step.induct)
  case quiet
  then show ?case by (auto simp: cluster_wf_def humble_def intro: node_ok_moves)
next
  case (elect j rf args)
  then have "node_ok (cl_n s) j rf"
    using node_ok_moves [of "cl_n s" j "cl_node s j" rf] by (simp add: cluster_wf_def)
  moreover have "set (map (\<lambda>(p, a). \<lparr>call_from = j, call_to = p, call_args = a\<rparr>)
      (map (\<lambda>p. (p, RV args)) (filter (\<lambda>p. p \<noteq> j) [0..<cl_n s]))) \<subseteq> {c. call_from c = j \<and> call_to c < cl_n s \<and> call_to c \<noteq> j}"
    by auto
  ultimately show ?case
    using elect(1,8,9) unfolding cluster_wf_def add_calls_def set_node_def
    by (simp del: set_map) fastforce
next
  case (deliver i j rf r)
  then have "j < cl_n s" using cluster_wf_call by blast
  then have "node_ok (cl_n s) j rf"
    using deliver(3,6) node_ok_moves [of "cl_n s" j "cl_node s j" rf] by (simp add: cluster_wf_def humble_def)
  with deliver show ?case by (simp add: cluster_wf_def set_node_def)
next
  case (count i reply args j rf)
  then have "j < cl_n s" using cluster_wf_call [of s i] by (auto simp: cluster_wf_def)
  then have "node_ok (cl_n s) j rf"
    using count(5,11) node_ok_moves [of "cl_n s" j "cl_node s j" rf] by (simp add: cluster_wf_def)
  with count show ?case by (auto simp: cluster_wf_def set_node_def)
qed (auto simp: cluster_wf_def add_calls_def)

subsection \<open>Preservation\<close>

text \<open>What can be said of votes grows: calls and replies are added, goroutines end.\<close>

definition grows :: "'c Cluster \<Rightarrow> 'c Cluster \<Rightarrow> bool" where
  "grows s t \<longleftrightarrow> cl_n t = cl_n s \<and> (\<exists>cs. cl_calls t = cl_calls s @ cs) \<and> (\<exists>rs. cl_replies t = cl_replies s @ rs)
     \<and> cl_open t \<inter> {..<length (cl_calls s)} \<subseteq> cl_open s"

lemma vote_step_grows: "vote_step s t \<Longrightarrow> grows s t"
  by (induction rule: vote_step.induct) (auto simp: grows_def add_calls_def set_node_def)

lemma grows_rv_call: "grows s t \<Longrightarrow> rv_call s i c j T \<Longrightarrow> rv_call t i c j T"
  by (auto simp: grows_def rv_call_def nth_append)

lemma grows_granted: "grows s t \<Longrightarrow> granted s i \<Longrightarrow> granted t i"
  by (auto simp: grows_def granted_def)

lemma grows_backers: "grows s t \<Longrightarrow> backers s c T \<subseteq> backers t c T"
  unfolding backers_def using grows_rv_call [of s t] grows_granted [of s t]
  by (auto simp: grows_def rv_call_def)

lemma backers_subset: "cluster_wf s \<Longrightarrow> backers s c T \<subseteq> {..<cl_n s} - {c}"
  by (auto simp: backers_def rv_call_def cluster_wf_def dest!: nth_mem)

lemma finite_backers: "cluster_wf s \<Longrightarrow> finite (backers s c T)"
  by (rule finite_subset [OF backers_subset]) simp_all

lemma grows_card: "grows s t \<Longrightarrow> cluster_wf t \<Longrightarrow> card (backers s c T) \<le> card (backers t c T)"
  by (intro card_mono grows_backers finite_backers)

lemma grows_elected: "grows s t \<Longrightarrow> cluster_wf t \<Longrightarrow> elected s c T \<Longrightarrow> elected t c T"
  unfolding elected_def using grows_card [of s t c T] grows_rv_call [of s t _ c _ T]
  by (fastforce simp: grows_def)

text \<open>A peer that keeps its vote while its term stays does not contradict a vote it has cast.\<close>

definition vote_moves :: "'c Raft \<Rightarrow> 'c Raft \<Rightarrow> bool" where
  "vote_moves rf rf' \<longleftrightarrow> rf_currentTerm rf \<le> rf_currentTerm rf'
     \<and> (rf_currentTerm rf' = rf_currentTerm rf \<and> rf_votedFor rf \<noteq> -1 \<longrightarrow> rf_votedFor rf' = rf_votedFor rf)"

lemma raft_moves_votes: "raft_moves rf rf' \<Longrightarrow> vote_moves rf rf'"
  by (simp add: raft_moves_def vote_moves_def)

lemma votes_keep:
  assumes V: "\<And>j T c. voted s j T c \<Longrightarrow>
      T \<le> rf_currentTerm (cl_node s j) \<and> (T = rf_currentTerm (cl_node s j) \<longrightarrow> rf_votedFor (cl_node s j) = int c)"
    and U: "\<And>j T c c'. voted s j T c \<Longrightarrow> voted s j T c' \<Longrightarrow> c = c'"
    and moves: "\<And>j T c. voted s j T c \<Longrightarrow> vote_moves (cl_node s j) (cl_node t j)"
    and new: "\<And>j T c. voted t j T c \<Longrightarrow>
      voted s j T c \<or> (T = rf_currentTerm (cl_node t j) \<and> rf_votedFor (cl_node t j) = int c)"
  shows "\<And>j T c. voted t j T c \<Longrightarrow>
      T \<le> rf_currentTerm (cl_node t j) \<and> (T = rf_currentTerm (cl_node t j) \<longrightarrow> rf_votedFor (cl_node t j) = int c)"
    "\<And>j T c c'. voted t j T c \<Longrightarrow> voted t j T c' \<Longrightarrow> c = c'"
proof -
  show Vt: "T \<le> rf_currentTerm (cl_node t j) \<and> (T = rf_currentTerm (cl_node t j) \<longrightarrow> rf_votedFor (cl_node t j) = int c)"
    if "voted t j T c" for j T c
    using new [OF that]
  proof
    assume old: "voted s j T c"
    show ?thesis using V [OF old] moves [OF old] by (auto simp: vote_moves_def)
  qed simp
  show "c = c'" if "voted t j T c" "voted t j T c'" for j T c c'
    using new [OF that(1)] new [OF that(2)] Vt [OF that(1)] Vt [OF that(2)] U [of j T c c'] by auto
qed

text \<open>The conjuncts of the invariant, by name.\<close>

lemma vote_invD:
  assumes "vote_inv s"
  shows "\<And>i args. i < length (cl_calls s) \<Longrightarrow> call_args (cl_calls s ! i) = RV args \<Longrightarrow>
        rv_CandidateId args = int (call_from (cl_calls s ! i))"
    "\<And>i i' c j T. rv_call s i c j T \<Longrightarrow> rv_call s i' c j T \<Longrightarrow> i = i'"
    "\<And>j T c. voted s j T c \<Longrightarrow>
      T \<le> rf_currentTerm (cl_node s j) \<and> (T = rf_currentTerm (cl_node s j) \<longrightarrow> rf_votedFor (cl_node s j) = int c)"
    "\<And>j T c c'. voted s j T c \<Longrightarrow> voted s j T c' \<Longrightarrow> c = c'"
    "\<And>c T. cl_votes s c T \<le> 1 + int (card (backers s c T))"
    "\<And>c. c < cl_n s \<Longrightarrow> rf_role (cl_node s c) = Leader \<Longrightarrow> elected s c (rf_currentTerm (cl_node s c))"
  using assms unfolding vote_inv_def by blast+

lemma vote_invI:
  assumes "\<And>i args. i < length (cl_calls s) \<Longrightarrow> call_args (cl_calls s ! i) = RV args \<Longrightarrow>
        rv_CandidateId args = int (call_from (cl_calls s ! i))"
    "\<And>i i' c j T. rv_call s i c j T \<Longrightarrow> rv_call s i' c j T \<Longrightarrow> i = i'"
    "\<And>j T c. voted s j T c \<Longrightarrow>
      T \<le> rf_currentTerm (cl_node s j) \<and> (T = rf_currentTerm (cl_node s j) \<longrightarrow> rf_votedFor (cl_node s j) = int c)"
    "\<And>j T c c'. voted s j T c \<Longrightarrow> voted s j T c' \<Longrightarrow> c = c'"
    "\<And>c T. cl_votes s c T \<le> 1 + int (card (backers s c T))"
    "\<And>c. c < cl_n s \<Longrightarrow> rf_role (cl_node s c) = Leader \<Longrightarrow> elected s c (rf_currentTerm (cl_node s c))"
  shows "vote_inv s"
  using assms unfolding vote_inv_def by blast

text \<open>
  A step that adds no request for votes. \<open>new\<close> are the votes it adds, \<open>votes\<close> and \<open>lead\<close> what it must
  say about the counters and new leaders.
\<close>

lemma vote_inv_same_requests:
  assumes "vote_inv s" "grows s t" "cluster_wf t"
    and calls: "\<And>i c j T. rv_call t i c j T \<Longrightarrow> rv_call s i c j T"
    and ids: "\<And>i args. i < length (cl_calls t) \<Longrightarrow> call_args (cl_calls t ! i) = RV args \<Longrightarrow>
        rv_CandidateId args = int (call_from (cl_calls t ! i))"
    and moves: "\<And>j. vote_moves (cl_node s j) (cl_node t j)"
    and new: "\<And>i c j T. rv_call s i c j T \<Longrightarrow> granted t i \<Longrightarrow>
      granted s i \<or> (T = rf_currentTerm (cl_node t j) \<and> rf_votedFor (cl_node t j) = int c)"
    and votes: "\<And>c T. cl_votes t c T \<le> 1 + int (card (backers t c T))"
    and lead: "\<And>c. c < cl_n s \<Longrightarrow> rf_role (cl_node t c) = Leader \<Longrightarrow>
      (rf_role (cl_node s c) = Leader \<and> rf_currentTerm (cl_node t c) = rf_currentTerm (cl_node s c))
      \<or> elected t c (rf_currentTerm (cl_node t c))"
  shows "vote_inv t"
proof -
  note inv = vote_invD [OF assms(1)]
  have new': "voted s j T c \<or> (T = rf_currentTerm (cl_node t j) \<and> rf_votedFor (cl_node t j) = int c)"
    if "voted t j T c" for j T c
    using that calls new unfolding voted_def by blast
  note keep = votes_keep [OF inv(3,4) moves new']
  show ?thesis
  proof (rule vote_invI [OF ids _ keep votes])
    show "rv_call t i c j T \<Longrightarrow> rv_call t i' c j T \<Longrightarrow> i = i'" for i i' c j T using calls inv(2) by blast
    fix c
    assume c: "c < cl_n t" "rf_role (cl_node t c) = Leader"
    then have "c < cl_n s" using assms(2) by (simp add: grows_def)
    then show "elected t c (rf_currentTerm (cl_node t c))"
      using lead [OF _ c(2)] inv(6) grows_elected [OF assms(2,3)] by metis
  qed
qed

lemma humble_votes: "humble rf rf' \<Longrightarrow> vote_moves rf rf'"
  by (simp add: humble_def raft_moves_votes)

lemma vote_moves_refl: "vote_moves rf rf"
  by (simp add: vote_moves_def)

lemma votes_grow:
  "vote_inv s \<Longrightarrow> grows s t \<Longrightarrow> cluster_wf t \<Longrightarrow> cl_votes t c T = cl_votes s c T \<Longrightarrow>
     cl_votes t c T \<le> 1 + int (card (backers t c T))"
  using vote_invD(5) [of s c T] grows_card [of s t c T] by simp

lemma count_backers:
  assumes "vote_inv s" "cluster_wf s" "cluster_wf t" "grows s t" "i \<in> cl_open s" "i \<notin> cl_open t"
    "rv_call s i c p T" "granted s i"
  shows "card (backers s c T) < card (backers t c T)"
proof (rule psubset_card_mono)
  show "finite (backers t c T)" using assms(3) by (rule finite_backers)
  have "p \<notin> backers s c T"
    using vote_invD(2) [OF assms(1) assms(7)] assms(5) by (auto simp: backers_def)
  moreover have "p \<in> backers t c T"
    using assms(6) grows_rv_call [OF assms(4,7)] grows_granted [OF assms(4,8)] by (auto simp: backers_def)
  ultimately show "backers s c T \<subset> backers t c T" using grows_backers [OF assms(4)] by blast
qed

lemma rv_call_same: "cl_calls t = cl_calls s \<Longrightarrow> rv_call t = rv_call s"
  by (simp add: rv_call_def fun_eq_iff)

lemma vote_inv_elect:
  assumes "vote_inv s" "cluster_wf s" "cluster_wf t" "grows s t" "j < cl_n s" "raft_moves (cl_node s j) rf"
    "rf_role rf = Candidate" "rf_currentTerm rf = rf_currentTerm (cl_node s j) + 1" "rf_votedFor rf = int j"
    "rv_Term args = rf_currentTerm rf" "rv_CandidateId args = int j"
    and t: "t = add_calls j (map (\<lambda>p. (p, RV args)) (filter (\<lambda>p. p \<noteq> j) [0..<cl_n s]))
          ((set_node j rf s)\<lparr>cl_votes := (cl_votes s)(j := (cl_votes s j)(rv_Term args := 1))\<rparr>)"
  shows "vote_inv t"
proof -
  note inv = vote_invD [OF assms(1)]
  let ?ps = "filter (\<lambda>p. p \<noteq> j) [0..<cl_n s]"
  let ?n = "length (cl_calls s)"
  have calls: "cl_calls t = cl_calls s @ map (\<lambda>p. \<lparr>call_from = j, call_to = p, call_args = RV args\<rparr>) ?ps"
    by (simp add: t add_calls_def set_node_def comp_def)
  have nodes: "cl_node t = (cl_node s)(j := rf)" and reps: "cl_replies t = cl_replies s" and n: "cl_n t = cl_n s"
    by (simp_all add: t add_calls_def set_node_def)
  have votes: "cl_votes t = (cl_votes s)(j := (cl_votes s j)(rv_Term args := 1))"
    by (simp add: t add_calls_def set_node_def)
  have new: "i \<ge> ?n \<Longrightarrow> c = j \<and> T = rv_Term args \<and> i - ?n < length ?ps \<and> p = ?ps ! (i - ?n)"
    and old: "i < ?n \<Longrightarrow> rv_call s i c p T" if "rv_call t i c p T" for i c p T
    using that by (auto simp: rv_call_def calls nth_append)
  have fresh: "\<not> rv_call s i j p (rv_Term args)" for i p
  proof
    assume "rv_call s i j p (rv_Term args)"
    then have "voted s j (rv_Term args) j" by (auto simp: voted_def)
    then show False using inv(3) assms(8,10) by fastforce
  qed
  have reps': "granted t = granted s" by (simp add: granted_def reps fun_eq_iff)
  have bound: "granted s i \<Longrightarrow> i < ?n" for i using assms(2) by (force simp: granted_def cluster_wf_def)
  have vnew: "voted s k T c \<or> (T = rf_currentTerm (cl_node t k) \<and> rf_votedFor (cl_node t k) = int c)"
    if "voted t k T c" for k T c
    using that old new bound assms(9,10) nodes reps' unfolding voted_def by (metis fun_upd_same not_le)
  have moves: "vote_moves (cl_node s k) (cl_node t k)" for k
    using raft_moves_votes [OF assms(6)] nodes by (auto intro: vote_moves_refl)
  note keep = votes_keep [OF inv(3,4) moves vnew]
  show ?thesis
  proof (rule vote_invI [OF _ _ keep])
    show "rv_CandidateId a = int (call_from (cl_calls t ! i))"
      if "i < length (cl_calls t)" "call_args (cl_calls t ! i) = RV a" for i a
      using that inv(1) assms(11) by (auto simp: calls nth_append split: if_splits)
    show "i = i'" if "rv_call t i c p T" "rv_call t i' c p T" for i i' c p T
    proof -
      have "i \<ge> ?n \<longleftrightarrow> i' \<ge> ?n" using that old new fresh by (metis not_le)
      moreover have "i < ?n \<Longrightarrow> i' < ?n \<Longrightarrow> i = i'" using that old inv(2) by blast
      moreover have "i = i'" if "i \<ge> ?n" "i' \<ge> ?n"
        using new [OF \<open>rv_call t i c p T\<close> that(1)] new [OF \<open>rv_call t i' c p T\<close> that(2)] that
          nth_eq_iff_index_eq [of ?ps "i - ?n" "i' - ?n"] by (simp add: eq_diff_iff)
      ultimately show ?thesis by (metis not_le)
    qed
    show "cl_votes t c T \<le> 1 + int (card (backers t c T))" for c T
      using votes_grow [OF assms(1,4,3), of c T] by (cases "c = j \<and> T = rv_Term args") (auto simp: votes)
    fix c
    assume "c < cl_n t" "rf_role (cl_node t c) = Leader"
    then show "elected t c (rf_currentTerm (cl_node t c))"
      using inv(6) [of c] assms(7) n nodes grows_elected [OF assms(4,3)] by (auto split: if_splits)
  qed
qed

lemma vote_inv_deliver:
  assumes "vote_inv s" "cluster_wf s" "cluster_wf t" "grows s t" "i < length (cl_calls s)" "j = call_to (cl_calls s ! i)"
    "humble (cl_node s j) rf"
    and g: "\<And>args reply. call_args (cl_calls s ! i) = RV args \<Longrightarrow> r = RVReply reply \<Longrightarrow> rvr_VoteGranted reply \<Longrightarrow>
      rf_currentTerm rf = rv_Term args \<and> rf_votedFor rf = rv_CandidateId args"
    and t: "t = (set_node j rf s)\<lparr>cl_replies := cl_replies s @ [(i, r)]\<rparr>"
  shows "vote_inv t"
proof (rule vote_inv_same_requests [OF assms(1,4,3)])
  have calls: "rv_call t = rv_call s" by (rule rv_call_same) (simp add: t set_node_def)
  then show "rv_call t k c p T \<Longrightarrow> rv_call s k c p T" for k c p T by simp
  show "rv_CandidateId a = int (call_from (cl_calls t ! k))"
    if "k < length (cl_calls t)" "call_args (cl_calls t ! k) = RV a" for k a
    using that vote_invD(1) [OF assms(1)] by (simp add: t set_node_def)
  show "vote_moves (cl_node s k) (cl_node t k)" for k
    using humble_votes [OF assms(7)] by (auto simp: t set_node_def intro: vote_moves_refl)
  show "granted s k \<or> (T = rf_currentTerm (cl_node t p) \<and> rf_votedFor (cl_node t p) = int c)"
    if rv: "rv_call s k c p T" and gr: "granted t k" for k c p T
  proof (cases "granted s k")
    case False
    with gr obtain reply where k: "k = i" "r = RVReply reply" "rvr_VoteGranted reply"
      by (auto simp: granted_def t set_node_def)
    with rv obtain args where "cl_calls s ! i = \<lparr>call_from = c, call_to = p, call_args = RV args\<rparr>" "rv_Term args = T"
      by (auto simp: rv_call_def)
    with g [of args reply] k assms(5,6) vote_invD(1) [OF assms(1), of i args] show ?thesis
      by (simp add: t set_node_def)
  qed simp
  show "cl_votes t c T \<le> 1 + int (card (backers t c T))" for c T
    by (rule votes_grow [OF assms(1,4,3)]) (simp add: t set_node_def)
  show "(rf_role (cl_node s c) = Leader \<and> rf_currentTerm (cl_node t c) = rf_currentTerm (cl_node s c))
      \<or> elected t c (rf_currentTerm (cl_node t c))" if "rf_role (cl_node t c) = Leader" for c
    using that assms(7) by (auto simp: t set_node_def humble_def split: if_splits)
qed

lemma vote_inv_count:
  assumes "vote_inv s" "cluster_wf s" "cluster_wf t" "grows s t" "i \<in> cl_open s" "(i, RVReply reply) \<in> set (cl_replies s)"
    "call_args (cl_calls s ! i) = RV args" "j = call_from (cl_calls s ! i)" "raft_moves (cl_node s j) rf"
    "rf_currentTerm rf = rf_currentTerm (cl_node s j)" "rf_currentTerm rf = rv_Term args" "rvr_VoteGranted reply"
    "rf_role rf = Leader \<Longrightarrow> 2 * (cl_votes s j (rv_Term args) + 1) > int (cl_n s)"
    and t: "t = (set_node j rf s)\<lparr>cl_open := cl_open s - {i},
          cl_votes := (cl_votes s)(j := (cl_votes s j)(rv_Term args := cl_votes s j (rv_Term args) + 1))\<rparr>"
  shows "vote_inv t"
proof (rule vote_inv_same_requests [OF assms(1,4,3)])
  have calls: "rv_call t = rv_call s" by (rule rv_call_same) (simp add: t set_node_def)
  then show "rv_call t k c p T \<Longrightarrow> rv_call s k c p T" for k c p T by simp
  have rv: "rv_call s i j (call_to (cl_calls s ! i)) (rv_Term args)"
    using assms(2,5,7,8) by (cases "cl_calls s ! i") (auto simp: rv_call_def cluster_wf_def)
  have "granted s i" using assms(6,12) by (auto simp: granted_def)
  then have more: "card (backers s j (rv_Term args)) < card (backers t j (rv_Term args))"
    using rv by (intro count_backers [OF assms(1-4) assms(5)]) (simp_all add: t)
  show "rv_CandidateId a = int (call_from (cl_calls t ! k))"
    if "k < length (cl_calls t)" "call_args (cl_calls t ! k) = RV a" for k a
    using that vote_invD(1) [OF assms(1)] by (simp add: t set_node_def)
  show "vote_moves (cl_node s k) (cl_node t k)" for k
    using raft_moves_votes [OF assms(9)] by (auto simp: t set_node_def intro: vote_moves_refl)
  show "granted s k \<or> X" if "granted t k" for k X
    using that by (simp add: granted_def t set_node_def)
  show "cl_votes t c T \<le> 1 + int (card (backers t c T))" for c T
    using votes_grow [OF assms(1,4,3), of c T] more vote_invD(5) [OF assms(1), of j "rv_Term args"]
    by (cases "c = j \<and> T = rv_Term args") (auto simp: t set_node_def)
  show "(rf_role (cl_node s c) = Leader \<and> rf_currentTerm (cl_node t c) = rf_currentTerm (cl_node s c))
      \<or> elected t c (rf_currentTerm (cl_node t c))" if "rf_role (cl_node t c) = Leader" for c
  proof (cases "c = j")
    case True
    with that have "rf_role rf = Leader" by (simp add: t set_node_def)
    from assms(13) [OF this] more vote_invD(5) [OF assms(1), of j "rv_Term args"]
    have "int (cl_n s) < int (2 * (1 + card (backers t j (rv_Term args))))" by simp
    then have "cl_n s < 2 * (1 + card (backers t j (rv_Term args)))" by (simp only: of_nat_less_iff)
    then have "elected t j (rv_Term args)" using rv calls by (auto simp: elected_def t set_node_def)
    with True assms(11) show ?thesis by (simp add: t set_node_def)
  next
    case False
    with that show ?thesis by (simp add: t set_node_def)
  qed
qed

lemma vote_inv_quiet:
  assumes "vote_inv s" "cluster_wf s" "cluster_wf t" "grows s t"
    and calls: "\<And>i c j T. rv_call t i c j T \<Longrightarrow> rv_call s i c j T"
    and ids: "\<And>i args. i < length (cl_calls t) \<Longrightarrow> call_args (cl_calls t ! i) = RV args \<Longrightarrow>
        rv_CandidateId args = int (call_from (cl_calls t ! i))"
    and same: "cl_replies t = cl_replies s" "cl_votes t = cl_votes s"
    and nodes: "\<And>j. j < cl_n s \<Longrightarrow> humble (cl_node s j) (cl_node t j)"
  shows "vote_inv t"
proof (rule vote_invI [OF ids])
  note inv = vote_invD [OF assms(1)]
  have gr: "granted t = granted s" by (simp add: granted_def same fun_eq_iff)
  have new: "voted s j T c \<or> X" if "voted t j T c" for j T c X
    using that calls unfolding voted_def gr by blast
  have bound: "voted s j T c \<Longrightarrow> j < cl_n s" for j T c
    using assms(2) by (auto simp: voted_def rv_call_def cluster_wf_def dest!: nth_mem)
  have moves: "voted s j T c \<Longrightarrow> vote_moves (cl_node s j) (cl_node t j)" for j T c
    using nodes bound humble_votes by blast
  note keep = votes_keep [OF inv(3,4) moves new]
  show "voted t j T c \<Longrightarrow> T \<le> rf_currentTerm (cl_node t j) \<and>
      (T = rf_currentTerm (cl_node t j) \<longrightarrow> rf_votedFor (cl_node t j) = int c)" for j T c by (rule keep(1))
  show "voted t j T c \<Longrightarrow> voted t j T c' \<Longrightarrow> c = c'" for j T c c' by (rule keep(2))
  show "rv_call t i c j T \<Longrightarrow> rv_call t i' c j T \<Longrightarrow> i = i'" for i i' c j T using calls inv(2) by blast
  show "cl_votes t c T \<le> 1 + int (card (backers t c T))" for c T
    by (rule votes_grow [OF assms(1,4,3)]) (simp add: same)
  fix c
  assume c: "c < cl_n t" "rf_role (cl_node t c) = Leader"
  then have "c < cl_n s" using assms(4) by (simp add: grows_def)
  then show "elected t c (rf_currentTerm (cl_node t c))"
    using nodes [of c] c(2) inv(6) [of c] grows_elected [OF assms(4,3)] by (simp add: humble_def)
qed

lemma vote_step_inv:
  assumes "vote_step s t" "cluster_wf s" "vote_inv s"
  shows "vote_inv t"
proof -
  have wf: "cluster_wf t" "grows s t" using assms vote_step_wf vote_step_grows by auto
  show ?thesis
    using assms(1)
  proof (cases rule: vote_step.cases)
    case quiet
    then show ?thesis
      using vote_invD(1) [OF assms(3)] by (intro vote_inv_quiet [OF assms(3,2) wf]) (simp_all add: rv_call_def)
  next
    case (send j p a)
    show ?thesis
    proof (rule vote_inv_quiet [OF assms(3,2) wf])
      show "rv_call t i c k T \<Longrightarrow> rv_call s i c k T" for i c k T
        using send by (auto simp: rv_call_def add_calls_def nth_append split: if_splits)
      show "rv_CandidateId args = int (call_from (cl_calls t ! i))"
        if "i < length (cl_calls t)" "call_args (cl_calls t ! i) = RV args" for i args
        using that send vote_invD(1) [OF assms(3)] by (auto simp: add_calls_def nth_append split: if_splits)
      show "k < cl_n s \<Longrightarrow> humble (cl_node s k) (cl_node t k)" for k
        using send assms(2) by (auto simp: add_calls_def cluster_wf_def intro: humble_refl)
    qed (use send in \<open>simp_all add: add_calls_def\<close>)
  next
    case (elect j rf args)
    then show ?thesis by (rule vote_inv_elect [OF assms(3,2) wf])
  next
    case (deliver i j rf r)
    then show ?thesis by (rule vote_inv_deliver [OF assms(3,2) wf])
  next
    case (count i reply args j rf)
    then show ?thesis by (rule vote_inv_count [OF assms(3,2) wf])
  qed
qed

subsection \<open>Election safety\<close>

lemma cluster_init_inv: "cluster_wf (cluster_init n) \<and> vote_inv (cluster_init n)"
proof
  show "cluster_wf (cluster_init n)"
    by (auto simp: cluster_wf_def cluster_init_def node_ok_def Make_simps intro: raft_wf_Make)
  show "vote_inv (cluster_init n)"
    by (rule vote_invI) (auto simp: cluster_init_def rv_call_def voted_def Make_simps)
qed

lemma cluster_step_inv:
  assumes "cluster_step s t" "cluster_wf s \<and> vote_inv s"
  shows "cluster_wf t \<and> vote_inv t" "vote_step s t"
proof -
  show "vote_step s t" using assms by (auto elim!: cluster_step.cases intro: cluster_act_vote_step)
  with assms(2) show "cluster_wf t \<and> vote_inv t" using vote_step_wf vote_step_inv by blast
qed

interpretation cluster: clocked_invariant "cluster_init n" cluster_step "\<lambda>_. 0" 1 "\<lambda>s. cluster_wf s \<and> vote_inv s"
  by unfold_locales (simp_all only: cluster_init_inv cluster_step_inv(1) le_refl)

lemma cluster_reach_inv: "cluster_reach n s \<Longrightarrow> cluster_wf s \<and> vote_inv s"
  by (rule cluster.reach_inv) simp_all

lemma grows_refl: "grows s s"
  by (simp add: grows_def)

lemma grows_trans: "grows r s \<Longrightarrow> grows s t \<Longrightarrow> grows r t"
  by (auto simp: grows_def)

lemma reach_grows:
  assumes "reach s cluster_step t" "cluster_wf s" "vote_inv s"
  shows "grows s t \<and> cluster_wf t \<and> vote_inv t"
  using assms
proof (induction rule: reach.induct)
  case reach_init
  then show ?case by (simp add: grows_refl)
next
  case (reach_step u t)
  then have "vote_step u t" using cluster_step_inv(2) by blast
  with reach_step show ?case
    using vote_step_grows vote_step_wf vote_step_inv grows_trans by blast
qed

lemma cluster_n: "cluster_reach n (s :: 'a Cluster) \<Longrightarrow> cl_n s = n"
proof -
  assume "cluster_reach n s"
  then have "cl_n s = cl_n (cluster_init n :: 'a Cluster)" using reach_grows cluster_init_inv unfolding grows_def by metis
  then show ?thesis by (simp add: cluster_init_def)
qed

text \<open>
  The argument for majorities, once for all: every candidate that wins an election has the votes of a
  majority of the electorate, and nobody votes twice.
\<close>

locale majority_election =
  fixes electorate :: "'e \<Rightarrow> nat set" and vote :: "'e \<Rightarrow> nat \<Rightarrow> nat \<Rightarrow> bool" and won :: "'e \<Rightarrow> nat \<Rightarrow> bool"
  assumes finite_electorate: "finite (electorate e)"
    and won_majority: "won e c \<Longrightarrow> card (electorate e) < 2 * card {j \<in> electorate e. vote e j c}"
    and vote_unique: "vote e j c \<Longrightarrow> vote e j c' \<Longrightarrow> c = c'"
begin

lemma one_winner:
  assumes "won e c" "won e c'"
  shows "c = c'"
proof -
  have "{j \<in> electorate e. vote e j c} \<inter> {j \<in> electorate e. vote e j c'} \<noteq> {}"
    using finite_electorate won_majority [OF assms(1)] won_majority [OF assms(2)]
    by (intro majorities_meet [of "electorate e"]) auto
  then show ?thesis using vote_unique by blast
qed

end

text \<open>The elections of a cluster: the states that satisfy the invariants, and the terms.\<close>

lemma elected_majority:
  assumes "cluster_wf s" "c < cl_n s" "elected s c T"
  shows "card {..<cl_n s} < 2 * card {j \<in> {..<cl_n s}. voted s j T c}"
proof -
  have "insert c (backers s c T) \<subseteq> {j \<in> {..<cl_n s}. voted s j T c}"
    using assms backers_subset [OF assms(1), of c T] by (auto simp: backers_def voted_def elected_def)
  then have "card (insert c (backers s c T)) \<le> card {j \<in> {..<cl_n s}. voted s j T c}"
    by (intro card_mono) simp_all
  moreover have "card (insert c (backers s c T)) = 1 + card (backers s c T)"
    using backers_subset [OF assms(1), of c T] finite_backers [OF assms(1)] by (simp add: card_insert_disjoint subset_Diff_insert)
  ultimately show ?thesis using assms(3) by (simp add: elected_def)
qed

interpretation raft_vote: majority_election "\<lambda>e. {..<cl_n (fst e)}"
  "\<lambda>e j c. vote_inv (fst e) \<and> voted (fst e) j (snd e) c"
  "\<lambda>e c. cluster_wf (fst e) \<and> vote_inv (fst e) \<and> c < cl_n (fst e) \<and> elected (fst e) c (snd e)"
  by unfold_locales (use elected_majority vote_invD(4) in \<open>auto simp del: card_lessThan\<close>)

lemma election_safety_lemma:
  assumes "cluster_reach n s" "reach s cluster_step t" "c < n" "c' < n"
    "GetState (cl_node s c) = (T, True)" "GetState (cl_node t c') = (T, True)"
  shows "c = c'"
proof -
  have s: "cluster_wf s" "vote_inv s" "cl_n s = n"
    using cluster_reach_inv [OF assms(1)] cluster_n [OF assms(1)] by auto
  have t: "grows s t" "cluster_wf t" "vote_inv t" using reach_grows [OF assms(2) s(1,2)] by auto
  then have nt: "cl_n t = n" using s(3) by (simp add: grows_def)
  have "elected s c T" using vote_invD(6) [OF s(2), of c] assms(3,5) s(3) by (simp add: GetState_def)
  then have "elected t c T" using grows_elected [OF t(1,2)] by blast
  moreover have "elected t c' T" using vote_invD(6) [OF t(3), of c'] assms(4,6) nt by (simp add: GetState_def)
  ultimately show ?thesis using raft_vote.one_winner [of "(t, T)" c c'] t nt assms(3,4) by simp
qed

text \<open>
  \<^bold>\<open>C6\<close>: Election safety: at most one leader per term. If a peer is the leader of a term in some state of a
  cluster, and a peer is the leader of the same term in that state or any later one, it is the same peer.
  This holds for every sequence of ticks, requests, replies, losses, duplications, snapshots and crashes.
\<close>

theorem raft_election_safety:
  assumes "cluster_reach n s" "reach s cluster_step t" "c < n" "c' < n"
    "GetState (cl_node s c) = (T, True)" "GetState (cl_node t c') = (T, True)"
  shows "c = c'"
  using assms by (rule election_safety_lemma)

text \<open>Peer 0 of three is elected in term 1 by its own vote and that of peer 1, and takes a command.\<close>

definition elect0 :: "nat action list" where
  "elect0 = [Tick 0 500 0, Deliver 0 501, Return 0 (RVReply \<lparr>rvr_Term = 1, rvr_VoteGranted = True\<rparr>)]"

definition elected0 :: "nat Cluster" where
  "elected0 = the (run cluster_act (cluster_init 3) elect0)"

definition elected0_cmd :: "nat Cluster" where
  "elected0_cmd = the (run cluster_act (cluster_init 3) (elect0 @ [Client 0 (Some 7)]))"

lemmas cluster_run_defs = cluster_init_def ticker_def startElection_def other_peers_def upt_rec handle_def handle_reply_def
  vote_reply_def becomeLeader_def numeral_nat set_node_def add_calls_def GetState_def

lemma elect0_run:
  "\<exists>s. run cluster_act (cluster_init 3) elect0 = Some s \<and> GetState (cl_node s 0) = (1, True)"
  by (simp add: elect0_def cluster_run_defs run_defs RequestVote_def go_upd_def)

lemma elect0_cmd_run:
  "\<exists>t. run cluster_act (cluster_init 3) (elect0 @ [Client 0 (Some 7)]) = Some t \<and> GetState (cl_node t 0) = (1, True)
     \<and> rf_log (cl_node t 0) = [\<lparr>le_Term = 0, le_Command = None\<rparr>, \<lparr>le_Term = 1, le_Command = Some 7\<rparr>]"
  by (simp add: elect0_def cluster_run_defs run_defs RequestVote_def go_upd_def Start_def)

lemma run_append: "run act s (as @ bs) = (case run act s as of None \<Rightarrow> None | Some t \<Rightarrow> run act t bs)"
  by (induction as arbitrary: s) (auto split: option.splits)

lemma elected0_reach:
  "cluster_reach 3 elected0" "reach elected0 cluster_step elected0_cmd"
  "GetState (cl_node elected0 0) = (1, True)" "GetState (cl_node elected0_cmd 0) = (1, True)"
proof -
  obtain s where s: "run cluster_act (cluster_init 3) elect0 = Some s" "GetState (cl_node s 0) = (1, True)"
    using elect0_run by blast
  obtain t where t: "run cluster_act (cluster_init 3) (elect0 @ [Client 0 (Some 7)]) = Some t" "GetState (cl_node t 0) = (1, True)"
    using elect0_cmd_run by blast
  have eq: "elected0 = s" "elected0_cmd = t" using s t by (simp_all add: elected0_def elected0_cmd_def)
  show "cluster_reach 3 elected0" using cluster_run_reach [OF s(1)] eq by simp
  have "run cluster_act s [Client 0 (Some 7)] = Some t" using t(1) s(1) by (simp only: run_append) simp
  then show "reach elected0 cluster_step elected0_cmd"
    unfolding eq by (rule cluster_run_reach)
  show "GetState (cl_node elected0 0) = (1, True)" "GetState (cl_node elected0_cmd 0) = (1, True)" using s t eq by auto
qed

theorem raft_election_safety_witness:
  "cluster_reach 3 elected0 \<and> reach elected0 cluster_step elected0_cmd \<and> GetState (cl_node elected0 0) = (1, True)
   \<and> GetState (cl_node elected0_cmd 1) \<noteq> (1, True) \<and> GetState (cl_node elected0_cmd 2) \<noteq> (1, True)"
  using raft_election_safety [OF elected0_reach(1,2) _ _ elected0_reach(3), of 1]
    raft_election_safety [OF elected0_reach(1,2) _ _ elected0_reach(3), of 2] elected0_reach by auto

text \<open>
  A cluster of one server never has a leader: \<open>startElection\<close> counts votes in the goroutines of its
  requests only, and a single server sends none, so its own vote, a majority, is never counted.
\<close>

theorem raft_single_server_no_leader:
  assumes "cluster_reach 1 s"
  shows "rf_role (cl_node s 0) \<noteq> Leader"
proof
  assume "rf_role (cl_node s 0) = Leader"
  moreover have inv: "cluster_wf s" "vote_inv s" "cl_n s = 1"
    using cluster_reach_inv [OF assms] cluster_n [OF assms] by auto
  ultimately have "elected s 0 (rf_currentTerm (cl_node s 0))" using vote_invD(6) [OF inv(2)] by simp
  then obtain i p where "rv_call s i 0 p (rf_currentTerm (cl_node s 0))" by (auto simp: elected_def)
  then show False using inv(1,3) by (auto simp: rv_call_def cluster_wf_def dest!: nth_mem)
qed

definition single_ticked :: "nat Cluster" where
  "single_ticked = the (run cluster_act (cluster_init 1) [Tick 0 500 0])"

lemma single_ticked_run: "\<exists>s. run cluster_act (cluster_init 1) [Tick 0 500 0] = Some s \<and> rf_role (cl_node s 0) = Candidate"
  by (simp add: cluster_run_defs run_defs)

lemma single_ticked_reach: "cluster_reach 1 single_ticked" "rf_role (cl_node single_ticked 0) = Candidate"
proof -
  obtain s :: "nat Cluster" where s: "run cluster_act (cluster_init 1) [Tick 0 500 0] = Some s" "rf_role (cl_node s 0) = Candidate"
    using single_ticked_run by blast
  then have "single_ticked = s" by (simp only: single_ticked_def option.sel)
  with s cluster_run_reach [OF s(1)] show "cluster_reach 1 single_ticked" "rf_role (cl_node single_ticked 0) = Candidate"
    by simp_all
qed

theorem raft_single_server_no_leader_witness:
  "cluster_reach 1 single_ticked \<and> rf_role (cl_node single_ticked 0) \<noteq> Leader"
  using raft_single_server_no_leader [OF single_ticked_reach(1)] single_ticked_reach(1) by blast

end
