(* ===== verification/RaftSim.thy ===== *)
theory RaftSim
  imports RaftAbs RaftElection
begin

text \<open>
  The cluster of \<open>RaftCluster\<close> implements the abstract protocol of \<open>RaftAbs\<close>: every action of the
  cluster is at most one step of the protocol. A peer's log and snapshot position represent a log without
  snapshots; a call of \<open>AppendEntries\<close> or \<open>InstallSnapshot\<close> represents a message with a prefix of the
  leader's log.
\<close>

subsection \<open>Logs\<close>

definition log_rep :: "'c elog \<Rightarrow> 'c Raft \<Rightarrow> bool" where
  "log_rep F rf \<longleftrightarrow> (\<exists>m d. rf_lastIncludedIndex rf = int m \<and> m \<le> length F \<and> rf_log rf = d # drop m F \<and>
     le_Term d = last_term (take m F) \<and> rf_lastIncludedTerm rf = last_term (take m F))"

lemma log_repE:
  assumes "log_rep F rf"
  obtains m d where "rf_lastIncludedIndex rf = int m" "m \<le> length F" "rf_log rf = d # drop m F"
    "le_Term d = last_term (take m F)" "rf_lastIncludedTerm rf = last_term (take m F)"
  using assms by (auto simp: log_rep_def)

lemma last_term_take: "0 < i \<Longrightarrow> i \<le> length F \<Longrightarrow> last_term (take i F) = le_Term (F ! (i - 1))"
  by (auto simp: last_term_def last_conv_nth min_def)

lemma lastLogIndex_rep: "log_rep F rf \<Longrightarrow> lastLogIndex rf = int (length F)"
  by (erule log_repE) (simp add: lastLogIndex_def of_nat_diff)

lemma last_rep: "log_rep F rf \<Longrightarrow> le_Term (last (rf_log rf)) = last_term F"
  by (erule log_repE) (auto simp: last_term_def)

lemma termAt_rep:
  assumes "log_rep F rf" "rf_lastIncludedIndex rf \<le> int i" "i \<le> length F"
  shows "termAt rf (int i) = Some (last_term (take i F))"
proof -
  obtain m d where m: "rf_lastIncludedIndex rf = int m" "m \<le> length F" "rf_log rf = d # drop m F"
    "le_Term d = last_term (take m F)" using assms(1) by (elim log_repE)
  have "m \<le> i" using assms(2) m(1) by simp
  then obtain k where i: "i = m + k" using le_Suc_ex by blast
  show ?thesis
  proof (cases k)
    case 0
    then show ?thesis using m i by (simp add: termAt_def go_nth_def)
  next
    case (Suc k')
    then have "last_term (take i F) = le_Term (F ! (m + k'))" using assms(3) i by (subst last_term_take) simp_all
    then show ?thesis using m assms(3) i Suc by (simp add: termAt_def go_nth_def nat_add_distrib)
  qed
qed

lemma termAt_rep_Some:
  assumes "log_rep F rf" "termAt rf i = Some t"
  shows "rf_lastIncludedIndex rf \<le> i" "0 \<le> i" "nat i \<le> length F" "t = last_term (take (nat i) F)"
proof -
  obtain m d where m: "rf_lastIncludedIndex rf = int m" "m \<le> length F" "rf_log rf = d # drop m F"
    using assms(1) by (elim log_repE)
  from assms(2) have r: "rf_lastIncludedIndex rf \<le> i \<and> i \<le> lastLogIndex rf"
    using termAt_Some_iff [of rf i] by auto
  then show a: "rf_lastIncludedIndex rf \<le> i" "0 \<le> i" "nat i \<le> length F"
    using m lastLogIndex_rep [OF assms(1)] by auto
  show "t = last_term (take (nat i) F)" using termAt_rep [OF assms(1), of "nat i"] a assms(2) by simp
qed

text \<open>Merging the entries of a leader's log after an agreed prefix is taking the log over.\<close>

lemma merge_take_over:
  assumes "good a F" "good a H" "m \<le> p" "p \<le> length F" "p \<le> length H" "take p F = take p H"
  shows "merge (d # drop m F) (Suc (p - m)) (drop p H) = d # drop m (take_over F H)"
  using assms(3-6)
proof (induction "length H - p" arbitrary: p)
  case 0
  then have "drop p H = []" "is_prefix H F" by (auto simp: is_prefix_def)
  then show ?case by (simp add: take_over_def)
next
  case (Suc n)
  then have p: "p < length H" by simp
  then have H: "drop p H = H ! p # drop (Suc p) H" by (simp add: Cons_nth_drop_Suc)
  show ?case
  proof (cases "p < length F \<and> le_Term (F ! p) = le_Term (H ! p)")
    case True
    then have t: "take (Suc p) F = take (Suc p) H" using good_match [OF assms(1,2)] p by simp
    have "merge (d # drop m F) (Suc (Suc p - m)) (drop (Suc p) H) = d # drop m (take_over F H)"
      by (rule Suc.hyps(1)) (use Suc.prems Suc.hyps(2) True p t in auto)
    then show ?thesis unfolding H using True Suc.prems diff_less_mono [of p "length F" m] by (simp add: Suc_diff_le)
  next
    case False
    have np: "\<not> is_prefix H F"
    proof
      assume "is_prefix H F"
      then show False using False p is_prefix_nth [of H F p] is_prefix_length [of H F] by simp
    qed
    have "take (p - m) (drop m F) = drop m (take p H)" using Suc.prems(1,4) by (simp add: take_drop)
    then have "take (p - m) (drop m F) @ drop p H = drop m H"
      using Suc.prems(1) p by (metis append_take_drop_id drop_append length_take min.absorb2 less_imp_le diff_is_0_eq drop_0)
    then show ?thesis unfolding H using False np Suc.prems by (auto simp: take_over_def)
  qed
qed


subsection \<open>The simulation relation\<close>

definition node_sim :: "'c ARaft \<Rightarrow> nat \<Rightarrow> 'c Raft \<Rightarrow> bool" where
  "node_sim a j rf \<longleftrightarrow>
     ar_term a j = rf_currentTerm rf \<and> log_rep (ar_log a j) rf \<and> rf_commitIndex rf = int (ar_commit a j) \<and>
     rf_lastIncludedIndex rf \<le> rf_commitIndex rf \<and>
     (\<forall>c. (rf_currentTerm rf, c, j) \<in> ar_grants a \<longrightarrow> rf_votedFor rf = int c) \<and>
     (rf_role rf = Candidate \<longrightarrow> (rf_currentTerm rf, j, ar_log a j) \<in> ar_reqs a \<and> (rf_currentTerm rf, j, j) \<in> ar_grants a \<and>
        ar_lead a (rf_currentTerm rf) \<noteq> Some j) \<and>
     (rf_role rf = Leader \<longrightarrow> ar_lead a (rf_currentTerm rf) = Some j \<and>
        length (ar_log a j) \<le> ar_ack a (rf_currentTerm rf) j \<and>
        (\<forall>p < ar_n a. p \<noteq> j \<longrightarrow> rf_matchIndex rf ! p \<le> int (ar_ack a (rf_currentTerm rf) p)))"

definition ae_rep :: "'c elog \<Rightarrow> nat \<Rightarrow> 'c AppendEntriesArgs \<Rightarrow> bool" where
  "ae_rep H lc args \<longleftrightarrow> (\<exists>p. ae_PrevLogIndex args = int p \<and> p \<le> length H \<and> ae_PrevLogTerm args = last_term (take p H) \<and>
     ae_Entries args = drop p H \<and> ae_LeaderCommit args = int lc)"

fun args_sim :: "'c ARaft \<Rightarrow> nat \<Rightarrow> 'c Args \<Rightarrow> bool" where
  "args_sim a j (RV args) = (rv_CandidateId args = int j \<and> (\<exists>H. (rv_Term args, j, H) \<in> ar_reqs a \<and>
     rv_LastLogIndex args = int (length H) \<and> rv_LastLogTerm args = last_term H))"
| "args_sim a j (AE args) = (\<exists>H lc. (ae_Term args, H, lc) \<in> ar_msgs a \<and> ae_rep H lc args)"
| "args_sim a j (IS args) = (\<exists>H. (is_Term args, H, length H) \<in> ar_msgs a \<and>
     is_LastIncludedIndex args = int (length H) \<and> is_LastIncludedTerm args = last_term H)"

text \<open>What a reply of peer \<open>v\<close> to a call of peer \<open>j\<close> says about \<open>v\<close>.\<close>

fun reply_sim :: "'c ARaft \<Rightarrow> nat \<Rightarrow> nat \<Rightarrow> 'c Args \<Rightarrow> Reply \<Rightarrow> bool" where
  "reply_sim a j v (RV args) (RVReply r) = (rvr_VoteGranted r \<longrightarrow> (rv_Term args, j, v) \<in> ar_grants a)"
| "reply_sim a j v (AE args) (AEReply r) =
     (aer_Success r \<longrightarrow> ae_PrevLogIndex args + int (length (ae_Entries args)) \<le> int (ar_ack a (ae_Term args) v))"
| "reply_sim a j v (IS args) (ISReply r) =
     (isr_Term r \<le> is_Term args \<longrightarrow> is_LastIncludedIndex args \<le> int (ar_ack a (is_Term args) v))"
| "reply_sim a j v _ _ = True"

text \<open>A command the service has received is committed at its index, for ever.\<close>

definition msg_sim :: "'c ARaft \<Rightarrow> 'c ApplyMsg \<Rightarrow> bool" where
  "msg_sim a m \<longleftrightarrow> (CommandValid m \<longrightarrow> (\<exists>T xs i. CommandIndex m = int (Suc i) \<and> secure a T xs (Suc i) \<and> Command m = le_Command (xs ! i)))"

definition msgs_of :: "'c Cluster \<Rightarrow> nat \<Rightarrow> 'c ApplyMsg set" where
  "msgs_of s j = set (cl_received s j) \<union> fst ` set_option (cl_sending s j)"

definition sim :: "'c Cluster \<Rightarrow> 'c ARaft \<Rightarrow> bool" where
  "sim s a \<longleftrightarrow> ar_inv a \<and> ar_n a = cl_n s \<and>
     (\<forall>j < cl_n s. node_sim a j (cl_node s j)) \<and>
     (\<forall>c \<in> set (cl_calls s). args_sim a (call_from c) (call_args c)) \<and>
     (\<forall>(i, r) \<in> set (cl_replies s). reply_sim a (call_from (cl_calls s ! i)) (call_to (cl_calls s ! i)) (call_args (cl_calls s ! i)) r) \<and>
     (\<forall>j < cl_n s. \<forall>m \<in> msgs_of s j. msg_sim a m \<and> (CommandValid m \<longrightarrow> CommandIndex m \<le> int (ar_commit a j)))"

lemma simD:
  assumes "sim s a"
  shows "ar_inv a" "ar_n a = cl_n s" "j < cl_n s \<Longrightarrow> node_sim a j (cl_node s j)"
    "c \<in> set (cl_calls s) \<Longrightarrow> args_sim a (call_from c) (call_args c)"
    "(i, r) \<in> set (cl_replies s) \<Longrightarrow> reply_sim a (call_from (cl_calls s ! i)) (call_to (cl_calls s ! i)) (call_args (cl_calls s ! i)) r"
    "j < cl_n s \<Longrightarrow> m \<in> msgs_of s j \<Longrightarrow> msg_sim a m"
    "j < cl_n s \<Longrightarrow> m \<in> msgs_of s j \<Longrightarrow> CommandValid m \<Longrightarrow> CommandIndex m \<le> int (ar_commit a j)"
  using assms unfolding sim_def by (blast | force)+

subsection \<open>Progress keeps what has been said\<close>

definition more :: "'c ARaft \<Rightarrow> 'c ARaft \<Rightarrow> bool" where
  "more a a' \<longleftrightarrow> ext a a' \<and> ar_reqs a \<subseteq> ar_reqs a' \<and> ar_grants a \<subseteq> ar_grants a' \<and> ar_msgs a \<subseteq> ar_msgs a'"

lemma step_more: "ar_inv a \<Longrightarrow> ar_step a a' \<Longrightarrow> more a a'"
  unfolding more_def
  by (rule conjI, erule (1) ar_step_ext) (auto elim: ar_step.cases)

lemma args_sim_more: "more a a' \<Longrightarrow> args_sim a j x \<Longrightarrow> args_sim a' j x"
  by (cases x) (auto simp: more_def, blast)

lemma reply_sim_more:
  assumes "more a a'" "reply_sim a j v x r"
  shows "reply_sim a' j v x r"
proof -
  have "ar_ack a T w \<le> ar_ack a' T w" for T w using assms(1) extD(6) by (auto simp: more_def)
  then have "int (ar_ack a T w) \<le> int (ar_ack a' T w)" for T w by simp
  then show ?thesis using assms by (cases x; cases r) (auto simp: more_def intro: order_trans)
qed

lemma msg_sim_more: "more a a' \<Longrightarrow> msg_sim a m \<Longrightarrow> msg_sim a' m"
  unfolding msg_sim_def more_def using secure_ext [OF _ _ order_refl] by blast

text \<open>A step of another peer.\<close>

definition same_at :: "'c ARaft \<Rightarrow> 'c ARaft \<Rightarrow> nat \<Rightarrow> bool" where
  "same_at a a' k \<longleftrightarrow> ar_term a' k = ar_term a k \<and> ar_log a' k = ar_log a k \<and> ar_commit a' k = ar_commit a k \<and>
     (\<forall>T c. (T, c, k) \<in> ar_grants a' \<longrightarrow> (T, c, k) \<in> ar_grants a) \<and> (\<forall>T. ar_lead a' T = Some k \<longrightarrow> ar_lead a T = Some k)"

lemma node_sim_other:
  assumes "more a a'" "same_at a a' k" "node_sim a k rf"
  shows "node_sim a' k rf"
proof -
  have e: "ext a a'" using assms(1) by (simp add: more_def)
  let ?T = "rf_currentTerm rf"
  have m: "rf_matchIndex rf ! p \<le> int (ar_ack a' ?T p)" if "rf_matchIndex rf ! p \<le> int (ar_ack a ?T p)" for p
    using that extD(6) [OF e, of ?T p] by simp
  have k: "length (ar_log a k) \<le> ar_ack a' ?T k" if "length (ar_log a k) \<le> ar_ack a ?T k"
    using that extD(6) [OF e, of ?T k] by simp
  have eqs: "ar_term a' k = ar_term a k" "ar_log a' k = ar_log a k" "ar_commit a' k = ar_commit a k" "ar_n a' = ar_n a"
    using assms(2) extD(1) [OF e] by (auto simp: same_at_def)
  show ?thesis unfolding node_sim_def eqs
    using assms m k extD(2) [OF e, of ?T k] unfolding node_sim_def same_at_def more_def by blast
qed

text \<open>An action that changes peer \<open>j\<close>, makes calls and records replies.\<close>

lemma sim_update:
  assumes "sim s a" "ar_step a a'" "cl_n t = cl_n s"
    and "\<And>k. k < cl_n s \<Longrightarrow> k \<noteq> j \<Longrightarrow> same_at a a' k \<and> cl_node t k = cl_node s k \<and> msgs_of t k = msgs_of s k"
    and "j < cl_n s \<Longrightarrow> node_sim a' j (cl_node t j)"
    and "cl_calls t = cl_calls s @ cs" "\<And>c. c \<in> set cs \<Longrightarrow> args_sim a' (call_from c) (call_args c)"
    and "cl_replies t = cl_replies s @ rs" "fst ` set (cl_replies s) \<subseteq> {..<length (cl_calls s)}"
    and "\<And>i r. (i, r) \<in> set rs \<Longrightarrow> i < length (cl_calls s) \<and>
      reply_sim a' (call_from (cl_calls s ! i)) (call_to (cl_calls s ! i)) (call_args (cl_calls s ! i)) r"
    and "\<And>m. j < cl_n s \<Longrightarrow> m \<in> msgs_of t j \<Longrightarrow>
      (m \<in> msgs_of s j \<and> ar_commit a j \<le> ar_commit a' j) \<or> msg_sim a' m \<and> (CommandValid m \<longrightarrow> CommandIndex m \<le> int (ar_commit a' j))"
  shows "sim t a'"
proof -
  note S = simD [OF assms(1)]
  have m: "more a a'" by (rule step_more [OF S(1) assms(2)])
  have n: "ar_n a' = ar_n a" using m by (simp add: more_def ext_def)
  show ?thesis unfolding sim_def
  proof (intro conjI allI impI ballI)
    show "ar_inv a'" by (rule ar_inv_step [OF S(1) assms(2)])
    show "ar_n a' = cl_n t" using n S(2) assms(3) by simp
    show "node_sim a' k (cl_node t k)" if "k < cl_n t" for k
      using that assms(3,4) assms(5) node_sim_other [OF m _ S(3)] by (cases "k = j") auto
    show "args_sim a' (call_from c) (call_args c)" if "c \<in> set (cl_calls t)" for c
      using that assms(6,7) args_sim_more [OF m S(4)] by auto
    show "case x of (i, r) \<Rightarrow> reply_sim a' (call_from (cl_calls t ! i)) (call_to (cl_calls t ! i)) (call_args (cl_calls t ! i)) r"
      if mem: "x \<in> set (cl_replies t)" for x
    proof (cases x)
      case (Pair i r)
      then consider "(i, r) \<in> set (cl_replies s)" | "(i, r) \<in> set rs" using mem assms(8) by auto
      then have "i < length (cl_calls s) \<and>
        reply_sim a' (call_from (cl_calls s ! i)) (call_to (cl_calls s ! i)) (call_args (cl_calls s ! i)) r"
        using reply_sim_more [OF m S(5)] assms(9,10) by cases force+
      then show ?thesis using Pair assms(6) by (simp add: nth_append)
    qed
    fix k x assume k: "k < cl_n t" "x \<in> msgs_of t k"
    show "msg_sim a' x"
      using k assms(3,4) assms(11) [of x] msg_sim_more [OF m S(6)] by (cases "k = j") auto
    assume "CommandValid x"
    then show "CommandIndex x \<le> int (ar_commit a' k)"
      using k assms(3,4) assms(11) [of x] S(7) [of k x] by (cases "k = j") (auto simp: same_at_def)
  qed
qed


subsection \<open>Steps of one peer\<close>

definition peer_step :: "'c ARaft \<Rightarrow> nat \<Rightarrow> 'c ARaft \<Rightarrow> bool" where
  "peer_step a v a' \<longleftrightarrow> ar_step a a' \<and> (\<forall>k. k \<noteq> v \<longrightarrow> same_at a a' k) \<and> ar_commit a v \<le> ar_commit a' v"

lemma peer_stutter: "peer_step a v a"
  by (simp add: peer_step_def ar_step.stutter same_at_def)

lemma peer_newterm: "v < ar_n a \<Longrightarrow> ar_term a v \<le> T \<Longrightarrow> peer_step a v (a\<lparr>ar_term := (ar_term a)(v := T)\<rparr>)"
  unfolding peer_step_def by (intro conjI ar_step.newterm) (simp_all add: same_at_def)

lemma peer_grant:
  assumes "v < ar_n a" "(T, c, H) \<in> ar_reqs a" "ar_term a v \<le> T" "log_up_to_date H (ar_log a v)"
    "\<And>c'. (T, c', v) \<in> ar_grants a \<Longrightarrow> c' = c"
  shows "peer_step a v (a\<lparr>ar_term := (ar_term a)(v := T), ar_grants := insert (T, c, v) (ar_grants a)\<rparr>)"
  unfolding peer_step_def by (intro conjI ar_step.grant [OF assms]) (simp_all add: same_at_def)

lemma peer_recv:
  assumes "v < ar_n a" "(T, H, lc) \<in> ar_msgs a" "ar_term a v \<le> T"
  shows "peer_step a v (a\<lparr>ar_term := (ar_term a)(v := T), ar_log := (ar_log a)(v := take_over (ar_log a v) H),
      ar_ack := (ar_ack a)(T := (ar_ack a T)(v := max (ar_ack a T v) (length H))),
      ar_commit := (ar_commit a)(v := max (ar_commit a v) lc)\<rparr>)"
  unfolding peer_step_def by (intro conjI ar_step.recv [OF assms]) (simp_all add: same_at_def)

lemma ar_inv_votes: "ar_inv a \<Longrightarrow> inv_votes a" and ar_inv_logs: "ar_inv a \<Longrightarrow> inv_logs a"
  and ar_inv_keep: "ar_inv a \<Longrightarrow> inv_keep a"
  by (simp_all add: ar_inv_def)

lemma log_rep_cong:
  "rf_log rf' = rf_log rf \<Longrightarrow> rf_lastIncludedIndex rf' = rf_lastIncludedIndex rf \<Longrightarrow> rf_lastIncludedTerm rf' = rf_lastIncludedTerm rf \<Longrightarrow>
     log_rep F rf' = log_rep F rf"
  by (simp add: log_rep_def)

lemma node_simD:
  assumes "node_sim a j rf"
  shows "ar_term a j = rf_currentTerm rf" "log_rep (ar_log a j) rf" "rf_commitIndex rf = int (ar_commit a j)"
    "rf_lastIncludedIndex rf \<le> rf_commitIndex rf" "(rf_currentTerm rf, c, j) \<in> ar_grants a \<Longrightarrow> rf_votedFor rf = int c"
    "rf_role rf = Candidate \<Longrightarrow> (rf_currentTerm rf, j, ar_log a j) \<in> ar_reqs a"
    "rf_role rf = Candidate \<Longrightarrow> (rf_currentTerm rf, j, j) \<in> ar_grants a"
    "rf_role rf = Candidate \<Longrightarrow> ar_lead a (rf_currentTerm rf) \<noteq> Some j"
    "rf_role rf = Leader \<Longrightarrow> ar_lead a (rf_currentTerm rf) = Some j"
    "rf_role rf = Leader \<Longrightarrow> length (ar_log a j) \<le> ar_ack a (rf_currentTerm rf) j"
    "rf_role rf = Leader \<Longrightarrow> p < ar_n a \<Longrightarrow> p \<noteq> j \<Longrightarrow> rf_matchIndex rf ! p \<le> int (ar_ack a (rf_currentTerm rf) p)"
  using assms unfolding node_sim_def by blast+

text \<open>Changes that the relation does not look at.\<close>

lemma node_sim_cong:
  assumes "node_sim a j rf" "rf_currentTerm rf' = rf_currentTerm rf" "rf_log rf' = rf_log rf"
    "rf_lastIncludedIndex rf' = rf_lastIncludedIndex rf" "rf_lastIncludedTerm rf' = rf_lastIncludedTerm rf"
    "rf_commitIndex rf' = rf_commitIndex rf" "rf_votedFor rf' = rf_votedFor rf"
    "rf_role rf' = Follower \<or> rf_role rf' = rf_role rf \<and> rf_matchIndex rf' = rf_matchIndex rf"
  shows "node_sim a j rf'"
  using assms log_rep_cong [OF assms(3-5), of "ar_log a j"] unfolding node_sim_def by (metis Role.distinct(1,3))

text \<open>A peer that has become a follower of a new term.\<close>

lemma node_sim_newterm:
  assumes "ar_inv a" "node_sim a j rf" "rf_currentTerm rf < T"
    and "rf_currentTerm rf' = T" "rf_log rf' = rf_log rf" "rf_lastIncludedIndex rf' = rf_lastIncludedIndex rf"
    "rf_lastIncludedTerm rf' = rf_lastIncludedTerm rf" "rf_commitIndex rf' = rf_commitIndex rf" "rf_role rf' = Follower"
  shows "node_sim (a\<lparr>ar_term := (ar_term a)(j := T)\<rparr>) j rf'"
proof -
  have "(T, c, j) \<notin> ar_grants a" for c
    using inv_votesD(3) [OF ar_inv_votes [OF assms(1)], of T c j] node_simD(1) [OF assms(2)] assms(3) by auto
  then show ?thesis using assms log_rep_cong [OF assms(5-7), of "ar_log a j"] by (simp add: node_sim_def)
qed

lemma node_sim_becomeFollower:
  assumes "ar_inv a" "node_sim a j rf" "rf_currentTerm rf < T"
  shows "node_sim (a\<lparr>ar_term := (ar_term a)(j := T)\<rparr>) j (becomeFollower rf T)"
  by (rule node_sim_newterm [OF assms]) (use assms(3) in simp_all)

text \<open>\<open>RequestVote\<close> refuses, or grants the vote.\<close>

lemma RequestVote_sim:
  assumes "ar_inv a" "node_sim a v rf" "v < ar_n a" "raft_wf rf" "args_sim a c (RV args)"
    "RequestVote time rf args = Some (rf', r)"
  shows "\<exists>a'. peer_step a v a' \<and> node_sim a' v rf' \<and> reply_sim a' c v (RV args) (RVReply r)"
proof -
  note N = node_simD [OF assms(2)] and D = inv_votesD [OF ar_inv_votes [OF assms(1)]]
  let ?T = "rv_Term args" and ?rf = "seen_term rf (rv_Term args)"
  obtain H where H: "rv_CandidateId args = int c" "(?T, c, H) \<in> ar_reqs a" "rv_LastLogIndex args = int (length H)"
    "rv_LastLogTerm args = last_term H" using assms(5) by auto
  consider (stale) "?T < rf_currentTerm rf" "rf' = rf" "\<not> rvr_VoteGranted r"
    | (refuse) "rf_currentTerm rf \<le> ?T" "rf' = ?rf" "\<not> rvr_VoteGranted r"
    | (grant) "rf_currentTerm rf \<le> ?T" "grants ?rf args"
        "rf' = persist (?rf\<lparr>rf_votedFor := rv_CandidateId args, rf_lastHeardAt := time\<rparr>)"
    using assms(6) by (auto simp: RequestVote_eq [OF assms(4)] Let_def split: if_splits)
  then show ?thesis
  proof cases
    case stale
    then show ?thesis using peer_stutter [of a v] assms(2) by auto
  next
    case refuse
    show ?thesis
    proof (cases "rf_currentTerm rf = ?T")
      case True
      then show ?thesis using peer_stutter [of a v] assms(2) refuse by (auto simp: seen_term_def)
    next
      case False
      then show ?thesis
        using peer_newterm [OF assms(3), of ?T] node_sim_becomeFollower [OF assms(1,2), of ?T] N(1) refuse
        by (auto simp: seen_term_def)
    qed
  next
    case grant
    let ?a = "a\<lparr>ar_term := (ar_term a)(v := ?T), ar_grants := insert (?T, c, v) (ar_grants a)\<rparr>"
    have upd: "log_up_to_date H (ar_log a v)"
      using grant(2) H(3,4) lastLogIndex_rep [OF N(2)] last_rep [OF N(2)]
      by (auto simp: grants_def up_to_date_def log_up_to_date_def)
    have once: "c' = c" if "(?T, c', v) \<in> ar_grants a" for c'
    proof -
      have "?T = rf_currentTerm rf" using D(3) [OF that] N(1) grant(1) by simp
      then have "rf_votedFor rf = int c'" "?rf = rf" using that N(5) by (auto simp: seen_term_def)
      then show ?thesis using grant(2) H(1) by (simp add: grants_def)
    qed
    have "peer_step a v ?a"
      by (rule peer_grant [OF assms(3) H(2)]) (use N(1) grant(1) upd once in auto)
    moreover have "node_sim ?a v rf'"
    proof (cases "rf_currentTerm rf = ?T")
      case True
      then have "?rf = rf" by (simp add: seen_term_def)
      with grant(3) show ?thesis
        using assms(2) True once H(1) log_rep_cong [of rf' rf "ar_log a v"] by (auto simp: node_sim_def)
    next
      case False
      then have lt: "rf_currentTerm rf < ?T" using grant(1) by simp
      have "node_sim (a\<lparr>ar_term := (ar_term a)(v := ?T)\<rparr>) v ?rf"
        using node_sim_becomeFollower [OF assms(1,2) lt] lt by (simp add: seen_term_def)
      with grant(3) lt show ?thesis
        using once H(1) log_rep_cong [of rf' ?rf "ar_log a v"] by (auto simp: node_sim_def seen_term_def)
    qed
    moreover have "reply_sim ?a c v (RV args) (RVReply r)" by simp
    ultimately show ?thesis by blast
  qed
qed


text \<open>A leader's log agrees with the committed part of every peer's log.\<close>

lemma msg_commit:
  assumes "ar_inv a" "(T, H, lc) \<in> ar_msgs a" "ar_term a v \<le> T" "m \<le> ar_commit a v" "m \<le> length H"
  shows "take m (ar_log a v) = take m H"
proof -
  note L = inv_logsD(5,6) [OF ar_inv_logs [OF assms(1)] assms(2)]
  have c: "take (ar_commit a v) (ar_log a v) = take (ar_commit a v) (ar_llog a T)"
    by (rule secure_lead [OF ar_inv_votes [OF assms(1)] ar_inv_keep [OF assms(1)] ar_log_secure [OF assms(1)] assms(3) L(1)])
  show ?thesis using take_eq_le [OF c assms(4)] is_prefix_takeD [OF L(2) assms(5)] by simp
qed

lemma msg_prefix:
  assumes "ar_inv a" "(T, H, lc) \<in> ar_msgs a" "ar_term a v \<le> T" "length H \<le> ar_commit a v"
  shows "take_over (ar_log a v) H = ar_log a v"
  using msg_commit [OF assms order_refl] by (simp add: take_over_def is_prefix_def)

lemma node_sim_recv:
  assumes "ar_inv a" "node_sim a v rf" "(T, H, lc) \<in> ar_msgs a" "rf_currentTerm rf \<le> T"
    and "rf_currentTerm rf' = T" "rf_role rf' = Follower" "log_rep (take_over (ar_log a v) H) rf'"
    "rf_commitIndex rf' = max (rf_commitIndex rf) (int lc)" "rf_lastIncludedIndex rf' \<le> rf_commitIndex rf'"
    "rf_currentTerm rf = T \<Longrightarrow> rf_votedFor rf' = rf_votedFor rf"
  shows "node_sim (a\<lparr>ar_term := (ar_term a)(v := T), ar_log := (ar_log a)(v := take_over (ar_log a v) H),
      ar_ack := (ar_ack a)(T := (ar_ack a T)(v := max (ar_ack a T v) (length H))),
      ar_commit := (ar_commit a)(v := max (ar_commit a v) lc)\<rparr>) v rf'"
proof -
  note N = node_simD [OF assms(2)]
  have "rf_votedFor rf' = int c" if "(T, c, v) \<in> ar_grants a" for c
  proof -
    have "T = rf_currentTerm rf"
      using inv_votesD(3) [OF ar_inv_votes [OF assms(1)] that] N(1) assms(4) by simp
    then show ?thesis using N(5) that assms(10) by simp
  qed
  then show ?thesis using assms N(3) by (simp add: node_sim_def)
qed

lemma hear_leader_vote: "rf_currentTerm rf = T \<Longrightarrow> rf_votedFor (hear_leader time rf T) = rf_votedFor rf"
  by (simp add: hear_leader_def seen_term_def)

lemma votedFor_simps [simp]:
  "rf_votedFor (ae_commit rf c) = rf_votedFor rf" "rf_votedFor (ae_merged rf args) = rf_votedFor rf"
  "rf_votedFor (is_installed rf iargs) = rf_votedFor rf"
  by (simp_all add: ae_commit_def ae_merged_def is_installed_def persistWithSnapshot_def Let_def)

lemma node_sim_hear:
  assumes "ar_inv a" "node_sim a v rf" "v < ar_n a" "rf_currentTerm rf \<le> T"
  shows "\<exists>a'. peer_step a v a' \<and> node_sim a' v (hear_leader time rf T)"
proof (cases "rf_currentTerm rf = T")
  case True
  have "node_sim a v (hear_leader time rf T)"
    by (rule node_sim_cong [OF assms(2)]) (use True hear_leader_vote [OF True] in simp_all)
  then show ?thesis using peer_stutter by blast
next
  case False
  have "node_sim (a\<lparr>ar_term := (ar_term a)(v := T)\<rparr>) v (hear_leader time rf T)"
    by (rule node_sim_newterm [OF assms(1,2)]) (use assms(4) False in auto)
  moreover have "peer_step a v (a\<lparr>ar_term := (ar_term a)(v := T)\<rparr>)"
    by (rule peer_newterm [OF assms(3)]) (use assms(4) node_simD(1) [OF assms(2)] in simp)
  ultimately show ?thesis by blast
qed

text \<open>An accepted \<open>AppendEntries\<close> takes over the leader's log.\<close>

lemma ae_merged_rep:
  assumes "ar_inv a" "node_sim a v rf" "(T, H, lc) \<in> ar_msgs a" "ae_rep H lc args" "rf_currentTerm rf \<le> T"
    "\<not> ae_covered rf args" "ae_matches rf (ae_trim rf args)"
  shows "log_rep (take_over (ar_log a v) H) (ae_merged (hear_leader time rf T) (ae_trim rf args))"
proof -
  note N = node_simD [OF assms(2)] and L = ar_inv_logs [OF assms(1)]
  let ?F = "ar_log a v"
  obtain m d where m: "rf_lastIncludedIndex rf = int m" "m \<le> length ?F" "rf_log rf = d # drop m ?F"
    "le_Term d = last_term (take m ?F)" "rf_lastIncludedTerm rf = last_term (take m ?F)" using N(2) by (elim log_repE)
  obtain p where p: "ae_PrevLogIndex args = int p" "p \<le> length H" "ae_PrevLogTerm args = last_term (take p H)"
    "ae_Entries args = drop p H" using assms(4) by (auto simp: ae_rep_def)
  have good: "good a ?F" "good a H"
    using inv_logsD(1,3) [OF L] good_prefix [OF _ inv_logsD(6) [OF L assms(3)]] by blast+
  have mc: "m \<le> ar_commit a v" using N(3,4) m(1) by simp
  have t: "ar_term a v \<le> T" using N(1) assms(5) by simp
  have len: "m \<le> length H" using assms(6) m(1) p by (auto simp: ae_covered_def)
  have take_m: "take m ?F = take m H" by (rule msg_commit [OF assms(1,3) t mc len])
  have "\<exists>q. ae_PrevLogIndex (ae_trim rf args) = int q \<and> ae_Entries (ae_trim rf args) = drop q H \<and> m \<le> q \<and> q \<le> length ?F \<and>
    q \<le> length H \<and> take q ?F = take q H"
  proof (cases "p < m")
    case True
    then have "ae_PrevLogIndex (ae_trim rf args) = int m" "ae_Entries (ae_trim rf args) = drop m H"
      using p m(1) by (auto simp: ae_trim_def nat_diff_distrib')
    then show ?thesis using m(2) len take_m by blast
  next
    case False
    then have tr: "ae_trim rf args = args" using p m(1) by (simp add: ae_trim_def)
    then have "termAt rf (int p) = Some (last_term (take p H))" using assms(7) p by (simp add: ae_matches_def)
    note T = termAt_rep_Some [OF N(2) this]
    have pF: "p \<le> length ?F" and eq: "last_term (take p H) = last_term (take p ?F)" using T(3,4) by simp_all
    have "take p ?F = take p H"
    proof (cases p)
      case (Suc i)
      then have "le_Term (?F ! i) = le_Term (H ! i)" using eq pF p(2) last_term_take [of p ?F] last_term_take [of p H] by simp
      then show ?thesis using good_match [OF good, of i] pF p(2) Suc by simp
    qed simp
    then show ?thesis using tr p pF False by auto
  qed
  then obtain q where q: "ae_PrevLogIndex (ae_trim rf args) = int q" "ae_Entries (ae_trim rf args) = drop q H" "m \<le> q"
    "q \<le> length ?F" "q \<le> length H" "take q ?F = take q H" by blast
  have log: "rf_log (ae_merged (hear_leader time rf T) (ae_trim rf args)) = d # drop m (take_over ?F H)"
    using merge_take_over [OF good q(3-6), of d] q(1,2) m(1,3) by (simp add: ae_merged_def nat_diff_distrib')
  have tm: "take m (take_over ?F H) = take m ?F"
    using take_m by (simp add: take_over_def)
  have "m \<le> length (take_over ?F H)" using m(2) len by (simp add: take_over_def)
  then show ?thesis using log m tm by (auto simp: log_rep_def)
qed

lemma AppendEntries_sim:
  assumes "ar_inv a" "node_sim a v rf" "v < ar_n a" "raft_wf rf" "args_sim a c (AE args)"
    "AppendEntries time rf args = Some (rf', r)"
  shows "\<exists>a'. peer_step a v a' \<and> node_sim a' v rf' \<and> reply_sim a' c v (AE args) (AEReply r)"
proof -
  note N = node_simD [OF assms(2)]
  let ?T = "ae_Term args" and ?F = "ar_log a v"
  obtain H lc where H: "(?T, H, lc) \<in> ar_msgs a" "ae_rep H lc args" using assms(5) by auto
  have lc: "lc \<le> length H" by (rule inv_logsD(7) [OF ar_inv_logs [OF assms(1)] H(1)])
  obtain p where p: "ae_PrevLogIndex args = int p" "p \<le> length H" "ae_Entries args = drop p H" "ae_LeaderCommit args = int lc"
    using H(2) by (auto simp: ae_rep_def)
  let ?a = "a\<lparr>ar_term := (ar_term a)(v := ?T), ar_log := (ar_log a)(v := take_over ?F H),
      ar_ack := (ar_ack a)(?T := (ar_ack a ?T)(v := max (ar_ack a ?T v) (length H))),
      ar_commit := (ar_commit a)(v := max (ar_commit a v) lc)\<rparr>"
  have rs: "reply_sim ?a c v (AE args) (AEReply r)" using p by simp
  have ps: "peer_step a v ?a" if "rf_currentTerm rf \<le> ?T" by (rule peer_recv [OF assms(3) H(1)]) (use that N(1) in simp)
  from assms(6) show ?thesis
  proof (cases rule: AppendEntries_cases)
    case stale
    then show ?thesis using peer_stutter [of a v] assms(2) by auto
  next
    case covered
    have short: "length H \<le> ar_commit a v" using covered(2) p N(3,4) by (auto simp: ae_covered_def)
    have to: "take_over ?F H = ?F" by (rule msg_prefix [OF assms(1) H(1) _ short]) (use covered(1) N(1) in simp)
    have "length H \<le> length ?F" using to take_over_cases [of ?F H] is_prefix_length [of H ?F] by auto
    then have "node_sim ?a v rf'"
      using covered(1,3) N(2-4) lc p(4) to log_rep_cong [of rf' rf ?F]
      by (intro node_sim_recv [OF assms(1,2) H(1)]) (auto simp: hear_leader_vote lastLogIndex_rep [OF N(2)])
    with ps rs covered(1) show ?thesis by blast
  next
    case merged
    note rep = ae_merged_rep [OF assms(1,2) H merged(1-3), of time]
    have "length H \<le> length (take_over ?F H)"
      using take_over_cases [of ?F H] is_prefix_length [of H ?F] by auto
    then have "node_sim ?a v rf'"
      using merged(1,4) N(2-4) lc p(4) lastLogIndex_rep [OF rep] rep
        log_rep_cong [of rf' "ae_merged (hear_leader time rf ?T) (ae_trim rf args)" "take_over ?F H"]
      by (intro node_sim_recv [OF assms(1,2) H(1)]) (auto simp: hear_leader_vote)
    with ps rs merged(1) show ?thesis by blast
  next
    case short
    then show ?thesis using node_sim_hear [OF assms(1-3) short(1)] by auto
  next
    case (conflict t k)
    then show ?thesis using node_sim_hear [OF assms(1-3) conflict(1)] by auto
  qed
qed


text \<open>An \<open>InstallSnapshot\<close> takes over the prefix that the snapshot stands for.\<close>

lemma is_log_rep:
  assumes "ar_inv a" "node_sim a v rf" "(T, H, lc) \<in> ar_msgs a" "is_LastIncludedIndex args = int (length H)"
    "is_LastIncludedTerm args = last_term H" "rf_lastIncludedIndex rf < int (length H)"
    "rf_log rf' = is_log rf args" "rf_lastIncludedIndex rf' = int (length H)" "rf_lastIncludedTerm rf' = last_term H"
  shows "log_rep (take_over (ar_log a v) H) rf'"
proof -
  note N = node_simD [OF assms(2)] and L = ar_inv_logs [OF assms(1)]
  let ?F = "ar_log a v"
  obtain m d where m: "rf_lastIncludedIndex rf = int m" "m \<le> length ?F" "rf_log rf = d # drop m ?F"
    using N(2) by (elim log_repE)
  have good: "good a ?F" "good a H"
    using inv_logsD(1,3) [OF L] good_prefix [OF _ inv_logsD(6) [OF L assms(3)]] by blast+
  have mH: "m < length H" using assms(6) m(1) by simp
  show ?thesis
  proof (cases "termAt rf (int (length H)) = Some (last_term H)")
    case True
    from termAt_rep_Some(3,4) [OF N(2) True]
    have le: "length H \<le> length ?F" and lt: "last_term H = last_term (take (length H) ?F)" by simp_all
    then have "le_Term (?F ! (length H - 1)) = le_Term (H ! (length H - 1))"
      using mH last_term_take [of "length H" ?F] last_term_take [of "length H" H] by (cases H) simp_all
    then have "take (length H) ?F = H" using good_match [OF good, of "length H - 1"] mH le by (cases H) simp_all
    then have "take_over ?F H = ?F" by (simp add: take_over_def is_prefix_def)
    moreover have "rf_log rf' = \<lparr>le_Term = last_term H, le_Command = None\<rparr> # drop (length H) ?F"
      using True assms(4,5,7) m mH by (simp add: is_log_def nat_diff_distrib')
    ultimately show ?thesis using assms(8,9) le lt by (auto simp: log_rep_def)
  next
    case False
    have "\<not> is_prefix H ?F"
      using False termAt_rep [OF N(2), of "length H"] is_prefix_length [of H ?F] assms(6) by (auto simp: is_prefix_def)
    then show ?thesis using assms(4,5,7,8,9) False by (auto simp: take_over_def log_rep_def is_log_def)
  qed
qed

lemma is_installed_simps:
  "rf_log (is_installed rf args) = is_log rf args" "rf_lastIncludedIndex (is_installed rf args) = is_LastIncludedIndex args"
  "rf_lastIncludedTerm (is_installed rf args) = is_LastIncludedTerm args" "rf_currentTerm (is_installed rf args) = rf_currentTerm rf"
  "rf_role (is_installed rf args) = rf_role rf"
  "rf_commitIndex (is_installed rf args) = max (rf_commitIndex rf) (is_LastIncludedIndex args)"
  by (simp_all add: is_installed_def persistWithSnapshot_def)

lemma is_log_cong: "rf_log rf' = rf_log rf \<Longrightarrow> rf_lastIncludedIndex rf' = rf_lastIncludedIndex rf \<Longrightarrow> is_log rf' args = is_log rf args"
  by (auto simp: is_log_def termAt_def)

lemma InstallSnapshot_sim:
  assumes "ar_inv a" "node_sim a v rf" "v < ar_n a" "raft_wf rf" "args_sim a c (IS args)"
    "InstallSnapshot time rf (wire_data args) = Some (rf', r)"
  shows "\<exists>a'. peer_step a v a' \<and> node_sim a' v rf' \<and> reply_sim a' c v (IS args) (ISReply r)"
proof -
  note N = node_simD [OF assms(2)]
  let ?T = "is_Term args" and ?F = "ar_log a v" and ?w = "wire_data args"
  obtain H where H: "(?T, H, length H) \<in> ar_msgs a" "is_LastIncludedIndex args = int (length H)"
    "is_LastIncludedTerm args = last_term H" using assms(5) by auto
  let ?a = "a\<lparr>ar_term := (ar_term a)(v := ?T), ar_log := (ar_log a)(v := take_over ?F H),
      ar_ack := (ar_ack a)(?T := (ar_ack a ?T)(v := max (ar_ack a ?T v) (length H))),
      ar_commit := (ar_commit a)(v := max (ar_commit a v) (length H))\<rparr>"
  have rs: "reply_sim ?a c v (IS args) (ISReply r)" using H(2) by simp
  have wd: "is_Term ?w = ?T" "is_LastIncludedIndex ?w = int (length H)" "is_LastIncludedTerm ?w = last_term H"
    using H by (simp_all add: wire_data_def)
  let ?rf = "hear_leader time rf ?T"
  consider (stale) "?T < rf_currentTerm rf" "rf' = rf" "isr_Term r = rf_currentTerm rf"
    | (old) "rf_currentTerm rf \<le> ?T" "int (length H) \<le> rf_lastIncludedIndex rf" "rf' = ?rf"
    | (new) "rf_currentTerm rf \<le> ?T" "rf_lastIncludedIndex rf < int (length H)" "rf' = is_installed ?rf ?w"
    using assms(6) wd by (fastforce simp: InstallSnapshot_eq Let_def split: if_splits)
  then show ?thesis
  proof cases
    case stale
    then show ?thesis using peer_stutter [of a v] assms(2) by auto
  next
    case old
    have ps: "peer_step a v ?a" by (rule peer_recv [OF assms(3) H(1)]) (use old(1) N(1) in simp)
    have short: "length H \<le> ar_commit a v" using old(2) N(3,4) by simp
    have to: "take_over ?F H = ?F" by (rule msg_prefix [OF assms(1) H(1) _ short]) (use old(1) N(1) in simp)
    have "node_sim ?a v rf'"
      using old N(2-4) to short log_rep_cong [of rf' rf ?F]
      by (intro node_sim_recv [OF assms(1,2) H(1)]) (auto simp: hear_leader_vote)
    with ps rs show ?thesis by blast
  next
    case new
    have ps: "peer_step a v ?a" by (rule peer_recv [OF assms(3) H(1)]) (use new(1) N(1) in simp)
    have "log_rep (take_over ?F H) rf'"
      by (rule is_log_rep [OF assms(1,2) H(1) wd(2,3) new(2)])
        (use new(3) wd is_log_cong [of ?rf rf] in \<open>simp_all add: is_installed_simps\<close>)
    then have "node_sim ?a v rf'"
      using new N(2-4) wd by (intro node_sim_recv [OF assms(1,2) H(1)]) (auto simp: hear_leader_vote is_installed_simps)
    with ps rs show ?thesis by blast
  qed
qed

text \<open>Together: a delivered call.\<close>

lemma handle_sim:
  assumes "ar_inv a" "node_sim a v rf" "v < ar_n a" "raft_wf rf" "args_sim a c x" "handle time rf x = Some (rf', r)"
  shows "\<exists>a'. peer_step a v a' \<and> node_sim a' v rf' \<and> reply_sim a' c v x r"
proof (cases x)
  case (RV args)
  then show ?thesis using assms RequestVote_sim [OF assms(1-4), of c args time rf'] by (auto simp: handle_def)
next
  case (AE args)
  then show ?thesis using assms AppendEntries_sim [OF assms(1-4), of c args time rf'] by (auto simp: handle_def)
next
  case (IS args)
  then show ?thesis using assms InstallSnapshot_sim [OF assms(1-4), of c args time rf'] by (auto simp: handle_def)
qed


subsection \<open>Elections and replication\<close>

lemma peer_candidate:
  assumes "c < ar_n a" "T = ar_term a c + 1"
  shows "peer_step a c (a\<lparr>ar_term := (ar_term a)(c := T), ar_reqs := insert (T, c, ar_log a c) (ar_reqs a),
      ar_grants := insert (T, c, c) (ar_grants a)\<rparr>)"
  unfolding peer_step_def by (intro conjI ar_step.candidate [OF assms]) (simp_all add: same_at_def)

lemma startElection_sim:
  assumes "ar_inv a" "node_sim a j rf" "j < ar_n a" "raft_wf rf" "rf_me rf = int j"
    "startElection time rand rf = Some (rf', args)"
  shows "\<exists>a'. peer_step a j a' \<and> node_sim a' j rf' \<and> args_sim a' j (RV args)"
proof -
  note N = node_simD [OF assms(2)] and D = inv_votesD [OF ar_inv_votes [OF assms(1)]]
  let ?T = "rf_currentTerm rf + 1"
  let ?a = "a\<lparr>ar_term := (ar_term a)(j := ?T), ar_reqs := insert (?T, j, ar_log a j) (ar_reqs a),
      ar_grants := insert (?T, j, j) (ar_grants a)\<rparr>"
  have ps: "peer_step a j ?a" by (rule peer_candidate [OF assms(3)]) (simp add: N(1))
  have rf': "rf' = persist (rf\<lparr>rf_role := Candidate, rf_currentTerm := ?T, rf_votedFor := int j,
        rf_lastHeardAt := time, rf_electionReset := 400 + rand\<rparr>)"
    and args: "args = \<lparr>rv_Term = ?T, rv_CandidateId = int j, rv_LastLogIndex = int (length (ar_log a j)),
      rv_LastLogTerm = last_term (ar_log a j)\<rparr>"
    using assms(6) lastLogIndex_rep [OF N(2)] last_rep [OF N(2)] assms(5) by (simp_all add: startElection_eq [OF assms(4)])
  have no: "(?T, c, j) \<notin> ar_grants a" "ar_lead a ?T \<noteq> Some j" for c
    using D(3) [of ?T c j] D(14) [of ?T j] N(1) by auto
  have "node_sim ?a j rf'"
    using assms(2) no log_rep_cong [of rf' rf "ar_log a j"] unfolding rf' by (auto simp: node_sim_def)
  moreover have "args_sim ?a j (RV args)" by (auto simp: args)
  ultimately show ?thesis using ps by blast
qed

text \<open>A candidate that has counted a majority.\<close>

lemma becomeLeader_sim:
  assumes "ar_inv a" "node_sim a j rf" "j < ar_n a" "raft_wf rf" "rf_me rf = int j" "rf_peers rf = ar_n a"
    "rf_role rf = Candidate" "becomeLeader rf = Some rf'"
    and Q: "majority a Q" "\<And>v. v \<in> Q \<Longrightarrow> (rf_currentTerm rf, j, v) \<in> ar_grants a"
  shows "\<exists>a'. peer_step a j a' \<and> node_sim a' j rf'"
proof -
  note N = node_simD [OF assms(2)] and D = inv_votesD [OF ar_inv_votes [OF assms(1)]]
  let ?T = "rf_currentTerm rf"
  have none: "ar_lead a ?T = None"
  proof (rule ccontr)
    assume "ar_lead a ?T \<noteq> None"
    then obtain c where c: "ar_lead a ?T = Some c" by auto
    from majority_meet [OF Q(1) D(15) [OF c]] Q(2) have "c = j" using D(5) by blast
    with c N(8) [OF assms(7)] show False by simp
  qed
  let ?a = "a\<lparr>ar_lead := (ar_lead a)(?T := Some j), ar_llog := (ar_llog a)(?T := ar_log a j),
      ar_ack := (ar_ack a)(?T := (ar_ack a ?T)(j := length (ar_log a j)))\<rparr>"
  have "ar_step a ?a"
    by (rule ar_step.lead [OF assms(3) N(1) none N(6) [OF assms(7)] Q])
  then have "peer_step a j ?a" by (simp add: peer_step_def same_at_def none)
  moreover have "node_sim ?a j rf'"
    using assms(2,5,6,8) log_rep_cong [of rf' rf "ar_log a j"]
    by (auto simp: node_sim_def becomeLeader_eq [OF assms(4)] nth_list_update)
  ultimately show ?thesis by blast
qed

lemma Start_sim:
  assumes "ar_inv a" "node_sim a j rf" "j < ar_n a" "raft_wf rf" "rf_me rf = int j" "Start rf command = Some (rf', r)"
  shows "\<exists>a'. peer_step a j a' \<and> node_sim a' j rf'"
proof (cases "rf_role rf = Leader")
  case False
  then show ?thesis using assms peer_stutter [of a j] by (auto simp: Start_eq [OF assms(4)])
next
  case True
  note N = node_simD [OF assms(2)]
  let ?T = "rf_currentTerm rf" and ?F = "ar_log a j"
  let ?e = "\<lparr>le_Term = ?T, le_Command = command\<rparr>"
  let ?a = "a\<lparr>ar_log := (ar_log a)(j := ?F @ [?e]), ar_llog := (ar_llog a)(?T := ar_llog a ?T @ [?e]),
      ar_ack := (ar_ack a)(?T := (ar_ack a ?T)(j := Suc (length ?F)))\<rparr>"
  have "ar_step a ?a" by (rule ar_step.append [OF N(9) [OF True] N(1)]) simp
  then have "peer_step a j ?a" by (simp add: peer_step_def same_at_def)
  moreover have "log_rep (?F @ [?e]) rf'"
    using N(2) assms(6) True by (auto simp: Start_eq [OF assms(4)] log_rep_def)
  then have "node_sim ?a j rf'"
    using assms(2,5,6) True by (auto simp: Start_eq [OF assms(4)] node_sim_def nth_list_update)
  ultimately show ?thesis by blast
qed

lemma replicateTo_sim:
  assumes "ar_inv a" "node_sim a j rf" "j < ar_n a" "replicateTo rf p = Some (Some call)"
  shows "\<exists>a'. peer_step a j a' \<and> node_sim a' j rf \<and> args_sim a' j (repl_args call)"
proof -
  note N = node_simD [OF assms(2)]
  let ?T = "rf_currentTerm rf" and ?F = "ar_log a j"
  have L: "rf_role rf = Leader" using assms(4) by (auto simp: replicateTo_def split: if_splits)
  have cl: "ar_commit a j \<le> length ?F" using ar_log_secure [OF assms(1), of j] by (simp add: secure_def)
  obtain m d where m: "rf_lastIncludedIndex rf = int m" "m \<le> length ?F" "rf_log rf = d # drop m ?F"
    "rf_lastIncludedTerm rf = last_term (take m ?F)" using N(2) by (elim log_repE)
  have snd: "peer_step a j (a\<lparr>ar_msgs := insert (?T, take k ?F, lc) (ar_msgs a)\<rparr>)"
    "node_sim (a\<lparr>ar_msgs := insert (?T, take k ?F, lc) (ar_msgs a)\<rparr>) j rf"
    if "lc \<le> ar_commit a j" "lc \<le> k" "k \<le> length ?F" for k lc
    using ar_step.send [OF N(9) [OF L] N(1) that] assms(2) by (simp_all add: peer_step_def same_at_def node_sim_def)
  obtain nx where nx: "go_nth (rf_nextIndex rf) (int p) = Some nx" using assms(4) L
    by (auto simp: replicateTo_def bind_eq_Some_conv Let_def)
  show ?thesis
  proof (cases "nx \<le> rf_lastIncludedIndex rf")
    case True
    then have c: "repl_args call = IS \<lparr>is_Term = ?T, is_LeaderId = rf_me rf, is_LastIncludedIndex = int m,
        is_LastIncludedTerm = last_term (take m ?F), is_Data = Some (ReadSnapshot (rf_persister rf))\<rparr>"
      using assms(4) L nx m by (auto simp: replicateTo_def)
    have "m \<le> ar_commit a j" using N(3,4) m(1) by simp
    then show ?thesis using snd [of m m] m(2) c by (fastforce simp: min_def)
  next
    case False
    then obtain t es where t: "termAt rf (nx - 1) = Some t" "go_from (rf_log rf) (nx - int m) = Some es"
      and c: "repl_args call = AE \<lparr>ae_Term = ?T, ae_LeaderId = rf_me rf, ae_PrevLogIndex = nx - 1, ae_PrevLogTerm = t,
        ae_Entries = es, ae_LeaderCommit = int (ar_commit a j)\<rparr>"
      using assms(4) L nx m N(3) by (auto simp: replicateTo_def bind_eq_Some_conv Let_def)
    note T = termAt_rep_Some [OF N(2) t(1)]
    then obtain i where i: "nx - 1 = int i" "i \<le> length ?F" "t = last_term (take i ?F)" "m \<le> i"
      using m(1) by (metis nat_int nonneg_int_cases of_nat_le_iff)
    have "es = drop (nat (nx - int m)) (rf_log rf)" using t(2) by (auto simp: go_from_def split: if_splits)
    moreover have "nat (nx - int m) = Suc (i - m)" using i by linarith
    ultimately have "es = drop i ?F" using m(3) i(4) by simp
    then have "ae_rep ?F (ar_commit a j) \<lparr>ae_Term = ?T, ae_LeaderId = rf_me rf, ae_PrevLogIndex = nx - 1, ae_PrevLogTerm = t,
        ae_Entries = es, ae_LeaderCommit = int (ar_commit a j)\<rparr>"
      using i by (auto simp: ae_rep_def)
    then show ?thesis using snd [of "ar_commit a j" "length ?F"] cl c by fastforce
  qed
qed


text \<open>The replies to a leader.\<close>

lemma node_sim_raise:
  assumes "node_sim a j rf" "peer \<noteq> j" "peer < length (rf_matchIndex rf)"
    "v \<le> int (ar_ack a (rf_currentTerm rf) peer)"
  shows "node_sim a j (raise_next (raise_match rf peer v) peer w)"
  using assms log_rep_cong [of "raise_next (raise_match rf peer v) peer w" rf "ar_log a j"]
  by (auto simp: node_sim_def raise_next_def raise_match_def nth_list_update)

lemma raise_swap: "raise_match (raise_next rf p v) p w = raise_next (raise_match rf p w) p v"
  by (simp add: raise_match_def raise_next_def)

lemma advanceCommit_sim:
  assumes "ar_inv a" "node_sim a j rf" "raft_wf rf" "rf_me rf = int j" "rf_peers rf = ar_n a" "rf_role rf = Leader"
    "advanceCommit rf = Some rf'"
  shows "\<exists>a'. peer_step a j a' \<and> node_sim a' j rf'"
proof -
  note N = node_simD [OF assms(2)]
  let ?T = "rf_currentTerm rf" and ?F = "ar_log a j"
  obtain c where c: "rf' = rf\<lparr>rf_commitIndex := c\<rparr>"
    "c = rf_commitIndex rf \<or> rf_commitIndex rf < c \<and> committable rf c"
    using advanceCommit_spec [OF assms(3)] assms(7) by (metis option.inject)
  from c(2) show ?thesis
  proof
    assume "c = rf_commitIndex rf"
    then have "node_sim a j rf'" by (intro node_sim_cong [OF assms(2)]) (simp_all add: c(1))
    then show ?thesis using peer_stutter by blast
  next
    assume k: "rf_commitIndex rf < c \<and> committable rf c"
    then have t: "termAt rf c = Some ?T" and maj: "rf_peers rf < 2 * card (matching rf c)" and gt: "rf_lastIncludedIndex rf < c"
      by (simp_all add: committable_def)
    note R = termAt_rep_Some [OF N(2) t]
    define i where "i = nat c"
    have i: "c = int i" "0 < i" "i \<le> length ?F" "?T = last_term (take i ?F)"
      using R k N(3) by (auto simp: i_def)
    have ll: "ar_llog a ?T = ?F"
      using inv_logsD(8) [OF ar_inv_logs [OF assms(1)] N(9) [OF assms(6)] N(1)] by simp
    have "le_Term (?F ! (i - 1)) = ?T" using i(4) last_term_take [OF i(2,3)] by simp
    then have own: "own_entry a ?T i" unfolding own_entry_def ll using i(2,3) by simp
    have "matching rf c \<subseteq> acked a ?T i"
    proof
      fix p assume p: "p \<in> matching rf c"
      then have "p < ar_n a" using assms(5) by (simp add: matching_def)
      moreover have "i \<le> ar_ack a ?T p"
        using p N(10) [OF assms(6)] N(11) [OF assms(6), of p] i(1,3) assms(4) \<open>p < ar_n a\<close>
        by (cases "p = j") (auto simp: matching_def)
      ultimately show "p \<in> acked a ?T i" by (simp add: acked_def)
    qed
    then have "majority a (acked a ?T i)"
      by (rule majority_mono [of a "matching rf c", rotated]) (use maj assms(5) in \<open>auto simp: majority_def matching_def acked_def\<close>)
    then have com: "committed a ?T i" using own by (simp add: committed_def)
    have le: "ar_commit a j \<le> i" using k N(3) i(1) by simp
    have "ar_step a (a\<lparr>ar_commit := (ar_commit a)(j := i)\<rparr>)"
      by (rule ar_step.advance [OF N(9) [OF assms(6)] N(1) com le])
    then have "peer_step a j (a\<lparr>ar_commit := (ar_commit a)(j := i)\<rparr>)" using le by (simp add: peer_step_def same_at_def)
    moreover have "node_sim (a\<lparr>ar_commit := (ar_commit a)(j := i)\<rparr>) j rf'"
      using assms(2) c(1) i(1) gt log_rep_cong [of rf' rf ?F] by (auto simp: node_sim_def)
    ultimately show ?thesis by blast
  qed
qed

lemma append_reply_sim:
  assumes "ar_inv a" "node_sim a j rf" "raft_wf rf" "rf_me rf = int j" "rf_peers rf = ar_n a" "j < ar_n a" "p < ar_n a" "p \<noteq> j"
    "reply_sim a j p (AE args) (AEReply r)" "append_reply rf p args r = Some (rf', again)"
  shows "\<exists>a'. peer_step a j a' \<and> node_sim a' j rf'"
proof -
  note N = node_simD [OF assms(2)]
  let ?T = "rf_currentTerm rf" and ?m = "ae_PrevLogIndex args + int (length (ae_Entries args))"
  let ?rf = "raise_next (raise_match rf p ?m) p (?m + 1)"
  have pl: "p < rf_peers rf" "p < length (rf_matchIndex rf)" using assms(3,5,7) by (simp_all add: raft_wf_def)
  consider (same) "rf' = rf" | (down) "?T < aer_Term r" "rf' = becomeFollower rf (aer_Term r)"
    | (ok) "?T = ae_Term args" "rf_role rf = Leader" "aer_Success r" "advanceCommit ?rf = Some rf'"
    | (hint) k where "rf' = rf\<lparr>rf_nextIndex := k\<rparr>"
    using assms(10) unfolding append_reply_eq [OF assms(3) pl(1)] Let_def
    by (simp only: split: if_split_asm) (blast | fastforce)+
  then show ?thesis
  proof cases
    case same
    then show ?thesis using assms(2) peer_stutter by blast
  next
    case down
    then show ?thesis using node_sim_becomeFollower [OF assms(1,2) down(1)] peer_newterm [OF assms(6), of "aer_Term r"] N(1) by auto
  next
    case ok
    have "node_sim a j ?rf"
      by (rule node_sim_raise [OF assms(2,8) pl(2)]) (use assms(9) ok(1,3) in simp)
    then show ?thesis
      by (rule advanceCommit_sim [OF assms(1) _ _ _ _ _ ok(4)])
        (use assms(3,4,5) ok(2) in \<open>simp_all add: raft_wf_def raise_next_def raise_match_def\<close>)
  next
    case (hint k)
    have "node_sim a j rf'" by (rule node_sim_cong [OF assms(2)]) (simp_all add: hint)
    then show ?thesis using peer_stutter by blast
  qed
qed

lemma install_reply_sim:
  assumes "ar_inv a" "node_sim a j rf" "raft_wf rf" "rf_peers rf = ar_n a" "j < ar_n a" "p < ar_n a" "p \<noteq> j"
    "reply_sim a j p (IS args) (ISReply r)" "install_reply rf p args r = Some rf'"
  shows "\<exists>a'. peer_step a j a' \<and> node_sim a' j rf'"
proof -
  note N = node_simD [OF assms(2)]
  let ?T = "rf_currentTerm rf" and ?i = "is_LastIncludedIndex args"
  have pl: "p < rf_peers rf" "p < length (rf_matchIndex rf)" using assms(3,4,6) by (simp_all add: raft_wf_def)
  consider (same) "rf' = rf" | (down) "?T < isr_Term r" "rf' = becomeFollower rf (isr_Term r)"
    | (ok) "?T = is_Term args" "isr_Term r \<le> ?T" "rf' = raise_next (raise_match rf p ?i) p (?i + 1)"
    using assms(9) by (fastforce simp: install_reply_eq [OF assms(3) pl(1)] raise_swap split: if_splits)
  then show ?thesis
  proof cases
    case same
    then show ?thesis using assms(2) peer_stutter by blast
  next
    case down
    then show ?thesis using node_sim_becomeFollower [OF assms(1,2) down(1)] peer_newterm [OF assms(5), of "isr_Term r"] N(1) by auto
  next
    case ok
    have "node_sim a j rf'" unfolding ok(3)
      by (rule node_sim_raise [OF assms(2,7) pl(2)]) (use assms(8) ok(1,2) in simp)
    then show ?thesis using peer_stutter by blast
  qed
qed

lemma vote_reply_sim:
  assumes "ar_inv a" "node_sim a j rf" "raft_wf rf" "rf_me rf = int j" "rf_peers rf = ar_n a" "j < ar_n a"
    "vote_reply rf T votes r = Some (rf', n)"
    and "rf_role rf' = Leader \<Longrightarrow> rf_role rf = Candidate \<Longrightarrow> majority a {v. (rf_currentTerm rf, j, v) \<in> ar_grants a}"
  shows "\<exists>a'. peer_step a j a' \<and> node_sim a' j rf'"
proof -
  note N = node_simD [OF assms(2)]
  consider (same) "rf' = rf" | (down) "rf_currentTerm rf < rvr_Term r" "rf' = becomeFollower rf (rvr_Term r)"
    | (lead) "rf_role rf = Candidate" "becomeLeader rf = Some rf'"
    using assms(7) unfolding vote_reply_def Let_def
    by (simp only: bind_eq_Some_conv split: if_split_asm) (blast | fastforce)+
  then show ?thesis
  proof cases
    case same
    then show ?thesis using assms(2) peer_stutter by blast
  next
    case down
    then show ?thesis using node_sim_becomeFollower [OF assms(1,2) down(1)] peer_newterm [OF assms(6), of "rvr_Term r"] N(1) by auto
  next
    case lead
    then have "rf_role rf' = Leader" by (auto simp: becomeLeader_eq [OF assms(3)])
    from assms(8) [OF this lead(1)] show ?thesis
      using becomeLeader_sim [OF assms(1,2,6,3,4,5) lead] by blast
  qed
qed


subsection \<open>Snapshots, the apply loop and restarts\<close>

lemma Snapshot_sim:
  assumes "node_sim a j rf" "raft_wf rf" "index \<le> rf_commitIndex rf" "Snapshot rf index data = Some rf'"
  shows "node_sim a j rf'"
proof (cases "rf_lastIncludedIndex rf < index \<and> index \<le> lastLogIndex rf")
  case False
  then show ?thesis using assms(1,4) by (auto simp: Snapshot_eq [OF assms(2)] split: if_splits)
next
  case True
  note N = node_simD [OF assms(1)]
  let ?F = "ar_log a j"
  obtain m d where m: "rf_lastIncludedIndex rf = int m" "m \<le> length ?F" "rf_log rf = d # drop m ?F"
    using N(2) by (elim log_repE)
  define i where "i = nat index"
  have i: "index = int i" "m < i" "i \<le> length ?F" using True m(1) lastLogIndex_rep [OF N(2)] by (auto simp: i_def)
  have n: "nat (int i - int m) = i - m" by (simp add: nat_diff_distrib')
  have "termAt rf index = Some (le_Term (rf_log rf ! nat (index - rf_lastIncludedIndex rf)))"
    by (rule termAt_in) (use True in simp_all)
  then have t: "le_Term (rf_log rf ! nat (index - rf_lastIncludedIndex rf)) = last_term (take i ?F)"
    using termAt_rep [OF N(2), of i] i m(1) by simp
  have dr: "drop (Suc (nat (index - rf_lastIncludedIndex rf))) (rf_log rf) = drop i ?F"
    using m i by (simp add: n)
  have rf': "rf' = persistWithSnapshot (rf\<lparr>rf_log := \<lparr>le_Term = last_term (take i ?F), le_Command = None\<rparr> # drop i ?F,
      rf_lastIncludedIndex := index, rf_lastIncludedTerm := last_term (take i ?F)\<rparr>) data"
    using assms(4) True by (simp add: Snapshot_eq [OF assms(2)] Let_def t dr)
  have "log_rep ?F rf'" unfolding rf' log_rep_def by (auto simp: persistWithSnapshot_def i)
  then show ?thesis using assms(1,3) unfolding rf' by (auto simp: node_sim_def persistWithSnapshot_def)
qed

lemma applier_sim:
  assumes "ar_inv a" "node_sim a j rf" "raft_wf rf" "applier rf = Some (rf', msg)"
  shows "node_sim a j rf' \<and> (\<forall>m. msg = Some m \<longrightarrow> msg_sim a m \<and> (CommandValid m \<longrightarrow> CommandIndex m \<le> int (ar_commit a j)))"
proof -
  note N = node_simD [OF assms(2)]
  let ?F = "ar_log a j" and ?next = "rf_lastApplied rf + 1"
  consider (snap) data where "rf' = rf\<lparr>rf_pendingSnapshot := None\<rparr>"
      "msg = Some (snapshot_msg (Some data) (rf_pendingSnapshotIndex rf) (rf_pendingSnapshotTerm rf))"
    | (cmd) e where "rf' = rf" "rf_lastApplied rf < rf_commitIndex rf" "rf_lastIncludedIndex rf \<le> rf_lastApplied rf"
        "go_nth (rf_log rf) (?next - rf_lastIncludedIndex rf) = Some e" "msg = Some (command_msg (le_Command e) ?next)"
    | (none) "rf' = rf \<or> rf' = rf\<lparr>rf_lastApplied := rf_lastIncludedIndex rf\<rparr>" "msg = None"
    using assms(4) unfolding applier_def Let_def
    by (simp only: bind_eq_Some_conv split: if_split_asm option.split_asm) (blast | fastforce)+
  then show ?thesis
  proof cases
    case (snap data)
    have "node_sim a j rf'" by (rule node_sim_cong [OF assms(2)]) (simp_all add: snap)
    then show ?thesis by (simp add: snap snapshot_msg_def msg_sim_def)
  next
    case (cmd e)
    obtain m d where m: "rf_lastIncludedIndex rf = int m" "m \<le> length ?F" "rf_log rf = d # drop m ?F"
      using N(2) by (elim log_repE)
    define i where "i = nat (rf_lastApplied rf)"
    have i: "rf_lastApplied rf = int i" "m \<le> i" "Suc i \<le> ar_commit a j" using cmd(2,3) m(1) N(3) by (auto simp: i_def)
    have sec: "secure a (ar_term a j) ?F (ar_commit a j)" by (rule ar_log_secure [OF assms(1)])
    then have "secure a (ar_term a j) ?F (Suc i)"
      using secure_take [OF sec i(3), of "length ?F"] i(3) by (simp add: secure_def)
    moreover have "e = ?F ! i"
    proof -
      have n: "nat (?next - rf_lastIncludedIndex rf) = Suc (i - m)" using i m(1) by simp
      have "i < length ?F" using sec i(3) by (simp add: secure_def)
      then show ?thesis using cmd(4) m(3) i(2) by (auto simp: go_nth_def n split: if_splits)
    qed
    ultimately have "msg_sim a (command_msg (le_Command e) ?next)"
      unfolding msg_sim_def using i(1) by (fastforce simp: command_msg_def)
    then show ?thesis using cmd(1,5) assms(2) i(1,3) by (simp add: command_msg_def)
  next
    case none
    then have "node_sim a j rf'" using assms(2) by (auto intro: node_sim_cong)
    then show ?thesis using none by simp
  qed
qed

lemma applier_sent_sim: "node_sim a j rf \<Longrightarrow> node_sim a j (applier_sent rf msg)"
  by (erule node_sim_cong) (simp_all add: applier_sent_def Let_def)

lemma restart_sim:
  assumes "node_sim a j rf" "j < ar_n a" "on_disk rf" "rf_peers rf = n" "rf_me rf = int j"
  shows "\<exists>a'. ar_step a a' \<and> (\<forall>k. k \<noteq> j \<longrightarrow> same_at a a' k) \<and>
    node_sim a' j (Make time rand n (int j) (Checkpoint (rf_persister rf)))" (is "\<exists>a'. _ \<and> _ \<and> node_sim a' j ?rf")
proof -
  note N = node_simD [OF assms(1)]
  obtain m where m: "rf_lastIncludedIndex rf = int m" using N(2) by (elim log_repE)
  let ?a = "a\<lparr>ar_commit := (ar_commit a)(j := m)\<rparr>"
  have st: "raftstate ?rf = raftstate rf" using restart_state [OF assms(3)] assms(4,5) by simp
  have vol: "rf_commitIndex ?rf = rf_lastIncludedIndex ?rf" "rf_role ?rf = Follower"
    by (auto simp: Make_def readPersist_def resetElectionTimer_def Let_def split: option.splits)
  have "ar_step a ?a" by (rule ar_step.reset [OF assms(2)]) (use N(3,4) m in simp)
  moreover have "node_sim ?a j ?rf"
    using assms(1) st vol m log_rep_cong [of ?rf rf "ar_log a j"] by (auto simp: node_sim_def raftstate_def)
  ultimately show ?thesis by (auto simp: same_at_def)
qed


subsection \<open>Every action of the cluster is a step of the protocol\<close>

lemma cluster_wf_replies: "cluster_wf s \<Longrightarrow> fst ` set (cl_replies s) \<subseteq> {..<length (cl_calls s)}"
  by (simp add: cluster_wf_def)

lemma sim_peer:
  assumes "sim s a" "cluster_wf s" "peer_step a j a'" "cl_n t = cl_n s" "cl_node t = (cl_node s)(j := rf)" "node_sim a' j rf"
    and "cl_calls t = cl_calls s @ cs" "\<And>c. c \<in> set cs \<Longrightarrow> args_sim a' (call_from c) (call_args c)"
    and "cl_replies t = cl_replies s @ rs"
    "\<And>i r. (i, r) \<in> set rs \<Longrightarrow> i < length (cl_calls s) \<and>
      reply_sim a' (call_from (cl_calls s ! i)) (call_to (cl_calls s ! i)) (call_args (cl_calls s ! i)) r"
    and "cl_received t = cl_received s" "cl_sending t = cl_sending s"
  shows "sim t a'"
proof (rule sim_update [OF assms(1) _ assms(4) _ _ assms(7,8,9) cluster_wf_replies [OF assms(2)] assms(10)])
  have m: "msgs_of t = msgs_of s" using assms(11,12) by (simp add: msgs_of_def fun_eq_iff)
  show "ar_step a a'" using assms(3) by (simp add: peer_step_def)
  show "same_at a a' k \<and> cl_node t k = cl_node s k \<and> msgs_of t k = msgs_of s k" if "k \<noteq> j" for k
    using that assms(3,5) m by (simp add: peer_step_def)
  show "node_sim a' j (cl_node t j)" using assms(5,6) by simp
  show "(x \<in> msgs_of s j \<and> ar_commit a j \<le> ar_commit a' j) \<or> msg_sim a' x \<and> (CommandValid x \<longrightarrow> CommandIndex x \<le> int (ar_commit a' j))"
    if "x \<in> msgs_of t j" for x using that m assms(3) by (simp add: peer_step_def)
qed

lemma sim_peer_quiet:
  assumes "sim s a" "cluster_wf s" "peer_step a j a'" "node_sim a' j rf" "cl_n t = cl_n s" "cl_node t = (cl_node s)(j := rf)"
    "cl_calls t = cl_calls s" "cl_replies t = cl_replies s" "cl_received t = cl_received s" "cl_sending t = cl_sending s"
  shows "sim t a'"
  by (rule sim_peer [OF assms(1-3,5,6,4), of "[]" "[]"]) (use assms in simp_all)

lemma sim_tick:
  assumes "sim s a" "cluster_wf s" "cluster_act s (Tick j time rand) = Some t"
  shows "\<exists>a'. ar_step a a' \<and> sim t a'"
proof -
  from assms(3) obtain rf margs where j: "j < cl_n s" and tk: "ticker time rand (cl_node s j) = Some (rf, margs)"
    and t: "t = (case margs of None \<Rightarrow> set_node j rf s | Some args \<Rightarrow>
          add_calls j (map (\<lambda>p. (p, RV args)) (other_peers rf))
            ((set_node j rf s)\<lparr>cl_votes := (cl_votes s)(j := (cl_votes s j)(rv_Term args := 1))\<rparr>))"
    by (auto split: if_splits simp: bind_eq_Some_conv)
  note S = simD [OF assms(1)] and W = cluster_wf_node [OF assms(2) j]
  show ?thesis
  proof (cases margs)
    case None
    then have "rf = cl_node s j" using tk by (auto simp: ticker_def bind_eq_Some_conv split: if_splits)
    then have "t = s" using t None by (simp add: set_node_def)
    then show ?thesis using assms(1) ar_step.stutter by blast
  next
    case (Some args)
    then have "startElection time rand (cl_node s j) = Some (rf, args)"
      using tk by (auto simp: ticker_def bind_eq_Some_conv split: if_splits)
    from startElection_sim [OF S(1) S(3) [OF j] _ _ _ this] obtain a' where
      a': "peer_step a j a'" "node_sim a' j rf" "args_sim a' j (RV args)" using W j S(2) by auto
    have "sim t a'"
      by (rule sim_peer [OF assms(1,2) a'(1) _ _ a'(2), of _ _ "[]"])
        (use t Some a'(3) in \<open>auto simp: add_calls_def set_node_def simp del: args_sim.simps\<close>)
    then show ?thesis using a'(1) by (auto simp: peer_step_def)
  qed
qed

lemma sim_replicate:
  assumes "sim s a" "cluster_wf s" "cluster_act s (Replicate j p) = Some t"
  shows "\<exists>a'. ar_step a a' \<and> sim t a'"
proof -
  from assms(3) obtain mcall where j: "j < cl_n s" and r: "replicateTo (cl_node s j) p = Some mcall"
    and t: "t = (case mcall of None \<Rightarrow> s | Some c \<Rightarrow> add_calls j [(p, repl_args c)] s)"
    by (auto split: if_splits simp: bind_eq_Some_conv)
  note S = simD [OF assms(1)]
  show ?thesis
  proof (cases mcall)
    case None
    then show ?thesis using t assms(1) ar_step.stutter by auto
  next
    case (Some c)
    from replicateTo_sim [OF S(1) S(3) [OF j] _ r [unfolded Some]] obtain a' where
      a': "peer_step a j a'" "node_sim a' j (cl_node s j)" "args_sim a' j (repl_args c)" using j S(2) by auto
    have "sim t a'"
      by (rule sim_peer [OF assms(1,2) a'(1) _ _ a'(2), of _ _ "[]"])
        (use t Some a'(3) in \<open>auto simp: add_calls_def\<close>)
    then show ?thesis using a'(1) by (auto simp: peer_step_def)
  qed
qed

lemma sim_deliver:
  assumes "sim s a" "cluster_wf s" "cluster_act s (Deliver i time) = Some t"
  shows "\<exists>a'. ar_step a a' \<and> sim t a'"
proof -
  define c where "c = cl_calls s ! i"
  from assms(3) obtain rf r where i: "i < length (cl_calls s)"
    and h: "handle time (cl_node s (call_to c)) (call_args c) = Some (rf, r)"
    and t: "t = (set_node (call_to c) rf s)\<lparr>cl_replies := cl_replies s @ [(i, r)]\<rparr>"
    by (auto split: if_splits simp: bind_eq_Some_conv Let_def c_def)
  note S = simD [OF assms(1)]
  have j: "call_to c < cl_n s" using cluster_wf_call [OF assms(2) i] by (simp add: c_def)
  have arg: "args_sim a (call_from c) (call_args c)" using S(4) i by (simp add: c_def)
  from handle_sim [OF S(1) S(3) [OF j] _ _ arg h] obtain a' where
    a': "peer_step a (call_to c) a'" "node_sim a' (call_to c) rf" "reply_sim a' (call_from c) (call_to c) (call_args c) r"
    using cluster_wf_node [OF assms(2) j] j S(2) by auto
  have "sim t a'"
    by (rule sim_peer [OF assms(1,2) a'(1) _ _ a'(2), of _ "[]" "[(i, r)]"])
      (use t a'(3) i in \<open>auto simp: set_node_def c_def\<close>)
  then show ?thesis using a'(1) by (auto simp: peer_step_def)
qed

text \<open>A candidate that becomes leader has been granted the votes of a majority.\<close>

lemma elected_grants:
  assumes "sim s a" "cluster_wf t" "vote_inv t" "cl_n t = cl_n s" "cl_calls t = cl_calls s" "cl_replies t = cl_replies s"
    "j < cl_n s" "rf_role (cl_node s j) = Candidate" "rf_role (cl_node t j) = Leader"
    "rf_currentTerm (cl_node t j) = rf_currentTerm (cl_node s j)"
  shows "majority a {v. (rf_currentTerm (cl_node s j), j, v) \<in> ar_grants a}"
proof -
  note S = simD [OF assms(1)]
  let ?T = "rf_currentTerm (cl_node s j)"
  have el: "cl_n s < 2 * (1 + card (backers t j ?T))"
    using vote_invD(6) [OF assms(3), of j] assms(4,7,9,10) by (simp add: elected_def)
  have sub: "backers t j ?T \<subseteq> {..<cl_n s} - {j}" using backers_subset [OF assms(2)] assms(4) by simp
  then have fin: "finite (backers t j ?T)" by (rule finite_subset) simp
  have "majority a (insert j (backers t j ?T))"
    using el sub fin assms(7) S(2) by (subst majority_def) (auto simp: card_insert_if)
  moreover have "insert j (backers t j ?T) \<subseteq> {v. (?T, j, v) \<in> ar_grants a}"
  proof
    fix v assume "v \<in> insert j (backers t j ?T)"
    then consider "v = j" | i where "rv_call t i j v ?T" "granted t i" by (auto simp: backers_def)
    then show "v \<in> {v. (?T, j, v) \<in> ar_grants a}"
    proof cases
      case 1
      then show ?thesis using node_simD(7) [OF S(3) [OF assms(7)] assms(8)] by simp
    next
      case 2
      then show ?thesis using S(5) assms(5,6) by (fastforce simp: rv_call_def granted_def)
    qed
  qed
  ultimately show ?thesis
    by (rule majority_mono) (use inv_votesD(2) [OF ar_inv_votes [OF S(1)]] in auto)
qed


lemma sim_return:
  assumes "sim s a" "cluster_wf s" "vote_inv s" "cluster_act s (Return i r) = Some t"
  shows "\<exists>a'. ar_step a a' \<and> sim t a'"
proof -
  define c where "c = cl_calls s ! i"
  define j where "j = call_from c"
  from assms(4) obtain rf votes where i: "i \<in> cl_open s" "(i, r) \<in> set (cl_replies s)"
    and h: "handle_reply (cl_node s j) (call_to c) (cl_votes s j) (call_args c) r = Some (rf, votes)"
    and t: "t = (set_node j rf s)\<lparr>cl_open := cl_open s - {i}, cl_votes := (cl_votes s)(j := votes)\<rparr>"
    by (auto split: if_splits simp: bind_eq_Some_conv Let_def c_def j_def)
  note S = simD [OF assms(1)]
  have il: "i < length (cl_calls s)" using assms(2) i(1) by (auto simp: cluster_wf_def)
  have n: "j < cl_n s" "call_to c < cl_n s" "call_to c \<noteq> j"
    using cluster_wf_call [OF assms(2) il] by (auto simp: c_def j_def)
  note W = cluster_wf_node [OF assms(2) n(1)] and N = S(3) [OF n(1)]
  have vs: "vote_step s t" by (rule cluster_act_vote_step [OF assms(2,4)])
  have wt: "cluster_wf t" "vote_inv t" using vote_step_wf [OF vs assms(2)] vote_step_inv [OF vs assms(2,3)] by blast+
  have rs: "reply_sim a j (call_to c) (call_args c) r" using S(5) [OF i(2)] by (simp add: c_def j_def)
  have tn: "cl_node t j = rf" using t by (simp add: set_node_def)
  have "\<exists>a'. peer_step a j a' \<and> node_sim a' j rf"
  proof -
    from h consider (rv) args reply k where "call_args c = RV args" "r = RVReply reply"
        "vote_reply (cl_node s j) (rv_Term args) (cl_votes s j (rv_Term args)) reply = Some (rf, k)"
      | (ae) args reply again where "call_args c = AE args" "r = AEReply reply"
        "append_reply (cl_node s j) (call_to c) args reply = Some (rf, again)"
      | (snap) args reply where "call_args c = IS args" "r = ISReply reply"
        "install_reply (cl_node s j) (call_to c) args reply = Some rf"
      by (auto simp: handle_reply_def split: Args.splits Reply.splits)
    then show ?thesis
    proof cases
      case (rv args reply k)
      have "majority a {v. (rf_currentTerm (cl_node s j), j, v) \<in> ar_grants a}"
        if "rf_role rf = Leader" "rf_role (cl_node s j) = Candidate"
      proof (rule elected_grants [OF assms(1) wt _ _ _ n(1) that(2)])
        show "rf_role (cl_node t j) = Leader" using tn that(1) by simp
        show "rf_currentTerm (cl_node t j) = rf_currentTerm (cl_node s j)"
          using rv(3) that W unfolding tn
          by (auto simp: vote_reply_def becomeLeader_eq Let_def split: if_splits)
      qed (use t in \<open>simp_all add: set_node_def\<close>)
      then show ?thesis using vote_reply_sim [OF S(1) N _ _ _ _ rv(3)] W n S(2) by auto
    next
      case (ae args reply again)
      then show ?thesis using append_reply_sim [OF S(1) N _ _ _ _ _ n(3) _ ae(3)] rs W n S(2) by auto
    next
      case (snap args reply)
      then show ?thesis using install_reply_sim [OF S(1) N _ _ _ _ n(3) _ snap(3)] rs W n S(2) by auto
    qed
  qed
  then obtain a' where a': "peer_step a j a'" "node_sim a' j rf" by blast
  have "sim t a'" by (rule sim_peer_quiet [OF assms(1,2) a']) (use t in \<open>simp_all add: set_node_def\<close>)
  then show ?thesis using a'(1) by (auto simp: peer_step_def)
qed

text \<open>The actions that leave the protocol where it is, up to the messages to the service.\<close>

lemma sim_stutter:
  assumes "sim s a" "cluster_wf s" "cl_n t = cl_n s" "cl_calls t = cl_calls s" "cl_replies t = cl_replies s"
    and "\<And>k. k < cl_n s \<Longrightarrow> node_sim a k (cl_node t k)"
    and "\<And>k m. k < cl_n s \<Longrightarrow> m \<in> msgs_of t k \<Longrightarrow>
      m \<in> msgs_of s k \<or> msg_sim a m \<and> (CommandValid m \<longrightarrow> CommandIndex m \<le> int (ar_commit a k))"
  shows "sim t a"
  using assms(6,7) simD [OF assms(1)] unfolding sim_def assms(3-5) by blast

lemma sim_apply_begin:
  assumes "sim s a" "cluster_wf s" "cluster_act s (ApplyBegin j) = Some t"
  shows "sim t a"
proof -
  from assms(3) obtain rf m where j: "j < cl_n s" "applier (cl_node s j) = Some (rf, m)" "cl_sending s j = None"
    and t: "t = (set_node j rf s)\<lparr>cl_sending := (cl_sending s)(j := map_option (\<lambda>msg. (msg, False)) m)\<rparr>"
    by (auto split: if_splits simp: bind_eq_Some_conv)
  note S = simD [OF assms(1)]
  have A: "node_sim a j rf" "\<And>x. m = Some x \<Longrightarrow> msg_sim a x \<and> (CommandValid x \<longrightarrow> CommandIndex x \<le> int (ar_commit a j))"
    using applier_sim [OF S(1) S(3) [OF j(1)] _ j(2)] cluster_wf_node [OF assms(2) j(1)] by auto
  show ?thesis
    by (rule sim_stutter [OF assms(1,2)])
      (use t A S(3) in \<open>auto simp: set_node_def msgs_of_def split: if_splits option.splits\<close>)
qed

lemma sim_compact:
  assumes "sim s a" "cluster_wf s" "cluster_act s (Compact j index data) = Some t"
  shows "sim t a"
proof -
  from assms(3) obtain rf m where j: "j < cl_n s" "m \<in> set (cl_received s j)" "CommandValid m" "CommandIndex m = index"
    "Snapshot (cl_node s j) index data = Some rf" and t: "t = set_node j rf s"
    by (auto split: if_splits simp: bind_eq_Some_conv)
  note S = simD [OF assms(1)]
  have "index \<le> rf_commitIndex (cl_node s j)"
    using S(7) [OF j(1), of m] j(2-4) node_simD(3) [OF S(3) [OF j(1)]] by (auto simp: msgs_of_def)
  then have "node_sim a j rf" using Snapshot_sim [OF S(3) [OF j(1)] _ _ j(5)] cluster_wf_node [OF assms(2) j(1)] by simp
  then show ?thesis
    by (intro sim_stutter [OF assms(1,2)]) (use t S(3) in \<open>auto simp: set_node_def msgs_of_def\<close>)
qed

lemma sim_crash:
  assumes "sim s a" "cluster_wf s" "cluster_act s (Crash j time rand) = Some t"
  shows "\<exists>a'. ar_step a a' \<and> sim t a'"
proof -
  let ?rf = "Make time rand (cl_n s) (int j) (Checkpoint (rf_persister (cl_node s j)))"
  from assms(3) have j: "j < cl_n s" and t: "t = (set_node j ?rf s)
          \<lparr>cl_open := {i \<in> cl_open s. call_from (cl_calls s ! i) \<noteq> j},
           cl_sending := (cl_sending s)(j := None), cl_received := (cl_received s)(j := [])\<rparr>"
    by (auto split: if_splits)
  note S = simD [OF assms(1)] and W = cluster_wf_node [OF assms(2) j]
  obtain a' where a': "ar_step a a'" "\<And>k. k \<noteq> j \<Longrightarrow> same_at a a' k" "node_sim a' j ?rf"
    using restart_sim [OF S(3) [OF j], of "cl_n s" time rand] W j S(2) by auto
  have "sim t a'"
    by (rule sim_update [OF assms(1) a'(1), of t j "[]" "[]"])
      (use t a' cluster_wf_replies [OF assms(2)] in \<open>auto simp: set_node_def msgs_of_def\<close>)
  with a'(1) show ?thesis by blast
qed

lemma cluster_act_sim:
  assumes "sim s a" "cluster_wf s" "vote_inv s" "cluster_act s x = Some t"
  shows "\<exists>a'. ar_step a a' \<and> sim t a'"
proof -
  note S = simD [OF assms(1)]
  have st: "\<exists>a'. ar_step a a' \<and> sim t a'" if "sim t a" using that ar_step.stutter by blast
  show ?thesis
  proof (cases x)
    case (Tick j time rand)
    then show ?thesis using sim_tick [OF assms(1,2)] assms(4) by blast
  next
    case (Replicate j p)
    then show ?thesis using sim_replicate [OF assms(1,2)] assms(4) by blast
  next
    case (Deliver i time)
    then show ?thesis using sim_deliver [OF assms(1,2)] assms(4) by blast
  next
    case (Return i r)
    then show ?thesis using sim_return [OF assms(1-3)] assms(4) by blast
  next
    case (GiveUp i)
    then have "sim t a"
      using assms(4) S(3) by (intro sim_stutter [OF assms(1,2)]) (auto simp: msgs_of_def split: if_splits)
    then show ?thesis by (rule st)
  next
    case (Client j command)
    then obtain rf r where j: "j < cl_n s" "Start (cl_node s j) command = Some (rf, r)" "t = set_node j rf s"
      using assms(4) by (auto split: if_splits simp: bind_eq_Some_conv)
    obtain a' where a': "peer_step a j a'" "node_sim a' j rf"
      using Start_sim [OF S(1) S(3) [OF j(1)] _ _ _ j(2)] cluster_wf_node [OF assms(2) j(1)] j(1) S(2) by auto
    have "sim t a'" by (rule sim_peer_quiet [OF assms(1,2) a']) (simp_all add: j(3) set_node_def)
    then show ?thesis using a'(1) by (auto simp: peer_step_def)
  next
    case (ApplyBegin j)
    then show ?thesis using sim_apply_begin [OF assms(1,2)] assms(4) st by blast
  next
    case (ApplyTake j)
    then have "sim t a"
      using assms(4) S(3)
      by (intro sim_stutter [OF assms(1,2)]) (auto simp: msgs_of_def split: option.splits prod.splits bool.splits if_splits)
    then show ?thesis by (rule st)
  next
    case (ApplyEnd j)
    then have "sim t a"
      using assms(4) S(3)
      by (intro sim_stutter [OF assms(1,2)])
        (auto simp: msgs_of_def set_node_def split: option.splits prod.splits bool.splits if_splits intro!: applier_sent_sim S(3))
    then show ?thesis by (rule st)
  next
    case (Compact j index data)
    then show ?thesis using sim_compact [OF assms(1,2)] assms(4) st by blast
  next
    case (Crash j time rand)
    then show ?thesis using sim_crash [OF assms(1,2)] assms(4) by blast
  qed
qed

end
