(* ===== verification/RaftSafety.thy ===== *)
theory RaftSafety
  imports RaftSim
begin

text \<open>
  The safety of the replicated log, for the cluster of peers of \<open>raft.go\<close> over an unreliable network
  with crashes and snapshots: log matching, leader completeness and state machine safety, from the
  corresponding facts of the abstract protocol through the simulation.
\<close>

lemma sim_init: "sim (cluster_init n) (ar_init n)"
proof -
  have "log_rep [] (Make 0 0 n (int j) MakePersister)" for j
    by (auto simp: log_rep_def last_term_def run_defs)
  then have "node_sim (ar_init n) j (Make 0 0 n (int j) MakePersister :: 'a Raft)" for j
    by (simp add: node_sim_def ar_init_def run_defs)
  then show ?thesis
    using ar_inv_init by (simp add: sim_def cluster_init_def msgs_of_def) (simp add: ar_init_def)
qed

lemma cluster_step_sim:
  assumes "sim s a" "cluster_wf s \<and> vote_inv s" "cluster_step s t"
  shows "\<exists>a'. ar_step a a' \<and> sim t a'"
  using assms cluster_act_sim by (auto elim!: cluster_step.cases)

interpretation raft: simulation "cluster_init n" cluster_step "ar_init n" ar_step "\<lambda>s. cluster_wf s \<and> vote_inv s" sim
  by unfold_locales (simp_all only: sim_init cluster_init_inv cluster_step_inv(1) cluster_step_sim)

lemma cluster_sim:
  assumes "cluster_reach n s"
  obtains a where "cluster_wf s" "vote_inv s" "cl_n s = n" "sim s a"
  using raft.reach_simulates [OF assms] cluster_n [OF assms] by metis


subsection \<open>Log matching\<close>

lemma entryAt_rep:
  assumes "log_rep F rf"
  shows "entryAt rf i = Some e \<longleftrightarrow> rf_lastIncludedIndex rf < i \<and> i \<le> int (length F) \<and> e = F ! (nat i - 1)"
proof -
  obtain m d where m: "rf_lastIncludedIndex rf = int m" "m \<le> length F" "rf_log rf = d # drop m F"
    using assms by (elim log_repE)
  show ?thesis
  proof (cases "int m < i")
    case True
    define k where "k = nat (i - int m - 1)"
    have k: "i = int (Suc (m + k))" using True by (simp add: k_def)
    show ?thesis using m k by (auto simp: entryAt_def go_nth_def nat_add_distrib)
  qed (use m in \<open>auto simp: entryAt_def\<close>)
qed

text \<open>
  \<^bold>\<open>C8\<close>: Log matching. In every reachable state of a cluster, if the logs of two peers have an entry of
  the same term at the same index, then they have the same entries at all indices up to it that neither of
  them has compacted.
\<close>

theorem raft_log_matching:
  assumes "cluster_reach n s" "j < n" "k < n"
    and "entryAt (cl_node s j) i = Some e" "entryAt (cl_node s k) i = Some e'" "le_Term e = le_Term e'"
    and "i' \<le> i" "entryAt (cl_node s j) i' = Some f" "entryAt (cl_node s k) i' = Some f'"
  shows "f = f'"
proof -
  obtain a where s: "cl_n s = n" "sim s a" using cluster_sim [OF assms(1)] by blast
  note S = simD [OF s(2)]
  have rep: "log_rep (ar_log a j) (cl_node s j)" "log_rep (ar_log a k) (cl_node s k)"
    using node_simD(2) [OF S(3)] s(1) assms(2,3) by simp_all
  note E = entryAt_rep [OF rep(1)] entryAt_rep [OF rep(2)]
  have ok: "0 \<le> rf_lastIncludedIndex (cl_node s j)" using rep(1) by (auto elim: log_repE)
  let ?p = "nat i - 1"
  have i: "0 < i" "i \<le> int (length (ar_log a j))" "i \<le> int (length (ar_log a k))"
    "e = ar_log a j ! ?p" "e' = ar_log a k ! ?p" using assms(4,5) ok by (auto simp: E)
  have i': "0 < i'" "f = ar_log a j ! (nat i' - 1)" "f' = ar_log a k ! (nat i' - 1)" using assms(8,9) ok by (auto simp: E)
  have "take (Suc ?p) (ar_log a j) = take (Suc ?p) (ar_log a k)"
    by (rule good_match [OF inv_logsD(1) inv_logsD(1)]) (use ar_inv_logs [OF S(1)] i assms(6) in auto)
  then have "ar_log a j ! (nat i' - 1) = ar_log a k ! (nat i' - 1)"
    by (rule take_eq_nth) (use i(1) i'(1) assms(7) in linarith)
  then show ?thesis using i' by simp
qed

subsection \<open>Leader completeness\<close>

lemma cluster_sim_later:
  assumes "cluster_reach n s" "reach s cluster_step t"
  obtains a a' where "cl_n s = n" "sim s a" "cl_n t = n" "sim t a'" "\<And>T xs m. secure a T xs m \<Longrightarrow> secure a' T xs m"
proof -
  obtain a where a: "cluster_wf s" "vote_inv s" "cl_n s = n" "sim s a" using cluster_sim [OF assms(1)] .
  from raft.run_simulates [OF assms(2) a(4)] a(1,2) obtain a' where a': "reach a ar_step a'" "sim t a'" by blast
  have "cl_n t = n" using reach_grows [OF assms(2) a(1,2)] a(3) by (simp add: grows_def)
  then show thesis using that [OF a(3,4) _ a'(2)] run_secure [OF a'(1) simD(1) [OF a(4)]] by blast
qed

text \<open>
  \<^bold>\<open>C7\<close>: Leader completeness. An entry that a peer has at an index up to its commit index is in the log of
  every later leader of the same or a later term, at that index: the leader's log reaches the index, and
  unless the leader has compacted it the entry there is the same.
\<close>

theorem raft_leader_completeness:
  assumes "cluster_reach n s" "reach s cluster_step t" "j < n" "k < n"
    and "entryAt (cl_node s j) i = Some e" "i \<le> rf_commitIndex (cl_node s j)"
    and "GetState (cl_node t k) = (T, True)" "rf_currentTerm (cl_node s j) \<le> T"
  shows "i \<le> lastLogIndex (cl_node t k) \<and>
    (rf_lastIncludedIndex (cl_node t k) < i \<longrightarrow> entryAt (cl_node t k) i = Some e)"
proof -
  obtain a a' where sa: "cl_n s = n" "sim s a" "cl_n t = n" "sim t a'"
    and later: "\<And>T xs m. secure a T xs m \<Longrightarrow> secure a' T xs m" using cluster_sim_later [OF assms(1,2)] by blast
  note S = simD [OF sa(2)] and S' = simD [OF sa(4)]
  note N = node_simD [OF S(3)] and N' = node_simD [OF S'(3)]
  have j: "j < cl_n s" and k: "k < cl_n t" using assms(3,4) sa by simp_all
  have ld: "rf_role (cl_node t k) = Leader" "rf_currentTerm (cl_node t k) = T" using assms(7) by (auto simp: GetState_def)
  have lead: "ar_lead a' T = Some k" using N'(9) [OF k ld(1)] ld(2) by simp
  have log: "ar_log a' k = ar_llog a' T"
    by (rule inv_logsD(8) [OF ar_inv_logs [OF S'(1)] lead]) (use N'(1) [OF k] ld(2) in simp)
  let ?m = "ar_commit a j"
  have "secure a' (ar_term a j) (ar_log a j) ?m" by (rule later [OF ar_log_secure [OF S(1)]])
  then have eq: "take ?m (ar_log a j) = take ?m (ar_log a' k)" "?m \<le> length (ar_log a' k)"
    using secure_lead [OF ar_inv_votes [OF S'(1)] ar_inv_keep [OF S'(1)], of "ar_term a j" "ar_log a j" ?m T]
      N(1) [OF j] assms(8) lead log by auto
  have "0 \<le> rf_lastIncludedIndex (cl_node s j)" using N(2) [OF j] by (auto elim: log_repE)
  then have i: "0 < i" "i \<le> int ?m" "e = ar_log a j ! (nat i - 1)"
    using assms(5,6) N(3) [OF j] by (auto simp: entryAt_rep [OF N(2) [OF j]])
  have lt: "nat i - 1 < ?m" using i(1,2) by linarith
  have "e = ar_log a' k ! (nat i - 1)" using take_eq_nth [OF eq(1) lt] i(3) by simp
  then show ?thesis
    using i(2) eq(2) by (auto simp: entryAt_rep [OF N'(2) [OF k]] lastLogIndex_rep [OF N'(2) [OF k]])
qed

subsection \<open>State machine safety\<close>

text \<open>
  \<^bold>\<open>C3\<close>: State machine safety. Two commands that Raft delivers to the services of any two servers with
  the same index are the same command, whenever they are delivered: with lost, delayed and duplicated
  messages, with crashes and restarts in between, and with log compaction and snapshots.
\<close>

theorem raft_state_machine_safety:
  assumes "cluster_reach n s" "reach s cluster_step t" "j < n" "k < n"
    and "x \<in> set (cl_received s j)" "y \<in> set (cl_received t k)"
    and "CommandValid x" "CommandValid y" "CommandIndex x = CommandIndex y"
  shows "Command x = Command y"
proof -
  obtain a a' where sa: "cl_n s = n" "sim s a" "cl_n t = n" "sim t a'"
    and later: "\<And>T xs m. secure a T xs m \<Longrightarrow> secure a' T xs m" using cluster_sim_later [OF assms(1,2)] by blast
  have "msg_sim a x" using simD(6) [OF sa(2)] sa(1) assms(3,5) by (auto simp: msgs_of_def)
  then obtain T xs i where x: "CommandIndex x = int (Suc i)" "secure a T xs (Suc i)" "Command x = le_Command (xs ! i)"
    using assms(7) by (auto simp: msg_sim_def)
  have "msg_sim a' y" using simD(6) [OF sa(4)] sa(3) assms(4,6) by (auto simp: msgs_of_def)
  then obtain T' ys i' where y: "CommandIndex y = int (Suc i')" "secure a' T' ys (Suc i')" "Command y = le_Command (ys ! i')"
    using assms(8) by (auto simp: msg_sim_def)
  have "i = i'" using x(1) y(1) assms(9) by simp
  then have "xs ! i = ys ! i" using secure_agree [OF simD(1) [OF sa(4)] later [OF x(2)] y(2), of i] by simp
  then show ?thesis using x(3) y(3) \<open>i = i'\<close> by simp
qed


subsection \<open>A run in which two servers apply a command\<close>

text \<open>
  Server 0 is elected, takes a command, replicates it to server 1, commits it and delivers it; its next
  heartbeat lets server 1 deliver it too.
\<close>

definition agree7 :: "nat action list" where
  "agree7 = elect0 @ [Client 0 (Some 7), Replicate 0 1, Deliver 2 600,
     Return 2 (AEReply \<lparr>aer_Term = 1, aer_Success = True, aer_ConflictTerm = -1, aer_ConflictIndex = -1, aer_XLen = 1\<rparr>),
     ApplyBegin 0, ApplyTake 0, Replicate 0 1, Deliver 3 700, ApplyBegin 1, ApplyTake 1]"

lemmas agree_run_defs = cluster_run_defs run_defs RequestVote_def go_upd_def Start_def broadcastAppendEntries_def
  replicateTo_def go_from_def AppendEntries_def ae_check_merge_def ae_commit_def append_reply_def advanceCommit_def
  advance_loop.simps applier_def command_msg_def entryAt_def

lemma agree7_run:
  "\<exists>s. run cluster_act (cluster_init 3) agree7 = Some s \<and> GetState (cl_node s 0) = (1, True)
     \<and> cl_received s 0 = [command_msg (Some 7) 1] \<and> cl_received s 1 = [command_msg (Some 7) 1]
     \<and> rf_commitIndex (cl_node s 1) = 1 \<and> rf_currentTerm (cl_node s 1) = 1
     \<and> entryAt (cl_node s 0) 1 = Some \<lparr>le_Term = 1, le_Command = Some 7\<rparr>
     \<and> entryAt (cl_node s 1) 1 = Some \<lparr>le_Term = 1, le_Command = Some 7\<rparr>"
  by (simp add: agree7_def elect0_def agree_run_defs)


definition agreed7 :: "nat Cluster" where
  "agreed7 = the (run cluster_act (cluster_init 3) agree7)"

lemma agreed7_state:
  "cluster_reach 3 agreed7" "GetState (cl_node agreed7 0) = (1, True)"
  "cl_received agreed7 0 = [command_msg (Some 7) 1]" "cl_received agreed7 1 = [command_msg (Some 7) 1]"
  "rf_commitIndex (cl_node agreed7 1) = 1" "rf_currentTerm (cl_node agreed7 1) = 1"
  "entryAt (cl_node agreed7 0) 1 = Some \<lparr>le_Term = 1, le_Command = Some 7\<rparr>"
  "entryAt (cl_node agreed7 1) 1 = Some \<lparr>le_Term = 1, le_Command = Some 7\<rparr>"
proof -
  obtain s where s: "run cluster_act (cluster_init 3) agree7 = Some s" "GetState (cl_node s 0) = (1, True)"
     "cl_received s 0 = [command_msg (Some 7) 1]" "cl_received s 1 = [command_msg (Some 7) 1]"
     "rf_commitIndex (cl_node s 1) = 1" "rf_currentTerm (cl_node s 1) = 1"
     "entryAt (cl_node s 0) 1 = Some \<lparr>le_Term = 1, le_Command = Some 7\<rparr>"
     "entryAt (cl_node s 1) 1 = Some \<lparr>le_Term = 1, le_Command = Some 7\<rparr>"
    using agree7_run by blast
  have eq: "agreed7 = s" by (simp only: agreed7_def s(1) option.sel)
  show "cluster_reach 3 agreed7" unfolding eq by (rule cluster_run_reach [OF s(1)])
  show "GetState (cl_node agreed7 0) = (1, True)"
    "cl_received agreed7 0 = [command_msg (Some 7) 1]" "cl_received agreed7 1 = [command_msg (Some 7) 1]"
    "rf_commitIndex (cl_node agreed7 1) = 1" "rf_currentTerm (cl_node agreed7 1) = 1"
    "entryAt (cl_node agreed7 0) 1 = Some \<lparr>le_Term = 1, le_Command = Some 7\<rparr>"
    "entryAt (cl_node agreed7 1) 1 = Some \<lparr>le_Term = 1, le_Command = Some 7\<rparr>"
    unfolding eq by (rule s)+
qed

theorem raft_log_matching_witness:
  "cluster_reach 3 agreed7 \<and> entryAt (cl_node agreed7 0) 1 = entryAt (cl_node agreed7 1) 1"
  using raft_log_matching [OF agreed7_state(1), of 0 1 1 _ _ 1] agreed7_state by simp

theorem raft_leader_completeness_witness:
  "rf_commitIndex (cl_node agreed7 1) = 1 \<and> 1 \<le> lastLogIndex (cl_node agreed7 0)"
  using raft_leader_completeness [OF agreed7_state(1) reach_init _ _ agreed7_state(8) _ agreed7_state(2)] agreed7_state(5,6)
  by simp

theorem raft_state_machine_safety_witness:
  "cluster_reach 3 agreed7 \<and> cl_received agreed7 0 \<noteq> [] \<and> cl_received agreed7 1 \<noteq> []
   \<and> Command (hd (cl_received agreed7 0)) = Command (hd (cl_received agreed7 1))"
  using raft_state_machine_safety [OF agreed7_state(1) reach_init, of 0 1 "command_msg (Some 7) 1" "command_msg (Some 7) 1"]
    agreed7_state(1,3,4) by (simp add: command_msg_def)

text \<open>
  \<^bold>\<open>C10\<close>: The cluster implements the abstract protocol: for every reachable state of the cluster there is a
  run of the abstract protocol to a state that represents it. In particular the terms are the same, every
  log with its snapshot position represents the abstract log, and what the services have received is
  committed in the abstract state.
\<close>

theorem raft_refines_protocol:
  assumes "cluster_reach n s"
  shows "\<exists>a. reach (ar_init n) ar_step a \<and> sim s a \<and>
    (\<forall>j < n. ar_term a j = rf_currentTerm (cl_node s j) \<and> log_rep (ar_log a j) (cl_node s j) \<and>
      rf_commitIndex (cl_node s j) = int (ar_commit a j))"
proof -
  obtain a where a: "reach (ar_init n) ar_step a" "sim s a" using raft.reach_simulates [OF assms] by blast
  then show ?thesis using simD(3) [OF a(2)] node_simD(1-3) cluster_n [OF assms] by blast
qed

theorem raft_refines_protocol_witness:
  "\<exists>a. reach (ar_init 3) ar_step a \<and> sim agreed7 a \<and> ar_commit a 1 = 1"
  using raft_refines_protocol [OF agreed7_state(1)] agreed7_state(5) by (metis of_nat_1_eq_iff one_less_numeral_iff semiring_norm(77))

end
