(* ===== verification/RaftNext.thy ===== *)
theory RaftNext
  imports RaftSafety
begin

text \<open>
  The goroutines that read the log: \<open>replicateTo\<close> slices it at \<open>nextIndex\<close>, the apply loop reads it at
  \<open>lastApplied + 1\<close>. Both indices depend on what other peers have answered; in a cluster they stay within
  the log.
\<close>

text \<open>A leader's \<open>nextIndex\<close> is at most one past its log.\<close>

definition next_ok :: "'c Raft \<Rightarrow> bool" where
  "next_ok rf \<longleftrightarrow> (rf_role rf = Leader \<longrightarrow> (\<forall>p < rf_peers rf. rf_nextIndex rf ! p \<le> lastLogIndex rf + 1))"

text \<open>The hints of a refused \<open>AppendEntries\<close> point into the part of the log that the call has named.\<close>

fun hint_ok :: "'c Args \<Rightarrow> Reply \<Rightarrow> bool" where
  "hint_ok (AE args) (AEReply r) =
     (\<not> aer_Success r \<longrightarrow> aer_Term r \<le> ae_Term args \<longrightarrow>
        aer_ConflictIndex r \<le> ae_PrevLogIndex args \<and> (aer_ConflictTerm r = -1 \<longrightarrow> 0 < aer_ConflictIndex r))"
| "hint_ok _ _ = True"

definition next_inv :: "'c Cluster \<Rightarrow> bool" where
  "next_inv s \<longleftrightarrow> (\<forall>j < cl_n s. next_ok (cl_node s j)) \<and> (\<forall>(i, r) \<in> set (cl_replies s). hint_ok (call_args (cl_calls s ! i)) r)"

lemma next_ok_cong:
  assumes "next_ok rf" "rf_role rf' = Leader \<Longrightarrow> rf_role rf = Leader" "rf_peers rf' = rf_peers rf"
    "rf_role rf' = Leader \<Longrightarrow> rf_nextIndex rf' = rf_nextIndex rf" "rf_role rf' = Leader \<Longrightarrow> lastLogIndex rf' = lastLogIndex rf"
  shows "next_ok rf'"
  using assms by (simp add: next_ok_def)

lemma next_ok_follower: "rf_role rf \<noteq> Leader \<Longrightarrow> next_ok rf"
  by (simp add: next_ok_def)

lemma last_term_nonneg: "ar_inv a \<Longrightarrow> good a xs \<Longrightarrow> 0 \<le> last_term xs"
  using good_last(1) [of a xs] inv_votesD(13) [OF ar_inv_votes, of a "last_term xs"]
  by (cases "xs = []") (fastforce simp: last_term_def)+

lemma AppendEntries_hint:
  assumes "ar_inv a" "node_sim a v rf" "args_sim a c (AE args)" "AppendEntries time rf args = Some (rf', r)"
  shows "hint_ok (AE args) (AEReply r)"
proof -
  note N = node_simD [OF assms(2)]
  let ?F = "ar_log a v"
  have len: "lastLogIndex rf = int (length ?F)" by (rule lastLogIndex_rep [OF N(2)])
  obtain m where m: "rf_lastIncludedIndex rf = int m" "m \<le> length ?F" "rf_lastIncludedTerm rf = last_term (take m ?F)"
    using N(2) by (elim log_repE)
  from assms(4) show ?thesis
  proof (cases rule: AppendEntries_cases)
    case stale
    then have "aer_Term r = rf_currentTerm rf" using assms(4) by (auto simp: AppendEntries_eq ae_reply_def)
    then show ?thesis using stale by simp
  next
    case short
    then show ?thesis using len m by (auto simp: ae_trim_def split: if_splits)
  next
    case (conflict t k)
    have tr: "ae_trim rf args = args"
      using conflict(4,5) termAt_rep [OF N(2), of m] m by (auto simp: ae_trim_def split: if_splits)
    have g: "good a (take i ?F)" for i
      by (rule good_prefix [OF inv_logsD(1) [OF ar_inv_logs [OF assms(1)]] is_prefix_take])
    have "t = last_term (take (nat (ae_PrevLogIndex args)) ?F)"
      using termAt_rep_Some(4) [OF N(2)] conflict(4) tr by simp
    then have "0 \<le> t" using last_term_nonneg [OF assms(1) g] by simp
    moreover have "k \<le> ae_PrevLogIndex args"
      using conflictIndex_spec [OF conflict(4) [unfolded tr]] conflict(6) [unfolded tr] by auto
    ultimately show ?thesis using conflict(9,10) by simp
  qed simp_all
qed

lemma handle_next:
  assumes "ar_inv a" "node_sim a v rf" "raft_wf rf" "next_ok rf" "args_sim a c x" "handle time rf x = Some (rf', r)"
  shows "next_ok rf' \<and> hint_ok x r"
proof (cases x)
  case (RV args)
  then obtain rr where h: "RequestVote time rf args = Some (rf', rr)" "r = RVReply rr" using assms(6) by (auto simp: handle_def)
  have "next_ok rf'"
    using h(1) assms(4) by (auto simp: RequestVote_eq [OF assms(3)] Let_def seen_term_def next_ok_def lastLogIndex_def split: if_splits)
  then show ?thesis using RV h by simp
next
  case (AE args)
  then obtain rr where h: "AppendEntries time rf args = Some (rf', rr)" "r = AEReply rr" using assms(6) by (auto simp: handle_def)
  have "next_ok rf'" using h(1)
    by (cases rule: AppendEntries_cases) (simp_all add: assms(4) next_ok_follower)
  then show ?thesis using AE h AppendEntries_hint [OF assms(1,2) _ h(1)] assms(5) by simp
next
  case (IS args)
  then obtain rr where h: "InstallSnapshot time rf (wire_data args) = Some (rf', rr)" "r = ISReply rr"
    using assms(6) by (auto simp: handle_def)
  have "next_ok rf'" using h(1) assms(4)
    by (auto simp: InstallSnapshot_eq Let_def is_installed_simps split: if_splits intro: next_ok_follower)
  then show ?thesis using IS h by simp
qed

text \<open>The messages of a leader's own term are prefixes of its log.\<close>

lemma leader_log:
  assumes "ar_inv a" "node_sim a j rf" "rf_role rf = Leader" "(rf_currentTerm rf, H, lc) \<in> ar_msgs a"
  shows "int (length H) \<le> lastLogIndex rf"
proof -
  note N = node_simD [OF assms(2)] and L = ar_inv_logs [OF assms(1)]
  have "ar_log a j = ar_llog a (rf_currentTerm rf)" by (rule inv_logsD(8) [OF L N(9) [OF assms(3)] N(1)])
  then show ?thesis using is_prefix_length [OF inv_logsD(6) [OF L assms(4)]] lastLogIndex_rep [OF N(2)] by simp
qed

lemma next_ok_set:
  assumes "raft_wf rf" "next_ok rf" "v \<le> lastLogIndex rf + 1"
  shows "next_ok (rf\<lparr>rf_nextIndex := (rf_nextIndex rf)[p := v]\<rparr>)"
proof -
  have "(rf_nextIndex rf)[p := v] ! q \<le> lastLogIndex rf + 1" if "rf_role rf = Leader" "q < rf_peers rf" for q
    using that assms by (cases "q = p") (auto simp: next_ok_def raft_wf_def)
  then show ?thesis by (simp add: next_ok_def lastLogIndex_def)
qed

lemma next_ok_raise:
  assumes "raft_wf rf" "next_ok rf" "rf_role rf = Leader" "p < rf_peers rf" "v \<le> lastLogIndex rf + 1"
  shows "next_ok (raise_next rf p v)"
  unfolding raise_next_def by (rule next_ok_set [OF assms(1,2)]) (use assms(2-5) in \<open>simp add: next_ok_def\<close>)

lemma append_reply_next:
  assumes "ar_inv a" "node_sim a j rf" "raft_wf rf" "next_ok rf" "p < rf_peers rf"
    "args_sim a j (AE args)" "hint_ok (AE args) (AEReply r)" "append_reply rf p args r = Some (rf', again)"
  shows "next_ok rf'"
proof (cases "rf_currentTerm rf = ae_Term args \<and> rf_role rf = Leader \<and> aer_Term r \<le> rf_currentTerm rf")
  case False
  then show ?thesis
    using assms(4,8) by (auto simp: append_reply_eq [OF assms(3,5)] next_ok_follower split: if_splits)
next
  case True
  obtain H lc where H: "(rf_currentTerm rf, H, lc) \<in> ar_msgs a" "ae_rep H lc args" using assms(6) True by auto
  obtain q where q: "ae_PrevLogIndex args = int q" "q \<le> length H" "ae_Entries args = drop q H" using H(2) by (auto simp: ae_rep_def)
  have len: "int (length H) \<le> lastLogIndex rf" by (rule leader_log [OF assms(1,2) _ H(1)]) (use True in simp)
  show ?thesis
  proof (cases "aer_Success r")
    case suc: True
    let ?m = "int (length H)"
    have m: "ae_PrevLogIndex args + int (length (ae_Entries args)) = ?m" using q by simp
    let ?rf = "raise_next (raise_match rf p ?m) p (?m + 1)"
    have "raft_wf ?rf" using assms(3) by (simp add: raft_wf_def raise_next_def raise_match_def)
    then obtain c where c: "advanceCommit ?rf = Some (?rf\<lparr>rf_commitIndex := c\<rparr>)" using advanceCommit_shape by blast
    have "next_ok ?rf"
      by (rule next_ok_raise)
        (use assms(3,4,5) True len in \<open>simp_all add: raft_wf_def next_ok_def raise_match_def lastLogIndex_def\<close>)
    then have "next_ok (?rf\<lparr>rf_commitIndex := c\<rparr>)" by (simp add: next_ok_def lastLogIndex_def)
    then show ?thesis using assms(8) True suc c by (auto simp: append_reply_eq [OF assms(3,5)] Let_def m)
  next
    case fail: False
    obtain k where k: "fast_backup rf (rf_nextIndex rf ! p) r = Some k" using fast_backup_total by blast
    have h: "aer_ConflictIndex r \<le> int q" "aer_ConflictTerm r = -1 \<Longrightarrow> 0 < aer_ConflictIndex r"
      using assms(7) fail True q(1) by auto
    have "k \<le> lastLogIndex rf + 1"
    proof (cases "aer_ConflictTerm r = -1")
      case True
      then show ?thesis using k h len q(2) by (simp add: fast_backup_def)
    next
      case False
      then obtain f where "found_term rf (aer_ConflictTerm r) (lastLogIndex rf) = Some f"
        "k = (if f \<noteq> -1 then f + 1 else aer_ConflictIndex r)" using k by (auto simp: fast_backup_def bind_eq_Some_conv)
      then show ?thesis using found_term_le h(1) len q(2) by fastforce
    qed
    then have "next_ok (rf\<lparr>rf_nextIndex := (rf_nextIndex rf)[p := max 1 k]\<rparr>)"
      using len by (intro next_ok_set [OF assms(3,4)]) simp
    then show ?thesis using assms(8) True fail k by (auto simp: append_reply_eq [OF assms(3,5)])
  qed
qed


lemma install_reply_next:
  assumes "ar_inv a" "node_sim a j rf" "raft_wf rf" "next_ok rf" "p < rf_peers rf"
    "args_sim a j (IS args)" "install_reply rf p args r = Some rf'"
  shows "next_ok rf'"
proof (cases "rf_currentTerm rf = is_Term args \<and> rf_role rf = Leader \<and> isr_Term r \<le> rf_currentTerm rf")
  case False
  then show ?thesis
    using assms(4,7) by (auto simp: install_reply_eq [OF assms(3,5)] next_ok_follower split: if_splits)
next
  case True
  obtain H where H: "(rf_currentTerm rf, H, length H) \<in> ar_msgs a" "is_LastIncludedIndex args = int (length H)"
    using assms(6) True by auto
  have len: "int (length H) \<le> lastLogIndex rf" by (rule leader_log [OF assms(1,2) _ H(1)]) (use True in simp)
  let ?rf = "raise_next rf p (int (length H) + 1)"
  have "next_ok ?rf" by (rule next_ok_raise [OF assms(3,4) _ assms(5)]) (use True len in simp_all)
  then have "next_ok (raise_match ?rf p (int (length H)))" by (simp add: next_ok_def raise_match_def lastLogIndex_def)
  then show ?thesis using assms(7) True H(2) by (auto simp: install_reply_eq [OF assms(3,5)])
qed

lemma vote_reply_next:
  assumes "raft_wf rf" "next_ok rf" "vote_reply rf T votes r = Some (rf', k)"
  shows "next_ok rf'"
proof -
  have "next_ok x" if "becomeLeader rf = Some x" for x
    using that by (auto simp: becomeLeader_eq [OF assms(1)] next_ok_def lastLogIndex_def)
  then show ?thesis
    using assms(2,3) by (auto simp: vote_reply_def bind_eq_Some_conv Let_def next_ok_follower split: if_splits)
qed

lemma handle_reply_next:
  assumes "ar_inv a" "node_sim a j rf" "raft_wf rf" "next_ok rf" "p < rf_peers rf" "args_sim a j x" "hint_ok x r"
    "handle_reply rf p votes x r = Some (rf', votes')"
  shows "next_ok rf'"
  using assms(8) vote_reply_next [OF assms(3,4)] append_reply_next [OF assms(1-5)] install_reply_next [OF assms(1-5)] assms(6,7)
  by (auto simp: handle_reply_def simp del: args_sim.simps hint_ok.simps split: Args.splits Reply.splits)

lemma next_inv_node:
  assumes "next_inv s" "cl_n t = cl_n s" "cl_node t = (cl_node s)(j := rf)" "j < cl_n s \<Longrightarrow> next_ok rf"
    "cl_calls t = cl_calls s @ cs" "fst ` set (cl_replies s) \<subseteq> {..<length (cl_calls s)}"
    "cl_replies t = cl_replies s @ rs" "\<And>i r. (i, r) \<in> set rs \<Longrightarrow> i < length (cl_calls s) \<and> hint_ok (call_args (cl_calls s ! i)) r"
  shows "next_inv t"
proof -
  have "hint_ok (call_args (cl_calls t ! i)) r" if "(i, r) \<in> set (cl_replies t)" for i r
  proof -
    have "i < length (cl_calls s) \<and> hint_ok (call_args (cl_calls s ! i)) r"
      using that assms(1,6,7,8) by (fastforce simp: next_inv_def)
    then show ?thesis by (simp add: assms(5) nth_append)
  qed
  then show ?thesis using assms(1-4) unfolding next_inv_def by auto
qed

lemma Start_next:
  assumes "raft_wf rf" "next_ok rf" "Start rf command = Some (rf', r)"
  shows "next_ok rf'"
proof (cases "rf_role rf = Leader")
  case True
  let ?rf = "rf\<lparr>rf_log := rf_log rf @ [\<lparr>le_Term = rf_currentTerm rf, le_Command = command\<rparr>]\<rparr>"
  have "lastLogIndex ?rf = lastLogIndex rf + 1" by (simp add: lastLogIndex_def)
  moreover from this have "next_ok ?rf" using assms(2) True by (force simp: next_ok_def)
  moreover have "raft_wf ?rf" using assms(1) by (simp add: raft_wf_def)
  ultimately have "next_ok (?rf\<lparr>rf_nextIndex := (rf_nextIndex ?rf)[nat (rf_me rf) := lastLogIndex rf + 2]\<rparr>)"
    by (intro next_ok_set) simp_all
  then show ?thesis using assms(3) True by (auto simp: Start_eq [OF assms(1)] next_ok_def lastLogIndex_def)
qed (use assms in \<open>auto simp: Start_eq [OF assms(1)]\<close>)

lemma Snapshot_next:
  assumes "raft_wf rf" "next_ok rf" "Snapshot rf index data = Some rf'"
  shows "next_ok rf'"
proof (rule next_ok_cong [OF assms(2)])
  show "lastLogIndex rf' = lastLogIndex rf"
    using assms(3)
    by (auto simp: Snapshot_eq [OF assms(1)] Let_def lastLogIndex_def persistWithSnapshot_def nat_le_iff split: if_splits)
qed (use assms(3) in \<open>auto simp: Snapshot_eq [OF assms(1)] Let_def persistWithSnapshot_def split: if_splits\<close>)

lemma cluster_act_next:
  assumes "sim s a" "cluster_wf s" "next_inv s" "cluster_act s x = Some t"
  shows "next_inv t"
proof -
  note S = simD [OF assms(1)] and W = cluster_wf_node [OF assms(2)] and R = cluster_wf_replies [OF assms(2)]
  have ok: "j < cl_n s \<Longrightarrow> next_ok (cl_node s j)" for j using assms(3) by (simp add: next_inv_def)
  have keep: "next_inv t" if "j < cl_n s \<Longrightarrow> next_ok rf" "cl_n t = cl_n s" "cl_node t = (cl_node s)(j := rf)"
    "cl_calls t = cl_calls s @ cs" "cl_replies t = cl_replies s" for j rf cs
    by (rule next_inv_node [OF assms(3) that(2,3,1,4) R, of "[]"]) (use that(5) in simp_all)
  show ?thesis
  proof (cases x)
    case (Tick j time rand)
    then obtain rf margs where tk: "ticker time rand (cl_node s j) = Some (rf, margs)" "j < cl_n s" and
      t: "cl_n t = cl_n s" "cl_node t = (cl_node s)(j := rf)" "cl_replies t = cl_replies s" "\<exists>cs. cl_calls t = cl_calls s @ cs"
      using assms(4) by (auto split: if_splits option.splits simp: bind_eq_Some_conv add_calls_def set_node_def)
    have "next_ok rf" using tk ok [OF tk(2)] W [OF tk(2)]
      by (auto simp: ticker_def bind_eq_Some_conv startElection_eq intro: next_ok_follower split: if_splits)
    then show ?thesis using keep t by blast
  next
    case (Replicate j p)
    then have t: "cl_n t = cl_n s" "cl_node t = (cl_node s)(j := cl_node s j)" "cl_replies t = cl_replies s" "\<exists>cs. cl_calls t = cl_calls s @ cs"
      using assms(4) by (auto split: if_splits option.splits simp: bind_eq_Some_conv add_calls_def)
    then show ?thesis using keep ok by blast
  next
    case (Deliver i time)
    then obtain rf r where h: "i < length (cl_calls s)"
      "handle time (cl_node s (call_to (cl_calls s ! i))) (call_args (cl_calls s ! i)) = Some (rf, r)"
      and t: "t = (set_node (call_to (cl_calls s ! i)) rf s)\<lparr>cl_replies := cl_replies s @ [(i, r)]\<rparr>"
      using assms(4) by (auto split: if_splits simp: bind_eq_Some_conv Let_def)
    have j: "call_to (cl_calls s ! i) < cl_n s" using cluster_wf_call [OF assms(2) h(1)] by blast
    have "next_ok rf \<and> hint_ok (call_args (cl_calls s ! i)) r"
      by (rule handle_next [OF S(1) S(3) [OF j] _ ok [OF j] S(4) h(2)]) (use W [OF j] h(1) in simp_all)
    then show ?thesis
      by (intro next_inv_node [OF assms(3), of t "call_to (cl_calls s ! i)" rf "[]" "[(i, r)]"])
        (use t R h(1) in \<open>auto simp: set_node_def\<close>)
  next
    case (Return i r)
    then obtain rf votes where i: "i \<in> cl_open s" "(i, r) \<in> set (cl_replies s)" and
      h: "handle_reply (cl_node s (call_from (cl_calls s ! i))) (call_to (cl_calls s ! i)) (cl_votes s (call_from (cl_calls s ! i)))
          (call_args (cl_calls s ! i)) r = Some (rf, votes)"
      and t: "cl_n t = cl_n s" "cl_node t = (cl_node s)(call_from (cl_calls s ! i) := rf)" "cl_replies t = cl_replies s" "cl_calls t = cl_calls s @ []"
      using assms(4) by (auto split: if_splits simp: bind_eq_Some_conv Let_def set_node_def)
    have il: "i < length (cl_calls s)" using assms(2) i(1) by (auto simp: cluster_wf_def)
    have n: "call_from (cl_calls s ! i) < cl_n s" "call_to (cl_calls s ! i) < cl_n s" using cluster_wf_call [OF assms(2) il] by auto
    have "hint_ok (call_args (cl_calls s ! i)) r" using assms(3) i(2) by (auto simp: next_inv_def)
    then have "next_ok rf"
      using handle_reply_next [OF S(1) S(3) [OF n(1)] _ ok [OF n(1)] _ S(4) _ h] W [OF n(1)] n(2) il by simp
    then show ?thesis using keep t by blast
  next
    case (GiveUp i)
    then show ?thesis using assms(3,4) by (auto simp: next_inv_def split: if_splits)
  next
    case (Client j command)
    then show ?thesis using assms(4) Start_next [OF _ ok] W
      by (intro keep [of j "cl_node t j" "[]"]) (auto simp: bind_eq_Some_conv set_node_def split: if_splits)
  next
    case (ApplyBegin j)
    then obtain rf m where "j < cl_n s" "applier (cl_node s j) = Some (rf, m)" and
      t: "cl_n t = cl_n s" "cl_node t = (cl_node s)(j := rf)" "cl_replies t = cl_replies s" "cl_calls t = cl_calls s @ []"
      using assms(4) by (auto split: if_splits simp: bind_eq_Some_conv set_node_def)
    then have "next_ok rf" using ok
      by (intro next_ok_cong [OF ok]) (auto simp: applier_def bind_eq_Some_conv Let_def lastLogIndex_def split: option.splits if_splits)
    then show ?thesis using keep t by blast
  next
    case (ApplyTake j)
    then show ?thesis using assms(3,4) by (auto simp: next_inv_def split: option.splits prod.splits bool.splits)
  next
    case (ApplyEnd j)
    then show ?thesis using assms(4)
      by (intro keep [of j "cl_node t j" "[]"])
        (auto simp: set_node_def applier_sent_def Let_def next_ok_def lastLogIndex_def dest: ok split: option.splits prod.splits bool.splits if_splits)
  next
    case (Compact j index data)
    then show ?thesis using assms(4) Snapshot_next [OF _ ok] W
      by (intro keep [of j "cl_node t j" "[]"]) (auto simp: bind_eq_Some_conv set_node_def split: if_splits)
  next
    case (Crash j time rand)
    then show ?thesis using assms(4)
      by (intro keep [of j "cl_node t j" "[]"]) (auto simp: set_node_def next_ok_follower Make_simps split: if_splits)
  qed
qed


lemma cluster_reach_next: "cluster_reach n s \<Longrightarrow> next_inv s"
proof (induction rule: reach.induct)
  case reach_init
  then show ?case by (simp add: next_inv_def cluster_init_def next_ok_follower Make_simps)
next
  case (reach_step s t)
  obtain a where "cluster_wf s" "sim s a" using cluster_sim [OF reach_step(1)] by blast
  with reach_step show ?case by (auto elim!: cluster_step.cases intro: cluster_act_next)
qed

text \<open>
  \<^bold>\<open>C13\<close>: The goroutines of a peer never panic: in every reachable state of a cluster, \<open>replicateTo\<close> finds
  the term before \<open>nextIndex\<close> and the entries from it on within the log, whatever the peers' replies have
  set \<open>nextIndex\<close> to, and the apply loop finds the entry after \<open>lastApplied\<close>.
\<close>

theorem raft_goroutines_never_panic:
  assumes "cluster_reach n s" "j < n" "p < n"
  shows "replicateTo (cl_node s j) p \<noteq> None \<and> applier (cl_node s j) \<noteq> None"
proof -
  let ?rf = "cl_node s j"
  obtain a where a: "cluster_wf s" "cl_n s = n" "sim s a" using cluster_sim [OF assms(1)] by blast
  have j: "j < cl_n s" using assms(2) a(2) by simp
  note S = simD [OF a(3)] and N = node_simD [OF simD(3) [OF a(3) j]] and W = cluster_wf_node [OF a(1) j]
  let ?F = "ar_log a j"
  obtain m d where m: "rf_lastIncludedIndex ?rf = int m" "m \<le> length ?F" "rf_log ?rf = d # drop m ?F" using N(2) by (elim log_repE)
  have nxt: "rf_role ?rf = Leader \<Longrightarrow> rf_nextIndex ?rf ! p \<le> lastLogIndex ?rf + 1"
    using cluster_reach_next [OF assms(1)] j W assms(3) a(2) by (simp add: next_inv_def next_ok_def)
  have nth: "go_nth (rf_nextIndex ?rf) (int p) = Some (rf_nextIndex ?rf ! p)"
    using W assms(3) a(2) by (auto simp: go_nth_def raft_wf_def)
  have "replicateTo ?rf p \<noteq> None"
  proof (cases "rf_role ?rf = Leader \<and> rf_lastIncludedIndex ?rf < rf_nextIndex ?rf ! p")
    case True
    then have r: "rf_lastIncludedIndex ?rf \<le> rf_nextIndex ?rf ! p - 1" "rf_nextIndex ?rf ! p - 1 \<le> lastLogIndex ?rf"
      using nxt by auto
    then obtain t where "termAt ?rf (rf_nextIndex ?rf ! p - 1) = Some t"
      using termAt_Some_iff [of ?rf "rf_nextIndex ?rf ! p - 1"] by auto
    moreover have "go_from (rf_log ?rf) (rf_nextIndex ?rf ! p - rf_lastIncludedIndex ?rf) \<noteq> None"
      using True r(2) by (simp add: go_from_def lastLogIndex_def)
    ultimately show ?thesis using True nth by (auto simp: replicateTo_def Let_def)
  qed (use nth in \<open>auto simp: replicateTo_def\<close>)
  moreover have "applier ?rf \<noteq> None"
  proof -
    have "int (ar_commit a j) \<le> int (length ?F)" using ar_log_secure [OF S(1), of j] by (simp add: secure_def)
    then have "rf_commitIndex ?rf \<le> lastLogIndex ?rf" using N(3) lastLogIndex_rep [OF N(2)] by simp
    then show ?thesis
      by (auto simp: applier_def Let_def go_nth_def lastLogIndex_def split: option.splits)
  qed
  ultimately show ?thesis by blast
qed

theorem raft_goroutines_never_panic_witness:
  "cluster_reach 3 agreed7 \<and> rf_role (cl_node agreed7 0) = Leader \<and> replicateTo (cl_node agreed7 0) 2 \<noteq> None"
  using raft_goroutines_never_panic [OF agreed7_state(1), of 0 2] agreed7_state(1,2) by (simp add: GetState_def)

end
