(* ===== verification/RfTest.thy ===== *)
theory RfTest
  imports RaftElection
begin

text \<open>
  The Raft server the tester runs, \<open>src/raft1/server.go\<close>, and the checks of the tester,
  \<open>src/raft1/test.go\<close>.

  A server hands every committed command to the tester (\<open>CheckLogs\<close>), which compares it with what the
  other servers have applied at that index; with snapshots it also checks the order itself and calls
  \<open>Snapshot\<close> every ten commands. Commands (\<open>any\<close>) are of type \<open>'c option\<close>, \<open>nil\<close> is \<^term>\<open>None\<close>; error
  strings are values of a type of their own, the empty string is \<^term>\<open>None\<close>. The encoding of a snapshot is
  \<open>labgob\<close>'s: \<open>enc\<close> and \<open>dec\<close> are arguments.
\<close>

definition SnapShotInterval :: int where "SnapShotInterval = 10"

datatype ApplyError =
    CommitMismatch int nat nat  \<comment> \<open>index, server, other server\<close>
  | OutOfOrder nat int
  | OutOfOrderExpected nat int int
  | NilSnapshot
  | DecodeFailed
  | SnapshotMismatch nat
  | ErrRPC

subsection \<open>The tester's copy of the servers' logs\<close>

record 'c raftServer =
  rs_applyErr :: "ApplyError option"
  rs_logs :: "int \<rightharpoonup> 'c option"

record 'c Test =
  ts_srvs :: "'c raftServer list"
  ts_maxIndex :: int

definition newRaftServer :: "'c raftServer" where
  "newRaftServer = \<lparr>rs_applyErr = None, rs_logs = Map.empty\<rparr>"

definition entry :: "'c raftServer \<Rightarrow> int \<Rightarrow> 'c option option" where
  "entry rs i = rs_logs rs i"

text \<open>The loop of \<open>CheckLogs\<close> over the servers from number \<open>j\<close> on; the last mismatch is reported.\<close>

fun check_others :: "nat \<Rightarrow> int \<Rightarrow> 'c option \<Rightarrow> nat \<Rightarrow> 'c raftServer list \<Rightarrow> ApplyError option \<Rightarrow> ApplyError option" where
  "check_others i index v j [] err_msg = err_msg"
| "check_others i index v j (rs # rest) err_msg =
     check_others i index v (Suc j) rest
       (case entry rs index of
          Some old \<Rightarrow> if old \<noteq> v then Some (CommitMismatch index i j) else err_msg
        | None \<Rightarrow> err_msg)"

definition CheckLogs :: "'c Test \<Rightarrow> nat \<Rightarrow> 'c ApplyMsg \<Rightarrow> ('c Test \<times> ApplyError option \<times> bool) option" where
  "CheckLogs ts i m = do {
     let v = Command m;
     me \<leftarrow> go_nth (ts_srvs ts) (int i);
     let err_msg = check_others i (CommandIndex m) v 0 (ts_srvs ts) None;
     let prevok = (entry me (CommandIndex m - 1) \<noteq> None);
     let me = me\<lparr>rs_logs := (rs_logs me)(CommandIndex m \<mapsto> v)\<rparr>;
     srvs \<leftarrow> go_upd (ts_srvs ts) (int i) me;
     let ts = ts\<lparr>ts_srvs := srvs\<rparr>;
     let ts = (if CommandIndex m > ts_maxIndex ts then ts\<lparr>ts_maxIndex := CommandIndex m\<rparr> else ts);
     Some (ts, err_msg, prevok)
   }"

definition IngestLog :: "'c Test \<Rightarrow> nat \<Rightarrow> (int \<rightharpoonup> 'c option) \<Rightarrow> 'c Test option" where
  "IngestLog ts i xlog = do {
     me \<leftarrow> go_nth (ts_srvs ts) (int i);
     srvs \<leftarrow> go_upd (ts_srvs ts) (int i) (me\<lparr>rs_logs := Map.empty ++ xlog\<rparr>);
     Some (ts\<lparr>ts_srvs := srvs\<rparr>)
   }"

definition ApplyErr :: "'c Test \<Rightarrow> nat \<Rightarrow> ApplyError \<Rightarrow> 'c Test option" where
  "ApplyErr ts i err = do {
     me \<leftarrow> go_nth (ts_srvs ts) (int i);
     srvs \<leftarrow> go_upd (ts_srvs ts) (int i) (me\<lparr>rs_applyErr := Some err\<rparr>);
     Some (ts\<lparr>ts_srvs := srvs\<rparr>)
   }"

text \<open>How many servers have applied an index, and what; \<^term>\<open>None\<close> where the test ends with \<open>Fatal\<close>.\<close>

fun committed_loop :: "int \<Rightarrow> 'c raftServer list \<Rightarrow> int \<times> 'c option \<Rightarrow> (int \<times> 'c option) option" where
  "committed_loop index [] (cnt, cmd) = Some (cnt, cmd)"
| "committed_loop index (rs # rest) (cnt, cmd) =
     (if rs_applyErr rs \<noteq> None then None
      else case entry rs index of
        Some cmd1 \<Rightarrow> if cnt > 0 \<and> cmd \<noteq> cmd1 then None else committed_loop index rest (cnt + 1, cmd1)
      | None \<Rightarrow> committed_loop index rest (cnt, cmd))"

definition nCommitted :: "'c Test \<Rightarrow> int \<Rightarrow> (int \<times> 'c option) option" where
  "nCommitted ts index = committed_loop index (ts_srvs ts) (0, None)"

definition checkNoAgreement :: "'c Test \<Rightarrow> int \<Rightarrow> unit option" where
  "checkNoAgreement ts index = do { (n, _) \<leftarrow> nCommitted ts index; if n > 0 then None else Some () }"

subsection \<open>Checks of the servers' states\<close>

text \<open>
  What a round of polling has found: for each server in turn whether it is connected and what its
  \<open>GetState\<close> returned. The map from terms to leaders is a list of its entries in the order of insertion.
\<close>

fun add_leader :: "int \<Rightarrow> nat \<Rightarrow> (int \<times> nat list) list \<Rightarrow> (int \<times> nat list) list" where
  "add_leader term i [] = [(term, [i])]"
| "add_leader term i ((t, ls) # m) = (if t = term then (t, ls @ [i]) # m else (t, ls) # add_leader term i m)"

fun collect_leaders :: "nat \<Rightarrow> (bool \<times> int \<times> bool) list \<Rightarrow> (int \<times> nat list) list \<Rightarrow> (int \<times> nat list) list" where
  "collect_leaders i [] m = m"
| "collect_leaders i ((connected, term, leader) # rest) m =
     collect_leaders (Suc i) rest (if connected \<and> leader then add_leader term i m else m)"

text \<open>A round of \<open>checkOneLeader\<close>: the test ends, or a leader of the last term that has one, if any.\<close>

definition one_leader_round :: "(bool \<times> int \<times> bool) list \<Rightarrow> nat option option" where
  "one_leader_round obs =
     (let leaders = collect_leaders 0 obs [];
          lastTermWithLeader = fold (\<lambda>(term, _) l. if term > l then term else l) leaders (-1)
      in if \<exists>(term, ls) \<in> set leaders. length ls > 1 then None
         else if leaders \<noteq> [] then Some (map_option hd (map_of leaders lastTermWithLeader))
         else Some None)"

fun checkOneLeader :: "(bool \<times> int \<times> bool) list list \<Rightarrow> nat option" where
  "checkOneLeader [] = None"
| "checkOneLeader (obs # rounds) =
     (case one_leader_round obs of
        None \<Rightarrow> None
      | Some (Some l) \<Rightarrow> Some l
      | Some None \<Rightarrow> checkOneLeader rounds)"

fun checkTerms_loop :: "(bool \<times> int \<times> bool) list \<Rightarrow> int \<Rightarrow> int option" where
  "checkTerms_loop [] term = Some term"
| "checkTerms_loop ((connected, xterm, _) # rest) term =
     (if connected then
        if term = -1 then checkTerms_loop rest xterm
        else if term \<noteq> xterm then None else checkTerms_loop rest term
      else checkTerms_loop rest term)"

definition checkTerms :: "(bool \<times> int \<times> bool) list \<Rightarrow> int option" where
  "checkTerms obs = checkTerms_loop obs (-1)"

definition checkNoLeader :: "(bool \<times> int \<times> bool) list \<Rightarrow> unit option" where
  "checkNoLeader obs = (if \<exists>(connected, _, leader) \<in> set obs. connected \<and> leader then None else Some ())"

subsection \<open>Agreement\<close>

text \<open>
  The inner loops of \<open>one\<close>: \<open>start i\<close> is what \<open>Start\<close> returns at server \<open>i\<close>, \<^term>\<open>None\<close> when it is not
  connected; \<open>polls\<close> is what \<open>nCommitted\<close> returns, poll by poll, until the time is up.
\<close>

fun one_start :: "nat \<Rightarrow> (nat \<Rightarrow> (int \<times> int \<times> bool) option) \<Rightarrow> nat \<Rightarrow> nat \<Rightarrow> nat \<times> int" where
  "one_start n start 0 starts = (starts, -1)"
| "one_start n start (Suc k) starts =
     (let starts = (starts + 1) mod n
      in case start starts of
           Some (index1, _, ok) \<Rightarrow> if ok then (starts, index1) else one_start n start k starts
         | None \<Rightarrow> one_start n start k starts)"

fun one_agreed :: "'c option \<Rightarrow> int \<Rightarrow> (int \<times> 'c option) option list \<Rightarrow> bool option" where
  "one_agreed cmd expectedServers [] = Some False"
| "one_agreed cmd expectedServers (poll # polls) =
     (case poll of
        None \<Rightarrow> None
      | Some (nd, cmd1) \<Rightarrow>
          if nd > 0 \<and> nd \<ge> expectedServers \<and> cmd1 = cmd then Some True
          else one_agreed cmd expectedServers polls)"

text \<open>\<open>one\<close>: the rounds that fit into ten seconds, each with its \<open>Start\<close> results and polls.\<close>

fun one ::
  "nat \<Rightarrow> 'c option \<Rightarrow> int \<Rightarrow> bool \<Rightarrow> nat \<Rightarrow>
     ((nat \<Rightarrow> (int \<times> int \<times> bool) option) \<times> (int \<Rightarrow> (int \<times> 'c option) option list)) list \<Rightarrow> int option" where
  "one n cmd expectedServers retry starts [] = None"
| "one n cmd expectedServers retry starts ((start, polls) # rounds) =
     (case one_start n start n starts of (starts, index) \<Rightarrow>
        if index \<noteq> -1 then
          case one_agreed cmd expectedServers (polls index) of
            None \<Rightarrow> None
          | Some True \<Rightarrow> Some index
          | Some False \<Rightarrow> if retry = False then None else one n cmd expectedServers retry starts rounds
        else one n cmd expectedServers retry starts rounds)"

text \<open>
  \<open>wait\<close>: each iteration polls \<open>nCommitted\<close> and, when a term is given, the terms of all servers; the
  last poll decides. The result \<open>-1\<close> for a newer term is \<^term>\<open>Inl ()\<close>.
\<close>

fun wait_loop :: "int \<Rightarrow> int \<Rightarrow> ((int \<times> 'c option) option \<times> int list) list \<Rightarrow> bool option" where
  "wait_loop n startTerm [] = Some True"
| "wait_loop n startTerm ((poll, terms) # rest) =
     (case poll of
        None \<Rightarrow> None
      | Some (nd, _) \<Rightarrow>
          if nd \<ge> n then Some True
          else if startTerm > -1 \<and> (\<exists>t \<in> set terms. t > startTerm) then Some False
          else wait_loop n startTerm rest)"

definition wait :: "int \<Rightarrow> int \<Rightarrow> ((int \<times> 'c option) option \<times> int list) list \<Rightarrow> (int \<times> 'c option) option \<Rightarrow> (unit + 'c option) option" where
  "wait n startTerm polls final = do {
     go_on \<leftarrow> wait_loop n startTerm (take 30 polls);
     if \<not> go_on then Some (Inl ())
     else do { (nd, cmd) \<leftarrow> final; if nd < n then None else Some (Inr cmd) }
   }"

subsection \<open>The server\<close>

record 'c rfsrv =
  rfs_me :: nat
  rfs_lastApplied :: int
  rfs_log :: "int \<rightharpoonup> 'c option"

text \<open>A missing key of a Go map reads as nil.\<close>

definition log_get :: "(int \<rightharpoonup> 'c option) \<Rightarrow> int \<Rightarrow> 'c option" where
  "log_get log j = (case log j of None \<Rightarrow> None | Some v \<Rightarrow> v)"

definition ingestSnap ::
  "(bytes \<Rightarrow> (int \<times> 'c option list) option) \<Rightarrow> 'c rfsrv \<Rightarrow> bytes option \<Rightarrow> int \<Rightarrow> 'c rfsrv \<times> ApplyError option" where
  "ingestSnap dec rs snapshot index =
     (case snapshot of
        None \<Rightarrow> (rs, Some NilSnapshot)
      | Some b \<Rightarrow>
          (case dec b of
             None \<Rightarrow> (rs, Some DecodeFailed)
           | Some (lastIncludedIndex, xlog) \<Rightarrow>
               if index \<noteq> -1 \<and> index \<noteq> lastIncludedIndex then (rs, Some (SnapshotMismatch (rfs_me rs)))
               else (rs\<lparr>rfs_log := map_of (zip (map int [0..<length xlog]) xlog),
                        rfs_lastApplied := lastIncludedIndex\<rparr>, None)))"

text \<open>
  The server calls the tester through \<open>src/raft1/proxy.go\<close>: a call may not reach it, its reply may be lost,
  or it is answered. \<open>CheckLogs\<close> reports \<open>ErrRPC\<close> when it gets no answer; the others ignore it.
\<close>

datatype RpcFate = NotSent | ReplyLost | Answered

definition proxy_CheckLogs :: "RpcFate \<Rightarrow> 'c Test \<Rightarrow> nat \<Rightarrow> 'c ApplyMsg \<Rightarrow> ('c Test \<times> ApplyError option \<times> bool) option" where
  "proxy_CheckLogs fate ts index m =
     (case fate of
        NotSent \<Rightarrow> Some (ts, Some ErrRPC, False)
      | ReplyLost \<Rightarrow> do { (ts, _, _) \<leftarrow> CheckLogs ts index m; Some (ts, Some ErrRPC, False) }
      | Answered \<Rightarrow> CheckLogs ts index m)"

definition proxy_IngestLog :: "RpcFate \<Rightarrow> 'c Test \<Rightarrow> nat \<Rightarrow> (int \<rightharpoonup> 'c option) \<Rightarrow> 'c Test option" where
  "proxy_IngestLog fate ts index log = (if fate = NotSent then Some ts else IngestLog ts index log)"

definition proxy_ApplyErr :: "RpcFate \<Rightarrow> 'c Test \<Rightarrow> nat \<Rightarrow> ApplyError \<Rightarrow> 'c Test option" where
  "proxy_ApplyErr fate ts index err = (if fate = NotSent then Some ts else ApplyErr ts index err)"

text \<open>The tester asks a server for its state and starts commands; no answer reads as the zero reply.\<close>

definition proxy_GetState :: "bool \<Rightarrow> 'c Raft \<Rightarrow> int \<times> bool" where
  "proxy_GetState ok rf = (if ok then GetState rf else (0, False))"

definition proxy_Start :: "RpcFate \<Rightarrow> 'c Raft \<Rightarrow> 'c option \<Rightarrow> ('c Raft \<times> int \<times> int \<times> bool) option" where
  "proxy_Start fate rf command =
     (case fate of
        NotSent \<Rightarrow> Some (rf, 0, 0, False)
      | ReplyLost \<Rightarrow> do { (rf, _) \<leftarrow> Start rf command; Some (rf, 0, 0, False) }
      | Answered \<Rightarrow> Start rf command)"

text \<open>One message of \<open>applier\<close>, the server without snapshots: the error it reports, if any.\<close>

definition srv_apply :: "RpcFate \<Rightarrow> RpcFate \<Rightarrow> 'c Test \<Rightarrow> nat \<Rightarrow> 'c ApplyMsg \<Rightarrow> 'c Test option" where
  "srv_apply f1 f2 ts me m =
     (if CommandValid m = False then Some ts
      else do {
        (ts, err_msg, prevok) \<leftarrow> proxy_CheckLogs f1 ts me m;
        let err_msg = (if CommandIndex m > 1 \<and> prevok = False then Some (OutOfOrder me (CommandIndex m)) else err_msg);
        case err_msg of None \<Rightarrow> Some ts | Some e \<Rightarrow> proxy_ApplyErr f2 ts me e
      })"

text \<open>
  One message of \<open>applierSnap\<close>: the new state of the server and the tester, and the argument of the call of
  \<open>Snapshot\<close> that it makes every \<open>SnapShotInterval\<close> commands.
\<close>

definition snap_log :: "'c rfsrv \<Rightarrow> int \<Rightarrow> 'c option list" where
  "snap_log rs index = map (\<lambda>j. log_get (rfs_log rs) j) [0..index]"

definition srv_command ::
  "RpcFate \<Rightarrow> (int \<times> 'c option list \<Rightarrow> bytes) \<Rightarrow> 'c rfsrv \<Rightarrow> 'c Test \<Rightarrow> 'c ApplyMsg \<Rightarrow>
     ('c rfsrv \<times> 'c Test \<times> ApplyError option \<times> (int \<times> bytes) option) option" where
  "srv_command f1 enc rs ts m = do {
     let err_msg = (if CommandIndex m \<noteq> rfs_lastApplied rs + 1
                    then Some (OutOfOrderExpected (rfs_me rs) (rfs_lastApplied rs + 1) (CommandIndex m)) else None);
     (ts, err_msg) \<leftarrow> (if err_msg = None then do {
         (ts, err_msg, prevok) \<leftarrow> proxy_CheckLogs f1 ts (rfs_me rs) m;
         Some (ts, if err_msg \<noteq> Some ErrRPC \<and> CommandIndex m > 1 \<and> prevok = False
                   then Some (OutOfOrder (rfs_me rs) (CommandIndex m)) else err_msg)
       } else Some (ts, err_msg));
     let rs = rs\<lparr>rfs_log := (rfs_log rs)(CommandIndex m \<mapsto> Command m), rfs_lastApplied := CommandIndex m\<rparr>;
     let snap = (if (CommandIndex m + 1) mod SnapShotInterval = 0
                 then Some (CommandIndex m, enc (CommandIndex m, snap_log rs (CommandIndex m))) else None);
     Some (rs, ts, err_msg, snap)
   }"

definition srv_applySnap ::
  "RpcFate \<Rightarrow> RpcFate \<Rightarrow> (int \<times> 'c option list \<Rightarrow> bytes) \<Rightarrow> (bytes \<Rightarrow> (int \<times> 'c option list) option) \<Rightarrow> 'c rfsrv \<Rightarrow> 'c Test \<Rightarrow> 'c ApplyMsg \<Rightarrow>
     ('c rfsrv \<times> 'c Test \<times> (int \<times> bytes) option) option" where
  "srv_applySnap f1 f2 enc dec rs ts m = do {
     (rs, ts, err_msg, snap) \<leftarrow>
       (if SnapshotValid m then
          case ingestSnap dec rs (am_Snapshot m) (SnapshotIndex m) of (rs, err_msg) \<Rightarrow>
            do { ts \<leftarrow> proxy_IngestLog f1 ts (rfs_me rs) (rfs_log rs); Some (rs, ts, err_msg, None) }
        else if CommandValid m then srv_command f1 enc rs ts m
        else Some (rs, ts, None, None));
     ts \<leftarrow> (case err_msg of None \<Rightarrow> Some ts | Some e \<Rightarrow> proxy_ApplyErr f2 ts (rfs_me rs) e);
     Some (rs, ts, snap)
   }"

text \<open>
  \<open>newRfsrv\<close>: a server that starts with a snapshot on its disk ingests it before the apply loop runs; an
  error there is fatal.
\<close>

definition newRfsrv ::
  "RpcFate \<Rightarrow> (bytes \<Rightarrow> (int \<times> 'c option list) option) \<Rightarrow> nat \<Rightarrow> 'g Persister \<Rightarrow> bool \<Rightarrow> 'c Test \<Rightarrow> ('c rfsrv \<times> 'c Test) option" where
  "newRfsrv f1 dec srv persister snapshot ts =
     (let sn = ReadSnapshot persister;
          s = \<lparr>rfs_me = srv, rfs_lastApplied = 0, rfs_log = Map.empty\<rparr>
      in if snapshot \<and> length sn > 0 then
           case ingestSnap dec s (Some sn) (-1) of
             (s, None) \<Rightarrow> do { ts \<leftarrow> proxy_IngestLog f1 ts srv (rfs_log s); Some (s, ts) }
           | (s, Some err) \<Rightarrow> None
         else Some (s, ts))"

subsection \<open>Properties\<close>

definition logs_agree :: "'c Test \<Rightarrow> bool" where
  "logs_agree ts \<longleftrightarrow> (\<forall>a \<in> set (ts_srvs ts). \<forall>b \<in> set (ts_srvs ts). \<forall>k v w.
     rs_logs a k = Some v \<longrightarrow> rs_logs b k = Some w \<longrightarrow> v = w)"

lemma check_others_spec:
  "check_others i index v j srvs err = None \<longleftrightarrow>
     err = None \<and> (\<forall>rs \<in> set srvs. \<forall>old. rs_logs rs index = Some old \<longrightarrow> old = v)"
  by (induction srvs arbitrary: j err) (auto simp: entry_def split: option.splits if_splits)

lemma CheckLogs_eq:
  assumes "i < length (ts_srvs ts)"
  shows "CheckLogs ts i m = Some
    (ts\<lparr>ts_srvs := (ts_srvs ts)[i := (ts_srvs ts ! i)\<lparr>rs_logs := (rs_logs (ts_srvs ts ! i))(CommandIndex m \<mapsto> Command m)\<rparr>],
        ts_maxIndex := max (ts_maxIndex ts) (CommandIndex m)\<rparr>,
     check_others i (CommandIndex m) (Command m) 0 (ts_srvs ts) None,
     rs_logs (ts_srvs ts ! i) (CommandIndex m - 1) \<noteq> None)"
  using assms by (cases ts) (simp add: CheckLogs_def go_nth_def go_upd_def entry_def Let_def max_def)

text \<open>
  \<open>CheckLogs\<close> detects every disagreement: it reports an error exactly when some server has applied
  another command at that index, and as long as it reports none the logs of all servers agree wherever two
  of them have an entry. It records the command and says whether the preceding entry was there.
\<close>

theorem check_logs_detects:
  assumes "i < length (ts_srvs ts)" "CheckLogs ts i m = Some (ts', err, prevok)"
  shows "(err = None \<longleftrightarrow> (\<forall>rs \<in> set (ts_srvs ts). \<forall>old. entry rs (CommandIndex m) = Some old \<longrightarrow> old = Command m))
    \<and> (logs_agree ts \<and> err = None \<longrightarrow> logs_agree ts')
    \<and> entry (ts_srvs ts' ! i) (CommandIndex m) = Some (Command m)
    \<and> (prevok \<longleftrightarrow> entry (ts_srvs ts ! i) (CommandIndex m - 1) \<noteq> None)"
proof -
  let ?me = "(ts_srvs ts ! i)\<lparr>rs_logs := (rs_logs (ts_srvs ts ! i))(CommandIndex m \<mapsto> Command m)\<rparr>"
  have ts': "ts_srvs ts' = (ts_srvs ts)[i := ?me]" and err: "err = check_others i (CommandIndex m) (Command m) 0 (ts_srvs ts) None"
    and prevok: "prevok = (rs_logs (ts_srvs ts ! i) (CommandIndex m - 1) \<noteq> None)"
    using assms(2) by (auto simp: CheckLogs_eq [OF assms(1)])
  have "logs_agree ts'" if "logs_agree ts" "err = None"
  proof -
    have old: "rs_logs rs (CommandIndex m) = Some v \<Longrightarrow> v = Command m" if "rs \<in> set (ts_srvs ts)" for rs v
      using \<open>err = None\<close> that by (auto simp: err check_others_spec)
    have sub: "set (ts_srvs ts') \<subseteq> insert ?me (set (ts_srvs ts))" by (simp add: ts' set_update_subset_insert)
    have mem: "ts_srvs ts ! i \<in> set (ts_srvs ts)" using assms(1) by simp
    have me: "rs_logs a k = Some v \<Longrightarrow> rs_logs ?me k = Some w \<Longrightarrow> v = w" if "a \<in> set (ts_srvs ts)" for a k v w
    proof (cases "k = CommandIndex m")
      case False
      then show "rs_logs a k = Some v \<Longrightarrow> rs_logs ?me k = Some w \<Longrightarrow> v = w"
        using that mem \<open>logs_agree ts\<close> unfolding logs_agree_def by simp
    qed (use old [OF that] in simp)
    show ?thesis
      unfolding logs_agree_def
    proof (intro ballI allI impI)
      fix a b k v w
      assume ab: "a \<in> set (ts_srvs ts')" "b \<in> set (ts_srvs ts')" and l: "rs_logs a k = Some v" "rs_logs b k = Some w"
      have "a = ?me \<or> a \<in> set (ts_srvs ts)" "b = ?me \<or> b \<in> set (ts_srvs ts)" using ab sub by blast+
      then consider "a = b" | "a \<in> set (ts_srvs ts)" "b = ?me" | "a = ?me" "b \<in> set (ts_srvs ts)"
        | "a \<in> set (ts_srvs ts)" "b \<in> set (ts_srvs ts)" by blast
      then show "v = w"
      proof cases
        case 2
        then show ?thesis using me [of a k v w] l by blast
      next
        case 3
        then show ?thesis using me [of b k w v] l by blast
      next
        case 4
        then show ?thesis using \<open>logs_agree ts\<close> l unfolding logs_agree_def by blast
      qed (use l in simp)
    qed
  qed
  then show ?thesis using assms(1) by (auto simp: err check_others_spec entry_def ts' prevok)
qed

definition test2 :: "nat Test" where
  "test2 = \<lparr>ts_srvs = [newRaftServer\<lparr>rs_logs := [1 \<mapsto> Some 5]\<rparr>, newRaftServer], ts_maxIndex = 1\<rparr>"

theorem check_logs_detects_witness:
  "\<exists>ts' err prevok. CheckLogs test2 1 (command_msg (Some 6) 1) = Some (ts', err, prevok) \<and> err \<noteq> None"
proof -
  have len: "1 < length (ts_srvs test2)" by (simp add: test2_def)
  obtain ts' err prevok where c: "CheckLogs test2 1 (command_msg (Some 6) 1) = Some (ts', err, prevok)"
    using CheckLogs_eq [OF len] by blast
  show ?thesis
    using check_logs_detects [OF len c] c
    by (auto simp: test2_def entry_def newRaftServer_def command_msg_def)
qed

lemma committed_loop_spec:
  assumes "\<forall>rs \<in> set srvs. rs_applyErr rs = None" "\<forall>rs \<in> set srvs. \<forall>v. rs_logs rs index = Some v \<longrightarrow> v = cmd"
    "0 \<le> n" "n > 0 \<longrightarrow> c = cmd"
  shows "\<exists>c'. committed_loop index srvs (n, c) = Some (n + int (length (filter (\<lambda>rs. rs_logs rs index \<noteq> None) srvs)), c')
    \<and> (n + int (length (filter (\<lambda>rs. rs_logs rs index \<noteq> None) srvs)) > 0 \<longrightarrow> c' = cmd)"
  using assms
proof (induction srvs arbitrary: n c)
  case (Cons rs srvs)
  show ?case
  proof (cases "rs_logs rs index")
    case None
    then show ?thesis using Cons.IH [of n c] Cons.prems by (simp add: entry_def)
  next
    case (Some v)
    then have "v = cmd" using Cons.prems(2) by simp
    with Some Cons.IH [of "n + 1" cmd] Cons.prems show ?thesis by (auto simp: entry_def algebra_simps)
  qed
qed auto

text \<open>
  \<open>nCommitted\<close> counts: when the servers' logs agree and no server has reported an error, it returns the
  number of servers that have applied the index and, if there is one, the command they have applied; the test
  does not fail.
\<close>

theorem ncommitted_counts:
  assumes "logs_agree ts" "\<forall>rs \<in> set (ts_srvs ts). rs_applyErr rs = None"
  shows "\<exists>cmd. nCommitted ts index = Some (int (length (filter (\<lambda>rs. entry rs index \<noteq> None) (ts_srvs ts))), cmd)
    \<and> (\<forall>rs \<in> set (ts_srvs ts). \<forall>v. entry rs index = Some v \<longrightarrow> v = cmd)"
proof -
  obtain cmd where cmd: "\<forall>rs \<in> set (ts_srvs ts). \<forall>v. rs_logs rs index = Some v \<longrightarrow> v = cmd"
    using assms(1) unfolding logs_agree_def by metis
  obtain c' where c': "committed_loop index (ts_srvs ts) (0, None) =
      Some (0 + int (length (filter (\<lambda>rs. rs_logs rs index \<noteq> None) (ts_srvs ts))), c')"
    "0 + int (length (filter (\<lambda>rs. rs_logs rs index \<noteq> None) (ts_srvs ts))) > 0 \<longrightarrow> c' = cmd"
    using committed_loop_spec [OF assms(2) cmd, of 0 None] by auto
  have "v = c'" if "rs \<in> set (ts_srvs ts)" "rs_logs rs index = Some v" for rs v
  proof -
    have "rs \<in> set (filter (\<lambda>rs. rs_logs rs index \<noteq> None) (ts_srvs ts))" using that by simp
    then have "0 < length (filter (\<lambda>rs. rs_logs rs index \<noteq> None) (ts_srvs ts))" by (rule length_pos_if_in_set)
    then have "c' = cmd" using c'(2) by linarith
    then show ?thesis using cmd that by blast
  qed
  with c'(1) show ?thesis by (intro exI [of _ c']) (simp add: nCommitted_def entry_def)
qed

theorem ncommitted_counts_witness: "\<exists>cmd. nCommitted test2 1 = Some (1, cmd)"
proof -
  have agree: "logs_agree test2" by (simp add: test2_def logs_agree_def newRaftServer_def)
  have ok: "\<forall>rs \<in> set (ts_srvs test2). rs_applyErr rs = None" by (simp add: test2_def newRaftServer_def)
  have "length (filter (\<lambda>rs. entry rs 1 \<noteq> None) (ts_srvs test2)) = 1"
    by (simp add: test2_def newRaftServer_def entry_def)
  then show ?thesis using ncommitted_counts [OF agree ok, of 1] by auto
qed

text \<open>
  A snapshot carries the applied log from one server to another: what \<open>applierSnap\<close> encodes after the
  command at \<open>index\<close>, a server that ingests it under that index decodes to the same commands at the indices
  up to \<open>index\<close> and nothing else, and its last applied index becomes \<open>index\<close>, so that it accepts the command
  at \<open>index + 1\<close> next. \<open>labgob\<close> decodes what it encoded.
\<close>

theorem snapshot_transfers_log:
  assumes "dec (enc (index, snap_log src index)) = Some (index, snap_log src index)" "0 \<le> index"
  shows "\<exists>rs'. ingestSnap dec rs (Some (enc (index, snap_log src index))) index = (rs', None)
    \<and> rfs_lastApplied rs' = index \<and> rfs_me rs' = rfs_me rs
    \<and> (\<forall>j. rfs_log rs' j = (if 0 \<le> j \<and> j \<le> index then Some (log_get (rfs_log src) j) else None))"
proof -
  let ?xlog = "snap_log src index"
  have len: "length ?xlog = nat (index + 1)" by (simp add: snap_log_def)
  have get: "map_of (zip (map int [0..<length xs]) xs) j = (if 0 \<le> j \<and> nat j < length xs then Some (xs ! nat j) else None)"
    for j and xs :: "'b option list"
  proof (cases "0 \<le> j \<and> nat j < length xs")
    case True
    then show ?thesis using map_of_zip_nth [of "map int [0..<length xs]" xs "nat j"] by (simp add: distinct_map)
  next
    case False
    then have "j \<notin> set (map int [0..<length xs])" by auto
    then have "map_of (zip (map int [0..<length xs]) xs) j = None" by (simp add: map_of_zip_is_None)
    then show ?thesis using False by (simp only: if_False)
  qed
  have "?xlog ! nat j = log_get (rfs_log src) j" if "0 \<le> j" "j \<le> index" for j
    using that by (simp add: snap_log_def nth_upto)
  moreover have "0 \<le> j \<and> nat j < length ?xlog \<longleftrightarrow> 0 \<le> j \<and> j \<le> index" for j using assms(2) by (auto simp: len)
  ultimately show ?thesis using assms(1) by (simp add: ingestSnap_def get)
qed

theorem snapshot_transfers_log_witness:
  "\<exists>rs'. ingestSnap (\<lambda>_. Some (1, [None, Some 5])) \<lparr>rfs_me = 1, rfs_lastApplied = 0, rfs_log = Map.empty\<rparr>
      (Some [1]) 1 = (rs', None) \<and> rfs_log rs' 1 = Some (Some (5 :: nat)) \<and> rfs_lastApplied rs' = 1"
proof -
  let ?src = "\<lparr>rfs_me = 0, rfs_lastApplied = 1, rfs_log = [1 \<mapsto> Some (5 :: nat)]\<rparr>"
  have "snap_log ?src 1 = [None, Some 5]" by (simp add: snap_log_def upto_rec1 log_get_def)
  then show ?thesis
    using snapshot_transfers_log [of "\<lambda>_. Some (1, [None, Some 5])" "\<lambda>_. [1]" 1 ?src
        "\<lparr>rfs_me = 1, rfs_lastApplied = 0, rfs_log = Map.empty\<rparr>"]
    by (auto simp: log_get_def)
qed

subsection \<open>The leader check and the cluster\<close>

text \<open>Every leader in the collected map was found by the polling.\<close>

definition leaders_below :: "(nat \<Rightarrow> int \<Rightarrow> bool) \<Rightarrow> nat \<Rightarrow> (int \<times> nat list) list \<Rightarrow> bool" where
  "leaders_below P i m \<longleftrightarrow> list_all (\<lambda>(t, ls). distinct ls \<and> (\<forall>l \<in> set ls. l < i \<and> P l t)) m"

lemma leaders_below_Suc: "leaders_below P i m \<Longrightarrow> leaders_below P (Suc i) m"
  unfolding leaders_below_def by (erule list.pred_mono_strong) auto

lemma leaders_below_add: "P i t \<Longrightarrow> leaders_below P i m \<Longrightarrow> leaders_below P (Suc i) (add_leader t i m)"
proof (induction m)
  case Nil
  then show ?case by (simp add: leaders_below_def)
next
  case (Cons x m)
  obtain t' ls where x: "x = (t', ls)" by (cases x)
  have m: "leaders_below P i m" and ls: "distinct ls" "\<forall>l \<in> set ls. l < i \<and> P l t'"
    using Cons.prems(2) by (simp_all add: leaders_below_def x)
  have "leaders_below P (Suc i) m" using m by (rule leaders_below_Suc)
  moreover have "leaders_below P (Suc i) (add_leader t i m)" using Cons.IH Cons.prems(1) m by blast
  moreover have "i \<notin> set ls" using ls(2) by blast
  ultimately show ?case using ls Cons.prems(1) by (auto simp: leaders_below_def x less_Suc_eq)
qed

lemma collect_leaders_found:
  assumes "\<And>k. k < length obs \<Longrightarrow> fst (obs ! k) \<Longrightarrow> snd (snd (obs ! k)) \<Longrightarrow> P (i + k) (fst (snd (obs ! k)))"
    "leaders_below P i m"
  shows "leaders_below P (i + length obs) (collect_leaders i obs m)"
  using assms
proof (induction obs arbitrary: i m)
  case (Cons ob obs)
  obtain c t l where ob: "ob = (c, t, l)" by (cases ob)
  let ?m = "if c \<and> l then add_leader t i m else m"
  have "P i t" if "c \<and> l" using Cons.prems(1) [of 0] ob that by simp
  then have m: "leaders_below P (Suc i) ?m"
    using leaders_below_add [OF _ Cons.prems(2)] leaders_below_Suc [OF Cons.prems(2)] by simp
  have "leaders_below P (Suc i + length obs) (collect_leaders (Suc i) obs ?m)"
  proof (rule Cons.IH [OF _ m])
    show "P (Suc i + k) (fst (snd (obs ! k)))" if "k < length obs" "fst (obs ! k)" "snd (snd (obs ! k))" for k
      using Cons.prems(1) [of "Suc k"] that by simp
  qed
  then show ?case by (simp add: ob)
qed simp

text \<open>
  \<^bold>\<open>C22\<close>: The tester's leader check never fails for two leaders in a term: if \<open>checkOneLeader\<close> polls the servers
  of a cluster one after the other while the cluster runs, with some of them not connected or not answering, a
  round never finds two leaders of one term.
\<close>

theorem check_one_leader_safe:
  assumes "length ss = n" "\<forall>i < n. cluster_reach n (ss ! i)" "\<forall>i < n. \<forall>j < n. i \<le> j \<longrightarrow> reach (ss ! i) cluster_step (ss ! j)"
    "obs = map (\<lambda>i. (connected i, proxy_GetState (answered i) (cl_node (ss ! i) i))) [0..<n]"
  shows "one_leader_round obs \<noteq> None"
proof -
  let ?P = "\<lambda>l t. l < n \<and> GetState (cl_node (ss ! l) l) = (t, True)"
  have "leaders_below ?P (0 + length obs) (collect_leaders 0 obs [])"
  proof (rule collect_leaders_found)
    show "?P (0 + k) (fst (snd (obs ! k)))" if "k < length obs" "fst (obs ! k)" "snd (snd (obs ! k))" for k
      using that assms(4) by (simp add: proxy_GetState_def prod_eq_iff split: if_splits)
  qed (simp add: leaders_below_def)
  then have found: "distinct ls \<and> (\<forall>l \<in> set ls. ?P l t)" if "(t, ls) \<in> set (collect_leaders 0 obs [])" for t ls
    using that by (auto simp: leaders_below_def list_all_iff)
  have "length ls \<le> 1" if mem: "(t, ls) \<in> set (collect_leaders 0 obs [])" for t ls
  proof (rule ccontr)
    assume "\<not> length ls \<le> 1"
    then obtain a b rest where ls: "ls = a # b # rest" by (cases ls; cases "tl ls") auto
    with found [OF mem] have ab: "a \<noteq> b" "?P a t" "?P b t" by auto
    have "c = c'" if "c \<le> c'" "?P c t" "?P c' t" for c c'
      using election_safety_lemma [of n "ss ! c" "ss ! c'" c c' t] assms(2,3) that by blast
    with ab show False by (metis nat_le_linear)
  qed
  then show ?thesis by (force simp: one_leader_round_def Let_def)
qed

theorem check_one_leader_safe_witness:
  "cluster_reach 3 elected0
   \<and> one_leader_round (map (\<lambda>i. (True, proxy_GetState True (cl_node ([elected0, elected0, elected0] ! i) i))) [0..<3]) \<noteq> None"
proof -
  have nth: "[elected0, elected0, elected0] ! i = elected0" if "i < 3" for i
    using that by (auto simp: less_Suc_eq numeral_3_eq_3)
  then show ?thesis
    using check_one_leader_safe [of "[elected0, elected0, elected0]" 3 _ "\<lambda>_. True" "\<lambda>_. True"] elected0_reach(1)
    by (simp add: reach_init)
qed

subsection \<open>A stale snapshot and the service\<close>

text \<open>A command with another index than the next one makes the server report an error.\<close>

lemma srv_out_of_order:
  assumes "index \<noteq> rfs_lastApplied rs + 1" "rfs_me rs < length (ts_srvs ts)"
  shows "\<exists>rs' ts' snap. srv_applySnap Answered Answered enc dec rs ts (command_msg cmd index) = Some (rs', ts', snap)
    \<and> rs_applyErr (ts_srvs ts' ! rfs_me rs) = Some (OutOfOrderExpected (rfs_me rs) (rfs_lastApplied rs + 1) index)"
  using assms
  by (simp add: srv_applySnap_def srv_command_def command_msg_def proxy_ApplyErr_def ApplyErr_def go_nth_def
      go_upd_def Let_def)

text \<open>
  A delayed \<open>InstallSnapshot\<close> breaks the service's order. When its index lies between a follower's
  snapshot and its last applied index, and the entry is in the follower's log with the same term, the
  follower's service ingests the old snapshot, its last applied index falls back, and the next committed
  command Raft sends it is reported as applied out of order: the tester records an error although no two
  servers disagree.
\<close>

theorem stale_snapshot_reported:
  assumes "rf_currentTerm rf \<le> is_Term args" "rf_lastIncludedIndex rf < is_LastIncludedIndex args"
    "is_LastIncludedIndex args < rf_lastApplied rf" "rf_lastApplied rf < rf_commitIndex rf" "rf_commitIndex rf \<le> lastLogIndex rf"
    "termAt rf (is_LastIncludedIndex args) = Some (is_LastIncludedTerm args)" "is_Data args = Some data"
    "dec data = Some (is_LastIncludedIndex args, xlog)" "rfs_me rs < length (ts_srvs ts)"
    "InstallSnapshot time rf args = Some (rf1, reply)"
  shows "\<exists>rf2 m rs1 ts1 m' rs2 ts2 snap. applier rf1 = Some (rf2, Some m)
    \<and> srv_applySnap Answered Answered enc dec rs ts m = Some (rs1, ts1, None)
    \<and> rfs_lastApplied rs1 = is_LastIncludedIndex args
    \<and> applier (applier_sent rf2 m) = Some (applier_sent rf2 m, Some m') \<and> CommandIndex m' = rf_lastApplied rf + 1
    \<and> srv_applySnap Answered Answered enc dec rs1 ts1 m' = Some (rs2, ts2, snap)
    \<and> rs_applyErr (ts_srvs ts2 ! rfs_me rs) =
        Some (OutOfOrderExpected (rfs_me rs) (is_LastIncludedIndex args + 1) (rf_lastApplied rf + 1))"
proof -
  let ?i = "is_LastIncludedIndex args"
  let ?m = "snapshot_msg (Some data) ?i (is_LastIncludedTerm args)"
  have rf1: "rf1 = is_installed (hear_leader time rf (is_Term args)) args"
    using assms(1,2,10) by (simp add: InstallSnapshot_eq Let_def)
  have f1: "rf_pendingSnapshot rf1 = Some data" "rf_pendingSnapshotIndex rf1 = ?i"
    "rf_pendingSnapshotTerm rf1 = is_LastIncludedTerm args" "rf_lastApplied rf1 = rf_lastApplied rf"
    "rf_commitIndex rf1 = rf_commitIndex rf" "rf_lastIncludedIndex rf1 = ?i"
    using assms(3,4,7) by (simp_all add: rf1 is_installed_def persistWithSnapshot_def)
  have "lastLogIndex rf1 = lastLogIndex rf"
    using assms(2-6) by (simp add: rf1 is_installed_def persistWithSnapshot_def is_log_def lastLogIndex_def of_nat_diff)
  then have "rf_lastApplied rf + 1 \<le> lastLogIndex rf1" using assms(4,5) by simp
  then obtain e where e: "go_nth (rf_log rf1) (rf_lastApplied rf + 1 - ?i) = Some e"
    using assms(3) f1(6) by (auto simp: go_nth_def lastLogIndex_def)
  let ?rf2 = "rf1\<lparr>rf_pendingSnapshot := None\<rparr>"
  have a1: "applier rf1 = Some (?rf2, Some ?m)" by (simp add: applier_def f1)
  have sent: "applier_sent ?rf2 ?m = ?rf2"
    using assms(3) by (simp add: applier_sent_def snapshot_msg_def f1)
  let ?m' = "command_msg (le_Command e) (rf_lastApplied rf + 1)"
  have a2: "applier ?rf2 = Some (?rf2, Some ?m')"
    using assms(3,4) e by (simp add: applier_def f1 Let_def)
  let ?rs1 = "rs\<lparr>rfs_log := map_of (zip (map int [0..<length xlog]) xlog), rfs_lastApplied := ?i\<rparr>"
  obtain ts1 where ts1: "IngestLog ts (rfs_me rs) (rfs_log ?rs1) = Some ts1" "length (ts_srvs ts1) = length (ts_srvs ts)"
    using assms(9) by (simp add: IngestLog_def go_nth_def go_upd_def)
  have s1: "srv_applySnap Answered Answered enc dec rs ts ?m = Some (?rs1, ts1, None)"
    using ts1(1) assms(8) by (simp add: srv_applySnap_def snapshot_msg_def ingestSnap_def proxy_IngestLog_def)
  have "rf_lastApplied rf + 1 \<noteq> rfs_lastApplied ?rs1 + 1" "rfs_me ?rs1 < length (ts_srvs ts1)"
    using assms(3,9) ts1(2) by simp_all
  from srv_out_of_order [OF this, of enc dec "le_Command e"] obtain rs2 ts2 snap where
    "srv_applySnap Answered Answered enc dec ?rs1 ts1 ?m' = Some (rs2, ts2, snap)"
    "rs_applyErr (ts_srvs ts2 ! rfs_me rs) = Some (OutOfOrderExpected (rfs_me rs) (?i + 1) (rf_lastApplied rf + 1))"
    by auto
  with a1 a2 sent s1 show ?thesis
    by (intro exI [of _ ?rf2] exI [of _ ?m] exI [of _ ?rs1] exI [of _ ts1] exI [of _ ?m'] exI [of _ rs2] exI [of _ ts2]
        exI [of _ snap]) (simp add: command_msg_def)
qed

definition peer0_ahead :: "nat Raft" where
  "peer0_ahead = peer0\<lparr>rf_currentTerm := 1, rf_commitIndex := 3, rf_lastApplied := 2,
     rf_log := [\<lparr>le_Term = 0, le_Command = None\<rparr>, \<lparr>le_Term = 1, le_Command = Some 5\<rparr>,
                \<lparr>le_Term = 1, le_Command = Some 6\<rparr>, \<lparr>le_Term = 1, le_Command = Some 7\<rparr>]\<rparr>"

theorem stale_snapshot_reported_witness:
  "\<exists>rf1 reply rf2 m rs1 ts1. InstallSnapshot 9 peer0_ahead stale_install = Some (rf1, reply)
     \<and> applier rf1 = Some (rf2, Some m)
     \<and> srv_applySnap Answered Answered (\<lambda>_. []) (\<lambda>_. Some (1, [None, Some 5]))
         \<lparr>rfs_me = 0, rfs_lastApplied = 2, rfs_log = Map.empty\<rparr> test2 m = Some (rs1, ts1, None)
     \<and> rfs_lastApplied rs1 = 1"
proof -
  let ?rs = "\<lparr>rfs_me = 0, rfs_lastApplied = 2, rfs_log = Map.empty\<rparr> :: nat rfsrv"
  obtain rf1 reply where i: "InstallSnapshot 9 peer0_ahead stale_install = Some (rf1, reply)"
    using InstallSnapshot_eq [of 9 peer0_ahead stale_install] by (metis surj_pair)
  have "\<exists>rf2 m rs1 ts1 m' rs2 ts2 snap. applier rf1 = Some (rf2, Some m)
    \<and> srv_applySnap Answered Answered (\<lambda>_. []) (\<lambda>_. Some (1, [None, Some 5])) ?rs test2 m = Some (rs1, ts1, None)
    \<and> rfs_lastApplied rs1 = is_LastIncludedIndex stale_install
    \<and> applier (applier_sent rf2 m) = Some (applier_sent rf2 m, Some m') \<and> CommandIndex m' = rf_lastApplied peer0_ahead + 1
    \<and> srv_applySnap Answered Answered (\<lambda>_. []) (\<lambda>_. Some (1, [None, Some 5])) rs1 ts1 m' = Some (rs2, ts2, snap)
    \<and> rs_applyErr (ts_srvs ts2 ! rfs_me ?rs) =
        Some (OutOfOrderExpected (rfs_me ?rs) (is_LastIncludedIndex stale_install + 1) (rf_lastApplied peer0_ahead + 1))"
    by (rule stale_snapshot_reported [OF _ _ _ _ _ _ _ _ _ i, where data = "[7]" and xlog = "[None, Some 5]"])
       (simp_all add: peer0_ahead_def peer0_def stale_install_def test2_def run_defs)
  then show ?thesis using i by (auto simp: stale_install_def)
qed

end
