(* ===== verification/RaftTested.thy ===== *)
theory RaftTested
  imports RaftNext RfTest
begin

text \<open>
  The cluster of Raft peers under the tester: each server hands the messages of its apply loop to the
  service of \<open>src/raft1/server.go\<close>, which reports commands to the tester of \<open>src/raft1/test.go\<close>. A restart of
  a server keeps the tester's copy of its log.
\<close>

inductive tested_step :: "'c Cluster \<times> 'c Test \<Rightarrow> 'c Cluster \<times> 'c Test \<Rightarrow> bool" where
  internal: "cluster_act s x = Some t \<Longrightarrow> (\<And>j. x \<noteq> ApplyTake j) \<Longrightarrow> tested_step (s, ts) (t, ts)"
| delivered: "cl_sending s j = Some (m, False) \<Longrightarrow> cluster_act s (ApplyTake j) = Some t \<Longrightarrow> j < cl_n s \<Longrightarrow>
    srv_apply f1 f2 ts j m = Some ts' \<Longrightarrow> tested_step (s, ts) (t, ts')"

definition tested_init :: "nat \<Rightarrow> 'c Cluster \<times> 'c Test" where
  "tested_init n = (cluster_init n, \<lparr>ts_srvs = replicate n newRaftServer, ts_maxIndex = 0\<rparr>)"

text \<open>Command \<open>v\<close> is committed at index \<open>k\<close>.\<close>

definition chosen :: "'c ARaft \<Rightarrow> int \<Rightarrow> 'c option \<Rightarrow> bool" where
  "chosen a k v \<longleftrightarrow> (\<exists>T xs i. k = int (Suc i) \<and> secure a T xs (Suc i) \<and> v = le_Command (xs ! i))"

lemma chosen_unique:
  assumes "ar_inv a" "chosen a k v" "chosen a k w"
  shows "v = w"
proof -
  obtain T xs i where x: "k = int (Suc i)" "secure a T xs (Suc i)" "v = le_Command (xs ! i)" using assms(2) by (auto simp: chosen_def)
  obtain T' ys i' where y: "k = int (Suc i')" "secure a T' ys (Suc i')" "w = le_Command (ys ! i')" using assms(3) by (auto simp: chosen_def)
  have "i = i'" using x(1) y(1) by simp
  then show ?thesis using secure_agree [OF assms(1) x(2) y(2), of i] x(3) y(3) by simp
qed

lemma chosen_step: "ar_inv a \<Longrightarrow> ar_step a a' \<Longrightarrow> chosen a k v \<Longrightarrow> chosen a' k v"
  unfolding chosen_def using secure_ext [OF ar_step_ext _ order_refl] by blast

definition mismatch :: "ApplyError option \<Rightarrow> bool" where
  "mismatch e \<longleftrightarrow> (\<exists>k i j. e = Some (CommitMismatch k i j))"

definition test_inv :: "nat \<Rightarrow> 'c ARaft \<Rightarrow> 'c Test \<Rightarrow> bool" where
  "test_inv n a ts \<longleftrightarrow> length (ts_srvs ts) = n \<and>
     (\<forall>rs \<in> set (ts_srvs ts). \<not> mismatch (rs_applyErr rs) \<and> (\<forall>k v. rs_logs rs k = Some v \<longrightarrow> chosen a k v))"

lemma CheckLogs_chosen:
  assumes "ar_inv a" "test_inv n a ts" "i < n" "chosen a (CommandIndex m) (Command m)" "CheckLogs ts i m = Some (ts', err, prevok)"
  shows "err = None \<and> test_inv n a ts'"
proof -
  have len: "i < length (ts_srvs ts)" using assms(2,3) by (simp add: test_inv_def)
  have r: "ts' = ts\<lparr>ts_srvs := (ts_srvs ts)[i := (ts_srvs ts ! i)\<lparr>rs_logs := (rs_logs (ts_srvs ts ! i))(CommandIndex m \<mapsto> Command m)\<rparr>],
      ts_maxIndex := max (ts_maxIndex ts) (CommandIndex m)\<rparr>"
    "err = check_others i (CommandIndex m) (Command m) 0 (ts_srvs ts) None"
    using assms(5) by (auto simp: CheckLogs_eq [OF len])
  have "err = None"
    unfolding r(2) check_others_spec using chosen_unique [OF assms(1) _ assms(4)] assms(2) by (auto simp: test_inv_def)
  moreover have "test_inv n a ts'"
    using assms(2,4) nth_mem [OF len] unfolding r(1) test_inv_def
    by (auto dest!: set_update_subset_insert [THEN subsetD] split: if_splits)
  ultimately show ?thesis by simp
qed

lemma ApplyErr_keeps:
  assumes "test_inv n a ts" "i < n" "\<not> mismatch (Some err)" "ApplyErr ts i err = Some ts'"
  shows "test_inv n a ts'"
proof -
  have len: "i < length (ts_srvs ts)" using assms(1,2) by (simp add: test_inv_def)
  have r: "ts' = ts\<lparr>ts_srvs := (ts_srvs ts)[i := (ts_srvs ts ! i)\<lparr>rs_applyErr := Some err\<rparr>]\<rparr>"
    using assms(4) len by (auto simp: ApplyErr_def go_nth_def go_upd_def)
  show ?thesis
    using assms(1,3) nth_mem [OF len] unfolding r test_inv_def
    by (auto dest!: set_update_subset_insert [THEN subsetD])
qed

lemma srv_apply_keeps:
  assumes "ar_inv a" "test_inv n a ts" "i < n" "CommandValid m \<Longrightarrow> chosen a (CommandIndex m) (Command m)"
    "srv_apply f1 f2 ts i m = Some ts'"
  shows "test_inv n a ts'"
proof (cases "CommandValid m")
  case True
  from assms(5) True obtain ts1 err prevok where c: "proxy_CheckLogs f1 ts i m = Some (ts1, err, prevok)"
    and e: "(case (if CommandIndex m > 1 \<and> prevok = False then Some (OutOfOrder i (CommandIndex m)) else err) of
        None \<Rightarrow> Some ts1 | Some x \<Rightarrow> proxy_ApplyErr f2 ts1 i x) = Some ts'"
    by (auto simp: srv_apply_def bind_eq_Some_conv Let_def)
  have ts1: "test_inv n a ts1" "err = None \<or> err = Some ErrRPC"
    using c assms(2) CheckLogs_chosen [OF assms(1-3) assms(4) [OF True]]
    by (auto simp: proxy_CheckLogs_def bind_eq_Some_conv split: RpcFate.splits)
  have keep: "test_inv n a ts'" if "proxy_ApplyErr f2 ts1 i x = Some ts'" "\<not> mismatch (Some x)" for x
    using that ts1(1) ApplyErr_keeps [OF ts1(1) assms(3)] by (auto simp: proxy_ApplyErr_def split: if_splits)
  show ?thesis using e ts1 keep by (auto simp: mismatch_def split: if_splits option.splits)
qed (use assms in \<open>simp add: srv_apply_def\<close>)

text \<open>The protocol and the tester's view of it, together.\<close>

definition tested_rel :: "nat \<Rightarrow> 'c Cluster \<times> 'c Test \<Rightarrow> 'c ARaft \<Rightarrow> bool" where
  "tested_rel n x a \<longleftrightarrow> sim (fst x) a \<and> cl_n (fst x) = n \<and> test_inv n a (snd x)"

lemma test_inv_step: "ar_inv a \<Longrightarrow> ar_step a a' \<Longrightarrow> test_inv n a ts \<Longrightarrow> test_inv n a' ts"
  unfolding test_inv_def using chosen_step by blast

lemma tested_step_rel:
  assumes "tested_rel n x a" "cluster_wf (fst x) \<and> vote_inv (fst x)" "tested_step x y"
  shows "\<exists>a'. ar_step a a' \<and> tested_rel n y a'"
  using assms(3)
proof cases
  case (internal s c t ts)
  then have "sim s a" "cl_n s = n" "test_inv n a ts" using assms(1) by (simp_all add: tested_rel_def)
  moreover obtain a' where "ar_step a a'" "sim t a'"
    using cluster_act_sim [OF \<open>sim s a\<close> _ _ internal(3)] assms(2) internal(1) by auto
  ultimately show ?thesis
    using internal(2) test_inv_step [OF simD(1)] simD(2) [of s a] simD(2) [of t a'] extD(1) [OF ar_step_ext [OF simD(1)]]
    unfolding tested_rel_def by (metis fst_conv snd_conv)
next
  case (delivered s j m t f1 f2 ts ts')
  then have s: "sim s a" "cl_n s = n" "test_inv n a ts" using assms(1) by (simp_all add: tested_rel_def)
  obtain a' where a': "ar_step a a'" "sim t a'"
    using cluster_act_sim [OF s(1) _ _ delivered(4)] assms(2) delivered(1) by auto
  have "msg_sim a m" using simD(6) [OF s(1) delivered(5), of m] delivered(3) by (simp add: msgs_of_def)
  then have "test_inv n a ts'"
    using srv_apply_keeps [OF simD(1) [OF s(1)] s(3) _ _ delivered(6)] delivered(5) s(2)
    by (auto simp: msg_sim_def chosen_def)
  then show ?thesis
    using a' test_inv_step [OF simD(1) [OF s(1)]] simD(2) [OF s(1)] simD(2) [OF a'(2)] s(2) delivered(2)
      extD(1) [OF ar_step_ext [OF simD(1) [OF s(1)]]]
    unfolding tested_rel_def by (metis fst_conv snd_conv)
qed

lemma tested_init_rel: "tested_rel n (tested_init n) (ar_init n)"
  using sim_init [of n]
  by (auto simp: tested_rel_def tested_init_def test_inv_def newRaftServer_def mismatch_def cluster_init_def)

lemma tested_step_cluster:
  assumes "tested_step x y"
  shows "cluster_step (fst x) (fst y)"
  using assms
proof cases
  case (internal s c t ts)
  then show ?thesis using cluster_step.intros by fastforce
next
  case (delivered s j m t f1 f2 ts ts')
  then show ?thesis using cluster_step.intros [OF delivered(4)] by simp
qed

interpretation tested: simulation "tested_init n" tested_step "ar_init n" ar_step
    "\<lambda>x. cluster_wf (fst x) \<and> vote_inv (fst x)" "tested_rel n"
proof
  show "tested_rel n (tested_init n) (ar_init n)" by (rule tested_init_rel)
  show "cluster_wf (fst (tested_init n)) \<and> vote_inv (fst (tested_init n))"
    using cluster_init_inv by (simp add: tested_init_def)
  show "cluster_wf (fst t) \<and> vote_inv (fst t)"
    if "cluster_wf (fst s) \<and> vote_inv (fst s)" "tested_step s t" for s t :: "'a Cluster \<times> 'a Test"
    using cluster_step_inv(1) [OF tested_step_cluster [OF that(2)] that(1)] .
  show "\<exists>a'. ar_step a a' \<and> tested_rel n t a'"
    if "tested_rel n s a" "cluster_wf (fst s) \<and> vote_inv (fst s)" "tested_step s t" for s t :: "'a Cluster \<times> 'a Test" and a
    by (rule tested_step_rel [OF that])
qed

text \<open>
  \<^bold>\<open>C9\<close>: Raft passes the tester's agreement check. When the services of a cluster report every command that
  Raft delivers to them to the tester, in any interleaving and with lost calls and replies, the tester never
  records a mismatch between two servers, the copies of the servers' logs it keeps always agree, and the
  next report of a command finds no mismatch either.
\<close>

theorem raft_passes_check_logs:
  assumes "reach (tested_init n) tested_step (s, ts)"
  shows "logs_agree ts \<and> (\<forall>rs \<in> set (ts_srvs ts). \<forall>k i j. rs_applyErr rs \<noteq> Some (CommitMismatch k i j)) \<and>
    (\<forall>j < n. \<forall>m b. cl_sending s j = Some (m, b) \<longrightarrow> CommandValid m \<longrightarrow>
       (\<exists>ts' prevok. CheckLogs ts j m = Some (ts', None, prevok)))"
proof -
  obtain a where a: "sim s a" "cl_n s = n" "test_inv n a ts"
    using tested.reach_simulates [OF assms] by (auto simp: tested_rel_def)
  note inv = simD(1) [OF a(1)]
  have "logs_agree ts"
    unfolding logs_agree_def using a(3) chosen_unique [OF inv] unfolding test_inv_def by blast
  moreover have "\<exists>ts' prevok. CheckLogs ts j m = Some (ts', None, prevok)"
    if "j < n" "cl_sending s j = Some (m, b)" "CommandValid m" for j m b
  proof -
    have "msg_sim a m" using simD(6) [OF a(1), of j m] that a(2) by (simp add: msgs_of_def)
    then have ch: "chosen a (CommandIndex m) (Command m)" using that(3) by (auto simp: msg_sim_def chosen_def)
    have "j < length (ts_srvs ts)" using that(1) a(3) by (simp add: test_inv_def)
    then obtain ts' err prevok where c: "CheckLogs ts j m = Some (ts', err, prevok)" by (simp add: CheckLogs_eq)
    with CheckLogs_chosen [OF inv a(3) that(1) ch c] show ?thesis by blast
  qed
  ultimately show ?thesis using a(3) by (auto simp: test_inv_def mismatch_def)
qed


text \<open>The run \<open>agree7\<close> under the tester, with every call answered.\<close>

fun tested_act :: "'c Cluster \<times> 'c Test \<Rightarrow> 'c action \<Rightarrow> ('c Cluster \<times> 'c Test) option" where
  "tested_act (s, ts) (ApplyTake j) =
     (case cl_sending s j of
        Some (m, False) \<Rightarrow>
          if j < cl_n s then do {
            t \<leftarrow> cluster_act s (ApplyTake j);
            ts' \<leftarrow> srv_apply Answered Answered ts j m;
            Some (t, ts')
          } else None
      | _ \<Rightarrow> None)"
| "tested_act (s, ts) x = do { t \<leftarrow> cluster_act s x; Some (t, ts) }"

lemma tested_act_step: "tested_act x c = Some y \<Longrightarrow> tested_step x y"
proof (induction x c rule: tested_act.induct)
  case (1 s ts j)
  then obtain m t ts' where "cl_sending s j = Some (m, False)" "j < cl_n s" "cluster_act s (ApplyTake j) = Some t"
    "srv_apply Answered Answered ts j m = Some ts'" "y = (t, ts')"
    by (auto simp del: cluster_act.simps simp: bind_eq_Some_conv split: option.splits prod.splits bool.splits if_splits)
  then show ?case using tested_step.delivered by blast
qed (auto simp del: cluster_act.simps simp: bind_eq_Some_conv intro!: tested_step.internal)

definition tested7 :: "nat Cluster \<times> nat Test" where
  "tested7 = the (run tested_act (tested_init 3) agree7)"

lemma tested7_run:
  "\<exists>s ts. run tested_act (tested_init 3) agree7 = Some (s, ts) \<and> map (\<lambda>rs. rs_logs rs 1) (ts_srvs ts) = [Some (Some 7), Some (Some 7), None]
     \<and> map rs_applyErr (ts_srvs ts) = [None, None, None]"
  by (simp add: agree7_def elect0_def agree_run_defs tested_init_def srv_apply_def proxy_CheckLogs_def CheckLogs_def
      entry_def newRaftServer_def)

lemma tested7_state:
  "reach (tested_init 3) tested_step tested7" "map (\<lambda>rs. rs_logs rs 1) (ts_srvs (snd tested7)) = [Some (Some 7), Some (Some 7), None]"
proof -
  obtain s ts where r: "run tested_act (tested_init 3) agree7 = Some (s, ts)"
    "map (\<lambda>rs. rs_logs rs 1) (ts_srvs ts) = [Some (Some 7), Some (Some 7), None]" using tested7_run by (elim exE conjE)
  have eq: "tested7 = (s, ts)" by (simp only: tested7_def r(1) option.sel)
  show "reach (tested_init 3) tested_step tested7"
    unfolding eq by (rule run_reach [OF reach_init r(1) tested_act_step])
  show "map (\<lambda>rs. rs_logs rs 1) (ts_srvs (snd tested7)) = [Some (Some 7), Some (Some 7), None]" unfolding eq using r(2) by simp
qed

theorem raft_passes_check_logs_witness:
  "map (\<lambda>rs. rs_logs rs 1) (ts_srvs (snd tested7)) = [Some (Some 7), Some (Some 7), None] \<and> logs_agree (snd tested7)"
  using raft_passes_check_logs [of 3 "fst tested7" "snd tested7"] tested7_state by simp

end
