(* ===== verification/Strconv.thy ===== *)
theory Strconv
  imports Prelude
begin

text \<open>
  \<open>strconv.Itoa\<close> of the Go library, which names keys, servers and counts throughout the program, and
  the fact the users of such names rest on: different numbers have different decimal strings.
\<close>

definition digit :: "nat \<Rightarrow> char" where
  "digit d = char_of (48 + d)"

fun itoa_nat :: "nat \<Rightarrow> string" where
  "itoa_nat n = (if n < 10 then [digit n] else itoa_nat (n div 10) @ [digit (n mod 10)])"

declare itoa_nat.simps [simp del]

definition Itoa :: "int \<Rightarrow> string" where
  "Itoa i = (if i < 0 then CHR ''-'' # itoa_nat (nat (- i)) else itoa_nat (nat i))"

text \<open>Reading the digits back.\<close>

definition atoi_nat :: "string \<Rightarrow> nat" where
  "atoi_nat s = foldl (\<lambda>v c. 10 * v + (of_char c - 48)) 0 s"

lemma of_char_digit: "d < 10 \<Longrightarrow> of_char (digit d) = 48 + d"
  by (simp add: digit_def of_char_of)

lemma atoi_itoa: "atoi_nat (itoa_nat n) = n"
proof (induction n rule: itoa_nat.induct)
  case (1 n)
  then show ?case
    by (subst itoa_nat.simps) (auto simp: atoi_nat_def of_char_digit)
qed

lemma itoa_nat_inj [simp]: "itoa_nat m = itoa_nat n \<longleftrightarrow> m = n"
  by (metis atoi_itoa)

lemma itoa_nat_digits: "c \<in> set (itoa_nat n) \<Longrightarrow> 48 \<le> (of_char c :: nat) \<and> of_char c < (58 :: nat)"
proof (induction n rule: itoa_nat.induct)
  case (1 n)
  from "1.prems" show ?case
    by (subst (asm) itoa_nat.simps) (auto simp: of_char_digit split: if_splits dest!: "1.IH")
qed

lemma itoa_nat_no_dash: "CHR ''-'' \<notin> set (itoa_nat n)"
proof
  assume "CHR ''-'' \<in> set (itoa_nat n)"
  from itoa_nat_digits [OF this] show False by simp
qed

lemma Itoa_inj [simp]: "Itoa i = Itoa j \<longleftrightarrow> i = j"
proof -
  have ne: "CHR ''-'' # s \<noteq> itoa_nat n" for s n
    using itoa_nat_no_dash [of n] by (metis list.set_intros(1))
  show ?thesis
    using ne by (auto simp: Itoa_def eq_nat_nat_iff dest: sym)
qed

subsection \<open>Atoi\<close>

text \<open>
  \<open>strconv.Atoi\<close>: an optional sign and one or more decimal digits; anything else, and a value outside
  64 bits, is an error.
\<close>

definition is_digit :: "char \<Rightarrow> bool" where
  "is_digit c \<longleftrightarrow> 48 \<le> (of_char c :: nat) \<and> (of_char c :: nat) < 58"

definition int64 :: "int \<Rightarrow> int option" where
  "int64 i = (if - (2 ^ 63) \<le> i \<and> i < 2 ^ 63 then Some i else None)"

definition Atoi_digits :: "bool \<Rightarrow> string \<Rightarrow> int option" where
  "Atoi_digits neg ds =
     (if ds = [] \<or> \<not> list_all is_digit ds then None
      else int64 (if neg then - int (atoi_nat ds) else int (atoi_nat ds)))"

definition Atoi :: "string \<Rightarrow> int option" where
  "Atoi s = (case s of
       [] \<Rightarrow> None
     | c # ds \<Rightarrow> if c = CHR ''-'' then Atoi_digits True ds
                else if c = CHR ''+'' then Atoi_digits False ds else Atoi_digits False s)"

lemma itoa_nat_nonempty [simp]: "itoa_nat n \<noteq> []"
  by (subst itoa_nat.simps) simp

lemma itoa_nat_all_digits: "list_all is_digit (itoa_nat n)"
  by (auto simp: list_all_iff is_digit_def dest: itoa_nat_digits)

lemma itoa_nat_Cons_digit: "itoa_nat n = c # s \<Longrightarrow> is_digit c"
  using itoa_nat_all_digits [of n] by simp

lemma Atoi_Itoa: "- (2 ^ 63) \<le> i \<Longrightarrow> i < 2 ^ 63 \<Longrightarrow> Atoi (Itoa i) = Some i"
proof (cases "i < 0")
  case False
  assume r: "- (2 ^ 63) \<le> i" "i < 2 ^ 63"
  obtain c s where cs: "itoa_nat (nat i) = c # s" by (cases "itoa_nat (nat i)") simp_all
  have "is_digit c" using cs by (rule itoa_nat_Cons_digit)
  then have "c \<noteq> CHR ''-''" "c \<noteq> CHR ''+''" by (auto simp: is_digit_def)
  then show ?thesis
    using False r itoa_nat_all_digits [of "nat i"] atoi_itoa [of "nat i"] cs
    by (simp add: Atoi_def Itoa_def Atoi_digits_def int64_def)
qed (simp add: Atoi_def Itoa_def Atoi_digits_def int64_def itoa_nat_all_digits atoi_itoa)

end
