(* ===== verification/MapReduce.thy ===== *)
theory MapReduce
  imports Strconv ShardCfg "HOL-Library.List_Lexorder"
begin

unbundle bit_operations_syntax

text \<open>
  The sequential MapReduce of \<open>src/main/mrsequential.go\<close>, the applications of \<open>src/mrapps\<close> it runs and
  the types of \<open>src/mr\<close>.

  A Go string that holds text is the list of its runes (code points). For valid UTF-8 the order of
  the bytes is the order of the code points, so \<open><\<close> on strings is the lexicographic order.
  \<open>unicode.IsLetter\<close>, a table of the Unicode standard, is the argument \<open>IsLetter\<close>. Opening and reading
  a file is the argument \<open>readf\<close>, \<^term>\<open>None\<close> where \<open>os.Open\<close> or \<open>ReadAll\<close> fails. \<open>sort.Sort\<close> promises a
  sorted permutation and leaves the order of equal elements open: it is an argument with that
  promise as the hypothesis \<open>sorts_by_key\<close>.
\<close>

type_synonym rune = nat
type_synonym gotext = "rune list"

text \<open>The text of an ASCII literal.\<close>

definition lit :: "string \<Rightarrow> gotext" where
  "lit s = map of_char s"

text \<open>\<open>len(s)\<close> counts the bytes of the UTF-8 encoding.\<close>

definition rune_len :: "rune \<Rightarrow> nat" where
  "rune_len r = (if r < 128 then 1 else if r < 2048 then 2 else if r < 65536 then 3 else 4)"

definition text_len :: "gotext \<Rightarrow> nat" where
  "text_len s = sum_list (map rune_len s)"

definition text_Itoa :: "nat \<Rightarrow> gotext" where
  "text_Itoa n = lit (itoa_nat n)"

record KeyValue =
  Key :: gotext
  Value :: gotext

text \<open>\<open>ihash\<close> keeps 31 bits of the FNV-1a hash.\<close>

definition ihash :: "8 word list \<Rightarrow> int" where
  "ihash key = uint (fnv32a key AND 0x7fffffff)"

lemma ihash_range: "0 \<le> ihash key \<and> ihash key < 2 ^ 31"
proof -
  have "fnv32a key AND 0x7fffffff \<le> 0x7fffffff" by (rule word_and_le1)
  then have "uint (fnv32a key AND 0x7fffffff) \<le> 0x7fffffff" by (simp add: word_le_def)
  then show ?thesis by (simp add: ihash_def)
qed

subsection \<open>The example RPC\<close>

record ExampleArgs =
  ex_X :: int

record ExampleReply =
  ex_Y :: int

definition Coordinator_Example :: "ExampleArgs \<Rightarrow> ExampleReply \<Rightarrow> ExampleReply" where
  "Coordinator_Example args reply = reply\<lparr>ex_Y := ex_X args + 1\<rparr>"

definition Coordinator_Done :: bool where
  "Coordinator_Done = (let ret = False in ret)"

text \<open>
  The worker's side. \<open>rpc.DialHTTP\<close> is the argument \<open>dial\<close>: no connection ends the program; over a connection
  \<open>call\<close> gives the reply or an error.
\<close>

definition coordinatorSock :: "int \<Rightarrow> string" where
  "coordinatorSock uid = ''/var/tmp/5840-mr-'' @ Itoa uid"

definition mr_call ::
  "(string \<Rightarrow> (string \<Rightarrow> ExampleArgs \<Rightarrow> ExampleReply \<Rightarrow> string + ExampleReply) option) \<Rightarrow> int \<Rightarrow> string \<Rightarrow>
     ExampleArgs \<Rightarrow> ExampleReply \<Rightarrow> (ExampleReply \<times> bool) option" where
  "mr_call dial uid rpcname args reply = do {
     c \<leftarrow> dial (coordinatorSock uid);
     case c rpcname args reply of Inr reply \<Rightarrow> Some (reply, True) | Inl err \<Rightarrow> Some (reply, False)
   }"

text \<open>\<open>CallExample\<close>: the number it prints, if the call succeeds.\<close>

definition CallExample ::
  "(string \<Rightarrow> (string \<Rightarrow> ExampleArgs \<Rightarrow> ExampleReply \<Rightarrow> string + ExampleReply) option) \<Rightarrow> int \<Rightarrow> int option option" where
  "CallExample dial uid = do {
     let args = \<lparr>ex_X = 99\<rparr>;
     (reply, ok) \<leftarrow> mr_call dial uid ''Coordinator.Example'' args \<lparr>ex_Y = 0\<rparr>;
     if ok then Some (Some (ex_Y reply)) else Some None
   }"

lemma call_example_prints:
  assumes "dial (coordinatorSock uid) = Some c" "\<And>args reply. c ''Coordinator.Example'' args reply = Inr (Coordinator_Example args reply)"
  shows "CallExample dial uid = Some (Some 100)"
  using assms by (simp add: CallExample_def mr_call_def Coordinator_Example_def)

subsection \<open>The driver\<close>

text \<open>Files in the order of the command line; the first that cannot be read ends the program.\<close>

fun map_files :: "(gotext \<Rightarrow> gotext option) \<Rightarrow> (gotext \<Rightarrow> gotext \<Rightarrow> KeyValue list) \<Rightarrow> gotext list \<Rightarrow>
    KeyValue list \<Rightarrow> KeyValue list option" where
  "map_files readf mapf [] intermediate = Some intermediate"
| "map_files readf mapf (filename # fs) intermediate =
     (case readf filename of
        None \<Rightarrow> None
      | Some content \<Rightarrow> map_files readf mapf fs (intermediate @ mapf filename content))"

text \<open>\<open>for j < len(intermediate) && intermediate[j].Key == intermediate[i].Key { j++ }\<close>.\<close>

function scan_key :: "KeyValue list \<Rightarrow> nat \<Rightarrow> nat \<Rightarrow> nat" where
  "scan_key im i j = (if j < length im \<and> Key (im ! j) = Key (im ! i) then scan_key im i (j + 1) else j)"
  by pat_completeness auto
termination by (relation "measure (\<lambda>(im, i, j). length im - j)") auto

declare scan_key.simps [simp del]

lemma scan_key_ge: "j \<le> scan_key im i j"
proof (induction im i j rule: scan_key.induct)
  case (1 im i j)
  then show ?case by (subst scan_key.simps) auto
qed

definition output_line :: "gotext \<Rightarrow> gotext \<Rightarrow> gotext" where
  "output_line k output = k @ lit '' '' @ output @ [10]"

function reduce_loop :: "(gotext \<Rightarrow> gotext list \<Rightarrow> gotext) \<Rightarrow> KeyValue list \<Rightarrow> nat \<Rightarrow> gotext" where
  "reduce_loop reducef im i =
     (if i < length im
      then let j = scan_key im i (i + 1);
               values = map (\<lambda>k. Value (im ! k)) [i..<j];
               output = reducef (Key (im ! i)) values
           in output_line (Key (im ! i)) output @ reduce_loop reducef im j
      else [])"
  by pat_completeness auto
termination
proof (relation "measure (\<lambda>(r, im, i). length im - i)")
  fix reducef :: "gotext \<Rightarrow> gotext list \<Rightarrow> gotext" and im i j
  assume "i < length im" "j = scan_key im i (i + 1)"
  then show "((reducef, im, j), reducef, im, i) \<in> measure (\<lambda>(r, im, i). length im - i)"
    using scan_key_ge [of "i + 1" im i] by simp
qed simp

declare reduce_loop.simps [simp del]

text \<open>
  The driver; the result is the text that goes to the file \<open>mr-out-0\<close>. The error of \<open>os.Create\<close> is ignored in the code: when
  the file cannot be created the text is lost.
\<close>

definition mrsequential ::
  "(KeyValue list \<Rightarrow> KeyValue list) \<Rightarrow> (gotext \<Rightarrow> gotext option) \<Rightarrow> (gotext \<Rightarrow> gotext \<Rightarrow> KeyValue list) \<Rightarrow>
     (gotext \<Rightarrow> gotext list \<Rightarrow> gotext) \<Rightarrow> gotext list \<Rightarrow> gotext option" where
  "mrsequential sortf readf mapf reducef files =
     (if files = [] then None
      else do {
        intermediate \<leftarrow> map_files readf mapf files [];
        Some (reduce_loop reducef (sortf intermediate) 0)
      })"

text \<open>What \<open>sort.Sort(ByKey(...))\<close> promises.\<close>

definition sorts_by_key :: "(KeyValue list \<Rightarrow> KeyValue list) \<Rightarrow> bool" where
  "sorts_by_key sortf \<longleftrightarrow> (\<forall>kva. mset (sortf kva) = mset kva \<and> sorted (map Key (sortf kva)))"

subsection \<open>Applications\<close>

text \<open>
  \<open>strings.FieldsFunc\<close>: the maximal runs of runes that are not separators; \<open>cur\<close> is the run being read.
\<close>

fun fields_from :: "(rune \<Rightarrow> bool) \<Rightarrow> gotext \<Rightarrow> gotext \<Rightarrow> gotext list" where
  "fields_from sep cur [] = (if cur = [] then [] else [cur])"
| "fields_from sep cur (r # rs) =
     (if sep r then (if cur = [] then fields_from sep [] rs else cur # fields_from sep [] rs)
      else fields_from sep (cur @ [r]) rs)"

definition FieldsFunc :: "gotext \<Rightarrow> (rune \<Rightarrow> bool) \<Rightarrow> gotext list" where
  "FieldsFunc s f = fields_from f [] s"

fun Join_text :: "gotext list \<Rightarrow> gotext \<Rightarrow> gotext" where
  "Join_text [] sep = []"
| "Join_text [v] sep = v"
| "Join_text (v # w # vs) sep = v @ sep @ Join_text (w # vs) sep"

definition wc_Map :: "(rune \<Rightarrow> bool) \<Rightarrow> gotext \<Rightarrow> gotext \<Rightarrow> KeyValue list" where
  "wc_Map IsLetter filename contents =
     map (\<lambda>w. \<lparr>Key = w, Value = lit ''1''\<rparr>) (FieldsFunc contents (\<lambda>r. \<not> IsLetter r))"

definition wc_Reduce :: "gotext \<Rightarrow> gotext list \<Rightarrow> gotext" where
  "wc_Reduce key values = text_Itoa (length values)"

text \<open>
  The indexer iterates over a Go map whose keys are the words of the document: \<open>order\<close> is the order
  of that iteration, any permutation of the distinct words.
\<close>

definition indexer_Map ::
  "(gotext list \<Rightarrow> gotext list) \<Rightarrow> (rune \<Rightarrow> bool) \<Rightarrow> gotext \<Rightarrow> gotext \<Rightarrow> KeyValue list" where
  "indexer_Map order IsLetter document val =
     map (\<lambda>w. \<lparr>Key = w, Value = document\<rparr>) (order (remdups (FieldsFunc val (\<lambda>x. \<not> IsLetter x))))"

definition indexer_Reduce :: "gotext \<Rightarrow> gotext list \<Rightarrow> gotext" where
  "indexer_Reduce key values =
     (let values = sort values in text_Itoa (length values) @ lit '' '' @ Join_text values (lit '',''))"

text \<open>\<open>nocrash.go\<close> and \<open>crash.go\<close> share their \<open>Map\<close> and \<open>Reduce\<close>; \<open>rr\<close> is the random number drawn.\<close>

definition nocrash_maybeCrash :: "nat \<Rightarrow> unit option" where
  "nocrash_maybeCrash rr = (if False \<and> rr < 500 then None else Some ())"

definition crash_maybeCrash :: "nat \<Rightarrow> unit option" where
  "crash_maybeCrash rr = (if rr < 330 then None else Some ())"

definition crash_Map :: "(nat \<Rightarrow> unit option) \<Rightarrow> nat \<Rightarrow> gotext \<Rightarrow> gotext \<Rightarrow> KeyValue list option" where
  "crash_Map maybeCrash rr filename contents = do {
     maybeCrash rr;
     Some [\<lparr>Key = lit ''a'', Value = filename\<rparr>,
           \<lparr>Key = lit ''b'', Value = text_Itoa (text_len filename)\<rparr>,
           \<lparr>Key = lit ''c'', Value = text_Itoa (text_len contents)\<rparr>,
           \<lparr>Key = lit ''d'', Value = lit ''xyzzy''\<rparr>]
   }"

definition crash_Reduce :: "(nat \<Rightarrow> unit option) \<Rightarrow> nat \<Rightarrow> gotext \<Rightarrow> gotext list \<Rightarrow> gotext option" where
  "crash_Reduce maybeCrash rr key values = do {
     maybeCrash rr;
     Some (Join_text (sort values) (lit '' ''))
   }"

definition early_exit_Map :: "gotext \<Rightarrow> gotext \<Rightarrow> KeyValue list" where
  "early_exit_Map filename contents = [\<lparr>Key = filename, Value = lit ''1''\<rparr>]"

definition early_exit_Reduce :: "gotext \<Rightarrow> gotext list \<Rightarrow> gotext" where
  "early_exit_Reduce key values = text_Itoa (length values)"

subsection \<open>The index loops group runs of equal keys\<close>

abbreviation has_key :: "gotext \<Rightarrow> KeyValue \<Rightarrow> bool" where
  "has_key k \<equiv> (\<lambda>kv. Key kv = k)"

function group_runs :: "KeyValue list \<Rightarrow> (gotext \<times> gotext list) list" where
  "group_runs [] = []"
| "group_runs (x # xs) =
     (Key x, Value x # map Value (takeWhile (has_key (Key x)) xs)) # group_runs (dropWhile (has_key (Key x)) xs)"
  by pat_completeness auto
termination by (relation "measure length") (auto simp: le_imp_less_Suc length_dropWhile_le)

lemma scan_key_takeWhile:
  "j \<le> length im \<Longrightarrow> scan_key im i j = j + length (takeWhile (has_key (Key (im ! i))) (drop j im))"
proof (induction im i j rule: scan_key.induct)
  case (1 im i j)
  show ?case
  proof (cases "j < length im")
    case True
    then have "drop j im = im ! j # drop (Suc j) im" by (simp add: Cons_nth_drop_Suc)
    with 1 True show ?thesis by (subst scan_key.simps) auto
  next
    case False
    with 1 show ?thesis by (subst scan_key.simps) auto
  qed
qed

lemma reduce_loop_groups:
  "i \<le> length im \<Longrightarrow>
   reduce_loop r im i = concat (map (\<lambda>(k, vs). output_line k (r k vs)) (group_runs (drop i im)))"
proof (induction r im i rule: reduce_loop.induct)
  case (1 r im i)
  show ?case
  proof (cases "i < length im")
    case True
    define P where "P = has_key (Key (im ! i))"
    define n where "n = length (takeWhile P (drop (Suc i) im))"
    define j where "j = scan_key im i (i + 1)"
    have sj: "scan_key im i (Suc i) = j" by (simp add: j_def)
    have d: "drop i im = im ! i # drop (Suc i) im" using True by (simp add: Cons_nth_drop_Suc)
    have j: "j = Suc i + n" using True scan_key_takeWhile [of "i + 1" im i] by (simp add: j_def n_def P_def)
    have "n \<le> length (drop (Suc i) im)" unfolding n_def by (rule length_takeWhile_le)
    then have jl: "j \<le> length im" using j True by simp
    have tw: "takeWhile P (drop (Suc i) im) = take n (drop (Suc i) im)"
      unfolding n_def by (rule takeWhile_eq_take)
    have dw: "dropWhile P (drop (Suc i) im) = drop j im"
      using j by (simp add: n_def dropWhile_eq_drop add.commute)
    have vs: "map (\<lambda>k. Value (im ! k)) [i..<j] = Value (im ! i) # map Value (takeWhile P (drop (Suc i) im))"
    proof (rule nth_equalityI)
      show "length (map (\<lambda>k. Value (im ! k)) [i..<j]) =
          length (Value (im ! i) # map Value (takeWhile P (drop (Suc i) im)))"
        using j jl by (simp add: tw del: upt_Suc)
      fix k assume "k < length (map (\<lambda>k. Value (im ! k)) [i..<j])"
      then show "map (\<lambda>k. Value (im ! k)) [i..<j] ! k =
          (Value (im ! i) # map Value (takeWhile P (drop (Suc i) im))) ! k"
        using j jl by (cases k) (simp_all add: tw del: upt_Suc)
    qed
    have IH: "reduce_loop r im j = concat (map (\<lambda>(k, vs). output_line k (r k vs)) (group_runs (drop j im)))"
      using 1 True jl by (simp add: j_def Let_def)
    show ?thesis
      using True by (subst reduce_loop.simps) (simp add: sj Let_def vs IH d dw [unfolded P_def] P_def del: upt_Suc)
  next
    case False
    then show ?thesis by (subst reduce_loop.simps) simp
  qed
qed

text \<open>On a sorted list a run holds every pair of its key.\<close>

lemma sorted_takeWhile_key:
  assumes "sorted (map Key (x # xs))"
  shows "takeWhile (has_key (Key x)) xs = filter (has_key (Key x)) xs"
    and "dropWhile (has_key (Key x)) xs = filter (\<lambda>kv. Key kv \<noteq> Key x) xs"
proof -
  have "takeWhile (has_key (Key x)) xs = filter (has_key (Key x)) xs \<and>
      dropWhile (has_key (Key x)) xs = filter (\<lambda>kv. Key kv \<noteq> Key x) xs"
    using assms
  proof (induction xs)
    case (Cons y ys)
    show ?case
    proof (cases "Key y = Key x")
      case False
      with Cons.prems have "\<forall>kv \<in> set ys. Key kv \<noteq> Key x" by force
      with False show ?thesis by (simp add: filter_empty_conv filter_id_conv)
    qed (use Cons in simp)
  qed simp
  then show "takeWhile (has_key (Key x)) xs = filter (has_key (Key x)) xs"
    and "dropWhile (has_key (Key x)) xs = filter (\<lambda>kv. Key kv \<noteq> Key x) xs" by simp_all
qed

definition group_all :: "KeyValue list \<Rightarrow> (gotext \<times> gotext list) list" where
  "group_all kva = map (\<lambda>k. (k, map Value (filter (has_key k) kva))) (sort (remdups (map Key kva)))"

lemma sorted_keys_Cons:
  assumes "sorted (map Key (x # xs))"
  shows "sort (remdups (map Key (x # xs))) =
    Key x # sort (remdups (map Key (filter (\<lambda>kv. Key kv \<noteq> Key x) xs)))"
proof (rule sorted_distinct_set_unique)
  show "sorted (Key x # sort (remdups (map Key (filter (\<lambda>kv. Key kv \<noteq> Key x) xs))))"
    using assms by auto
qed auto

lemma group_runs_sorted: "sorted (map Key kva) \<Longrightarrow> group_runs kva = group_all kva"
proof (induction kva rule: group_runs.induct)
  case 1
  show ?case by (simp add: group_all_def)
next
  case (2 x xs)
  define rest where "rest = filter (\<lambda>kv. Key kv \<noteq> Key x) xs"
  have "sorted (map Key rest)" using 2(2) by (simp add: rest_def sorted_filter)
  then have IH: "group_runs rest = group_all rest"
    using 2(1) by (simp add: sorted_takeWhile_key [OF 2(2)] rest_def)
  have "filter (has_key k) rest = filter (has_key k) (x # xs)" if "k \<in> Key ` set rest" for k
    using that by (auto simp: rest_def intro: filter_cong)
  then have "group_all rest = map (\<lambda>k. (k, map Value (filter (has_key k) (x # xs)))) (sort (remdups (map Key rest)))"
    unfolding group_all_def by (intro map_cong) auto
  with IH show ?case
    using sorted_keys_Cons [OF 2(2)] by (simp add: group_all_def sorted_takeWhile_key [OF 2(2)] rest_def)
qed

subsection \<open>What the driver writes\<close>

definition emitted :: "(gotext \<Rightarrow> gotext \<Rightarrow> KeyValue list) \<Rightarrow> (gotext \<times> gotext) list \<Rightarrow> KeyValue list" where
  "emitted mapf docs = concat (map (\<lambda>(f, content). mapf f content) docs)"

lemma map_files_emitted:
  "map readf (map fst docs) = map (Some \<circ> snd) docs \<Longrightarrow>
   map_files readf mapf (map fst docs) im = Some (im @ emitted mapf docs)"
  by (induction docs arbitrary: im) (auto simp: emitted_def)

lemma map_files_unreadable:
  "f \<in> set fs \<Longrightarrow> readf f = None \<Longrightarrow> map_files readf mapf fs im = None"
  by (induction fs arbitrary: im) (auto split: option.splits)

lemma mset_filter_values: "mset xs = mset ys \<Longrightarrow> mset (map Value (filter P xs)) = mset (map Value (filter P ys))"
  by simp

lemma mset_sorted_keys: "mset xs = mset ys \<Longrightarrow> sort (remdups (map Key xs)) = sort (remdups (map Key ys))"
  by (rule sorted_distinct_set_unique) (auto dest: mset_eq_setD)

lemma mrsequential_groups:
  assumes sortf: "sorts_by_key sortf" and docs: "docs \<noteq> []" "map readf (map fst docs) = map (Some \<circ> snd) docs"
    and order: "\<And>k vs vs'. mset vs = mset vs' \<Longrightarrow> reducef k vs = reducef k vs'"
  shows "mrsequential sortf readf mapf reducef (map fst docs) =
    Some (concat (map (\<lambda>(k, vs). output_line k (reducef k vs)) (group_all (emitted mapf docs))))"
proof -
  define im where "im = emitted mapf docs"
  have s: "mset (sortf im) = mset im" "sorted (map Key (sortf im))"
    using sortf by (auto simp: sorts_by_key_def)
  have r: "reducef k (map Value (filter (has_key k) (sortf im))) = reducef k (map Value (filter (has_key k) im))" for k
    by (rule order) (rule mset_filter_values [OF s(1)])
  have "reduce_loop reducef (sortf im) 0 = concat (map (\<lambda>(k, vs). output_line k (reducef k vs)) (group_all (sortf im)))"
    using reduce_loop_groups [of 0 "sortf im" reducef] by (simp add: group_runs_sorted [OF s(2)])
  also have "\<dots> = concat (map (\<lambda>(k, vs). output_line k (reducef k vs)) (group_all im))"
    by (simp add: group_all_def mset_sorted_keys [OF s(1)] r comp_def)
  finally show ?thesis
    using docs by (simp add: mrsequential_def map_files_emitted im_def)
qed

subsection \<open>The applications compute what they are for\<close>

text \<open>The words of a document and of a list of documents.\<close>

definition doc_words :: "(rune \<Rightarrow> bool) \<Rightarrow> gotext \<Rightarrow> gotext list" where
  "doc_words IsLetter contents = FieldsFunc contents (\<lambda>r. \<not> IsLetter r)"

definition all_words :: "(rune \<Rightarrow> bool) \<Rightarrow> (gotext \<times> gotext) list \<Rightarrow> gotext list" where
  "all_words IsLetter docs = concat (map (doc_words IsLetter \<circ> snd) docs)"

lemma fields_letters:
  "w \<in> set (fields_from sep cur rs) \<Longrightarrow> list_all (\<lambda>r. \<not> sep r) cur \<Longrightarrow> w \<noteq> [] \<and> list_all (\<lambda>r. \<not> sep r) w"
proof (induction rs arbitrary: cur)
  case Nil
  then show ?case by (simp split: if_splits)
next
  case (Cons r rs)
  from Cons.prems Cons.IH [of "[]"] Cons.IH [of "cur @ [r]"] show ?case
    by (simp split: if_splits) metis+
qed

lemma fields_concat: "concat (fields_from sep cur rs) = cur @ filter (\<lambda>r. \<not> sep r) rs"
  by (induction sep cur rs rule: fields_from.induct) auto

lemma wc_emitted: "emitted (wc_Map L) docs = map (\<lambda>w. \<lparr>Key = w, Value = lit ''1''\<rparr>) (all_words L docs)"
  by (induction docs) (auto simp: emitted_def wc_Map_def all_words_def doc_words_def)

lemma length_filter_eq: "length (filter (\<lambda>x. x = w) ws) = count_list ws w"
  by (induction ws) auto

text \<open>
  \<^bold>\<open>C38\<close>: Sequential word count: \<open>mrsequential\<close> with the application \<open>wc\<close> writes, in sorted order, one line
  for every word that occurs in the input files, with the number of its occurrences in all of them.
  This holds for every way \<open>sort.Sort\<close> may order equal keys.
\<close>

theorem wordcount_correct:
  assumes "sorts_by_key sortf" "docs \<noteq> []" "map readf (map fst docs) = map (Some \<circ> snd) docs"
  shows "mrsequential sortf readf (wc_Map IsLetter) wc_Reduce (map fst docs) =
    Some (concat (map (\<lambda>w. output_line w (text_Itoa (count_list (all_words IsLetter docs) w)))
      (sort (remdups (all_words IsLetter docs)))))"
proof -
  have "mset vs = mset vs' \<Longrightarrow> wc_Reduce k vs = wc_Reduce k vs'" for k vs vs'
    unfolding wc_Reduce_def by (metis mset_eq_length)
  from mrsequential_groups [OF assms, where reducef = wc_Reduce and mapf = "wc_Map IsLetter", OF this] show ?thesis
    by (simp add: wc_emitted group_all_def wc_Reduce_def length_filter_eq comp_def)
qed

definition two_docs :: "(gotext \<times> gotext) list" where
  "two_docs = [(lit ''f'', lit ''b a''), (lit ''g'', lit ''a'')]"

definition read_two :: "gotext \<Rightarrow> gotext option" where
  "read_two = map_of two_docs"

definition ascii_letter :: "rune \<Rightarrow> bool" where
  "ascii_letter r \<longleftrightarrow> 65 \<le> r \<and> r \<le> 90 \<or> 97 \<le> r \<and> r \<le> 122"

lemma sort_key_sorts: "sorts_by_key (sort_key Key)"
  by (simp add: sorts_by_key_def)

lemmas two_docs_simps = two_docs_def read_two_def lit_def ascii_letter_def all_words_def doc_words_def FieldsFunc_def
  output_line_def text_Itoa_def itoa_nat.simps digit_def

theorem wordcount_correct_witness:
  "mrsequential (sort_key Key) read_two (wc_Map ascii_letter) wc_Reduce (map fst two_docs) = Some (lit ''a 2'' @ 10 # lit ''b 1'' @ [10])"
proof -
  have d: "two_docs \<noteq> []" "map read_two (map fst two_docs) = map (Some \<circ> snd) two_docs"
    by (simp_all add: two_docs_simps)
  show ?thesis
    using wordcount_correct [OF sort_key_sorts d, of ascii_letter] by (simp add: two_docs_simps)
qed

subsection \<open>The inverted index\<close>

lemma filter_eq_distinct: "distinct ws \<Longrightarrow> filter (\<lambda>x. x = w) ws = (if w \<in> set ws then [w] else [])"
  by (induction ws) auto

definition docs_with :: "(rune \<Rightarrow> bool) \<Rightarrow> (gotext \<times> gotext) list \<Rightarrow> gotext \<Rightarrow> gotext list" where
  "docs_with IsLetter docs w = map fst (filter (\<lambda>d. w \<in> set (doc_words IsLetter (snd d))) docs)"

lemma indexer_values:
  assumes "\<And>ws. mset (order ws) = mset ws"
  shows "map Value (filter (has_key w) (indexer_Map order L d c)) = (if w \<in> set (doc_words L c) then [d] else [])"
proof -
  define ws where "ws = order (remdups (doc_words L c))"
  have "mset ws = mset (remdups (doc_words L c))" using assms by (simp add: ws_def)
  then have ws: "distinct ws" "set ws = set (doc_words L c)"
    by (metis distinct_remdups mset_eq_imp_distinct_iff) (metis \<open>mset ws = _\<close> mset_eq_setD set_remdups)
  have "map Value (filter (has_key w) (map (\<lambda>w. \<lparr>Key = w, Value = d\<rparr>) ws)) = map (\<lambda>_. d) (filter (\<lambda>x. x = w) ws)"
    by (simp add: filter_map comp_def)
  then show ?thesis
    using ws by (simp add: indexer_Map_def ws_def [unfolded doc_words_def, symmetric] filter_eq_distinct)
qed

lemma indexer_emitted:
  assumes "\<And>ws. mset (order ws) = mset ws"
  shows "map Value (filter (has_key w) (emitted (indexer_Map order L) docs)) = docs_with L docs w"
    and "Key ` set (emitted (indexer_Map order L) docs) = set (all_words L docs)"
proof -
  show "map Value (filter (has_key w) (emitted (indexer_Map order L) docs)) = docs_with L docs w"
  proof (induction docs)
    case (Cons d docs)
    from indexer_values [where w = w and L = L and d = "fst d" and c = "snd d", OF assms] Cons show ?case
      by (simp add: emitted_def docs_with_def split_beta)
  qed (simp add: emitted_def docs_with_def)
  have "set (order ws) = set ws" for ws using assms by (metis mset_eq_setD)
  then show "Key ` set (emitted (indexer_Map order L) docs) = set (all_words L docs)"
    by (auto simp: emitted_def indexer_Map_def all_words_def doc_words_def image_Union image_image)
qed

text \<open>
  Inverted index: \<open>mrsequential\<close> with the application \<open>indexer\<close> writes, in sorted order, one line
  for every word of the input, with the number of the documents that contain it and their names in
  sorted order. A word that occurs twice in a document counts once. The output does not depend on
  the order in which Go iterates over the map of words nor on how \<open>sort.Sort\<close> orders equal keys.
\<close>

theorem indexer_correct:
  assumes "sorts_by_key sortf" "docs \<noteq> []" "map readf (map fst docs) = map (Some \<circ> snd) docs"
    and order: "\<And>ws. mset (order ws) = mset ws"
  shows "mrsequential sortf readf (indexer_Map order IsLetter) indexer_Reduce (map fst docs) =
    Some (concat (map (\<lambda>w. output_line w
        (text_Itoa (length (docs_with IsLetter docs w)) @ lit '' '' @ Join_text (sort (docs_with IsLetter docs w)) (lit '','')))
      (sort (remdups (all_words IsLetter docs)))))"
proof -
  have r: "mset vs = mset vs' \<Longrightarrow> indexer_Reduce k vs = indexer_Reduce k vs'" for k vs vs'
    unfolding indexer_Reduce_def by (metis sorted_list_of_multiset_mset)
  have "sort (remdups (map Key (emitted (indexer_Map order IsLetter) docs))) = sort (remdups (all_words IsLetter docs))"
    by (rule sorted_distinct_set_unique) (simp_all add: indexer_emitted [OF order])
  with mrsequential_groups [OF assms(1-3), where reducef = indexer_Reduce and mapf = "indexer_Map order IsLetter", OF r]
  show ?thesis
    by (simp add: group_all_def indexer_Reduce_def indexer_emitted [OF order] comp_def)
qed

theorem indexer_correct_witness:
  "mrsequential (sort_key Key) read_two (indexer_Map rev ascii_letter) indexer_Reduce (map fst two_docs) =
    Some (lit ''a 2 f,g'' @ 10 # lit ''b 1 f'' @ [10])"
proof -
  have d: "two_docs \<noteq> []" "map read_two (map fst two_docs) = map (Some \<circ> snd) two_docs"
    by (simp_all add: two_docs_simps)
  show ?thesis
    using indexer_correct [OF sort_key_sorts d, of rev ascii_letter] by (simp add: two_docs_simps docs_with_def)
qed

end
