(* ===== verification/MrTiming.thy ===== *)
theory MrTiming
  imports MapReduce
begin

text \<open>
  The MapReduce applications that observe how workers run: \<open>src/mrapps/mtiming.go\<close> and \<open>rtiming.go\<close>, which
  count the workers that execute tasks at the same time, and \<open>jobcount.go\<close>, which counts executions.
  They communicate through files of the working directory. The directory is the list of its file names;
  workers are processes with positive identifiers, \<open>syscall.Kill(pid, 0)\<close> succeeds for the processes that
  live. Creating, listing and removing files succeed unless the file to remove is missing, which is a
  panic of the application (\<^term>\<open>None\<close>).
\<close>

subsection \<open>File names\<close>

definition worker_prefix :: "string \<Rightarrow> string" where
  "worker_prefix phase = ''mr-worker-'' @ phase @ ''-''"

definition worker_file :: "string \<Rightarrow> nat \<Rightarrow> string" where
  "worker_file phase pid = worker_prefix phase @ itoa_nat pid"

text \<open>
  \<open>fmt.Sscanf(name, "mr-worker-...-%d", &xpid)\<close> with the result \<open>n == 1 && err == nil\<close>: the literal part,
  then blanks, a sign and digits; what follows the digits is left unread.
\<close>

definition scan_int :: "string \<Rightarrow> int option" where
  "scan_int s =
     (let s = dropWhile (\<lambda>c. c = CHR '' '') s;
          (neg, ds) = (case s of [] \<Rightarrow> (False, []) | c # r \<Rightarrow>
             if c = CHR ''-'' then (True, r) else if c = CHR ''+'' then (False, r) else (False, s))
      in Atoi_digits neg (takeWhile is_digit ds))"

definition Sscanf_d :: "string \<Rightarrow> string \<Rightarrow> int option" where
  "Sscanf_d lead name = (if take (length lead) name = lead then scan_int (drop (length lead) name) else None)"

subsection \<open>nparallel\<close>

text \<open>The loop over the directory.\<close>

fun count_alive :: "(int \<Rightarrow> bool) \<Rightarrow> string \<Rightarrow> string list \<Rightarrow> nat" where
  "count_alive alive phase [] = 0"
| "count_alive alive phase (name # names) =
     (case Sscanf_d (worker_prefix phase) name of
        Some xpid \<Rightarrow> if alive xpid then Suc (count_alive alive phase names) else count_alive alive phase names
      | None \<Rightarrow> count_alive alive phase names)"

text \<open>
  \<open>nparallel\<close> is three stretches, between which other workers run: it creates its file, reads the
  directory, sleeps, and removes its file.
\<close>

definition np_enter :: "string \<Rightarrow> nat \<Rightarrow> string list \<Rightarrow> string list" where
  "np_enter phase pid dir = List.insert (worker_file phase pid) dir"

definition np_leave :: "string \<Rightarrow> nat \<Rightarrow> string list \<Rightarrow> string list option" where
  "np_leave phase pid dir =
     (if worker_file phase pid \<in> set dir then Some (remove1 (worker_file phase pid) dir) else None)"

subsection \<open>The applications\<close>

text \<open>\<open>ts\<close> is the formatted time, \<open>n\<close> what \<open>nparallel\<close> returned.\<close>

definition mtiming_Map :: "nat \<Rightarrow> gotext \<Rightarrow> nat \<Rightarrow> KeyValue list" where
  "mtiming_Map pid ts n =
     [\<lparr>Key = lit (''times-'' @ itoa_nat pid), Value = ts\<rparr>,
      \<lparr>Key = lit (''parallel-'' @ itoa_nat pid), Value = text_Itoa n\<rparr>]"

definition mtiming_Reduce :: "gotext \<Rightarrow> gotext list \<Rightarrow> gotext" where
  "mtiming_Reduce key values = Join_text (sort values) (lit '' '')"

definition rtiming_Map :: "gotext \<Rightarrow> gotext \<Rightarrow> KeyValue list" where
  "rtiming_Map filename contents = map (\<lambda>c. \<lparr>Key = lit [c], Value = lit ''1''\<rparr>) ''abcdefghij''"

definition rtiming_Reduce :: "gotext \<Rightarrow> gotext list \<Rightarrow> nat \<Rightarrow> gotext" where
  "rtiming_Reduce key values n = text_Itoa n"

text \<open>\<open>count\<close> is a variable of the process; the result is the new count, the directory and the pairs.\<close>

definition jobcount_Map :: "nat \<Rightarrow> nat \<Rightarrow> string list \<Rightarrow> nat \<times> string list \<times> KeyValue list" where
  "jobcount_Map me cnt dir =
     (cnt + 1, List.insert (''mr-worker-jobcount-'' @ itoa_nat me @ ''-'' @ itoa_nat cnt) dir,
      [\<lparr>Key = lit ''a'', Value = lit ''x''\<rparr>])"

definition jobcount_Reduce :: "gotext \<Rightarrow> gotext list \<Rightarrow> string list \<Rightarrow> gotext" where
  "jobcount_Reduce key values files =
     text_Itoa (length (filter (\<lambda>f. take 18 f = ''mr-worker-jobcount'') files))"

subsection \<open>Workers in parallel\<close>

datatype np_pc = NpOut | NpEntered | NpCounted nat

record NpSys =
  np_dir :: "string list"
  np_live :: "nat \<Rightarrow> bool"
  np_pcs :: "nat \<Rightarrow> np_pc"

datatype np_action = NpEnter nat | NpScan nat | NpLeave nat | NpDie nat

text \<open>A process that has died does not come back; its file stays behind.\<close>

fun np_act :: "string \<Rightarrow> NpSys \<Rightarrow> np_action \<Rightarrow> NpSys option" where
  "np_act phase s (NpEnter p) =
     (if np_live s p \<and> np_pcs s p = NpOut
      then Some (s\<lparr>np_dir := np_enter phase p (np_dir s), np_pcs := (np_pcs s)(p := NpEntered)\<rparr>) else None)"
| "np_act phase s (NpScan p) =
     (if np_live s p \<and> np_pcs s p = NpEntered
      then Some (s\<lparr>np_pcs := (np_pcs s)(p := NpCounted (count_alive (\<lambda>x. 0 \<le> x \<and> np_live s (nat x)) phase (np_dir s)))\<rparr>)
      else None)"
| "np_act phase s (NpLeave p) =
     (case np_pcs s p of
        NpCounted n \<Rightarrow>
          if np_live s p then do {
            dir \<leftarrow> np_leave phase p (np_dir s);
            Some (s\<lparr>np_dir := dir, np_pcs := (np_pcs s)(p := NpOut)\<rparr>)
          } else None
      | _ \<Rightarrow> None)"
| "np_act phase s (NpDie p) = (if np_live s p then Some (s\<lparr>np_live := (np_live s)(p := False)\<rparr>) else None)"

definition np_step :: "string \<Rightarrow> NpSys \<Rightarrow> NpSys \<Rightarrow> bool" where
  "np_step phase s t \<longleftrightarrow> (\<exists>a. np_act phase s a = Some t)"

definition np_start :: "(nat \<Rightarrow> bool) \<Rightarrow> string list \<Rightarrow> NpSys" where
  "np_start live dir = \<lparr>np_dir = dir, np_live = live, np_pcs = (\<lambda>_. NpOut)\<rparr>"

text \<open>The workers that are inside \<open>nparallel\<close>.\<close>

definition np_inside :: "NpSys \<Rightarrow> nat set" where
  "np_inside s = {p. np_live s p \<and> np_pcs s p \<noteq> NpOut}"

subsection \<open>File names name workers\<close>

lemma worker_file_inj [simp]: "worker_file phase p = worker_file phase q \<longleftrightarrow> p = q"
  by (simp add: worker_file_def)

lemma scan_itoa: "n < 2 ^ 63 \<Longrightarrow> scan_int (itoa_nat n) = Some (int n)"
proof -
  assume n: "n < 2 ^ 63"
  obtain c s where cs: "itoa_nat n = c # s" by (cases "itoa_nat n") simp_all
  have "is_digit c" using cs by (rule itoa_nat_Cons_digit)
  then have c: "c \<noteq> CHR '' ''" "c \<noteq> CHR ''-''" "c \<noteq> CHR ''+''" by (auto simp: is_digit_def)
  have all: "takeWhile is_digit (itoa_nat n) = itoa_nat n"
    using itoa_nat_all_digits [of n] by (simp add: takeWhile_eq_all_conv list_all_iff)
  have "scan_int (itoa_nat n) = Atoi_digits False (takeWhile is_digit (itoa_nat n))"
    using c by (simp add: scan_int_def cs Let_def)
  then show ?thesis
    unfolding all using n atoi_itoa [of n] itoa_nat_all_digits [of n] by (simp add: Atoi_digits_def int64_def)
qed

lemma Sscanf_worker: "p < 2 ^ 63 \<Longrightarrow> Sscanf_d (worker_prefix phase) (worker_file phase p) = Some (int p)"
  by (simp add: Sscanf_d_def worker_file_def scan_itoa)

text \<open>The files of a phase are those of the workers inside and of workers that died there.\<close>

definition np_files :: "string \<Rightarrow> string list \<Rightarrow> NpSys \<Rightarrow> nat set \<Rightarrow> bool" where
  "np_files phase D s F \<longleftrightarrow>
     distinct (np_dir s) \<and> set (np_dir s) = set D \<union> worker_file phase ` F \<and>
     (\<forall>p. np_pcs s p \<noteq> NpOut \<longrightarrow> p \<in> F) \<and> (\<forall>p\<in>F. np_live s p \<longrightarrow> np_pcs s p \<noteq> NpOut) \<and>
     (\<forall>p. np_live s p \<or> p \<in> F \<longrightarrow> p < 2 ^ 63)"

definition foreign :: "string \<Rightarrow> string list \<Rightarrow> bool" where
  "foreign phase D \<longleftrightarrow> distinct D \<and> list_all (\<lambda>n. Sscanf_d (worker_prefix phase) n = None) D"

lemma foreign_no_worker: "foreign phase D \<Longrightarrow> p < 2 ^ 63 \<Longrightarrow> worker_file phase p \<notin> set D"
  using Sscanf_worker by (fastforce simp: foreign_def list_all_iff)

lemma count_alive_filter:
  "count_alive alive phase names =
     length (filter (\<lambda>n. case Sscanf_d (worker_prefix phase) n of Some x \<Rightarrow> alive x | None \<Rightarrow> False) names)"
  by (induction names) (auto split: option.splits)

lemma count_alive_inside:
  assumes f: "np_files phase D s F" and D: "foreign phase D"
  shows "count_alive (\<lambda>x. 0 \<le> x \<and> np_live s (nat x)) phase (np_dir s) = card (np_inside s)"
proof -
  let ?P = "\<lambda>n. case Sscanf_d (worker_prefix phase) n of Some x \<Rightarrow> 0 \<le> x \<and> np_live s (nat x) | None \<Rightarrow> False"
  have F: "p < 2 ^ 63" if "p \<in> F" for p using f that by (auto simp: np_files_def)
  have "set (filter ?P (np_dir s)) = worker_file phase ` np_inside s"
  proof -
    have "\<not> ?P n" if "n \<in> set D" for n using D that by (auto simp: foreign_def list_all_iff)
    moreover have "?P (worker_file phase p) \<longleftrightarrow> np_live s p" if "p \<in> F" for p
      using F [OF that] by (simp add: Sscanf_worker)
    moreover have "np_inside s = {p \<in> F. np_live s p}" using f by (auto simp: np_files_def np_inside_def)
    moreover have "set (np_dir s) = set D \<union> worker_file phase ` F" using f by (simp add: np_files_def)
    ultimately show ?thesis by auto
  qed
  moreover have "distinct (filter ?P (np_dir s))" using f by (simp add: np_files_def)
  moreover have "inj_on (worker_file phase) (np_inside s)" by (simp add: inj_on_def)
  ultimately show ?thesis
    unfolding count_alive_filter by (metis card_image distinct_card)
qed

lemma np_files_step:
  assumes f: "np_files phase D s F" and D: "foreign phase D" and st: "np_act phase s a = Some t"
  shows "\<exists>F'. np_files phase D t F'"
proof (cases a)
  case (NpEnter p)
  with f st have "np_files phase D t (insert p F)"
    by (auto simp: np_files_def np_enter_def split: if_splits)
  then show ?thesis ..
next
  case (NpScan p)
  with f st have "np_files phase D t F"
    by (auto simp: np_files_def split: if_splits)
  then show ?thesis ..
next
  case (NpLeave p)
  with st f have p: "p \<in> F" "np_live s p"
    and t: "t = s\<lparr>np_dir := remove1 (worker_file phase p) (np_dir s), np_pcs := (np_pcs s)(p := NpOut)\<rparr>"
    by (auto simp: np_leave_def np_files_def bind_eq_Some_conv split: np_pc.splits if_splits)
  have "worker_file phase p \<notin> set D" using f p D by (intro foreign_no_worker) (auto simp: np_files_def)
  then have "set D \<union> worker_file phase ` F - {worker_file phase p} = set D \<union> worker_file phase ` (F - {p})"
    by auto
  with f p have "np_files phase D t (F - {p})"
    by (auto simp: np_files_def t set_remove1_eq)
  then show ?thesis ..
next
  case (NpDie p)
  with f st have "np_files phase D t F"
    by (auto simp: np_files_def split: if_splits)
  then show ?thesis ..
qed

lemma np_reach_files:
  assumes "reach (np_start live D) (np_step phase) s" "foreign phase D" "\<forall>p. live p \<longrightarrow> p < 2 ^ 63"
  shows "\<exists>F. np_files phase D s F"
  using assms(1)
proof (induction rule: reach.induct)
  case reach_init
  have "np_files phase D (np_start live D) {}"
    using assms(2,3) by (simp add: np_files_def np_start_def foreign_def)
  then show ?case ..
next
  case (reach_step s t)
  then show ?case using np_files_step [OF _ assms(2)] by (auto simp: np_step_def)
qed

text \<open>
  \<open>nparallel\<close> returns the number of workers that are inside it, the caller included, at the moment it reads
  the directory: files that belong to other phases or that dead workers left behind do not count. And
  removing the own file never fails, so the application does not panic.
\<close>

theorem nparallel_counts:
  assumes "reach (np_start live D) (np_step phase) s" "foreign phase D" "\<forall>p. live p \<longrightarrow> p < 2 ^ 63"
  shows "(np_live s p \<and> np_pcs s p = NpEntered \<longrightarrow>
      (\<exists>t. np_act phase s (NpScan p) = Some t \<and> np_pcs t p = NpCounted (card (np_inside s)))) \<and>
    (np_live s p \<and> np_pcs s p = NpCounted n \<longrightarrow> (\<exists>t. np_act phase s (NpLeave p) = Some t))"
proof -
  from np_reach_files [OF assms] obtain F where f: "np_files phase D s F" ..
  then have "worker_file phase p \<in> set (np_dir s)" if "np_pcs s p \<noteq> NpOut"
    using that by (auto simp: np_files_def)
  then show ?thesis using count_alive_inside [OF f assms(2)] by (auto simp: np_leave_def)
qed

subsection \<open>Executions are counted\<close>

text \<open>The map tasks of a job, each by a worker process, with the counters of the processes.\<close>

fun jobcount_run :: "nat list \<Rightarrow> (nat \<Rightarrow> nat) \<Rightarrow> string list \<Rightarrow> (nat \<Rightarrow> nat) \<times> string list" where
  "jobcount_run [] cnt dir = (cnt, dir)"
| "jobcount_run (me # ps) cnt dir =
     (case jobcount_Map me (cnt me) dir of (n, dir, kva) \<Rightarrow> jobcount_run ps (cnt(me := n)) dir)"

definition job_file :: "nat \<times> nat \<Rightarrow> string" where
  "job_file x = ''mr-worker-jobcount-'' @ itoa_nat (fst x) @ ''-'' @ itoa_nat (snd x)"

lemma append_dash_inj:
  "CHR ''-'' \<notin> set xs \<Longrightarrow> CHR ''-'' \<notin> set ys \<Longrightarrow> xs @ CHR ''-'' # a = ys @ CHR ''-'' # b \<longleftrightarrow> xs = ys \<and> a = b"
  by (auto simp: append_eq_append_conv2 append_eq_Cons_conv Cons_eq_append_conv)

lemma job_file_inj [simp]: "job_file x = job_file y \<longleftrightarrow> x = y"
  using append_dash_inj [OF itoa_nat_no_dash itoa_nat_no_dash] by (auto simp: job_file_def prod_eq_iff)

lemma jobcount_files:
  assumes "distinct dir" "\<forall>p n. cnt p \<le> n \<longrightarrow> job_file (p, n) \<notin> set dir"
  shows "length (filter (\<lambda>f. take 18 f = ''mr-worker-jobcount'') (snd (jobcount_run ps cnt dir))) =
    length (filter (\<lambda>f. take 18 f = ''mr-worker-jobcount'') dir) + length ps"
  using assms
proof (induction ps arbitrary: cnt dir)
  case (Cons me ps)
  let ?f = "job_file (me, cnt me)"
  have new: "?f \<notin> set dir" using Cons.prems(2) by blast
  have "length (filter (\<lambda>f. take 18 f = ''mr-worker-jobcount'') (snd (jobcount_run ps (cnt(me := cnt me + 1)) (?f # dir)))) =
    length (filter (\<lambda>f. take 18 f = ''mr-worker-jobcount'') (?f # dir)) + length ps"
    by (rule Cons.IH) (use Cons.prems new in \<open>auto split: if_splits\<close>)
  then show ?case using new by (simp add: jobcount_Map_def job_file_def List.insert_def)
qed simp

text \<open>In a directory without such files the reduce task reports the number of executions of map tasks.\<close>

theorem jobcount_counts:
  assumes "distinct dir" "list_all (\<lambda>f. take 18 f \<noteq> ''mr-worker-jobcount'') dir"
  shows "jobcount_Reduce key values (snd (jobcount_run ps (\<lambda>_. 0) dir)) = text_Itoa (length ps)"
proof -
  have "filter (\<lambda>f. take 18 f = ''mr-worker-jobcount'') dir = []"
    using assms(2) by (auto simp: filter_empty_conv list_all_iff)
  moreover have "\<forall>p n. job_file (p, n) \<notin> set dir"
    using assms(2) by (auto simp: list_all_iff job_file_def)
  ultimately show ?thesis
    using jobcount_files [OF assms(1), of "\<lambda>_. 0" ps] by (simp add: jobcount_Reduce_def)
qed

end
