(* ===== verification/RsmSrv.thy ===== *)
theory RsmSrv
  imports Rpc Persister
begin

text \<open>
  The state machine with which the replicated state machine is tested, \<open>src/kvraft1/rsm/server.go\<close>: a
  counter that is incremented by commands, saved in snapshots and read by the tester, through the RPC
  handlers of the server and the proxy of \<open>src/kvraft1/rsm/proxy.go\<close>; and \<open>src/kvraft1/rsm/rsm.go\<close> as far as it
  has a body: \<open>Submit\<close> answers \<open>ErrWrongLeader\<close> without proposing its command.

  A request is a value of any type: those the server distinguishes are constructors, every other type is
  \<open>ReqOther\<close>. \<open>log.Fatalf\<close> is \<^term>\<open>None\<close>. \<open>enc\<close> and \<open>dec\<close> are \<open>labgob\<close>'s encoding of an integer. A remote
  call that fails is \<^term>\<open>None\<close> of the argument \<open>call\<close>.
\<close>

subsection \<open>Requests and state\<close>

datatype RsmReq = Inc | Null | Dec | ReqOther

datatype RsmRep = IncRep int | NullRep

record rsmSrv =
  rs_me :: int
  rs_counter :: int

definition newRSMSrv :: "int \<Rightarrow> rsmSrv" where
  "newRSMSrv srv = \<lparr>rs_me = srv, rs_counter = 0\<rparr>"

definition rs_GetCounter :: "rsmSrv \<Rightarrow> int" where
  "rs_GetCounter rs = rs_counter rs"

subsection \<open>Commands\<close>

text \<open>
  \<open>DoOp\<close> of an \<open>Inc\<close> holds the mutex for the increment only: the counter in the reply is read after the
  mutex has been released. These are two stretches, \<open>DoOp_add\<close> and \<open>DoOp_reply\<close>; \<open>DoOp\<close> is one after the
  other, the execution by a single goroutine.
\<close>

definition DoOp_add :: "rsmSrv \<Rightarrow> rsmSrv" where
  "DoOp_add rs = rs\<lparr>rs_counter := rs_counter rs + 1\<rparr>"

definition DoOp_reply :: "rsmSrv \<Rightarrow> RsmRep" where
  "DoOp_reply rs = IncRep (rs_counter rs)"

fun DoOp :: "rsmSrv \<Rightarrow> RsmReq \<Rightarrow> (rsmSrv \<times> RsmRep) option" where
  "DoOp rs Inc = (let rs = DoOp_add rs in Some (rs, DoOp_reply rs))"
| "DoOp rs Null = Some (rs, NullRep)"
| "DoOp rs _ = None"

fun DoOps :: "rsmSrv \<Rightarrow> RsmReq list \<Rightarrow> (rsmSrv \<times> RsmRep list) option" where
  "DoOps rs [] = Some (rs, [])"
| "DoOps rs (req # reqs) = do {
     (rs, rep) \<leftarrow> DoOp rs req;
     (rs, reps) \<leftarrow> DoOps rs reqs;
     Some (rs, rep # reps)
   }"

subsection \<open>Snapshots\<close>

definition rs_Snapshot :: "(int \<Rightarrow> bytes) \<Rightarrow> rsmSrv \<Rightarrow> bytes" where
  "rs_Snapshot enc rs = enc (rs_counter rs)"

definition rs_Restore :: "(bytes \<Rightarrow> int option) \<Rightarrow> rsmSrv \<Rightarrow> bytes \<Rightarrow> rsmSrv option" where
  "rs_Restore dec rs data = do {
     n \<leftarrow> dec data;
     Some (rs\<lparr>rs_counter := n\<rparr>)
   }"

subsection \<open>Submission\<close>

text \<open>A reply of \<open>nil\<close> is \<^term>\<open>None\<close>.\<close>

definition RSM_Submit :: "RsmReq \<Rightarrow> Err \<times> RsmRep option" where
  "RSM_Submit req = (ErrWrongLeader, None)"

definition rs_Submit :: "rsmSrv \<Rightarrow> RsmReq \<Rightarrow> Err \<times> RsmRep option" where
  "rs_Submit rs req = RSM_Submit req"

record SubmitReply =
  su_Err :: Err
  su_Rep :: "RsmRep option"

definition SubmitRPC :: "rsmSrv \<Rightarrow> RsmReq \<Rightarrow> SubmitReply \<Rightarrow> SubmitReply" where
  "SubmitRPC rs req rep = (case rs_Submit rs req of (err, r) \<Rightarrow> rep\<lparr>su_Err := err, su_Rep := r\<rparr>)"

definition GetCounterRPC :: "rsmSrv \<Rightarrow> int" where
  "GetCounterRPC rs = rs_GetCounter rs"

text \<open>The tester's side: after a call that failed the reply is a zero value.\<close>

definition proxy_Submit :: "(RsmReq \<Rightarrow> SubmitReply option) \<Rightarrow> RsmReq \<Rightarrow> Err \<times> RsmRep option" where
  "proxy_Submit call req =
     (let rep = (case call req of Some rep \<Rightarrow> rep | None \<Rightarrow> \<lparr>su_Err = ErrZero, su_Rep = None\<rparr>)
      in (su_Err rep, su_Rep rep))"

definition proxy_GetCounter :: "int option \<Rightarrow> int" where
  "proxy_GetCounter call = (case call of Some n \<Rightarrow> n | None \<Rightarrow> 0)"

subsection \<open>A single goroutine executes the commands\<close>

definition incs :: "RsmReq list \<Rightarrow> nat" where
  "incs reqs = length (filter (\<lambda>r. r = Inc) reqs)"

definition known_reqs :: "RsmReq list \<Rightarrow> bool" where
  "known_reqs reqs \<longleftrightarrow> list_all (\<lambda>r. r = Inc \<or> r = Null) reqs"

text \<open>The reply to each command, from the commands before it.\<close>

definition rsm_reply :: "int \<Rightarrow> RsmReq list \<Rightarrow> nat \<Rightarrow> RsmRep" where
  "rsm_reply n reqs i = (if reqs ! i = Inc then IncRep (n + int (incs (take (Suc i) reqs))) else NullRep)"

lemma rsm_reply_Cons: "map (rsm_reply n (r # reqs)) [0..<Suc (length reqs)] =
    rsm_reply n [r] 0 # map (rsm_reply (n + (if r = Inc then 1 else 0)) reqs) [0..<length reqs]"
  by (rule nth_equalityI) (auto simp: rsm_reply_def incs_def nth_Cons nth_append simp del: upt_Suc split: nat.splits)

text \<open>
  Commands executed one after the other are numbered: the counter is the number of increments, and the
  reply to an \<open>Inc\<close> is its number among them. A command of another type ends the server.
\<close>

theorem rsm_counts:
  "DoOps rs reqs =
     (if known_reqs reqs
      then Some (rs\<lparr>rs_counter := rs_counter rs + int (incs reqs)\<rparr>,
                 map (rsm_reply (rs_counter rs) reqs) [0..<length reqs])
      else None)"
proof (induction reqs arbitrary: rs)
  case (Cons r reqs)
  show ?case
    by (cases r) (auto simp: Cons.IH DoOp_add_def DoOp_reply_def Let_def known_reqs_def rsm_reply_Cons
        simp del: upt_Suc, auto simp: incs_def rsm_reply_def)
qed (simp add: known_reqs_def incs_def)

lemma DoOps_append:
  "DoOps r (xs @ ys) = do { (r1, a) \<leftarrow> DoOps r xs; (r2, b) \<leftarrow> DoOps r1 ys; Some (r2, a @ b) }"
  by (induction xs arbitrary: r) (auto split: Option.bind_split)

text \<open>
  A replica that restores a snapshot goes on as if it had executed the commands itself: the replies to
  the commands after the snapshot are the same.
\<close>

theorem rsm_snapshot_resumes:
  assumes "\<And>n. dec (enc n) = Some n" "DoOps (newRSMSrv me) (xs @ ys) = Some (rs, reps)"
    "DoOps (newRSMSrv me) xs = Some (rs1, reps1)"
  shows "\<exists>rs2 rs3 reps2. rs_Restore dec (newRSMSrv me') (rs_Snapshot enc rs1) = Some rs2 \<and>
    DoOps rs2 ys = Some (rs3, reps2) \<and> rs_GetCounter rs3 = rs_GetCounter rs \<and> reps = reps1 @ reps2"
proof -
  from assms(2,3) obtain b where b: "DoOps rs1 ys = Some (rs, b)" "reps = reps1 @ b"
    by (auto simp: DoOps_append bind_eq_Some_conv)
  then show ?thesis
    using assms(1) by (auto simp: rs_Restore_def rs_Snapshot_def rsm_counts rs_GetCounter_def split: if_splits)
qed

subsection \<open>Several goroutines execute commands\<close>

text \<open>
  If \<open>DoOp\<close> is called by several goroutines, increments may come between the increment of a call and its
  reply. \<open>par_num g\<close> is the number of the increment that goroutine \<open>g\<close> has made and not yet answered,
  \<open>par_out\<close> the numbers and replies of the calls that have returned.
\<close>

record RsmPar =
  par_srv :: rsmSrv
  par_num :: "nat \<Rightarrow> int option"
  par_out :: "(int \<times> RsmRep) list"

datatype par_action = ParAdd nat | ParReply nat

fun par_act :: "RsmPar \<Rightarrow> par_action \<Rightarrow> RsmPar option" where
  "par_act s (ParAdd g) =
     (case par_num s g of
        None \<Rightarrow> let rs = DoOp_add (par_srv s) in Some (s\<lparr>par_srv := rs, par_num := (par_num s)(g \<mapsto> rs_counter rs)\<rparr>)
      | Some _ \<Rightarrow> None)"
| "par_act s (ParReply g) =
     (case par_num s g of
        None \<Rightarrow> None
      | Some n \<Rightarrow> Some (s\<lparr>par_num := (par_num s)(g := None), par_out := par_out s @ [(n, DoOp_reply (par_srv s))]\<rparr>))"

definition par_init :: "int \<Rightarrow> RsmPar" where
  "par_init me = \<lparr>par_srv = newRSMSrv me, par_num = (\<lambda>_. None), par_out = []\<rparr>"

definition par_inv :: "RsmPar \<Rightarrow> bool" where
  "par_inv s \<longleftrightarrow>
     (\<forall>g n. par_num s g = Some n \<longrightarrow> n \<le> rs_counter (par_srv s)) \<and>
     (\<forall>x\<in>set (par_out s). \<exists>m. snd x = IncRep m \<and> fst x \<le> m \<and> m \<le> rs_counter (par_srv s))"

lemma par_act_inv: "par_inv s \<Longrightarrow> par_act s a = Some t \<Longrightarrow> par_inv t"
  by (cases a) (fastforce simp: par_inv_def DoOp_add_def DoOp_reply_def Let_def split: option.splits if_splits)+

text \<open>
  The reply to an increment is at least its number and at most the number of increments made; but two
  increments may be given the same reply.
\<close>

theorem rsm_parallel_replies:
  assumes "run par_act (par_init me) as = Some s" "(n, IncRep m) \<in> set (par_out s)"
  shows "n \<le> m \<and> m \<le> rs_GetCounter (par_srv s)"
proof -
  have "par_inv s" by (rule run_keeps [OF assms(1) _ par_act_inv]) (simp_all add: par_inv_def par_init_def)
  with assms(2) show ?thesis by (auto simp: par_inv_def rs_GetCounter_def)
qed

theorem rsm_replies_collide:
  "map_option par_out (run par_act (par_init me) [ParAdd 0, ParAdd 1, ParReply 0, ParReply 1]) =
     Some [(1, IncRep 2), (2, IncRep 2)]"
  by (simp add: par_init_def newRSMSrv_def DoOp_add_def DoOp_reply_def Let_def)

end
