(* ===== verification/Daemon.thy ===== *)
theory Daemon
  imports Strconv Labrpc
begin

text \<open>
  Server processes: the tester's side \<open>src/tester1/daemonclnt.go\<close> and the process's side
  \<open>src/tester1/daemonsrv.go\<close>.

  The tester starts a server as a process with a command line, sends it the saved persistent state
  with the control RPC \<open>Init\<close>, and before it kills it fetches the state back with
  \<open>CheckpointPersister\<close>. The record \<open>DaemonSrv\<close> is the process; a \<open>DaemonClnt\<close> holds the process it
  controls, and a control RPC over the UNIX socket to a live process is a call of the method.
  Whether \<open>exec\<close> starts the process is an argument. The names are those of \<open>group.go\<close>.
\<close>

definition ServerName :: "int \<Rightarrow> int \<Rightarrow> string" where
  "ServerName gid i = ''server-'' @ Itoa gid @ ''-'' @ Itoa i"

subsection \<open>The process\<close>

record 'v InitArgs =
  ia_Raftstate :: "'v list"
  ia_Snapshot :: bytes

record 'v CheckpointPersisterReply =
  cr_Raftstate :: "'v list"
  cr_Snapshot :: bytes

record StateSizeReply =
  ss_RaftSize :: nat
  ss_SnapSize :: nat

text \<open>
  \<open>ds_persister\<close> is \<^term>\<open>None\<close> until \<open>Init\<close> has sent one over the channel; \<open>ds_open\<close> says that the
  process still exchanges messages with the tester (\<open>rpcc\<close> and \<open>rpcs\<close> are not closed).
\<close>

record 'v DaemonSrv =
  ds_endName :: string
  ds_gid :: int
  ds_sid :: int
  ds_ends :: "string list"
  ds_tester :: string
  ds_persister :: "'v Persister option"
  ds_open :: bool

datatype DaemonErr = BadNumber string | NotStarted

text \<open>
  \<open>for i, args := range os.Args[1:]\<close>: skips the arguments that begin with a dash; \<open>args[0]\<close> of an empty
  argument panics.
\<close>

fun skip_options :: "string list \<Rightarrow> int \<Rightarrow> int option" where
  "skip_options [] s = Some s"
| "skip_options (a # as) s =
     (case a of [] \<Rightarrow> None
      | c # _ \<Rightarrow> if c = CHR ''-'' then skip_options as (s + 1) else Some s)"

text \<open>\<open>net.MakeEnd(e)\<close> for every end name; a name that is taken is fatal.\<close>

fun make_ends :: "(string, string, 'o, 'w) Network \<Rightarrow> string list \<Rightarrow> (string, string, 'o, 'w) Network option" where
  "make_ends net [] = Some net"
| "make_ends net (e # es) = do { net \<leftarrow> MakeEnd net e; make_ends net es }"

text \<open>
  \<open>InitDaemon\<close> up to the point where it waits for \<open>Init\<close>: the process that is left waiting, with the numbers
  of its group and of the server that it will make, an error returned to \<open>main\<close>, or a panic. The fields \<open>gid\<close>
  and \<open>sid\<close> of the struct are not set.
\<close>

definition InitDaemon :: "(nat \<Rightarrow> ('o, 'w) Server) \<Rightarrow> string list \<Rightarrow> (DaemonErr + 'v DaemonSrv \<times> int \<times> int) option" where
  "InitDaemon heap args = do {
     s \<leftarrow> skip_options args 0;
     g \<leftarrow> go_nth args s;
     case Atoi g of None \<Rightarrow> Some (Inl (BadNumber g)) | Some gid \<Rightarrow> do {
     i \<leftarrow> go_nth args (s + 1);
     case Atoi i of None \<Rightarrow> Some (Inl (BadNumber i)) | Some sid \<Rightarrow> do {
     n \<leftarrow> go_nth args (s + 2);
     case Atoi n of None \<Rightarrow> Some (Inl (BadNumber n)) | Some nsrv \<Rightarrow> do {
     testerEndName \<leftarrow> go_nth args (s + 3);
     rest \<leftarrow> go_from args (s + 4);
     endNames \<leftarrow> go_upto rest nsrv;
     me \<leftarrow> go_nth endNames sid;
     make_ends (MakeNetwork heap :: (string, string, 'o, 'w) Network) endNames;
     Some (Inr (\<lparr>ds_endName = me, ds_gid = 0, ds_sid = 0, ds_ends = endNames, ds_tester = testerEndName,
                 ds_persister = None, ds_open = True\<rparr>, gid, sid))
     }}}
   }"

definition DaemonSrv_Init :: "'v DaemonSrv \<Rightarrow> 'v InitArgs \<Rightarrow> 'v DaemonSrv" where
  "DaemonSrv_Init ds args =
     (let p = Save MakePersister (ia_Raftstate args) (ia_Snapshot args) in ds\<lparr>ds_persister := Some p\<rparr>)"

text \<open>Without a persister the methods dereference nil.\<close>

definition DaemonSrv_CheckpointPersister ::
  "'v DaemonSrv \<Rightarrow> ('v DaemonSrv \<times> 'v CheckpointPersisterReply) option" where
  "DaemonSrv_CheckpointPersister ds = do {
     let ds = ds\<lparr>ds_open := False\<rparr>;
     p \<leftarrow> map_option Checkpoint (ds_persister ds);
     Some (ds, \<lparr>cr_Raftstate = ReadRaftState p, cr_Snapshot = ReadSnapshot p\<rparr>)
   }"

definition DaemonSrv_StateSize :: "('v \<Rightarrow> nat) \<Rightarrow> 'v DaemonSrv \<Rightarrow> StateSizeReply option" where
  "DaemonSrv_StateSize size_of ds = do {
     p \<leftarrow> ds_persister ds;
     Some \<lparr>ss_RaftSize = RaftStateSize size_of p, ss_SnapSize = SnapshotSize p\<rparr>
   }"

subsection \<open>The tester's side\<close>

record 'v DaemonClnt =
  dc_srv :: int
  dc_server :: string
  dc_endName :: string
  dc_proc :: "'v DaemonSrv"

definition options :: "bool \<Rightarrow> string list" where
  "options UseRaftStateMachine = (if UseRaftStateMachine then [''--raft-state-machine''] else [])"

definition daemon_args :: "bool \<Rightarrow> string list \<Rightarrow> string \<Rightarrow> int \<Rightarrow> int \<Rightarrow> string list \<Rightarrow> string list" where
  "daemon_args UseRaftStateMachine pargs endName gid srv endNames =
     pargs @ options UseRaftStateMachine @
     [Itoa gid, Itoa srv, Itoa (int (length endNames)), endName] @ endNames"

text \<open>
  \<open>runDaemon\<close>: \<open>started\<close> says whether \<open>cmd.Start\<close> succeeds. A process that ends with an error before it
  serves its control socket leaves a client without a server; the model reports it as the error.
\<close>

definition runDaemon ::
  "(nat \<Rightarrow> ('o, 'w) Server) \<Rightarrow> bool \<Rightarrow> bool \<Rightarrow> string list \<Rightarrow> string \<Rightarrow> int \<Rightarrow> int \<Rightarrow> string list \<Rightarrow>
     (DaemonErr + 'v DaemonClnt) option" where
  "runDaemon heap started UseRaftStateMachine pargs endName gid srv endNames =
     (if \<not> started then Some (Inl NotStarted)
      else do {
        me \<leftarrow> go_nth endNames srv;
        proc \<leftarrow> InitDaemon heap (daemon_args UseRaftStateMachine pargs endName gid srv endNames);
        case proc of Inl e \<Rightarrow> Some (Inl e)
        | Inr (ds, _, _) \<Rightarrow> Some (Inr \<lparr>dc_srv = srv, dc_server = ServerName gid srv, dc_endName = me, dc_proc = ds\<rparr>)
      })"

definition DaemonClnt_init :: "'v DaemonClnt \<Rightarrow> 'v Persister \<Rightarrow> 'v DaemonClnt" where
  "DaemonClnt_init dc persister =
     dc\<lparr>dc_proc := DaemonSrv_Init (dc_proc dc)
           \<lparr>ia_Raftstate = ReadRaftState persister, ia_Snapshot = ReadSnapshot persister\<rparr>\<rparr>"

definition checkpointPersister :: "'v DaemonClnt \<Rightarrow> ('v DaemonClnt \<times> 'v Persister) option" where
  "checkpointPersister dc = do {
     (ds, reply) \<leftarrow> DaemonSrv_CheckpointPersister (dc_proc dc);
     Some (dc\<lparr>dc_proc := ds\<rparr>, Save MakePersister (cr_Raftstate reply) (cr_Snapshot reply))
   }"

definition DaemonClnt_stateSize :: "('v \<Rightarrow> nat) \<Rightarrow> 'v DaemonClnt \<Rightarrow> (nat \<times> nat) option" where
  "DaemonClnt_stateSize size_of dc = do {
     reply \<leftarrow> DaemonSrv_StateSize size_of (dc_proc dc);
     Some (ss_RaftSize reply, ss_SnapSize reply)
   }"

subsection \<open>Server names\<close>

lemma append_sep_eq: "a \<notin> set xs \<Longrightarrow> a \<notin> set ys \<Longrightarrow> xs @ a # s = ys @ a # t \<longleftrightarrow> xs = ys \<and> s = t"
proof (induction xs arbitrary: ys)
  case Nil
  then show ?case by (cases ys) auto
next
  case (Cons x xs)
  then show ?case by (cases ys) auto
qed

lemma itoa_nat_not_dash: "itoa_nat n @ s \<noteq> CHR ''-'' # t"
  using itoa_nat_no_dash [of n] by (cases "itoa_nat n") auto

lemma Itoa_sep: "Itoa i @ CHR ''-'' # s = Itoa j @ CHR ''-'' # t \<longleftrightarrow> i = j \<and> s = t"
  using itoa_nat_not_dash itoa_nat_not_dash [symmetric]
  by (auto simp: Itoa_def append_sep_eq itoa_nat_no_dash eq_nat_nat_iff)

lemma ServerName_inj [simp]: "ServerName g i = ServerName h j \<longleftrightarrow> g = h \<and> i = j"
  by (simp add: ServerName_def Itoa_sep)

subsection \<open>The command line is read back as it was written\<close>

definition option_like :: "string \<Rightarrow> bool" where
  "option_like a \<longleftrightarrow> a \<noteq> [] \<and> hd a = CHR ''-''"

lemma skip_options_prefix:
  "list_all option_like xs \<Longrightarrow> skip_options (xs @ ys) s = skip_options ys (s + int (length xs))"
  by (induction xs arbitrary: s) (auto simp: option_like_def add.assoc split: list.splits)

lemma skip_options_number: "0 \<le> i \<Longrightarrow> skip_options (Itoa i # ys) s = Some s"
proof -
  assume "0 \<le> i"
  then obtain c t where "Itoa i = c # t" "c \<noteq> CHR ''-''"
    using itoa_nat_no_dash [of "nat i"] by (cases "itoa_nat (nat i)") (auto simp: Itoa_def)
  then show ?thesis by simp
qed

lemma make_ends_fresh:
  "distinct es \<Longrightarrow> set es \<inter> nw_ends net = {} \<Longrightarrow> \<exists>net'. make_ends net es = Some net'"
proof (induction es arbitrary: net)
  case (Cons e es)
  have "\<exists>net'. make_ends net1 es = Some net'" if "MakeEnd net e = Some net1" for net1
  proof (rule Cons.IH)
    show "distinct es" using Cons.prems by simp
    show "set es \<inter> nw_ends net1 = {}" using that Cons.prems by (auto simp: MakeEnd_def split: if_splits)
  qed
  then show ?case using Cons.prems by (auto simp: MakeEnd_def)
qed simp

lemma go_nth_append: "go_nth (xs @ ys) (int (length xs) + i) = (if 0 \<le> i then go_nth ys i else go_nth xs (int (length xs) + i))"
  by (auto simp: go_nth_def nth_append nat_add_distrib)

lemma go_from_append: "0 \<le> i \<Longrightarrow> go_from (xs @ ys) (int (length xs) + i) = go_from ys i"
  by (simp add: go_from_def nat_add_distrib)

lemma daemon_starts:
  assumes opts: "list_all option_like pargs" and gid: "0 \<le> gid" "gid < 2 ^ 63"
    and srv: "0 \<le> srv" "srv < int (length endNames)" and n: "length endNames < 2 ^ 63" "distinct endNames"
  shows "InitDaemon heap (daemon_args rsm pargs endName gid srv endNames) =
    Some (Inr (\<lparr>ds_endName = endNames ! nat srv, ds_gid = 0, ds_sid = 0, ds_ends = endNames, ds_tester = endName,
               ds_persister = None, ds_open = True\<rparr>, gid, srv))"
proof -
  define os where "os = pargs @ options rsm"
  define as where "as = [Itoa gid, Itoa srv, Itoa (int (length endNames)), endName] @ endNames"
  have os: "list_all option_like os" using opts by (auto simp: os_def options_def option_like_def)
  have args: "daemon_args rsm pargs endName gid srv endNames = os @ as" by (simp add: daemon_args_def os_def as_def)
  have skip: "skip_options (os @ as) 0 = Some (int (length os))"
    using skip_options_prefix [OF os, of as 0] gid(1) skip_options_number [of gid] by (simp add: as_def)
  have nth: "go_nth (os @ as) (int (length os)) = Some (Itoa gid)" "go_nth (os @ as) (int (length os) + 1) = Some (Itoa srv)"
    "go_nth (os @ as) (int (length os) + 2) = Some (Itoa (int (length endNames)))"
    "go_nth (os @ as) (int (length os) + 3) = Some endName"
    using go_nth_append [of os as 0] go_nth_append [of os as 1] go_nth_append [of os as 2] go_nth_append [of os as 3]
    by (simp_all add: as_def go_nth_def)
  have rest: "go_from (os @ as) (int (length os) + 4) = Some endNames"
    using go_from_append [of 4 os as] by (simp add: as_def go_from_def)
  have num: "Atoi (Itoa gid) = Some gid" "Atoi (Itoa srv) = Some srv"
    "Atoi (Itoa (int (length endNames))) = Some (int (length endNames))"
    using gid srv n(1) by (auto intro!: Atoi_Itoa)
  have "nw_ends (MakeNetwork heap :: (string, string, 'b, 'c) Network) = {}" by (simp add: MakeNetwork_def)
  then obtain net where net: "make_ends (MakeNetwork heap :: (string, string, 'b, 'c) Network) endNames = Some net"
    using make_ends_fresh [OF n(2), of "MakeNetwork heap"] by auto
  have me: "go_upto endNames (int (length endNames)) = Some endNames" "go_nth endNames srv = Some (endNames ! nat srv)"
    using srv by (simp_all add: go_upto_def go_nth_def)
  show ?thesis
    unfolding InitDaemon_def args by (simp add: skip nth num rest me net)
qed

text \<open>
  The arguments \<open>runDaemon\<close> puts on the command line of a server process are the ones \<open>InitDaemon\<close>
  reads: when the program arguments all begin with a dash, the process gets the group, the server
  number, the tester's name and the end names it was started with, and waits for its state.
\<close>

theorem daemon_args_roundtrip:
  assumes opts: "list_all option_like pargs" and gid: "0 \<le> gid" "gid < 2 ^ 63"
    and srv: "0 \<le> srv" "srv < int (length endNames)" and n: "length endNames < 2 ^ 63" "distinct endNames"
  shows "InitDaemon heap (daemon_args rsm pargs endName gid srv endNames) =
    Some (Inr (\<lparr>ds_endName = endNames ! nat srv, ds_gid = 0, ds_sid = 0, ds_ends = endNames, ds_tester = endName,
               ds_persister = None, ds_open = True\<rparr>, gid, srv))"
  using assms by (rule daemon_starts)

theorem daemon_args_roundtrip_witness:
  "InitDaemon (\<lambda>_. MakeServer :: (nat, nat) Server)
     (daemon_args True [''--max-raft-state=1''] ''t'' 0 1 [''a'', ''b'', ''c'']) =
    Some (Inr (\<lparr>ds_endName = ''b'', ds_gid = 0, ds_sid = 0, ds_ends = [''a'', ''b'', ''c''], ds_tester = ''t'',
               ds_persister = None, ds_open = True\<rparr>, 0, 1))"
  using daemon_args_roundtrip [of "[''--max-raft-state=1'']" 0 1 "[''a'', ''b'', ''c'']"]
  by (simp add: option_like_def)

subsection \<open>The state survives the round trip through a process\<close>

lemma init_persister: "ds_persister (dc_proc (DaemonClnt_init dc p)) = Some p"
  by (cases p) (simp add: DaemonClnt_init_def DaemonSrv_Init_def Let_def Save_def MakePersister_def
      ReadRaftState_def ReadSnapshot_def)

lemma checkpoint_persister:
  "ds_persister (dc_proc dc) = Some p \<Longrightarrow>
   checkpointPersister dc = Some (dc\<lparr>dc_proc := (dc_proc dc)\<lparr>ds_open := False\<rparr>\<rparr>, p)"
  by (cases p) (simp add: checkpointPersister_def DaemonSrv_CheckpointPersister_def Save_def MakePersister_def
      Checkpoint_def ReadRaftState_def ReadSnapshot_def)

end
