(* ===== verification/TesterGrp.thy ===== *)
theory TesterGrp
  imports Daemon
begin

text \<open>
  Groups of servers and the control of their connections, \<open>src/tester1/group.go\<close> and
  \<open>src/tester1/srv.go\<close>, with the parts of \<open>src/tester1/config.go\<close> that drive them.

  Server \<open>i\<close> of a group has one client end for every server of the group, its own included; the group
  enables and disables these ends on the network of \<open>Labrpc\<close>. Server numbers are \<open>nat\<close>, an index that
  is out of range panics. A nil slice of end names is the empty list. \<open>Randstring\<close> is an argument: the
  names it draws.
\<close>

type_synonym ('o, 'w) net = "(string, string, 'o, 'w) Network"

subsection \<open>Servers\<close>

record 'v GServer =
  sr_saved :: "'v Persister option"
  sr_endNames :: "string list"
  sr_dc :: "'v DaemonClnt option"

text \<open>The loop of \<open>makeServer\<close>: a fresh end to every server of the group.\<close>

fun make_srv_ends :: "('o, 'w) net \<Rightarrow> int \<Rightarrow> nat \<Rightarrow> string list \<Rightarrow> ('o, 'w) net option" where
  "make_srv_ends net gid j [] = Some net"
| "make_srv_ends net gid j (name # names) = do {
     net \<leftarrow> MakeEnd net name;
     make_srv_ends (Connect net name (ServerName gid (int j))) gid (Suc j) names
   }"

text \<open>\<open>rand j\<close>: the string \<open>Randstring\<close> draws for the end to server \<open>j\<close>.\<close>

definition makeServer :: "('o, 'w) net \<Rightarrow> int \<Rightarrow> nat \<Rightarrow> (nat \<Rightarrow> string) \<Rightarrow> (('o, 'w) net \<times> 'v GServer) option" where
  "makeServer net gid nsrv rand = do {
     let names = map rand [0..<nsrv];
     net \<leftarrow> make_srv_ends net gid 0 names;
     Some (net, \<lparr>sr_saved = None, sr_endNames = names, sr_dc = None\<rparr>)
   }"

definition startServer :: "('o, 'w) net \<Rightarrow> 'v GServer \<Rightarrow> int \<Rightarrow> (nat \<Rightarrow> string) \<Rightarrow> (('o, 'w) net \<times> 'v GServer) option" where
  "startServer net s gid rand = do {
     (net, srv) \<leftarrow> makeServer net gid (length (sr_endNames s)) rand;
     case sr_saved s of
       None \<Rightarrow> Some (net, srv\<lparr>sr_saved := Some MakePersister\<rparr>)
     | Some p \<Rightarrow> Some (net, srv\<lparr>sr_saved := Some p\<rparr>)
   }"

fun srv_connect :: "bool list \<Rightarrow> string list \<Rightarrow> nat list \<Rightarrow> ('o, 'w) net \<Rightarrow> ('o, 'w) net option" where
  "srv_connect conn endNames [] net = Some net"
| "srv_connect conn endNames (j # to) net = do {
     c \<leftarrow> go_nth conn (int j);
     if c then do {
       endname \<leftarrow> go_nth endNames (int j);
       srv_connect conn endNames to (Enable net endname True)
     } else srv_connect conn endNames to net
   }"

fun srv_disable :: "string list \<Rightarrow> nat list \<Rightarrow> ('o, 'w) net \<Rightarrow> ('o, 'w) net option" where
  "srv_disable endNames [] net = Some net"
| "srv_disable endNames (j # from_list) net = do {
     endname \<leftarrow> go_nth endNames (int j);
     srv_disable endNames from_list (Enable net endname False)
   }"

definition srv_disconnect :: "'v GServer \<Rightarrow> nat list \<Rightarrow> ('o, 'w) net \<Rightarrow> ('o, 'w) net option" where
  "srv_disconnect s from_list net =
     (if sr_endNames s = [] then Some net else srv_disable (sr_endNames s) from_list net)"

text \<open>\<open>dc.kill()\<close> ends the process; what it still does to its persister is lost.\<close>

definition shutdown_srv :: "'v GServer \<Rightarrow> 'v GServer option" where
  "shutdown_srv s = (case sr_dc s of
       None \<Rightarrow> Some s
     | Some dc \<Rightarrow> do { (dc, p) \<leftarrow> checkpointPersister dc; Some (s\<lparr>sr_saved := Some p, sr_dc := None\<rparr>) })"

definition srv_snapshotSize :: "('v \<Rightarrow> nat) \<Rightarrow> 'v GServer \<Rightarrow> nat option" where
  "srv_snapshotSize size_of s = (case sr_dc s of
       Some dc \<Rightarrow> map_option snd (DaemonClnt_stateSize size_of dc)
     | None \<Rightarrow> map_option SnapshotSize (sr_saved s))"

definition srv_raftSize :: "('v \<Rightarrow> nat) \<Rightarrow> 'v GServer \<Rightarrow> nat option" where
  "srv_raftSize size_of s = (case sr_dc s of
       Some dc \<Rightarrow> map_option fst (DaemonClnt_stateSize size_of dc)
     | None \<Rightarrow> map_option (RaftStateSize size_of) (sr_saved s))"

subsection \<open>Groups\<close>

record 'v ServerGrp =
  sg_args :: "string list"
  sg_srvs :: "'v GServer list"
  sg_servernames :: "string list"
  sg_endName :: string
  sg_gid :: int
  sg_connected :: "bool list"

text \<open>\<open>rand i\<close>: the strings drawn for the ends of server \<open>i\<close>.\<close>

fun make_srvs :: "('o, 'w) net \<Rightarrow> int \<Rightarrow> nat \<Rightarrow> (nat \<Rightarrow> nat \<Rightarrow> string) \<Rightarrow> nat list \<Rightarrow> (('o, 'w) net \<times> 'v GServer list) option" where
  "make_srvs net gid n rand [] = Some (net, [])"
| "make_srvs net gid n rand (i # is) = do {
     (net, s) \<leftarrow> makeServer net gid n (rand i);
     (net, ss) \<leftarrow> make_srvs net gid n rand is;
     Some (net, s # ss)
   }"

definition makeSrvGrp ::
  "('o, 'w) net \<Rightarrow> string list \<Rightarrow> string \<Rightarrow> int \<Rightarrow> nat \<Rightarrow> (nat \<Rightarrow> nat \<Rightarrow> string) \<Rightarrow> (('o, 'w) net \<times> 'v ServerGrp) option" where
  "makeSrvGrp net args endName gid n rand = do {
     (net, srvs) \<leftarrow> make_srvs net gid n rand [0..<n];
     Some (net, \<lparr>sg_args = args, sg_srvs = srvs, sg_servernames = map (\<lambda>i. ServerName gid (int i)) [0..<n],
                 sg_endName = endName, sg_gid = gid, sg_connected = replicate n False\<rparr>)
   }"

definition grp_N :: "'v ServerGrp \<Rightarrow> nat" where
  "grp_N sg = length (sg_srvs sg)"

definition SrvNames :: "'v ServerGrp \<Rightarrow> string list" where
  "SrvNames sg = sg_servernames sg"

definition SrvName :: "'v ServerGrp \<Rightarrow> nat \<Rightarrow> string option" where
  "SrvName sg i = go_nth (sg_servernames sg) (int i)"

fun SrvNamesTo :: "'v ServerGrp \<Rightarrow> nat list \<Rightarrow> string list option" where
  "SrvNamesTo sg [] = Some []"
| "SrvNamesTo sg (i # to) = do {
     n \<leftarrow> go_nth (sg_servernames sg) (int i);
     ns \<leftarrow> SrvNamesTo sg to;
     Some (n # ns)
   }"

definition all_srvs :: "'v ServerGrp \<Rightarrow> nat list" where
  "all_srvs sg = [0..<length (sg_srvs sg)]"

definition IsConnected :: "'v ServerGrp \<Rightarrow> nat \<Rightarrow> bool option" where
  "IsConnected sg i = go_nth (sg_connected sg) (int i)"

definition GetConnected :: "'v ServerGrp \<Rightarrow> bool list" where
  "GetConnected sg = sg_connected sg"

fun connect_in :: "'v ServerGrp \<Rightarrow> nat \<Rightarrow> nat list \<Rightarrow> ('o, 'w) net \<Rightarrow> ('o, 'w) net option" where
  "connect_in sg i [] net = Some net"
| "connect_in sg i (j # to) net = do {
     c \<leftarrow> IsConnected sg j;
     if c then do {
       s \<leftarrow> go_nth (sg_srvs sg) (int j);
       endname \<leftarrow> go_nth (sr_endNames s) (int i);
       connect_in sg i to (Enable net endname True)
     } else connect_in sg i to net
   }"

definition grp_connect :: "nat \<Rightarrow> nat list \<Rightarrow> ('o, 'w) net \<times> 'v ServerGrp \<Rightarrow> (('o, 'w) net \<times> 'v ServerGrp) option" where
  "grp_connect i to = (\<lambda>(net, sg). do {
     conn \<leftarrow> go_upd (sg_connected sg) (int i) True;
     let sg = sg\<lparr>sg_connected := conn\<rparr>;
     s \<leftarrow> go_nth (sg_srvs sg) (int i);
     net \<leftarrow> srv_connect (sg_connected sg) (sr_endNames s) to net;
     net \<leftarrow> connect_in sg i to net;
     Some (net, sg)
   })"

fun disconnect_in :: "'v ServerGrp \<Rightarrow> nat \<Rightarrow> nat list \<Rightarrow> ('o, 'w) net \<Rightarrow> ('o, 'w) net option" where
  "disconnect_in sg i [] net = Some net"
| "disconnect_in sg i (j # from_list) net = do {
     s \<leftarrow> go_nth (sg_srvs sg) (int j);
     if sr_endNames s \<noteq> [] then do {
       endname \<leftarrow> go_nth (sr_endNames s) (int i);
       disconnect_in sg i from_list (Enable net endname False)
     } else disconnect_in sg i from_list net
   }"

definition grp_disconnect :: "nat \<Rightarrow> nat list \<Rightarrow> ('o, 'w) net \<times> 'v ServerGrp \<Rightarrow> (('o, 'w) net \<times> 'v ServerGrp) option" where
  "grp_disconnect i from_list = (\<lambda>(net, sg). do {
     conn \<leftarrow> go_upd (sg_connected sg) (int i) False;
     let sg = sg\<lparr>sg_connected := conn\<rparr>;
     s \<leftarrow> go_nth (sg_srvs sg) (int i);
     net \<leftarrow> srv_disconnect s from_list net;
     net \<leftarrow> disconnect_in sg i from_list net;
     Some (net, sg)
   })"

definition ConnectOne :: "nat \<Rightarrow> ('o, 'w) net \<times> 'v ServerGrp \<Rightarrow> (('o, 'w) net \<times> 'v ServerGrp) option" where
  "ConnectOne i = (\<lambda>(net, sg). grp_connect i (all_srvs sg) (net, sg))"

definition DisconnectAll :: "nat \<Rightarrow> ('o, 'w) net \<times> 'v ServerGrp \<Rightarrow> (('o, 'w) net \<times> 'v ServerGrp) option" where
  "DisconnectAll i = (\<lambda>(net, sg). grp_disconnect i (all_srvs sg) (net, sg))"

text \<open>A loop over server numbers whose body may panic.\<close>

fun for_each :: "(nat \<Rightarrow> 's \<Rightarrow> 's option) \<Rightarrow> nat list \<Rightarrow> 's \<Rightarrow> 's option" where
  "for_each f [] s = Some s"
| "for_each f (i # is) s = (case f i s of None \<Rightarrow> None | Some s \<Rightarrow> for_each f is s)"

definition ConnectAll :: "('o, 'w) net \<times> 'v ServerGrp \<Rightarrow> (('o, 'w) net \<times> 'v ServerGrp) option" where
  "ConnectAll = (\<lambda>(net, sg). for_each ConnectOne (all_srvs sg) (net, sg))"

definition partition_one :: "nat list \<Rightarrow> nat list \<Rightarrow> nat \<Rightarrow> ('o, 'w) net \<times> 'v ServerGrp \<Rightarrow> (('o, 'w) net \<times> 'v ServerGrp) option" where
  "partition_one mine others i st = do { st \<leftarrow> grp_disconnect i others st; grp_connect i mine st }"

definition Partition :: "nat list \<Rightarrow> nat list \<Rightarrow> ('o, 'w) net \<times> 'v ServerGrp \<Rightarrow> (('o, 'w) net \<times> 'v ServerGrp) option" where
  "Partition p1 p2 st = do {
     st \<leftarrow> for_each (partition_one p1 p2) p1 st;
     for_each (partition_one p2 p1) p2 st
   }"

text \<open>\<open>MakePartition\<close>: \<open>make([]int, n)\<close> is a slice of zeros.\<close>

fun mp_loop :: "nat \<Rightarrow> nat list \<Rightarrow> nat \<Rightarrow> nat list \<Rightarrow> nat list \<Rightarrow> (nat list \<times> nat list) option" where
  "mp_loop l [] j p1 p2 = Some (p1, p2)"
| "mp_loop l (i # is) j p1 p2 =
     (if i \<noteq> l then
        if j < length p1 then do { p1 \<leftarrow> go_upd p1 (int j) i; mp_loop l is (j + 1) p1 p2 }
        else do { p2 \<leftarrow> go_upd p2 (int j - int (length p1)) i; mp_loop l is (j + 1) p1 p2 }
      else mp_loop l is j p1 p2)"

definition MakePartition :: "'v ServerGrp \<Rightarrow> nat \<Rightarrow> (nat list \<times> nat list) option" where
  "MakePartition sg l = do {
     let n = length (sg_srvs sg);
     (p1, p2) \<leftarrow> mp_loop l [0..<n] 0 (replicate (n div 2 + 1) 0) (replicate (n div 2) 0);
     p2 \<leftarrow> go_upd p2 (int (length p2) - 1) l;
     Some (p1, p2)
   }"

subsection \<open>Starting and stopping\<close>

definition ShutdownServer :: "nat \<Rightarrow> ('o, 'w) net \<times> 'v ServerGrp \<Rightarrow> (('o, 'w) net \<times> 'v ServerGrp) option" where
  "ShutdownServer i st = do {
     (net, sg) \<leftarrow> DisconnectAll i st;
     let net = DeleteServer net (ServerName (sg_gid sg) (int i));
     s \<leftarrow> go_nth (sg_srvs sg) (int i);
     s \<leftarrow> shutdown_srv s;
     Some (net, sg\<lparr>sg_srvs := (sg_srvs sg)[i := s]\<rparr>)
   }"

definition KillSrvs :: "nat list \<Rightarrow> ('o, 'w) net \<times> 'v ServerGrp \<Rightarrow> (('o, 'w) net \<times> 'v ServerGrp) option" where
  "KillSrvs srvs = for_each ShutdownServer srvs"

definition Shutdown :: "('o, 'w) net \<times> 'v ServerGrp \<Rightarrow> (('o, 'w) net \<times> 'v ServerGrp) option" where
  "Shutdown = (\<lambda>(net, sg). KillSrvs (all_srvs sg) (net, sg))"

text \<open>
  What a start draws from its environment: the end names, whether the process starts, the address of
  the new \<open>labrpc\<close> server and the function that forwards calls to the process.
\<close>

record StartEnv =
  se_rand :: "nat \<Rightarrow> string"
  se_started :: bool
  se_rsm :: bool
  se_addr :: nat
  se_forward :: "string \<Rightarrow> bytes \<Rightarrow> bytes \<times> bool"

text \<open>An error of \<open>runDaemon\<close> is logged and returned; the new server record stays in the group.\<close>

definition StartServer :: "StartEnv \<Rightarrow> nat \<Rightarrow> ('o, 'w) net \<times> 'v ServerGrp \<Rightarrow> (('o, 'w) net \<times> 'v ServerGrp) option" where
  "StartServer env i = (\<lambda>(net, sg). do {
     s \<leftarrow> go_nth (sg_srvs sg) (int i);
     (net, srv) \<leftarrow> startServer net s (sg_gid sg) (se_rand env);
     let sg = sg\<lparr>sg_srvs := (sg_srvs sg)[i := srv]\<rparr>;
     r \<leftarrow> runDaemon (nw_heap net) (se_started env) (se_rsm env) (sg_args sg) (sg_endName sg) (sg_gid sg) (int i) (sr_endNames srv);
     case r of
       Inl err \<Rightarrow> Some (net, sg)
     | Inr dc \<Rightarrow> do {
         p \<leftarrow> sr_saved srv;
         let srv = srv\<lparr>sr_dc := Some (DaemonClnt_init dc p)\<rparr>;
         let labsrv = SetDispatch MakeServer (se_forward env);
         let net = net\<lparr>nw_heap := (nw_heap net)(se_addr env := labsrv)\<rparr>;
         Some (AddServer net (ServerName (sg_gid sg) (int i)) (se_addr env), sg\<lparr>sg_srvs := (sg_srvs sg)[i := srv]\<rparr>)
       }
   })"

text \<open>\<open>env i\<close> is what the start of server \<open>i\<close> draws.\<close>

definition StartSrvs :: "(nat \<Rightarrow> StartEnv) \<Rightarrow> nat list \<Rightarrow> ('o, 'w) net \<times> 'v ServerGrp \<Rightarrow> (('o, 'w) net \<times> 'v ServerGrp) option" where
  "StartSrvs env srvs = for_each (\<lambda>i. StartServer (env i) i) srvs"

definition StartServers :: "(nat \<Rightarrow> StartEnv) \<Rightarrow> ('o, 'w) net \<times> 'v ServerGrp \<Rightarrow> (('o, 'w) net \<times> 'v ServerGrp) option" where
  "StartServers env = (\<lambda>(net, sg). do { st \<leftarrow> StartSrvs env (all_srvs sg) (net, sg); ConnectAll st })"

definition DaemonClnt_of :: "'v ServerGrp \<Rightarrow> nat \<Rightarrow> 'v DaemonClnt option option" where
  "DaemonClnt_of sg i = map_option sr_dc (go_nth (sg_srvs sg) (int i))"

definition RpcCount :: "('o, 'w) net \<Rightarrow> 'v ServerGrp \<Rightarrow> nat \<Rightarrow> int option" where
  "RpcCount net sg server = GetCount net (ServerName (sg_gid sg) (int server))"

text \<open>The loops of \<open>RaftSize\<close> and \<open>SnapshotSize\<close>.\<close>

fun max_size :: "('v GServer \<Rightarrow> nat option) \<Rightarrow> 'v GServer list \<Rightarrow> nat \<Rightarrow> nat option" where
  "max_size f [] m = Some m"
| "max_size f (s # ss) m = do { n \<leftarrow> f s; max_size f ss (if n > m then n else m) }"

definition RaftSize :: "('v \<Rightarrow> nat) \<Rightarrow> 'v ServerGrp \<Rightarrow> nat option" where
  "RaftSize size_of sg = max_size (srv_raftSize size_of) (sg_srvs sg) 0"

definition grp_SnapshotSize :: "('v \<Rightarrow> nat) \<Rightarrow> 'v ServerGrp \<Rightarrow> nat option" where
  "grp_SnapshotSize size_of sg = max_size (srv_snapshotSize size_of) (sg_srvs sg) 0"

subsection \<open>All groups\<close>

record 'v Groups =
  gs_endName :: string
  gs_grps :: "int \<rightharpoonup> 'v ServerGrp"

definition newGroups :: "string \<Rightarrow> 'v Groups" where
  "newGroups endName = \<lparr>gs_endName = endName, gs_grps = Map.empty\<rparr>"

definition MakeGroup ::
  "string list \<Rightarrow> int \<Rightarrow> nat \<Rightarrow> (nat \<Rightarrow> nat \<Rightarrow> string) \<Rightarrow> ('o, 'w) net \<times> 'v Groups \<Rightarrow> (('o, 'w) net \<times> 'v Groups) option" where
  "MakeGroup args gid nsrv rand = (\<lambda>(net, gs). do {
     (net, sg) \<leftarrow> makeSrvGrp net args (gs_endName gs) gid nsrv rand;
     Some (net, gs\<lparr>gs_grps := (gs_grps gs)(gid \<mapsto> sg)\<rparr>)
   })"

definition lookupGroup :: "'v Groups \<Rightarrow> int \<Rightarrow> 'v ServerGrp option" where
  "lookupGroup gs gid = gs_grps gs gid"

definition delete_group :: "int \<Rightarrow> 'v Groups \<Rightarrow> 'v Groups" where
  "delete_group gid gs = gs\<lparr>gs_grps := (gs_grps gs)(gid := None)\<rparr>"

text \<open>A method of the group \<open>gid\<close>; \<^term>\<open>None\<close> for a nil group.\<close>

definition on_group ::
  "int \<Rightarrow> (('o, 'w) net \<times> 'v ServerGrp \<Rightarrow> (('o, 'w) net \<times> 'v ServerGrp) option) \<Rightarrow>
     ('o, 'w) net \<times> 'v Groups \<Rightarrow> (('o, 'w) net \<times> 'v Groups) option" where
  "on_group gid f = (\<lambda>(net, gs). do {
     sg \<leftarrow> lookupGroup gs gid;
     (net, sg) \<leftarrow> f (net, sg);
     Some (net, gs\<lparr>gs_grps := (gs_grps gs)(gid \<mapsto> sg)\<rparr>)
   })"

text \<open>\<open>order\<close>: the order in which Go iterates over the map of groups.\<close>

fun cleanup_groups :: "int list \<Rightarrow> ('o, 'w) net \<times> 'v Groups \<Rightarrow> (('o, 'w) net \<times> 'v Groups) option" where
  "cleanup_groups [] st = Some st"
| "cleanup_groups (gid # order) st = do { st \<leftarrow> on_group gid Shutdown st; cleanup_groups order st }"

definition MakeGroupStart ::
  "string list \<Rightarrow> int \<Rightarrow> nat \<Rightarrow> (nat \<Rightarrow> nat \<Rightarrow> string) \<Rightarrow> (nat \<Rightarrow> StartEnv) \<Rightarrow>
     ('o, 'w) net \<times> 'v Groups \<Rightarrow> (('o, 'w) net \<times> 'v Groups) option" where
  "MakeGroupStart args gid nsrv rand env st = do {
     st \<leftarrow> MakeGroup args gid nsrv rand st;
     on_group gid (StartServers env) st
   }"

definition ExitGroup :: "int \<Rightarrow> ('o, 'w) net \<times> 'v Groups \<Rightarrow> (('o, 'w) net \<times> 'v Groups) option" where
  "ExitGroup gid st = do {
     (net, gs) \<leftarrow> on_group gid Shutdown st;
     Some (net, delete_group gid gs)
   }"

end
