(* ===== verification/TesterPart.thy ===== *)
theory TesterPart
  imports TesterGrp
begin

text \<open>
  What the connection control of a server group guarantees. Abstractly a group is a matrix of links
  and a vector of connected servers; \<open>connect\<close> and \<open>disconnect\<close> of \<open>group.go\<close> implement its two
  operations by enabling and disabling ends on the network (the interpretation below), and the
  theorems on partitions are proved about the matrix.
\<close>

subsection \<open>The contract\<close>

locale connection_ctl =
  fixes connect :: "nat \<Rightarrow> nat list \<Rightarrow> 's \<Rightarrow> 's option" and disconnect :: "nat \<Rightarrow> nat list \<Rightarrow> 's \<Rightarrow> 's option"
    and conn :: "'s \<Rightarrow> nat \<Rightarrow> bool" and link :: "'s \<Rightarrow> nat \<Rightarrow> nat \<Rightarrow> bool" and inv :: "'s \<Rightarrow> bool" and N :: nat
  assumes connect_spec: "inv s \<Longrightarrow> i < N \<Longrightarrow> set to \<subseteq> {..<N} \<Longrightarrow>
      \<exists>t. connect i to s = Some t \<and> inv t \<and> (\<forall>a<N. conn t a = (a = i \<or> conn s a)) \<and>
          (\<forall>a<N. \<forall>b<N. link t a b = (link s a b \<or> a = i \<and> b \<in> set to \<and> conn t b \<or> b = i \<and> a \<in> set to \<and> conn t a))"
    and disconnect_spec: "inv s \<Longrightarrow> i < N \<Longrightarrow> set fl \<subseteq> {..<N} \<Longrightarrow>
      \<exists>t. disconnect i fl s = Some t \<and> inv t \<and> (\<forall>a<N. conn t a = (a \<noteq> i \<and> conn s a)) \<and>
          (\<forall>a<N. \<forall>b<N. link t a b = (link s a b \<and> \<not> (a = i \<and> b \<in> set fl) \<and> \<not> (b = i \<and> a \<in> set fl)))"
begin

text \<open>One round of \<open>Partition\<close>: server \<open>i\<close> leaves the others and joins its own side.\<close>

definition part_one :: "nat list \<Rightarrow> nat list \<Rightarrow> nat \<Rightarrow> 's \<Rightarrow> 's option" where
  "part_one mine others i s = do { s \<leftarrow> disconnect i others s; connect i mine s }"

lemma part_one_spec:
  assumes "inv s" "i < N" "set mine \<subseteq> {..<N}" "set others \<subseteq> {..<N}"
  shows "\<exists>t. part_one mine others i s = Some t \<and> inv t \<and> (\<forall>a<N. conn t a = (a = i \<or> conn s a)) \<and>
    (\<forall>a<N. \<forall>b<N. link t a b =
       (link s a b \<and> \<not> (a = i \<and> b \<in> set others) \<and> \<not> (b = i \<and> a \<in> set others) \<or>
        a = i \<and> b \<in> set mine \<and> (b = i \<or> conn s b) \<or> b = i \<and> a \<in> set mine \<and> (a = i \<or> conn s a)))"
proof -
  from disconnect_spec [OF assms(1,2,4)] obtain u where u: "disconnect i others s = Some u" "inv u"
    "\<forall>a<N. conn u a = (a \<noteq> i \<and> conn s a)"
    "\<forall>a<N. \<forall>b<N. link u a b = (link s a b \<and> \<not> (a = i \<and> b \<in> set others) \<and> \<not> (b = i \<and> a \<in> set others))"
    by blast
  from connect_spec [OF u(2) assms(2,3)] obtain t where t: "connect i mine u = Some t" "inv t"
    "\<forall>a<N. conn t a = (a = i \<or> conn u a)"
    "\<forall>a<N. \<forall>b<N. link t a b = (link u a b \<or> a = i \<and> b \<in> set mine \<and> conn t b \<or> b = i \<and> a \<in> set mine \<and> conn t a)"
    by blast
  show ?thesis
    using u t by (intro exI [of _ t]) (auto simp: part_one_def)
qed

text \<open>What the rounds for a list of servers of one side have established.\<close>

definition side_done :: "nat list \<Rightarrow> nat list \<Rightarrow> 's \<Rightarrow> bool" where
  "side_done xs others s \<longleftrightarrow>
     (\<forall>a \<in> set xs. conn s a) \<and> (\<forall>a \<in> set xs. \<forall>b \<in> set xs. link s a b) \<and>
     (\<forall>a \<in> set xs. \<forall>b \<in> set others. \<not> link s a b \<and> \<not> link s b a)"

definition only_touches :: "nat list \<Rightarrow> 's \<Rightarrow> 's \<Rightarrow> bool" where
  "only_touches xs s t \<longleftrightarrow>
     (\<forall>a<N. a \<notin> set xs \<longrightarrow> conn t a = conn s a) \<and>
     (\<forall>a<N. \<forall>b<N. a \<notin> set xs \<longrightarrow> b \<notin> set xs \<longrightarrow> link t a b = link s a b)"

lemma side_rounds:
  assumes mine: "set mine \<subseteq> {..<N}" and others: "set others \<subseteq> {..<N}" and dis: "set mine \<inter> set others = {}"
  shows "inv s \<Longrightarrow> set xs \<subseteq> set mine \<Longrightarrow> set done \<subseteq> set mine \<Longrightarrow> side_done done others s \<Longrightarrow>
    \<exists>t. for_each (part_one mine others) xs s = Some t \<and> inv t \<and> side_done (done @ xs) others t \<and> only_touches mine s t"
proof (induction xs arbitrary: s "done")
  case Nil
  then show ?case by (simp add: only_touches_def)
next
  case (Cons i xs)
  have iN: "i < N" "i \<in> set mine" "i \<notin> set others" using Cons.prems(2) mine dis by auto
  from part_one_spec [OF Cons.prems(1) iN(1) mine others] obtain u where u: "part_one mine others i s = Some u" "inv u"
    "\<forall>a<N. conn u a = (a = i \<or> conn s a)"
    "\<forall>a<N. \<forall>b<N. link u a b =
       (link s a b \<and> \<not> (a = i \<and> b \<in> set others) \<and> \<not> (b = i \<and> a \<in> set others) \<or>
        a = i \<and> b \<in> set mine \<and> (b = i \<or> conn s b) \<or> b = i \<and> a \<in> set mine \<and> (a = i \<or> conn s a))"
    by blast
  have rng: "a < N" "a \<notin> set others" if "a \<in> set done \<or> a = i" for a
    using that Cons.prems(3) mine dis iN by auto
  have oth: "b < N" "b \<notin> set mine" if "b \<in> set others" for b using that others dis by auto
  have "side_done (done @ [i]) others u"
    unfolding side_done_def
  proof (intro conjI ballI)
    fix a assume a: "a \<in> set (done @ [i])"
    then show "conn u a" using u(3) rng Cons.prems(4) by (auto simp: side_done_def)
    fix b assume b: "b \<in> set (done @ [i])"
    show "link u a b"
      using a b u(4) rng Cons.prems(3,4) iN by (auto simp: side_done_def)
  next
    fix a b assume a: "a \<in> set (done @ [i])" and b: "b \<in> set others"
    show "\<not> link u a b" using a b u(4) rng [of a] oth [OF b] Cons.prems(4) iN by (auto simp: side_done_def)
    show "\<not> link u b a" using a b u(4) rng [of a] oth [OF b] Cons.prems(4) iN by (auto simp: side_done_def)
  qed
  with Cons.IH [OF u(2), of "done @ [i]"] Cons.prems(2,3) obtain t where
    t: "for_each (part_one mine others) xs u = Some t" "inv t" "side_done ((done @ [i]) @ xs) others t" "only_touches mine u t"
    by auto
  have "only_touches mine s t"
    using t(4) u(3,4) iN by (auto simp: only_touches_def)
  with t u show ?case by auto
qed

lemma partition_spec:
  assumes "inv s" "set p1 \<subseteq> {..<N}" "set p2 \<subseteq> {..<N}" "set p1 \<inter> set p2 = {}"
  shows "\<exists>t. do { s \<leftarrow> for_each (part_one p1 p2) p1 s; for_each (part_one p2 p1) p2 s } = Some t \<and> inv t \<and>
    side_done p1 p2 t \<and> side_done p2 p1 t \<and> only_touches (p1 @ p2) s t"
proof -
  have nil: "side_done [] q u" for q u by (simp add: side_done_def)
  from side_rounds [OF assms(2-4) assms(1) _ _ nil, of p1] obtain u where
    u: "for_each (part_one p1 p2) p1 s = Some u" "inv u" "side_done p1 p2 u" "only_touches p1 s u" by auto
  have dis: "set p2 \<inter> set p1 = {}" using assms(4) by auto
  from side_rounds [OF assms(3,2) dis u(2) _ _ nil, of p2] obtain t where
    t: "for_each (part_one p2 p1) p2 u = Some t" "inv t" "side_done p2 p1 t" "only_touches p2 u t" by auto
  have ab: "a < N" "a \<notin> set p2" if "a \<in> set p1" for a using that assms(2,4) by auto
  have "side_done p1 p2 t"
    unfolding side_done_def
  proof (intro conjI ballI)
    fix a assume a: "a \<in> set p1"
    then show "conn t a" using t(4) u(3) ab by (auto simp: only_touches_def side_done_def)
    fix b assume b: "b \<in> set p1"
    show "link t a b" using a b t(4) u(3) ab by (auto simp: only_touches_def side_done_def)
  next
    fix a b assume "a \<in> set p1" "b \<in> set p2"
    then show "\<not> link t a b" "\<not> link t b a" using t(3) by (auto simp: side_done_def)
  qed
  moreover have "only_touches (p1 @ p2) s t"
    using t(4) u(4) by (auto simp: only_touches_def)
  ultimately show ?thesis using t u by auto
qed

text \<open>Joining the whole group: every server is linked to every other.\<close>

lemma connect_rounds:
  assumes "inv s" "set xs \<subseteq> {..<N}" "set pre \<subseteq> {..<N}" "\<forall>a \<in> set pre. conn s a" "\<forall>a \<in> set pre. \<forall>b \<in> set pre. link s a b"
  shows "\<exists>t. for_each (\<lambda>i. connect i [0..<N]) xs s = Some t \<and> inv t \<and> (\<forall>a \<in> set (pre @ xs). conn t a) \<and>
    (\<forall>a \<in> set (pre @ xs). \<forall>b \<in> set (pre @ xs). link t a b)"
  using assms
proof (induction xs arbitrary: s pre)
  case (Cons i xs)
  have iN: "i < N" and all: "set [0..<N] \<subseteq> {..<N}" using Cons.prems by auto
  from connect_spec [OF Cons.prems(1) iN all] obtain u where u: "connect i [0..<N] s = Some u" "inv u"
    "\<forall>a<N. conn u a = (a = i \<or> conn s a)"
    "\<forall>a<N. \<forall>b<N. link u a b = (link s a b \<or> a = i \<and> b \<in> set [0..<N] \<and> conn u b \<or> b = i \<and> a \<in> set [0..<N] \<and> conn u a)"
    by blast
  have rng: "a < N" if "a \<in> set (pre @ [i])" for a using that Cons.prems(3) iN by auto
  have c: "\<forall>a \<in> set (pre @ [i]). conn u a" using u(3) rng Cons.prems(4) by auto
  have l: "\<forall>a \<in> set (pre @ [i]). \<forall>b \<in> set (pre @ [i]). link u a b"
    using u(4) c rng Cons.prems(5) by auto
  from Cons.IH [OF u(2) _ _ c l] Cons.prems(2,3) iN u(1) show ?case by auto
qed simp

end
subsection \<open>The implementation\<close>

definition end_of :: "'v ServerGrp \<Rightarrow> nat \<Rightarrow> nat \<Rightarrow> string" where
  "end_of sg a b = sr_endNames (sg_srvs sg ! a) ! b"

definition grp_link :: "('o, 'w) net \<times> 'v ServerGrp \<Rightarrow> nat \<Rightarrow> nat \<Rightarrow> bool" where
  "grp_link st a b = nw_enabled (fst st) (end_of (snd st) a b)"

definition grp_conn :: "('o, 'w) net \<times> 'v ServerGrp \<Rightarrow> nat \<Rightarrow> bool" where
  "grp_conn st a = sg_connected (snd st) ! a"

text \<open>A group of \<open>n\<close> servers with an end from every server to every server, no name twice.\<close>

definition grp_ok :: "nat \<Rightarrow> ('o, 'w) net \<times> 'v ServerGrp \<Rightarrow> bool" where
  "grp_ok n st \<longleftrightarrow> length (sg_srvs (snd st)) = n \<and> length (sg_connected (snd st)) = n \<and>
     list_all (\<lambda>s. length (sr_endNames s) = n) (sg_srvs (snd st)) \<and>
     distinct (concat (map sr_endNames (sg_srvs (snd st))))"

lemma distinct_concat_nth:
  assumes "distinct (concat xss)" "a < length xss" "c < length xss" "b < length (xss ! a)" "d < length (xss ! c)"
    "xss ! a ! b = xss ! c ! d"
  shows "a = c \<and> b = d"
  using assms
proof (induction xss arbitrary: a c)
  case (Cons xs xss)
  have sub: "xss ! k ! m \<in> set (concat xss)" if "k < length xss" "m < length (xss ! k)" for k m
    using that by (auto intro!: bexI [of _ "xss ! k"])
  have dj: "set xs \<inter> set (concat xss) = {}" using Cons.prems(1) by simp
  show ?case
  proof (cases a; cases c)
    fix a' c' assume ac: "a = Suc a'" "c = Suc c'"
    with Cons.prems Cons.IH [of a' c'] show ?thesis by auto
  next
    assume ac: "a = 0" "c = 0"
    with Cons.prems show ?thesis by (auto simp: nth_eq_iff_index_eq)
  next
    fix c' assume ac: "a = 0" "c = Suc c'"
    have "xs ! b \<in> set xs" using Cons.prems(4) ac by simp
    moreover have "xs ! b \<in> set (concat xss)" using Cons.prems ac sub [of c' d] by simp
    ultimately show ?thesis using dj by blast
  next
    fix a' assume ac: "a = Suc a'" "c = 0"
    have "xs ! d \<in> set xs" using Cons.prems(5) ac by simp
    moreover have "xs ! d \<in> set (concat xss)" using Cons.prems ac sub [of a' b] by simp
    ultimately show ?thesis using dj by blast
  qed
qed simp

lemma end_of_inj:
  assumes "grp_ok n (net, sg)" "a < n" "b < n" "c < n" "d < n"
  shows "end_of sg a b = end_of sg c d \<longleftrightarrow> a = c \<and> b = d"
proof
  assume e: "end_of sg a b = end_of sg c d"
  have len: "length (sr_endNames (sg_srvs sg ! k)) = n" if "k < n" for k
    using assms(1) that by (auto simp: grp_ok_def list_all_length)
  show "a = c \<and> b = d"
    using distinct_concat_nth [of "map sr_endNames (sg_srvs sg)" a c b d] assms len e
    by (simp add: grp_ok_def end_of_def)
qed simp

text \<open>The four loops over the ends, as updates of the set of enabled ends.\<close>

lemma srv_connect_enabled:
  assumes "length conn = n" "length es = n"
  shows "set to \<subseteq> {..<n} \<Longrightarrow>
    srv_connect conn es to net = Some (net\<lparr>nw_enabled := (\<lambda>e. nw_enabled net e \<or> (\<exists>j \<in> set to. conn ! j \<and> e = es ! j))\<rparr>)"
  using assms by (induction to arbitrary: net) (auto simp: go_nth_def Enable_def fun_eq_iff)

lemma connect_in_enabled:
  assumes "grp_ok n (net0, sg)" "i < n"
  shows "set to \<subseteq> {..<n} \<Longrightarrow>
    connect_in sg i to net = Some (net\<lparr>nw_enabled := (\<lambda>e. nw_enabled net e \<or> (\<exists>j \<in> set to. sg_connected sg ! j \<and> e = end_of sg j i))\<rparr>)"
  using assms
  by (induction to arbitrary: net) (auto simp: grp_ok_def IsConnected_def go_nth_def Enable_def fun_eq_iff end_of_def list_all_length)

lemma srv_disable_enabled:
  "set fl \<subseteq> {..<length es} \<Longrightarrow>
    srv_disable es fl net = Some (net\<lparr>nw_enabled := (\<lambda>e. nw_enabled net e \<and> \<not> (\<exists>j \<in> set fl. e = es ! j))\<rparr>)"
  by (induction fl arbitrary: net) (auto simp: go_nth_def Enable_def fun_eq_iff)

lemma disconnect_in_enabled:
  assumes "grp_ok n (net0, sg)" "i < n"
  shows "set fl \<subseteq> {..<n} \<Longrightarrow>
    disconnect_in sg i fl net = Some (net\<lparr>nw_enabled := (\<lambda>e. nw_enabled net e \<and> \<not> (\<exists>j \<in> set fl. e = end_of sg j i))\<rparr>)"
  using assms
  by (induction fl arbitrary: net) (auto simp: grp_ok_def go_nth_def Enable_def fun_eq_iff end_of_def list_all_length)

lemma grp_connect_eq:
  assumes "grp_ok n (net, sg)" "i < n" "set to \<subseteq> {..<n}"
  shows "grp_connect i to (net, sg) = Some (net\<lparr>nw_enabled := (\<lambda>e. nw_enabled net e \<or>
      (\<exists>j \<in> set to. (sg_connected sg)[i := True] ! j \<and> e = end_of sg i j) \<or>
      (\<exists>j \<in> set to. (sg_connected sg)[i := True] ! j \<and> e = end_of sg j i))\<rparr>,
      sg\<lparr>sg_connected := (sg_connected sg)[i := True]\<rparr>)"
proof -
  define sg' where "sg' = sg\<lparr>sg_connected := (sg_connected sg)[i := True]\<rparr>"
  have ok: "grp_ok n (net, sg')" using assms(1) by (simp add: grp_ok_def sg'_def)
  have len: "length (sg_connected sg) = n" "length (sg_srvs sg) = n" "length (sr_endNames (sg_srvs sg ! i)) = n"
    using assms(1,2) by (auto simp: grp_ok_def list_all_length)
  have e: "end_of sg' = end_of sg" by (simp add: sg'_def end_of_def fun_eq_iff)
  have s: "sg_srvs sg' = sg_srvs sg" "sg_connected sg' = (sg_connected sg)[i := True]" by (simp_all add: sg'_def)
  show ?thesis
    using assms len srv_connect_enabled [of "(sg_connected sg)[i := True]" n "sr_endNames (sg_srvs sg ! i)" to net]
    by (auto simp: grp_connect_def go_slice sg'_def [symmetric] s connect_in_enabled [OF ok] e fun_eq_iff end_of_def)
qed

lemma grp_disconnect_eq:
  assumes "grp_ok n (net, sg)" "i < n" "set fl \<subseteq> {..<n}"
  shows "grp_disconnect i fl (net, sg) = Some (net\<lparr>nw_enabled := (\<lambda>e. nw_enabled net e \<and>
      \<not> (\<exists>j \<in> set fl. e = end_of sg i j) \<and> \<not> (\<exists>j \<in> set fl. e = end_of sg j i))\<rparr>,
      sg\<lparr>sg_connected := (sg_connected sg)[i := False]\<rparr>)"
proof -
  define sg' where "sg' = sg\<lparr>sg_connected := (sg_connected sg)[i := False]\<rparr>"
  have ok: "grp_ok n (net, sg')" using assms(1) by (simp add: grp_ok_def sg'_def)
  have len: "length (sg_connected sg) = n" "length (sg_srvs sg) = n" "length (sr_endNames (sg_srvs sg ! i)) = n"
    using assms(1,2) by (auto simp: grp_ok_def list_all_length)
  then have ne: "sr_endNames (sg_srvs sg ! i) \<noteq> []" using assms(2) by auto
  have e: "end_of sg' = end_of sg" by (simp add: sg'_def end_of_def fun_eq_iff)
  have s: "sg_srvs sg' = sg_srvs sg" by (simp add: sg'_def)
  show ?thesis
    using assms len ne srv_disable_enabled [of fl "sr_endNames (sg_srvs sg ! i)" net]
    by (auto simp: grp_disconnect_def srv_disconnect_def go_slice sg'_def [symmetric] s disconnect_in_enabled [OF ok] e
        fun_eq_iff end_of_def)
qed

text \<open>An end of the group lies in row \<open>i\<close> or column \<open>i\<close> of the matrix exactly when its indices say so.\<close>

lemma end_in_row:
  assumes "grp_ok n (net, sg)" "set js \<subseteq> {..<n}" "i < n" "a < n" "b < n"
  shows "(\<exists>j \<in> set js. P j \<and> end_of sg a b = end_of sg i j) \<longleftrightarrow> a = i \<and> b \<in> set js \<and> P b"
    and "(\<exists>j \<in> set js. P j \<and> end_of sg a b = end_of sg j i) \<longleftrightarrow> b = i \<and> a \<in> set js \<and> P a"
proof -
  have "end_of sg a b = end_of sg i j \<longleftrightarrow> a = i \<and> b = j" "end_of sg a b = end_of sg j i \<longleftrightarrow> a = j \<and> b = i"
    if "j \<in> set js" for j
    using end_of_inj [OF assms(1)] assms that by auto
  then show "(\<exists>j \<in> set js. P j \<and> end_of sg a b = end_of sg i j) \<longleftrightarrow> a = i \<and> b \<in> set js \<and> P b"
    and "(\<exists>j \<in> set js. P j \<and> end_of sg a b = end_of sg j i) \<longleftrightarrow> b = i \<and> a \<in> set js \<and> P a"
    by auto
qed

lemmas end_in_row_plain = end_in_row [where P = "\<lambda>_. True", simplified]

interpretation grp: connection_ctl grp_connect grp_disconnect grp_conn grp_link "grp_ok n" n for n
proof
  fix st :: "('o, 'w) net \<times> 'v ServerGrp" and i to
  assume a: "grp_ok n st" "i < n" "set to \<subseteq> {..<n}"
  obtain net sg where st: "st = (net, sg)" by force
  note ok = a(1) [unfolded st]
  define conn where "conn = (sg_connected sg)[i := True]"
  have conn: "a < n \<Longrightarrow> conn ! a = (a = i \<or> sg_connected sg ! a)" for a
    using ok a(2) by (auto simp: conn_def grp_ok_def nth_list_update)
  define t where "t = (net\<lparr>nw_enabled := (\<lambda>e. nw_enabled net e \<or> (\<exists>j \<in> set to. conn ! j \<and> e = end_of sg i j) \<or>
      (\<exists>j \<in> set to. conn ! j \<and> e = end_of sg j i))\<rparr>, sg\<lparr>sg_connected := conn\<rparr>)"
  have "grp_connect i to st = Some t" unfolding st t_def conn_def by (rule grp_connect_eq [OF ok a(2,3)])
  moreover have "grp_ok n t" using ok by (simp add: grp_ok_def t_def conn_def)
  moreover have "\<forall>a<n. grp_conn t a = (a = i \<or> grp_conn st a)" by (simp add: grp_conn_def t_def st conn)
  moreover have "grp_link t a b = (grp_link st a b \<or> a = i \<and> b \<in> set to \<and> grp_conn t b \<or> b = i \<and> a \<in> set to \<and> grp_conn t a)"
    if "a < n" "b < n" for a b
  proof -
    have e: "end_of (snd t) = end_of sg" by (simp add: t_def end_of_def fun_eq_iff)
    show ?thesis
      unfolding grp_link_def e st grp_conn_def by (simp add: t_def end_in_row [OF ok a(3,2) that])
  qed
  ultimately show "\<exists>t. grp_connect i to st = Some t \<and> grp_ok n t \<and> (\<forall>a<n. grp_conn t a = (a = i \<or> grp_conn st a)) \<and>
      (\<forall>a<n. \<forall>b<n. grp_link t a b =
         (grp_link st a b \<or> a = i \<and> b \<in> set to \<and> grp_conn t b \<or> b = i \<and> a \<in> set to \<and> grp_conn t a))"
    by blast
next
  fix st :: "('o, 'w) net \<times> 'v ServerGrp" and i fl
  assume a: "grp_ok n st" "i < n" "set fl \<subseteq> {..<n}"
  obtain net sg where st: "st = (net, sg)" by force
  note ok = a(1) [unfolded st]
  define t where "t = (net\<lparr>nw_enabled := (\<lambda>e. nw_enabled net e \<and> \<not> (\<exists>j \<in> set fl. e = end_of sg i j) \<and>
      \<not> (\<exists>j \<in> set fl. e = end_of sg j i))\<rparr>, sg\<lparr>sg_connected := (sg_connected sg)[i := False]\<rparr>)"
  have "grp_disconnect i fl st = Some t" unfolding st t_def by (rule grp_disconnect_eq [OF ok a(2,3)])
  moreover have "grp_ok n t" using ok by (simp add: grp_ok_def t_def)
  moreover have "\<forall>a<n. grp_conn t a = (a \<noteq> i \<and> grp_conn st a)"
    using ok a(2) by (auto simp: grp_conn_def t_def st grp_ok_def nth_list_update)
  moreover have "grp_link t a b = (grp_link st a b \<and> \<not> (a = i \<and> b \<in> set fl) \<and> \<not> (b = i \<and> a \<in> set fl))"
    if "a < n" "b < n" for a b
  proof -
    have e: "end_of (snd t) = end_of sg" by (simp add: t_def end_of_def fun_eq_iff)
    have "grp_link t a b = (nw_enabled net (end_of sg a b) \<and> \<not> (\<exists>j \<in> set fl. end_of sg a b = end_of sg i j) \<and>
        \<not> (\<exists>j \<in> set fl. end_of sg a b = end_of sg j i))"
      unfolding grp_link_def e by (simp add: t_def)
    then show ?thesis
      unfolding end_in_row_plain [OF ok a(3,2) that] by (simp add: grp_link_def st)
  qed
  ultimately show "\<exists>t. grp_disconnect i fl st = Some t \<and> grp_ok n t \<and> (\<forall>a<n. grp_conn t a = (a \<noteq> i \<and> grp_conn st a)) \<and>
      (\<forall>a<n. \<forall>b<n. grp_link t a b =
         (grp_link st a b \<and> \<not> (a = i \<and> b \<in> set fl) \<and> \<not> (b = i \<and> a \<in> set fl)))"
    by blast
qed

subsection \<open>Partitions\<close>

lemma partition_one_part_one: "partition_one mine others = grp.part_one mine others"
  by (intro ext) (simp add: partition_one_def grp.part_one_def)

lemma Partition_part_one:
  "Partition p1 p2 st = do { s \<leftarrow> for_each (grp.part_one p1 p2) p1 st; for_each (grp.part_one p2 p1) p2 s }"
  by (simp add: Partition_def partition_one_part_one)

text \<open>
  \<^bold>\<open>C23\<close>: A partition separates: after \<open>Partition(p1, p2)\<close> no message passes between the two sides in
  either direction, every server reaches every server of its own side, and the links between servers
  on neither side are as before. The operation does not panic.
\<close>

theorem partition_separates:
  assumes "grp_ok n st" "set p1 \<subseteq> {..<n}" "set p2 \<subseteq> {..<n}" "set p1 \<inter> set p2 = {}"
  shows "\<exists>t. Partition p1 p2 st = Some t \<and> grp_ok n t \<and>
    (\<forall>a \<in> set p1. \<forall>b \<in> set p2. \<not> grp_link t a b \<and> \<not> grp_link t b a) \<and>
    (\<forall>a \<in> set p1. \<forall>b \<in> set p1. grp_link t a b) \<and> (\<forall>a \<in> set p2. \<forall>b \<in> set p2. grp_link t a b) \<and>
    (\<forall>a<n. \<forall>b<n. a \<notin> set p1 \<union> set p2 \<longrightarrow> b \<notin> set p1 \<union> set p2 \<longrightarrow> grp_link t a b = grp_link st a b)"
proof -
  from grp.partition_spec [OF assms] obtain t where t: "Partition p1 p2 st = Some t" "grp_ok n t"
    "grp.side_done p1 p2 t" "grp.side_done p2 p1 t" "grp.only_touches n (p1 @ p2) st t"
    unfolding Partition_part_one by blast
  show ?thesis
    using t by (intro exI [of _ t]) (auto simp: grp.side_done_def grp.only_touches_def)
qed

definition three_servers :: "(nat, nat) net \<times> nat ServerGrp" where
  "three_servers = (MakeNetwork (\<lambda>_. MakeServer),
     \<lparr>sg_args = [], sg_srvs = map (\<lambda>es. \<lparr>sr_saved = None, sr_endNames = es, sr_dc = None\<rparr>)
        [[''00'', ''01'', ''02''], [''10'', ''11'', ''12''], [''20'', ''21'', ''22'']],
      sg_servernames = map (\<lambda>i. ServerName 0 i) [0, 1, 2], sg_endName = ''t'', sg_gid = 0, sg_connected = [False, False, False]\<rparr>)"

lemma three_servers_ok: "grp_ok 3 three_servers"
  by (simp add: grp_ok_def three_servers_def)

theorem partition_separates_witness:
  "\<exists>t. Partition [0, 2] [1] three_servers = Some t \<and> grp_link t 0 2 \<and> grp_link t 2 0 \<and> \<not> grp_link t 0 1 \<and> \<not> grp_link t 1 2"
proof -
  have "set [0, 2] \<subseteq> {..<3 :: nat}" "set [1] \<subseteq> {..<3 :: nat}" "set [0, 2] \<inter> set [1 :: nat] = {}" by auto
  from partition_separates [OF three_servers_ok this] show ?thesis by auto
qed

text \<open>The indices \<open>MakePartition\<close> writes fill the two slices from left to right.\<close>

lemma mp_loop_fill:
  assumes "j + length (filter (\<lambda>i. i \<noteq> l) is) \<le> length p1 + length p2"
  shows "\<exists>q1 q2. mp_loop l is j p1 p2 = Some (q1, q2) \<and> length q1 = length p1 \<and> length q2 = length p2 \<and>
    q1 @ q2 = take j (p1 @ p2) @ filter (\<lambda>i. i \<noteq> l) is @ drop (j + length (filter (\<lambda>i. i \<noteq> l) is)) (p1 @ p2)"
  using assms
proof (induction "is" arbitrary: j p1 p2)
  case Nil
  then show ?case by (auto simp flip: take_append drop_append)
next
  case (Cons i "is")
  show ?case
  proof (cases "i = l")
    case True
    with Cons show ?thesis by simp
  next
    case False
    define p where "p = (p1 @ p2)[j := i]"
    define r1 where "r1 = (if j < length p1 then p1[j := i] else p1)"
    define r2 where "r2 = (if j < length p1 then p2 else p2[j - length p1 := i])"
    have j: "j < length p1 + length p2" using Cons.prems False by simp
    have r: "r1 @ r2 = p" "length r1 = length p1" "length r2 = length p2"
      by (auto simp: r1_def r2_def p_def list_update_append)
    have step: "mp_loop l (i # is) j p1 p2 = mp_loop l is (Suc j) r1 r2"
      using False j by (auto simp: go_upd_def r1_def r2_def nat_diff_distrib)
    from Cons.IH [of "Suc j" r1 r2] Cons.prems False r obtain q1 q2 where
      q: "mp_loop l is (Suc j) r1 r2 = Some (q1, q2)" "length q1 = length p1" "length q2 = length p2"
      "q1 @ q2 = take (Suc j) p @ filter (\<lambda>i. i \<noteq> l) is @ drop (Suc j + length (filter (\<lambda>i. i \<noteq> l) is)) p"
      by auto
    have "take (Suc j) p = take j (p1 @ p2) @ [i]"
      using j by (simp add: p_def take_Suc_conv_app_nth del: take_append)
    moreover have "drop (Suc j + m) p = drop (Suc j + m) (p1 @ p2)" for m
      by (simp add: p_def drop_update_cancel del: drop_append)
    ultimately show ?thesis
      using q step False by (simp del: take_append drop_append)
  qed
qed

abbreviation others_than :: "nat \<Rightarrow> nat \<Rightarrow> nat list" where
  "others_than l n \<equiv> filter (\<lambda>i. i \<noteq> l) [0..<n]"

lemma length_others: "l < n \<Longrightarrow> length (others_than l n) = n - 1"
proof -
  assume "l < n"
  have "length (others_than l n) = card (set (others_than l n))" by (rule distinct_card [symmetric]) simp
  also have "set (others_than l n) = {..<n} - {l}" by auto
  finally show ?thesis using \<open>l < n\<close> by simp
qed

lemma set_others: "set (others_than l n) = {..<n} - {l}"
  by auto

definition mp_pad :: "nat \<Rightarrow> nat list" where
  "mp_pad n = (if even n then [0] else [])"

lemma list_update_last: "(xs @ [x])[length xs := y] = xs @ [y]"
  by simp

text \<open>With an even number of servers one slot of the minority is never written and stays 0.\<close>

lemma MakePartition_eq:
  assumes n: "length (sg_srvs sg) = n" "2 \<le> n" and l: "l < n"
  shows "MakePartition sg l =
    Some (take (n div 2 + 1) (others_than l n @ mp_pad n), drop (n div 2 + 1) (others_than l n @ mp_pad n) @ [l])"
proof -
  define m where "m = n div 2"
  define xs where "xs = others_than l n @ mp_pad n"
  have lo: "length (others_than l n) = n - 1" using l by (rule length_others)
  have len: "length xs = 2 * m" using n(2) by (auto simp: xs_def lo mp_pad_def m_def elim!: oddE evenE)
  have m: "1 \<le> m" using n(2) by (simp add: m_def)
  have "0 + length (others_than l n) \<le> length (replicate (m + 1) 0) + length (replicate m (0 :: nat))"
    unfolding lo by (simp add: m_def)
  from mp_loop_fill [OF this] obtain q1 q2 where
    q: "mp_loop l [0..<n] 0 (replicate (m + 1) 0) (replicate m 0) = Some (q1, q2)" "length q1 = m + 1" "length q2 = m"
    "q1 @ q2 = others_than l n @ drop (n - 1) (replicate (m + 1) 0 @ replicate m 0)"
    unfolding lo by auto
  have "drop (n - 1) (replicate (m + 1) 0 @ replicate m 0) = (replicate (2 * m + 1 - (n - 1)) 0 :: nat list)"
    unfolding replicate_add [symmetric] drop_replicate by (simp add: mult_2)
  also have "\<dots> = mp_pad n @ [0]"
    using n(2) by (auto simp: mp_pad_def m_def elim!: oddE evenE) (auto simp: numeral_2_eq_2)
  finally have qs: "q1 @ q2 = xs @ [0]" using q(4) by (simp add: xs_def)
  have "q1 = take (m + 1) (q1 @ q2)" using q(2) by simp
  then have q1: "q1 = take (m + 1) xs" using len m by (simp add: qs)
  have "q2 = drop (m + 1) (q1 @ q2)" using q(2) by simp
  then have q2: "q2 = drop (m + 1) xs @ [0]" using len m by (simp add: qs)
  have upd: "go_upd q2 (int (length q2) - 1) l = Some (drop (m + 1) xs @ [l])"
    using len m list_update_last [of "drop (m + 1) xs" 0 l] by (simp add: q2 go_upd_def nat_diff_distrib)
  show ?thesis
    using q(1) upd q1 by (simp add: MakePartition_def n(1) m_def [symmetric] xs_def [symmetric])
qed

text \<open>
  \<open>MakePartition\<close> with an odd number of servers: the two lists are a partition of the group, the
  first is a majority, and the given leader is in the minority.
\<close>

theorem make_partition_odd:
  assumes "length (sg_srvs sg) = n" "odd n" "3 \<le> n" "l < n"
  shows "\<exists>p1 p2. MakePartition sg l = Some (p1, p2) \<and> distinct (p1 @ p2) \<and> set (p1 @ p2) = {..<n} \<and>
    l \<in> set p2 \<and> n < 2 * length p1"
proof -
  define xs where "xs = others_than l n"
  have mp: "MakePartition sg l = Some (take (n div 2 + 1) xs, drop (n div 2 + 1) xs @ [l])"
    using MakePartition_eq [OF assms(1) _ assms(4)] assms(2,3) by (simp add: mp_pad_def xs_def)
  have xs: "distinct xs" "set xs = {..<n} - {l}" "length xs = n - 1"
    unfolding xs_def using assms(4) by (auto simp: length_others)
  have split: "take (n div 2 + 1) xs @ drop (n div 2 + 1) xs @ [l] = xs @ [l]" by (metis append_assoc append_take_drop_id)
  have all: "distinct (take (n div 2 + 1) xs @ drop (n div 2 + 1) xs @ [l])"
    "set (take (n div 2 + 1) xs @ drop (n div 2 + 1) xs @ [l]) = {..<n}"
    unfolding split using xs assms(4) by auto
  have "n < 2 * length (take (n div 2 + 1) xs)"
    using assms(2,3) xs(3) by (auto elim!: oddE)
  with mp all show ?thesis by (intro exI conjI) (assumption | simp)+
qed

theorem make_partition_odd_witness:
  "\<exists>p1 p2. MakePartition (snd three_servers) 1 = Some (p1, p2) \<and> distinct (p1 @ p2) \<and> set (p1 @ p2) = {..<3} \<and> 1 \<in> set p2"
proof -
  have "length (sg_srvs (snd three_servers)) = 3" by (simp add: three_servers_def)
  from make_partition_odd [OF this, of 1] show ?thesis by auto
qed

text \<open>
  \<open>MakePartition\<close> with an even number of at least four servers and a leader other than server 0
  puts server 0 on both sides: the slot that stays 0 joins it to the minority.
\<close>

theorem make_partition_even_overlaps:
  assumes "length (sg_srvs sg) = n" "even n" "4 \<le> n" "l < n" "l \<noteq> 0"
  shows "\<exists>p1 p2. MakePartition sg l = Some (p1, p2) \<and> 0 \<in> set p1 \<and> 0 \<in> set p2"
proof -
  define xs where "xs = others_than l n"
  have mp: "MakePartition sg l = Some (take (n div 2 + 1) (xs @ [0]), drop (n div 2 + 1) (xs @ [0]) @ [l])"
    using MakePartition_eq [OF assms(1) _ assms(4)] assms(2,3) by (simp add: mp_pad_def xs_def)
  have len: "n div 2 + 1 \<le> length xs" unfolding xs_def using assms(2-4) by (auto simp: length_others elim!: evenE)
  obtain ys where ys: "xs = 0 # ys"
    using assms(3,5) by (simp add: xs_def upt_conv_Cons)
  have "0 \<in> set (take (n div 2 + 1) (xs @ [0]))" by (simp add: ys)
  moreover have "0 \<in> set (drop (n div 2 + 1) (xs @ [0]) @ [l])" using len by simp
  ultimately show ?thesis using mp by blast
qed

definition four_servers :: "nat ServerGrp" where
  "four_servers = \<lparr>sg_args = [], sg_srvs = replicate 4 \<lparr>sr_saved = None, sr_endNames = [], sr_dc = None\<rparr>,
     sg_servernames = [], sg_endName = [], sg_gid = 0, sg_connected = []\<rparr>"

theorem make_partition_even_overlaps_witness:
  "\<exists>p1 p2. MakePartition four_servers 2 = Some (p1, p2) \<and> 0 \<in> set p1 \<and> 0 \<in> set p2"
  by (rule make_partition_even_overlaps [of _ 4]) (simp_all add: four_servers_def)

subsection \<open>Restarting a server\<close>

lemma make_srv_ends_fresh:
  "distinct es \<Longrightarrow> set es \<inter> nw_ends net = {} \<Longrightarrow>
   \<exists>net'. make_srv_ends net gid j es = Some net' \<and> nw_servers net' = nw_servers net \<and>
     (\<forall>e. nw_enabled net' e = (nw_enabled net e \<and> e \<notin> set es))"
proof (induction es arbitrary: net j)
  case (Cons e es)
  define net1 where "net1 = Connect (the (MakeEnd net e)) e (ServerName gid (int j))"
  have m: "MakeEnd net e = Some (the (MakeEnd net e))" using Cons.prems by (simp add: MakeEnd_def)
  have n1: "nw_ends net1 = insert e (nw_ends net)" "nw_servers net1 = nw_servers net"
    "nw_enabled net1 = (nw_enabled net)(e := False)"
    using Cons.prems by (simp_all add: net1_def MakeEnd_def Connect_def)
  from Cons.prems n1 Cons.IH [of net1 "Suc j"] obtain net' where
    net': "make_srv_ends net1 gid (Suc j) es = Some net'" "nw_servers net' = nw_servers net"
    "\<forall>f. nw_enabled net' f = (nw_enabled net1 f \<and> f \<notin> set es)" by auto
  have "make_srv_ends net gid j (e # es) = make_srv_ends net1 gid (Suc j) es"
    by (subst make_srv_ends.simps, subst m) (simp add: net1_def)
  with net' n1 show ?case by auto
qed simp

lemma runDaemon_starts:
  assumes "list_all option_like args" "0 \<le> gid" "gid < 2 ^ 63" "0 \<le> i" "i < int (length es)" "length es < 2 ^ 63" "distinct es"
  shows "\<exists>dc. runDaemon heap True rsm args endName gid i es = Some (Inr dc)"
  using assms(4,5) by (simp add: runDaemon_def go_nth_def daemon_starts [OF assms])

lemma shutdown_spec:
  assumes ok: "grp_ok n (net, sg)" and i: "i < n" and dc: "sr_dc (sg_srvs sg ! i) = Some dc" "ds_persister (dc_proc dc) = Some p"
  defines "s \<equiv> (sg_srvs sg ! i)\<lparr>sr_saved := Some p, sr_dc := None\<rparr>"
  shows "\<exists>net1. ShutdownServer i (net, sg) =
      Some (net1, sg\<lparr>sg_connected := (sg_connected sg)[i := False], sg_srvs := (sg_srvs sg)[i := s]\<rparr>) \<and>
    nw_servers net1 (ServerName (sg_gid sg) (int i)) = None \<and> nw_ends net1 = nw_ends net \<and>
    (\<forall>j<n. \<not> nw_enabled net1 (end_of sg i j) \<and> \<not> nw_enabled net1 (end_of sg j i))"
proof -
  have len: "length (sg_srvs sg) = n" using ok by (simp add: grp_ok_def)
  have set_all: "set (all_srvs sg) = {..<n}" by (auto simp: all_srvs_def len)
  then have all: "set (all_srvs sg) \<subseteq> {..<n}" by simp
  have s: "shutdown_srv (sg_srvs sg ! i) = Some s"
    using dc by (simp add: shutdown_srv_def checkpoint_persister s_def)
  show ?thesis
    unfolding ShutdownServer_def DisconnectAll_def prod.case grp_disconnect_eq [OF ok i all] using i s
    by (auto simp: go_nth_def len DeleteServer_def set_all)
qed

text \<open>
  \<^bold>\<open>C24\<close>: A restart keeps the durable state: when a running server is shut down, no message reaches it or
  leaves it and the network does not know it; when it is started again, the new process has exactly
  the persistent state the old one had when it was stopped, and its new ends are disabled until it is
  connected.
\<close>

theorem restart_keeps_state:
  assumes ok: "grp_ok n (net, sg)" and i: "i < n" "n < 2 ^ 63"
    and dc: "sr_dc (sg_srvs sg ! i) = Some dc" "ds_persister (dc_proc dc) = Some p"
    and env: "distinct (map (se_rand env) [0..<n])" "se_rand env ` {..<n} \<inter> nw_ends net = {}" "se_started env"
    and grp: "list_all option_like (sg_args sg)" "0 \<le> sg_gid sg" "sg_gid sg < 2 ^ 63"
  shows "\<exists>net1 sg1 net2 sg2 dc2. ShutdownServer i (net, sg) = Some (net1, sg1) \<and>
    nw_servers net1 (ServerName (sg_gid sg) (int i)) = None \<and>
    (\<forall>j<n. \<not> nw_enabled net1 (end_of sg i j) \<and> \<not> nw_enabled net1 (end_of sg j i)) \<and>
    StartServer env i (net1, sg1) = Some (net2, sg2) \<and> sr_dc (sg_srvs sg2 ! i) = Some dc2 \<and>
    ds_persister (dc_proc dc2) = Some p \<and> nw_servers net2 (ServerName (sg_gid sg) (int i)) = Some (se_addr env) \<and>
    (\<forall>j<n. \<not> nw_enabled net2 (end_of sg2 i j))"
proof -
  define s where "s = (sg_srvs sg ! i)\<lparr>sr_saved := Some p, sr_dc := None\<rparr>"
  define sg1 where "sg1 = sg\<lparr>sg_connected := (sg_connected sg)[i := False], sg_srvs := (sg_srvs sg)[i := s]\<rparr>"
  define es where "es = map (se_rand env) [0..<n]"
  have len: "length (sg_srvs sg) = n" "length (sr_endNames s) = n" using ok i by (auto simp: grp_ok_def s_def list_all_length)
  from shutdown_spec [OF ok i(1) dc] obtain net1 where net1: "ShutdownServer i (net, sg) = Some (net1, sg1)"
    "nw_servers net1 (ServerName (sg_gid sg) (int i)) = None" "nw_ends net1 = nw_ends net"
    "\<forall>j<n. \<not> nw_enabled net1 (end_of sg i j) \<and> \<not> nw_enabled net1 (end_of sg j i)"
    by (auto simp: sg1_def s_def)
  have "set es \<inter> nw_ends net1 = {}" using env(2) net1(3) by (simp add: es_def atLeast0LessThan)
  from make_srv_ends_fresh [OF env(1) [folded es_def] this, of "sg_gid sg" 0] obtain net' where
    net': "make_srv_ends net1 (sg_gid sg) 0 es = Some net'" "\<forall>e. nw_enabled net' e = (nw_enabled net1 e \<and> e \<notin> set es)"
    by blast
  define srv :: "'c GServer" where "srv = \<lparr>sr_saved = Some p, sr_endNames = es, sr_dc = None\<rparr>"
  have start: "startServer net1 s (sg_gid sg) (se_rand env) = Some (net', srv)"
  proof -
    have "sr_saved s = Some p" by (simp add: s_def)
    then show ?thesis using net'(1) by (simp add: startServer_def makeServer_def len es_def srv_def Let_def)
  qed
  from runDaemon_starts [OF grp, of "int i" es "nw_heap net'" "se_rsm env" "sg_endName sg"] i env(1) obtain dc' :: "'c DaemonClnt" where
    dc': "runDaemon (nw_heap net') True (se_rsm env) (sg_args sg) (sg_endName sg) (sg_gid sg) (int i) es = Some (Inr dc')"
    by (auto simp: es_def)
  define srv2 where "srv2 = srv\<lparr>sr_dc := Some (DaemonClnt_init dc' p)\<rparr>"
  define sg2 where "sg2 = sg1\<lparr>sg_srvs := (sg_srvs sg1)[i := srv2]\<rparr>"
  define net2 where "net2 = AddServer (net'\<lparr>nw_heap := (nw_heap net')(se_addr env := SetDispatch MakeServer (se_forward env))\<rparr>)
      (ServerName (sg_gid sg) (int i)) (se_addr env)"
  have st: "StartServer env i (net1, sg1) = Some (net2, sg2)"
    using start dc' env(3) i len
    by (simp add: StartServer_def sg1_def sg2_def net2_def srv_def srv2_def go_nth_def)
  have "sg_srvs sg2 ! i = srv2" using i len by (simp add: sg2_def sg1_def)
  then have "sr_dc (sg_srvs sg2 ! i) = Some (DaemonClnt_init dc' p)" "\<forall>j<n. \<not> nw_enabled net2 (end_of sg2 i j)"
    using net'(2) by (simp_all add: srv2_def srv_def end_of_def net2_def AddServer_def es_def)
  moreover have "nw_servers net2 (ServerName (sg_gid sg) (int i)) = Some (se_addr env)" by (simp add: net2_def AddServer_def)
  ultimately show ?thesis
    using net1 st init_persister [of dc' p] by blast
qed

definition running_server :: "(nat, nat) net \<times> nat ServerGrp" where
  "running_server = (MakeNetwork (\<lambda>_. MakeServer),
     \<lparr>sg_args = [], sg_srvs = [\<lparr>sr_saved = None, sr_endNames = [''00''],
        sr_dc = Some \<lparr>dc_srv = 0, dc_server = ServerName 0 0, dc_endName = ''00'',
          dc_proc = \<lparr>ds_endName = ''00'', ds_gid = 0, ds_sid = 0, ds_ends = [''00''], ds_tester = ''t'',
            ds_persister = Some \<lparr>ps_raftstate = [7], ps_snapshot = [1]\<rparr>, ds_open = True\<rparr>\<rparr>\<rparr>],
      sg_servernames = [ServerName 0 0], sg_endName = ''t'', sg_gid = 0, sg_connected = [True]\<rparr>)"

definition restart_env :: StartEnv where
  "restart_env = \<lparr>se_rand = (\<lambda>_. ''x''), se_started = True, se_rsm = False, se_addr = 3, se_forward = (\<lambda>_ _. ([], False))\<rparr>"

theorem restart_keeps_state_witness:
  "\<exists>net1 sg1 net2 sg2 dc2. ShutdownServer 0 running_server = Some (net1, sg1) \<and>
    StartServer restart_env 0 (net1, sg1) = Some (net2, sg2) \<and> sr_dc (sg_srvs sg2 ! 0) = Some dc2 \<and>
    ds_persister (dc_proc dc2) = Some \<lparr>ps_raftstate = [7], ps_snapshot = [1]\<rparr>"
proof -
  obtain net sg where st: "running_server = (net, sg)" by force
  have ok: "grp_ok 1 (net, sg)" unfolding st [symmetric] by (simp add: grp_ok_def running_server_def)
  have sg: "sg = snd running_server" "net = fst running_server" by (simp_all add: st)
  obtain dc where dc: "sr_dc (sg_srvs sg ! 0) = Some dc" "ds_persister (dc_proc dc) = Some \<lparr>ps_raftstate = [7], ps_snapshot = [1]\<rparr>"
    by (simp add: sg running_server_def)
  have env: "distinct (map (se_rand restart_env) [0..<1])" "se_rand restart_env ` {..<1} \<inter> nw_ends net = {}" "se_started restart_env"
    by (simp_all add: restart_env_def sg running_server_def MakeNetwork_def)
  have g: "list_all option_like (sg_args sg)" "0 \<le> sg_gid sg" "sg_gid sg < 2 ^ 63" by (simp_all add: sg running_server_def)
  show ?thesis
    using restart_keeps_state [OF ok _ _ dc env g] unfolding st by auto
qed

end
