(* ===== verification/TesterClnt.thy ===== *)
theory TesterClnt
  imports TesterGrp
begin

text \<open>
  The clients of a test, \<open>src/tester1/clnts.go\<close>: every clerk has a \<open>Clnt\<close> that lazily makes one end per
  server and restricts the servers the clerk may reach.

  The map \<open>ends\<close> is an association list in the order of Go's iteration; \<open>srvs\<close> is \<^term>\<open>None\<close> for the nil
  slice, which allows every server. \<open>Randstring\<close> is an argument: the name it draws.
\<close>

record Clnt =
  cl_ends :: "(string \<times> string) list"  \<comment> \<open>server name, name of the end\<close>
  cl_srvs :: "string list option"

definition makeClntTo :: "string list option \<Rightarrow> Clnt" where
  "makeClntTo srvs = \<lparr>cl_ends = [], cl_srvs = srvs\<rparr>"

definition allowedL :: "Clnt \<Rightarrow> string \<Rightarrow> bool" where
  "allowedL clnt server = (case cl_srvs clnt of None \<Rightarrow> True | Some srvs \<Rightarrow> list_ex (\<lambda>n. n = server) srvs)"

definition Clnt_makeEnd :: "string \<Rightarrow> string \<Rightarrow> ('o, 'w) net \<times> Clnt \<Rightarrow> (('o, 'w) net \<times> Clnt \<times> string) option" where
  "Clnt_makeEnd server name = (\<lambda>(net, clnt).
     case map_of (cl_ends clnt) server of
       Some endn \<Rightarrow> Some (net, clnt, endn)
     | None \<Rightarrow> do {
         net \<leftarrow> MakeEnd net name;
         let net = Connect net name server;
         let net = (if allowedL clnt server then Enable net name True else Enable net name False);
         Some (net, clnt\<lparr>cl_ends := (server, name) # cl_ends clnt\<rparr>, name)
       })"

fun enable_ends :: "bool \<Rightarrow> (string \<times> string) list \<Rightarrow> ('o, 'w) net \<Rightarrow> ('o, 'w) net" where
  "enable_ends yes [] net = net"
| "enable_ends yes ((srv, e) # es) net = enable_ends yes es (Enable net e yes)"

definition Clnt_ConnectAll :: "('o, 'w) net \<times> Clnt \<Rightarrow> ('o, 'w) net \<times> Clnt" where
  "Clnt_ConnectAll = (\<lambda>(net, clnt). (enable_ends True (cl_ends clnt) net, clnt\<lparr>cl_srvs := None\<rparr>))"

fun connect_allowed :: "Clnt \<Rightarrow> (string \<times> string) list \<Rightarrow> ('o, 'w) net \<Rightarrow> ('o, 'w) net" where
  "connect_allowed clnt [] net = net"
| "connect_allowed clnt ((srv, e) # es) net =
     connect_allowed clnt es (if allowedL clnt srv then Enable net e True else net)"

definition ConnectTo :: "string list \<Rightarrow> ('o, 'w) net \<times> Clnt \<Rightarrow> ('o, 'w) net \<times> Clnt" where
  "ConnectTo srvs = (\<lambda>(net, clnt).
     let clnt = clnt\<lparr>cl_srvs := Some srvs\<rparr> in (connect_allowed clnt (cl_ends clnt) net, clnt))"

fun disable_srv :: "string \<Rightarrow> (string \<times> string) list \<Rightarrow> ('o, 'w) net \<Rightarrow> ('o, 'w) net" where
  "disable_srv srv [] net = net"
| "disable_srv srv ((s, e) # es) net = disable_srv srv es (if s = srv then Enable net e False else net)"

definition Clnt_Disconnect :: "string \<Rightarrow> ('o, 'w) net \<times> Clnt \<Rightarrow> ('o, 'w) net \<times> Clnt" where
  "Clnt_Disconnect srv = (\<lambda>(net, clnt). (disable_srv srv (cl_ends clnt) net, clnt))"

definition Clnt_DisconnectAll :: "('o, 'w) net \<times> Clnt \<Rightarrow> ('o, 'w) net \<times> Clnt" where
  "Clnt_DisconnectAll = (\<lambda>(net, clnt). (enable_ends False (cl_ends clnt) net, clnt\<lparr>cl_srvs := Some []\<rparr>))"

fun delete_ends :: "(string \<times> string) list \<Rightarrow> ('o, 'w) net \<Rightarrow> ('o, 'w) net option" where
  "delete_ends [] net = Some net"
| "delete_ends ((srv, e) # es) net = do { net \<leftarrow> DeleteEnd net e; delete_ends es net }"

definition Clnt_remove :: "('o, 'w) net \<Rightarrow> Clnt \<Rightarrow> ('o, 'w) net option" where
  "Clnt_remove net clnt = delete_ends (cl_ends clnt) net"

subsection \<open>The set of clients\<close>

text \<open>A \<open>*Clnt\<close> is a key of a heap of clients; \<open>clerks\<close> is the list of the keys of the map.\<close>

record Clnts =
  cs_clerks :: "nat list"
  cs_heap :: "nat \<Rightarrow> Clnt"

definition makeClnts :: "(nat \<Rightarrow> Clnt) \<Rightarrow> Clnts" where
  "makeClnts heap = \<lparr>cs_clerks = [], cs_heap = heap\<rparr>"

definition Clnts_makeEnd :: "string \<Rightarrow> string \<Rightarrow> ('o, 'w) net \<Rightarrow> ('o, 'w) net option" where
  "Clnts_makeEnd servername name net = do {
     net \<leftarrow> MakeEnd net name;
     Some (Enable (Connect net name servername) name True)
   }"

definition MakeClientTo :: "nat \<Rightarrow> string list option \<Rightarrow> Clnts \<Rightarrow> Clnts" where
  "MakeClientTo addr srvs clnts =
     clnts\<lparr>cs_heap := (cs_heap clnts)(addr := makeClntTo srvs), cs_clerks := List.insert addr (cs_clerks clnts)\<rparr>"

definition MakeClient :: "nat \<Rightarrow> Clnts \<Rightarrow> Clnts" where
  "MakeClient addr clnts = MakeClientTo addr None clnts"

fun remove_all :: "nat list \<Rightarrow> (nat \<Rightarrow> Clnt) \<Rightarrow> ('o, 'w) net \<Rightarrow> ('o, 'w) net option" where
  "remove_all [] heap net = Some net"
| "remove_all (c # cs) heap net = do { net \<leftarrow> Clnt_remove net (heap c); remove_all cs heap net }"

definition Clnts_cleanup :: "('o, 'w) net \<times> Clnts \<Rightarrow> (('o, 'w) net \<times> Clnts) option" where
  "Clnts_cleanup = (\<lambda>(net, clnts). do {
     net \<leftarrow> remove_all (cs_clerks clnts) (cs_heap clnts) net;
     Some (net, clnts\<lparr>cs_clerks := []\<rparr>)
   })"

definition DeleteClient :: "nat \<Rightarrow> ('o, 'w) net \<times> Clnts \<Rightarrow> (('o, 'w) net \<times> Clnts) option" where
  "DeleteClient c = (\<lambda>(net, clnts).
     if c \<in> set (cs_clerks clnts) then do {
       net \<leftarrow> Clnt_remove net (cs_heap clnts c);
       Some (net, clnts\<lparr>cs_clerks := removeAll c (cs_clerks clnts)\<rparr>)
     } else Some (net, clnts))"

subsection \<open>What a client may reach\<close>

text \<open>The ends of a client: distinct names that the network knows, one end per server.\<close>

definition clnt_ok :: "('o, 'w) net \<times> Clnt \<Rightarrow> bool" where
  "clnt_ok st \<longleftrightarrow> distinct (map fst (cl_ends (snd st))) \<and> distinct (map snd (cl_ends (snd st))) \<and>
     snd ` set (cl_ends (snd st)) \<subseteq> nw_ends (fst st)"

text \<open>Every end is enabled exactly when its server is allowed.\<close>

definition access_exact :: "('o, 'w) net \<times> Clnt \<Rightarrow> bool" where
  "access_exact st \<longleftrightarrow> (\<forall>(srv, e) \<in> set (cl_ends (snd st)). nw_enabled (fst st) e = allowedL (snd st) srv)"

lemma enable_ends_eq: "enable_ends yes es net = net\<lparr>nw_enabled := (\<lambda>e. if e \<in> snd ` set es then yes else nw_enabled net e)\<rparr>"
  by (induction yes es net rule: enable_ends.induct) (auto simp: Enable_def fun_eq_iff)

lemma connect_allowed_enable: "connect_allowed clnt es net = enable_ends True (filter (\<lambda>(srv, e). allowedL clnt srv) es) net"
  by (induction clnt es net rule: connect_allowed.induct) auto

lemmas connect_allowed_eq = connect_allowed_enable [unfolded enable_ends_eq]

lemma Enable_if: "(if P then Enable net e True else Enable net e False) = Enable net e P"
  by simp

lemma clnt_ok_fun: "clnt_ok (net, clnt) \<Longrightarrow> (s, e) \<in> set (cl_ends clnt) \<Longrightarrow> (s', e) \<in> set (cl_ends clnt) \<Longrightarrow> s = s'"
  by (metis (no_types, lifting) clnt_ok_def eq_snd_iff fst_conv inj_on_eq_iff distinct_map snd_conv)

lemma allowedL_None [simp]: "allowedL (clnt\<lparr>cl_srvs := None\<rparr>) s"
  by (simp add: allowedL_def)

lemma allowedL_Nil [simp]: "\<not> allowedL (clnt\<lparr>cl_srvs := Some []\<rparr>) s"
  by (simp add: allowedL_def)

lemma allowedL_ends [simp]: "allowedL (clnt\<lparr>cl_ends := es\<rparr>) s = allowedL clnt s"
  by (simp add: allowedL_def)

lemma ConnectAll_exact: "access_exact (Clnt_ConnectAll st)"
  by (cases st) (auto simp: access_exact_def Clnt_ConnectAll_def enable_ends_eq intro: rev_image_eqI)

lemma DisconnectAll_exact: "access_exact (Clnt_DisconnectAll st)"
  by (cases st) (auto simp: access_exact_def Clnt_DisconnectAll_def enable_ends_eq intro: rev_image_eqI)

lemma enable_ends_ends [simp]: "nw_ends (enable_ends yes es net) = nw_ends net"
  by (simp add: enable_ends_eq)

lemma clnt_ok_toggle:
  "clnt_ok st \<Longrightarrow> clnt_ok (Clnt_ConnectAll st)" "clnt_ok st \<Longrightarrow> clnt_ok (Clnt_DisconnectAll st)" "clnt_ok st \<Longrightarrow> clnt_ok (ConnectTo srvs st)"
  by (cases st; simp add: clnt_ok_def Clnt_ConnectAll_def Clnt_DisconnectAll_def ConnectTo_def connect_allowed_enable Let_def)+

lemma ConnectTo_enabled:
  assumes "clnt_ok (net, clnt)" "(srv, e) \<in> set (cl_ends clnt)"
  shows "nw_enabled (fst (ConnectTo srvs (net, clnt))) e = (nw_enabled net e \<or> srv \<in> set srvs)"
proof -
  define al where "al = filter (\<lambda>(s, e). s \<in> set srvs) (cl_ends clnt)"
  have "nw_enabled (fst (ConnectTo srvs (net, clnt))) e = (e \<in> snd ` set al \<or> nw_enabled net e)"
    by (simp add: ConnectTo_def connect_allowed_eq Let_def allowedL_def list_ex_iff al_def)
  moreover have "e \<in> snd ` set al \<longleftrightarrow> srv \<in> set srvs"
  proof -
    have "e \<in> snd ` set al \<longleftrightarrow> (\<exists>s. (s, e) \<in> set (cl_ends clnt) \<and> s \<in> set srvs)" by (simp add: al_def image_iff)
    then show ?thesis using assms(2) clnt_ok_fun [OF assms] by blast
  qed
  ultimately show ?thesis by blast
qed

lemma makeEnd_exact:
  assumes "Clnt_makeEnd server name (net, clnt) = Some (net', clnt', e)" "clnt_ok (net, clnt)" "access_exact (net, clnt)"
  shows "clnt_ok (net', clnt') \<and> access_exact (net', clnt') \<and> (server, e) \<in> set (cl_ends clnt') \<and> cl_srvs clnt' = cl_srvs clnt"
proof (cases "map_of (cl_ends clnt) server")
  case (Some endn)
  with assms show ?thesis by (auto simp: Clnt_makeEnd_def dest: map_of_SomeD)
next
  case None
  then have srv: "server \<notin> fst ` set (cl_ends clnt)" by (simp add: map_of_eq_None_iff)
  from assms(1) None obtain net1 where net1: "MakeEnd net name = Some net1" "e = name"
    "clnt' = clnt\<lparr>cl_ends := (server, name) # cl_ends clnt\<rparr>" "net' = Enable (Connect net1 name server) name (allowedL clnt server)"
    by (auto simp: Clnt_makeEnd_def Let_def bind_eq_Some_conv Enable_if)
  then have fresh: "name \<notin> nw_ends net" by (auto simp: MakeEnd_def split: if_splits)
  then have "name \<notin> snd ` set (cl_ends clnt)" using assms(2) by (auto simp: clnt_ok_def)
  with net1 fresh srv assms(2,3) show ?thesis
    by (force simp: clnt_ok_def access_exact_def MakeEnd_def Enable_def Connect_def split: if_splits)
qed

text \<open>
  A client that was disconnected from all servers and then connected to a list of them reaches
  exactly the servers of the list, also over the ends it makes later.
\<close>

theorem client_reaches_allowed:
  assumes "clnt_ok st" "Clnt_makeEnd server name (ConnectTo srvs (Clnt_DisconnectAll st)) = Some (net', clnt', e)"
  shows "(\<forall>(srv, e) \<in> set (cl_ends clnt'). nw_enabled net' e \<longleftrightarrow> srv \<in> set srvs) \<and> (server, e) \<in> set (cl_ends clnt')"
proof -
  obtain net clnt where d: "Clnt_DisconnectAll st = (net, clnt)" by force
  have ok: "clnt_ok (net, clnt)" using clnt_ok_toggle(2) [OF assms(1)] by (simp add: d)
  have off: "\<not> nw_enabled net e" if "(srv, e) \<in> set (cl_ends clnt)" for srv e
    using DisconnectAll_exact [of st] that d by (cases st) (auto simp: access_exact_def Clnt_DisconnectAll_def)
  obtain net1 clnt1 where c: "ConnectTo srvs (net, clnt) = (net1, clnt1)" by force
  then have c1: "cl_ends clnt1 = cl_ends clnt" "cl_srvs clnt1 = Some srvs" by (auto simp: ConnectTo_def Let_def)
  have "access_exact (net1, clnt1)"
    using ConnectTo_enabled [OF ok, of _ _ srvs] off c c1 by (auto simp: access_exact_def allowedL_def list_ex_iff)
  moreover have "clnt_ok (net1, clnt1)" using clnt_ok_toggle(3) [OF ok, of srvs] c by simp
  ultimately have "access_exact (net', clnt') \<and> (server, e) \<in> set (cl_ends clnt') \<and> cl_srvs clnt' = Some srvs"
    using makeEnd_exact assms(2) c c1 d by metis
  then show ?thesis by (auto simp: access_exact_def allowedL_def list_ex_iff)
qed

definition two_ends :: "(nat, nat) net \<times> Clnt" where
  "two_ends = ((MakeNetwork (\<lambda>_. MakeServer))\<lparr>nw_ends := {''a'', ''b''}, nw_enabled := (\<lambda>_. True)\<rparr>,
     \<lparr>cl_ends = [(''s1'', ''a''), (''s2'', ''b'')], cl_srvs = None\<rparr>)"

theorem client_reaches_allowed_witness:
  "\<exists>net' clnt' e. Clnt_makeEnd ''s3'' ''c'' (ConnectTo [''s2''] (Clnt_DisconnectAll two_ends)) = Some (net', clnt', e) \<and>
    nw_enabled net' ''b'' \<and> \<not> nw_enabled net' ''a'' \<and> \<not> nw_enabled net' ''c''"
proof -
  have ok: "clnt_ok two_ends" by (simp add: two_ends_def clnt_ok_def)
  obtain net' clnt' e where m: "Clnt_makeEnd ''s3'' ''c'' (ConnectTo [''s2''] (Clnt_DisconnectAll two_ends)) = Some (net', clnt', e)"
    and es: "cl_ends clnt' = [(''s3'', ''c''), (''s1'', ''a''), (''s2'', ''b'')]"
    by (simp add: two_ends_def Clnt_makeEnd_def ConnectTo_def Clnt_DisconnectAll_def enable_ends_eq connect_allowed_eq MakeEnd_def Let_def)
  from client_reaches_allowed [OF ok m] m show ?thesis by (auto simp: es)
qed

text \<open>
  \<open>ConnectTo\<close> alone does not restrict a client: an end that is enabled stays enabled when its server is
  not in the list.
\<close>

lemma connect_to_keeps_old_ends:
  assumes "clnt_ok (net, clnt)" "(srv, e) \<in> set (cl_ends clnt)" "nw_enabled net e" "srv \<notin> set srvs"
  shows "nw_enabled (fst (ConnectTo srvs (net, clnt))) e \<and> \<not> allowedL (snd (ConnectTo srvs (net, clnt))) srv"
  using assms ConnectTo_enabled [OF assms(1,2)] by (simp add: ConnectTo_def Let_def allowedL_def list_ex_iff)

end
