(* ===== verification/KvTest.thy ===== *)
theory KvTest
  imports Clerk Strconv
begin

text \<open>
  The test harness of the key/value services, \<open>src/kvtest1/kvtest.go\<close> and \<open>src/kvtest1/porcupine.go\<close>.

  A clerk is a pair of functions on the state \<open>'s\<close> of the system it talks to. The harness threads a
  record through its calls: the system, the operation counter of \<open>tester.Config\<close>, the operation log and
  the clock. \<open>Fatalf\<close> ends the test. \<open>json.Marshal\<close> and \<open>json.Unmarshal\<close> at the type of the value are
  the arguments \<open>enc\<close> and \<open>dec\<close>. A loop that retries until the service answers takes fuel, and running out
  of it is told apart from \<open>Fatalf\<close>.
\<close>

record 's IKVClerk =
  ck_Get :: "string \<Rightarrow> 's \<Rightarrow> (string \<times> Tversion \<times> Err) \<times> 's"
  ck_Put :: "string \<Rightarrow> string \<Rightarrow> Tversion \<Rightarrow> 's \<Rightarrow> Err \<times> 's"

record 's KvTest =
  kt_sys :: 's
  kt_ops :: "32 word"
  kt_oplog :: "Operation list option"
  kt_now :: nat
  kt_randomkeys :: bool

definition MakeTest :: "'s \<Rightarrow> bool \<Rightarrow> 's KvTest" where
  "MakeTest sys randomkeys =
     \<lparr>kt_sys = sys, kt_ops = 0, kt_oplog = Some [], kt_now = 0, kt_randomkeys = randomkeys\<rparr>"

definition OpInc :: "'s KvTest \<Rightarrow> 's KvTest" where
  "OpInc ts = ts\<lparr>kt_ops := kt_ops ts + 1\<rparr>"

text \<open>\<open>time.Since(t0)\<close>: time passes with every reading.\<close>

definition since :: "'s KvTest \<Rightarrow> nat \<times> 's KvTest" where
  "since ts = (kt_now ts, ts\<lparr>kt_now := Suc (kt_now ts)\<rparr>)"

subsection \<open>The operation log\<close>

definition OpLog_Len :: "Operation list \<Rightarrow> nat" where
  "OpLog_Len log = length log"

definition OpLog_Append :: "Operation list \<Rightarrow> Operation \<Rightarrow> Operation list" where
  "OpLog_Append log op = log @ [op]"

definition OpLog_Read :: "Operation list \<Rightarrow> Operation list" where
  "OpLog_Read log = map (\<lambda>i. log ! i) [0..<length log]"

definition log_op :: "Operation \<Rightarrow> 's KvTest \<Rightarrow> 's KvTest" where
  "log_op op ts = ts\<lparr>kt_oplog := map_option (\<lambda>log. OpLog_Append log op) (kt_oplog ts)\<rparr>"

definition Get :: "'s IKVClerk \<Rightarrow> string \<Rightarrow> int \<Rightarrow> 's KvTest \<Rightarrow> (string \<times> Tversion \<times> Err) \<times> 's KvTest" where
  "Get ck key cli ts =
     (let (start, ts) = since ts;
          ((val, vn, err), sys) = ck_Get ck key (kt_sys ts);
          ts = ts\<lparr>kt_sys := sys\<rparr>;
          (end_t, ts) = since ts;
          ts = OpInc ts;
          ts = log_op \<lparr>op_ClientId = cli, op_Input = \<lparr>in_Op = 0, in_Key = key, in_Value = '''', in_Version = 0\<rparr>,
                 op_Call = start, op_Output = \<lparr>out_Value = val, out_Version = vn, out_Err = err_string err\<rparr>,
                 op_Return = end_t\<rparr> ts
      in ((val, vn, err), ts))"

definition Put :: "'s IKVClerk \<Rightarrow> string \<Rightarrow> string \<Rightarrow> Tversion \<Rightarrow> int \<Rightarrow> 's KvTest \<Rightarrow> Err \<times> 's KvTest" where
  "Put ck key val version cli ts =
     (let (start, ts) = since ts;
          (err, sys) = ck_Put ck key val version (kt_sys ts);
          ts = ts\<lparr>kt_sys := sys\<rparr>;
          (end_t, ts) = since ts;
          ts = OpInc ts;
          ts = log_op \<lparr>op_ClientId = cli, op_Input = \<lparr>in_Op = 1, in_Key = key, in_Value = val, in_Version = version\<rparr>,
                 op_Call = start, op_Output = \<lparr>out_Value = '''', out_Version = 0, out_Err = err_string err\<rparr>,
                 op_Return = end_t\<rparr> ts
      in (err, ts))"

text \<open>The methods of \<open>Test\<close> repeat the two functions; the \<open>Put\<close> of the two does not count the operation.\<close>

definition Test_Get :: "'s IKVClerk \<Rightarrow> string \<Rightarrow> int \<Rightarrow> 's KvTest \<Rightarrow> (string \<times> Tversion \<times> Err) \<times> 's KvTest" where
  "Test_Get ck key cli ts =
     (let (start, ts) = since ts;
          ((val, vn, err), sys) = ck_Get ck key (kt_sys ts);
          ts = ts\<lparr>kt_sys := sys\<rparr>;
          (end_t, ts) = since ts;
          ts = OpInc ts;
          ts = log_op \<lparr>op_ClientId = cli, op_Input = \<lparr>in_Op = 0, in_Key = key, in_Value = '''', in_Version = 0\<rparr>,
                 op_Call = start, op_Output = \<lparr>out_Value = val, out_Version = vn, out_Err = err_string err\<rparr>,
                 op_Return = end_t\<rparr> ts
      in ((val, vn, err), ts))"

definition Test_Put :: "'s IKVClerk \<Rightarrow> string \<Rightarrow> string \<Rightarrow> Tversion \<Rightarrow> int \<Rightarrow> 's KvTest \<Rightarrow> Err \<times> 's KvTest" where
  "Test_Put ck key val version cli ts =
     (let (start, ts) = since ts;
          (err, sys) = ck_Put ck key val version (kt_sys ts);
          ts = ts\<lparr>kt_sys := sys\<rparr>;
          (end_t, ts) = since ts;
          ts = log_op \<lparr>op_ClientId = cli, op_Input = \<lparr>in_Op = 1, in_Key = key, in_Value = val, in_Version = version\<rparr>,
                 op_Call = start, op_Output = \<lparr>out_Value = '''', out_Version = 0, out_Err = err_string err\<rparr>,
                 op_Return = end_t\<rparr> ts
      in (err, ts))"

text \<open>
  The verdict of the checker decides: \<open>Illegal\<close> fails the test, \<open>Unknown\<close> (a time-out) passes it. The
  checker \<open>porcupine.CheckOperationsVerbose\<close> is the argument \<open>check\<close>; the visualisation it can write is
  not modelled.
\<close>

datatype CheckResult = Ok | Illegal | Unknown

definition checkPorcupine :: "(Operation list \<Rightarrow> CheckResult) \<Rightarrow> 's KvTest \<Rightarrow> unit option" where
  "checkPorcupine check ts = (case kt_oplog ts of
       None \<Rightarrow> None
     | Some log \<Rightarrow> (case check (OpLog_Read log) of Illegal \<Rightarrow> None | _ \<Rightarrow> Some ()))"

text \<open>The clerk of a test counts every call.\<close>

definition TestClerk_Put :: "'s IKVClerk \<Rightarrow> string \<Rightarrow> string \<Rightarrow> Tversion \<Rightarrow> 's KvTest \<Rightarrow> Err \<times> 's KvTest" where
  "TestClerk_Put ck key val version ts =
     (let ts = OpInc ts; (err, sys) = ck_Put ck key val version (kt_sys ts) in (err, ts\<lparr>kt_sys := sys\<rparr>))"

definition TestClerk_Get :: "'s IKVClerk \<Rightarrow> string \<Rightarrow> 's KvTest \<Rightarrow> (string \<times> Tversion \<times> Err) \<times> 's KvTest" where
  "TestClerk_Get ck key ts =
     (let ts = OpInc ts; (r, sys) = ck_Get ck key (kt_sys ts) in (r, ts\<lparr>kt_sys := sys\<rparr>))"

subsection \<open>Puts that retry\<close>

datatype stop = FatalStop | OutOfFuel

fun PutAtLeastOnce ::
  "nat \<Rightarrow> 's IKVClerk \<Rightarrow> string \<Rightarrow> string \<Rightarrow> Tversion \<Rightarrow> int \<Rightarrow> 's KvTest \<Rightarrow> stop + Tversion \<times> 's KvTest" where
  "PutAtLeastOnce 0 ck key val vn me ts = Inl OutOfFuel"
| "PutAtLeastOnce (Suc fuel) ck key val vn me ts =
     (let (err, ts) = Test_Put ck key val vn me ts
      in if err = OK then Inr (vn + 1, ts)
         else if err = ErrMaybe \<or> err = ErrVersion then PutAtLeastOnce fuel ck key val (vn + 1) me ts
         else if vn \<noteq> 0 then Inl FatalStop
         else PutAtLeastOnce fuel ck key val vn me ts)"

definition CheckGet :: "'s IKVClerk \<Rightarrow> string \<Rightarrow> string \<Rightarrow> Tversion \<Rightarrow> 's KvTest \<Rightarrow> 's KvTest option" where
  "CheckGet ck key val version ts =
     (let ((v, vn, err), ts) = Test_Get ck key 0 ts
      in if err \<noteq> OK then None else if v \<noteq> val \<or> vn \<noteq> version then None else Some ts)"

definition GetJson ::
  "(string \<Rightarrow> 'j option) \<Rightarrow> 's IKVClerk \<Rightarrow> string \<Rightarrow> int \<Rightarrow> 's KvTest \<Rightarrow> (Tversion \<times> 'j \<times> 's KvTest) option" where
  "GetJson dec ck key me ts =
     (let ((val, vn, err), ts) = Get ck key me ts
      in if err = OK then (case dec val of None \<Rightarrow> None | Some v \<Rightarrow> Some (vn, v, ts)) else None)"

definition PutJson ::
  "('j \<Rightarrow> string option) \<Rightarrow> 's IKVClerk \<Rightarrow> string \<Rightarrow> 'j \<Rightarrow> Tversion \<Rightarrow> int \<Rightarrow> 's KvTest \<Rightarrow> (Err \<times> 's KvTest) option" where
  "PutJson enc ck key v vn me ts = (case enc v of None \<Rightarrow> None | Some b \<Rightarrow> Some (Put ck key b vn me ts))"

text \<open>\<open>PutAtLeastOnceJson\<close> puts with version 0 whatever \<open>ver\<close> is.\<close>

fun PutAtLeastOnceJson ::
  "nat \<Rightarrow> ('j \<Rightarrow> string option) \<Rightarrow> 's IKVClerk \<Rightarrow> string \<Rightarrow> 'j \<Rightarrow> Tversion \<Rightarrow> int \<Rightarrow> 's KvTest \<Rightarrow>
     stop + Tversion \<times> 's KvTest" where
  "PutAtLeastOnceJson 0 enc ck key v vn me ts = Inl OutOfFuel"
| "PutAtLeastOnceJson (Suc fuel) enc ck key v vn me ts =
     (case PutJson enc ck key v 0 me ts of
        None \<Rightarrow> Inl FatalStop
      | Some (err, ts) \<Rightarrow> if err \<noteq> ErrMaybe then Inr (vn, ts)
                         else PutAtLeastOnceJson fuel enc ck key v (vn + 1) me ts)"

record EntryV =
  ev_Id :: int
  ev_V :: Tversion

fun OnePut ::
  "nat \<Rightarrow> (EntryV \<Rightarrow> string option) \<Rightarrow> (string \<Rightarrow> EntryV option) \<Rightarrow> int \<Rightarrow> 's IKVClerk \<Rightarrow> string \<Rightarrow> Tversion \<Rightarrow>
     's KvTest \<Rightarrow> stop + Tversion \<times> bool \<times> 's KvTest" where
  "OnePut 0 enc dec me ck key vn ts = Inl OutOfFuel"
| "OnePut (Suc fuel) enc dec me ck key vn ts =
     (case PutJson enc ck key \<lparr>ev_Id = me, ev_V = vn\<rparr> vn me ts of
        None \<Rightarrow> Inl FatalStop
      | Some (err, ts) \<Rightarrow>
          if \<not> (err = OK \<or> err = ErrVersion \<or> err = ErrMaybe) then Inl FatalStop
          else (case GetJson dec ck key me ts of
              None \<Rightarrow> Inl FatalStop
            | Some (ver0, e, ts) \<Rightarrow>
                if err = OK \<and> ver0 = vn + 1 \<and> ev_Id e \<noteq> me \<and> ev_V e \<noteq> vn then Inl FatalStop
                else if err = OK \<or> err = ErrMaybe then Inr (ver0, err = OK, ts)
                else OnePut fuel enc dec me ck key ver0 ts))"

subsection \<open>Clients and their results\<close>

record ClntRes =
  cr_Nok :: int
  cr_Nmaybe :: int

fun sum_res :: "ClntRes list \<Rightarrow> ClntRes \<Rightarrow> ClntRes" where
  "sum_res [] res = res"
| "sum_res (r # rs) res = sum_res rs \<lparr>cr_Nok = cr_Nok res + cr_Nok r, cr_Nmaybe = cr_Nmaybe res + cr_Nmaybe r\<rparr>"

definition CheckPutConcurrent ::
  "(string \<Rightarrow> EntryV option) \<Rightarrow> 's IKVClerk \<Rightarrow> string \<Rightarrow> ClntRes list \<Rightarrow> ClntRes \<Rightarrow> bool \<Rightarrow> 's KvTest \<Rightarrow>
     (ClntRes \<times> 's KvTest) option" where
  "CheckPutConcurrent dec ck key rs res reliable ts =
     (case GetJson dec ck key (-1) ts of
        None \<Rightarrow> None
      | Some (ver0, e, ts) \<Rightarrow>
          let res = sum_res rs res
          in if reliable then
               (if ver0 \<noteq> word_of_int (cr_Nok res) then None else Some (res, ts))
             else if ver0 > word_of_int (cr_Nok res + cr_Nmaybe res) then None else Some (res, ts))"

text \<open>
  \<open>OneClientPut\<close>: \<open>draws\<close> holds one random number per round until the done signal; \<open>ka[0]\<close> of an empty
  list panics.
\<close>

fun OneClientPut ::
  "nat \<Rightarrow> (EntryV \<Rightarrow> string option) \<Rightarrow> (string \<Rightarrow> EntryV option) \<Rightarrow> int \<Rightarrow> 's IKVClerk \<Rightarrow> string list \<Rightarrow>
     nat list \<Rightarrow> (string \<Rightarrow> Tversion) \<Rightarrow> ClntRes \<Rightarrow> 's KvTest \<Rightarrow> stop + ClntRes \<times> 's KvTest" where
  "OneClientPut fuel enc dec cli ck ka [] verm res ts = Inr (res, ts)"
| "OneClientPut fuel enc dec cli ck ka (d # draws) verm res ts =
     (if ka = [] then Inl FatalStop
      else let k = (if kt_randomkeys ts then ka ! (d mod length ka) else ka ! 0)
      in (case OnePut fuel enc dec cli ck k (verm k) ts of
            Inl s \<Rightarrow> Inl s
          | Inr (vn, ok, ts) \<Rightarrow>
              OneClientPut fuel enc dec cli ck ka draws (verm(k := vn))
                (if ok then res\<lparr>cr_Nok := cr_Nok res + 1\<rparr> else res\<lparr>cr_Nmaybe := cr_Nmaybe res + 1\<rparr>) ts))"

definition MakeKeys :: "nat \<Rightarrow> string list" where
  "MakeKeys n = map (\<lambda>i. ''k'' @ Itoa (int i)) [0..<n]"

text \<open>\<open>va\<close>: the random values, one per key. The puts go to the clerk directly.\<close>

fun spread_puts :: "'s IKVClerk \<Rightarrow> (string \<times> string) list \<Rightarrow> 's KvTest \<Rightarrow> 's KvTest" where
  "spread_puts ck [] ts = ts"
| "spread_puts ck ((k, v) # kvs) ts =
     (let (err, sys) = ck_Put ck k v 0 (kt_sys ts) in spread_puts ck kvs (ts\<lparr>kt_sys := sys\<rparr>))"

fun spread_checks :: "'s IKVClerk \<Rightarrow> (string \<times> string) list \<Rightarrow> 's KvTest \<Rightarrow> 's KvTest option" where
  "spread_checks ck [] ts = Some ts"
| "spread_checks ck ((k, v) # kvs) ts = do { ts \<leftarrow> CheckGet ck k v 1 ts; spread_checks ck kvs ts }"

definition SpreadPutsSize :: "'s IKVClerk \<Rightarrow> nat \<Rightarrow> string list \<Rightarrow> 's KvTest \<Rightarrow> (string list \<times> string list \<times> 's KvTest) option" where
  "SpreadPutsSize ck n va ts = do {
     let ka = MakeKeys n;
     ts \<leftarrow> spread_checks ck (zip ka va) (spread_puts ck (zip ka va) ts);
     Some (ka, va, ts)
   }"

record EntryN =
  en_Id :: int
  en_N :: int

text \<open>The inner loop of \<open>OneClientAppend\<close>: append \<open>(me, i)\<close> until the put is answered \<open>OK\<close> or \<open>ErrMaybe\<close>.\<close>

fun append_one ::
  "nat \<Rightarrow> (EntryN list \<Rightarrow> string option) \<Rightarrow> (string \<Rightarrow> EntryN list option) \<Rightarrow> int \<Rightarrow> 's IKVClerk \<Rightarrow> int \<Rightarrow>
     's KvTest \<Rightarrow> stop + bool \<times> 's KvTest" where
  "append_one 0 enc dec me ck i ts = Inl OutOfFuel"
| "append_one (Suc fuel) enc dec me ck i ts =
     (case GetJson dec ck ''k'' me ts of
        None \<Rightarrow> Inl FatalStop
      | Some (vn, es, ts) \<Rightarrow>
          (case PutJson enc ck ''k'' (es @ [\<lparr>en_Id = me, en_N = i\<rparr>]) vn me ts of
             None \<Rightarrow> Inl FatalStop
           | Some (err, ts) \<Rightarrow>
               if err = OK then Inr (True, ts)
               else if err = ErrMaybe then Inr (False, ts)
               else append_one fuel enc dec me ck i ts))"

text \<open>\<open>rounds\<close>: the number of rounds until the done signal; \<open>i\<close> the round.\<close>

fun OneClientAppend ::
  "nat \<Rightarrow> (EntryN list \<Rightarrow> string option) \<Rightarrow> (string \<Rightarrow> EntryN list option) \<Rightarrow> int \<Rightarrow> 's IKVClerk \<Rightarrow> nat \<Rightarrow> int \<Rightarrow>
     ClntRes \<Rightarrow> 's KvTest \<Rightarrow> stop + ClntRes \<times> 's KvTest" where
  "OneClientAppend fuel enc dec me ck 0 i res ts = Inr (res, ts)"
| "OneClientAppend fuel enc dec me ck (Suc rounds) i res ts =
     (case append_one fuel enc dec me ck i ts of
        Inl s \<Rightarrow> Inl s
      | Inr (ok, ts) \<Rightarrow>
          OneClientAppend fuel enc dec me ck rounds (i + 1)
            (if ok then res\<lparr>cr_Nok := cr_Nok res + 1\<rparr> else res\<lparr>cr_Nmaybe := cr_Nmaybe res + 1\<rparr>) ts)"

text \<open>\<open>Partitioner\<close>: the two sides of one round, \<open>a\<close> the random bits of the servers.\<close>

definition Partitioner_sides :: "nat list \<Rightarrow> nat list \<times> nat list" where
  "Partitioner_sides a =
     (let side = (\<lambda>i. filter (\<lambda>j. a ! j = i) [0..<length a]) in (side 0, side 1))"

subsection \<open>CheckAppends\<close>

text \<open>The maps \<open>expect\<close> and \<open>skipped\<close> read 0 where they have no key. The counters are 64 bits wide and wrap.\<close>

fun check_entries :: "EntryN list \<Rightarrow> (int \<Rightarrow> int) \<Rightarrow> (int \<Rightarrow> int) \<Rightarrow> ((int \<Rightarrow> int) \<times> (int \<Rightarrow> int)) option" where
  "check_entries [] expect skipped = Some (expect, skipped)"
| "check_entries (e # es) expect skipped =
     (if expect (en_Id e) > en_N e then None
      else if expect (en_Id e) = en_N e then check_entries es (expect(en_Id e := i64 (expect (en_Id e) + 1))) skipped
      else let s = i64 (en_N e - expect (en_Id e))
           in check_entries es (expect(en_Id e := i64 (en_N e + 1))) (skipped(en_Id e := i64 (skipped (en_Id e) + s))))"

fun check_clients :: "(int \<Rightarrow> int) \<Rightarrow> (int \<Rightarrow> int) \<Rightarrow> ClntRes list \<Rightarrow> int list \<Rightarrow> unit option" where
  "check_clients expect skipped rs [] = Some ()"
| "check_clients expect skipped rs (c # cs) = do {
     r \<leftarrow> go_nth rs c;
     if skipped c > cr_Nmaybe r then None
     else if expect c > i64 (cr_Nok r + cr_Nmaybe r) then None
     else check_clients expect skipped rs cs
   }"

definition expect_keys :: "EntryN list \<Rightarrow> nat \<Rightarrow> int list" where
  "expect_keys es nclnt = remdups (map int [0..<nclnt] @ map en_Id es)"

definition CheckAppends :: "EntryN list \<Rightarrow> nat \<Rightarrow> ClntRes list \<Rightarrow> Tversion \<Rightarrow> unit option" where
  "CheckAppends es nclnt rs vn = do {
     (expect, skipped) \<leftarrow> check_entries es (\<lambda>_. 0) (\<lambda>_. 0);
     if i64 (int (length es) + 1) \<noteq> sint vn then None
     else check_clients expect skipped rs (expect_keys es nclnt)
   }"

end
