(* ===== verification/KvTestOk.thy ===== *)
theory KvTestOk
  imports KvTest
begin

text \<open>
  What the harness of \<open>kvtest1\<close> decides and does: the check of the appended entries characterised by
  the sequences it accepts, the key names, and the retrying put run against the real clerk and server
  over a network that loses messages.
\<close>

subsection \<open>What CheckAppends accepts\<close>

text \<open>The numbers of one client's entries, in the order of the value.\<close>

definition client_ns :: "EntryN list \<Rightarrow> int \<Rightarrow> int list" where
  "client_ns es c = map en_N (filter (\<lambda>e. en_Id e = c) es)"

text \<open>One more than the last number, what \<open>expect\<close> holds in the end.\<close>

definition next_n :: "int list \<Rightarrow> int" where
  "next_n ns = (if ns = [] then 0 else last ns + 1)"

fun from_n :: "int \<Rightarrow> int list \<Rightarrow> bool" where
  "from_n b [] = True"
| "from_n b (n # ns) = (b \<le> n \<and> from_n (n + 1) ns)"

fun end_n :: "int \<Rightarrow> int list \<Rightarrow> int" where
  "end_n b [] = b"
| "end_n b (n # ns) = end_n (n + 1) ns"

lemma client_ns_Cons: "client_ns (e # es) c = (if en_Id e = c then en_N e # client_ns es c else client_ns es c)"
  by (simp add: client_ns_def)

lemma client_ns_Nil [simp]: "client_ns [] c = []"
  by (simp add: client_ns_def)

text \<open>The loop over the entries with exact counters.\<close>

fun count_entries :: "EntryN list \<Rightarrow> (int \<Rightarrow> int) \<Rightarrow> (int \<Rightarrow> int) \<Rightarrow> ((int \<Rightarrow> int) \<times> (int \<Rightarrow> int)) option" where
  "count_entries [] ex sk = Some (ex, sk)"
| "count_entries (e # es) ex sk =
     (if ex (en_Id e) > en_N e then None
      else count_entries es (ex(en_Id e := en_N e + 1)) (sk(en_Id e := sk (en_Id e) + (en_N e - ex (en_Id e)))))"

text \<open>
  The values for which no counter of \<open>CheckAppends\<close> overflows: entries with numbers below the largest \<open>int\<close> and
  results whose sums are representable.
\<close>

definition appends_fit :: "EntryN list \<Rightarrow> ClntRes list \<Rightarrow> bool" where
  "appends_fit es rs \<longleftrightarrow> int (length es) < 2 ^ 63 - 1 \<and> (\<forall>e\<in>set es. en_N e < 2 ^ 63 - 1) \<and>
     (\<forall>r\<in>set rs. - (2 ^ 63) \<le> cr_Nok r + cr_Nmaybe r \<and> cr_Nok r + cr_Nmaybe r < 2 ^ 63)"

lemma check_entries_exact:
  assumes "\<forall>e\<in>set es. en_N e < 2 ^ 63 - 1" "\<forall>c. 0 \<le> sk c \<and> sk c \<le> ex c \<and> ex c < 2 ^ 63"
  shows "check_entries es ex sk = count_entries es ex sk"
  using assms
proof (induction es arbitrary: ex sk)
  case (Cons e es)
  define i where "i = en_Id e"
  from Cons.prems(1) have n: "en_N e < 2 ^ 63 - 1" "\<forall>e\<in>set es. en_N e < 2 ^ 63 - 1" by simp_all
  from Cons.prems(2) have c: "0 \<le> sk i" "sk i \<le> ex i" "ex i < 2 ^ 63" by blast+
  show ?case
  proof (cases "ex i > en_N e")
    case False
    with n c have w: "i64 (en_N e + 1) = en_N e + 1" "i64 (ex i + 1) = ex i + 1" "i64 (en_N e - ex i) = en_N e - ex i"
      "i64 (sk i + (en_N e - ex i)) = sk i + (en_N e - ex i)" by (auto intro!: i64_in)
    have "check_entries (e # es) ex sk = check_entries es (ex(i := en_N e + 1)) (sk(i := sk i + (en_N e - ex i)))"
      using False by (simp add: i_def [symmetric] w Let_def)
    also have "\<dots> = count_entries es (ex(i := en_N e + 1)) (sk(i := sk i + (en_N e - ex i)))"
    proof (rule Cons.IH [OF n(2)], rule allI)
      fix d
      show "0 \<le> (sk(i := sk i + (en_N e - ex i))) d \<and> (sk(i := sk i + (en_N e - ex i))) d \<le> (ex(i := en_N e + 1)) d \<and>
          (ex(i := en_N e + 1)) d < 2 ^ 63"
        using n(1) c False Cons.prems(2) [rule_format, of d] by (cases "d = i") simp_all
    qed
    finally show ?thesis using False by (simp add: i_def)
  qed (simp add: i_def)
qed simp

lemma count_entries_Some:
  "count_entries es ex sk = Some (ex', sk') \<longleftrightarrow>
     (\<forall>c. from_n (ex c) (client_ns es c)) \<and> ex' = (\<lambda>c. end_n (ex c) (client_ns es c)) \<and>
     sk' = (\<lambda>c. sk c + (end_n (ex c) (client_ns es c) - ex c - int (length (client_ns es c))))"
proof (induction es arbitrary: ex sk)
  case Nil
  then show ?case by (auto simp: fun_eq_iff)
next
  case (Cons e es)
  define i where "i = en_Id e"
  define ex1 where "ex1 = ex(i := en_N e + 1)"
  define sk1 where "sk1 = sk(i := sk i + (en_N e - ex i))"
  show ?case
  proof (cases "ex i > en_N e")
    case True
    then have "\<not> from_n (ex i) (client_ns (e # es) i)" by (simp add: client_ns_Cons i_def)
    with True show ?thesis by (auto simp: i_def)
  next
    case False
    then have step: "count_entries (e # es) ex sk = count_entries es ex1 sk1"
      by (simp add: i_def ex1_def sk1_def Let_def fun_upd_idem)
    have pw: "from_n (ex c) (client_ns (e # es) c) = from_n (ex1 c) (client_ns es c)"
      "end_n (ex c) (client_ns (e # es) c) = end_n (ex1 c) (client_ns es c)"
      "sk c + (end_n (ex c) (client_ns (e # es) c) - ex c - int (length (client_ns (e # es) c))) =
       sk1 c + (end_n (ex1 c) (client_ns es c) - ex1 c - int (length (client_ns es c)))" for c
      using False by (auto simp: client_ns_Cons i_def ex1_def sk1_def)
    show ?thesis unfolding step Cons.IH pw(3) by (simp only: pw(1,2))
  qed
qed

lemma from_n_sorted: "from_n b ns \<longleftrightarrow> sorted_wrt (<) ns \<and> (\<forall>n \<in> set ns. b \<le> n)"
proof (induction b ns rule: from_n.induct)
  case (2 b n ns)
  then show ?case by (auto simp: int_one_le_iff_zero_less add1_zle_eq) (meson order_trans less_imp_le)+
qed simp

lemma end_n_next: "end_n b ns = (if ns = [] then b else last ns + 1)"
  by (induction b ns rule: end_n.induct) auto

lemma check_clients_Some:
  "check_clients ex sk rs cs = Some () \<longleftrightarrow>
     (\<forall>c \<in> set cs. 0 \<le> c \<and> c < int (length rs) \<and> sk c \<le> cr_Nmaybe (rs ! nat c) \<and>
        ex c \<le> i64 (cr_Nok (rs ! nat c) + cr_Nmaybe (rs ! nat c)))"
  by (induction ex sk rs cs rule: check_clients.induct) (auto simp: go_nth_def)

lemma set_expect_keys: "set (expect_keys es nclnt) = {0..<int nclnt} \<union> en_Id ` set es"
proof -
  have "int ` {0..<nclnt} = {0..<int nclnt}" by (simp add: image_int_atLeastLessThan)
  then show ?thesis by (simp add: expect_keys_def)
qed

text \<open>
  \<^bold>\<open>C26\<close>: What \<open>CheckAppends\<close> accepts, for numbers that do not overflow its counters: it passes exactly when every
  client's entries appear with strictly increasing non-negative numbers, the version of the key is the number of
  entries plus one, every entry comes from a client with a result, and for every client the entries that are missing
  below its last one are at most its puts of unknown fate and its last number is below the number of its puts.
\<close>

theorem check_appends_iff:
  assumes "appends_fit es rs"
  shows "CheckAppends es nclnt rs v = Some () \<longleftrightarrow>
     (\<forall>c. sorted_wrt (<) (client_ns es c) \<and> (\<forall>n \<in> set (client_ns es c). 0 \<le> n)) \<and>
     int (length es) + 1 = sint v \<and>
     (\<forall>c \<in> {0..<int nclnt} \<union> en_Id ` set es. 0 \<le> c \<and> c < int (length rs) \<and>
        next_n (client_ns es c) - int (length (client_ns es c)) \<le> cr_Nmaybe (rs ! nat c) \<and>
        next_n (client_ns es c) \<le> cr_Nok (rs ! nat c) + cr_Nmaybe (rs ! nat c))"
proof -
  define ex where "ex = (\<lambda>c. next_n (client_ns es c))"
  define sk where "sk = (\<lambda>c. ex c - int (length (client_ns es c)))"
  define good where "good \<longleftrightarrow> (\<forall>c. sorted_wrt (<) (client_ns es c) \<and> (\<forall>n \<in> set (client_ns es c). 0 \<le> n))"
  have exact: "check_entries es (\<lambda>_. 0) (\<lambda>_. 0) = count_entries es (\<lambda>_. 0) (\<lambda>_. 0)"
    using assms by (intro check_entries_exact) (auto simp: appends_fit_def)
  have len: "i64 (int (length es) + 1) = int (length es) + 1"
    using assms by (intro i64_in) (simp_all add: appends_fit_def)
  have sums: "i64 (cr_Nok (rs ! nat c) + cr_Nmaybe (rs ! nat c)) = cr_Nok (rs ! nat c) + cr_Nmaybe (rs ! nat c)"
    if "0 \<le> c" "c < int (length rs)" for c
  proof -
    from that have "rs ! nat c \<in> set rs" by simp
    with assms show ?thesis by (intro i64_in) (simp_all add: appends_fit_def)
  qed
  have entries: "check_entries es (\<lambda>_. 0) (\<lambda>_. 0) = (if good then Some (ex, sk) else None)"
  proof (cases good)
    case True
    then show ?thesis
      using count_entries_Some [of es "\<lambda>_. 0" "\<lambda>_. 0" ex sk] unfolding exact
      by (simp add: from_n_sorted good_def ex_def sk_def next_n_def end_n_next fun_eq_iff)
  next
    case False
    then have "count_entries es (\<lambda>_. 0) (\<lambda>_. 0) \<noteq> Some p" for p
      using count_entries_Some [of es "\<lambda>_. 0" "\<lambda>_. 0" "fst p" "snd p"]
      by (auto simp: from_n_sorted good_def)
    with False show ?thesis unfolding exact by (cases "count_entries es (\<lambda>_. 0) (\<lambda>_. 0)") auto
  qed
  have "check_clients ex sk rs (expect_keys es nclnt) = Some () \<longleftrightarrow>
      (\<forall>c \<in> {0..<int nclnt} \<union> en_Id ` set es. 0 \<le> c \<and> c < int (length rs) \<and> sk c \<le> cr_Nmaybe (rs ! nat c) \<and>
        ex c \<le> cr_Nok (rs ! nat c) + cr_Nmaybe (rs ! nat c))"
    unfolding check_clients_Some set_expect_keys using sums by (intro ball_cong) auto
  then show ?thesis
    unfolding CheckAppends_def entries good_def [symmetric] len by (auto simp: sk_def ex_def)
qed

theorem check_appends_iff_witness:
  "CheckAppends [\<lparr>en_Id = 0, en_N = 0\<rparr>, \<lparr>en_Id = 1, en_N = 1\<rparr>, \<lparr>en_Id = 0, en_N = 1\<rparr>] 2
     [\<lparr>cr_Nok = 2, cr_Nmaybe = 0\<rparr>, \<lparr>cr_Nok = 1, cr_Nmaybe = 1\<rparr>] 4 = Some () \<and>
   CheckAppends [\<lparr>en_Id = 0, en_N = 1\<rparr>, \<lparr>en_Id = 0, en_N = 0\<rparr>] 1 [\<lparr>cr_Nok = 2, cr_Nmaybe = 0\<rparr>] 3 \<noteq> Some ()"
proof (rule conjI)
  have r: "{0..<int 2} = {0, 1}" by auto
  have f: "appends_fit [\<lparr>en_Id = 0, en_N = 0\<rparr>, \<lparr>en_Id = 1, en_N = 1\<rparr>, \<lparr>en_Id = 0, en_N = 1\<rparr>]
      [\<lparr>cr_Nok = 2, cr_Nmaybe = 0\<rparr>, \<lparr>cr_Nok = 1, cr_Nmaybe = 1\<rparr>]"
    "appends_fit [\<lparr>en_Id = 0, en_N = 1\<rparr>, \<lparr>en_Id = 0, en_N = 0\<rparr>] [\<lparr>cr_Nok = 2, cr_Nmaybe = 0\<rparr>]"
    by (simp_all add: appends_fit_def)
  show "CheckAppends [\<lparr>en_Id = 0, en_N = 0\<rparr>, \<lparr>en_Id = 1, en_N = 1\<rparr>, \<lparr>en_Id = 0, en_N = 1\<rparr>] 2
     [\<lparr>cr_Nok = 2, cr_Nmaybe = 0\<rparr>, \<lparr>cr_Nok = 1, cr_Nmaybe = 1\<rparr>] 4 = Some ()"
    unfolding check_appends_iff [OF f(1)] r by (auto simp: client_ns_def next_n_def)
  show "CheckAppends [\<lparr>en_Id = 0, en_N = 1\<rparr>, \<lparr>en_Id = 0, en_N = 0\<rparr>] 1 [\<lparr>cr_Nok = 2, cr_Nmaybe = 0\<rparr>] 3 \<noteq> Some ()"
    unfolding check_appends_iff [OF f(2)] by (auto simp: client_ns_def)
qed

text \<open>Without the bound on the numbers the counters wrap, and entries in the wrong order pass.\<close>

lemma check_appends_wraps:
  "CheckAppends [\<lparr>en_Id = 0, en_N = 2 ^ 63 - 1\<rparr>, \<lparr>en_Id = 0, en_N = 0\<rparr>] 1 [\<lparr>cr_Nok = 1, cr_Nmaybe = 0\<rparr>] 3 = Some ()"
  by (simp add: CheckAppends_def i64_def expect_keys_def go_nth_def)

subsection \<open>The clerk over a network that loses messages\<close>

text \<open>What happens to one attempt of a call before the one that is answered.\<close>

datatype attempt = LostRequest | LostReply

fun lossy_call :: "attempt list \<Rightarrow> KVServer \<Rightarrow> ClerkPc \<Rightarrow> (KVServer \<times> ClerkRes) option" where
  "lossy_call [] kv pc = do { (kv', pc') \<leftarrow> serve kv pc; r \<leftarrow> call_returned pc'; Some (kv', r) }"
| "lossy_call (LostRequest # as) kv pc = do { pc' \<leftarrow> call_failed pc; lossy_call as kv pc' }"
| "lossy_call (LostReply # as) kv pc = do {
     (kv', pc') \<leftarrow> serve kv pc; pc'' \<leftarrow> call_failed pc'; lossy_call as kv' pc'' }"

text \<open>The clerk of \<open>client.go\<close> as an \<open>IKVClerk\<close>: \<open>script n\<close> is what the network does to the \<open>n\<close>th call.\<close>

definition lossy_put :: "(nat \<Rightarrow> attempt list) \<Rightarrow> string \<Rightarrow> string \<Rightarrow> Tversion \<Rightarrow> KVServer \<times> nat \<Rightarrow> Err \<times> KVServer \<times> nat" where
  "lossy_put script key val vn = (\<lambda>(kv, n).
     case lossy_call (script n) kv (Clerk_Put key val vn) of
       Some (kv', PutRes err) \<Rightarrow> (err, kv', Suc n)
     | _ \<Rightarrow> (ErrZero, kv, n))"

definition lossy_get :: "(nat \<Rightarrow> attempt list) \<Rightarrow> string \<Rightarrow> KVServer \<times> nat \<Rightarrow> (string \<times> Tversion \<times> Err) \<times> KVServer \<times> nat" where
  "lossy_get script key = (\<lambda>(kv, n).
     case lossy_call (script n) kv (Clerk_Get key) of
       Some (kv', GetRes val vn err) \<Rightarrow> ((val, vn, err), kv', Suc n)
     | _ \<Rightarrow> (('''', 0, ErrZero), kv, n))"

definition lossy_clerk :: "(nat \<Rightarrow> attempt list) \<Rightarrow> (KVServer \<times> nat) IKVClerk" where
  "lossy_clerk script = \<lparr>ck_Get = lossy_get script, ck_Put = lossy_put script\<rparr>"

text \<open>A put with a stale version of a key that exists changes nothing.\<close>

lemma lossy_put_stale:
  assumes "store kv (pa_Key a) = Some e" "e_version e \<noteq> pa_Version a"
  shows "lossy_call as kv (InPut a retried Sent) =
    Some (kv, PutRes (if as \<noteq> [] \<or> retried then ErrMaybe else ErrVersion))"
proof -
  have p: "KVServer_Put kv a zero_PutReply = (kv, zero_PutReply\<lparr>pr_Err := ErrVersion\<rparr>)"
    using assms by (auto simp: KVServer_Put_def)
  show ?thesis
  proof (induction as arbitrary: retried)
    case (Cons x as)
    then show ?case by (cases x) (simp_all add: p)
  qed (simp add: p)
qed

text \<open>A put with the current version takes effect once; it is answered \<open>OK\<close> unless a reply was lost.\<close>

lemma lossy_put_current:
  assumes "pa_Version a = ver kv (pa_Key a)" "pa_Version a + 1 \<noteq> pa_Version a"
  defines "kv' \<equiv> kv\<lparr>store := (store kv)(pa_Key a \<mapsto> \<lparr>e_value = pa_Value a, e_version = pa_Version a + 1\<rparr>)\<rparr>"
  shows "lossy_call as kv (InPut a retried Sent) = Some (kv', PutRes (if LostReply \<in> set as then ErrMaybe else OK))"
proof -
  have p: "KVServer_Put kv a zero_PutReply = (kv', zero_PutReply\<lparr>pr_Err := OK\<rparr>)"
    using assms(1) by (auto simp: KVServer_Put_def ver_def kv'_def split: option.splits)
  have stale: "lossy_call as kv' (InPut a True Sent) = Some (kv', PutRes ErrMaybe)" for as
    using lossy_put_stale [of kv' a _ as True] assms(2) by (simp add: kv'_def)
  show ?thesis
  proof (induction as arbitrary: retried)
    case (Cons x as)
    then show ?case by (cases x) (simp_all add: p stale)
  qed (simp add: p)
qed

subsection \<open>PutAtLeastOnce\<close>

lemma Test_Put_lossy:
  assumes "kt_sys ts = (kv, n)" "lossy_call (script n) kv (Clerk_Put key val vn) = Some (kv', PutRes err)"
  shows "\<exists>ts'. Test_Put (lossy_clerk script) key val vn me ts = (err, ts') \<and> kt_sys ts' = (kv', Suc n)"
  using assms by (simp add: Test_Put_def since_def Let_def log_op_def lossy_clerk_def lossy_put_def)

lemma put_at_least_once_run:
  assumes "kt_sys ts = (kv, n)" "n + d = m" "LostReply \<notin> set (script m)"
    "unat vn \<le> unat (ver kv key)" "unat (ver kv key) \<le> unat vn + d" "unat (ver kv key) + d + 1 < 2 ^ 64"
  shows "\<exists>r ts' kv' n'. PutAtLeastOnce (Suc d) (lossy_clerk script) key val vn me ts = Inr (r, ts') \<and> kt_sys ts' = (kv', n') \<and>
    store kv' key = Some \<lparr>e_value = val, e_version = r\<rparr> \<and> unat (ver kv key) < unat r"
  using assms
proof (induction d arbitrary: ts kv n vn)
  case (0 ts kv n vn)
  then have v: "vn = ver kv key" by (simp add: word_unat_eq_iff)
  have suc: "unat (vn + 1) = Suc (unat vn)" using 0 by (intro unat_Suc_word) simp
  then have ne: "vn + 1 \<noteq> vn" by auto
  define a where "a = \<lparr>pa_Key = key, pa_Value = val, pa_Version = vn\<rparr>"
  have "lossy_call (script n) kv (Clerk_Put key val vn) =
      Some (kv\<lparr>store := (store kv)(key \<mapsto> \<lparr>e_value = val, e_version = vn + 1\<rparr>)\<rparr>, PutRes OK)"
    using lossy_put_current [of a kv "script n" False] v ne 0 by (simp add: a_def Clerk_Put_def)
  from Test_Put_lossy [where script = script and me = me, OF 0(1) this] obtain ts' where
    "Test_Put (lossy_clerk script) key val vn me ts = (OK, ts')"
    "kt_sys ts' = (kv\<lparr>store := (store kv)(key \<mapsto> \<lparr>e_value = val, e_version = vn + 1\<rparr>)\<rparr>, Suc n)" by blast
  then show ?case using suc v by simp
next
  case (Suc d ts kv n vn)
  define a where "a = \<lparr>pa_Key = key, pa_Value = val, pa_Version = vn\<rparr>"
  have suc: "unat (vn + 1) = Suc (unat vn)" using Suc.prems by (intro unat_Suc_word) simp
  then have ne: "vn + 1 \<noteq> vn" by auto
  show ?case
  proof (cases "vn = ver kv key")
    case True
    define kv' where "kv' = kv\<lparr>store := (store kv)(key \<mapsto> \<lparr>e_value = val, e_version = vn + 1\<rparr>)\<rparr>"
    define err where "err = (if LostReply \<in> set (script n) then ErrMaybe else OK)"
    have "lossy_call (script n) kv (Clerk_Put key val vn) = Some (kv', PutRes err)"
      using lossy_put_current [of a kv "script n" False] True ne by (simp add: a_def Clerk_Put_def kv'_def err_def)
    from Test_Put_lossy [where script = script and me = me, OF Suc.prems(1) this] obtain ts' where
      ts': "Test_Put (lossy_clerk script) key val vn me ts = (err, ts')" "kt_sys ts' = (kv', Suc n)" by blast
    show ?thesis
    proof (cases "err = OK")
      case True
      then show ?thesis using ts' suc \<open>vn = ver kv key\<close> by (simp add: kv'_def)
    next
      case False
      then have maybe: "err = ErrMaybe" by (simp add: err_def split: if_splits)
      have v': "ver kv' key = vn + 1" by (simp add: ver_def kv'_def)
      from Suc.IH [OF ts'(2), of "vn + 1"] Suc.prems v' suc \<open>vn = ver kv key\<close> obtain r ts'' kv'' n' where
        "PutAtLeastOnce (Suc d) (lossy_clerk script) key val (vn + 1) me ts' = Inr (r, ts'')" "kt_sys ts'' = (kv'', n')"
        "store kv'' key = Some \<lparr>e_value = val, e_version = r\<rparr>" "unat (ver kv' key) < unat r" by auto
      then show ?thesis using ts'(1) maybe v' suc \<open>vn = ver kv key\<close> by (subst PutAtLeastOnce.simps) auto
    qed
  next
    case False
    then have lt: "unat vn < unat (ver kv key)" using Suc.prems(4) by (simp add: word_unat_eq_iff)
    then obtain e where e: "store kv key = Some e" "e_version e = ver kv key"
      by (cases "store kv key") (auto simp: ver_def)
    define err where "err = (if script n \<noteq> [] then ErrMaybe else ErrVersion)"
    have "lossy_call (script n) kv (Clerk_Put key val vn) = Some (kv, PutRes err)"
      using lossy_put_stale [of kv a e "script n" False] e False by (simp add: a_def Clerk_Put_def err_def)
    from Test_Put_lossy [where script = script and me = me, OF Suc.prems(1) this] obtain ts' where
      ts': "Test_Put (lossy_clerk script) key val vn me ts = (err, ts')" "kt_sys ts' = (kv, Suc n)" by blast
    from Suc.IH [OF ts'(2), of "vn + 1"] Suc.prems lt suc obtain r ts'' kv'' n' where
      "PutAtLeastOnce (Suc d) (lossy_clerk script) key val (vn + 1) me ts' = Inr (r, ts'')" "kt_sys ts'' = (kv'', n')"
      "store kv'' key = Some \<lparr>e_value = val, e_version = r\<rparr>" "unat (ver kv key) < unat r" by auto
    then show ?thesis using ts'(1) by (subst PutAtLeastOnce.simps) (auto simp: err_def)
  qed
qed

text \<open>
  \<^bold>\<open>C25\<close>: \<open>PutAtLeastOnce\<close> returns: run against the clerk and the server over a network that loses requests
  and replies, from a version no later than the server's, it ends once the network leaves the reply of
  one late enough call alone. It never calls \<open>Fatalf\<close>, and when it returns the server holds the value
  under the version returned, which is newer than the version before.
\<close>

theorem put_at_least_once_returns:
  assumes "kt_sys ts = (kv, n)" "unat v \<le> unat (ver kv key)"
    and "n + unat (ver kv key) \<le> m + unat v" "LostReply \<notin> set (script m)" "unat (ver kv key) + m + 1 < 2 ^ 64" "n \<le> m"
  shows "\<exists>fuel r ts' kv' n'. PutAtLeastOnce fuel (lossy_clerk script) key val v me ts = Inr (r, ts') \<and> kt_sys ts' = (kv', n') \<and>
    store kv' key = Some \<lparr>e_value = val, e_version = r\<rparr> \<and> unat (ver kv key) < unat r"
proof -
  have "n + (m - n) = m" "unat (ver kv key) \<le> unat v + (m - n)" "unat (ver kv key) + (m - n) + 1 < 2 ^ 64"
    using assms by auto
  from put_at_least_once_run [where script = script, OF assms(1) this(1) assms(4,2) this(2,3)] show ?thesis by blast
qed

definition sample_server :: KVServer where
  "sample_server = \<lparr>store = [''k'' \<mapsto> \<lparr>e_value = ''a'', e_version = 3\<rparr>]\<rparr>"

theorem put_at_least_once_returns_witness:
  "\<exists>fuel r ts' kv' n'. PutAtLeastOnce fuel (lossy_clerk (\<lambda>n. if n = 1 then [LostRequest, LostReply] else [LostRequest])) ''k'' ''b'' 2 0
      (MakeTest (sample_server, 0) False) = Inr (r, ts') \<and> kt_sys ts' = (kv', n') \<and>
    store kv' ''k'' = Some \<lparr>e_value = ''b'', e_version = r\<rparr> \<and> 3 < unat r"
proof -
  have v: "ver sample_server ''k'' = 3" by (simp add: ver_def sample_server_def)
  show ?thesis
    using put_at_least_once_returns [where ts = "MakeTest (sample_server, 0) False" and kv = sample_server and n = 0 and
        v = 2 and key = "''k''" and m = 2 and script = "\<lambda>n. if n = 1 then [LostRequest, LostReply] else [LostRequest]" and
        val = "''b''" and me = 0]
    by (simp add: v MakeTest_def)
qed

subsection \<open>Spreading puts\<close>

lemma MakeKeys_distinct: "distinct (MakeKeys n)"
  by (simp add: MakeKeys_def distinct_map inj_on_def)

lemma length_MakeKeys [simp]: "length (MakeKeys n) = n"
  by (simp add: MakeKeys_def)

abbreviation reliable_clerk :: "(KVServer \<times> nat) IKVClerk" where
  "reliable_clerk \<equiv> lossy_clerk (\<lambda>_. [])"

lemma spread_puts_store:
  assumes "distinct (map fst kvs)" "\<forall>(k, v) \<in> set kvs. store kv k = None" "kt_sys ts = (kv, n)"
  shows "\<exists>kv' n'. kt_sys (spread_puts reliable_clerk kvs ts) = (kv', n') \<and>
    store kv' = store kv ++ map_of (rev (map (\<lambda>(k, v). (k, \<lparr>e_value = v, e_version = 1\<rparr>)) kvs))"
  using assms
proof (induction kvs arbitrary: ts kv n)
  case (Cons kv1 kvs)
  obtain k v where kv1: "kv1 = (k, v)" by force
  define kv' where "kv' = kv\<lparr>store := (store kv)(k \<mapsto> \<lparr>e_value = v, e_version = 1\<rparr>)\<rparr>"
  define ts' where "ts' = ts\<lparr>kt_sys := (kv', Suc n)\<rparr>"
  have step: "spread_puts reliable_clerk (kv1 # kvs) ts = spread_puts reliable_clerk kvs ts'"
    using Cons.prems(2,3)
    by (simp add: kv1 ts'_def kv'_def lossy_clerk_def lossy_put_def Clerk_Put_def KVServer_Put_def zero_PutReply_def)
  have "\<exists>kv2 n'. kt_sys (spread_puts reliable_clerk kvs ts') = (kv2, n') \<and>
      store kv2 = store kv' ++ map_of (rev (map (\<lambda>(k, v). (k, \<lparr>e_value = v, e_version = 1\<rparr>)) kvs))"
  proof (rule Cons.IH)
    show "distinct (map fst kvs)" using Cons.prems(1) by simp
    show "\<forall>(k, v) \<in> set kvs. store kv' k = None"
      using Cons.prems(1,2) by (force simp: kv'_def kv1)
    show "kt_sys ts' = (kv', Suc n)" by (simp add: ts'_def)
  qed
  then show ?case unfolding step by (auto simp: kv'_def kv1)
qed simp

lemma CheckGet_reliable:
  assumes "kt_sys ts = (kv, n)" "store kv k = Some \<lparr>e_value = v, e_version = vn\<rparr>"
  shows "\<exists>ts' n'. CheckGet reliable_clerk k v vn ts = Some ts' \<and> kt_sys ts' = (kv, n')"
  using assms by (simp add: CheckGet_def Test_Get_def since_def OpInc_def log_op_def lossy_clerk_def lossy_get_def
      Clerk_Get_def KVServer_Get_def)

lemma spread_checks_pass:
  assumes "kt_sys ts = (kv, n)" "\<forall>(k, v) \<in> set kvs. store kv k = Some \<lparr>e_value = v, e_version = 1\<rparr>"
  shows "\<exists>ts'. spread_checks reliable_clerk kvs ts = Some ts'"
  using assms
proof (induction kvs arbitrary: ts n)
  case (Cons kv1 kvs)
  obtain k v where kv1: "kv1 = (k, v)" by force
  from Cons.prems CheckGet_reliable [OF Cons.prems(1), of k v 1] obtain ts' n' where
    "CheckGet reliable_clerk k v 1 ts = Some ts'" "kt_sys ts' = (kv, n')" by (auto simp: kv1)
  with Cons.IH [of ts' n'] Cons.prems(2) show ?case by (auto simp: kv1)
qed simp

text \<open>
  \<open>SpreadPuts\<close> on a service that holds none of its keys passes its own checks: the keys are
  pairwise different, every value is stored under version 1 and read back.
\<close>

theorem spread_puts_passes:
  assumes "kt_sys ts = (kv, c)" "\<forall>k \<in> set (MakeKeys n). store kv k = None" "length va = n"
  shows "\<exists>ts'. SpreadPutsSize reliable_clerk n va ts = Some (MakeKeys n, va, ts')"
proof -
  define kvs where "kvs = zip (MakeKeys n) va"
  have fst: "map fst kvs = MakeKeys n" using assms(3) by (simp add: kvs_def)
  have d: "distinct (map fst kvs)" unfolding fst by (rule MakeKeys_distinct)
  have none: "\<forall>(k, v) \<in> set kvs. store kv k = None"
    using assms(2) by (auto simp: kvs_def dest: set_zip_leftD)
  from spread_puts_store [OF d none assms(1)] obtain kv' c' where
    p: "kt_sys (spread_puts reliable_clerk kvs ts) = (kv', c')"
    "store kv' = store kv ++ map_of (rev (map (\<lambda>(k, v). (k, \<lparr>e_value = v, e_version = 1\<rparr>)) kvs))" by blast
  have "store kv' k = Some \<lparr>e_value = v, e_version = 1\<rparr>" if "(k, v) \<in> set kvs" for k v
  proof -
    have "distinct (map fst (rev (map (\<lambda>(k, v). (k, \<lparr>e_value = v, e_version = 1\<rparr> :: kvEntry)) kvs)))"
      using d by (simp add: rev_map [symmetric] comp_def split_beta)
    moreover have "(k, \<lparr>e_value = v, e_version = 1\<rparr>) \<in> set (rev (map (\<lambda>(k, v). (k, \<lparr>e_value = v, e_version = 1\<rparr>)) kvs))"
      using that by force
    ultimately have "map_of (rev (map (\<lambda>(k, v). (k, \<lparr>e_value = v, e_version = 1\<rparr>)) kvs)) k = Some \<lparr>e_value = v, e_version = 1\<rparr>"
      by (rule map_of_is_SomeI)
    then show ?thesis by (simp add: p(2) map_add_def)
  qed
  then have "\<forall>(k, v) \<in> set kvs. store kv' k = Some \<lparr>e_value = v, e_version = 1\<rparr>" by auto
  from spread_checks_pass [OF p(1) this] show ?thesis by (auto simp: SpreadPutsSize_def kvs_def)
qed

theorem spread_puts_passes_witness:
  "\<exists>ts'. SpreadPutsSize reliable_clerk 3 [''x'', ''y'', ''z''] (MakeTest (MakeKVServer, 0) False) = Some (MakeKeys 3, [''x'', ''y'', ''z''], ts')"
  by (rule spread_puts_passes [where kv = MakeKVServer]) (simp_all add: MakeTest_def MakeKVServer_def)

end
