(* ===== verification/Demux.thy ===== *)
theory Demux
  imports Labrpc
begin

text \<open>
  Remote calls over one connection, \<open>src/tester1/demux\<close>: the framing of messages (\<open>transport.go\<close>), the map of
  outstanding calls (\<open>callmap.go\<close>), and the two ends that match replies with calls by their tags
  (\<open>dmxclnt.go\<close>, \<open>dmxsrv.go\<close>).

  A connection is a stream of bytes in each direction; it may break at any time. \<open>enc\<close> and \<open>dec\<close> are
  \<open>labgob\<close>'s encoding of the messages. \<open>log.Fatalf\<close> is \<^term>\<open>None\<close>.
\<close>

unbundle bit_operations_syntax

type_synonym Ttag = "32 word"

subsection \<open>Transport\<close>

record dmsg =
  dm_Tag :: Ttag
  dm_Data :: bytes
  dm_Ok :: bool

datatype ioerr = EOF | ErrUnexpectedEOF | ErrConn

text \<open>\<open>binary.LittleEndian\<close> on a \<open>uint32\<close>.\<close>

definition put32 :: "32 word \<Rightarrow> bytes" where
  "put32 w = map (\<lambda>i. ucast (drop_bit (8 * i) w)) [0, 1, 2, 3]"

definition get32 :: "bytes \<Rightarrow> 32 word" where
  "get32 b = ucast (b ! 0) OR push_bit 8 (ucast (b ! 1)) OR push_bit 16 (ucast (b ! 2)) OR push_bit 24 (ucast (b ! 3))"

text \<open>
  \<open>io.ReadFull\<close>, also within \<open>binary.Read\<close>: \<open>n\<close> bytes of what the connection still delivers before it ends.
\<close>

definition ReadFull :: "nat \<Rightarrow> bytes \<Rightarrow> ioerr + bytes \<times> bytes" where
  "ReadFull n stream =
     (if n = 0 then Inr ([], stream)
      else if stream = [] then Inl EOF
      else if length stream < n then Inl ErrUnexpectedEOF
      else Inr (take n stream, drop n stream))"

definition ReadCall :: "(bytes \<Rightarrow> dmsg option) \<Rightarrow> bytes \<Rightarrow> (ioerr + (Ttag \<times> bytes \<times> bool) \<times> bytes) option" where
  "ReadCall dec stream =
     (case ReadFull 4 stream of
        Inl err \<Rightarrow> Some (Inl err)
      | Inr (header, stream) \<Rightarrow>
          let nbyte = get32 header
          in case ReadFull (unat nbyte) stream of
               Inl err \<Rightarrow> Some (Inl err)
             | Inr (b, stream) \<Rightarrow> do {
                 m \<leftarrow> Unmarshall dec b;
                 Some (Inr ((dm_Tag m, dm_Data m, dm_Ok m), stream))
               })"

text \<open>
  \<open>WriteCall\<close> appends a frame to the stream; when the connection breaks, only \<open>k\<close> bytes of it get
  through (\<open>fate\<close> is \<^term>\<open>Some k\<close>) and an error is returned.
\<close>

definition WriteCall ::
  "(dmsg \<Rightarrow> bytes option) \<Rightarrow> nat option \<Rightarrow> bytes \<Rightarrow> Ttag \<Rightarrow> bytes \<Rightarrow> bool \<Rightarrow> (bytes \<times> ioerr option) option" where
  "WriteCall enc fate stream tag d ok = do {
     let m = \<lparr>dm_Tag = tag, dm_Data = d, dm_Ok = ok\<rparr>;
     b \<leftarrow> Marshall enc m;
     let frame = put32 (of_nat (length b)) @ b;
     Some (case fate of None \<Rightarrow> (stream @ frame, None) | Some k \<Rightarrow> (stream @ take k frame, Some ErrConn))
   }"

text \<open>A reader calls \<open>ReadCall\<close> until it fails.\<close>

lemma ReadCall_shorter: "ReadCall dec stream = Some (Inr (m, rest)) \<Longrightarrow> length rest < length stream"
  by (auto simp: ReadCall_def ReadFull_def Let_def bind_eq_Some_conv split: if_splits sum.splits)

function read_all :: "(bytes \<Rightarrow> dmsg option) \<Rightarrow> bytes \<Rightarrow> ((Ttag \<times> bytes \<times> bool) list \<times> ioerr) option" where
  "read_all dec stream =
     (case ReadCall dec stream of
        None \<Rightarrow> None
      | Some (Inl err) \<Rightarrow> Some ([], err)
      | Some (Inr (m, stream')) \<Rightarrow> map_option (\<lambda>(ms, err). (m # ms, err)) (read_all dec stream'))"
  by pat_completeness auto
termination by (relation "measure (\<lambda>(dec, stream). length stream)") (auto dest: ReadCall_shorter)

declare read_all.simps [simp del]

text \<open>The messages of a writer, one after the other.\<close>

fun write_all :: "(dmsg \<Rightarrow> bytes option) \<Rightarrow> bytes \<Rightarrow> (Ttag \<times> bytes \<times> bool) list \<Rightarrow> bytes option" where
  "write_all enc stream [] = Some stream"
| "write_all enc stream ((t, d, ok) # ms) = do {
     (stream, err) \<leftarrow> WriteCall enc None stream t d ok;
     write_all enc stream ms
   }"

subsection \<open>Framing\<close>

lemma length_put32 [simp]: "length (put32 w) = 4"
  by (simp add: put32_def)

lemma put32_not_Nil [simp]: "put32 w \<noteq> []"
  by (simp add: put32_def)

lemma get32_put32: "get32 (put32 w @ b) = w"
proof (rule bit_word_eqI)
  fix n assume "n < LENGTH(32)"
  then have "n < 8 \<or> 8 \<le> n \<and> n < 16 \<or> 16 \<le> n \<and> n < 24 \<or> 24 \<le> n \<and> n < 32" by auto
  then show "bit (get32 (put32 w @ b)) n = bit w n"
    by (auto simp: get32_def put32_def bit_or_iff bit_push_bit_iff bit_ucast_iff bit_drop_bit_eq)
qed


text \<open>A message whose encoding \<open>labgob\<close> can read back, below 4 GB.\<close>

definition codec_ok :: "(dmsg \<Rightarrow> bytes option) \<Rightarrow> (bytes \<Rightarrow> dmsg option) \<Rightarrow> dmsg \<Rightarrow> bool" where
  "codec_ok enc dec m \<longleftrightarrow> (\<exists>b. enc m = Some b \<and> dec b = Some m \<and> length b < 2 ^ 32)"

definition dmsg_of :: "Ttag \<times> bytes \<times> bool \<Rightarrow> dmsg" where
  "dmsg_of x = (case x of (t, d, ok) \<Rightarrow> \<lparr>dm_Tag = t, dm_Data = d, dm_Ok = ok\<rparr>)"

definition frame_of :: "(dmsg \<Rightarrow> bytes option) \<Rightarrow> Ttag \<times> bytes \<times> bool \<Rightarrow> bytes" where
  "frame_of enc x = (case enc (dmsg_of x) of None \<Rightarrow> [] | Some b \<Rightarrow> put32 (of_nat (length b)) @ b)"

lemma ReadCall_frame:
  assumes "codec_ok enc dec (dmsg_of x)"
  shows "ReadCall dec (frame_of enc x @ rest) = Some (Inr (x, rest))"
proof -
  obtain b where b: "enc (dmsg_of x) = Some b" "dec b = Some (dmsg_of x)" "length b < 2 ^ 32"
    using assms by (auto simp: codec_ok_def)
  have n: "unat (of_nat (length b) :: 32 word) = length b"
    using b(3) by (simp add: unat_of_nat take_bit_nat_eq_self)
  have f: "frame_of enc x @ rest = put32 (of_nat (length b)) @ (b @ rest)" by (simp add: frame_of_def b(1))
  have h: "ReadFull 4 (frame_of enc x @ rest) = Inr (put32 (of_nat (length b)), b @ rest)"
    unfolding f by (simp add: ReadFull_def flip: length_0_conv)
  have "ReadFull (length b) (b @ rest) = Inr (b, rest)" by (auto simp: ReadFull_def)
  then show ?thesis
    using b(2) get32_put32 [of "of_nat (length b)" "[]"]
    by (simp add: ReadCall_def h Let_def n Unmarshall_def) (cases x; simp add: dmsg_of_def)
qed

text \<open>A frame that has not arrived in full is never taken for a message.\<close>

lemma ReadCall_cut:
  assumes "codec_ok enc dec (dmsg_of x)" "k < length (frame_of enc x)"
  shows "\<exists>err. ReadCall dec (take k (frame_of enc x)) = Some (Inl err)"
proof -
  obtain b where b: "enc (dmsg_of x) = Some b" "length b < 2 ^ 32" using assms by (auto simp: codec_ok_def)
  have n: "unat (of_nat (length b) :: 32 word) = length b"
    using b(2) by (simp add: unat_of_nat take_bit_nat_eq_self)
  have f: "frame_of enc x = put32 (of_nat (length b)) @ b" by (simp add: frame_of_def b(1))
  show ?thesis
  proof (cases "k < 4")
    case True
    then have "ReadFull 4 (take k (frame_of enc x)) = Inl (if k = 0 then EOF else ErrUnexpectedEOF)"
      by (auto simp: ReadFull_def f)
    then show ?thesis by (simp add: ReadCall_def)
  next
    case False
    then have t: "take k (frame_of enc x) = put32 (of_nat (length b)) @ take (k - 4) b" by (simp add: f)
    have h: "ReadFull 4 (take k (frame_of enc x)) = Inr (put32 (of_nat (length b)), take (k - 4) b)"
      unfolding t by (simp add: ReadFull_def flip: length_0_conv)
    have "k - 4 < length b" using assms(2) False by (simp add: f)
    then have "\<exists>err. ReadFull (length b) (take (k - 4) b) = Inl err" by (auto simp: ReadFull_def)
    then show ?thesis
      using get32_put32 [of "of_nat (length b)" "[]"] by (auto simp: ReadCall_def h Let_def n)
  qed
qed

lemma write_all_frames:
  "\<forall>x \<in> set ms. codec_ok enc dec (dmsg_of x) \<Longrightarrow> write_all enc stream ms = Some (stream @ concat (map (frame_of enc) ms))"
proof (induction enc stream ms rule: write_all.induct)
  case (2 enc stream t d ok ms)
  then obtain b where b: "enc (dmsg_of (t, d, ok)) = Some b" by (auto simp: codec_ok_def)
  have f: "frame_of enc (t, d, ok) = put32 (of_nat (length b)) @ b" by (simp add: frame_of_def b)
  have "WriteCall enc None stream t d ok = Some (stream @ frame_of enc (t, d, ok), None)"
    unfolding f using b by (simp add: WriteCall_def Marshall_def dmsg_of_def Let_def)
  with 2 show ?case by simp
qed simp

abbreviation frames_of :: "(dmsg \<Rightarrow> bytes option) \<Rightarrow> (Ttag \<times> bytes \<times> bool) list \<Rightarrow> bytes" where
  "frames_of enc ms \<equiv> concat (map (frame_of enc) ms)"

lemma write_all_take:
  assumes "\<forall>x \<in> set ms. codec_ok enc dec (dmsg_of x)"
  shows "write_all enc [] (take j ms) = Some (frames_of enc (take j ms))"
  using write_all_frames [of "take j ms" enc dec "[]"] assms by (auto dest: in_set_takeD)

lemma read_frames:
  assumes "\<forall>x \<in> set ms. codec_ok enc dec (dmsg_of x)"
  shows "\<exists>i err. i \<le> length ms \<and> read_all dec (take k (frames_of enc ms)) = Some (take i ms, err) \<and>
    length (frames_of enc (take i ms)) \<le> k \<and> (i < length ms \<longrightarrow> k < length (frames_of enc (take (Suc i) ms))) \<and>
    (i = length ms \<or> k = length (frames_of enc (take i ms)) \<longrightarrow> err = EOF)"
  using assms
proof (induction ms arbitrary: k)
  case Nil
  have "ReadCall dec [] = Some (Inl EOF)" by (simp add: ReadCall_def ReadFull_def)
  then show ?case by (simp add: read_all.simps)
next
  case (Cons x ms)
  let ?f = "frame_of enc x" and ?rest = "frames_of enc ms"
  have ok: "codec_ok enc dec (dmsg_of x)" using Cons.prems by simp
  show ?case
  proof (cases "k < length ?f")
    case True
    then obtain err where e: "ReadCall dec (take k ?f) = Some (Inl err)" using ReadCall_cut [OF ok] by blast
    then have "read_all dec (take k ?f) = Some ([], err)" by (simp add: read_all.simps)
    moreover have "k = 0 \<longrightarrow> err = EOF" using e by (auto simp: ReadCall_def ReadFull_def)
    ultimately show ?thesis using True by (intro exI [of _ 0] exI [of _ err]) simp
  next
    case False
    obtain i err where i: "i \<le> length ms" "read_all dec (take (k - length ?f) ?rest) = Some (take i ms, err)"
      "length (frames_of enc (take i ms)) \<le> k - length ?f"
      "i < length ms \<longrightarrow> k - length ?f < length (frames_of enc (take (Suc i) ms))"
      "i = length ms \<or> k - length ?f = length (frames_of enc (take i ms)) \<longrightarrow> err = EOF"
      using Cons.IH [of "k - length ?f"] Cons.prems by auto
    have "take k (frames_of enc (x # ms)) = ?f @ take (k - length ?f) ?rest" using False by simp
    then have "read_all dec (take k (frames_of enc (x # ms))) = Some (x # take i ms, err)"
      using i(2) by (subst read_all.simps) (simp add: ReadCall_frame [OF ok])
    with i False show ?thesis by (intro exI [of _ "Suc i"] exI [of _ err]) auto
  qed
qed

text \<open>
  \<^bold>\<open>C32\<close>: The transport is a queue of messages: what \<open>WriteCall\<close> has written, \<open>ReadCall\<close> reads back message by
  message and then reports the end of the stream. When the connection breaks after any number of bytes, the reader gets
  exactly the messages that have arrived in full, in order, and then an error, never a part of a message or a wrong one:
  as many messages as fit into these bytes, and one more would not. Without a part of a message at the end the
  error is the end of the stream.
\<close>

theorem transport_roundtrip:
  assumes "\<forall>x \<in> set ms. codec_ok enc dec (dmsg_of x)" "write_all enc [] ms = Some stream"
  shows "read_all dec stream = Some (ms, EOF) \<and>
    (\<exists>i err arrived. i \<le> length ms \<and> read_all dec (take k stream) = Some (take i ms, err) \<and>
       write_all enc [] (take i ms) = Some arrived \<and> length arrived \<le> k \<and>
       (i < length ms \<longrightarrow> (\<exists>more. write_all enc [] (take (Suc i) ms) = Some more \<and> k < length more)) \<and>
       (i = length ms \<or> k = length arrived \<longrightarrow> err = EOF))"
proof -
  note w = write_all_take [OF assms(1)]
  have s: "stream = frames_of enc ms" using w [of "length ms"] assms(2) by simp
  obtain i err where "i \<le> length ms" "read_all dec stream = Some (take i ms, err)"
      "i < length ms \<longrightarrow> length stream < length (frames_of enc (take (Suc i) ms))" "i = length ms \<longrightarrow> err = EOF"
    using read_frames [OF assms(1), of "length stream"] unfolding s by auto
  moreover have "length (frames_of enc (take (Suc i) ms)) \<le> length stream" for i
    unfolding s by (metis append_take_drop_id concat_append le_add1 length_append map_append)
  ultimately have "read_all dec stream = Some (ms, EOF)" by (metis le_neq_implies_less linorder_not_le take_all order_refl)
  then show ?thesis using read_frames [OF assms(1), of k] w unfolding s by auto
qed

text \<open>A codec for short messages, as an instance.\<close>

definition tiny_enc :: "dmsg \<Rightarrow> bytes option" where
  "tiny_enc m = Some (put32 (dm_Tag m) @ (if dm_Ok m then 1 else 0) # dm_Data m)"

definition tiny_dec :: "bytes \<Rightarrow> dmsg option" where
  "tiny_dec b = (if length b < 5 then None else Some \<lparr>dm_Tag = get32 b, dm_Data = drop 5 b, dm_Ok = (b ! 4 = 1)\<rparr>)"

lemma tiny_codec: "length (dm_Data m) < 1000 \<Longrightarrow> codec_ok tiny_enc tiny_dec m"
  by (simp add: codec_ok_def tiny_enc_def tiny_dec_def get32_put32 nth_append)

theorem transport_roundtrip_witness:
  "\<exists>stream err. write_all tiny_enc [] [(1, [7, 8], True), (2, [], False)] = Some stream \<and>
     read_all tiny_dec stream = Some ([(1, [7, 8], True), (2, [], False)], EOF) \<and>
     length stream = 20 \<and> read_all tiny_dec (take 15 stream) = Some ([(1, [7, 8], True)], err)"
proof -
  let ?ms = "[(1, [7, 8], True), (2, [], False)]"
  have ok: "\<forall>x \<in> set ?ms. codec_ok tiny_enc tiny_dec (dmsg_of x)"
    using tiny_codec by (simp add: dmsg_of_def)
  have f: "length (frame_of tiny_enc (1, [7, 8], True)) = 11" "length (frame_of tiny_enc (2, [], False)) = 9"
    by (simp_all add: frame_of_def tiny_enc_def dmsg_of_def)
  note w = write_all_take [OF ok]
  have s: "write_all tiny_enc [] ?ms = Some (frames_of tiny_enc ?ms)" using w [of 2] by simp
  obtain i err where i: "read_all tiny_dec (take 15 (frames_of tiny_enc ?ms)) = Some (take i ?ms, err)"
      "length (frames_of tiny_enc (take i ?ms)) \<le> 15" "i < 2 \<longrightarrow> 15 < length (frames_of tiny_enc (take (Suc i) ?ms))" "i \<le> 2"
    using transport_roundtrip [OF ok s, of 15] unfolding w by (auto simp: f)
  have "i = 1" using i(2-4) f by (cases i) (auto simp: less_Suc_eq numeral_2_eq_2 le_Suc_eq)
  then show ?thesis using transport_roundtrip [OF ok s] s i(1) f by auto
qed

end
