(* ===== verification/DemuxConn.thy ===== *)
theory DemuxConn
  imports Demux
begin

text \<open>
  The two ends of a connection, \<open>src/tester1/demux/callmap.go\<close>, \<open>dmxclnt.go\<close>, \<open>dmxsrv.go\<close>.

  A \<open>chan reply\<close> is the number of the call that waits on it. The connection carries messages in order, as
  \<open>Demux.transport_roundtrip\<close> shows for the byte streams, and may break: a write may fail, and the client's
  reader may get an error instead of the next message. \<open>ServeRequest\<close> is an argument; it may change the state
  of the server.
\<close>

subsection \<open>Outstanding calls\<close>

datatype dmxerr = ConnClosed | ReaderReplyFail

record reply =
  re_rep :: bytes
  re_ok :: bool
  re_err :: "dmxerr option"

record callMap =
  cm_closed :: bool
  cm_calls :: "Ttag \<rightharpoonup> nat"

definition newCallMap :: callMap where
  "newCallMap = \<lparr>cm_closed = False, cm_calls = Map.empty\<rparr>"

definition cm_close :: "callMap \<Rightarrow> callMap" where
  "cm_close cm = cm\<lparr>cm_closed := True\<rparr>"

definition cm_isClosed :: "callMap \<Rightarrow> bool" where
  "cm_isClosed cm = cm_closed cm"

definition cm_put :: "callMap \<Rightarrow> Ttag \<Rightarrow> nat \<Rightarrow> dmxerr + callMap" where
  "cm_put cm tag ch = (if cm_closed cm then Inl ConnClosed else Inr (cm\<lparr>cm_calls := (cm_calls cm)(tag \<mapsto> ch)\<rparr>))"

definition cm_remove :: "callMap \<Rightarrow> Ttag \<Rightarrow> (nat \<times> callMap) option" where
  "cm_remove cm tag =
     (case cm_calls cm tag of
        Some ch \<Rightarrow> Some (ch, cm\<lparr>cm_calls := (cm_calls cm)(tag := None)\<rparr>)
      | None \<Rightarrow> None)"

text \<open>\<open>outstanding\<close>: the keys, in whatever order the map is ranged over.\<close>

definition cm_outstanding :: "callMap \<Rightarrow> Ttag list \<Rightarrow> bool" where
  "cm_outstanding cm ts \<longleftrightarrow> distinct ts \<and> set ts = dom (cm_calls cm)"

subsection \<open>The client's end\<close>

record DemuxClnt =
  dx_callmap :: callMap
  dx_nextTag :: Ttag
  dx_clntEnd :: string
  dx_srvEnd :: string

definition dx_tag :: "DemuxClnt \<Rightarrow> Ttag \<times> DemuxClnt" where
  "dx_tag dmx = (dx_nextTag dmx, dmx\<lparr>dx_nextTag := dx_nextTag dmx + 1\<rparr>)"

text \<open>
  \<open>NewDemuxClnt\<close> takes the first tag for the message that names the client; \<open>encI\<close> encodes an
  \<open>InitMsg\<close>, \<open>fate\<close> says how the write ends.
\<close>

definition dx_new :: "string \<Rightarrow> string \<Rightarrow> DemuxClnt" where
  "dx_new clnt srv = \<lparr>dx_callmap = newCallMap, dx_nextTag = 0, dx_clntEnd = clnt, dx_srvEnd = srv\<rparr>"

definition NewDemuxClnt ::
  "(string \<Rightarrow> bytes option) \<Rightarrow> (dmsg \<Rightarrow> bytes option) \<Rightarrow> nat option \<Rightarrow> bytes \<Rightarrow> string \<Rightarrow> string \<Rightarrow>
     (bytes \<times> (ioerr + DemuxClnt)) option" where
  "NewDemuxClnt encI enc fate stream clnt srv = do {
     let dmx = dx_new clnt srv;
     b \<leftarrow> Marshall encI clnt;
     let (t, dmx) = dx_tag dmx;
     (stream, err) \<leftarrow> WriteCall enc fate stream t b True;
     Some (stream, case err of Some e \<Rightarrow> Inl e | None \<Rightarrow> Inr dmx)
   }"

text \<open>\<open>reply\<close>: the channel the reply goes to; a reply without a call ends the process.\<close>

definition dx_reply :: "DemuxClnt \<Rightarrow> Ttag \<Rightarrow> bytes \<Rightarrow> bool \<Rightarrow> dmxerr option \<Rightarrow> (DemuxClnt \<times> nat \<times> reply) option" where
  "dx_reply dmx tag b oks err =
     (case cm_remove (dx_callmap dmx) tag of
        Some (ch, cm) \<Rightarrow> Some (dmx\<lparr>dx_callmap := cm\<rparr>, ch, \<lparr>re_rep = b, re_ok = oks, re_err = err\<rparr>)
      | None \<Rightarrow> None)"

text \<open>\<open>SendReceive\<close> up to the write: the tag of the call, or the error it returns at once.\<close>

definition SendReceive :: "DemuxClnt \<Rightarrow> nat \<Rightarrow> DemuxClnt \<times> (dmxerr + Ttag)" where
  "SendReceive dmx ch =
     (let (t, dmx) = dx_tag dmx
      in case cm_put (dx_callmap dmx) t ch of
           Inl err \<Rightarrow> (dmx, Inl err)
         | Inr cm \<Rightarrow> (dmx\<lparr>dx_callmap := cm\<rparr>, Inr t))"

definition dx_Close :: "DemuxClnt \<Rightarrow> DemuxClnt" where
  "dx_Close dmx = (if cm_isClosed (dx_callmap dmx) then dmx else dmx\<lparr>dx_callmap := cm_close (dx_callmap dmx)\<rparr>)"

definition dx_IsClosed :: "DemuxClnt \<Rightarrow> bool" where
  "dx_IsClosed dmx = cm_isClosed (dx_callmap dmx)"

subsection \<open>The server's end\<close>

record DemuxSrv =
  ds_closed :: bool
  ds_srvEnd :: string
  ds_clntEnd :: string

text \<open>\<open>NewDemuxSrv\<close>: the first message names the client.\<close>

definition NewDemuxSrv ::
  "(bytes \<Rightarrow> string option) \<Rightarrow> (bytes \<Rightarrow> dmsg option) \<Rightarrow> string \<Rightarrow> bytes \<Rightarrow> (DemuxSrv \<times> bytes) option" where
  "NewDemuxSrv decI dec srvEnd stream = do {
     r \<leftarrow> ReadCall dec stream;
     case r of
       Inl err \<Rightarrow> None
     | Inr ((_, b, _), stream) \<Rightarrow> do {
         msg \<leftarrow> Unmarshall decI b;
         Some (\<lparr>ds_closed = False, ds_srvEnd = srvEnd, ds_clntEnd = msg\<rparr>, stream)
       }
   }"

definition ds_setClosed :: "DemuxSrv \<Rightarrow> bool \<times> DemuxSrv" where
  "ds_setClosed dmx = (ds_closed dmx, dmx\<lparr>ds_closed := True\<rparr>)"

text \<open>
  One round of the server's reader: it ends, or starts a goroutine for the request.
\<close>

definition ds_reader ::
  "(bytes \<Rightarrow> dmsg option) \<Rightarrow> DemuxSrv \<Rightarrow> bytes \<Rightarrow> (DemuxSrv + (Ttag \<times> bytes) \<times> bytes) option" where
  "ds_reader dec dmx stream = do {
     r \<leftarrow> ReadCall dec stream;
     Some (case r of
       Inl err \<Rightarrow> Inl (if err = EOF then snd (ds_setClosed dmx) else dmx)
     | Inr ((t, req, _), stream) \<Rightarrow> Inr ((t, req), stream))
   }"

text \<open>\<open>Close\<close> closes the transport unless the end is closed already.\<close>

definition ds_Close :: "DemuxSrv \<Rightarrow> DemuxSrv \<times> bool" where
  "ds_Close dmx = (let (c, dmx) = ds_setClosed dmx in if c then (dmx, False) else (dmx, True))"

text \<open>The two ends agree on the name of the client and on where the requests begin.\<close>

lemma handshake:
  assumes "encI clnt = Some b" "decI b = Some clnt" "codec_ok enc dec \<lparr>dm_Tag = 0, dm_Data = b, dm_Ok = True\<rparr>"
  shows "\<exists>stream. NewDemuxClnt encI enc None [] clnt srv = Some (stream, Inr (snd (dx_tag (dx_new clnt srv)))) \<and>
    NewDemuxSrv decI dec srvEnd (stream @ rest) = Some (\<lparr>ds_closed = False, ds_srvEnd = srvEnd, ds_clntEnd = clnt\<rparr>, rest)"
proof -
  let ?x = "(0, b, True)"
  have ok: "codec_ok enc dec (dmsg_of ?x)" using assms(3) by (simp add: dmsg_of_def)
  have w: "write_all enc [] [?x] = Some (frame_of enc ?x)" using write_all_frames [of "[?x]" enc dec "[]"] ok by simp
  then have "WriteCall enc None [] 0 b True = Some (frame_of enc ?x, None)"
    by (auto simp: WriteCall_def Let_def bind_eq_Some_conv split: prod.splits)
  then show ?thesis using assms(1,2) ReadCall_frame [OF ok, of rest]
    by (simp add: NewDemuxClnt_def NewDemuxSrv_def Marshall_def Unmarshall_def dx_tag_def dx_new_def)
qed

subsection \<open>The connection\<close>

text \<open>
  The system of the two ends. \<open>SendReceive\<close> takes its tag and puts its call into the map under two locks; nobody else
  has the tag in between, so this is one action. So is the reader's \<open>close\<close> with the \<open>outstanding\<close> that follows it: the
  closed map takes no call in between. A write that has failed leaves at most a part of a frame behind, and the
  buffered writer refuses every later write.
\<close>

text \<open>Where a call of \<open>SendReceive\<close> is: not made, before the write, at the channel, returned.\<close>

datatype callpc = CNone | CWrite Ttag | CWait Ttag | CDone reply

text \<open>The client's reader: in its loop, failing the outstanding calls, ended.\<close>

datatype readerpc = Reading | Failing "Ttag list" | Ended

record 's dmxconn =
  dc_clnt :: DemuxClnt
  dc_n :: nat  \<comment> \<open>how many calls have been made\<close>
  dc_req :: "nat \<Rightarrow> bytes"  \<comment> \<open>the request of a call\<close>
  dc_tag :: "nat \<Rightarrow> Ttag option"  \<comment> \<open>the tag it has been given\<close>
  dc_pc :: "nat \<Rightarrow> callpc"
  dc_reader :: readerpc
  dc_c2s :: "(Ttag \<times> bytes) list"  \<comment> \<open>on the way to the server\<close>
  dc_jobs :: "(Ttag \<times> bytes) list"  \<comment> \<open>the goroutines of the server's reader\<close>
  dc_s2c :: "(Ttag \<times> bytes \<times> bool) list"  \<comment> \<open>on the way to the client\<close>
  dc_srv :: 's
  dc_log :: "(Ttag \<times> bytes \<times> bytes \<times> bool) list"  \<comment> \<open>what the server has executed\<close>

datatype dmxact =
    Issue nat bytes  \<comment> \<open>\<open>SendReceive\<close> is called\<close>
  | Write nat bool  \<comment> \<open>its \<open>WriteCall\<close>, which succeeds or not\<close>
  | SrvRead  \<comment> \<open>the server's reader starts a goroutine\<close>
  | Serve nat bool  \<comment> \<open>a goroutine serves its request and writes the reply, which succeeds or not\<close>
  | ClntRead  \<comment> \<open>the client's reader hands over a reply\<close>
  | ReadErr "Ttag list"  \<comment> \<open>it gets an error and takes down the outstanding calls\<close>
  | FailNext  \<comment> \<open>it fails the next of them\<close>
  | CloseClnt

text \<open>
  One action. The outer \<^term>\<open>None\<close>: it is not enabled; the inner one: \<open>log.Fatalf\<close>. The reader hands a
  reply over only when the call is at its channel.
\<close>

definition hand_over :: "nat \<Rightarrow> reply \<Rightarrow> DemuxClnt \<Rightarrow> 's dmxconn \<Rightarrow> 's dmxconn option" where
  "hand_over ch r dmx s =
     (case dc_pc s ch of
        CWait t \<Rightarrow> Some (s\<lparr>dc_clnt := dmx, dc_pc := (dc_pc s)(ch := CDone r)\<rparr>)
      | _ \<Rightarrow> None)"

fun dmx_act ::
  "('s \<Rightarrow> string \<Rightarrow> bytes \<Rightarrow> ('s \<times> bytes \<times> bool) option) \<Rightarrow> 's dmxconn \<Rightarrow> dmxact \<Rightarrow> 's dmxconn option option" where
  "dmx_act serve s (Issue c b) =
     (if dc_pc s c = CNone then
        Some (Some (case SendReceive (dc_clnt s) c of
          (dmx, Inl err) \<Rightarrow> s\<lparr>dc_clnt := dmx, dc_n := Suc (dc_n s), dc_req := (dc_req s)(c := b),
              dc_pc := (dc_pc s)(c := CDone \<lparr>re_rep = [], re_ok = False, re_err = Some err\<rparr>)\<rparr>
        | (dmx, Inr t) \<Rightarrow> s\<lparr>dc_clnt := dmx, dc_n := Suc (dc_n s), dc_req := (dc_req s)(c := b), dc_tag := (dc_tag s)(c \<mapsto> t),
              dc_pc := (dc_pc s)(c := CWrite t)\<rparr>))
      else None)"
| "dmx_act serve s (Write c ok) =
     (case dc_pc s c of
        CWrite t \<Rightarrow> Some (Some (s\<lparr>dc_pc := (dc_pc s)(c := CWait t),
            dc_c2s := (if ok then dc_c2s s @ [(t, dc_req s c)] else dc_c2s s)\<rparr>))
      | _ \<Rightarrow> None)"
| "dmx_act serve s SrvRead =
     (case dc_c2s s of
        m # ms \<Rightarrow> Some (Some (s\<lparr>dc_c2s := ms, dc_jobs := dc_jobs s @ [m]\<rparr>))
      | [] \<Rightarrow> None)"
| "dmx_act serve s (Serve i ok) =
     (if i < length (dc_jobs s) then
        (case dc_jobs s ! i of (t, req) \<Rightarrow>
           (case serve (dc_srv s) (dx_clntEnd (dc_clnt s)) req of
              Some (srv, rep, rok) \<Rightarrow>
                Some (Some (s\<lparr>dc_srv := srv, dc_jobs := take i (dc_jobs s) @ drop (Suc i) (dc_jobs s),
                    dc_log := dc_log s @ [(t, req, rep, rok)],
                    dc_s2c := (if ok then dc_s2c s @ [(t, rep, rok)] else dc_s2c s)\<rparr>))
            | None \<Rightarrow> None))
      else None)"
| "dmx_act serve s ClntRead =
     (case (dc_reader s, dc_s2c s) of
        (Reading, (t, b, ok) # ms) \<Rightarrow>
          (case dx_reply (dc_clnt s) t b ok None of
             Some (dmx, ch, r) \<Rightarrow> map_option Some (hand_over ch r dmx (s\<lparr>dc_s2c := ms\<rparr>))
           | None \<Rightarrow> Some None)
      | _ \<Rightarrow> None)"
| "dmx_act serve s (ReadErr ts) =
     (if dc_reader s = Reading \<and> cm_outstanding (cm_close (dx_callmap (dc_clnt s))) ts then
        Some (Some (s\<lparr>dc_clnt := (dc_clnt s)\<lparr>dx_callmap := cm_close (dx_callmap (dc_clnt s))\<rparr>, dc_reader := Failing ts\<rparr>))
      else None)"
| "dmx_act serve s FailNext =
     (case dc_reader s of
        Failing (t # ts) \<Rightarrow>
          (case dx_reply (dc_clnt s) t [] False (Some ReaderReplyFail) of
             Some (dmx, ch, r) \<Rightarrow> map_option Some (hand_over ch r dmx (s\<lparr>dc_reader := Failing ts\<rparr>))
           | None \<Rightarrow> Some None)
      | Failing [] \<Rightarrow> Some (Some (s\<lparr>dc_reader := Ended\<rparr>))
      | _ \<Rightarrow> None)"
| "dmx_act serve s CloseClnt = Some (Some (s\<lparr>dc_clnt := dx_Close (dc_clnt s)\<rparr>))"

inductive dmx_step :: "('s \<Rightarrow> string \<Rightarrow> bytes \<Rightarrow> ('s \<times> bytes \<times> bool) option) \<Rightarrow> 's dmxconn \<Rightarrow> 's dmxconn \<Rightarrow> bool" for serve where
  "dmx_act serve s a = Some (Some t) \<Longrightarrow> dmx_step serve s t"

definition dmx_init :: "string \<Rightarrow> string \<Rightarrow> 's \<Rightarrow> 's dmxconn" where
  "dmx_init clnt srv s0 = \<lparr>dc_clnt = snd (dx_tag (dx_new clnt srv)), dc_n = 0, dc_req = (\<lambda>_. []), dc_tag = Map.empty, dc_pc = (\<lambda>_. CNone), dc_reader = Reading,
     dc_c2s = [], dc_jobs = [], dc_s2c = [], dc_srv = s0, dc_log = []\<rparr>"

subsection \<open>The invariant\<close>

text \<open>The server's state is the result of the requests in its log, one after the other.\<close>

fun exec_log ::
  "('s \<Rightarrow> string \<Rightarrow> bytes \<Rightarrow> ('s \<times> bytes \<times> bool) option) \<Rightarrow> string \<Rightarrow> 's \<Rightarrow> (Ttag \<times> bytes \<times> bytes \<times> bool) list \<Rightarrow> 's option" where
  "exec_log serve clnt s [] = Some s"
| "exec_log serve clnt s ((t, req, rep, ok) # l) =
     (case serve s clnt req of
        Some (s', rep', ok') \<Rightarrow> if rep' = rep \<and> ok' = ok then exec_log serve clnt s' l else None
      | None \<Rightarrow> None)"

definition issued :: "'s dmxconn \<Rightarrow> nat set" where
  "issued s = {c. dc_pc s c \<noteq> CNone}"

abbreviation calls_of :: "'s dmxconn \<Rightarrow> Ttag \<rightharpoonup> nat" where
  "calls_of s \<equiv> cm_calls (dx_callmap (dc_clnt s))"

definition out_at :: "'s dmxconn \<Rightarrow> nat \<Rightarrow> Ttag \<Rightarrow> bool" where
  "out_at s c t \<longleftrightarrow> dc_pc s c = CWrite t \<or> dc_pc s c = CWait t"

text \<open>Tags: given once, and the map of outstanding calls is right.\<close>

definition tag_inv :: "'s dmxconn \<Rightarrow> bool" where
  "tag_inv s \<longleftrightarrow>
     unat (dx_nextTag (dc_clnt s)) = Suc (dc_n s) \<and>
     (\<forall>c t. dc_tag s c = Some t \<longrightarrow> c \<in> issued s \<and> unat t < unat (dx_nextTag (dc_clnt s))) \<and>
     (\<forall>c c' t. dc_tag s c = Some t \<longrightarrow> dc_tag s c' = Some t \<longrightarrow> c = c') \<and>
     (\<forall>c t. out_at s c t \<longrightarrow> dc_tag s c = Some t) \<and>
     (\<forall>c t. calls_of s t = Some c \<longleftrightarrow> out_at s c t)"

text \<open>Messages: each belongs to a call, carries its request, and is there once.\<close>

definition wire :: "'s dmxconn \<Rightarrow> Ttag set" where
  "wire s = fst ` set (dc_c2s s) \<union> fst ` set (dc_jobs s) \<union> fst ` set (dc_s2c s)"

definition owned :: "'s dmxconn \<Rightarrow> Ttag \<Rightarrow> bytes \<Rightarrow> bool" where
  "owned s t d \<longleftrightarrow> (\<exists>c. dc_tag s c = Some t \<and> d = dc_req s c \<and> dc_pc s c \<noteq> CWrite t)"

definition msg_inv :: "'s dmxconn \<Rightarrow> bool" where
  "msg_inv s \<longleftrightarrow>
     distinct (map fst (dc_c2s s) @ map fst (dc_jobs s) @ map fst (dc_log s)) \<and> distinct (map fst (dc_s2c s)) \<and>
     (\<forall>t d. (t, d) \<in> set (dc_c2s s) \<union> set (dc_jobs s) \<union> (\<lambda>(t, d, _). (t, d)) ` set (dc_log s) \<longrightarrow>
        owned s t d) \<and>
     (\<forall>t rep ok. (t, rep, ok) \<in> set (dc_s2c s) \<longrightarrow> (\<exists>d. (t, d, rep, ok) \<in> set (dc_log s))) \<and>
     (dc_reader s = Reading \<longrightarrow> (\<forall>c t. dc_tag s c = Some t \<longrightarrow> t \<in> wire s \<longrightarrow> dc_pc s c = CWait t)) \<and>
     (\<forall>c r. dc_pc s c = CDone r \<longrightarrow> re_err r = None \<longrightarrow>
        (\<exists>t. dc_tag s c = Some t \<and> (t, dc_req s c, re_rep r, re_ok r) \<in> set (dc_log s)))"

definition reader_inv :: "'s dmxconn \<Rightarrow> bool" where
  "reader_inv s \<longleftrightarrow>
     (\<forall>ts. dc_reader s = Failing ts \<longrightarrow> cm_closed (dx_callmap (dc_clnt s)) \<and> distinct ts \<and> set ts = dom (calls_of s)) \<and>
     (dc_reader s = Ended \<longrightarrow> cm_closed (dx_callmap (dc_clnt s)) \<and> dom (calls_of s) = {})"

definition dmx_inv :: "('s \<Rightarrow> string \<Rightarrow> bytes \<Rightarrow> ('s \<times> bytes \<times> bool) option) \<Rightarrow> string \<Rightarrow> 's \<Rightarrow> 's dmxconn \<Rightarrow> bool" where
  "dmx_inv serve clnt s0 s \<longleftrightarrow> tag_inv s \<and> msg_inv s \<and> reader_inv s \<and>
     dx_clntEnd (dc_clnt s) = clnt \<and> exec_log serve clnt s0 (dc_log s) = Some (dc_srv s)"

lemma exec_log_append:
  "exec_log serve clnt s (l @ l') = (case exec_log serve clnt s l of None \<Rightarrow> None | Some s' \<Rightarrow> exec_log serve clnt s' l')"
  by (induction serve clnt s l rule: exec_log.induct) (auto split: option.splits)

lemma dmx_init_inv: "dmx_inv serve clnt s0 (dmx_init clnt srv s0)"
  by (simp add: dmx_inv_def dmx_init_def tag_inv_def msg_inv_def reader_inv_def issued_def out_at_def wire_def
      dx_new_def dx_tag_def newCallMap_def)

lemma tag_invD:
  assumes "tag_inv s"
  shows "unat (dx_nextTag (dc_clnt s)) = Suc (dc_n s)"
    "dc_tag s c = Some t \<Longrightarrow> c \<in> issued s" "dc_tag s c = Some t \<Longrightarrow> unat t < unat (dx_nextTag (dc_clnt s))"
    "dc_tag s c = Some t \<Longrightarrow> dc_tag s c' = Some t \<Longrightarrow> c = c'"
    "out_at s c t \<Longrightarrow> dc_tag s c = Some t" "calls_of s t = Some c \<longleftrightarrow> out_at s c t"
  using assms unfolding tag_inv_def by blast+

lemma msg_invD:
  assumes "msg_inv s"
  shows "distinct (map fst (dc_c2s s) @ map fst (dc_jobs s) @ map fst (dc_log s))" "distinct (map fst (dc_s2c s))"
    "(t, d) \<in> set (dc_c2s s) \<Longrightarrow> owned s t d"
    "(t, d) \<in> set (dc_jobs s) \<Longrightarrow> owned s t d"
    "(t, d, rep, ok) \<in> set (dc_log s) \<Longrightarrow> owned s t d"
    "(t, rep, ok) \<in> set (dc_s2c s) \<Longrightarrow> \<exists>d. (t, d, rep, ok) \<in> set (dc_log s)"
    "dc_reader s = Reading \<Longrightarrow> dc_tag s c = Some t \<Longrightarrow> t \<in> wire s \<Longrightarrow> dc_pc s c = CWait t"
    "dc_pc s c = CDone r \<Longrightarrow> re_err r = None \<Longrightarrow> \<exists>t. dc_tag s c = Some t \<and> (t, dc_req s c, re_rep r, re_ok r) \<in> set (dc_log s)"
proof -
  have 1: "(t, d) \<in> set (dc_c2s s) \<union> set (dc_jobs s) \<union> (\<lambda>(t, d, _). (t, d)) ` set (dc_log s) \<Longrightarrow>
      owned s t d" for t d
    using assms unfolding msg_inv_def by blast
  show "(t, d) \<in> set (dc_c2s s) \<Longrightarrow> owned s t d"
    "(t, d) \<in> set (dc_jobs s) \<Longrightarrow> owned s t d"
    "(t, d, rep, ok) \<in> set (dc_log s) \<Longrightarrow> owned s t d"
    by (rule 1, force)+
qed (use assms in \<open>unfold msg_inv_def, blast+\<close>)


subsection \<open>The invariant holds\<close>

lemma owned_keep:
  assumes "owned s t d"
    "\<And>c. dc_tag s c = Some t \<Longrightarrow> dc_tag s' c = Some t \<and> dc_req s' c = dc_req s c \<and> (dc_pc s' c = CWrite t \<longrightarrow> dc_pc s c = CWrite t)"
  shows "owned s' t d"
  using assms unfolding owned_def by metis

lemma msg_invI:
  assumes "distinct (map fst (dc_c2s s) @ map fst (dc_jobs s) @ map fst (dc_log s))" "distinct (map fst (dc_s2c s))"
    "\<And>t d. (t, d) \<in> set (dc_c2s s) \<Longrightarrow> owned s t d"
    "\<And>t d. (t, d) \<in> set (dc_jobs s) \<Longrightarrow> owned s t d"
    "\<And>t d rep ok. (t, d, rep, ok) \<in> set (dc_log s) \<Longrightarrow> owned s t d"
    "\<And>t rep ok. (t, rep, ok) \<in> set (dc_s2c s) \<Longrightarrow> \<exists>d. (t, d, rep, ok) \<in> set (dc_log s)"
    "\<And>c t. dc_reader s = Reading \<Longrightarrow> dc_tag s c = Some t \<Longrightarrow> t \<in> wire s \<Longrightarrow> dc_pc s c = CWait t"
    "\<And>c r. dc_pc s c = CDone r \<Longrightarrow> re_err r = None \<Longrightarrow>
       \<exists>t. dc_tag s c = Some t \<and> (t, dc_req s c, re_rep r, re_ok r) \<in> set (dc_log s)"
  shows "msg_inv s"
proof -
  have "owned s t d"
    if "(t, d) \<in> set (dc_c2s s) \<union> set (dc_jobs s) \<union> (\<lambda>(t, d, _). (t, d)) ` set (dc_log s)" for t d
    using that assms(3-5) by (auto split: prod.splits)
  with assms(1,2,6-8) show ?thesis unfolding msg_inv_def by meson
qed

text \<open>The tags of messages have been given to calls.\<close>

lemma wire_tagged:
  assumes "msg_inv s" "t \<in> wire s"
  shows "\<exists>c. dc_tag s c = Some t \<and> dc_pc s c \<noteq> CWrite t"
proof -
  obtain d where "owned s t d"
    using assms(2) msg_invD(3-6) [OF assms(1)] unfolding wire_def by fastforce
  then show ?thesis by (auto simp: owned_def)
qed

text \<open>When only the calls change.\<close>

lemma msg_inv_calls:
  assumes "msg_inv s" "dc_c2s s' = dc_c2s s" "dc_jobs s' = dc_jobs s" "dc_s2c s' = dc_s2c s" "dc_log s' = dc_log s"
    and keep: "\<And>t d. owned s t d \<Longrightarrow> owned s' t d"
    and reading: "\<And>c t. dc_reader s' = Reading \<Longrightarrow> dc_tag s' c = Some t \<Longrightarrow> t \<in> wire s \<Longrightarrow> dc_pc s' c = CWait t"
    and returned: "\<And>c r. dc_pc s' c = CDone r \<Longrightarrow> re_err r = None \<Longrightarrow>
       \<exists>t. dc_tag s' c = Some t \<and> (t, dc_req s' c, re_rep r, re_ok r) \<in> set (dc_log s)"
  shows "msg_inv s'"
proof (rule msg_invI)
  have "wire s' = wire s" using assms(2-4) by (simp add: wire_def)
  then show "dc_pc s' c = CWait t" if "dc_reader s' = Reading" "dc_tag s' c = Some t" "t \<in> wire s'" for c t
    using reading that by simp
qed (use msg_invD(1-6) [OF assms(1)] keep returned in \<open>auto simp: assms(2-5)\<close>)

lemma tag_inv_cong:
  assumes "dc_clnt s' = dc_clnt s" "dc_n s' = dc_n s" "dc_tag s' = dc_tag s" "issued s' = issued s" "\<And>c t. out_at s' c t = out_at s c t"
  shows "tag_inv s' = tag_inv s"
  unfolding tag_inv_def assms ..

lemma issue_inv:
  assumes inv: "tag_inv s" "msg_inv s" "reader_inv s"
    and act: "dmx_act serve s (Issue c b) = Some (Some s')" and small: "dc_n s' < 2 ^ 32 - 1"
  shows "tag_inv s'" "msg_inv s'" "reader_inv s'"
proof -
  have c: "dc_pc s c = CNone" using act by (auto split: if_splits)
  have iss: "issued s' = insert c (issued s)" and nt: "dx_nextTag (dc_clnt s') = dx_nextTag (dc_clnt s) + 1"
    using act c by (auto simp: issued_def SendReceive_def dx_tag_def cm_put_def split: if_splits)
  have n: "dc_n s' = Suc (dc_n s)" using act c by (auto simp: SendReceive_def dx_tag_def cm_put_def split: if_splits)
  have un: "unat (dx_nextTag (dc_clnt s')) = Suc (unat (dx_nextTag (dc_clnt s)))"
    using small tag_invD(1) [OF inv(1)] by (simp add: nt n unat_word_ariths)
  have fresh: "dc_tag s c = None" using tag_invD(2) [OF inv(1)] c by (cases "dc_tag s c") (auto simp: issued_def)
  have out: "\<not> out_at s c t" for t using c by (simp add: out_at_def)
  let ?t = "dx_nextTag (dc_clnt s)"
  have new: "dc_tag s c' \<noteq> Some ?t" for c' using tag_invD(3) [OF inv(1), of c' ?t] by auto
  show "tag_inv s'" "msg_inv s'" "reader_inv s'"
  proof (atomize (full), cases "cm_closed (dx_callmap (dc_clnt s))")
    case True
    then have s': "s' = s\<lparr>dc_clnt := (dc_clnt s)\<lparr>dx_nextTag := ?t + 1\<rparr>, dc_n := Suc (dc_n s), dc_req := (dc_req s)(c := b),
        dc_pc := (dc_pc s)(c := CDone \<lparr>re_rep = [], re_ok = False, re_err = Some ConnClosed\<rparr>)\<rparr>"
      using act c by (simp add: SendReceive_def dx_tag_def cm_put_def)
    have o': "out_at s' c' t \<longleftrightarrow> out_at s c' t" for c' t using out by (auto simp: s' out_at_def)
    have "tag_inv s'"
      unfolding tag_inv_def o' using n un iss inv(1) by (simp add: s' tag_inv_def) (metis less_Suc_eq)
    moreover have "msg_inv s'"
    proof (rule msg_inv_calls [OF inv(2)])
      show "owned s' t d" if "owned s t d" for t d by (rule owned_keep [OF that]) (use fresh in \<open>auto simp: s'\<close>)
      show "dc_pc s' c' = CWait t" if "dc_reader s' = Reading" "dc_tag s' c' = Some t" "t \<in> wire s" for c' t
        using msg_invD(7) [OF inv(2), of c' t] that fresh by (auto simp: s')
      show "\<exists>t. dc_tag s' c' = Some t \<and> (t, dc_req s' c', re_rep r, re_ok r) \<in> set (dc_log s)"
        if "dc_pc s' c' = CDone r" "re_err r = None" for c' r
        using msg_invD(8) [OF inv(2), where c = c' and r = r] that by (auto simp: s' split: if_splits)
    qed (simp_all add: s')
    moreover have "reader_inv s'" using inv(3) by (simp add: reader_inv_def s')
    ultimately show "tag_inv s' \<and> msg_inv s' \<and> reader_inv s'" by blast
  next
    case False
    then have s': "s' = s\<lparr>dc_clnt := (dc_clnt s)\<lparr>dx_nextTag := ?t + 1,
          dx_callmap := (dx_callmap (dc_clnt s))\<lparr>cm_calls := (calls_of s)(?t \<mapsto> c)\<rparr>\<rparr>,
        dc_n := Suc (dc_n s), dc_req := (dc_req s)(c := b), dc_tag := (dc_tag s)(c \<mapsto> ?t), dc_pc := (dc_pc s)(c := CWrite ?t)\<rparr>"
      using act c by (simp add: SendReceive_def dx_tag_def cm_put_def)
    have o': "out_at s' c' t \<longleftrightarrow> (if c' = c then t = ?t else out_at s c' t)" for c' t by (auto simp: s' out_at_def)
    have tg: "dc_tag s' c' = Some t \<longleftrightarrow> (if c' = c then t = ?t else dc_tag s c' = Some t)" for c' t by (auto simp: s')
    have cl: "calls_of s' = (calls_of s)(?t \<mapsto> c)" by (simp add: s')
    have "calls_of s' t = Some c' \<longleftrightarrow> out_at s' c' t" for c' t
      using tag_invD(5,6) [OF inv(1), where c = c' and t = t] new out by (auto simp: o' cl)
    moreover have "dc_tag s' c' = Some t \<Longrightarrow> unat t < unat (dx_nextTag (dc_clnt s'))" for c' t
      using tag_invD(3) [OF inv(1), of c' t] by (auto simp: un tg split: if_splits)
    moreover have "dc_tag s' c1 = Some t \<Longrightarrow> dc_tag s' c2 = Some t \<Longrightarrow> c1 = c2" for c1 c2 t
      using tag_invD(4) [OF inv(1), of c1 t c2] new by (auto simp: tg split: if_splits)
    moreover have "out_at s' c' t \<Longrightarrow> dc_tag s' c' = Some t" for c' t
      using tag_invD(5) [OF inv(1), of c' t] by (auto simp: tg o' split: if_splits)
    moreover have "dc_tag s' c' = Some t \<Longrightarrow> c' \<in> issued s'" for c' t
      using tag_invD(2) [OF inv(1), of c' t] by (auto simp: tg iss split: if_splits)
    moreover have "unat (dx_nextTag (dc_clnt s')) = Suc (dc_n s')"
      using un n tag_invD(1) [OF inv(1)] by simp
    ultimately have "tag_inv s'" unfolding tag_inv_def by blast
    moreover have "msg_inv s'"
    proof (rule msg_inv_calls [OF inv(2)])
      show "owned s' t d" if "owned s t d" for t d by (rule owned_keep [OF that]) (use fresh new in \<open>auto simp: s'\<close>)
      show "dc_pc s' c' = CWait t" if "dc_reader s' = Reading" "dc_tag s' c' = Some t" "t \<in> wire s" for c' t
        using msg_invD(7) [OF inv(2), of c' t] wire_tagged [OF inv(2) that(3)] that new by (auto simp: s' split: if_splits)
      show "\<exists>t. dc_tag s' c' = Some t \<and> (t, dc_req s' c', re_rep r, re_ok r) \<in> set (dc_log s)"
        if "dc_pc s' c' = CDone r" "re_err r = None" for c' r
        using msg_invD(8) [OF inv(2), where c = c' and r = r] that by (auto simp: s' split: if_splits)
    qed (simp_all add: s')
    moreover have "reader_inv s'" using inv(3) False by (simp add: reader_inv_def s')
    ultimately show "tag_inv s' \<and> msg_inv s' \<and> reader_inv s'" by blast
  qed
qed

lemma write_inv:
  assumes inv: "tag_inv s" "msg_inv s" "reader_inv s" and act: "dmx_act serve s (Write c ok) = Some (Some s')"
  shows "tag_inv s'" "msg_inv s'" "reader_inv s'"
proof -
  obtain t where t: "dc_pc s c = CWrite t" and s': "s' = s\<lparr>dc_pc := (dc_pc s)(c := CWait t),
      dc_c2s := (if ok then dc_c2s s @ [(t, dc_req s c)] else dc_c2s s)\<rparr>"
    using act by (auto split: callpc.splits)
  have o': "out_at s' c' t' \<longleftrightarrow> out_at s c' t'" for c' t' using t by (auto simp: s' out_at_def)
  have i': "issued s' = issued s" using t by (auto simp: issued_def s')
  show "tag_inv s'" using inv(1) tag_inv_cong [of s' s] by (simp add: o' i') (simp add: s')
  show "reader_inv s'" using inv(3) by (simp add: reader_inv_def s')
  have tc: "dc_tag s c = Some t" using tag_invD(5) [OF inv(1)] t by (simp add: out_at_def)
  have only: "c' = c" if "dc_tag s c' = Some t" for c' using tag_invD(4) [OF inv(1) that tc] .
  have absent: "(t, d) \<notin> set (dc_c2s s)" "(t, d) \<notin> set (dc_jobs s)" "(t, d, rep, rok) \<notin> set (dc_log s)" for d rep rok
    using msg_invD(3-5) [OF inv(2)] only t unfolding owned_def by blast+
  have keep: "owned s' t' d"
    if "owned s t' d" for t' d
    by (rule owned_keep [OF that]) (auto simp: s')
  have cw: "owned s' t (dc_req s c)"
    using tc by (auto simp: owned_def s')
  show "msg_inv s'"
  proof (rule msg_invI)
    show "distinct (map fst (dc_c2s s') @ map fst (dc_jobs s') @ map fst (dc_log s'))"
      using msg_invD(1) [OF inv(2)] absent by (auto simp: s')
    show "owned s' t' d" if "(t', d) \<in> set (dc_c2s s')" for t' d
    proof -
      have "(t', d) \<in> set (dc_c2s s) \<or> (t', d) = (t, dc_req s c)" using that by (auto simp: s' split: if_splits)
      then show ?thesis using keep [OF msg_invD(3) [OF inv(2)]] cw by blast
    qed
    show "dc_pc s' c' = CWait t'" if "dc_reader s' = Reading" "dc_tag s' c' = Some t'" "t' \<in> wire s'" for c' t'
    proof (cases "c' = c")
      case True
      then show ?thesis using that(2) tc by (simp add: s')
    next
      case False
      with that(2) only have "t' \<noteq> t" by (auto simp: s')
      with that(3) have "t' \<in> wire s" by (auto simp: s' wire_def split: if_splits)
      with False that(1,2) show ?thesis using msg_invD(7) [OF inv(2), of c' t'] by (simp add: s')
    qed
    show "\<exists>t. dc_tag s' c' = Some t \<and> (t, dc_req s' c', re_rep r, re_ok r) \<in> set (dc_log s')"
      if "dc_pc s' c' = CDone r" "re_err r = None" for c' r
      using that msg_invD(8) [OF inv(2), where c = c' and r = r] by (auto simp: s' split: if_splits)
    show "owned s' t' d" if "(t', d) \<in> set (dc_jobs s')" for t' d
      using that keep [OF msg_invD(4) [OF inv(2)]] by (simp add: s')
    show "owned s' t' d" if "(t', d, p, q) \<in> set (dc_log s')" for t' d p q
    proof -
      have "(t', d, p, q) \<in> set (dc_log s)" using that by (simp add: s')
      then show ?thesis by (rule keep [OF msg_invD(5) [OF inv(2)]])
    qed
  qed (use msg_invD(2,6) [OF inv(2)] in \<open>simp_all add: s'\<close>)
qed

lemma srv_read_inv:
  assumes inv: "tag_inv s" "msg_inv s" "reader_inv s" and act: "dmx_act serve s SrvRead = Some (Some s')"
  shows "tag_inv s'" "msg_inv s'" "reader_inv s'"
proof -
  obtain m ms where m: "dc_c2s s = m # ms" and s': "s' = s\<lparr>dc_c2s := ms, dc_jobs := dc_jobs s @ [m]\<rparr>"
    using act by (auto split: list.splits)
  show "tag_inv s'" "reader_inv s'"
    using inv(1,3) tag_inv_cong [of s' s] by (simp_all add: reader_inv_def out_at_def issued_def s')
  have "wire s' = wire s" by (auto simp: s' m wire_def)
  moreover have "owned s' = owned s" by (intro ext) (simp add: owned_def s')
  ultimately show "msg_inv s'" using inv(2) unfolding msg_inv_def by (auto simp: s' m)
qed

lemma serve_inv:
  assumes inv: "tag_inv s" "msg_inv s" "reader_inv s" and act: "dmx_act serve s (Serve i ok) = Some (Some s')"
  shows "tag_inv s'" "msg_inv s'" "reader_inv s'"
    "\<exists>srv t req rep rok. serve (dc_srv s) (dx_clntEnd (dc_clnt s)) req = Some (srv, rep, rok) \<and> dc_srv s' = srv \<and>
       dc_log s' = dc_log s @ [(t, req, rep, rok)] \<and> dc_clnt s' = dc_clnt s"
proof -
  obtain t req srv rep rok where i: "i < length (dc_jobs s)" "dc_jobs s ! i = (t, req)"
    and sv: "serve (dc_srv s) (dx_clntEnd (dc_clnt s)) req = Some (srv, rep, rok)"
    and s': "s' = s\<lparr>dc_srv := srv, dc_jobs := take i (dc_jobs s) @ drop (Suc i) (dc_jobs s),
      dc_log := dc_log s @ [(t, req, rep, rok)], dc_s2c := (if ok then dc_s2c s @ [(t, rep, rok)] else dc_s2c s)\<rparr>"
    using act by (auto split: if_splits prod.splits option.splits)
  show "tag_inv s'" "reader_inv s'"
    using inv(1,3) tag_inv_cong [of s' s] by (simp_all add: reader_inv_def out_at_def issued_def s')
  have j: "dc_jobs s = take i (dc_jobs s) @ (t, req) # drop (Suc i) (dc_jobs s)" using i by (metis id_take_nth_drop)
  have tj: "(t, req) \<in> set (dc_jobs s)" using i by (metis nth_mem)
  have sub: "x \<in> set (dc_jobs s)" if "x \<in> set (dc_jobs s')" for x using that by (auto simp: s' dest: in_set_takeD in_set_dropD)
  have d: "distinct (map fst (dc_c2s s) @ map fst (take i (dc_jobs s)) @ t # map fst (drop (Suc i) (dc_jobs s)) @ map fst (dc_log s))"
    using msg_invD(1) [OF inv(2)] by (subst (asm) j) simp
  show "msg_inv s'"
  proof (rule msg_invI)
    show "distinct (map fst (dc_c2s s') @ map fst (dc_jobs s') @ map fst (dc_log s'))"
      using d by (auto simp: s')
    have "fst ` set (dc_s2c s) \<subseteq> fst ` set (dc_log s)" using msg_invD(6) [OF inv(2)] by force
    then have "t \<notin> fst ` set (dc_s2c s)" using d by auto
    then show "distinct (map fst (dc_s2c s'))" using msg_invD(2) [OF inv(2)] by (auto simp: s')
    show "owned s' t' e" if "(t', e) \<in> set (dc_jobs s')" for t' e
      using msg_invD(4) [OF inv(2) sub [OF that]] by (simp add: s' owned_def)
    show "owned s' t' e" if "(t', e, p, q) \<in> set (dc_log s')" for t' e p q
      using that msg_invD(5) [OF inv(2)] msg_invD(4) [OF inv(2) tj] by (auto simp: s' owned_def)
    have "t \<in> wire s" using imageI [OF tj, of fst] by (simp add: wire_def)
    moreover have "fst ` set (dc_s2c s') \<subseteq> insert t (fst ` set (dc_s2c s))" "dc_c2s s' = dc_c2s s" by (auto simp: s')
    moreover have "fst ` set (dc_jobs s') \<subseteq> fst ` set (dc_jobs s)" using sub by blast
    moreover have "t \<in> A \<union> B \<union> C \<Longrightarrow> C' \<subseteq> insert t C \<Longrightarrow> B' \<subseteq> B \<Longrightarrow> A \<union> B' \<union> C' \<subseteq> A \<union> B \<union> C" for A B C B' C' :: "Ttag set"
      by blast
    ultimately have ws: "wire s' \<subseteq> wire s" unfolding wire_def by metis
    show "dc_pc s' c = CWait t'" if "dc_reader s' = Reading" "dc_tag s' c = Some t'" "t' \<in> wire s'" for c t'
      using that(1,2) subsetD [OF ws that(3)] msg_invD(7) [OF inv(2), of c t'] by (simp add: s')
    show "\<exists>e. (t', e, p, q) \<in> set (dc_log s')" if "(t', p, q) \<in> set (dc_s2c s')" for t' p q
      using that msg_invD(6) [OF inv(2), of t' p q] by (auto simp: s' split: if_splits)
    show "\<exists>t. dc_tag s' c = Some t \<and> (t, dc_req s' c, re_rep r, re_ok r) \<in> set (dc_log s')"
      if "dc_pc s' c = CDone r" "re_err r = None" for c r
      using that msg_invD(8) [OF inv(2), where c = c and r = r] by (auto simp: s')
  qed (use msg_invD(3) [OF inv(2)] in \<open>simp add: s' owned_def\<close>)
  show "\<exists>srv t req rep rok. serve (dc_srv s) (dx_clntEnd (dc_clnt s)) req = Some (srv, rep, rok) \<and> dc_srv s' = srv \<and>
       dc_log s' = dc_log s @ [(t, req, rep, rok)] \<and> dc_clnt s' = dc_clnt s"
    using sv by (simp add: s')
qed


text \<open>The reader hands a reply over: the call is the one the tag was given to, and it is no longer outstanding.\<close>

lemma reply_handed:
  assumes inv: "tag_inv s" and rep: "dx_reply (dc_clnt s) t b ok err = Some (dmx, ch, r)"
    and s0: "dc_clnt s0 = dc_clnt s" "dc_n s0 = dc_n s" "dc_tag s0 = dc_tag s" "dc_pc s0 = dc_pc s"
    and hand: "hand_over ch r dmx s0 = Some s'"
  shows "dc_pc s ch = CWait t" "dc_tag s ch = Some t" "r = \<lparr>re_rep = b, re_ok = ok, re_err = err\<rparr>"
    "s' = s0\<lparr>dc_clnt := (dc_clnt s)\<lparr>dx_callmap := (dx_callmap (dc_clnt s))\<lparr>cm_calls := (calls_of s)(t := None)\<rparr>\<rparr>,
       dc_pc := (dc_pc s)(ch := CDone r)\<rparr>"
    "tag_inv s'"
proof -
  have ch: "calls_of s t = Some ch" and r: "r = \<lparr>re_rep = b, re_ok = ok, re_err = err\<rparr>"
    and dmx: "dmx = (dc_clnt s)\<lparr>dx_callmap := (dx_callmap (dc_clnt s))\<lparr>cm_calls := (calls_of s)(t := None)\<rparr>\<rparr>"
    using rep by (auto simp: dx_reply_def cm_remove_def split: option.splits)
  have out: "out_at s ch t" using tag_invD(6) [OF inv] ch by simp
  have pc: "dc_pc s ch = CWait t"
    using out hand by (auto simp: out_at_def hand_over_def s0 split: callpc.splits)
  have s': "s' = s0\<lparr>dc_clnt := dmx, dc_pc := (dc_pc s)(ch := CDone r)\<rparr>"
    using hand pc by (simp add: hand_over_def s0)
  show "dc_pc s ch = CWait t" "r = \<lparr>re_rep = b, re_ok = ok, re_err = err\<rparr>" by (fact pc, fact r)
  show tg: "dc_tag s ch = Some t" using tag_invD(5) [OF inv out] .
  show "s' = s0\<lparr>dc_clnt := (dc_clnt s)\<lparr>dx_callmap := (dx_callmap (dc_clnt s))\<lparr>cm_calls := (calls_of s)(t := None)\<rparr>\<rparr>,
       dc_pc := (dc_pc s)(ch := CDone r)\<rparr>" unfolding s' dmx ..
  have o': "out_at s' c t' \<longleftrightarrow> c \<noteq> ch \<and> out_at s c t'" for c t' by (auto simp: out_at_def s')
  have i': "issued s' = issued s" using pc by (auto simp: issued_def s')
  have cl: "calls_of s' t' = Some c \<longleftrightarrow> t' \<noteq> t \<and> out_at s c t'" for c t'
    using tag_invD(6) [OF inv, of t' c] by (simp add: s' dmx)
  have same: "t' \<noteq> t \<and> out_at s c t' \<longleftrightarrow> c \<noteq> ch \<and> out_at s c t'" for c t'
    using tag_invD(4,5) [OF inv] tg pc by (metis option.inject)
  have same': "dx_nextTag (dc_clnt s') = dx_nextTag (dc_clnt s)" "dc_n s' = dc_n s" "dc_tag s' = dc_tag s" by (simp_all add: s' dmx s0)
  show "tag_inv s'"
    unfolding tag_inv_def cl o' i' same same' using tag_invD [OF inv] by blast
qed

lemma clnt_read_inv:
  assumes inv: "tag_inv s" "msg_inv s" "reader_inv s" and act: "dmx_act serve s ClntRead = Some (Some s')"
  shows "tag_inv s'" "msg_inv s'" "reader_inv s'" "dc_log s' = dc_log s" "dc_srv s' = dc_srv s" "issued s' = issued s"
    "dx_clntEnd (dc_clnt s') = dx_clntEnd (dc_clnt s)"
proof -
  obtain t b ok ms dmx ch r where rd: "dc_reader s = Reading" and q: "dc_s2c s = (t, b, ok) # ms"
    and rep: "dx_reply (dc_clnt s) t b ok None = Some (dmx, ch, r)"
    and hand: "hand_over ch r dmx (s\<lparr>dc_s2c := ms\<rparr>) = Some s'"
    using act by (auto split: readerpc.splits list.splits prod.splits option.splits)
  note h = reply_handed [OF inv(1) rep _ _ _ _ hand, simplified]
  note s' = h(4)
  show "tag_inv s'" by (rule h(5))
  show "reader_inv s'" using rd by (simp add: reader_inv_def s')
  show "dc_log s' = dc_log s" "dc_srv s' = dc_srv s" "dx_clntEnd (dc_clnt s') = dx_clntEnd (dc_clnt s)" by (simp_all add: s')
  show "issued s' = issued s" using h(1) by (auto simp: issued_def s')
  obtain d where d: "(t, d, b, ok) \<in> set (dc_log s)" using msg_invD(6) [OF inv(2), of t b ok] q by auto
  have dr: "d = dc_req s ch"
    using msg_invD(5) [OF inv(2) d] tag_invD(4) [OF inv(1) _ h(2)] by (auto simp: owned_def)
  have gone: "t \<notin> wire s'"
    using msg_invD(1,2) [OF inv(2)] imageI [OF d, of fst] q by (auto simp: wire_def s')
  have keep: "owned s' t' e" if "owned s t' e" for t' e
    by (rule owned_keep [OF that]) (auto simp: s')
  show "msg_inv s'"
  proof (rule msg_invI)
    show "dc_pc s' c = CWait t'" if "dc_reader s' = Reading" "dc_tag s' c = Some t'" "t' \<in> wire s'" for c t'
    proof -
      have "c \<noteq> ch" using that(2,3) gone h(2) by (auto simp: s')
      moreover have "t' \<in> wire s" using that(3) by (auto simp: wire_def s' q)
      ultimately show ?thesis using that(1,2) msg_invD(7) [OF inv(2), of c t'] by (simp add: s')
    qed
    show "\<exists>t. dc_tag s' c = Some t \<and> (t, dc_req s' c, re_rep r', re_ok r') \<in> set (dc_log s')"
      if "dc_pc s' c = CDone r'" "re_err r' = None" for c r'
      using that msg_invD(8) [OF inv(2), where c = c and r = r'] d dr h(2,3) by (auto simp: s' split: if_splits)
  qed (use msg_invD(1-6) [OF inv(2)] q keep in \<open>simp_all add: s'\<close>)
qed


lemma read_err_inv:
  assumes inv: "tag_inv s" "msg_inv s" "reader_inv s" and act: "dmx_act serve s (ReadErr ts) = Some (Some s')"
  shows "tag_inv s'" "msg_inv s'" "reader_inv s'" "dc_log s' = dc_log s" "dc_srv s' = dc_srv s" "issued s' = issued s"
    "dx_clntEnd (dc_clnt s') = dx_clntEnd (dc_clnt s)"
proof -
  have ts: "distinct ts" "set ts = dom (calls_of s)"
    and s': "s' = s\<lparr>dc_clnt := (dc_clnt s)\<lparr>dx_callmap := (dx_callmap (dc_clnt s))\<lparr>cm_closed := True\<rparr>\<rparr>, dc_reader := Failing ts\<rparr>"
    using act by (auto simp: cm_outstanding_def cm_close_def split: if_splits)
  have o': "out_at s' c t = out_at s c t" for c t by (simp add: out_at_def s')
  show i': "issued s' = issued s" by (simp add: issued_def s')
  have same: "calls_of s' = calls_of s" "dx_nextTag (dc_clnt s') = dx_nextTag (dc_clnt s)" "dc_n s' = dc_n s" "dc_tag s' = dc_tag s" by (simp_all add: s')
  show "tag_inv s'" using inv(1) unfolding tag_inv_def o' i' same .
  show "reader_inv s'" using ts by (simp add: reader_inv_def s')
  show "msg_inv s'"
    by (rule msg_inv_calls [OF inv(2)])
      (use msg_invD(8) [OF inv(2)] in \<open>simp_all add: s' owned_def\<close>)
qed (use act in \<open>auto split: if_splits\<close>)

lemma fail_next_inv:
  assumes inv: "tag_inv s" "msg_inv s" "reader_inv s" and act: "dmx_act serve s FailNext = Some (Some s')"
  shows "tag_inv s'" "msg_inv s'" "reader_inv s'" "dc_log s' = dc_log s" "dc_srv s' = dc_srv s" "issued s' = issued s"
    "dx_clntEnd (dc_clnt s') = dx_clntEnd (dc_clnt s)"
proof -
  have "tag_inv s' \<and> msg_inv s' \<and> reader_inv s' \<and> dc_log s' = dc_log s \<and> dc_srv s' = dc_srv s \<and> issued s' = issued s \<and>
      dx_clntEnd (dc_clnt s') = dx_clntEnd (dc_clnt s)"
  proof (cases "dc_reader s = Failing []")
    case True
    then have s': "s' = s\<lparr>dc_reader := Ended\<rparr>" using act by simp
    have "tag_inv s'" using inv(1) tag_inv_cong [of s' s] by (simp add: s' out_at_def issued_def)
    moreover have "reader_inv s'" using inv(3) True by (simp add: reader_inv_def s')
    moreover have "msg_inv s'"
      by (rule msg_inv_calls [OF inv(2)]) (use msg_invD(8) [OF inv(2)] in \<open>simp_all add: s' owned_def\<close>)
    ultimately show ?thesis by (simp add: s' issued_def)
  next
    case False
    then obtain t ts dmx ch r where rd: "dc_reader s = Failing (t # ts)"
      and rep: "dx_reply (dc_clnt s) t [] False (Some ReaderReplyFail) = Some (dmx, ch, r)"
      and hand: "hand_over ch r dmx (s\<lparr>dc_reader := Failing ts\<rparr>) = Some s'"
      using act by (auto split: readerpc.splits list.splits prod.splits option.splits)
    note h = reply_handed [OF inv(1) rep _ _ _ _ hand, simplified]
    note s' = h(4)
    have "reader_inv s'" using inv(3) rd by (auto simp: reader_inv_def s')
    moreover have "msg_inv s'"
    proof (rule msg_inv_calls [OF inv(2)])
      show "owned s' t' d" if "owned s t' d" for t' d by (rule owned_keep [OF that]) (auto simp: s')
      show "\<exists>t. dc_tag s' c' = Some t \<and> (t, dc_req s' c', re_rep r', re_ok r') \<in> set (dc_log s)"
        if "dc_pc s' c' = CDone r'" "re_err r' = None" for c' r'
        using msg_invD(8) [OF inv(2), where c = c' and r = r'] that h(3) by (auto simp: s' split: if_splits)
    qed (simp_all add: s')
    moreover have "issued s' = issued s" using h(1) by (auto simp: issued_def s')
    ultimately show ?thesis using h(5) by (simp add: s')
  qed
  then show "tag_inv s'" "msg_inv s'" "reader_inv s'" "dc_log s' = dc_log s" "dc_srv s' = dc_srv s" "issued s' = issued s"
    "dx_clntEnd (dc_clnt s') = dx_clntEnd (dc_clnt s)" by blast+
qed

lemma close_clnt_inv:
  assumes inv: "tag_inv s" "msg_inv s" "reader_inv s" and act: "dmx_act serve s CloseClnt = Some (Some s')"
  shows "tag_inv s'" "msg_inv s'" "reader_inv s'" "dc_log s' = dc_log s" "dc_srv s' = dc_srv s" "issued s' = issued s"
    "dx_clntEnd (dc_clnt s') = dx_clntEnd (dc_clnt s)"
proof -
  have s': "s' = s\<lparr>dc_clnt := (dc_clnt s)\<lparr>dx_callmap := (dx_callmap (dc_clnt s))\<lparr>cm_closed := True\<rparr>\<rparr>\<rparr>"
    using act by (auto simp: dx_Close_def cm_isClosed_def cm_close_def)
  have o': "out_at s' c t = out_at s c t" for c t by (simp add: out_at_def s')
  show i': "issued s' = issued s" by (simp add: issued_def s')
  have same: "calls_of s' = calls_of s" "dx_nextTag (dc_clnt s') = dx_nextTag (dc_clnt s)" "dc_n s' = dc_n s" "dc_tag s' = dc_tag s" by (simp_all add: s')
  show "tag_inv s'" using inv(1) unfolding tag_inv_def o' i' same .
  show "reader_inv s'" using inv(3) by (simp add: reader_inv_def s')
  show "msg_inv s'"
    by (rule msg_inv_calls [OF inv(2)])
      (use msg_invD(7,8) [OF inv(2)] in \<open>simp_all add: s' owned_def\<close>)
  show "dc_log s' = dc_log s" "dc_srv s' = dc_srv s" "dx_clntEnd (dc_clnt s') = dx_clntEnd (dc_clnt s)" by (simp_all add: s')
qed


lemma quiet_act:
  assumes "dmx_act serve s a = Some (Some s')" "a \<in> {Issue c b, Write c ok, SrvRead}"
  shows "dc_log s' = dc_log s" "dc_srv s' = dc_srv s" "dx_clntEnd (dc_clnt s') = dx_clntEnd (dc_clnt s)"
  using assms
  by (auto simp: SendReceive_def dx_tag_def cm_put_def split: if_splits callpc.splits list.splits)

lemma dmx_act_n: "dmx_act serve s a = Some (Some s') \<Longrightarrow> dc_n s \<le> dc_n s'"
  by (cases a)
    (auto simp: SendReceive_def dx_tag_def cm_put_def hand_over_def
      split: if_splits callpc.splits list.splits readerpc.splits option.splits prod.splits)

lemma dmx_keep:
  assumes inv: "dmx_inv serve clnt s0 s" and act: "dmx_act serve s a = Some (Some s')"
    and small: "dc_n s' < 2 ^ 32 - 1"
  shows "dmx_inv serve clnt s0 s'"
proof -
  note i = inv [unfolded dmx_inv_def, THEN conjunct1] inv [unfolded dmx_inv_def, THEN conjunct2, THEN conjunct1]
    inv [unfolded dmx_inv_def, THEN conjunct2, THEN conjunct2, THEN conjunct1]
  have e: "dx_clntEnd (dc_clnt s) = clnt" "exec_log serve clnt s0 (dc_log s) = Some (dc_srv s)"
    using inv by (simp_all add: dmx_inv_def)
  show ?thesis
  proof (cases a)
    case (Issue c b)
    show ?thesis using issue_inv [OF i act [unfolded Issue] small] quiet_act(1-3) [OF act, of c b] e
      by (simp add: dmx_inv_def Issue)
  next
    case (Write c ok)
    show ?thesis using write_inv [OF i act [unfolded Write]] quiet_act(1-3) [OF act, of c _ ok] e
      by (simp add: dmx_inv_def Write)
  next
    case SrvRead
    show ?thesis using srv_read_inv [OF i act [unfolded SrvRead]] quiet_act(1-3) [OF act] e
      by (simp add: dmx_inv_def SrvRead)
  next
    case (Serve j ok)
    show ?thesis using serve_inv [OF i act [unfolded Serve]] e by (auto simp: dmx_inv_def exec_log_append)
  next
    case ClntRead
    show ?thesis using clnt_read_inv [OF i act [unfolded ClntRead]] e by (simp add: dmx_inv_def)
  next
    case (ReadErr ts)
    show ?thesis using read_err_inv [OF i act [unfolded ReadErr]] e by (simp add: dmx_inv_def)
  next
    case FailNext
    show ?thesis using fail_next_inv [OF i act [unfolded FailNext]] e by (simp add: dmx_inv_def)
  next
    case CloseClnt
    show ?thesis using close_clnt_inv [OF i act [unfolded CloseClnt]] e by (simp add: dmx_inv_def)
  qed
qed

text \<open>The clock of the system is the number of calls: the tags are 32 bits wide.\<close>

interpretation dmx: clocked_invariant "dmx_init clnt srv s0" "dmx_step serve" dc_n "2 ^ 32 - 1" "dmx_inv serve clnt s0"
  for clnt srv :: string and s0 :: 's and serve
  by unfold_locales (auto simp: dmx_init_inv dmx_step.simps intro: dmx_keep dmx_act_n)


subsection \<open>Executions\<close>

definition dmx_do :: "('s \<Rightarrow> string \<Rightarrow> bytes \<Rightarrow> ('s \<times> bytes \<times> bool) option) \<Rightarrow> 's dmxconn \<Rightarrow> dmxact \<Rightarrow> 's dmxconn option" where
  "dmx_do serve s a = (case dmx_act serve s a of Some (Some t) \<Rightarrow> Some t | _ \<Rightarrow> None)"

lemma dmx_do_step: "dmx_do serve s a = Some t \<Longrightarrow> dmx_step serve s t"
  by (auto simp: dmx_do_def dmx_step.simps split: option.splits)

lemma exec_log_split:
  assumes "exec_log serve clnt s (l1 @ (t, req, rep, ok) # l2) = Some s'"
  obtains s1 s2 where "exec_log serve clnt s l1 = Some s1" "serve s1 clnt req = Some (s2, rep, ok)"
    "exec_log serve clnt s2 l2 = Some s'"
  using assms by (auto simp: exec_log_append split: option.splits if_splits prod.splits)

text \<open>What the reader takes down is outstanding.\<close>

lemma no_fatal:
  assumes inv: "tag_inv s" "msg_inv s" "reader_inv s"
  shows "dmx_act serve s a \<noteq> Some None"
proof (cases a)
  case ClntRead
  have "dx_reply (dc_clnt s) t b ok None \<noteq> None" if rd: "dc_reader s = Reading" and q: "dc_s2c s = (t, b, ok) # ms" for t b ok ms
  proof -
    have w: "t \<in> wire s" by (simp add: wire_def q)
    then obtain c where c: "dc_tag s c = Some t" using wire_tagged [OF inv(2)] by blast
    then have "out_at s c t" using msg_invD(7) [OF inv(2) rd c w] by (simp add: out_at_def)
    then have "calls_of s t = Some c" using tag_invD(6) [OF inv(1)] by simp
    then show ?thesis by (simp add: dx_reply_def cm_remove_def)
  qed
  then show ?thesis by (auto simp: ClntRead split: readerpc.splits list.splits option.splits prod.splits)
next
  case FailNext
  have "dx_reply (dc_clnt s) t [] False (Some ReaderReplyFail) \<noteq> None" if "dc_reader s = Failing (t # ts)" for t ts
  proof -
    have "t \<in> dom (calls_of s)" using inv(3) that by (auto simp: reader_inv_def)
    then show ?thesis by (auto simp: dx_reply_def cm_remove_def)
  qed
  then show ?thesis by (auto simp: FailNext split: readerpc.splits list.splits option.splits prod.splits)
qed (auto split: if_splits callpc.splits list.splits prod.splits option.splits)

text \<open>The failing reader can go on: the call it has to fail is at its channel, or still has to write.\<close>

lemma failing_drains:
  assumes "tag_inv s" "msg_inv s" "reader_inv s" "dc_reader s = Failing ts"
  shows "\<exists>acts s'. run (dmx_do serve) s acts = Some s' \<and> dc_reader s' = Ended \<and> set acts \<subseteq> {FailNext} \<union> range (\<lambda>c. Write c False)"
  using assms
proof (induction ts arbitrary: s)
  case Nil
  then have "run (dmx_do serve) s [FailNext] = Some (s\<lparr>dc_reader := Ended\<rparr>)" by (simp add: dmx_do_def)
  then show ?case by (intro exI [of _ "[FailNext]"]) auto
next
  case (Cons t ts)
  obtain c where c: "calls_of s t = Some c" using Cons.prems(3,4) by (auto simp: reader_inv_def)
  define s1 where "s1 = (if dc_pc s c = CWrite t then s\<lparr>dc_pc := (dc_pc s)(c := CWait t)\<rparr> else s)"
  let ?w = "if dc_pc s c = CWrite t then [Write c False] else []"
  have run1: "run (dmx_do serve) s ?w = Some s1" by (simp add: s1_def dmx_do_def)
  have pc1: "dc_pc s1 c = CWait t" using tag_invD(6) [OF Cons.prems(1), of t c] c by (auto simp: s1_def out_at_def)
  have inv1: "tag_inv s1" "msg_inv s1" "reader_inv s1"
    using write_inv [OF Cons.prems(1-3), of serve c False s1] Cons.prems(1-3)
    by (cases "dc_pc s c = CWrite t"; simp add: s1_def)+
  have "calls_of s1 t = Some c" "dc_reader s1 = Failing (t # ts)" using c Cons.prems(4) by (simp_all add: s1_def)
  then obtain s2 where s2: "dmx_act serve s1 FailNext = Some (Some s2)" "dc_reader s2 = Failing ts"
    using pc1 by (auto simp: dx_reply_def cm_remove_def hand_over_def)
  obtain acts s' where a: "run (dmx_do serve) s2 acts = Some s'" "dc_reader s' = Ended"
      "set acts \<subseteq> {FailNext} \<union> range (\<lambda>c. Write c False)"
    using Cons.IH [OF fail_next_inv(1-3) [OF inv1 s2(1)] s2(2)] by blast
  have "run (dmx_do serve) s (?w @ FailNext # acts) = Some s'"
    using run1 s2(1) a(1) by (auto simp: dmx_do_def split: if_splits option.splits)
  with a show ?case by (intro exI [of _ "?w @ FailNext # acts"]) auto
qed


subsection \<open>What the connection promises\<close>

lemma returned_executed:
  assumes "reach (dmx_init clnt srv s0) (dmx_step serve) s" "dc_n s < 2 ^ 32 - 1"
    and "dc_pc s c = CDone r" "re_err r = None"
  shows "\<exists>t l1 l2 s1 s2.
     dc_log s = l1 @ (t, dc_req s c, re_rep r, re_ok r) # l2 \<and>
     exec_log serve clnt s0 l1 = Some s1 \<and> serve s1 clnt (dc_req s c) = Some (s2, re_rep r, re_ok r) \<and>
     exec_log serve clnt s2 l2 = Some (dc_srv s) \<and>
     (\<forall>c'. dc_tag s c' = Some t \<longleftrightarrow> c' = c) \<and> t \<notin> fst ` set (l1 @ l2) \<and> distinct (map fst (dc_log s))"
proof -
  have inv: "tag_inv s" "msg_inv s" "exec_log serve clnt s0 (dc_log s) = Some (dc_srv s)"
    using dmx.reach_inv [OF assms(1,2)] by (simp_all add: dmx_inv_def)
  obtain t where t: "dc_tag s c = Some t" and e: "(t, dc_req s c, re_rep r, re_ok r) \<in> set (dc_log s)"
    using msg_invD(8) [OF inv(2) assms(3,4)] by blast
  obtain l1 l2 where l: "dc_log s = l1 @ (t, dc_req s c, re_rep r, re_ok r) # l2" using split_list [OF e] by blast
  have d: "distinct (map fst (dc_log s))" using msg_invD(1) [OF inv(2)] by simp
  moreover have "t \<notin> fst ` set (l1 @ l2)" using d unfolding l by auto
  moreover have "dc_tag s c' = Some t \<longleftrightarrow> c' = c" for c' using tag_invD(4) [OF inv(1) _ t] t by blast
  ultimately show ?thesis using exec_log_split [OF inv(3) [unfolded l]] l by metis
qed

text \<open>
  \<^bold>\<open>C28\<close>: A call that returns without an error returns the reply to its own request. However calls, goroutines
  and failures interleave, the server has executed that request exactly once, the reply is what this execution
  returned, and the state of the server is what the executed requests give one after the other. A request whose call
  fails has been executed at most once.
\<close>

theorem demux_reply_matches:
  assumes "reach (dmx_init clnt srv s0) (dmx_step serve) s" "dc_n s < 2 ^ 32 - 1"
    and "dc_pc s c = CDone r" "re_err r = None"
  shows "\<exists>t l1 l2 s1 s2.
     dc_log s = l1 @ (t, dc_req s c, re_rep r, re_ok r) # l2 \<and>
     exec_log serve clnt s0 l1 = Some s1 \<and> serve s1 clnt (dc_req s c) = Some (s2, re_rep r, re_ok r) \<and>
     exec_log serve clnt s2 l2 = Some (dc_srv s) \<and>
     (\<forall>c'. dc_tag s c' = Some t \<longleftrightarrow> c' = c) \<and> t \<notin> fst ` set (l1 @ l2) \<and> distinct (map fst (dc_log s))"
  by (rule returned_executed [OF assms])

text \<open>
  The client never ends its process over a reply that no call waits for: \<open>reply\<close> always finds
  its call, for the replies read from the connection as for the calls that are failed when it breaks.
\<close>

theorem demux_never_fatal:
  assumes "reach (dmx_init clnt srv s0) (dmx_step serve) s" "dc_n s < 2 ^ 32 - 1"
  shows "dmx_act serve s a \<noteq> Some None"
  using dmx.reach_inv [OF assms] no_fatal by (auto simp: dmx_inv_def)

subsection \<open>A broken connection\<close>

text \<open>What a call gets that was outstanding when the reader failed.\<close>

definition lost_reply :: reply where
  "lost_reply = \<lparr>re_rep = [], re_ok = False, re_err = Some ReaderReplyFail\<rparr>"

text \<open>The steps that bring the failing reader to its end, and how many are left.\<close>

definition drains :: "dmxact \<Rightarrow> bool" where
  "drains a \<longleftrightarrow> a = FailNext \<or> (\<exists>c ok. a = Write c ok)"

definition writers :: "'s dmxconn \<Rightarrow> nat set" where
  "writers s = {c. \<exists>t. dc_pc s c = CWrite t}"

definition drain_left :: "'s dmxconn \<Rightarrow> nat" where
  "drain_left s = (case dc_reader s of Failing ts \<Rightarrow> Suc (length ts) | _ \<Rightarrow> 0) + card (writers s)"

lemma finite_writers: assumes "tag_inv s" shows "finite (writers s)"
proof (rule finite_subset)
  show "writers s \<subseteq> ran (calls_of s)"
    using tag_invD(6) [OF assms] by (auto simp: writers_def ran_def out_at_def)
  show "finite (ran (calls_of s))" by (intro finite_ran) (simp add: finite_subset [OF subset_UNIV])
qed

lemma writers_upd: "writers (s\<lparr>dc_pc := (dc_pc s)(c := pc)\<rparr>) = (if \<exists>t. pc = CWrite t then insert c (writers s) else writers s - {c})"
  by (auto simp: writers_def)

lemma writers_cong: "dc_pc s' = dc_pc s \<Longrightarrow> writers s' = writers s"
  by (simp add: writers_def)

text \<open>What an action does once the reader has failed.\<close>

definition broken_moves :: "'s dmxconn \<Rightarrow> dmxact \<Rightarrow> 's dmxconn \<Rightarrow> bool" where
  "broken_moves s a s' \<longleftrightarrow> dc_reader s' \<noteq> Reading
     \<and> (\<forall>c t. out_at s c t \<longrightarrow> out_at s' c t \<or> dc_pc s' c = CDone lost_reply)
     \<and> (\<forall>c r. dc_pc s c = CDone r \<longrightarrow> dc_pc s' c = CDone r)
     \<and> drain_left s' \<le> drain_left s \<and> (drains a \<longrightarrow> drain_left s' < drain_left s)"

lemma broken_idle:
  assumes "dc_pc s' = dc_pc s" "dc_reader s' = dc_reader s" "dc_reader s \<noteq> Reading" "\<not> drains a"
  shows "broken_moves s a s'"
  using assms writers_cong [OF assms(1)] by (simp add: broken_moves_def out_at_def drain_left_def)

lemma broken_write:
  assumes "tag_inv s" "dc_reader s \<noteq> Reading" "dmx_act serve s (Write c ok) = Some (Some s')"
  shows "broken_moves s (Write c ok) s'"
proof -
  from assms(3) obtain t where t: "dc_pc s c = CWrite t" and pc: "dc_pc s' = (dc_pc s)(c := CWait t)" and r: "dc_reader s' = dc_reader s"
    by (auto split: callpc.splits)
  have "writers s' = writers s - {c}" unfolding writers_def pc by auto
  moreover have "c \<in> writers s" using t by (simp add: writers_def)
  ultimately have "card (writers s') < card (writers s)" using finite_writers [OF assms(1)] by (metis card_Diff1_less)
  with assms(2) t pc r show ?thesis by (auto simp: broken_moves_def out_at_def drain_left_def)
qed

lemma broken_fail:
  assumes "dmx_act serve s FailNext = Some (Some s')"
  shows "broken_moves s FailNext s'"
proof (cases "dc_reader s")
  case (Failing ts)
  show ?thesis
  proof (cases ts)
    case Nil
    with Failing assms have "s' = s\<lparr>dc_reader := Ended\<rparr>" by simp
    with Failing Nil show ?thesis by (simp add: broken_moves_def out_at_def drain_left_def writers_def)
  next
    case (Cons t us)
    with Failing assms obtain ch u where pc: "dc_pc s ch = CWait u" "dc_pc s' = (dc_pc s)(ch := CDone lost_reply)"
      and r: "dc_reader s' = Failing us"
      by (auto simp: dx_reply_def hand_over_def lost_reply_def split: option.splits callpc.splits prod.splits)
    have "writers s' = writers s" unfolding writers_def pc(2) using pc(1) by auto
    with Failing Cons pc r show ?thesis by (auto simp: broken_moves_def out_at_def drain_left_def)
  qed
qed (use assms in simp_all)

lemma broken_issue:
  assumes "cm_closed (dx_callmap (dc_clnt s))" "dc_reader s \<noteq> Reading" "dmx_act serve s (Issue c b) = Some (Some s')"
  shows "broken_moves s (Issue c b) s'"
proof -
  from assms obtain r where n: "dc_pc s c = CNone" and pc: "dc_pc s' = (dc_pc s)(c := CDone r)" "dc_reader s' = dc_reader s"
    by (auto simp: SendReceive_def dx_tag_def cm_put_def split: if_splits)
  have "writers s' = writers s" unfolding writers_def pc(1) using n by auto
  with assms(2) n pc show ?thesis by (auto simp: broken_moves_def out_at_def drain_left_def drains_def)
qed

lemma broken_step:
  assumes inv: "tag_inv s" "reader_inv s" and r: "dc_reader s \<noteq> Reading" and act: "dmx_act serve s a = Some (Some s')"
  shows "broken_moves s a s'"
proof (cases a)
  case (Issue c b)
  have "cm_closed (dx_callmap (dc_clnt s))" using inv(2) r by (cases "dc_reader s") (auto simp: reader_inv_def)
  with r act show ?thesis unfolding Issue by (intro broken_issue)
next
  case (Write c ok)
  then show ?thesis using broken_write [OF inv(1) r] act by blast
next
  case FailNext
  then show ?thesis using broken_fail act by blast
next
  case (Serve i ok)
  with act have "dc_pc s' = dc_pc s" "dc_reader s' = dc_reader s" by (auto split: if_splits prod.splits option.splits)
  then show ?thesis using r Serve by (intro broken_idle) (simp_all add: drains_def)
qed (use r act in \<open>auto intro!: broken_idle simp: drains_def split: list.splits readerpc.splits\<close>)

lemma broken_reach:
  assumes "reach (dmx_init clnt srv s0) (dmx_step serve) s" "dc_reader s \<noteq> Reading" "reach s (dmx_step serve) s'" "dc_n s' < 2 ^ 32 - 1"
  shows "dc_reader s' \<noteq> Reading \<and> (\<forall>c t. out_at s c t \<longrightarrow> out_at s' c t \<or> dc_pc s' c = CDone lost_reply)"
  using assms(3,4)
proof (induction rule: reach.induct)
  case reach_init
  then show ?case using assms(2) by simp
next
  case (reach_step u t)
  then obtain a where a: "dmx_act serve u a = Some (Some t)" by (auto simp: dmx_step.simps)
  then have n: "dc_n u < 2 ^ 32 - 1" using reach_step dmx_act_n [OF a] by simp
  then have u: "dc_reader u \<noteq> Reading" "\<forall>c t. out_at s c t \<longrightarrow> out_at u c t \<or> dc_pc u c = CDone lost_reply"
    using reach_step by blast+
  have "tag_inv u" "reader_inv u"
    using dmx.reach_inv [OF reach_trans [OF reach_step(1) assms(1)] n] by (simp_all add: dmx_inv_def)
  from broken_step [OF this u(1) a] u(2) show ?case unfolding broken_moves_def by blast
qed

lemma drain_enabled:
  assumes "tag_inv s" "msg_inv s" "reader_inv s" "dc_reader s = Failing ts"
  shows "\<exists>a. drains a \<and> dmx_do serve s a \<noteq> None"
proof -
  obtain acts s' where acts: "run (dmx_do serve) s acts = Some s'" "dc_reader s' = Ended"
    "set acts \<subseteq> {FailNext} \<union> range (\<lambda>c. Write c False)" using failing_drains [OF assms] by blast
  with assms(4) obtain a as where "acts = a # as" by (cases acts) auto
  with acts have "dmx_do serve s a \<noteq> None" "drains a" by (auto simp: drains_def split: option.splits)
  then show ?thesis by blast
qed

text \<open>
  \<^bold>\<open>C30\<close>: When the connection breaks every call that is outstanding returns with an error. From the moment the
  reader has failed, whatever happens next, such a call is still outstanding or has returned the failure: no data, not ok, and
  the error of the failing reader. The reader does not get stuck: until it has ended, it or a call that has still to write has a
  step, and every such step leaves fewer of them, which no other step of the connection undoes. When it has ended all
  those calls have returned the failure and no call at all is waiting; a new call is refused with an error at once.
\<close>

theorem demux_failure_returns:
  assumes "reach (dmx_init clnt srv s0) (dmx_step serve) s" "dc_reader s \<noteq> Reading"
    and "reach s (dmx_step serve) s'" "dc_n s' < 2 ^ 32 - 1"
  shows "(\<forall>c t. out_at s c t \<longrightarrow> out_at s' c t \<or> dc_pc s' c = CDone lost_reply)
    \<and> (dc_reader s' \<noteq> Ended \<longrightarrow> (\<exists>a. drains a \<and> dmx_do serve s' a \<noteq> None))
    \<and> (\<forall>a s''. dmx_do serve s' a = Some s'' \<longrightarrow>
         drain_left s'' \<le> drain_left s' \<and> (drains a \<longrightarrow> drain_left s'' < drain_left s'))
    \<and> (dc_reader s' = Ended \<longrightarrow> (\<forall>c t. out_at s c t \<longrightarrow> dc_pc s' c = CDone lost_reply)
         \<and> (\<forall>c. dc_pc s' c = CNone \<or> (\<exists>r. dc_pc s' c = CDone r)))
    \<and> snd (SendReceive (dc_clnt s') c) = Inl ConnClosed"
proof -
  have inv: "tag_inv s'" "msg_inv s'" "reader_inv s'"
    using dmx.reach_inv [OF reach_trans [OF assms(3,1)] assms(4)] by (simp_all add: dmx_inv_def)
  note lost = broken_reach [OF assms]
  have closed: "cm_closed (dx_callmap (dc_clnt s'))" using inv(3) lost by (cases "dc_reader s'") (auto simp: reader_inv_def)
  have live: "\<exists>a. drains a \<and> dmx_do serve s' a \<noteq> None" if "dc_reader s' \<noteq> Ended"
    using that lost drain_enabled [OF inv] by (cases "dc_reader s'") auto
  have less: "drain_left s'' \<le> drain_left s' \<and> (drains a \<longrightarrow> drain_left s'' < drain_left s')"
    if "dmx_do serve s' a = Some s''" for a s''
    using that broken_step [OF inv(1,3), of serve a s''] lost by (auto simp: dmx_do_def broken_moves_def split: option.splits)
  have none: "\<not> out_at s' c t" if "dc_reader s' = Ended" for c t
    using inv(3) that tag_invD(6) [OF inv(1), of t c] by (auto simp: reader_inv_def)
  then have "dc_pc s' c = CNone \<or> (\<exists>r. dc_pc s' c = CDone r)" if "dc_reader s' = Ended" for c
    using that by (cases "dc_pc s' c") (auto simp: out_at_def)
  with none lost live less closed show ?thesis by (simp add: SendReceive_def dx_tag_def cm_put_def) blast
qed

text \<open>Instances: a server that counts its requests and echoes them.\<close>

definition echo :: "nat \<Rightarrow> string \<Rightarrow> bytes \<Rightarrow> (nat \<times> bytes \<times> bool) option" where
  "echo n clnt req = Some (Suc n, req @ [of_nat n], True)"

abbreviation crossed :: "dmxact list" where
  "crossed \<equiv> [Issue 0 [1], Issue 1 [2], Write 1 True, Write 0 True, SrvRead, SrvRead, Serve 1 True, Serve 0 True, ClntRead, ClntRead]"

abbreviation broken :: "dmxact list" where
  "broken \<equiv> [Issue 0 [1], Write 0 True, SrvRead, Serve 0 False, ReadErr [1]]"

lemma dmx_run_reach:
  "run (dmx_do serve) (dmx_init clnt srv s0) as = Some t \<Longrightarrow> reach (dmx_init clnt srv s0) (dmx_step serve) t"
  by (rule run_reach [OF reach.reach_init]) (auto intro: dmx_do_step)

lemma crossed_run:
  "\<exists>s. run (dmx_do echo) (dmx_init ''c'' ''s'' 0) crossed = Some s \<and> dc_n s = 2 \<and> dc_req s 0 = [1] \<and>
     dc_pc s 0 = CDone \<lparr>re_rep = [1, 0], re_ok = True, re_err = None\<rparr>"
  by (simp add: dmx_do_def dmx_init_def dx_new_def SendReceive_def dx_tag_def newCallMap_def cm_put_def echo_def
      dx_reply_def cm_remove_def hand_over_def)

lemma broken_run:
  "\<exists>s. run (dmx_do echo) (dmx_init ''c'' ''s'' 0) broken = Some s \<and> dc_n s = 1 \<and> dc_reader s = Failing [1] \<and> dc_pc s 0 = CWait 1 \<and>
     calls_of s 1 = Some 0"
  by (simp add: dmx_do_def dmx_init_def dx_new_def SendReceive_def dx_tag_def newCallMap_def cm_put_def echo_def
      dx_reply_def cm_remove_def hand_over_def cm_outstanding_def cm_close_def)

theorem demux_reply_matches_witness:
  "\<exists>s t l1 l2 s1. reach (dmx_init ''c'' ''s'' 0) (dmx_step echo) s \<and> dc_log s = l1 @ (t, [1], [1, 0], True) # l2 \<and>
     exec_log echo ''c'' 0 l1 = Some s1 \<and> t \<notin> fst ` set (l1 @ l2)"
proof -
  obtain s where s: "run (dmx_do echo) (dmx_init ''c'' ''s'' 0) crossed = Some s" "dc_n s = 2" "dc_req s 0 = [1]"
    "dc_pc s 0 = CDone \<lparr>re_rep = [1, 0], re_ok = True, re_err = None\<rparr>" using crossed_run by blast
  have "dc_n s < 2 ^ 32 - 1" using s(2) by simp
  from demux_reply_matches [OF dmx_run_reach [OF s(1)] this s(4)] obtain t l1 l2 s1 where
    "dc_log s = l1 @ (t, [1], [1, 0], True) # l2" "exec_log echo ''c'' 0 l1 = Some s1" "t \<notin> fst ` set (l1 @ l2)"
    by (auto simp: s(3))
  then show ?thesis using dmx_run_reach [OF s(1)] by blast
qed

theorem demux_never_fatal_witness:
  "\<exists>s. reach (dmx_init ''c'' ''s'' 0) (dmx_step echo) s \<and> dc_reader s = Failing [1] \<and> dmx_act echo s FailNext \<noteq> Some None"
proof -
  obtain s where s: "run (dmx_do echo) (dmx_init ''c'' ''s'' 0) broken = Some s" "dc_n s = 1" "dc_reader s = Failing [1]"
    using broken_run by blast
  have "dc_n s < 2 ^ 32 - 1" using s(2) by simp
  from demux_never_fatal [OF dmx_run_reach [OF s(1)] this] s(3) dmx_run_reach [OF s(1)] show ?thesis by blast
qed

theorem demux_failure_returns_witness:
  "\<exists>s s'. reach (dmx_init ''c'' ''s'' 0) (dmx_step echo) s \<and> dc_pc s 0 = CWait 1 \<and> reach s (dmx_step echo) s' \<and>
     dc_reader s' = Ended \<and> dc_pc s' 0 = CDone lost_reply"
proof -
  obtain s where s: "run (dmx_do echo) (dmx_init ''c'' ''s'' 0) broken = Some s" "dc_n s = 1" "dc_reader s = Failing [1]"
    "dc_pc s 0 = CWait 1" "calls_of s 1 = Some 0" using broken_run by blast
  then obtain s' where s': "run (dmx_do echo) s [FailNext, FailNext] = Some s'" "dc_reader s' = Ended" "dc_n s' = 1"
    by (simp add: dmx_do_def dx_reply_def cm_remove_def hand_over_def)
  have r: "reach s (dmx_step echo) s'"
    using s'(1) by (rule run_reach [OF reach.reach_init]) (auto intro: dmx_do_step)
  have "dc_reader s \<noteq> Reading" "dc_n s' < 2 ^ 32 - 1" using s(3) s'(3) by simp_all
  from demux_failure_returns [OF dmx_run_reach [OF s(1)] this(1) r this(2)] s'(2) s(4)
  have "dc_pc s' 0 = CDone lost_reply" by (auto simp: out_at_def)
  with dmx_run_reach [OF s(1)] s(4) r s'(2) show ?thesis by blast
qed

end
