(* ===== verification/SockRpc.thy ===== *)
theory SockRpc
  imports DemuxConn
begin

text \<open>
  Remote calls between the processes of a test, \<open>src/tester1/sockrpc\<close>, \<open>testclnt.go\<close>, \<open>testsrv.go\<close>, and the
  forwarding of calls in \<open>daemonsrv.go\<close>, \<open>daemonclnt.go\<close>.

  A process serves a \<open>labrpc\<close> server on a UNIX socket; each client has one connection, on which calls are
  multiplexed (\<open>DemuxConn\<close>). \<open>encA\<close>, \<open>decA\<close> encode the envelope \<open>RPCArgs\<close>, \<open>enc\<close>, \<open>dec\<close> the arguments and
  replies of the services. Connections are made by \<open>net.Dial\<close>, an argument.
\<close>

definition SockName :: "string \<Rightarrow> string" where
  "SockName endName = ''/tmp/6.5840-'' @ endName"

definition sockctl :: "string \<Rightarrow> string" where
  "sockctl sock = sock @ ''-ctl''"

subsection \<open>The client\<close>

record RPCArgs =
  ra_Method :: string
  ra_Args :: bytes

record RPCClnt =
  rc_clnt :: string
  rc_srvEnd :: string
  rc_dmx :: DemuxClnt

definition RPCClnt_Server :: "RPCClnt \<Rightarrow> string" where
  "RPCClnt_Server rpcc = rc_srvEnd rpcc"

definition RPCClnt_Close :: "RPCClnt \<Rightarrow> RPCClnt" where
  "RPCClnt_Close rpcc = rpcc\<lparr>rc_dmx := dx_Close (rc_dmx rpcc)\<rparr>"

text \<open>\<open>RPC\<close> before and after its \<open>SendReceive\<close>.\<close>

definition RPC_request :: "(RPCArgs \<Rightarrow> bytes option) \<Rightarrow> string \<Rightarrow> bytes \<Rightarrow> bytes option" where
  "RPC_request encA method args = Marshall encA \<lparr>ra_Method = method, ra_Args = args\<rparr>"

definition RPC_result :: "reply \<Rightarrow> bytes \<times> bool" where
  "RPC_result r = (if re_err r \<noteq> None then ([], False) else (re_rep r, re_ok r))"

text \<open>\<open>RPCMarshall\<close>: the decoded reply and true, or false; a reply that cannot be decoded is fatal.\<close>

definition RPCMarshall_request :: "(RPCArgs \<Rightarrow> bytes option) \<Rightarrow> ('v \<Rightarrow> bytes option) \<Rightarrow> string \<Rightarrow> 'v \<Rightarrow> bytes option" where
  "RPCMarshall_request encA enc method args = do {
     b \<leftarrow> Marshall enc args;
     RPC_request encA method b
   }"

definition RPCMarshall_result :: "(bytes \<Rightarrow> 'v option) \<Rightarrow> reply \<Rightarrow> 'v option option" where
  "RPCMarshall_result dec r =
     (case RPC_result r of (rep, ok) \<Rightarrow> if \<not> ok then Some None else map_option Some (Unmarshall dec rep))"

definition MAXRETRY :: nat where "MAXRETRY = 100"

text \<open>\<open>dial\<close>: \<open>dial_unix i\<close> is the outcome of the attempt \<open>i\<close>.\<close>

function dial_loop :: "(nat \<Rightarrow> 'err + 'conn) \<Rightarrow> nat \<Rightarrow> 'err option \<Rightarrow> 'err option + 'conn" where
  "dial_loop dial_unix i r =
     (if i < MAXRETRY then
        (case dial_unix i of Inr c \<Rightarrow> Inr c | Inl err \<Rightarrow> dial_loop dial_unix (i + 1) (Some err))
      else Inl r)"
  by pat_completeness auto
termination by (relation "measure (\<lambda>(d, i, r). MAXRETRY - i)") auto

declare dial_loop.simps [simp del]

definition dial :: "(string \<Rightarrow> nat \<Rightarrow> 'err + 'conn) \<Rightarrow> string \<Rightarrow> 'err option + 'conn" where
  "dial dial_unix srvEnd = dial_loop (dial_unix (SockName srvEnd)) 0 None"

text \<open>\<open>getDmx\<close>: without a connection the process ends. \<open>fate\<close> is how the first write on the connection ends.\<close>

definition getDmx ::
  "(string \<Rightarrow> bytes option) \<Rightarrow> (dmsg \<Rightarrow> bytes option) \<Rightarrow> (string \<Rightarrow> nat \<Rightarrow> 'err + nat option) \<Rightarrow> string \<Rightarrow> string \<Rightarrow>
     (DemuxClnt \<times> bytes) option" where
  "getDmx encI enc dial_unix clntEnd srvEnd =
     (case dial dial_unix srvEnd of
        Inl err \<Rightarrow> None
      | Inr fate \<Rightarrow> do {
          (stream, r) \<leftarrow> NewDemuxClnt encI enc fate [] clntEnd srvEnd;
          case r of Inl err \<Rightarrow> None | Inr dc \<Rightarrow> Some (dc, stream)
        })"

definition NewRPCClnt ::
  "(string \<Rightarrow> bytes option) \<Rightarrow> (dmsg \<Rightarrow> bytes option) \<Rightarrow> (string \<Rightarrow> nat \<Rightarrow> 'err + nat option) \<Rightarrow> string \<Rightarrow> string \<Rightarrow>
     (RPCClnt \<times> bytes) option" where
  "NewRPCClnt encI enc dial_unix clntEnd srvEnd = do {
     (dmx, stream) \<leftarrow> getDmx encI enc dial_unix clntEnd srvEnd;
     Some (\<lparr>rc_clnt = clntEnd, rc_srvEnd = srvEnd, rc_dmx = dmx\<rparr>, stream)
   }"

subsection \<open>The server\<close>

record ('o, 'v) RPCSrv =
  rpcs_sock :: string
  rpcs_srv :: "('o, 'v) Server"

definition NewRPCSrv :: "string \<Rightarrow> ('o, 'v) RPCSrv" where
  "NewRPCSrv sock = \<lparr>rpcs_sock = sock, rpcs_srv = MakeServer\<rparr>"

definition RPCSrv_Name :: "('o, 'v) RPCSrv \<Rightarrow> string" where
  "RPCSrv_Name rpcs = rpcs_sock rpcs"

definition RPCSrv_AddService :: "('o, 'v) RPCSrv \<Rightarrow> string \<Rightarrow> 'o \<Rightarrow> ('o, 'v) Method list \<Rightarrow> ('o, 'v) RPCSrv" where
  "RPCSrv_AddService rpcs typname svc typ = rpcs\<lparr>rpcs_srv := AddService (rpcs_srv rpcs) (MakeService typname svc typ)\<rparr>"

text \<open>What \<open>listen\<close> does with a connection it has accepted.\<close>

definition listen_accept ::
  "(bytes \<Rightarrow> string option) \<Rightarrow> (bytes \<Rightarrow> dmsg option) \<Rightarrow> ('o, 'v) RPCSrv \<Rightarrow> bytes \<Rightarrow> (DemuxSrv \<times> bytes) option" where
  "listen_accept decI dec rpcs stream = NewDemuxSrv decI dec (rpcs_sock rpcs) stream"

definition ServeRequest ::
  "(bytes \<Rightarrow> RPCArgs option) \<Rightarrow> ('v \<Rightarrow> bytes option) \<Rightarrow> (bytes \<Rightarrow> 'v option) \<Rightarrow> ('o, 'v) RPCSrv \<Rightarrow> string \<Rightarrow> bytes \<Rightarrow>
     (('o, 'v) RPCSrv \<times> bytes \<times> bool) option" where
  "ServeRequest decA enc dec rpcs clntEnd b = do {
     req \<leftarrow> Unmarshall decA b;
     (srv, rep, ok) \<leftarrow> Dispatch enc dec (rpcs_srv rpcs) (ra_Method req) clntEnd (ra_Args req);
     Some (rpcs\<lparr>rpcs_srv := srv\<rparr>, rep, ok)
   }"

subsection \<open>Forwarding between processes\<close>

text \<open>
  A process sends its calls to other servers to the tester (\<open>DaemonSrv.forward\<close>), which puts them into the simulated
  network (\<open>TesterRPC.Forward\<close>); the network hands a request for a server to the process that runs it
  (\<open>DaemonClnt.forward\<close>, installed with \<open>SetDispatch\<close>).
\<close>

record ForwardArgs =
  fw_Method :: string
  fw_End :: string
  fw_Args :: bytes
  fw_Id :: "64 word"

record ForwardReply =
  fw_Rep :: bytes
  fw_Ok :: bool

text \<open>\<open>DaemonSrv.forward\<close> around its \<open>RPCMarshall\<close>: the arguments and the new counter, and the result.\<close>

definition DaemonSrv_forward_request :: "64 word \<Rightarrow> string \<Rightarrow> string \<Rightarrow> bytes \<Rightarrow> 64 word \<times> ForwardArgs" where
  "DaemonSrv_forward_request fid end method b =
     (let fid = fid + 1 in (fid, \<lparr>fw_Method = method, fw_End = end, fw_Args = b, fw_Id = fid\<rparr>))"

definition DaemonSrv_forward_result :: "ForwardReply option \<Rightarrow> bytes \<times> bool" where
  "DaemonSrv_forward_result r = (case r of None \<Rightarrow> ([], False) | Some reply \<Rightarrow> (fw_Rep reply, fw_Ok reply))"

text \<open>\<open>TesterRPC.Forward\<close>: the request it puts into the network, and its reply. An unknown end dereferences nil.\<close>

definition Forward_request :: "'e \<Rightarrow> string \<Rightarrow> bytes \<Rightarrow> 'e reqMsg" where
  "Forward_request endname svcMeth args = \<lparr>rq_endname = endname, rq_svcMeth = svcMeth, rq_args = args\<rparr>"

definition TesterRPC_Forward_request :: "(string, 'n, 'o, 'v) Network \<Rightarrow> ForwardArgs \<Rightarrow> string reqMsg option" where
  "TesterRPC_Forward_request net args = do {
     end \<leftarrow> LookupEnd net (fw_End args);
     Some (Forward_request end (fw_Method args) (fw_Args args))
   }"

definition TesterRPC_Forward_reply :: "replyMsg \<Rightarrow> ForwardReply" where
  "TesterRPC_Forward_reply rep = (case Forward_result rep of (b, ok) \<Rightarrow> \<lparr>fw_Rep = b, fw_Ok = ok\<rparr>)"


text \<open>
  Forwarding is transparent: the network gets the request of the calling process under the name of its end, and
  the process gets what the network answered.
\<close>

lemma forward_transparent:
  assumes "LookupEnd net end = Some end"
  shows "TesterRPC_Forward_request net (snd (DaemonSrv_forward_request fid end method b)) =
      Some \<lparr>rq_endname = end, rq_svcMeth = method, rq_args = b\<rparr>"
    and "DaemonSrv_forward_result (Some (TesterRPC_Forward_reply rep)) = Forward_result rep"
  using assms
  by (simp_all add: TesterRPC_Forward_request_def Forward_request_def DaemonSrv_forward_request_def
      DaemonSrv_forward_result_def TesterRPC_Forward_reply_def Let_def split: prod.splits)

text \<open>
  \<open>Call\<close> on an end with a call function, as the ends of a process have after \<open>SetCall(ds.forward)\<close>: true with
  the decoded reply, or false; \<^term>\<open>None\<close> where encoding or decoding panics.
\<close>

definition Call_callf ::
  "('v \<Rightarrow> bytes option) \<Rightarrow> (bytes \<Rightarrow> 'v option) \<Rightarrow> (string \<Rightarrow> string \<Rightarrow> bytes \<Rightarrow> bytes \<times> bool) \<Rightarrow> string \<Rightarrow> string \<Rightarrow> 'v \<Rightarrow>
     'v option option" where
  "Call_callf enc dec callf endname svcMeth args = do {
     b \<leftarrow> Marshall enc args;
     let (rep, ok) = callf endname svcMeth b;
     if \<not> ok then Some None
     else do { reply \<leftarrow> Unmarshall dec rep; Some (Some reply) }
   }"

text \<open>
  A server process calls its peers as if its end were in the simulated network itself: the call ends as one in the
  network does on the same answer, and is false when the tester cannot be reached.
\<close>

lemma forwarded_call:
  assumes "Marshall enc args = Some b"
  shows "Call_callf enc dec (\<lambda>_ _ _. DaemonSrv_forward_result (Some (TesterRPC_Forward_reply rep))) e m args = Call_result dec rep"
    and "Call_callf enc dec (\<lambda>_ _ _. DaemonSrv_forward_result None) e m args = Some None"
  using assms
  by (auto simp: Call_callf_def DaemonSrv_forward_result_def TesterRPC_Forward_reply_def Forward_result_def Call_result_def
      split: Option.bind_split)

subsection \<open>Connecting\<close>

text \<open>\<open>dial\<close> gives up after \<open>MAXRETRY\<close> attempts and not before.\<close>

lemma dial_loop_finds:
  assumes "i \<le> k" "k < MAXRETRY" "dial_unix k = Inr conn" "\<And>j. i \<le> j \<Longrightarrow> j < k \<Longrightarrow> \<exists>err. dial_unix j = Inl err"
  shows "dial_loop dial_unix i r = Inr conn"
  using assms
proof (induction "k - i" arbitrary: i r)
  case 0
  then show ?case by (subst dial_loop.simps) simp
next
  case (Suc n)
  have "i < k" using Suc.hyps(2) by linarith
  with Suc.prems(4) obtain err where e: "dial_unix i = Inl err" by blast
  have "dial_loop dial_unix (i + 1) (Some err) = Inr conn" using Suc.hyps(2) Suc.prems by (intro Suc.hyps(1)) auto
  with e Suc.prems(1,2) show ?case by (subst dial_loop.simps) simp
qed

lemma dial_loop_gives_up:
  assumes "\<And>j. i \<le> j \<Longrightarrow> j < MAXRETRY \<Longrightarrow> \<exists>err. dial_unix j = Inl err"
  shows "\<exists>r'. dial_loop dial_unix i r = Inl r'"
  using assms
proof (induction "MAXRETRY - i" arbitrary: i r)
  case 0
  then show ?case by (subst dial_loop.simps) simp
next
  case (Suc n)
  have "i < MAXRETRY" using Suc.hyps(2) by linarith
  with Suc.prems obtain err where e: "dial_unix i = Inl err" by blast
  have "\<exists>r'. dial_loop dial_unix (i + 1) (Some err) = Inl r'" using Suc.hyps(2) Suc.prems by (intro Suc.hyps(1)) auto
  with e Suc.hyps(2) show ?case by (subst dial_loop.simps) simp
qed

text \<open>
  A client that finds the server within the attempts ends up with a connection whose two ends agree on its name
  and on where the calls begin.
\<close>

lemma client_connects:
  assumes "k < MAXRETRY" "dial_unix (SockName srvEnd) k = Inr None" "\<And>j. j < k \<Longrightarrow> \<exists>err. dial_unix (SockName srvEnd) j = Inl err"
    and "encI clnt = Some b" "decI b = Some clnt" "codec_ok enc dec \<lparr>dm_Tag = 0, dm_Data = b, dm_Ok = True\<rparr>"
  shows "\<exists>stream. NewRPCClnt encI enc dial_unix clnt srvEnd =
      Some (\<lparr>rc_clnt = clnt, rc_srvEnd = srvEnd, rc_dmx = snd (dx_tag (dx_new clnt srvEnd))\<rparr>, stream) \<and>
    listen_accept decI dec rpcs (stream @ rest) = Some (\<lparr>ds_closed = False, ds_srvEnd = rpcs_sock rpcs, ds_clntEnd = clnt\<rparr>, rest)"
proof -
  have "dial dial_unix srvEnd = Inr None" 
    unfolding dial_def by (rule dial_loop_finds [of 0 k]) (use assms(1-3) in auto)
  with handshake [where encI = encI and decI = decI and clnt = clnt and srv = srvEnd and srvEnd = "rpcs_sock rpcs" and rest = rest,
      OF assms(4-6)] show ?thesis
    by (auto simp: NewRPCClnt_def getDmx_def listen_accept_def)
qed

subsection \<open>A call runs its method once\<close>

lemma Dispatch_plain:
  assumes "Dispatch enc dec rs (sname @ CHR ''.'' # mname) clnt args = Some (rs', rep, ok)" "CHR ''.'' \<notin> set mname"
    "sv_dispatchf rs = None"
  obtains svc m v rcvr w where "sv_services rs sname = Some svc" "svc_methods svc mname = Some m" "dec args = Some v"
    "mt_Func m v (svc_rcvr svc) = (rcvr, w)" "enc w = Some rep" "ok"
    "sv_services rs' = (sv_services rs)(sname \<mapsto> svc\<lparr>svc_rcvr := rcvr\<rparr>)"
proof -
  let ?r = "\<lparr>rq_endname = clnt, rq_svcMeth = sname @ CHR ''.'' # mname, rq_args = args\<rparr>"
  have d: "last_index (CHR ''.'') (sname @ CHR ''.'' # mname) = int (length sname)" using last_index_append [OF assms(2)] .
  have g: "go_upto (sname @ CHR ''.'' # mname) (int (length sname)) = Some sname"
    "go_from (sname @ CHR ''.'' # mname) (int (length sname) + 1) = Some mname"
    by (simp_all add: go_upto_def go_from_def nat_add_distrib)
  obtain svc svc' where s: "sv_services rs sname = Some svc"
    "Service_dispatch enc dec svc mname ?r = Some (svc', \<lparr>rp_ok = ok, rp_reply = rep\<rparr>)"
    "sv_services rs' = (sv_services rs)(sname \<mapsto> svc')"
    using assms(1,3) by (force simp: Dispatch_def Server_dispatch_def d g bind_eq_Some_conv Let_def split: option.splits)
  obtain m v where m: "svc_methods svc mname = Some m" "dec args = Some v"
    using s(2) by (auto simp: Service_dispatch_def Unmarshall_def bind_eq_Some_conv split: option.splits)
  obtain rcvr w where f: "mt_Func m v (svc_rcvr svc) = (rcvr, w)" by (cases "mt_Func m v (svc_rcvr svc)")
  show thesis using that [OF s(1) m f] s(2,3) m f by (auto simp: Service_dispatch_def Unmarshall_def bind_eq_Some_conv)
qed

lemma Dispatch_dispatchf: "Dispatch enc dec rs meth clnt args = Some (rs', rep, ok) \<Longrightarrow> sv_dispatchf rs' = sv_dispatchf rs"
  by (auto simp: Dispatch_def Server_dispatch_def bind_eq_Some_conv Let_def case_prod_unfold split: option.splits)

lemma exec_log_dispatchf:
  assumes "exec_log (ServeRequest decA enc dec) clnt rpcs l = Some rpcs'"
  shows "sv_dispatchf (rpcs_srv rpcs') = sv_dispatchf (rpcs_srv rpcs)"
  using assms
proof (induction l arbitrary: rpcs)
  case (Cons e l)
  obtain t req rep ok where e: "e = (t, req, rep, ok)" by (cases e)
  from Cons.prems obtain rpcs1 where 1: "ServeRequest decA enc dec rpcs clnt req = Some (rpcs1, rep, ok)"
    "exec_log (ServeRequest decA enc dec) clnt rpcs1 l = Some rpcs'"
    by (auto simp: e split: option.splits if_splits prod.splits)
  have "sv_dispatchf (rpcs_srv rpcs1) = sv_dispatchf (rpcs_srv rpcs)"
    using 1(1) Dispatch_dispatchf by (auto simp: ServeRequest_def bind_eq_Some_conv)
  with Cons.IH [OF 1(2)] show ?case by simp
qed simp

text \<open>
  \<^bold>\<open>C29\<close>: A remote call over a socket that returns true has run its method exactly once, on the value the
  caller passed, and returns the value the method returned, whatever other calls share the connection and
  whatever fails. \<open>encA\<close>, \<open>decA\<close> and \<open>enc\<close>, \<open>dec\<close> are \<open>labgob\<close>'s encodings, which read back what they wrote.
\<close>

theorem sock_rpc_executes_once:
  assumes "reach (dmx_init clnt srv rpcs0) (dmx_step (ServeRequest decA enc dec)) s" "dc_n s < 2 ^ 32 - 1"
    and "sv_dispatchf (rpcs_srv rpcs0) = None"
    and encA: "\<forall>x b. encA x = Some b \<longrightarrow> decA b = Some x" and enc: "\<forall>v b. enc v = Some b \<longrightarrow> dec b = Some v"
    and "RPCMarshall_request encA enc (sname @ CHR ''.'' # mname) v = Some (dc_req s c)" "CHR ''.'' \<notin> set mname"
    and "dc_pc s c = CDone r" "RPCMarshall_result dec r = Some (Some w)"
  shows "\<exists>t l1 l2 rpcs1 rpcs2 svc m rcvr.
     dc_log s = l1 @ (t, dc_req s c, re_rep r, True) # l2 \<and> t \<notin> fst ` set (l1 @ l2) \<and>
     exec_log (ServeRequest decA enc dec) clnt rpcs0 l1 = Some rpcs1 \<and>
     sv_services (rpcs_srv rpcs1) sname = Some svc \<and> svc_methods svc mname = Some m \<and>
     mt_Func m v (svc_rcvr svc) = (rcvr, w) \<and>
     sv_services (rpcs_srv rpcs2) = (sv_services (rpcs_srv rpcs1))(sname \<mapsto> svc\<lparr>svc_rcvr := rcvr\<rparr>) \<and>
     exec_log (ServeRequest decA enc dec) clnt rpcs2 l2 = Some (dc_srv s)"
proof -
  have r: "re_err r = None" "re_ok r" "dec (re_rep r) = Some w"
    using assms(9) by (auto simp: RPCMarshall_result_def RPC_result_def Unmarshall_def split: if_splits)
  obtain t l1 l2 rpcs1 rpcs2 where l: "dc_log s = l1 @ (t, dc_req s c, re_rep r, True) # l2" "t \<notin> fst ` set (l1 @ l2)"
    "exec_log (ServeRequest decA enc dec) clnt rpcs0 l1 = Some rpcs1"
    "ServeRequest decA enc dec rpcs1 clnt (dc_req s c) = Some (rpcs2, re_rep r, True)"
    "exec_log (ServeRequest decA enc dec) clnt rpcs2 l2 = Some (dc_srv s)"
    using returned_executed [OF assms(1,2,8) r(1)] r(2) by auto
  obtain a where a: "enc v = Some a" "encA \<lparr>ra_Method = sname @ CHR ''.'' # mname, ra_Args = a\<rparr> = Some (dc_req s c)"
    using assms(6) by (auto simp: RPCMarshall_request_def RPC_request_def Marshall_def bind_eq_Some_conv)
  obtain srv where d: "Dispatch enc dec (rpcs_srv rpcs1) (sname @ CHR ''.'' # mname) clnt a = Some (srv, re_rep r, True)"
    "rpcs2 = rpcs1\<lparr>rpcs_srv := srv\<rparr>"
    using l(4) encA [rule_format, OF a(2)] by (auto simp: ServeRequest_def Unmarshall_def bind_eq_Some_conv)
  have "sv_dispatchf (rpcs_srv rpcs1) = None" using exec_log_dispatchf [OF l(3)] assms(3) by simp
  from Dispatch_plain [OF d(1) assms(7) this] obtain svc m v' rcvr w' where m:
    "sv_services (rpcs_srv rpcs1) sname = Some svc" "svc_methods svc mname = Some m" "dec a = Some v'"
    "mt_Func m v' (svc_rcvr svc) = (rcvr, w')" "enc w' = Some (re_rep r)"
    "sv_services srv = (sv_services (rpcs_srv rpcs1))(sname \<mapsto> svc\<lparr>svc_rcvr := rcvr\<rparr>)" by metis
  have "v' = v" "w' = w" using enc [rule_format, OF a(1)] m(3) enc [rule_format, OF m(5)] r(3) by simp_all
  with l(1-3,5) m(1,2,4,6) d(2) show ?thesis by (intro exI [of _ t] exI [of _ l1] exI [of _ l2] exI [of _ rpcs1]
        exI [of _ rpcs2] exI [of _ svc] exI [of _ m] exI [of _ rcvr]) simp
qed


text \<open>An envelope for calls of the counter service, and a run in which two calls cross.\<close>

definition add_encA :: "RPCArgs \<Rightarrow> bytes option" where
  "add_encA x = (if ra_Method x = ''Counter.Add'' then Some (7 # ra_Args x) else None)"

definition add_decA :: "bytes \<Rightarrow> RPCArgs option" where
  "add_decA b = (case b of [] \<Rightarrow> None | _ # a \<Rightarrow> Some \<lparr>ra_Method = ''Counter.Add'', ra_Args = a\<rparr>)"

definition counter_rpcs :: "(8 word, 8 word) RPCSrv" where
  "counter_rpcs = RPCSrv_AddService (NewRPCSrv ''s'') ''Counter'' 5 [add_method]"

lemma counter_serves:
  "ServeRequest add_decA one_byte get_byte \<lparr>rpcs_sock = ''s'', rpcs_srv =
       \<lparr>sv_services = [''Counter'' \<mapsto> \<lparr>svc_name = ''Counter'', svc_rcvr = x, svc_methods = [''Add'' \<mapsto> add_method]\<rparr>],
        sv_count = k, sv_dispatchf = None\<rparr>\<rparr> clnt [7, v] =
   Some (\<lparr>rpcs_sock = ''s'', rpcs_srv =
       \<lparr>sv_services = [''Counter'' \<mapsto> \<lparr>svc_name = ''Counter'', svc_rcvr = x + v, svc_methods = [''Add'' \<mapsto> add_method]\<rparr>],
        sv_count = k + 1, sv_dispatchf = None\<rparr>\<rparr>, [x + v], True)"
  by (simp add: ServeRequest_def Dispatch_def Server_dispatch_def Service_dispatch_def Unmarshall_def go_upto_def go_from_def
      add_decA_def add_method_def get_byte_def one_byte_def)

lemma counter_rpcs_start:
  "counter_rpcs = \<lparr>rpcs_sock = ''s'', rpcs_srv =
       \<lparr>sv_services = [''Counter'' \<mapsto> \<lparr>svc_name = ''Counter'', svc_rcvr = 5, svc_methods = [''Add'' \<mapsto> add_method]\<rparr>],
        sv_count = 0, sv_dispatchf = None\<rparr>\<rparr>"
  by (simp add: counter_rpcs_def RPCSrv_AddService_def NewRPCSrv_def AddService_def MakeServer_def MakeService_def handler_like_def
      add_method_def)

lemma counter_sock_run:
  "\<exists>s. run (dmx_do (ServeRequest add_decA one_byte get_byte)) (dmx_init ''c'' ''s'' counter_rpcs)
     [Issue 0 [7, 3], Issue 1 [7, 4], Write 1 True, Write 0 True, SrvRead, SrvRead, Serve 1 True, Serve 0 True, ClntRead, ClntRead] = Some s \<and>
     dc_n s = 2 \<and> dc_req s 1 = [7, 4] \<and> dc_pc s 1 = CDone \<lparr>re_rep = [12], re_ok = True, re_err = None\<rparr>"
  by (simp add: dmx_do_def dmx_init_def dx_new_def SendReceive_def dx_tag_def newCallMap_def cm_put_def counter_rpcs_start counter_serves
      dx_reply_def cm_remove_def hand_over_def)

theorem sock_rpc_executes_once_witness:
  "\<exists>s t l1 l2 rpcs1 svc m rcvr. reach (dmx_init ''c'' ''s'' counter_rpcs) (dmx_step (ServeRequest add_decA one_byte get_byte)) s \<and>
     dc_log s = l1 @ (t, [7, 4], [12], True) # l2 \<and> t \<notin> fst ` set (l1 @ l2) \<and>
     exec_log (ServeRequest add_decA one_byte get_byte) ''c'' counter_rpcs l1 = Some rpcs1 \<and>
     sv_services (rpcs_srv rpcs1) ''Counter'' = Some svc \<and> svc_methods svc ''Add'' = Some m \<and>
     mt_Func m 4 (svc_rcvr svc) = (rcvr, 12)"
proof -
  obtain s where s: "run (dmx_do (ServeRequest add_decA one_byte get_byte)) (dmx_init ''c'' ''s'' counter_rpcs)
     [Issue 0 [7, 3], Issue 1 [7, 4], Write 1 True, Write 0 True, SrvRead, SrvRead, Serve 1 True, Serve 0 True, ClntRead, ClntRead] = Some s"
    "dc_n s = 2" "dc_req s 1 = [7, 4]" "dc_pc s 1 = CDone \<lparr>re_rep = [12], re_ok = True, re_err = None\<rparr>"
    using counter_sock_run by blast
  have n: "dc_n s < 2 ^ 32 - 1" using s(2) by simp
  have d: "sv_dispatchf (rpcs_srv counter_rpcs) = None" by (simp add: counter_rpcs_start)
  have A: "\<forall>x b. add_encA x = Some b \<longrightarrow> add_decA b = Some x" by (auto simp: add_encA_def add_decA_def split: if_splits)
  have V: "\<forall>v b. one_byte v = Some b \<longrightarrow> get_byte b = Some v" by (auto simp: one_byte_def get_byte_def)
  have q: "RPCMarshall_request add_encA one_byte (''Counter'' @ CHR ''.'' # ''Add'') 4 = Some (dc_req s 1)"
    unfolding s(3) by (simp add: RPCMarshall_request_def RPC_request_def Marshall_def one_byte_def add_encA_def)
  have w: "RPCMarshall_result get_byte \<lparr>re_rep = [12], re_ok = True, re_err = None\<rparr> = Some (Some 12)"
    by (simp add: RPCMarshall_result_def RPC_result_def Unmarshall_def get_byte_def)
  have "CHR ''.'' \<notin> set ''Add''" by simp
  from sock_rpc_executes_once [OF dmx_run_reach [OF s(1)] n d A V q this s(4) w] s(3)
    dmx_run_reach [OF s(1)]
  show ?thesis by (simp only: reply.simps) blast
qed

end
