(* ===== verification/LabGob.thy ===== *)
theory LabGob
  imports Prelude
begin

text \<open>
  The wrapper around \<open>encoding/gob\<close>, \<open>src/labgob/labgob.go\<close>, which warns about types and values that \<open>gob\<close> does
  not transfer as their owner expects.

  \<open>reflect.Type\<close> is an index into a table of types, so that a type may refer to itself; \<open>reflect.Value\<close> is a tree.
  \<open>gob\<close> itself is an argument. A panic is \<^term>\<open>None\<close>. The functions run one after the other, as they do under
  the locks of the package when no two goroutines meet a new type at the same time.
\<close>

subsection \<open>Types and values\<close>

datatype gokind =
    GStruct "(string \<times> nat) list"  \<comment> \<open>the fields: name and type\<close>
  | GSlice nat | GArray nat | GPtr nat
  | GMap nat nat  \<comment> \<open>key and element\<close>
  | GOther

type_synonym gotypes = "gokind list"

definition Kind :: "gotypes \<Rightarrow> nat \<Rightarrow> gokind" where
  "Kind env t = (if t < length env then env ! t else GOther)"

text \<open>
  Scalars, structs and pointers; slices, maps, interfaces and the rest are \<open>VOther\<close>. A field has a name and says
  whether it is embedded. Of a float only matters whether it equals 0.
\<close>

datatype goval =
    VBool bool | VInt int | VUint nat | VFloat bool | VString string
  | VStruct "(string \<times> bool \<times> goval) list"
  | VPtr "goval option"
  | VOther

text \<open>
  \<open>unicode.IsUpper\<close> of the first rune: on ASCII its definition, on the other runes an argument.
\<close>

definition first_upper :: "(string \<Rightarrow> bool) \<Rightarrow> string \<Rightarrow> bool" where
  "first_upper up name =
     (case name of [] \<Rightarrow> False
      | c # _ \<Rightarrow> let n = (of_char c :: nat) in if n < 128 then 65 \<le> n \<and> n \<le> 90 else up name)"

text \<open>The package's variables, and what it has printed.\<close>

datatype warning = LowerCase string nat | NonDefault string

record labgob =
  lg_errorCount :: int
  lg_checked :: "nat set"
  lg_printed :: "warning list"

definition labgob_init :: labgob where
  "labgob_init = \<lparr>lg_errorCount = 0, lg_checked = {}, lg_printed = []\<rparr>"

subsection \<open>Checking types\<close>

text \<open>
  The calls that \<open>checkType\<close> makes for a type, in order: those of the fields of a struct come with the test of the
  name.
\<close>

datatype tcall = FieldOf nat string nat | Elem nat

fun tcall_type :: "tcall \<Rightarrow> nat" where
  "tcall_type (FieldOf t f u) = u"
| "tcall_type (Elem u) = u"

definition tcalls :: "gotypes \<Rightarrow> nat \<Rightarrow> tcall list" where
  "tcalls env t =
     (case Kind env t of
        GStruct fs \<Rightarrow> map (\<lambda>(f, u). FieldOf t f u) fs
      | GSlice u \<Rightarrow> [Elem u] | GArray u \<Rightarrow> [Elem u] | GPtr u \<Rightarrow> [Elem u]
      | GMap k u \<Rightarrow> [Elem u, Elem k]
      | GOther \<Rightarrow> [])"

fun complain :: "(string \<Rightarrow> bool) \<Rightarrow> tcall \<Rightarrow> labgob \<Rightarrow> labgob" where
  "complain up (FieldOf t f u) st =
     (if first_upper up f = False then
        st\<lparr>lg_errorCount := lg_errorCount st + 1, lg_printed := lg_printed st @ [LowerCase f t]\<rparr>
      else st)"
| "complain up (Elem u) st = st"

lemma complain_checked [simp]: "lg_checked (complain up c st) = lg_checked st"
  by (cases c) auto

lemma tcalls_outside: "length env \<le> t \<Longrightarrow> tcalls env t = []"
  by (simp add: tcalls_def Kind_def)

text \<open>\<open>checkType\<close> on a list of calls; it is nested as the code is.\<close>

function check_calls :: "(string \<Rightarrow> bool) \<Rightarrow> gotypes \<Rightarrow> tcall list \<Rightarrow> labgob \<Rightarrow> labgob" where
  "check_calls up env [] st = st"
| "check_calls up env (c # cs) st =
     (let st = complain up c st; t = tcall_type c
      in if t \<in> lg_checked st then check_calls up env cs st
         else check_calls up env cs (check_calls up env (tcalls env t) (st\<lparr>lg_checked := insert t (lg_checked st)\<rparr>)))"
  by pat_completeness auto

termination
proof (relation "inv_image (finite_psubset <*lex*> less_than) (\<lambda>(up, env, cs, st). ({..<length env} - lg_checked st, length cs))",
    goal_cases)
  case (3 up env c cs st st' t)
  then show ?case by (cases "t < length env") (auto simp: finite_psubset_def tcalls_outside)
next
  case (4 up env c cs st st' t)
  have "check_calls_dom (up, env, cs, st) \<Longrightarrow> lg_checked st \<subseteq> lg_checked (check_calls up env cs st)" for up env cs st
    by (induction up env cs st rule: check_calls.pinduct) (fastforce simp: check_calls.psimps Let_def)+
  from this [OF 4(4)] 4 show ?case by (auto simp: finite_psubset_def)
qed auto

definition checkType :: "(string \<Rightarrow> bool) \<Rightarrow> gotypes \<Rightarrow> nat \<Rightarrow> labgob \<Rightarrow> labgob" where
  "checkType up env t st = check_calls up env [Elem t] st"

text \<open>\<open>checkValue\<close>: \<open>reflect.TypeOf(nil)\<close> is nil, whose \<open>Kind\<close> panics.\<close>

definition checkValue :: "(string \<Rightarrow> bool) \<Rightarrow> gotypes \<Rightarrow> (nat \<times> goval) option \<Rightarrow> labgob \<Rightarrow> labgob option" where
  "checkValue up env value st = map_option (\<lambda>(t, v). checkType up env t st) value"

subsection \<open>Checking values\<close>

definition is_zero :: "goval \<Rightarrow> bool" where
  "is_zero v = (case v of VBool b \<Rightarrow> \<not> b | VInt i \<Rightarrow> i = 0 | VUint n \<Rightarrow> n = 0 | VFloat z \<Rightarrow> z | VString s \<Rightarrow> s = [] | _ \<Rightarrow> True)"

text \<open>
  What \<open>reflect\<close> remembers of a value reached through unexported fields: \<open>Interface\<close> panics on it. An embedded
  unexported field hides itself only, any other one hides what is below it too.
\<close>

record rflag =
  rf_sticky :: bool
  rf_embed :: bool

definition field_flag :: "(string \<Rightarrow> bool) \<Rightarrow> rflag \<Rightarrow> string \<Rightarrow> bool \<Rightarrow> rflag" where
  "field_flag up fl f embedded =
     (let fl = \<lparr>rf_sticky = rf_sticky fl, rf_embed = False\<rparr>
      in if first_upper up f then fl else if embedded then fl\<lparr>rf_embed := True\<rparr> else fl\<lparr>rf_sticky := True\<rparr>)"

definition sub_name :: "string \<Rightarrow> string \<Rightarrow> string" where
  "sub_name name f = (if name \<noteq> [] then name @ ''.'' @ f else f)"

text \<open>\<open>what\<close> for a value without a path is the name of its type, here empty.\<close>

definition default_scalar :: "goval \<Rightarrow> string \<Rightarrow> labgob \<Rightarrow> labgob" where
  "default_scalar v name st =
     (if is_zero v = False then
        (let st = (if lg_errorCount st < 1 then st\<lparr>lg_printed := lg_printed st @ [NonDefault name]\<rparr> else st)
         in st\<lparr>lg_errorCount := lg_errorCount st + 1\<rparr>)
      else st)"

function checkDefault1 :: "(string \<Rightarrow> bool) \<Rightarrow> goval \<Rightarrow> rflag \<Rightarrow> nat \<Rightarrow> string \<Rightarrow> labgob \<Rightarrow> labgob option"
  and checkDefault_fields :: "(string \<Rightarrow> bool) \<Rightarrow> (string \<times> bool \<times> goval) list \<Rightarrow> rflag \<Rightarrow> nat \<Rightarrow> string \<Rightarrow> labgob \<Rightarrow> labgob option" where
  "checkDefault1 up v fl depth name st =
     (if depth > 3 then Some st
      else case v of
        VStruct fs \<Rightarrow> checkDefault_fields up fs fl depth name st
      | VPtr None \<Rightarrow> Some st
      | VPtr (Some w) \<Rightarrow> checkDefault1 up w fl (depth + 1) name st
      | VOther \<Rightarrow> Some st
      | _ \<Rightarrow> if rf_sticky fl \<or> rf_embed fl then None else Some (default_scalar v name st))"
| "checkDefault_fields up [] fl depth name st = Some st"
| "checkDefault_fields up ((f, embedded, v) # fs) fl depth name st = do {
     st \<leftarrow> checkDefault1 up v (field_flag up fl f embedded) (depth + 1) (sub_name name f) st;
     checkDefault_fields up fs fl depth name st
   }"
  by pat_completeness auto
termination
  by (relation "measure (\<lambda>x. case x of Inl (up, v, fl, d, n, st) \<Rightarrow> size v | Inr (up, fs, fl, d, n, st) \<Rightarrow> size_list (\<lambda>(f, e, v). size v) fs)")
    (auto simp: less_Suc_eq_le intro!: size_list_pointwise)

definition checkDefault :: "(string \<Rightarrow> bool) \<Rightarrow> (nat \<times> goval) option \<Rightarrow> labgob \<Rightarrow> labgob option" where
  "checkDefault up value st =
     (case value of None \<Rightarrow> Some st
      | Some (t, v) \<Rightarrow> checkDefault1 up v \<lparr>rf_sticky = False, rf_embed = False\<rparr> 1 [] st)"

subsection \<open>Encoding and decoding\<close>

text \<open>\<open>gob\<close> is an argument: what it makes of a value, and of its input and the variable it decodes into.\<close>

definition Encode ::
  "(string \<Rightarrow> bool) \<Rightarrow> gotypes \<Rightarrow> ((nat \<times> goval) option \<Rightarrow> 'r) \<Rightarrow> (nat \<times> goval) option \<Rightarrow> labgob \<Rightarrow> (labgob \<times> 'r) option" where
  "Encode up env gob e st = do {
     st \<leftarrow> checkValue up env e st;
     Some (st, gob e)
   }"

definition EncodeValue ::
  "(string \<Rightarrow> bool) \<Rightarrow> gotypes \<Rightarrow> ((nat \<times> goval) option \<Rightarrow> 'r) \<Rightarrow> (nat \<times> goval) option \<Rightarrow> labgob \<Rightarrow> (labgob \<times> 'r) option" where
  "EncodeValue up env gob value st = do {
     st \<leftarrow> checkValue up env value st;
     Some (st, gob value)
   }"

definition Decode ::
  "(string \<Rightarrow> bool) \<Rightarrow> gotypes \<Rightarrow> ((nat \<times> goval) option \<Rightarrow> 'r) \<Rightarrow> (nat \<times> goval) option \<Rightarrow> labgob \<Rightarrow> (labgob \<times> 'r) option" where
  "Decode up env gob e st = do {
     st \<leftarrow> checkValue up env e st;
     st \<leftarrow> checkDefault up e st;
     Some (st, gob e)
   }"

definition Register ::
  "(string \<Rightarrow> bool) \<Rightarrow> gotypes \<Rightarrow> ((nat \<times> goval) option \<Rightarrow> 'r) \<Rightarrow> (nat \<times> goval) option \<Rightarrow> labgob \<Rightarrow> (labgob \<times> 'r) option" where
  "Register up env gob value st = do {
     st \<leftarrow> checkValue up env value st;
     Some (st, gob value)
   }"

definition RegisterName ::
  "(string \<Rightarrow> bool) \<Rightarrow> gotypes \<Rightarrow> (string \<Rightarrow> (nat \<times> goval) option \<Rightarrow> 'r) \<Rightarrow> string \<Rightarrow> (nat \<times> goval) option \<Rightarrow> labgob \<Rightarrow>
     (labgob \<times> 'r) option" where
  "RegisterName up env gob name value st = do {
     st \<leftarrow> checkValue up env value st;
     Some (st, gob name value)
   }"

subsection \<open>Every type is checked once\<close>

text \<open>The types a type is made of, and the badly named fields of a type.\<close>

definition parts :: "gotypes \<Rightarrow> (nat \<times> nat) set" where
  "parts env = {(t, u). u \<in> tcall_type ` set (tcalls env t)}"

definition lower_calls :: "(string \<Rightarrow> bool) \<Rightarrow> tcall list \<Rightarrow> nat" where
  "lower_calls up cs = length (filter (\<lambda>c. \<exists>t f u. c = FieldOf t f u \<and> \<not> first_upper up f) cs)"

definition lower_fields :: "(string \<Rightarrow> bool) \<Rightarrow> gotypes \<Rightarrow> nat \<Rightarrow> nat" where
  "lower_fields up env t = (case Kind env t of GStruct fs \<Rightarrow> length (filter (\<lambda>(f, u). \<not> first_upper up f) fs) | _ \<Rightarrow> 0)"

lemma lower_calls_tcalls: "lower_calls up (tcalls env t) = lower_fields up env t"
  by (simp add: lower_calls_def lower_fields_def tcalls_def filter_map comp_def case_prod_unfold split: gokind.split)

lemma complain_count: "lg_errorCount (complain up c st) = lg_errorCount st + int (lower_calls up [c])"
  by (cases c) (auto simp: lower_calls_def)

lemma lower_calls_Cons: "lower_calls up (c # cs) = lower_calls up [c] + lower_calls up cs"
  by (simp add: lower_calls_def)

lemma check_calls_mono: "lg_checked st \<subseteq> lg_checked (check_calls up env cs st)"
  by (induction up env cs st rule: check_calls.induct) (fastforce simp: Let_def)+

lemma check_calls_all: "tcall_type ` set cs \<subseteq> lg_checked (check_calls up env cs st)"
proof (induction up env cs st rule: check_calls.induct)
  case (2 up env c cs st)
  let ?st = "complain up c st" and ?t = "tcall_type c"
  show ?case
  proof (cases "?t \<in> lg_checked ?st")
    case True
    then show ?thesis using 2(1) [OF refl refl True] check_calls_mono [of ?st up env cs] by (auto simp: Let_def)
  next
    case False
    let ?st' = "?st\<lparr>lg_checked := insert ?t (lg_checked ?st)\<rparr>"
    let ?in = "check_calls up env (tcalls env ?t) ?st'"
    have "?t \<in> lg_checked ?in" using check_calls_mono [of ?st' up env "tcalls env ?t"] by auto
    then have "?t \<in> lg_checked (check_calls up env cs ?in)" using check_calls_mono by blast
    then show ?thesis using 2(3) [OF refl refl False] False by (simp add: Let_def)
  qed
qed simp


lemma check_calls_closed:
  "u \<in> lg_checked (check_calls up env cs st) - lg_checked st \<Longrightarrow> (u, v) \<in> parts env \<Longrightarrow>
    v \<in> lg_checked (check_calls up env cs st)"
proof (induction up env cs st rule: check_calls.induct)
  case (2 up env c cs st)
  let ?st = "complain up c st" and ?t = "tcall_type c"
  show ?case
  proof (cases "?t \<in> lg_checked ?st")
    case True
    then show ?thesis using 2(1) [OF refl refl True] 2(4,5) by (simp add: Let_def)
  next
    case False
    let ?st' = "?st\<lparr>lg_checked := insert ?t (lg_checked ?st)\<rparr>"
    let ?in = "check_calls up env (tcalls env ?t) ?st'"
    have fin: "check_calls up env (c # cs) st = check_calls up env cs ?in" using False by (simp add: Let_def)
    have "v \<in> lg_checked (check_calls up env cs ?in)"
    proof (cases "u \<in> lg_checked ?in")
      case inn: True
      have "v \<in> lg_checked ?in"
      proof (cases "u = ?t")
        case True
        then show ?thesis using 2(5) check_calls_all [of "tcalls env ?t" up env ?st'] by (auto simp: parts_def)
      next
        case ne: False
        then show ?thesis using 2(2) [OF refl refl False] inn 2(4,5) by auto
      qed
      then show ?thesis using check_calls_mono by blast
    next
      case out: False
      then show ?thesis using 2(3) [OF refl refl False] 2(4,5) unfolding fin by blast
    qed
    then show ?thesis unfolding fin .
  qed
qed simp

lemma check_calls_reach:
  "lg_checked (check_calls up env cs st) \<subseteq> lg_checked st \<union> (parts env)\<^sup>* `` (tcall_type ` set cs)"
proof (induction up env cs st rule: check_calls.induct)
  case (2 up env c cs st)
  let ?st = "complain up c st" and ?t = "tcall_type c"
  show ?case
  proof (cases "?t \<in> lg_checked ?st")
    case True
    then show ?thesis using 2(1) [OF refl refl True] by (auto simp: Let_def)
  next
    case False
    let ?st' = "?st\<lparr>lg_checked := insert ?t (lg_checked ?st)\<rparr>"
    let ?in = "check_calls up env (tcalls env ?t) ?st'"
    have fin: "check_calls up env (c # cs) st = check_calls up env cs ?in" using False by (simp add: Let_def)
    have "(parts env)\<^sup>* `` (tcall_type ` set (tcalls env ?t)) \<subseteq> (parts env)\<^sup>* `` {?t}"
      by (auto intro: converse_rtrancl_into_rtrancl simp: parts_def)
    then have "lg_checked ?in \<subseteq> lg_checked st \<union> (parts env)\<^sup>* `` {?t}"
      using 2(2) [OF refl refl False] by simp blast
    then show ?thesis using 2(3) [OF refl refl False] unfolding fin by auto
  qed
qed simp

lemma check_calls_finite: "finite (lg_checked (check_calls up env cs st)) \<longleftrightarrow> finite (lg_checked st)"
  by (induction up env cs st rule: check_calls.induct) (auto simp: Let_def)

lemma check_calls_count:
  assumes "finite (lg_checked st)"
  shows "lg_errorCount (check_calls up env cs st) = lg_errorCount st + int (lower_calls up cs) +
    int (\<Sum>u \<in> lg_checked (check_calls up env cs st) - lg_checked st. lower_fields up env u)"
  using assms
proof (induction up env cs st rule: check_calls.induct)
  case (1 up env st)
  then show ?case by (simp add: lower_calls_def)
next
  case (2 up env c cs st)
  let ?st = "complain up c st" and ?t = "tcall_type c"
  show ?case
  proof (cases "?t \<in> lg_checked ?st")
    case True
    then show ?thesis using 2(1) [OF refl refl True] 2(4) by (simp add: Let_def complain_count lower_calls_Cons [of up c cs])
  next
    case False
    let ?st' = "?st\<lparr>lg_checked := insert ?t (lg_checked ?st)\<rparr>"
    let ?in = "check_calls up env (tcalls env ?t) ?st'"
    let ?out = "check_calls up env cs ?in"
    let ?n = "lower_fields up env"
    have fin: "check_calls up env (c # cs) st = ?out" using False by (simp add: Let_def)
    have f: "finite (lg_checked ?out)" using 2(4) by (simp add: check_calls_finite)
    have m: "insert ?t (lg_checked st) \<subseteq> lg_checked ?in" "lg_checked ?in \<subseteq> lg_checked ?out"
      using check_calls_mono [of ?st' up env] check_calls_mono [of ?in up env] by auto
    have fi: "finite (lg_checked ?in - insert ?t (lg_checked st))" using f m(2) finite_subset by blast
    have split: "lg_checked ?out - lg_checked st =
        (lg_checked ?out - lg_checked ?in) \<union> insert ?t (lg_checked ?in - insert ?t (lg_checked st))"
      using m False by auto
    have "(\<Sum>u \<in> lg_checked ?out - lg_checked st. ?n u) = (\<Sum>u \<in> lg_checked ?out - lg_checked ?in. ?n u) +
        (?n ?t + (\<Sum>u \<in> lg_checked ?in - insert ?t (lg_checked st). ?n u))"
      unfolding split using f m fi by (subst sum.union_disjoint) auto
    then show ?thesis
      using 2(2) [OF refl refl False] 2(3) [OF refl refl False] 2(4) m(1)
      unfolding fin by (simp add: complain_count check_calls_finite lower_calls_tcalls lower_calls_Cons [of up c cs] del: of_nat_sum)
  qed
qed

text \<open>Between calls the checked types are closed and the counter is exact.\<close>

definition types_closed :: "gotypes \<Rightarrow> labgob \<Rightarrow> bool" where
  "types_closed env st \<longleftrightarrow> finite (lg_checked st) \<and> (\<forall>t u. t \<in> lg_checked st \<longrightarrow> (t, u) \<in> parts env \<longrightarrow> u \<in> lg_checked st)"

lemma closed_rtrancl: "types_closed env st \<Longrightarrow> (t, u) \<in> (parts env)\<^sup>* \<Longrightarrow> t \<in> lg_checked st \<Longrightarrow> u \<in> lg_checked st"
  by (rotate_tac 1, induction rule: rtrancl_induct) (auto simp: types_closed_def)

text \<open>
  \<^bold>\<open>C35\<close>: \<open>checkType\<close> returns for recursive types too, and complains exactly once about every field without a
  capital letter of every type that the type is made of: afterwards the checked types are those that were and those
  the type is made of, the error counter has grown by the badly named fields of the new ones, and this state is again
  one that the next call can start from.
\<close>

theorem labgob_checks_types:
  assumes "types_closed env st"
  shows "types_closed env (checkType up env t st) \<and>
    lg_checked (checkType up env t st) = lg_checked st \<union> (parts env)\<^sup>* `` {t} \<and>
    lg_errorCount (checkType up env t st) =
      lg_errorCount st + int (\<Sum>u \<in> (parts env)\<^sup>* `` {t} - lg_checked st. lower_fields up env u)"
proof -
  let ?st = "checkType up env t st"
  note [simp del] = check_calls.simps
  have fin: "finite (lg_checked st)" using assms by (simp add: types_closed_def)
  have closed: "types_closed env ?st"
    unfolding types_closed_def
  proof (intro conjI allI impI)
    show "finite (lg_checked ?st)" using fin by (simp add: checkType_def check_calls_finite)
    fix u v assume "u \<in> lg_checked ?st" "(u, v) \<in> parts env"
    then show "v \<in> lg_checked ?st"
      using check_calls_closed [of u up env "[Elem t]" st v] check_calls_mono [of st up env "[Elem t]"] assms
      by (cases "u \<in> lg_checked st") (auto simp: checkType_def types_closed_def)
  qed
  have t: "t \<in> lg_checked ?st" using check_calls_all [of "[Elem t]" up env st] by (simp add: checkType_def)
  have ck: "lg_checked ?st = lg_checked st \<union> (parts env)\<^sup>* `` {t}"
    using check_calls_reach [of up env "[Elem t]" st] check_calls_mono [of st up env "[Elem t]"] closed_rtrancl [OF closed _ t]
    by (auto simp: checkType_def)
  moreover have "lg_checked ?st - lg_checked st = (parts env)\<^sup>* `` {t} - lg_checked st" unfolding ck by auto
  moreover have "lower_calls up [Elem t] = 0" by (simp add: lower_calls_def)
  ultimately show ?thesis using closed check_calls_count [OF fin, of up env "[Elem t]"] by (simp add: checkType_def)
qed


text \<open>A list type that refers to itself and has a badly named field.\<close>

definition list_types :: gotypes where
  "list_types = [GStruct [(''Val'', 2), (''next'', 1)], GPtr 0, GOther]"

lemma list_types_parts: "parts list_types = {(0, 2), (0, 1), (1, 0)}"
proof -
  have "tcalls list_types t = (if t = 0 then [FieldOf 0 ''Val'' 2, FieldOf 0 ''next'' 1] else if t = 1 then [Elem 0] else [])" for t
    by (simp add: list_types_def tcalls_def Kind_def less_Suc_eq numeral_eq_Suc)
  then show ?thesis by (auto simp: parts_def split: if_splits)
qed

theorem labgob_checks_types_witness:
  "lg_errorCount (checkType (\<lambda>_. False) list_types 1 labgob_init) = 1 \<and>
   lg_checked (checkType (\<lambda>_. False) list_types 1 labgob_init) = {0, 1, 2}"
proof -
  have c: "types_closed list_types labgob_init" by (simp add: types_closed_def labgob_init_def)
  have "(parts list_types)\<^sup>* `` {1} = {0, 1, 2}"
  proof
    have "u \<in> {0, 1, 2}" if "(1, u) \<in> (parts list_types)\<^sup>*" for u
      using that by (induction rule: rtrancl_induct) (auto simp: list_types_parts)
    then show "(parts list_types)\<^sup>* `` {1} \<subseteq> {0, 1, 2}" by blast
    show "{0, 1, 2} \<subseteq> (parts list_types)\<^sup>* `` {1}"
      by (auto simp: list_types_parts intro: rtrancl_into_rtrancl)
  qed
  with labgob_checks_types [OF c, of "\<lambda>_. False" 1] show ?thesis
    by (simp add: labgob_init_def list_types_def lower_fields_def Kind_def first_upper_def)
qed

subsection \<open>Values that are decoded into\<close>

text \<open>
  The scalars that \<open>checkDefault\<close> looks at: those no deeper than the third level, of which the outermost value is the
  first; here those that are not zero.
\<close>

fun non_default :: "nat \<Rightarrow> goval \<Rightarrow> nat" and non_default_fields :: "nat \<Rightarrow> (string \<times> bool \<times> goval) list \<Rightarrow> nat" where
  "non_default 0 v = 0"
| "non_default (Suc d) (VStruct fs) = non_default_fields d fs"
| "non_default (Suc d) (VPtr None) = 0"
| "non_default (Suc d) (VPtr (Some v)) = non_default d v"
| "non_default (Suc d) v = (if is_zero v then 0 else 1)"
| "non_default_fields d [] = 0"
| "non_default_fields d ((f, e, v) # fs) = non_default d v + non_default_fields d fs"

text \<open>All fields exported.\<close>

fun exported :: "(string \<Rightarrow> bool) \<Rightarrow> goval \<Rightarrow> bool" and exported_fields :: "(string \<Rightarrow> bool) \<Rightarrow> (string \<times> bool \<times> goval) list \<Rightarrow> bool" where
  "exported up (VStruct fs) = exported_fields up fs"
| "exported up (VPtr (Some v)) = exported up v"
| "exported up v = True"
| "exported_fields up [] = True"
| "exported_fields up ((f, e, v) # fs) = (first_upper up f \<and> exported up v \<and> exported_fields up fs)"


definition warned :: "labgob \<Rightarrow> nat \<Rightarrow> labgob \<Rightarrow> bool" where
  "warned st n st' \<longleftrightarrow> lg_errorCount st' = lg_errorCount st + int n \<and> lg_checked st' = lg_checked st \<and>
     (\<exists>ws. lg_printed st' = lg_printed st @ ws \<and> length ws = (if 0 < n \<and> lg_errorCount st < 1 then 1 else 0))"

lemma warned_refl: "warned st 0 st"
  by (simp add: warned_def)

lemma warned_trans: "warned st m st' \<Longrightarrow> warned st' n st'' \<Longrightarrow> 0 \<le> lg_errorCount st \<Longrightarrow> warned st (m + n) st''"
  by (auto simp: warned_def split: if_splits)

lemma default_scalar_warned: "warned st (if is_zero v then 0 else 1) (default_scalar v name st)"
  by (auto simp: warned_def default_scalar_def Let_def)

abbreviation plain :: rflag where
  "plain \<equiv> \<lparr>rf_sticky = False, rf_embed = False\<rparr>"

lemma field_flag_exported: "first_upper up f \<Longrightarrow> field_flag up plain f e = plain"
  by (simp add: field_flag_def)

lemma checkDefault1_warned:
  "fl = plain \<Longrightarrow> exported up v \<Longrightarrow> 0 \<le> lg_errorCount st \<Longrightarrow>
     \<exists>st'. checkDefault1 up v fl depth name st = Some st' \<and> warned st (non_default (4 - depth) v) st'"
  "fl = plain \<Longrightarrow> exported_fields up fs \<Longrightarrow> 0 \<le> lg_errorCount st \<Longrightarrow> depth \<le> 3 \<Longrightarrow>
     \<exists>st'. checkDefault_fields up fs fl depth name st = Some st' \<and> warned st (non_default_fields (3 - depth) fs) st'"
proof (induction up v fl depth name st and up fs fl depth name st rule: checkDefault1_checkDefault_fields.induct)
  case (1 up v fl depth name st)
  show ?case
  proof (cases "depth > 3")
    case False
    then have d: "4 - depth = Suc (3 - depth)" by linarith
    show ?thesis
    proof (cases v)
      case (VStruct fs)
      then show ?thesis using 1(1) [OF False VStruct 1(3)] 1(4,5) False by (simp add: d)
    next
      case (VPtr w)
      show ?thesis
      proof (cases w)
        case None
        then show ?thesis using VPtr False by (simp add: d warned_refl)
      next
        case (Some x)
        then show ?thesis using 1(2) [OF False VPtr Some 1(3)] 1(4,5) VPtr False by (simp add: d)
      qed
    qed (use 1(3) False default_scalar_warned [of st v name] in \<open>simp_all add: d warned_refl is_zero_def [of VOther]\<close>)
  qed (simp add: warned_refl)
next
  case (3 up f e v fs fl depth name st)
  have ex: "first_upper up f" "exported up v" "exported_fields up fs" using 3(4) by simp_all
  obtain st1 where 1: "checkDefault1 up v plain (depth + 1) (sub_name name f) st = Some st1"
    "warned st (non_default (3 - depth) v) st1"
    using 3(1) ex 3(3,5) by (auto simp: field_flag_exported)
  have "0 \<le> lg_errorCount st1" using 1(2) 3(5) by (simp add: warned_def)
  then obtain st2 where "checkDefault_fields up fs plain depth name st1 = Some st2" "warned st1 (non_default_fields (3 - depth) fs) st2"
    using 3(2) [of st1] 1(1) ex 3(3,6) by (auto simp: field_flag_exported)
  then show ?case using 1 ex 3(3) warned_trans [OF 1(2) _ 3(5)] by (auto simp: field_flag_exported)
qed (simp_all add: warned_refl)

declare checkDefault1.simps [simp del]

text \<open>
  Decoding into a variable whose fields are exported never panics in the wrapper, and counts one error for every
  scalar that is not zero, down to the third level of the value. It prints exactly one warning when it finds one and no
  error was counted before, and nothing when all of them are zero.
\<close>

theorem labgob_default_warns:
  assumes "exported up v" "0 \<le> lg_errorCount (checkType up env t st)"
  shows "\<exists>st'. Decode up env gob (Some (t, v)) st = Some (st', gob (Some (t, v))) \<and>
    warned (checkType up env t st) (non_default 3 v) st'"
  using checkDefault1_warned(1) [OF refl assms, of 1 "[]"]
  by (auto simp: Decode_def checkValue_def checkDefault_def)

theorem labgob_default_warns_witness:
  "\<exists>st' v. v = VPtr (Some (VStruct [(''Err'', False, VString ''x''), (''Value'', False, VInt 0)])) \<and>
     Decode (\<lambda>_. False) [GPtr 1, GStruct [(''Err'', 2), (''Value'', 2)], GOther] id (Some (0, v)) labgob_init = Some (st', Some (0, v)) \<and>
     lg_errorCount st' = 1"
proof -
  let ?v = "VPtr (Some (VStruct [(''Err'', False, VString ''x''), (''Value'', False, VInt 0)]))"
  let ?env = "[GPtr 1, GStruct [(''Err'', 2), (''Value'', 2)], GOther]"
  have e: "exported (\<lambda>_. False) ?v" by (simp add: first_upper_def)
  have c: "lg_errorCount (checkType (\<lambda>_. False) ?env 0 labgob_init) = 0"
    by (simp add: checkType_def tcalls_def Kind_def labgob_init_def first_upper_def Let_def)
  have "non_default 3 ?v = 1" by (simp add: numeral_eq_Suc is_zero_def)
  with labgob_default_warns [OF e, of ?env 0 labgob_init id] c show ?thesis by (auto simp: warned_def)
qed

lemma unexported_panics:
  assumes "exported_fields up fs" "\<not> first_upper up f" "v \<in> {VBool b, VInt i, VUint n, VFloat z, VString s}" "depth < 3"
  shows "checkDefault_fields up (fs @ (f, False, v) # gs) plain depth name st = None"
  using assms
proof (induction fs arbitrary: st)
  case Nil
  then show ?case by (auto simp: field_flag_def checkDefault1.simps)
next
  case (Cons x fs)
  obtain g e w where x: "x = (g, e, w)" by (cases x)
  show ?case using Cons by (simp add: x bind_eq_None_conv)
qed


text \<open>
  Where a field is not exported the wrapper does not only warn: decoding into a struct with such a scalar
  field panics, since \<open>checkDefault\<close> asks \<open>reflect\<close> for a value it may not hand out.
\<close>

theorem labgob_decode_unexported_panics:
  assumes "exported_fields up fs" "\<not> first_upper up f" "v \<in> {VBool b, VInt i, VUint n, VFloat z, VString s}"
  shows "Decode up env gob (Some (t, VPtr (Some (VStruct (fs @ (f, False, v) # gs))))) st = None"
  using unexported_panics [OF assms, of "Suc (Suc 0)" gs "[]"] by (simp add: Decode_def checkValue_def checkDefault_def checkDefault1.simps)

theorem labgob_decode_unexported_panics_witness:
  "Decode (\<lambda>_. False) [] id (Some (0, VPtr (Some (VStruct ([(''Term'', False, VInt 0)] @ (''ok'', False, VBool False) # []))))) labgob_init = None"
  by (rule labgob_decode_unexported_panics [where b = False]) (simp_all add: first_upper_def)

end
