(* ===== verification/Annot.thy ===== *)
theory Annot
  imports Strconv
begin

text \<open>
  The annotations of a test, \<open>src/tester1/annotation.go\<close>, and their collection from other processes,
  \<open>annotator.go\<close>.

  A test records points and intervals of time with a label, for the visualisation of a failed run. A \<^emph>\<open>continuous\<close>
  annotation of a tag is open until the next one of the tag begins or it is ended. \<open>FrameworkInfo\<close> holds which servers
  are connected and which have crashed, from which the annotation of the tag \<open>$ Failure\<close> is made.

  The global variables \<open>annotation\<close> and \<open>finfo\<close> are the state; \<open>finfo\<close> is nil until \<open>AnnotateTest\<close>. Every operation takes
  the time of its clock reading as an argument, in nanoseconds. A panic is \<^term>\<open>None\<close>.
\<close>

subsection \<open>State\<close>

record panno =  \<comment> \<open>\<open>porcupine.Annotation\<close>, the fields that are set\<close>
  pa_Tag :: string
  pa_Start :: int
  pa_End :: int
  pa_Description :: string
  pa_Details :: string
  pa_BackgroundColor :: string

record Continuous =
  co_start :: int
  co_desp :: string
  co_details :: string
  co_bgcolor :: string

record Annotation =
  an_annotations :: "panno list"
  an_continuous :: "string \<rightharpoonup> Continuous"
  an_finalized :: bool

record CheckerBegin =
  ck_ts :: int
  ck_details :: string

record FrameworkInfo =
  fi_nservers :: nat
  fi_connected :: "bool list"
  fi_crashed :: "bool list"
  fi_ckbegin :: CheckerBegin

record annstate =
  as_an :: Annotation
  as_finfo :: "FrameworkInfo option"

definition COLOR_INFO :: string where "COLOR_INFO = ''#FAFAFA''"
definition COLOR_NEUTRAL :: string where "COLOR_NEUTRAL = ''#FFECB3''"
definition COLOR_SUCCESS :: string where "COLOR_SUCCESS = ''#C8E6C9''"
definition COLOR_FAILURE :: string where "COLOR_FAILURE = ''#FFCDD2''"
definition COLOR_FAULT :: string where "COLOR_FAULT = ''#B3E5FC''"
definition COLOR_USER :: string where "COLOR_USER = ''#FFF176''"
definition TAG_CHECKER :: string where "TAG_CHECKER = ''$ Checker''"
definition TAG_PARTITION :: string where "TAG_PARTITION = ''$ Failure''"
definition TAG_INFO :: string where "TAG_INFO = ''$ Test Info''"

definition mkAnnotation :: Annotation where
  "mkAnnotation = \<lparr>an_annotations = [], an_continuous = Map.empty, an_finalized = False\<rparr>"

definition mkFrameworkInfo :: "nat \<Rightarrow> FrameworkInfo" where
  "mkFrameworkInfo nservers =
     \<lparr>fi_nservers = nservers, fi_connected = replicate nservers True, fi_crashed = replicate nservers False,
      fi_ckbegin = \<lparr>ck_ts = 0, ck_details = []\<rparr>\<rparr>"

text \<open>The zero value, which a missing key of the map reads as.\<close>

definition zero_Continuous :: Continuous where
  "zero_Continuous = \<lparr>co_start = 0, co_desp = [], co_details = [], co_bgcolor = []\<rparr>"

definition cont_anno :: "string \<Rightarrow> Continuous \<Rightarrow> int \<Rightarrow> panno" where
  "cont_anno tag cont t = \<lparr>pa_Tag = tag, pa_Start = co_start cont, pa_End = t, pa_Description = co_desp cont,
     pa_Details = co_details cont, pa_BackgroundColor = co_bgcolor cont\<rparr>"

subsection \<open>Methods of \<open>Annotation\<close>\<close>

definition an_clear :: "Annotation \<Rightarrow> Annotation" where
  "an_clear an = an\<lparr>an_annotations := [], an_continuous := Map.empty, an_finalized := False\<rparr>"

definition an_add :: "Annotation \<Rightarrow> panno \<Rightarrow> Annotation" where
  "an_add an a = an\<lparr>an_annotations := an_annotations an @ [a]\<rparr>"

definition annotatePointColor :: "int \<Rightarrow> Annotation \<Rightarrow> string \<Rightarrow> string \<Rightarrow> string \<Rightarrow> string \<Rightarrow> Annotation" where
  "annotatePointColor t an tag desp details bgcolor =
     an_add an \<lparr>pa_Tag = tag, pa_Start = t, pa_End = 0, pa_Description = desp, pa_Details = details, pa_BackgroundColor = bgcolor\<rparr>"

definition annotateIntervalColor :: "int \<Rightarrow> Annotation \<Rightarrow> string \<Rightarrow> int \<Rightarrow> string \<Rightarrow> string \<Rightarrow> string \<Rightarrow> Annotation" where
  "annotateIntervalColor t an tag start desp details bgcolor =
     an_add an \<lparr>pa_Tag = tag, pa_Start = start, pa_End = t, pa_Description = desp, pa_Details = details, pa_BackgroundColor = bgcolor\<rparr>"

definition annotateContinuousColor :: "int \<Rightarrow> Annotation \<Rightarrow> string \<Rightarrow> string \<Rightarrow> string \<Rightarrow> string \<Rightarrow> Annotation" where
  "annotateContinuousColor t an tag desp details bgcolor =
     (let new = \<lparr>co_start = t, co_desp = desp, co_details = details, co_bgcolor = bgcolor\<rparr>
      in case an_continuous an tag of
           None \<Rightarrow> an\<lparr>an_continuous := (an_continuous an)(tag \<mapsto> new)\<rparr>
         | Some cont \<Rightarrow>
             (let aprev = cont_anno tag cont t; an = an_add an aprev
              in an\<lparr>an_continuous := (an_continuous an)(tag \<mapsto> new)\<rparr>))"

text \<open>The test for a missing tag has an empty body: the zero value is used as if it had been found.\<close>

definition annotateContinuousEnd :: "int \<Rightarrow> Annotation \<Rightarrow> string \<Rightarrow> Annotation" where
  "annotateContinuousEnd t an tag =
     (let cont = (case an_continuous an tag of Some c \<Rightarrow> c | None \<Rightarrow> zero_Continuous);
          an = an_add an (cont_anno tag cont t)
      in an\<lparr>an_continuous := (an_continuous an)(tag := None)\<rparr>)"

text \<open>\<open>finalize\<close>: the open annotations are closed in the order in which the map is ranged over, \<open>tags\<close>.\<close>

definition range_order :: "(string \<rightharpoonup> 'b) \<Rightarrow> string list \<Rightarrow> bool" where
  "range_order m tags \<longleftrightarrow> distinct tags \<and> set tags = dom m"

definition an_finalize :: "int \<Rightarrow> string list \<Rightarrow> Annotation \<Rightarrow> panno list \<times> Annotation" where
  "an_finalize t tags an =
     (an_annotations an @ map (\<lambda>tag. cont_anno tag (the (an_continuous an tag)) t) tags, an\<lparr>an_finalized := True\<rparr>)"

definition end_anno :: "int \<Rightarrow> string \<Rightarrow> panno" where
  "end_anno t end = \<lparr>pa_Tag = TAG_INFO, pa_Start = t, pa_End = 0, pa_Description = end, pa_Details = end, pa_BackgroundColor = COLOR_INFO\<rparr>"

text \<open>
  \<open>cleanup\<close>: \<open>enabled\<close> is \<open>VIS_ENABLE\<close>, \<open>opened\<close> says whether the file could be opened; the result is what has been
  visualised.
\<close>

definition an_cleanup :: "string \<Rightarrow> bool \<Rightarrow> int \<Rightarrow> string list \<Rightarrow> Annotation \<Rightarrow> bool \<Rightarrow> string \<Rightarrow> Annotation \<times> panno list option" where
  "an_cleanup enabled opened t tags an failed end =
     (if enabled = ''never'' \<or> (\<not> failed \<and> enabled \<noteq> ''always'') \<or> an_finalized an then (an_clear an, None)
      else let (annotations, an) = an_finalize t tags an
           in if length annotations = 0 then (an, None)
              else let annotations = annotations @ [end_anno t end]
                   in if \<not> opened then (an, None) else (an, Some annotations))"

subsection \<open>Public functions\<close>

definition on_an :: "(Annotation \<Rightarrow> Annotation) \<Rightarrow> annstate \<Rightarrow> annstate" where
  "on_an f s = s\<lparr>as_an := f (as_an s)\<rparr>"

definition FinalizeAnnotations :: "int \<Rightarrow> string list \<Rightarrow> annstate \<Rightarrow> string \<Rightarrow> annstate \<times> panno list" where
  "FinalizeAnnotations t tags s end =
     (let (annotations, an) = an_finalize t tags (as_an s) in (s\<lparr>as_an := an\<rparr>, annotations @ [end_anno t end]))"

definition AnnotatePointColor :: "int \<Rightarrow> annstate \<Rightarrow> string \<Rightarrow> string \<Rightarrow> string \<Rightarrow> string \<Rightarrow> annstate" where
  "AnnotatePointColor t s tag desp details bgcolor = on_an (\<lambda>an. annotatePointColor t an tag desp details bgcolor) s"

definition AnnotateIntervalColor :: "int \<Rightarrow> annstate \<Rightarrow> string \<Rightarrow> int \<Rightarrow> string \<Rightarrow> string \<Rightarrow> string \<Rightarrow> annstate" where
  "AnnotateIntervalColor t s tag start desp details bgcolor = on_an (\<lambda>an. annotateIntervalColor t an tag start desp details bgcolor) s"

definition AnnotateContinuousColor :: "int \<Rightarrow> annstate \<Rightarrow> string \<Rightarrow> string \<Rightarrow> string \<Rightarrow> string \<Rightarrow> annstate" where
  "AnnotateContinuousColor t s tag desp details bgcolor = on_an (\<lambda>an. annotateContinuousColor t an tag desp details bgcolor) s"

definition AnnotateContinuousEnd :: "int \<Rightarrow> annstate \<Rightarrow> string \<Rightarrow> annstate" where
  "AnnotateContinuousEnd t s tag = on_an (\<lambda>an. annotateContinuousEnd t an tag) s"

definition AnnotatePoint :: "int \<Rightarrow> annstate \<Rightarrow> string \<Rightarrow> string \<Rightarrow> string \<Rightarrow> annstate" where
  "AnnotatePoint t s tag desp details = on_an (\<lambda>an. annotatePointColor t an tag desp details COLOR_USER) s"

definition AnnotateInterval :: "int \<Rightarrow> annstate \<Rightarrow> string \<Rightarrow> int \<Rightarrow> string \<Rightarrow> string \<Rightarrow> annstate" where
  "AnnotateInterval t s tag start desp details = on_an (\<lambda>an. annotateIntervalColor t an tag start desp details COLOR_USER) s"

definition AnnotateContinuous :: "int \<Rightarrow> annstate \<Rightarrow> string \<Rightarrow> string \<Rightarrow> string \<Rightarrow> annstate" where
  "AnnotateContinuous t s tag desp details = on_an (\<lambda>an. annotateContinuousColor t an tag desp details COLOR_USER) s"

definition AnnotateInfo :: "int \<Rightarrow> annstate \<Rightarrow> string \<Rightarrow> string \<Rightarrow> annstate" where
  "AnnotateInfo t s desp details = AnnotatePointColor t s TAG_INFO desp details COLOR_INFO"

definition AnnotateInfoInterval :: "int \<Rightarrow> annstate \<Rightarrow> int \<Rightarrow> string \<Rightarrow> string \<Rightarrow> annstate" where
  "AnnotateInfoInterval t s start desp details = AnnotateIntervalColor t s TAG_INFO start desp details COLOR_INFO"

definition AnnotateTest :: "int \<Rightarrow> annstate \<Rightarrow> string \<Rightarrow> nat \<Rightarrow> annstate" where
  "AnnotateTest t s desp nservers =
     (let details = desp @ '' ('' @ Itoa (int nservers) @ '' servers)'';
          s = s\<lparr>as_finfo := Some (mkFrameworkInfo nservers)\<rparr>;
          s = on_an an_clear s
      in AnnotateInfo t s details details)"

definition AnnotateCheckerBegin :: "int \<Rightarrow> annstate \<Rightarrow> string \<Rightarrow> annstate option" where
  "AnnotateCheckerBegin t s details = do {
     fi \<leftarrow> as_finfo s;
     Some (s\<lparr>as_finfo := Some (fi\<lparr>fi_ckbegin := \<lparr>ck_ts = t, ck_details = details\<rparr>\<rparr>)\<rparr>)
   }"

text \<open>\<open>AnnotateCheckerEnd\<close> resets the time in a copy of \<open>ckbegin\<close>.\<close>

definition AnnotateCheckerEnd :: "int \<Rightarrow> annstate \<Rightarrow> string \<Rightarrow> string \<Rightarrow> string \<Rightarrow> annstate option" where
  "AnnotateCheckerEnd t s desp details color = do {
     fi \<leftarrow> as_finfo s;
     let ckbegin = fi_ckbegin fi;
     Some (if ck_ts ckbegin = 0 then AnnotatePointColor t s TAG_CHECKER desp details color
           else let d = ck_details ckbegin @ '': '' @ details
                in AnnotateIntervalColor t s TAG_CHECKER (ck_ts ckbegin) desp d color)
   }"

definition AnnotateCheckerSuccess :: "int \<Rightarrow> annstate \<Rightarrow> string \<Rightarrow> string \<Rightarrow> annstate option" where
  "AnnotateCheckerSuccess t s desp details = AnnotateCheckerEnd t s desp details COLOR_SUCCESS"

definition AnnotateCheckerFailure :: "int \<Rightarrow> annstate \<Rightarrow> string \<Rightarrow> string \<Rightarrow> annstate option" where
  "AnnotateCheckerFailure t s desp details = AnnotateCheckerEnd t s desp details COLOR_FAILURE"

definition AnnotateCheckerNeutral :: "int \<Rightarrow> annstate \<Rightarrow> string \<Rightarrow> string \<Rightarrow> annstate option" where
  "AnnotateCheckerNeutral t s desp details = AnnotateCheckerEnd t s desp details COLOR_NEUTRAL"

definition SetAnnotationFinalized :: "annstate \<Rightarrow> annstate" where
  "SetAnnotationFinalized s = on_an (\<lambda>an. an\<lparr>an_finalized := True\<rparr>) s"

definition GetAnnotationFinalized :: "annstate \<Rightarrow> bool" where
  "GetAnnotationFinalized s = an_finalized (as_an s)"

definition AnnotateCheckerFailureBeforeExit ::
  "string \<Rightarrow> bool \<Rightarrow> int \<Rightarrow> string list \<Rightarrow> annstate \<Rightarrow> string \<Rightarrow> string \<Rightarrow> (annstate \<times> panno list option) option" where
  "AnnotateCheckerFailureBeforeExit enabled opened t tags s desp details = do {
     s \<leftarrow> AnnotateCheckerFailure t s desp details;
     let (an, vis) = an_cleanup enabled opened t tags (as_an s) True ''test failed'';
     Some (s\<lparr>as_an := an\<rparr>, vis)
   }"


subsection \<open>Faults\<close>

text \<open>\<open>fmt.Sprintf("%v", xs)\<close> of a slice of integers.\<close>

fun join_ints :: "int list \<Rightarrow> string" where
  "join_ints [] = []"
| "join_ints [x] = Itoa x"
| "join_ints (x # xs) = Itoa x @ '' '' @ join_ints xs"

definition show_ints :: "int list \<Rightarrow> string" where
  "show_ints xs = ''['' @ join_ints xs @ '']''"

text \<open>The loop of \<open>annotateFault\<close> over \<open>finfo.connected\<close>, from the server \<open>sid\<close> on: builder, \<open>conn\<close> and \<open>crashes\<close>.\<close>

fun fault_loop :: "bool list \<Rightarrow> bool list \<Rightarrow> int \<Rightarrow> string \<Rightarrow> int list \<Rightarrow> int list \<Rightarrow> (string \<times> int list \<times> int list) option" where
  "fault_loop [] crashed sid builder conn crashes = Some (builder, conn, crashes)"
| "fault_loop (connected # cs) crashed sid builder conn crashes = do {
     x \<leftarrow> go_nth crashed sid;
     if x then fault_loop cs crashed (sid + 1) builder conn (crashes @ [sid])
     else if connected then fault_loop cs crashed (sid + 1) builder (conn @ [sid]) crashes
     else fault_loop cs crashed (sid + 1) (builder @ ''['' @ Itoa sid @ ''] '') conn crashes
   }"

definition annotateFault :: "int \<Rightarrow> annstate \<Rightarrow> FrameworkInfo \<Rightarrow> annstate option" where
  "annotateFault t s fi =
     (let trues = replicate (fi_nservers fi) True; falses = replicate (fi_nservers fi) False
      in if trues = fi_connected fi \<and> falses = fi_crashed fi then Some (AnnotateContinuousEnd t s TAG_PARTITION)
         else do {
           (builder, conn, crashes) \<leftarrow> fault_loop (fi_connected fi) (fi_crashed fi) 0 ''partition = '' [] [];
           let builder = (if length conn > 0 then builder @ show_ints conn else builder);
           let text = (if length crashes > 0 then builder @ '' / crash = '' @ show_ints crashes else builder);
           Some (AnnotateContinuousColor t s TAG_PARTITION text text COLOR_FAULT)
         })"

text \<open>\<open>copy(dst, src)\<close>\<close>

definition go_copy :: "'a list \<Rightarrow> 'a list \<Rightarrow> 'a list" where
  "go_copy dst src = take (length dst) src @ drop (length src) dst"

definition AnnotateConnection :: "int \<Rightarrow> annstate \<Rightarrow> bool list \<Rightarrow> annstate option" where
  "AnnotateConnection t s connection = do {
     fi \<leftarrow> as_finfo s;
     if fi_connected fi = connection then Some s
     else do {
       let fi = fi\<lparr>fi_connected := go_copy (fi_connected fi) connection\<rparr>;
       annotateFault t (s\<lparr>as_finfo := Some fi\<rparr>) fi
     }
   }"

definition AnnotateTwoPartitions :: "int \<Rightarrow> annstate \<Rightarrow> int list \<Rightarrow> int list \<Rightarrow> annstate" where
  "AnnotateTwoPartitions t s p1 p2 =
     (let text = ''partition = '' @ show_ints p1 @ '' '' @ show_ints p2
      in AnnotateContinuousColor t s TAG_PARTITION text text COLOR_FAULT)"

definition AnnotateClearFailure :: "int \<Rightarrow> annstate \<Rightarrow> annstate option" where
  "AnnotateClearFailure t s = do {
     fi \<leftarrow> as_finfo s;
     let fi = fi\<lparr>fi_crashed := map (\<lambda>_. False) (fi_crashed fi), fi_connected := map (\<lambda>_. True) (fi_connected fi)\<rparr>;
     Some (AnnotateContinuousEnd t (s\<lparr>as_finfo := Some fi\<rparr>) TAG_PARTITION)
   }"

text \<open>The loops of \<open>AnnotateShutdown\<close> and \<open>AnnotateRestart\<close>: the new \<open>crashed\<close>, and whether it has changed.\<close>

fun set_crashed :: "bool \<Rightarrow> int list \<Rightarrow> bool list \<Rightarrow> bool \<Rightarrow> (bool list \<times> bool) option" where
  "set_crashed down [] crashed changed = Some (crashed, changed)"
| "set_crashed down (sid # servers) crashed changed = do {
     x \<leftarrow> go_nth crashed sid;
     crashed \<leftarrow> go_upd crashed sid down;
     set_crashed down servers crashed (if x \<noteq> down then True else changed)
   }"

definition AnnotateShutdown :: "int \<Rightarrow> annstate \<Rightarrow> int list \<Rightarrow> annstate option" where
  "AnnotateShutdown t s servers = do {
     fi \<leftarrow> as_finfo s;
     (crashed, changed) \<leftarrow> set_crashed True servers (fi_crashed fi) False;
     let fi = fi\<lparr>fi_crashed := crashed\<rparr>;
     let s = s\<lparr>as_finfo := Some fi\<rparr>;
     if \<not> changed then Some s else annotateFault t s fi
   }"

definition AnnotateShutdownAll :: "int \<Rightarrow> annstate \<Rightarrow> annstate option" where
  "AnnotateShutdownAll t s = do {
     fi \<leftarrow> as_finfo s;
     AnnotateShutdown t s (map int [0..<fi_nservers fi])
   }"

definition AnnotateRestart :: "int \<Rightarrow> annstate \<Rightarrow> int list \<Rightarrow> annstate option" where
  "AnnotateRestart t s servers = do {
     fi \<leftarrow> as_finfo s;
     (crashed, changed) \<leftarrow> set_crashed False servers (fi_crashed fi) False;
     let fi = fi\<lparr>fi_crashed := crashed\<rparr>;
     let s = s\<lparr>as_finfo := Some fi\<rparr>;
     if \<not> changed then Some s else annotateFault t s fi
   }"

definition AnnotateRestartAll :: "int \<Rightarrow> annstate \<Rightarrow> annstate option" where
  "AnnotateRestartAll t s = do {
     fi \<leftarrow> as_finfo s;
     AnnotateRestart t s (map int [0..<fi_nservers fi])
   }"

subsection \<open>Annotations of other processes\<close>

text \<open>The handlers of \<open>annotator.go\<close> in the tester.\<close>

record PostAnnotatorPointArgs =
  pp_Tag :: string
  pp_Desp :: string
  pp_Details :: string

record PostAnnotatorInfoIntervalArgs =
  pi_Start :: int
  pi_Desp :: string
  pi_Details :: string

definition PostAnnotatorPoint :: "int \<Rightarrow> annstate \<Rightarrow> PostAnnotatorPointArgs \<Rightarrow> annstate" where
  "PostAnnotatorPoint t s args = AnnotatePoint t s (pp_Tag args) (pp_Desp args) (pp_Details args)"

definition GetAnnotatorTimestamp_reply :: "int \<Rightarrow> int" where
  "GetAnnotatorTimestamp_reply t = t"

definition PostAnnotatorInfoInterval :: "int \<Rightarrow> annstate \<Rightarrow> PostAnnotatorInfoIntervalArgs \<Rightarrow> annstate" where
  "PostAnnotatorInfoInterval t s args = AnnotateInfoInterval t s (pi_Start args) (pi_Desp args) (pi_Details args)"

text \<open>The caller's side: \<open>ok\<close> and the reply of the remote call; a failed call yields 0.\<close>

definition GetAnnotatorTimestamp :: "int option \<Rightarrow> int" where
  "GetAnnotatorTimestamp reply = (case reply of None \<Rightarrow> 0 | Some ts \<Rightarrow> ts)"


subsection \<open>The open fault annotation describes the faults\<close>

text \<open>What a fault annotation says: the servers that are up and cut off one by one, those that are connected, those that have crashed.\<close>

definition ids_where :: "nat \<Rightarrow> (nat \<Rightarrow> bool) \<Rightarrow> int list" where
  "ids_where n P = map int (filter P [0..<n])"

definition fault_text :: "bool list \<Rightarrow> bool list \<Rightarrow> string" where
  "fault_text connected crashed =
     (let n = length connected;
          alone = ids_where n (\<lambda>i. \<not> crashed ! i \<and> \<not> connected ! i);
          conn = ids_where n (\<lambda>i. \<not> crashed ! i \<and> connected ! i);
          crashes = ids_where n (\<lambda>i. crashed ! i)
      in ''partition = '' @ concat (map (\<lambda>i. ''['' @ Itoa i @ ''] '') alone) @
         (if conn = [] then [] else show_ints conn) @
         (if crashes = [] then [] else '' / crash = '' @ show_ints crashes))"

definition no_faults :: "FrameworkInfo \<Rightarrow> bool" where
  "no_faults fi \<longleftrightarrow> (\<forall>c \<in> set (fi_connected fi). c) \<and> (\<forall>c \<in> set (fi_crashed fi). \<not> c)"

definition fault_inv :: "annstate \<Rightarrow> bool" where
  "fault_inv s \<longleftrightarrow>
     (case as_finfo s of None \<Rightarrow> False
      | Some fi \<Rightarrow>
          length (fi_connected fi) = fi_nservers fi \<and> length (fi_crashed fi) = fi_nservers fi \<and>
          (case an_continuous (as_an s) TAG_PARTITION of
             None \<Rightarrow> no_faults fi
           | Some c \<Rightarrow> \<not> no_faults fi \<and> co_desp c = fault_text (fi_connected fi) (fi_crashed fi) \<and>
               co_details c = co_desp c \<and> co_bgcolor c = COLOR_FAULT))"

lemma fault_loop_result:
  "length pre + length cs = length crashed \<Longrightarrow>
   fault_loop cs crashed (int (length pre)) builder conn crashes = Some
     (builder @ concat (map (\<lambda>i. ''['' @ Itoa (int i) @ ''] '') (filter (\<lambda>i. \<not> crashed ! i \<and> \<not> (pre @ cs) ! i) [length pre..<length crashed])),
      conn @ map int (filter (\<lambda>i. \<not> crashed ! i \<and> (pre @ cs) ! i) [length pre..<length crashed]),
      crashes @ map int (filter (\<lambda>i. crashed ! i) [length pre..<length crashed]))"
proof (induction cs arbitrary: pre builder conn crashes)
  case (Cons c cs)
  let ?n = "length pre"
  have n: "?n < length crashed" using Cons.prems by simp
  have up: "[?n..<length crashed] = ?n # [Suc ?n..<length crashed]" using n by (simp add: upt_conv_Cons)
  have at: "(pre @ c # cs) ! ?n = c" by simp
  have ih: "fault_loop cs crashed (int ?n + 1) b x y = Some
     (b @ concat (map (\<lambda>i. ''['' @ Itoa (int i) @ ''] '') (filter (\<lambda>i. \<not> crashed ! i \<and> \<not> (pre @ c # cs) ! i) [Suc ?n..<length crashed])),
      x @ map int (filter (\<lambda>i. \<not> crashed ! i \<and> (pre @ c # cs) ! i) [Suc ?n..<length crashed]),
      y @ map int (filter (\<lambda>i. crashed ! i) [Suc ?n..<length crashed]))" for b x y
    using Cons.IH [of "pre @ [c]" b x y] Cons.prems by (simp add: add.commute)
  show ?case using n by (simp add: go_nth_def up at ih)
qed simp

lemma fault_loop_text:
  assumes "length connected = length crashed"
  obtains builder conn crashes where
    "fault_loop connected crashed 0 ''partition = '' [] [] = Some (builder, conn, crashes)"
    "(let builder = (if length conn > 0 then builder @ show_ints conn else builder)
      in if length crashes > 0 then builder @ '' / crash = '' @ show_ints crashes else builder) = fault_text connected crashed"
  using fault_loop_result [of "[]" connected crashed "''partition = ''" "[]" "[]"] assms
  by (simp add: fault_text_def ids_where_def Let_def comp_def)

lemma replicate_eq: "replicate n x = xs \<longleftrightarrow> length xs = n \<and> (\<forall>y \<in> set xs. y = x)"
  by (auto simp: replicate_length_same)

lemma no_faults_iff:
  assumes "length (fi_connected fi) = fi_nservers fi" "length (fi_crashed fi) = fi_nservers fi"
  shows "replicate (fi_nservers fi) True = fi_connected fi \<and> replicate (fi_nservers fi) False = fi_crashed fi \<longleftrightarrow> no_faults fi"
  using assms by (simp add: no_faults_def replicate_eq)


text \<open>\<open>annotateFault\<close> establishes it.\<close>

lemma annotateFault_inv:
  assumes "length (fi_connected fi) = fi_nservers fi" "length (fi_crashed fi) = fi_nservers fi" "as_finfo s = Some fi"
  shows "\<exists>s'. annotateFault t s fi = Some s' \<and> as_finfo s' = Some fi \<and> fault_inv s'"
proof (cases "no_faults fi")
  case True
  then show ?thesis
    using no_faults_iff [OF assms(1,2)] assms
    by (simp add: annotateFault_def fault_inv_def AnnotateContinuousEnd_def on_an_def annotateContinuousEnd_def Let_def)
next
  case False
  obtain builder conn crashes where f: "fault_loop (fi_connected fi) (fi_crashed fi) 0 ''partition = '' [] [] = Some (builder, conn, crashes)"
    "(let builder = (if length conn > 0 then builder @ show_ints conn else builder)
      in if length crashes > 0 then builder @ '' / crash = '' @ show_ints crashes else builder) = fault_text (fi_connected fi) (fi_crashed fi)"
    using fault_loop_text assms(1,2) by metis
  have "annotateFault t s fi = Some (AnnotateContinuousColor t s TAG_PARTITION (fault_text (fi_connected fi) (fi_crashed fi))
      (fault_text (fi_connected fi) (fi_crashed fi)) COLOR_FAULT)"
    unfolding f(2) [symmetric] annotateFault_def Let_def no_faults_iff [OF assms(1,2)] using False by (simp add: f(1))
  with False assms show ?thesis
    by (auto simp: fault_inv_def AnnotateContinuousColor_def on_an_def annotateContinuousColor_def an_add_def Let_def split: option.splits)
qed

lemma set_crashed_result:
  "set_crashed down servers crashed changed = Some (crashed', changed') \<Longrightarrow>
   length crashed' = length crashed \<and> (\<not> changed' \<longrightarrow> crashed' = crashed \<and> \<not> changed) \<and>
   (\<forall>i < length crashed. crashed' ! i = (if int i \<in> set servers then down else crashed ! i))"
proof (induction down servers crashed changed rule: set_crashed.induct)
  case (2 down sid servers crashed changed)
  from "2.prems" obtain x c where s: "go_nth crashed sid = Some x" "go_upd crashed sid down = Some c"
    "set_crashed down servers c (if x \<noteq> down then True else changed) = Some (crashed', changed')"
    by (auto simp: bind_eq_Some_conv)
  note x = go_nth_SomeD [OF s(1)] and c = go_upd_SomeD [OF s(2)]
  note ih = "2.IH" [OF s]
  have same: "x = down \<Longrightarrow> c = crashed" using x c by (simp add: list_update_same_conv nat_less_iff)
  have "crashed' ! i = (if int i \<in> set (sid # servers) then down else crashed ! i)" if "i < length crashed" for i
    using ih c that by (auto simp: nth_list_update)
  with ih same c show ?case by (auto split: if_splits)
qed simp

lemma set_crashed_total:
  "\<forall>sid \<in> set servers. 0 \<le> sid \<and> sid < int (length crashed) \<Longrightarrow> \<exists>r. set_crashed down servers crashed changed = Some r"
  by (induction down servers crashed changed rule: set_crashed.induct) (auto simp: go_nth_def go_upd_def)

text \<open>
  The operations on faults, and all other annotations made in between, except \<open>AnnotateTwoPartitions\<close>, which the tests
  use instead of the connection matrix.
\<close>

inductive ann_step :: "annstate \<Rightarrow> annstate \<Rightarrow> bool" where
  connection: "AnnotateConnection t s connection = Some s' \<Longrightarrow> ann_step s s'"
| shutdown: "AnnotateShutdown t s servers = Some s' \<Longrightarrow> ann_step s s'"
| shutdown_all: "AnnotateShutdownAll t s = Some s' \<Longrightarrow> ann_step s s'"
| restart: "AnnotateRestart t s servers = Some s' \<Longrightarrow> ann_step s s'"
| restart_all: "AnnotateRestartAll t s = Some s' \<Longrightarrow> ann_step s s'"
| clear: "AnnotateClearFailure t s = Some s' \<Longrightarrow> ann_step s s'"
| point: "ann_step s (AnnotatePointColor t s tag desp details bgcolor)"
| interval: "ann_step s (AnnotateIntervalColor t s tag start desp details bgcolor)"
| continuous: "tag \<noteq> TAG_PARTITION \<Longrightarrow> ann_step s (AnnotateContinuousColor t s tag desp details bgcolor)"
| continuous_end: "tag \<noteq> TAG_PARTITION \<Longrightarrow> ann_step s (AnnotateContinuousEnd t s tag)"
| checker_begin: "AnnotateCheckerBegin t s details = Some s' \<Longrightarrow> ann_step s s'"
| checker_end: "AnnotateCheckerEnd t s desp details color = Some s' \<Longrightarrow> ann_step s s'"

lemma go_copy_length [simp]: "length (go_copy dst src) = length dst"
  by (simp add: go_copy_def)

lemma crash_op_inv:
  assumes "fault_inv s" "as_finfo s = Some fi" "set_crashed down servers (fi_crashed fi) False = Some (crashed, changed)"
    "(if \<not> changed then Some (s\<lparr>as_finfo := Some (fi\<lparr>fi_crashed := crashed\<rparr>)\<rparr>)
      else annotateFault t (s\<lparr>as_finfo := Some (fi\<lparr>fi_crashed := crashed\<rparr>)\<rparr>) (fi\<lparr>fi_crashed := crashed\<rparr>)) = Some s'"
  shows "fault_inv s'"
proof (cases changed)
  case True
  have "length (fi_connected fi) = fi_nservers fi" "length crashed = fi_nservers fi"
    using assms(1,2) set_crashed_result [OF assms(3)] by (auto simp: fault_inv_def)
  then show ?thesis
    using annotateFault_inv [of "fi\<lparr>fi_crashed := crashed\<rparr>" "s\<lparr>as_finfo := Some (fi\<lparr>fi_crashed := crashed\<rparr>)\<rparr>" t] assms(4) True by auto
next
  case False
  then have "s' = s\<lparr>as_finfo := Some fi\<rparr>" using assms(4) set_crashed_result [OF assms(3)] by simp
  then have "s' = s" using assms(2) by (cases s) simp
  with assms(1) show ?thesis by simp
qed

text \<open>Other annotations leave it alone.\<close>

lemma fault_inv_other:
  assumes "fault_inv s" "as_finfo s' = as_finfo s" "an_continuous (as_an s') TAG_PARTITION = an_continuous (as_an s) TAG_PARTITION"
  shows "fault_inv s'"
  using assms(1) unfolding fault_inv_def assms(2,3) .

lemmas annotate_defs = AnnotatePointColor_def AnnotateIntervalColor_def AnnotateContinuousColor_def AnnotateContinuousEnd_def
  on_an_def annotatePointColor_def annotateIntervalColor_def annotateContinuousColor_def annotateContinuousEnd_def an_add_def Let_def

lemma ann_step_inv:
  assumes "ann_step s s'" "fault_inv s"
  shows "fault_inv s'"
proof -
  obtain fi where fi: "as_finfo s = Some fi" "length (fi_connected fi) = fi_nservers fi" "length (fi_crashed fi) = fi_nservers fi"
    using assms(2) by (auto simp: fault_inv_def split: option.splits)
  from assms(1) show ?thesis
  proof cases
    case (connection t c)
    then show ?thesis
      using assms(2) fi annotateFault_inv [of "fi\<lparr>fi_connected := go_copy (fi_connected fi) c\<rparr>"
          "s\<lparr>as_finfo := Some (fi\<lparr>fi_connected := go_copy (fi_connected fi) c\<rparr>)\<rparr>" t]
      by (auto simp: AnnotateConnection_def split: if_splits)
  next
    case (shutdown t servers)
    then show ?thesis using crash_op_inv [OF assms(2) fi(1)] fi(1) by (auto simp: AnnotateShutdown_def bind_eq_Some_conv Let_def)
  next
    case (shutdown_all t)
    then show ?thesis
      using crash_op_inv [OF assms(2) fi(1)] fi(1) by (auto simp: AnnotateShutdownAll_def AnnotateShutdown_def bind_eq_Some_conv Let_def)
  next
    case (restart t servers)
    then show ?thesis using crash_op_inv [OF assms(2) fi(1)] fi(1) by (auto simp: AnnotateRestart_def bind_eq_Some_conv Let_def)
  next
    case (restart_all t)
    then show ?thesis
      using crash_op_inv [OF assms(2) fi(1)] fi(1) by (auto simp: AnnotateRestartAll_def AnnotateRestart_def bind_eq_Some_conv Let_def)
  next
    case (clear t)
    then show ?thesis
      using fi by (auto simp: AnnotateClearFailure_def fault_inv_def no_faults_def AnnotateContinuousEnd_def on_an_def annotateContinuousEnd_def Let_def)
  next
    case (checker_begin t details)
    let ?fi = "fi\<lparr>fi_ckbegin := \<lparr>ck_ts = t, ck_details = details\<rparr>\<rparr>"
    have s': "s' = s\<lparr>as_finfo := Some ?fi\<rparr>" using checker_begin fi(1) by (simp add: AnnotateCheckerBegin_def)
    have "no_faults ?fi = no_faults fi" by (simp add: no_faults_def)
    then show ?thesis using assms(2) fi(1) by (cases "an_continuous (as_an s) TAG_PARTITION") (simp_all add: fault_inv_def s')
  next
    case (checker_end t desp details color)
    then show ?thesis
      using fi by (intro fault_inv_other [OF assms(2)]) (auto simp: AnnotateCheckerEnd_def annotate_defs)
  qed (rule fault_inv_other [OF assms(2)]; simp add: annotate_defs split: option.split)+
qed

lemma annotate_test_inv: "fault_inv (AnnotateTest t s desp nservers)"
  by (simp add: fault_inv_def AnnotateTest_def AnnotateInfo_def annotate_defs mkFrameworkInfo_def an_clear_def no_faults_def)

interpretation faults: clocked_invariant "AnnotateTest t s desp nservers" ann_step "\<lambda>_. 0" 1 fault_inv
  for t :: int and s :: annstate and desp :: string and nservers :: nat
  by unfold_locales (auto simp: annotate_test_inv ann_step_inv)

text \<open>
  \<^bold>\<open>C36\<close>: Throughout a test the annotation of the tag \<open>$ Failure\<close> tells the truth: it is open exactly while some server is
  cut off or has crashed, and its text names the servers that are cut off one by one, those that are connected and those
  that have crashed, as the framework last recorded them.
\<close>

theorem fault_annotation_tracks:
  assumes "reach (AnnotateTest t s0 desp nservers) ann_step s"
  shows "\<exists>fi. as_finfo s = Some fi \<and>
    (no_faults fi \<longleftrightarrow> an_continuous (as_an s) TAG_PARTITION = None) \<and>
    (\<forall>c. an_continuous (as_an s) TAG_PARTITION = Some c \<longrightarrow>
       co_desp c = fault_text (fi_connected fi) (fi_crashed fi) \<and> co_details c = co_desp c)"
  using faults.reach_inv [OF assms] by (auto simp: fault_inv_def split: option.splits)


text \<open>A run: server 1 is cut off, then server 2 crashes.\<close>

abbreviation ann0 :: annstate where
  "ann0 \<equiv> \<lparr>as_an = mkAnnotation, as_finfo = None\<rparr>"

lemma fault_run:
  "\<exists>s1 s2. AnnotateConnection 20 (AnnotateTest 10 ann0 ''t'' 3) [True, False, True] = Some s1 \<and>
     AnnotateShutdown 30 s1 [2] = Some s2 \<and> an_continuous (as_an s2) TAG_PARTITION \<noteq> None \<and>
     (\<exists>fi. as_finfo s2 = Some fi \<and> fi_connected fi = [True, False, True] \<and> fi_crashed fi = [False, False, True])"
  by (simp add: AnnotateConnection_def AnnotateShutdown_def AnnotateTest_def AnnotateInfo_def annotateFault_def annotate_defs
      mkFrameworkInfo_def an_clear_def mkAnnotation_def go_copy_def go_nth_def go_upd_def numeral_eq_Suc)

theorem fault_annotation_tracks_witness:
  "\<exists>s c. reach (AnnotateTest 10 ann0 ''t'' 3) ann_step s \<and> an_continuous (as_an s) TAG_PARTITION = Some c \<and>
     co_desp c = ''partition = [1] [0] / crash = [2]''"
proof -
  obtain s1 s2 fi where s: "AnnotateConnection 20 (AnnotateTest 10 ann0 ''t'' 3) [True, False, True] = Some s1"
    "AnnotateShutdown 30 s1 [2] = Some s2" "an_continuous (as_an s2) TAG_PARTITION \<noteq> None"
    "as_finfo s2 = Some fi" "fi_connected fi = [True, False, True]" "fi_crashed fi = [False, False, True]"
    using fault_run by blast
  have r: "reach (AnnotateTest 10 ann0 ''t'' 3) ann_step s2"
    by (rule reach.reach_step, rule reach.reach_step, rule reach.reach_init, rule ann_step.connection [OF s(1)], rule ann_step.shutdown [OF s(2)])
  obtain c where c: "an_continuous (as_an s2) TAG_PARTITION = Some c" using s(3) by blast
  have "fault_text [True, False, True] [False, False, True] = ''partition = [1] [0] / crash = [2]''"
    by code_simp
  then show ?thesis using fault_annotation_tracks [OF r] r c s(4-6) by auto
qed


subsection \<open>Continuous annotations do not overlap\<close>

text \<open>Continuous annotations of all tags, in the order in which they are made.\<close>

datatype contev = Begin string string string | Finish

definition cont_event :: "Annotation \<Rightarrow> int \<times> string \<times> contev \<Rightarrow> Annotation" where
  "cont_event an e =
     (case e of (t, tag, Begin desp details bgcolor) \<Rightarrow> annotateContinuousColor t an tag desp details bgcolor
      | (t, tag, Finish) \<Rightarrow> annotateContinuousEnd t an tag)"

text \<open>The reference: one tag by itself, with the annotation that is open.\<close>

fun spans :: "string \<Rightarrow> Continuous option \<Rightarrow> (int \<times> contev) list \<Rightarrow> panno list \<times> Continuous option" where
  "spans tag c [] = ([], c)"
| "spans tag None ((t, Begin d x b) # es) = spans tag (Some \<lparr>co_start = t, co_desp = d, co_details = x, co_bgcolor = b\<rparr>) es"
| "spans tag (Some c) ((t, Begin d x b) # es) =
     (case spans tag (Some \<lparr>co_start = t, co_desp = d, co_details = x, co_bgcolor = b\<rparr>) es of (as, r) \<Rightarrow> (cont_anno tag c t # as, r))"
| "spans tag (Some c) ((t, Finish) # es) = (case spans tag None es of (as, r) \<Rightarrow> (cont_anno tag c t # as, r))"
| "spans tag None ((t, Finish) # es) = (case spans tag None es of (as, r) \<Rightarrow> (cont_anno tag zero_Continuous t # as, r))"

definition of_tag :: "string \<Rightarrow> (int \<times> string \<times> contev) list \<Rightarrow> (int \<times> contev) list" where
  "of_tag tag evs = map (\<lambda>(t, g, e). (t, e)) (filter (\<lambda>(t, g, e). g = tag) evs)"

text \<open>Nothing is ended that is not open.\<close>

fun ends_open :: "bool \<Rightarrow> (int \<times> contev) list \<Rightarrow> bool" where
  "ends_open opn [] = True"
| "ends_open opn ((t, Begin d x b) # es) = ends_open True es"
| "ends_open opn ((t, Finish) # es) = (opn \<and> ends_open False es)"

lemma cont_anno_Tag [simp]: "pa_Tag (cont_anno tag c t) = tag"
  by (simp add: cont_anno_def)

lemma events_of_tag:
  "filter (\<lambda>a. pa_Tag a = tag) (an_annotations (foldl cont_event an evs)) =
     filter (\<lambda>a. pa_Tag a = tag) (an_annotations an) @ fst (spans tag (an_continuous an tag) (of_tag tag evs)) \<and>
   an_continuous (foldl cont_event an evs) tag = snd (spans tag (an_continuous an tag) (of_tag tag evs))"
proof (induction evs arbitrary: an)
  case (Cons ev evs)
  obtain t g e where ev: "ev = (t, g, e)" by (cases ev)
  show ?case
  proof (cases "g = tag")
    case True
    then show ?thesis
      using Cons [of "cont_event an ev"]
      by (cases e; cases "an_continuous an tag")
        (simp_all add: ev of_tag_def cont_event_def annotateContinuousColor_def annotateContinuousEnd_def an_add_def Let_def split: prod.split)
  next
    case False
    then have "an_continuous (cont_event an ev) tag = an_continuous an tag"
      "filter (\<lambda>a. pa_Tag a = tag) (an_annotations (cont_event an ev)) = filter (\<lambda>a. pa_Tag a = tag) (an_annotations an)"
      by (cases e; simp add: ev cont_event_def annotateContinuousColor_def annotateContinuousEnd_def an_add_def Let_def split: option.split)+
    then show ?thesis using Cons [of "cont_event an ev"] False by (simp add: ev of_tag_def)
  qed
qed (simp add: of_tag_def)

lemma spans_sorted:
  assumes "sorted (map fst es)" "ends_open (c \<noteq> None) es" "\<forall>e \<in> set es. lb \<le> fst e"
    "\<forall>x. c = Some x \<longrightarrow> lb \<le> co_start x \<and> (\<forall>e \<in> set es. co_start x \<le> fst e)"
  shows "sorted_wrt (\<lambda>a b. pa_End a \<le> pa_Start b) (fst (spans tag c es)) \<and>
    (\<forall>a \<in> set (fst (spans tag c es)). lb \<le> pa_Start a \<and> pa_Start a \<le> pa_End a)"
  using assms
proof (induction tag c es arbitrary: lb rule: spans.induct)
  case (2 tag t d x b es)
  then show ?case using "2.IH" [of lb] by simp
next
  case (3 tag c t d x b es)
  then show ?case using "3.IH" [of t] by (force simp: cont_anno_def split: prod.split)
next
  case (4 tag c t es)
  then show ?case using "4.IH" [of t] by (force simp: cont_anno_def split: prod.split)
qed simp_all

text \<open>
  \<^bold>\<open>C37\<close>: However the continuous annotations of different tags are mixed, those of one tag are what the events of
  this tag alone give; and when nothing is ended that is not open, they follow one another without overlap, each from its beginning to
  the beginning of the next one or to its end.
\<close>

theorem continuous_annotations_disjoint:
  assumes "sorted (map fst evs)" "ends_open False (of_tag tag evs)"
  shows "filter (\<lambda>a. pa_Tag a = tag) (an_annotations (foldl cont_event mkAnnotation evs)) = fst (spans tag None (of_tag tag evs)) \<and>
    sorted_wrt (\<lambda>a b. pa_End a \<le> pa_Start b) (fst (spans tag None (of_tag tag evs))) \<and>
    (\<forall>a \<in> set (fst (spans tag None (of_tag tag evs))). pa_Start a \<le> pa_End a)"
proof -
  have e: "map fst (of_tag tag evs) = map fst (filter (\<lambda>(t, g, e). g = tag) evs)" by (simp add: of_tag_def comp_def case_prod_unfold)
  have s: "sorted (map fst (of_tag tag evs))" unfolding e by (rule sorted_filter [OF assms(1)])
  let ?lb = "Min (insert 0 (fst ` set (of_tag tag evs)))"
  have "\<forall>e \<in> set (of_tag tag evs). ?lb \<le> fst e" by simp
  from spans_sorted [OF s, of None ?lb tag] this assms(2) events_of_tag [of tag mkAnnotation evs] show ?thesis
    by (simp add: mkAnnotation_def)
qed

theorem continuous_annotations_disjoint_witness:
  "map (\<lambda>a. (pa_Start a, pa_End a, pa_Description a))
     (filter (\<lambda>a. pa_Tag a = ''x'') (an_annotations (foldl cont_event mkAnnotation
       [(1, ''x'', Begin ''a'' [] []), (2, ''y'', Begin ''b'' [] []), (3, ''x'', Begin ''c'' [] []), (4, ''y'', Finish), (5, ''x'', Finish)])))
   = [(1, 3, ''a''), (3, 5, ''c'')]"
proof -
  let ?e = "[(1 :: int, ''x'', Begin ''a'' [] []), (2, ''y'', Begin ''b'' [] []), (3, ''x'', Begin ''c'' [] []), (4, ''y'', Finish), (5, ''x'', Finish)]"
  have "sorted (map fst ?e)" "ends_open False (of_tag ''x'' ?e)" by (simp_all add: of_tag_def)
  from continuous_annotations_disjoint [OF this] show ?thesis by (simp add: of_tag_def cont_anno_def)
qed

text \<open>
  The end of a continuous annotation that is not open is recorded all the same, as an annotation without text that
  begins at time 0: \<open>AnnotateClearFailure\<close> does so whenever there are no faults to clear.
\<close>

theorem spurious_fault_annotation:
  assumes "reach (AnnotateTest t0 s0 desp nservers) ann_step s" "as_finfo s = Some fi" "no_faults fi"
  shows "\<exists>s'. AnnotateClearFailure t s = Some s' \<and>
    an_annotations (as_an s') = an_annotations (as_an s) @
      [\<lparr>pa_Tag = TAG_PARTITION, pa_Start = 0, pa_End = t, pa_Description = [], pa_Details = [], pa_BackgroundColor = []\<rparr>]"
proof -
  have "an_continuous (as_an s) TAG_PARTITION = None"
    using faults.reach_inv [OF assms(1)] assms(2,3) by (auto simp: fault_inv_def split: option.splits)
  then show ?thesis using assms(2) by (simp add: AnnotateClearFailure_def annotate_defs cont_anno_def zero_Continuous_def)
qed

theorem spurious_fault_annotation_witness:
  "\<exists>s'. AnnotateClearFailure 20 (AnnotateTest 10 ann0 ''t'' 3) = Some s' \<and> length (an_annotations (as_an s')) = 2"
proof -
  let ?s = "AnnotateTest 10 ann0 ''t'' 3"
  have f: "as_finfo ?s = Some (mkFrameworkInfo 3)" "length (an_annotations (as_an ?s)) = 1"
    by (simp_all add: AnnotateTest_def AnnotateInfo_def annotate_defs an_clear_def)
  have "no_faults (mkFrameworkInfo 3)" by (simp add: no_faults_def mkFrameworkInfo_def)
  from spurious_fault_annotation [OF reach.reach_init f(1) this, of 20] f(2) show ?thesis by auto
qed

text \<open>
  The start of a check is not forgotten when the check ends: a second result without a new start is recorded as
  an interval from the first start, with its text.
\<close>

theorem checker_begin_not_reset:
  assumes "AnnotateCheckerBegin t0 s d = Some s1" "t0 \<noteq> 0" "AnnotateCheckerEnd t1 s1 desp1 details1 color1 = Some s2"
  shows "\<exists>s3. AnnotateCheckerEnd t2 s2 desp2 details2 color2 = Some s3 \<and>
    an_annotations (as_an s3) = an_annotations (as_an s2) @
      [\<lparr>pa_Tag = TAG_CHECKER, pa_Start = t0, pa_End = t2, pa_Description = desp2, pa_Details = d @ '': '' @ details2, pa_BackgroundColor = color2\<rparr>]"
proof -
  obtain fi where "as_finfo s2 = Some fi" "fi_ckbegin fi = \<lparr>ck_ts = t0, ck_details = d\<rparr>"
    using assms by (auto simp: AnnotateCheckerBegin_def AnnotateCheckerEnd_def annotate_defs bind_eq_Some_conv)
  then show ?thesis using assms(2) by (simp add: AnnotateCheckerEnd_def annotate_defs)
qed

theorem checker_begin_not_reset_witness:
  "\<exists>s1 s2 s3. AnnotateCheckerBegin 20 (AnnotateTest 10 ann0 ''t'' 3) ''check'' = Some s1 \<and>
     AnnotateCheckerEnd 30 s1 ''ok'' ''fine'' COLOR_SUCCESS = Some s2 \<and>
     AnnotateCheckerEnd 50 s2 ''ok'' ''again'' COLOR_SUCCESS = Some s3 \<and>
     pa_Start (last (an_annotations (as_an s3))) = 20"
proof -
  obtain s1 where 1: "AnnotateCheckerBegin 20 (AnnotateTest 10 ann0 ''t'' 3) ''check'' = Some s1"
    by (auto simp: AnnotateCheckerBegin_def AnnotateTest_def AnnotateInfo_def annotate_defs)
  obtain s2 where 2: "AnnotateCheckerEnd 30 s1 ''ok'' ''fine'' COLOR_SUCCESS = Some s2"
    using 1 by (auto simp: AnnotateCheckerBegin_def AnnotateCheckerEnd_def AnnotateTest_def AnnotateInfo_def annotate_defs)
  show ?thesis using checker_begin_not_reset [OF 1 _ 2, of 50 "''ok''" "''again''" COLOR_SUCCESS] 1 2 by auto
qed

subsection \<open>What is visualised\<close>

text \<open>
  \<open>cleanup\<close> writes a file exactly when it is asked to, once per test, and then all recorded annotations and one for
  each open continuous annotation are in it.
\<close>

lemma cleanup_visualises:
  assumes "range_order (an_continuous an) tags"
  shows "snd (an_cleanup enabled opened t tags an failed end) = Some vis \<longleftrightarrow>
    enabled \<noteq> ''never'' \<and> (failed \<or> enabled = ''always'') \<and> \<not> an_finalized an \<and> opened \<and>
    (an_annotations an \<noteq> [] \<or> an_continuous an \<noteq> Map.empty) \<and>
    vis = an_annotations an @ map (\<lambda>tag. cont_anno tag (the (an_continuous an tag)) t) tags @ [end_anno t end]"
proof -
  have "tags = [] \<longleftrightarrow> an_continuous an = Map.empty" 
    using assms unfolding range_order_def by (metis dom_eq_empty_conv set_empty)
  then show ?thesis by (auto simp: an_cleanup_def an_finalize_def Let_def)
qed

lemma finalized_not_visualised:
  "snd (an_cleanup enabled opened t tags (as_an (fst (FinalizeAnnotations t' tags' s end))) failed end') = None"
  by (simp add: an_cleanup_def FinalizeAnnotations_def an_finalize_def)

end
