(* ===== verification/TesterCfg.thy ===== *)
theory TesterCfg
  imports TesterClnt SockRpc Annot
begin

text \<open>
  The configuration of a test, \<open>src/tester1/config.go\<close>, with the RPC server of the tester, \<open>testsrv.go\<close>: it creates
  the network, the first group of servers and the clients, counts remote calls and operations between \<open>Begin\<close> and
  \<open>End\<close>, enforces the time limit and takes everything down.

  The clock is an argument, in nanoseconds. \<open>t.Fatal\<close> and \<open>t.FailNow\<close> end the goroutine of the test: the result is
  then on the left of a sum. What the random source delivers is an argument.
\<close>

definition GRP0 :: int where "GRP0 = 0"

record ('o, 'w, 'v, 'so, 'sv) Config =
  cf_clnts :: Clnts
  cf_groups :: "'v Groups"
  cf_net :: "('o, 'w) net"
  cf_failed :: bool  \<comment> \<open>\<open>t.Failed()\<close>\<close>
  cf_start :: int
  cf_t0 :: int
  cf_rpcs0 :: int
  cf_ops :: "32 word"
  cf_endName :: string
  cf_trpc :: "('so, 'sv) RPCSrv option"

subsection \<open>Random names and orders\<close>

text \<open>\<open>base64.URLEncoding\<close>\<close>

definition url_char :: "nat \<Rightarrow> char" where
  "url_char i = (''ABCDEFGHIJKLMNOPQRSTUVWXYZabcdefghijklmnopqrstuvwxyz0123456789-_'' ! i)"

fun EncodeToString :: "bytes \<Rightarrow> string" where
  "EncodeToString [] = []"
| "EncodeToString [a] =
     [url_char (unat a div 4), url_char (unat a mod 4 * 16), CHR ''='', CHR ''='']"
| "EncodeToString [a, b] =
     [url_char (unat a div 4), url_char (unat a mod 4 * 16 + unat b div 16), url_char (unat b mod 16 * 4), CHR ''='']"
| "EncodeToString (a # b # c # bs) =
     [url_char (unat a div 4), url_char (unat a mod 4 * 16 + unat b div 16),
      url_char (unat b mod 16 * 4 + unat c div 64), url_char (unat c mod 64)] @ EncodeToString bs"

text \<open>\<open>Randstring\<close>: \<open>b\<close> are the \<open>2 * n\<close> bytes read from the random source.\<close>

definition Randstring :: "nat \<Rightarrow> bytes \<Rightarrow> string option" where
  "Randstring n b = go_upto (EncodeToString b) (int n)"

text \<open>\<open>makeSeed\<close>: \<open>bigx\<close> is drawn below \<open>2 ^ 62\<close>.\<close>

definition makeSeed :: "int \<Rightarrow> 64 word" where
  "makeSeed bigx = word_of_int bigx"

text \<open>The loop of \<open>random_handles\<close>: \<open>intn i\<close> is the \<open>j\<close> drawn in round \<open>i\<close>, at most \<open>i\<close>.\<close>

fun shuffle_loop :: "(nat \<Rightarrow> nat) \<Rightarrow> nat list \<Rightarrow> 'a list \<Rightarrow> 'a list" where
  "shuffle_loop intn [] sa = sa"
| "shuffle_loop intn (i # is) sa =
     (let j = intn i; x = sa ! i; y = sa ! j in shuffle_loop intn is ((sa[i := y])[j := x]))"

definition random_handles :: "(nat \<Rightarrow> nat) \<Rightarrow> 'a list \<Rightarrow> 'a list" where
  "random_handles intn kvh = shuffle_loop intn [0..<length kvh] kvh"

subsection \<open>Creation\<close>

text \<open>\<open>newTesterRPCSrv\<close>: \<open>svc\<close> and \<open>typ\<close> are the \<open>TesterRPC\<close> object and its methods.\<close>

definition newTesterRPCSrv :: "string \<Rightarrow> 'so \<Rightarrow> ('so, 'sv) Method list \<Rightarrow> ('so, 'sv) RPCSrv" where
  "newTesterRPCSrv endName svc typ = RPCSrv_AddService (NewRPCSrv endName) ''TesterRPC'' svc typ"

definition MakeConfig ::
  "(nat \<Rightarrow> ('o, 'w) Server) \<Rightarrow> (nat \<Rightarrow> Clnt) \<Rightarrow> string \<Rightarrow> 'so \<Rightarrow> ('so, 'sv) Method list \<Rightarrow> (nat \<Rightarrow> nat \<Rightarrow> string) \<Rightarrow> (nat \<Rightarrow> StartEnv) \<Rightarrow>
     int \<Rightarrow> nat \<Rightarrow> bool \<Rightarrow> string list \<Rightarrow> ('o, 'w, 'v, 'so, 'sv) Config option" where
  "MakeConfig heap clntheap endName svc typ rand env now n reliable args = do {
     let net = MakeNetwork heap;
     let trpc = newTesterRPCSrv endName svc typ;
     (net, groups) \<leftarrow> MakeGroupStart args GRP0 n rand env (net, newGroups endName);
     Some \<lparr>cf_clnts = makeClnts clntheap, cf_groups = groups, cf_net = Reliable net reliable, cf_failed = False,
           cf_start = now, cf_t0 = 0, cf_rpcs0 = 0, cf_ops = 0, cf_endName = endName, cf_trpc = Some trpc\<rparr>
   }"

definition SetReliable :: "('o, 'w, 'v, 'so, 'sv) Config \<Rightarrow> bool \<Rightarrow> ('o, 'w, 'v, 'so, 'sv) Config" where
  "SetReliable cfg reliable = cfg\<lparr>cf_net := Reliable (cf_net cfg) reliable\<rparr>"

definition cfg_IsReliable :: "('o, 'w, 'v, 'so, 'sv) Config \<Rightarrow> bool" where
  "cfg_IsReliable cfg = IsReliable (cf_net cfg)"

definition SetLongReordering :: "('o, 'w, 'v, 'so, 'sv) Config \<Rightarrow> bool \<Rightarrow> ('o, 'w, 'v, 'so, 'sv) Config" where
  "SetLongReordering cfg longrel = cfg\<lparr>cf_net := LongReordering (cf_net cfg) longrel\<rparr>"

definition SetLongDelays :: "('o, 'w, 'v, 'so, 'sv) Config \<Rightarrow> bool \<Rightarrow> ('o, 'w, 'v, 'so, 'sv) Config" where
  "SetLongDelays cfg longdel = cfg\<lparr>cf_net := LongDelays (cf_net cfg) longdel\<rparr>"

definition cfg_AddService ::
  "('o, 'w, 'v, 'so, 'sv) Config \<Rightarrow> string \<Rightarrow> 'so \<Rightarrow> ('so, 'sv) Method list \<Rightarrow> ('o, 'w, 'v, 'so, 'sv) Config" where
  "cfg_AddService cfg typname svc typ =
     (case cf_trpc cfg of None \<Rightarrow> cfg | Some trpc \<Rightarrow> cfg\<lparr>cf_trpc := Some (RPCSrv_AddService trpc typname svc typ)\<rparr>)"

subsection \<open>Statistics and the time limit\<close>

definition RpcTotal :: "('o, 'w, 'v, 'so, 'sv) Config \<Rightarrow> int" where
  "RpcTotal cfg = GetTotalCount (cf_net cfg)"

definition BytesTotal :: "('o, 'w, 'v, 'so, 'sv) Config \<Rightarrow> int" where
  "BytesTotal cfg = GetTotalBytes (cf_net cfg)"

definition cfg_Begin :: "int \<Rightarrow> ('o, 'w, 'v, 'so, 'sv) Config \<Rightarrow> ('o, 'w, 'v, 'so, 'sv) Config" where
  "cfg_Begin now cfg = cfg\<lparr>cf_t0 := now, cf_rpcs0 := RpcTotal cfg, cf_ops := 0\<rparr>"

definition cfg_OpInc :: "('o, 'w, 'v, 'so, 'sv) Config \<Rightarrow> ('o, 'w, 'v, 'so, 'sv) Config" where
  "cfg_OpInc cfg = cfg\<lparr>cf_ops := cf_ops cfg + 1\<rparr>"

definition cfg_Fatalf :: "('o, 'w, 'v, 'so, 'sv) Config \<Rightarrow> ('o, 'w, 'v, 'so, 'sv) Config" where
  "cfg_Fatalf cfg = cfg\<lparr>cf_failed := True\<rparr>"

definition CheckTimeout ::
  "int \<Rightarrow> ('o, 'w, 'v, 'so, 'sv) Config \<Rightarrow> ('o, 'w, 'v, 'so, 'sv) Config + ('o, 'w, 'v, 'so, 'sv) Config" where
  "CheckTimeout now cfg =
     (if \<not> cf_failed cfg \<and> now - cf_start cfg > 120 * 10 ^ 9 then Inl (cfg\<lparr>cf_failed := True\<rparr>) else Inr cfg)"

text \<open>The line that \<open>End\<close> prints.\<close>

record report =
  rp_time :: int
  rp_npeers :: nat
  rp_nrpc :: int
  rp_ops :: int

definition cfg_End ::
  "int \<Rightarrow> ('o, 'w, 'v, 'so, 'sv) Config \<Rightarrow>
     (('o, 'w, 'v, 'so, 'sv) Config + ('o, 'w, 'v, 'so, 'sv) Config \<times> report option) option" where
  "cfg_End now cfg =
     (case CheckTimeout now cfg of
        Inl cfg \<Rightarrow> Some (Inl cfg)
      | Inr cfg \<Rightarrow>
          if cf_failed cfg = False then do {
            sg \<leftarrow> lookupGroup (cf_groups cfg) GRP0;
            Some (Inr (cfg, Some \<lparr>rp_time = now - cf_t0 cfg, rp_npeers = grp_N sg,
              rp_nrpc = RpcTotal cfg - cf_rpcs0 cfg, rp_ops = sint (cf_ops cfg)\<rparr>))
          } else Some (Inr (cfg, None)))"

text \<open>
  \<open>Cleanup\<close>: \<open>order\<close> is the order of the groups, \<open>enabled\<close>, \<open>opened\<close>, \<open>now\<close> and \<open>tags\<close> are what the annotations need.
\<close>

definition cfg_Cleanup ::
  "int list \<Rightarrow> string \<Rightarrow> bool \<Rightarrow> int \<Rightarrow> string list \<Rightarrow> annstate \<Rightarrow> ('o, 'w, 'v, 'so, 'sv) Config \<Rightarrow>
     (('o, 'w, 'v, 'so, 'sv) Config \<times> annstate \<times> panno list option) option" where
  "cfg_Cleanup order enabled opened now tags s cfg = do {
     (net, clnts) \<leftarrow> Clnts_cleanup (cf_net cfg, cf_clnts cfg);
     (net, groups) \<leftarrow> cleanup_groups order (net, cf_groups cfg);
     net \<leftarrow> Cleanup net;
     let (an, vis) = (if cf_failed cfg then an_cleanup enabled opened now tags (as_an s) True ''test failed''
                      else an_cleanup enabled opened now tags (as_an s) False ''test passed'');
     Some (cfg\<lparr>cf_clnts := clnts, cf_groups := groups, cf_net := net\<rparr>, s\<lparr>as_an := an\<rparr>, vis)
   }"


subsection \<open>Names and orders are as needed\<close>

definition url_alphabet :: "char set" where
  "url_alphabet = set ''ABCDEFGHIJKLMNOPQRSTUVWXYZabcdefghijklmnopqrstuvwxyz0123456789-_''"

lemma url_char_in: "i < 64 \<Longrightarrow> url_char i \<in> url_alphabet"
  unfolding url_char_def url_alphabet_def by (rule nth_mem) simp

lemma byte_small: "unat (a :: 8 word) < 256"
  using unsigned_less [of a, where ?'a = nat] by simp

lemma sextets:
  fixes a b c :: "8 word"
  shows "url_char (unat a div 4) \<in> url_alphabet" "url_char (unat a mod 4 * 16) \<in> url_alphabet"
    "url_char (unat a mod 4 * 16 + unat b div 16) \<in> url_alphabet" "url_char (unat b mod 16 * 4) \<in> url_alphabet"
    "url_char (unat b mod 16 * 4 + unat c div 64) \<in> url_alphabet" "url_char (unat c mod 64) \<in> url_alphabet"
proof -
  have "unat b div 16 < 16" "unat c div 64 < 4" "unat a mod 4 < 4" "unat b mod 16 < 16"
    using byte_small [of b] byte_small [of c] by simp_all
  then show "url_char (unat a mod 4 * 16 + unat b div 16) \<in> url_alphabet" "url_char (unat b mod 16 * 4 + unat c div 64) \<in> url_alphabet"
    "url_char (unat a mod 4 * 16) \<in> url_alphabet" "url_char (unat b mod 16 * 4) \<in> url_alphabet"
    by (auto intro!: url_char_in)
qed (use byte_small [of a] in \<open>auto intro!: url_char_in\<close>)

lemma EncodeToString_prefix: "3 * m \<le> 4 * length b \<Longrightarrow> m \<le> length (EncodeToString b) \<and> set (take m (EncodeToString b)) \<subseteq> url_alphabet"
proof (induction b arbitrary: m rule: EncodeToString.induct)
  case (2 a)
  then have "m = 0 \<or> m = 1" by auto
  then show ?case using sextets by auto
next
  case (3 a b)
  then have m: "m \<le> 2" by simp
  have "set (take m (EncodeToString [a, b])) \<subseteq> set (take 2 (EncodeToString [a, b]))"
    using m by (rule set_take_subset_set_take)
  moreover have "set (take 2 (EncodeToString [a, b])) \<subseteq> url_alphabet" using sextets by simp
  ultimately show ?case using m by auto
next
  case (4 a b c bs)
  let ?q = "[url_char (unat a div 4), url_char (unat a mod 4 * 16 + unat b div 16),
       url_char (unat b mod 16 * 4 + unat c div 64), url_char (unat c mod 64)]"
  have enc: "EncodeToString (a # b # c # bs) = ?q @ EncodeToString bs" by simp
  have len: "length ?q = 4" by simp
  have "set ?q \<subseteq> url_alphabet" using sextets by simp
  then have q: "set (take m ?q) \<subseteq> url_alphabet" using set_take_subset [of m ?q] by blast
  have ih: "m - 4 \<le> length (EncodeToString bs)" "set (take (m - 4) (EncodeToString bs)) \<subseteq> url_alphabet"
    using 4(1) [of "m - 4"] 4(2) by simp_all
  have "m \<le> 4 + length (EncodeToString bs)" using ih(1) by linarith
  then show ?case unfolding enc take_append len set_append length_append using q ih(2) by blast
qed simp

text \<open>A random name has the wanted length and can be part of a file name: no slash, dot or padding.\<close>

lemma randstring_is_name:
  assumes "length b = 2 * n"
  shows "\<exists>s. Randstring n b = Some s \<and> length s = n \<and> set s \<subseteq> url_alphabet"
  using EncodeToString_prefix [of n b] assms by (simp add: Randstring_def go_upto_def min_absorb2)

lemma shuffle_loop_mset:
  "\<forall>i \<in> set is. i < length sa \<and> intn i < length sa \<Longrightarrow> mset (shuffle_loop intn is sa) = mset sa"
  by (induction intn "is" sa rule: shuffle_loop.induct) (auto simp: Let_def mset_swap)

text \<open>\<open>random_handles\<close> returns the handles it was given, in another order.\<close>

lemma random_handles_mset: "\<forall>i. intn i \<le> i \<Longrightarrow> mset (random_handles intn kvh) = mset kvh"
  unfolding random_handles_def by (rule shuffle_loop_mset) (auto intro: le_less_trans)

subsection \<open>The report of a test\<close>

text \<open>What is counted while a test runs.\<close>

datatype cfg_ev = EvRpc "string reqMsg" | EvOp

fun cfg_do :: "cfg_ev \<Rightarrow> ('o, 'w, 'v, 'so, 'sv) Config \<Rightarrow> ('o, 'w, 'v, 'so, 'sv) Config" where
  "cfg_do (EvRpc req) cfg = cfg\<lparr>cf_net := accept_req (cf_net cfg) req\<rparr>"
| "cfg_do EvOp cfg = cfg_OpInc cfg"

definition n_rpcs :: "cfg_ev list \<Rightarrow> nat" where
  "n_rpcs evs = length (filter (\<lambda>e. e \<noteq> EvOp) evs)"

definition n_ops :: "cfg_ev list \<Rightarrow> nat" where
  "n_ops evs = length (filter (\<lambda>e. e = EvOp) evs)"

lemma sint_Suc: "sint (w :: 32 word) + 1 < 2 ^ 31 \<Longrightarrow> sint (w + 1) = sint w + 1"
  using sint_ge [of w] by (simp add: sint_word_ariths signed_take_bit_int_eq_self)

lemma cfg_do_counts:
  assumes "RpcTotal cfg + int (n_rpcs evs) < 2 ^ 31" "sint (cf_ops cfg) + int (n_ops evs) < 2 ^ 31"
  shows "RpcTotal (fold cfg_do evs cfg) = RpcTotal cfg + int (n_rpcs evs) \<and>
    sint (cf_ops (fold cfg_do evs cfg)) = sint (cf_ops cfg) + int (n_ops evs) \<and>
    cf_groups (fold cfg_do evs cfg) = cf_groups cfg \<and> cf_failed (fold cfg_do evs cfg) = cf_failed cfg \<and>
    cf_start (fold cfg_do evs cfg) = cf_start cfg \<and> cf_t0 (fold cfg_do evs cfg) = cf_t0 cfg \<and>
    cf_rpcs0 (fold cfg_do evs cfg) = cf_rpcs0 cfg"
  using assms
proof (induction evs arbitrary: cfg)
  case (Cons e evs)
  show ?case
  proof (cases e)
    case (EvRpc req)
    then have "RpcTotal (cfg_do e cfg) = RpcTotal cfg + 1"
      using Cons.prems(1) sint_Suc [of "nw_count (cf_net cfg)"]
      by (simp add: RpcTotal_def GetTotalCount_def accept_req_def n_rpcs_def)
    then show ?thesis using Cons EvRpc by (simp add: n_rpcs_def n_ops_def)
  next
    case EvOp
    then have "sint (cf_ops (cfg_do e cfg)) = sint (cf_ops cfg) + 1" "RpcTotal (cfg_do e cfg) = RpcTotal cfg"
      using Cons.prems(2) sint_Suc [of "cf_ops cfg"] by (simp_all add: cfg_OpInc_def n_ops_def RpcTotal_def)
    then show ?thesis using Cons EvOp by (simp add: n_rpcs_def n_ops_def cfg_OpInc_def)
  qed
qed (simp add: n_rpcs_def n_ops_def)

text \<open>
  The line that a passed test prints is right: the requests the network has accepted and the operations counted since
  \<open>Begin\<close>, and the size of the first group, as long as the 32-bit counters do not overflow.
\<close>

theorem test_report_counts:
  assumes "lookupGroup (cf_groups cfg) GRP0 = Some sg" "\<not> cf_failed cfg" "now - cf_start cfg \<le> 120 * 10 ^ 9"
    and "RpcTotal cfg + int (n_rpcs evs) < 2 ^ 31" "int (n_ops evs) < 2 ^ 31"
  shows "\<exists>cfg'. cfg_End now (fold cfg_do evs (cfg_Begin t0 cfg)) = Some (Inr (cfg', Some
    \<lparr>rp_time = now - t0, rp_npeers = grp_N sg, rp_nrpc = int (n_rpcs evs), rp_ops = int (n_ops evs)\<rparr>))"
proof -
  have b: "RpcTotal (cfg_Begin t0 cfg) = RpcTotal cfg" "cf_ops (cfg_Begin t0 cfg) = 0" "cf_rpcs0 (cfg_Begin t0 cfg) = RpcTotal cfg"
    "cf_t0 (cfg_Begin t0 cfg) = t0" "cf_groups (cfg_Begin t0 cfg) = cf_groups cfg" "cf_failed (cfg_Begin t0 cfg) = cf_failed cfg"
    "cf_start (cfg_Begin t0 cfg) = cf_start cfg"
    by (simp_all add: cfg_Begin_def RpcTotal_def)
  show ?thesis
    using cfg_do_counts [of "cfg_Begin t0 cfg" evs] assms by (simp add: cfg_End_def CheckTimeout_def b)
qed

definition small_cfg :: "(unit, unit, unit, unit, unit) Config" where
  "small_cfg = \<lparr>cf_clnts = makeClnts (\<lambda>_. makeClntTo None), cf_groups = (newGroups ''t'')\<lparr>gs_grps := [GRP0 \<mapsto>
       \<lparr>sg_args = [], sg_srvs = [], sg_servernames = [], sg_endName = ''t'', sg_gid = 0, sg_connected = []\<rparr>]\<rparr>,
     cf_net = MakeNetwork (\<lambda>_. MakeServer), cf_failed = False, cf_start = 0, cf_t0 = 0, cf_rpcs0 = 0, cf_ops = 7,
     cf_endName = ''t'', cf_trpc = None\<rparr>"


theorem test_report_counts_witness:
  "\<exists>cfg'. cfg_End 9 (fold cfg_do [EvOp, EvRpc \<lparr>rq_endname = ''e'', rq_svcMeth = ''S.m'', rq_args = []\<rparr>, EvOp] (cfg_Begin 4 small_cfg)) =
     Some (Inr (cfg', Some \<lparr>rp_time = 5, rp_npeers = 0, rp_nrpc = 1, rp_ops = 2\<rparr>))"
proof -
  let ?evs = "[EvOp, EvRpc \<lparr>rq_endname = ''e'', rq_svcMeth = ''S.m'', rq_args = []\<rparr>, EvOp]"
  obtain sg where sg: "lookupGroup (cf_groups small_cfg) GRP0 = Some sg" "grp_N sg = 0"
    by (simp add: lookupGroup_def small_cfg_def grp_N_def)
  have "\<not> cf_failed small_cfg" "9 - cf_start small_cfg \<le> 120 * 10 ^ 9" "RpcTotal small_cfg + int (n_rpcs ?evs) < 2 ^ 31" "int (n_ops ?evs) < 2 ^ 31"
    by (simp_all add: small_cfg_def RpcTotal_def GetTotalCount_def MakeNetwork_def n_rpcs_def n_ops_def)
  from test_report_counts [OF sg(1) this, of 4] sg(2) show ?thesis by (simp add: n_rpcs_def n_ops_def)
qed

end
