(* ===== verification/DaemonBoot.thy ===== *)
theory DaemonBoot
  imports Daemon
begin

text \<open>
  The start of a server process: \<open>InitDaemon\<close> of \<open>src/tester1/daemonsrv.go\<close> from the creation of its control
  socket onwards, its control methods \<open>Init\<close> and \<open>InitWait\<close>, which run in goroutines of their own, and the
  tester's side: \<open>runDaemon\<close>, \<open>init\<close> and \<open>waitInit\<close> of \<open>src/tester1/daemonclnt.go\<close> as \<open>StartServer\<close> in
  \<open>src/tester1/group.go\<close> calls them. The tester connects to the two sockets of the process with
  \<open>dial\<close> of \<open>src/tester1/sockrpc/rpcclnt.go\<close>, which tries a hundred times.

  Nothing orders the two processes but the sockets. A socket is opened by a goroutine of \<open>NewRPCSrv\<close>
  (\<open>src/tester1/sockrpc/rpcsrv.go\<close>) at any time after its creation; a call that arrives before \<open>AddService\<close> has
  registered the service ends the process (\<open>log.Fatalf\<close> in \<open>dispatch\<close> of \<open>src/labrpc/labrpc.go\<close>).

  The main goroutine and the methods meet on the channel \<open>ds.ch\<close>, which has no buffer: a send and a receive
  happen together. The channel serves three purposes: \<open>Init\<close> hands over the state, the main goroutine
  signals that the services are registered, and a last receive keeps the process alive. The theory shows that
  the order in which the tester makes its calls keeps them apart. \<open>mks\<close> is the function that makes the services
  of a server from its persistent state.
\<close>

subsection \<open>The process\<close>

text \<open>
  Where the main goroutine is: before \<open>NewRPCSrv\<close> and before \<open>AddService\<close> for the control methods, at its first
  receive, before \<open>NewRPCSrv\<close> for the services, registering them, at its send, at its last receive, or gone.
\<close>

datatype 'svc MainPc = MMake | MAddCtl | MWait | MServe | MReg "'svc list" | MSignal | MEnd | MExit

text \<open>A socket: not created, its goroutine has to open it, or it accepts connections.\<close>

datatype Sock = NoSock | Opening | Open

datatype 'v CtlReq = ReqInit "'v InitArgs" | ReqInitWait

text \<open>
  A control call: it is on its way, its goroutine waits to send a persister or to receive, or the call has returned,
  with the value that the tester's \<open>RPCMarshall\<close> gets.
\<close>

datatype 'v BootCall = Requested "'v CtlReq" | InInit "'v Persister" | InWait | Returned bool

record ('v, 'svc) Boot =
  bo_ds :: "'v DaemonSrv"
  bo_main :: "'svc MainPc"
  bo_ctlSock :: Sock
  bo_ctlReg :: bool  \<comment> \<open>the control methods are registered\<close>
  bo_sock :: Sock
  bo_svcs :: "'svc list"
  bo_calls :: "'v BootCall list"
  bo_dead :: bool  \<comment> \<open>\<open>log.Fatalf\<close>\<close>

definition boot_init :: "'v DaemonSrv \<Rightarrow> ('v, 'svc) Boot" where
  "boot_init ds = \<lparr>bo_ds = ds, bo_main = MMake, bo_ctlSock = NoSock, bo_ctlReg = False, bo_sock = NoSock, bo_svcs = [],
     bo_calls = [], bo_dead = False\<rparr>"

abbreviation call_at :: "('v, 'svc) Boot \<Rightarrow> nat \<Rightarrow> 'v BootCall option" where
  "call_at s i \<equiv> (if i < length (bo_calls s) then Some (bo_calls s ! i) else None)"

definition set_call :: "('v, 'svc) Boot \<Rightarrow> nat \<Rightarrow> 'v BootCall \<Rightarrow> ('v, 'svc) Boot" where
  "set_call s i c = s\<lparr>bo_calls := (bo_calls s)[i := c]\<rparr>"

text \<open>The start of a control method, up to its channel operation.\<close>

fun start_ctl :: "'v CtlReq \<Rightarrow> 'v BootCall" where
  "start_ctl (ReqInit args) = InInit (Save MakePersister (ia_Raftstate args) (ia_Snapshot args))"
| "start_ctl ReqInitWait = InWait"

text \<open>
  The steps of a living process: the next stretch of the main goroutine, the opening of a socket, the dispatch of a
  call; and the meetings on the channel: \<open>Init\<close> with the main goroutine at its first or at its last receive,
  \<open>Init\<close> with \<open>InitWait\<close>, and the main goroutine with \<open>InitWait\<close>. The calls of a dead process fail.
\<close>

datatype boot_action = BMain | BOpenCtl | BOpen | BDispatch nat | BTake nat | BQuit nat | BSteal nat nat | BSignal nat | BLost nat

fun boot_live :: "('v Persister \<Rightarrow> 'svc list) \<Rightarrow> ('v, 'svc) Boot \<Rightarrow> boot_action \<Rightarrow> ('v, 'svc) Boot option" where
  "boot_live mks s BMain =
     (case bo_main s of
        MMake \<Rightarrow> Some (s\<lparr>bo_main := MAddCtl, bo_ctlSock := Opening\<rparr>)
      | MAddCtl \<Rightarrow> Some (s\<lparr>bo_main := MWait, bo_ctlReg := True\<rparr>)
      | MServe \<Rightarrow> (case ds_persister (bo_ds s) of
            Some p \<Rightarrow> Some (s\<lparr>bo_main := MReg (mks p), bo_sock := Opening\<rparr>)
          | None \<Rightarrow> None)
      | MReg [] \<Rightarrow> Some (s\<lparr>bo_main := MSignal\<rparr>)
      | MReg (svc # svcs) \<Rightarrow> Some (s\<lparr>bo_main := MReg svcs, bo_svcs := bo_svcs s @ [svc]\<rparr>)
      | _ \<Rightarrow> None)"
| "boot_live mks s BOpenCtl = (if bo_ctlSock s = Opening then Some (s\<lparr>bo_ctlSock := Open\<rparr>) else None)"
| "boot_live mks s BOpen = (if bo_sock s = Opening then Some (s\<lparr>bo_sock := Open\<rparr>) else None)"
| "boot_live mks s (BDispatch i) =
     (case call_at s i of
        Some (Requested req) \<Rightarrow> Some (if bo_ctlReg s then set_call s i (start_ctl req) else s\<lparr>bo_dead := True\<rparr>)
      | _ \<Rightarrow> None)"
| "boot_live mks s (BTake i) =
     (case (call_at s i, bo_main s) of
        (Some (InInit p), MWait) \<Rightarrow>
          Some ((set_call s i (Returned True))\<lparr>bo_ds := (bo_ds s)\<lparr>ds_persister := Some p\<rparr>, bo_main := MServe\<rparr>)
      | _ \<Rightarrow> None)"
| "boot_live mks s (BQuit i) =
     (case (call_at s i, bo_main s) of
        (Some (InInit p), MEnd) \<Rightarrow> Some ((set_call s i (Returned True))\<lparr>bo_main := MExit\<rparr>)
      | _ \<Rightarrow> None)"
| "boot_live mks s (BSteal i j) =
     (case (call_at s i, call_at s j) of
        (Some (InInit p), Some InWait) \<Rightarrow> Some (set_call (set_call s i (Returned True)) j (Returned True))
      | _ \<Rightarrow> None)"
| "boot_live mks s (BSignal j) =
     (case (call_at s j, bo_main s) of
        (Some InWait, MSignal) \<Rightarrow> Some ((set_call s j (Returned True))\<lparr>bo_main := MEnd\<rparr>)
      | _ \<Rightarrow> None)"
| "boot_live mks s (BLost i) = None"

definition boot_act :: "('v Persister \<Rightarrow> 'svc list) \<Rightarrow> ('v, 'svc) Boot \<Rightarrow> boot_action \<Rightarrow> ('v, 'svc) Boot option" where
  "boot_act mks s a =
     (if bo_dead s then
        (case a of
           BLost i \<Rightarrow> (case call_at s i of
               None \<Rightarrow> None
             | Some (Returned b) \<Rightarrow> None
             | Some c \<Rightarrow> Some (set_call s i (Returned False)))
         | _ \<Rightarrow> None)
      else boot_live mks s a)"

subsection \<open>The tester\<close>

definition MAXDIAL :: nat where "MAXDIAL = 100"

text \<open>
  \<open>StartServer\<close>: \<open>runDaemon\<close> connects to the control socket, \<open>dc.init(srv.saved)\<close> calls \<open>Init\<close> and connects
  to the other socket, \<open>dc.waitInit()\<close> calls \<open>InitWait\<close>, and then the server is added to the network. What the calls
  return is only logged. A \<open>dial\<close> counts the tries that are left; when none is, the tester ends (\<open>log.Fatalf\<close>).
\<close>

datatype StartPc = SCtl nat | SInit | SIniting | SDial nat | SWait | SWaiting | SAdd | SFatal

record ('v, 'svc) StartSrv =
  st_pc :: StartPc
  st_boot :: "('v, 'svc) Boot"

definition start_begin :: "'v DaemonSrv \<Rightarrow> ('v, 'svc) StartSrv" where
  "start_begin ds = \<lparr>st_pc = SCtl MAXDIAL, st_boot = boot_init ds\<rparr>"

definition call_ctl :: "'v CtlReq \<Rightarrow> ('v, 'svc) Boot \<Rightarrow> ('v, 'svc) Boot" where
  "call_ctl req b = b\<lparr>bo_calls := bo_calls b @ [Requested req]\<rparr>"

text \<open>One try of \<open>dial\<close>: where the tester goes on if it is connected, or with one try less.\<close>

definition dial_try :: "bool \<Rightarrow> StartPc \<Rightarrow> (nat \<Rightarrow> StartPc) \<Rightarrow> nat \<Rightarrow> StartPc" where
  "dial_try connected connect again n = (if n = 0 then SFatal else if connected then connect else again (n - 1))"

datatype start_action = TDial | TInit | TInitReturns | TWait | TWaitReturns | TProc boot_action

fun start_act ::
  "('v Persister \<Rightarrow> 'svc list) \<Rightarrow> 'v Persister \<Rightarrow> ('v, 'svc) StartSrv \<Rightarrow> start_action \<Rightarrow> ('v, 'svc) StartSrv option" where
  "start_act mks saved s TDial =
     (case st_pc s of
        SCtl n \<Rightarrow> Some (s\<lparr>st_pc := dial_try (bo_ctlSock (st_boot s) = Open \<and> \<not> bo_dead (st_boot s)) SInit SCtl n\<rparr>)
      | SDial n \<Rightarrow> Some (s\<lparr>st_pc := dial_try (bo_sock (st_boot s) = Open \<and> \<not> bo_dead (st_boot s)) SWait SDial n\<rparr>)
      | _ \<Rightarrow> None)"
| "start_act mks saved s TInit =
     (if st_pc s = SInit
      then Some \<lparr>st_pc = SIniting,
                 st_boot = call_ctl (ReqInit \<lparr>ia_Raftstate = ReadRaftState saved, ia_Snapshot = ReadSnapshot saved\<rparr>) (st_boot s)\<rparr>
      else None)"
| "start_act mks saved s TInitReturns =
     (if st_pc s = SIniting \<and> (\<exists>b\<in>{True, False}. call_at (st_boot s) 0 = Some (Returned b)) then Some (s\<lparr>st_pc := SDial MAXDIAL\<rparr>) else None)"
| "start_act mks saved s TWait =
     (if st_pc s = SWait then Some \<lparr>st_pc = SWaiting, st_boot = call_ctl ReqInitWait (st_boot s)\<rparr> else None)"
| "start_act mks saved s TWaitReturns =
     (if st_pc s = SWaiting \<and> (\<exists>b\<in>{True, False}. call_at (st_boot s) 1 = Some (Returned b)) then Some (s\<lparr>st_pc := SAdd\<rparr>) else None)"
| "start_act mks saved s (TProc a) = do { b \<leftarrow> boot_act mks (st_boot s) a; Some (s\<lparr>st_boot := b\<rparr>) }"

definition start_step ::
  "('v Persister \<Rightarrow> 'svc list) \<Rightarrow> 'v Persister \<Rightarrow> ('v, 'svc) StartSrv \<Rightarrow> ('v, 'svc) StartSrv \<Rightarrow> bool" where
  "start_step mks saved s t \<longleftrightarrow> (\<exists>a. start_act mks saved s a = Some t)"

subsection \<open>The invariant\<close>

text \<open>Before the state arrives, with it, and when the services are registered and \<open>InitWait\<close> has been told.\<close>

definition unbooted :: "('v, 'svc) Boot \<Rightarrow> bool" where
  "unbooted b \<longleftrightarrow> bo_svcs b = [] \<and> bo_sock b = NoSock \<and>
     (bo_main b = MMake \<and> bo_ctlSock b = NoSock \<and> \<not> bo_ctlReg b
      \<or> bo_main b = MAddCtl \<and> bo_ctlSock b \<noteq> NoSock \<and> \<not> bo_ctlReg b
      \<or> bo_main b = MWait \<and> bo_ctlSock b \<noteq> NoSock \<and> bo_ctlReg b)"

fun main_ok :: "'svc list \<Rightarrow> ('v, 'svc) Boot \<Rightarrow> 'svc MainPc \<Rightarrow> bool" where
  "main_ok svcs b MServe \<longleftrightarrow> bo_svcs b = [] \<and> bo_sock b = NoSock"
| "main_ok svcs b (MReg todo) \<longleftrightarrow> bo_svcs b @ todo = svcs \<and> bo_sock b \<noteq> NoSock"
| "main_ok svcs b MSignal \<longleftrightarrow> bo_svcs b = svcs \<and> bo_sock b \<noteq> NoSock"
| "main_ok svcs b _ \<longleftrightarrow> False"

definition ctl_up :: "'v Persister \<Rightarrow> ('v, 'svc) Boot \<Rightarrow> bool" where
  "ctl_up p b \<longleftrightarrow> ds_persister (bo_ds b) = Some p \<and> bo_ctlSock b \<noteq> NoSock \<and> bo_ctlReg b \<and> \<not> bo_dead b"

definition booting :: "('v Persister \<Rightarrow> 'svc list) \<Rightarrow> 'v Persister \<Rightarrow> ('v, 'svc) Boot \<Rightarrow> bool" where
  "booting mks p b \<longleftrightarrow> ctl_up p b \<and> main_ok (mks p) b (bo_main b)"

definition booted :: "('v Persister \<Rightarrow> 'svc list) \<Rightarrow> 'v Persister \<Rightarrow> ('v, 'svc) Boot \<Rightarrow> bool" where
  "booted mks p b \<longleftrightarrow> ctl_up p b \<and> bo_main b = MEnd \<and> bo_svcs b = mks p \<and> bo_sock b \<noteq> NoSock"

text \<open>The process as long as no call of the tester is in progress, and after a call that came too early.\<close>

definition fresh :: "('v, 'svc) Boot \<Rightarrow> bool" where
  "fresh b \<longleftrightarrow> unbooted b \<and> \<not> bo_dead b"

definition killed_early :: "('v, 'svc) Boot \<Rightarrow> bool" where
  "killed_early b \<longleftrightarrow> bo_dead b \<and> unbooted b \<and> \<not> bo_ctlReg b"

abbreviation init_req :: "'v Persister \<Rightarrow> 'v CtlReq" where
  "init_req p \<equiv> ReqInit \<lparr>ia_Raftstate = ReadRaftState p, ia_Snapshot = ReadSnapshot p\<rparr>"

text \<open>The control calls and the process together.\<close>

definition no_call :: "('v, 'svc) Boot \<Rightarrow> bool" where
  "no_call b \<longleftrightarrow> bo_calls b = [] \<and> fresh b"

definition init_running :: "'v Persister \<Rightarrow> ('v, 'svc) Boot \<Rightarrow> bool" where
  "init_running p b \<longleftrightarrow> bo_calls b = [Requested (init_req p)] \<and> (fresh b \<or> killed_early b)
     \<or> bo_calls b = [InInit p] \<and> fresh b \<and> bo_ctlReg b"

definition init_done :: "('v Persister \<Rightarrow> 'svc list) \<Rightarrow> 'v Persister \<Rightarrow> ('v, 'svc) Boot \<Rightarrow> bool" where
  "init_done mks p b \<longleftrightarrow> bo_calls b = [Returned True] \<and> booting mks p b \<or> bo_calls b = [Returned False] \<and> killed_early b"

definition wait_running :: "('v Persister \<Rightarrow> 'svc list) \<Rightarrow> 'v Persister \<Rightarrow> ('v, 'svc) Boot \<Rightarrow> bool" where
  "wait_running mks p b \<longleftrightarrow> (bo_calls b = [Returned True, Requested ReqInitWait] \<or> bo_calls b = [Returned True, InWait]) \<and> booting mks p b"

definition wait_done :: "('v Persister \<Rightarrow> 'svc list) \<Rightarrow> 'v Persister \<Rightarrow> ('v, 'svc) Boot \<Rightarrow> bool" where
  "wait_done mks p b \<longleftrightarrow> bo_calls b = [Returned True, Returned True] \<and> booted mks p b"

fun start_inv :: "('v Persister \<Rightarrow> 'svc list) \<Rightarrow> 'v Persister \<Rightarrow> StartPc \<Rightarrow> ('v, 'svc) Boot \<Rightarrow> bool" where
  "start_inv mks p (SCtl n) b \<longleftrightarrow> no_call b"
| "start_inv mks p SInit b \<longleftrightarrow> no_call b \<and> bo_ctlSock b = Open"
| "start_inv mks p SIniting b \<longleftrightarrow> init_running p b \<or> init_done mks p b"
| "start_inv mks p (SDial n) b \<longleftrightarrow> init_done mks p b"
| "start_inv mks p SWait b \<longleftrightarrow> bo_calls b = [Returned True] \<and> booting mks p b \<and> bo_sock b = Open"
| "start_inv mks p SWaiting b \<longleftrightarrow> (wait_running mks p b \<or> wait_done mks p b) \<and> bo_sock b = Open"
| "start_inv mks p SAdd b \<longleftrightarrow> wait_done mks p b \<and> bo_sock b = Open"
| "start_inv mks p SFatal b \<longleftrightarrow> no_call b \<or> init_done mks p b"

lemmas boot_defs = boot_act_def set_call_def fresh_def killed_early_def unbooted_def booting_def booted_def ctl_up_def
lemmas call_defs = no_call_def init_running_def init_done_def wait_running_def wait_done_def

lemma saved_sent: "start_ctl (init_req p) = InInit p"
  by (cases p) (simp add: Save_def MakePersister_def ReadRaftState_def ReadSnapshot_def)

text \<open>What the process does by itself: no call is involved.\<close>

definition own_act :: "boot_action \<Rightarrow> bool" where
  "own_act a \<longleftrightarrow> a = BMain \<or> a = BOpenCtl \<or> a = BOpen"

lemma main_ok_open [simp]:
  "main_ok svcs (b\<lparr>bo_ctlSock := x\<rparr>) m = main_ok svcs b m"
  "bo_sock b = Opening \<Longrightarrow> main_ok svcs (b\<lparr>bo_sock := Open\<rparr>) m = main_ok svcs b m"
  by (cases m; simp)+

lemma own_act_keeps:
  assumes "boot_act mks b a = Some b'" "own_act a"
  shows "bo_calls b' = bo_calls b" "bo_dead b = False" "bo_dead b' = False"
    "bo_ctlSock b = Open \<Longrightarrow> bo_ctlSock b' = Open \<or> bo_main b = MMake" "bo_sock b = Open \<Longrightarrow> bo_sock b' = Open \<or> bo_main b = MServe"
    "unbooted b \<Longrightarrow> unbooted b'" "booting mks p b \<Longrightarrow> booting mks p b'" "booted mks p b \<Longrightarrow> booted mks p b'"
    "bo_ctlReg b \<Longrightarrow> bo_ctlReg b'"
  using assms
  by (auto simp: own_act_def boot_defs split: if_splits MainPc.splits option.splits list.splits)

lemma idle_own:
  assumes "boot_act mks b a = Some b'" "\<forall>c\<in>set (bo_calls b). \<exists>r. c = Returned r"
  shows "own_act a"
proof -
  have c: "\<exists>r. bo_calls b ! i = Returned r" if "i < length (bo_calls b)" for i using assms(2) that by simp
  from assms(1) show ?thesis
    by (cases a) (auto simp: own_act_def boot_act_def split: if_splits BootCall.splits MainPc.splits dest: c)
qed

lemma no_call_step:
  assumes "boot_act mks b a = Some b'" "no_call b"
  shows "own_act a \<and> no_call b'"
proof -
  have "own_act a" using assms by (intro idle_own) (auto simp: no_call_def)
  with own_act_keeps [OF assms(1)] assms(2) show ?thesis by (auto simp: no_call_def fresh_def)
qed

lemma init_done_step:
  assumes "boot_act mks b a = Some b'" "init_done mks p b"
  shows "own_act a \<and> init_done mks p b' \<and> \<not> bo_dead b"
proof -
  have "own_act a" using assms by (intro idle_own) (auto simp: init_done_def)
  with own_act_keeps [OF assms(1)] assms(2) show ?thesis by (auto simp: init_done_def killed_early_def)
qed

lemma wait_done_step:
  assumes "boot_act mks b a = Some b'" "wait_done mks p b"
  shows "own_act a \<and> wait_done mks p b'"
proof -
  have "own_act a" using assms by (intro idle_own) (auto simp: wait_done_def)
  with own_act_keeps [OF assms(1)] assms(2) show ?thesis by (auto simp: wait_done_def)
qed

text \<open>What becomes of a call.\<close>

lemma step_of_call:
  assumes "boot_act mks b a = Some b'" "\<not> own_act a" "bo_calls b = rs @ [c]" "\<forall>r\<in>set rs. \<exists>x. r = Returned x"
  obtains (lost) "bo_dead b" "b' = set_call b (length rs) (Returned False)"
  | (start) req where "\<not> bo_dead b" "c = Requested req" "bo_ctlReg b" "b' = set_call b (length rs) (start_ctl req)"
  | (early) req where "\<not> bo_dead b" "c = Requested req" "\<not> bo_ctlReg b" "b' = b\<lparr>bo_dead := True\<rparr>"
  | (take) p where "\<not> bo_dead b" "c = InInit p" "bo_main b = MWait"
      "b' = (set_call b (length rs) (Returned True))\<lparr>bo_ds := (bo_ds b)\<lparr>ds_persister := Some p\<rparr>, bo_main := MServe\<rparr>"
  | (quit) p where "c = InInit p" "bo_main b = MEnd"
  | (signal) "\<not> bo_dead b" "c = InWait" "bo_main b = MSignal" "b' = (set_call b (length rs) (Returned True))\<lparr>bo_main := MEnd\<rparr>"
proof -
  have at: "i = length rs \<and> x = c" if "i < length (bo_calls b)" "bo_calls b ! i = x" "\<forall>r. x \<noteq> Returned r" for i x
  proof (cases "i < length rs")
    case True
    then have "x \<in> set rs" using that(2) assms(3) by (auto simp: nth_append)
    with assms(4) that(3) show ?thesis by blast
  next
    case False
    with that(1,2) assms(3) show ?thesis by (simp add: nth_append)
  qed
  from assms(1,2) show thesis
  proof (cases a)
    case (BSteal i j)
    with assms(1) show thesis using at [of i] at [of j] by (auto simp: boot_act_def split: if_splits BootCall.splits)
  next
    case (BDispatch i)
    with assms(1) obtain req where "\<not> bo_dead b" "i < length (bo_calls b)" "bo_calls b ! i = Requested req"
      "b' = (if bo_ctlReg b then set_call b i (start_ctl req) else b\<lparr>bo_dead := True\<rparr>)"
      by (auto simp: boot_act_def split: if_splits BootCall.splits)
    with at [of i] show thesis using start [of req] early [of req] by (auto split: if_splits)
  next
    case (BTake i)
    with assms(1) obtain p where "\<not> bo_dead b" "i < length (bo_calls b)" "bo_calls b ! i = InInit p" "bo_main b = MWait"
      "b' = (set_call b i (Returned True))\<lparr>bo_ds := (bo_ds b)\<lparr>ds_persister := Some p\<rparr>, bo_main := MServe\<rparr>"
      by (auto simp: boot_act_def split: if_splits BootCall.splits MainPc.splits)
    with at [of i] show thesis using take [of p] by auto
  next
    case (BQuit i)
    with assms(1) obtain p where "i < length (bo_calls b)" "bo_calls b ! i = InInit p" "bo_main b = MEnd"
      by (auto simp: boot_act_def split: if_splits BootCall.splits MainPc.splits)
    with at [of i] show thesis using quit [of p] by auto
  next
    case (BSignal i)
    with assms(1) have "\<not> bo_dead b" "i < length (bo_calls b)" "bo_calls b ! i = InWait" "bo_main b = MSignal"
      "b' = (set_call b i (Returned True))\<lparr>bo_main := MEnd\<rparr>"
      by (auto simp: boot_act_def split: if_splits BootCall.splits MainPc.splits)
    with at [of i] show thesis using signal by auto
  next
    case (BLost i)
    with assms(1) have "bo_dead b" "i < length (bo_calls b)" "\<forall>r. bo_calls b ! i \<noteq> Returned r" "b' = set_call b i (Returned False)"
      by (auto simp: boot_act_def split: if_splits BootCall.splits)
    with at [of i] show thesis using lost by auto
  qed (use assms(2) in \<open>auto simp: own_act_def\<close>)
qed

lemma init_running_step:
  assumes "boot_act mks b a = Some b'" "init_running p b" "\<not> own_act a"
  shows "init_running p b' \<or> init_done mks p b'"
proof -
  from assms(2) obtain c where c: "bo_calls b = [] @ [c]" by (auto simp: init_running_def)
  have "\<forall>r\<in>set []. \<exists>x. r = Returned x" by simp
  with assms(1,3) c show ?thesis
  proof (cases rule: step_of_call)
    case lost
    with assms(2) c show ?thesis by (auto simp: init_running_def init_done_def fresh_def killed_early_def set_call_def unbooted_def)
  next
    case (start req)
    with assms(2) c saved_sent [of p] show ?thesis
      by (auto simp: init_running_def fresh_def killed_early_def set_call_def unbooted_def)
  next
    case (early req)
    with assms(2) c show ?thesis by (auto simp: init_running_def fresh_def killed_early_def unbooted_def)
  next
    case (take q)
    with assms(2) c show ?thesis
      by (auto simp: init_running_def init_done_def fresh_def set_call_def unbooted_def booting_def ctl_up_def)
  qed (use assms(2) c in \<open>auto simp: init_running_def fresh_def unbooted_def killed_early_def\<close>)
qed

lemma wait_running_step:
  assumes "boot_act mks b a = Some b'" "wait_running mks p b" "\<not> own_act a"
  shows "(wait_running mks p b' \<or> wait_done mks p b') \<and> bo_sock b' = bo_sock b"
proof -
  from assms(2) obtain c where c: "bo_calls b = [Returned True] @ [c]" by (auto simp: wait_running_def)
  have rt: "\<forall>r\<in>set [Returned True]. \<exists>x. r = Returned x" by auto
  have mo: "main_ok svcs (b\<lparr>bo_calls := cs\<rparr>) m = main_ok svcs b m" for svcs cs m by (cases m) auto
  from assms(1,3) c rt show ?thesis
  proof (cases rule: step_of_call)
    case (start req)
    with assms(2) c show ?thesis by (auto simp: wait_running_def set_call_def booting_def ctl_up_def mo)
  next
    case signal
    with assms(2) c show ?thesis by (auto simp: wait_running_def wait_done_def set_call_def booting_def booted_def ctl_up_def)
  qed (use assms(2) c in \<open>auto simp: wait_running_def booting_def ctl_up_def\<close>)
qed

lemma start_inv_proc:
  assumes inv: "start_inv mks p pc b" and act: "boot_act mks b a = Some b'"
  shows "start_inv mks p pc b'"
proof -
  note keep = own_act_keeps [OF act]
  have sock: "bo_sock b' = Open" if "own_act a" "bo_sock b = Open" "booting mks p b \<or> booted mks p b"
    using keep(5) [OF that(1)] that by (auto simp: booting_def booted_def)
  show ?thesis
  proof (cases pc)
    case SInit
    with inv no_call_step [OF act] keep(4) show ?thesis by (auto simp: no_call_def fresh_def unbooted_def)
  next
    case SIniting
    show ?thesis
    proof (cases "own_act a")
      case True
      with SIniting inv keep init_done_step [OF act] show ?thesis
        by (auto simp: init_running_def fresh_def killed_early_def)
    next
      case False
      with SIniting inv init_running_step [OF act] init_done_step [OF act] show ?thesis by auto
    qed
  next
    case SWait
    then have "own_act a" using inv by (intro idle_own [OF act]) auto
    with SWait inv keep sock show ?thesis by auto
  next
    case SWaiting
    show ?thesis
    proof (cases "own_act a")
      case True
      with SWaiting inv keep sock wait_done_step [OF act] show ?thesis by (auto simp: wait_running_def wait_done_def)
    next
      case False
      with SWaiting inv wait_running_step [OF act _ False] wait_done_step [OF act] show ?thesis by auto
    qed
  next
    case SAdd
    with inv wait_done_step [OF act] sock show ?thesis by (auto simp: wait_done_def)
  qed (use inv no_call_step [OF act] init_done_step [OF act] in auto)
qed

lemma start_inv_act:
  assumes inv: "start_inv mks p (st_pc s) (st_boot s)" and act: "start_act mks p s a = Some t"
  shows "start_inv mks p (st_pc t) (st_boot t)"
proof (cases a)
  case (TProc b)
  with act start_inv_proc [OF inv] show ?thesis by (auto simp: bind_eq_Some_conv)
next
  case TDial
  with act inv show ?thesis
    by (auto simp: dial_try_def init_done_def killed_early_def split: StartPc.splits if_splits)
next
  case TInitReturns
  with act inv show ?thesis by (auto simp: init_running_def split: if_splits)
next
  case TWaitReturns
  with act inv show ?thesis by (auto simp: wait_running_def split: if_splits)
qed (use inv act in \<open>auto simp: call_ctl_def call_defs boot_defs split: if_splits elim!: main_ok.elims\<close>)

lemma start_reach_inv:
  assumes "reach (start_begin ds) (start_step mks p) s"
  shows "start_inv mks p (st_pc s) (st_boot s)"
  using assms
proof (induction rule: reach.induct)
  case reach_init
  show ?case by (simp add: start_begin_def boot_init_def call_defs boot_defs)
next
  case (reach_step s t)
  then show ?case using start_inv_act by (auto simp: start_step_def)
qed

subsection \<open>The start returns\<close>

text \<open>How much is left to do: for the main goroutine, a socket, a call and the tester.\<close>

definition main_left :: "nat \<Rightarrow> 'svc MainPc \<Rightarrow> nat" where
  "main_left n m = (case m of MMake \<Rightarrow> n + 8 | MAddCtl \<Rightarrow> n + 7 | MWait \<Rightarrow> n + 6 | MServe \<Rightarrow> n + 5 |
     MReg todo \<Rightarrow> length todo + 3 | MSignal \<Rightarrow> 2 | MEnd \<Rightarrow> 1 | MExit \<Rightarrow> 0)"

fun sock_left :: "Sock \<Rightarrow> nat" where
  "sock_left NoSock = 2"
| "sock_left Opening = 1"
| "sock_left Open = 0"

fun call_left :: "'v BootCall \<Rightarrow> nat" where
  "call_left (Requested req) = 2"
| "call_left (Returned b) = 0"
| "call_left c = 1"

fun pc_left :: "StartPc \<Rightarrow> nat" where
  "pc_left (SCtl n) = MAXDIAL + 10 + n"
| "pc_left SInit = MAXDIAL + 9"
| "pc_left SIniting = MAXDIAL + 6"
| "pc_left (SDial n) = 5 + n"
| "pc_left SWait = 4"
| "pc_left SWaiting = 1"
| "pc_left _ = 0"

definition boot_left :: "nat \<Rightarrow> ('v, 'svc) Boot \<Rightarrow> nat" where
  "boot_left n b = main_left n (bo_main b) + sock_left (bo_ctlSock b) + sock_left (bo_sock b)
     + sum_list (map call_left (bo_calls b)) + (if bo_dead b then 0 else 1)"

definition start_left :: "('v Persister \<Rightarrow> 'svc list) \<Rightarrow> 'v Persister \<Rightarrow> ('v, 'svc) StartSrv \<Rightarrow> nat" where
  "start_left mks p s = pc_left (st_pc s) + boot_left (length (mks p)) (st_boot s)"

lemma main_progress:
  assumes "boot_live mks b BMain = Some b'" "fresh b \<or> booting mks p b"
  shows "boot_left (length (mks p)) b' < boot_left (length (mks p)) b"
proof (cases "bo_main b")
  case MMake
  with assms have "bo_ctlSock b = NoSock" by (auto simp: fresh_def unbooted_def booting_def)
  with MMake assms(1) show ?thesis by (auto simp: boot_left_def main_left_def)
next
  case MServe
  with assms have "bo_sock b = NoSock" "ds_persister (bo_ds b) = Some p" by (auto simp: fresh_def unbooted_def booting_def ctl_up_def)
  with MServe assms(1) show ?thesis by (auto simp: boot_left_def main_left_def)
next
  case (MReg todo)
  with assms(1) show ?thesis by (cases todo) (auto simp: boot_left_def main_left_def)
qed (use assms(1) in \<open>auto simp: boot_left_def main_left_def\<close>)

lemma own_progress:
  assumes "boot_act mks b a = Some b'" "own_act a" "fresh b \<or> booting mks p b \<or> booted mks p b"
  shows "boot_left (length (mks p)) b' < boot_left (length (mks p)) b"
proof -
  have live: "boot_live mks b a = Some b'" using assms(1) own_act_keeps(2) [OF assms(1,2)] by (simp add: boot_act_def)
  consider "a = BMain" | "a = BOpenCtl" | "a = BOpen" using assms(2) by (auto simp: own_act_def)
  then show ?thesis
  proof cases
    case 1
    have "\<not> booted mks p b" using live 1 by (auto simp: booted_def)
    with assms(3) live 1 show ?thesis by (intro main_progress) auto
  qed (use live in \<open>auto simp: boot_left_def split: if_splits\<close>)
qed

lemma call_progress:
  assumes "boot_act mks b a = Some b'" "\<not> own_act a" "bo_calls b = rs @ [c]" "\<forall>r\<in>set rs. \<exists>x. r = Returned x"
    "\<forall>x. c \<noteq> Returned x" "bo_main b \<noteq> MEnd"
  shows "boot_left n b' < boot_left n b"
  using assms(1-4)
proof (cases rule: step_of_call)
  case lost
  with assms(3,5) show ?thesis by (cases c) (auto simp: set_call_def boot_left_def)
next
  case (start req)
  with assms(3) show ?thesis by (cases req) (auto simp: set_call_def boot_left_def)
qed (use assms(3,6) in \<open>auto simp: set_call_def boot_left_def main_left_def\<close>)

lemma boot_progress:
  assumes inv: "start_inv mks p pc b" and act: "boot_act mks b a = Some b'"
  shows "boot_left (length (mks p)) b' < boot_left (length (mks p)) b"
proof (cases "own_act a")
  case True
  have "\<not> bo_dead b" using own_act_keeps(2) [OF act True] by simp
  with inv have "fresh b \<or> booting mks p b \<or> booted mks p b"
    by (cases pc) (auto simp: call_defs killed_early_def)
  with act True show ?thesis by (rule own_progress)
next
  case False
  have none: "\<not> no_call b" "\<not> init_done mks p b" "\<not> wait_done mks p b"
    using False no_call_step [OF act] init_done_step [OF act] wait_done_step [OF act] by blast+
  have "bo_calls b \<noteq> [Returned True]"
  proof
    assume "bo_calls b = [Returned True]"
    then have "\<forall>c\<in>set (bo_calls b). \<exists>r. c = Returned r" by auto
    with idle_own [OF act] False show False by blast
  qed
  with inv none have "init_running p b \<or> wait_running mks p b" by (cases pc) auto
  then show ?thesis
  proof
    assume i: "init_running p b"
    then obtain c where "bo_calls b = [] @ [c]" "\<forall>x. c \<noteq> Returned x" "bo_main b \<noteq> MEnd"
      by (auto simp: init_running_def fresh_def killed_early_def unbooted_def)
    then show ?thesis using act False by (intro call_progress [of mks b a b' "[]"]) auto
  next
    assume w: "wait_running mks p b"
    then have "main_ok (mks p) b (bo_main b)" by (simp add: wait_running_def booting_def)
    then have "bo_main b \<noteq> MEnd" by auto
    moreover from w obtain c where "bo_calls b = [Returned True] @ [c]" "\<forall>x. c \<noteq> Returned x"
      by (auto simp: wait_running_def)
    ultimately show ?thesis using act False by (intro call_progress [of mks b a b' "[Returned True]"]) auto
  qed
qed

lemma start_progress:
  assumes inv: "start_inv mks p (st_pc s) (st_boot s)" and act: "start_act mks p s a = Some t"
  shows "start_left mks p t < start_left mks p s"
proof (cases a)
  case (TProc b)
  with act obtain b' where "boot_act mks (st_boot s) b = Some b'" "t = s\<lparr>st_boot := b'\<rparr>"
    by (auto simp: bind_eq_Some_conv)
  with boot_progress [OF inv] show ?thesis by (simp add: start_left_def)
next
  case TDial
  with act show ?thesis by (auto simp: start_left_def dial_try_def split: StartPc.splits)
qed (use act in \<open>auto simp: start_left_def call_ctl_def boot_left_def split: if_splits\<close>)

text \<open>Every state in which the tester has something to do has a step.\<close>

lemma booting_steps:
  assumes "booting mks p b" "bo_main b \<noteq> MSignal"
  shows "boot_act mks b BMain \<noteq> None"
  using assms by (cases "bo_main b") (auto simp: booting_def ctl_up_def boot_act_def split: list.splits)

lemma init_steps:
  assumes "init_running p b"
  shows "\<exists>a. boot_act mks b a \<noteq> None"
proof -
  consider (r) "bo_calls b = [Requested (init_req p)]" "\<not> bo_dead b" | (l) "bo_calls b = [Requested (init_req p)]" "bo_dead b"
    | (t) "bo_calls b = [InInit p]" "\<not> bo_dead b" "bo_main b = MWait"
    using assms by (auto simp: init_running_def fresh_def unbooted_def)
  then show ?thesis
  proof cases
    case r
    then show ?thesis by (intro exI [of _ "BDispatch 0"]) (simp add: boot_act_def)
  next
    case l
    then show ?thesis by (intro exI [of _ "BLost 0"]) (simp add: boot_act_def)
  next
    case t
    then show ?thesis by (intro exI [of _ "BTake 0"]) (simp add: boot_act_def)
  qed
qed

lemma wait_steps:
  assumes "wait_running mks p b"
  shows "\<exists>a. boot_act mks b a \<noteq> None"
proof -
  have b: "booting mks p b" "\<not> bo_dead b" using assms by (simp_all add: wait_running_def booting_def ctl_up_def)
  from assms consider "bo_calls b = [Returned True, Requested ReqInitWait]" | "bo_calls b = [Returned True, InWait]"
    by (auto simp: wait_running_def)
  then show ?thesis
  proof cases
    case 1
    with b show ?thesis by (intro exI [of _ "BDispatch 1"]) (simp add: boot_act_def)
  next
    case 2
    show ?thesis
    proof (cases "bo_main b = MSignal")
      case True
      with 2 b show ?thesis by (intro exI [of _ "BSignal 1"]) (simp add: boot_act_def)
    qed (use booting_steps [OF b(1)] in blast)
  qed
qed

lemma start_not_stuck:
  assumes inv: "start_inv mks p (st_pc s) (st_boot s)" and stuck: "\<And>t. \<not> start_step mks p s t"
  shows "st_pc s = SAdd \<or> st_pc s = SFatal"
proof -
  have none: "start_act mks p s a = None" for a
    using stuck by (cases "start_act mks p s a") (auto simp: start_step_def)
  have proc: "boot_act mks (st_boot s) a = None" for a
    using none [of "TProc a"] by (cases "boot_act mks (st_boot s) a") auto
  then have idle: "\<not> init_running p (st_boot s)" "\<not> wait_running mks p (st_boot s)"
    using init_steps [of p "st_boot s" mks] wait_steps [of mks p "st_boot s"] by auto
  show ?thesis
  proof (cases "st_pc s")
    case SIniting
    with inv idle none [of TInitReturns] show ?thesis by (auto simp: init_done_def)
  next
    case SWaiting
    with inv idle none [of TWaitReturns] show ?thesis by (auto simp: wait_done_def)
  qed (use none [of TDial] none [of TInit] none [of TWait] in auto)
qed

text \<open>
  \<^bold>\<open>C31\<close>: A server process starts, or the tester gives up. Whatever the main goroutine of the process, the goroutines
  of its sockets, those of the control calls and the tester do in which order, the start comes to an end: every step
  brings it closer, and it stops only when the server is about to be added to the network or when the tester has ended
  because one of its sockets did not accept a connection in a hundred tries. A server is added only when it is ready: both calls have returned
  true, the process has the saved state, it has registered all the services that were made from it, its
  socket is open and its main goroutine waits for good. The process dies only before the control methods are registered,
  by an \<open>Init\<close> that arrived in between, and such a server is never added.
\<close>

theorem daemon_start_returns:
  assumes "reach (start_begin ds) (start_step mks saved) s"
  shows "(start_step mks saved s t \<longrightarrow> start_left mks saved t < start_left mks saved s) \<and>
    ((\<forall>t. \<not> start_step mks saved s t) \<longrightarrow> st_pc s = SAdd \<or> st_pc s = SFatal) \<and>
    (st_pc s = SAdd \<longrightarrow> bo_calls (st_boot s) = [Returned True, Returned True] \<and>
      ds_persister (bo_ds (st_boot s)) = Some saved \<and> bo_svcs (st_boot s) = mks saved \<and> bo_sock (st_boot s) = Open \<and>
      bo_main (st_boot s) = MEnd \<and> \<not> bo_dead (st_boot s)) \<and>
    (bo_dead (st_boot s) \<longrightarrow> \<not> bo_ctlReg (st_boot s) \<and> st_pc s \<noteq> SAdd)"
proof -
  note inv = start_reach_inv [OF assms]
  have "\<not> bo_ctlReg (st_boot s) \<and> st_pc s \<noteq> SAdd" if "bo_dead (st_boot s)"
    using inv that by (cases "st_pc s") (auto simp: call_defs fresh_def killed_early_def booting_def booted_def ctl_up_def)
  moreover have "st_pc s = SAdd \<longrightarrow> bo_calls (st_boot s) = [Returned True, Returned True] \<and>
      ds_persister (bo_ds (st_boot s)) = Some saved \<and> bo_svcs (st_boot s) = mks saved \<and> bo_sock (st_boot s) = Open \<and>
      bo_main (st_boot s) = MEnd \<and> \<not> bo_dead (st_boot s)"
    using inv by (auto simp: wait_done_def booted_def ctl_up_def)
  ultimately show ?thesis
    using start_progress [OF inv] start_not_stuck [OF inv] unfolding start_step_def by blast
qed

definition boot_sample_run :: "start_action list" where
  "boot_sample_run = [TDial, TProc BMain, TProc BOpenCtl, TDial, TProc BMain, TInit, TProc (BDispatch 0), TProc (BTake 0),
     TProc BMain, TInitReturns, TDial, TProc BOpen, TDial, TWait, TProc BMain, TProc (BDispatch 1), TProc BMain, TProc BMain,
     TProc (BSignal 1), TWaitReturns]"

definition boot_sample_ds :: "nat DaemonSrv" where
  "boot_sample_ds = \<lparr>ds_endName = ''a'', ds_gid = 0, ds_sid = 0, ds_ends = [''a''], ds_tester = ''t'',
     ds_persister = None, ds_open = True\<rparr>"

definition boot_sample_svcs :: "nat Persister \<Rightarrow> string list" where
  "boot_sample_svcs p = [''Raft'', ''rfsrv'']"

abbreviation boot_sample_saved :: "nat Persister" where
  "boot_sample_saved \<equiv> Save MakePersister [7] []"

lemma start_run_reach:
  "run (start_act mks p) (start_begin ds) acts = Some s \<Longrightarrow> reach (start_begin ds) (start_step mks p) s"
  by (rule run_reach [OF reach.reach_init]) (auto simp: start_step_def)

lemmas boot_run_defs = start_begin_def boot_init_def MAXDIAL_def dial_try_def call_ctl_def boot_act_def set_call_def
  boot_sample_svcs_def boot_sample_ds_def

theorem daemon_start_returns_witness:
  "\<exists>s. reach (start_begin boot_sample_ds) (start_step boot_sample_svcs boot_sample_saved) s \<and>
    st_pc s = SAdd \<and> bo_svcs (st_boot s) = [''Raft'', ''rfsrv'']"
proof -
  have "map_option st_pc (run (start_act boot_sample_svcs boot_sample_saved) (start_begin boot_sample_ds) boot_sample_run) = Some SAdd"
    by (simp add: boot_sample_run_def boot_run_defs)
  then obtain s where "run (start_act boot_sample_svcs boot_sample_saved) (start_begin boot_sample_ds) boot_sample_run = Some s"
    and pc: "st_pc s = SAdd" by auto
  then have r: "reach (start_begin boot_sample_ds) (start_step boot_sample_svcs boot_sample_saved) s" by (intro start_run_reach)
  with daemon_start_returns [OF r] pc show ?thesis by (auto simp: boot_sample_svcs_def)
qed

text \<open>
  The race is there: the tester connects as soon as the control socket is open, and its \<open>Init\<close> may be dispatched before
  \<open>AddService\<close>; the process then ends, and so does the tester, which cannot connect to the other socket.
\<close>

theorem early_init_kills:
  "\<exists>s. reach (start_begin boot_sample_ds) (start_step boot_sample_svcs boot_sample_saved) s \<and> bo_dead (st_boot s) \<and> st_pc s = SIniting"
proof -
  let ?acts = "[TProc BMain, TProc BOpenCtl, TDial, TInit, TProc (BDispatch 0)]"
  have "map_option (\<lambda>s. (bo_dead (st_boot s), st_pc s))
      (run (start_act boot_sample_svcs boot_sample_saved) (start_begin boot_sample_ds) ?acts) = Some (True, SIniting)"
    by (simp add: boot_run_defs)
  then show ?thesis using start_run_reach by blast
qed

end
