(* ===== verification/KvSpawn.thy ===== *)
theory KvSpawn
  imports KvTest
begin

text \<open>
  \<open>SpawnClientsAndWait\<close> and \<open>runClient\<close> of \<open>src/kvtest1/kvtest.go\<close>: a test runs several clients side by side,
  tells them to stop and collects their results. The goroutines meet on channels without buffers: all
  clients receive from the one channel \<open>done\<close>, and each client has a channel of its own for its result.

  The function \<open>fn\<close> that a client runs is a loop as in \<open>OneClientPut\<close> and \<open>OneClientAppend\<close>: in every round it
  looks whether \<open>done\<close> has a message for it, returns what it has counted if so, and otherwise makes one more
  operation, whose outcome (\<open>OK\<close> or not known) it counts.
\<close>

subsection \<open>The goroutines\<close>

definition no_res :: ClntRes where
  "no_res = \<lparr>cr_Nok = 0, cr_Nmaybe = 0\<rparr>"

definition count_op :: "bool \<Rightarrow> ClntRes \<Rightarrow> ClntRes" where
  "count_op ok res = (if ok then res\<lparr>cr_Nok := cr_Nok res + 1\<rparr> else res\<lparr>cr_Nmaybe := cr_Nmaybe res + 1\<rparr>)"

text \<open>
  Where \<open>runClient\<close> is: before \<open>MakeClerk\<close>, in \<open>fn\<close>, at the send of its result, before \<open>DeleteClerk\<close>, at its end.
\<close>

datatype CliPc = CStart | CRun ClntRes | CRet ClntRes | CSent ClntRes | CGone ClntRes

text \<open>Where \<open>SpawnClientsAndWait\<close> is: at a send on \<open>done\<close>, at the receive from a client, or at its end.\<close>

datatype SpawnPc = SpSend nat | SpCollect nat | SpReturned

record Spawn =
  sp_n :: nat
  sp_main :: SpawnPc
  sp_cli :: "nat \<Rightarrow> CliPc"
  sp_rs :: "ClntRes list"

definition spawn_init :: "nat \<Rightarrow> Spawn" where
  "spawn_init n = \<lparr>sp_n = n, sp_main = SpSend 0, sp_cli = (\<lambda>_. CStart), sp_rs = []\<rparr>"

datatype spawn_action = PMake nat | POp nat bool | PDone nat | PLoop | PCollect | PDelete nat

definition set_cli :: "nat \<Rightarrow> CliPc \<Rightarrow> Spawn \<Rightarrow> Spawn" where
  "set_cli me pc s = s\<lparr>sp_cli := (sp_cli s)(me := pc)\<rparr>"

text \<open>\<open>PDone me\<close>: client \<open>me\<close> receives from \<open>done\<close>; \<open>PLoop\<close>: a loop of the main goroutine is over.\<close>

fun spawn_act :: "Spawn \<Rightarrow> spawn_action \<Rightarrow> Spawn option" where
  "spawn_act s (PMake me) =
     (if me < sp_n s \<and> sp_cli s me = CStart then Some (set_cli me (CRun no_res) s) else None)"
| "spawn_act s (POp me ok) =
     (case sp_cli s me of CRun res \<Rightarrow> Some (set_cli me (CRun (count_op ok res)) s) | _ \<Rightarrow> None)"
| "spawn_act s (PDone me) =
     (case (sp_main s, sp_cli s me) of
        (SpSend i, CRun res) \<Rightarrow> if i < sp_n s then Some ((set_cli me (CRet res) s)\<lparr>sp_main := SpSend (i + 1)\<rparr>) else None
      | _ \<Rightarrow> None)"
| "spawn_act s PLoop =
     (case sp_main s of
        SpSend i \<Rightarrow> if i = sp_n s then Some (s\<lparr>sp_main := SpCollect 0\<rparr>) else None
      | SpCollect c \<Rightarrow> if c = sp_n s then Some (s\<lparr>sp_main := SpReturned\<rparr>) else None
      | SpReturned \<Rightarrow> None)"
| "spawn_act s PCollect =
     (case sp_main s of
        SpCollect c \<Rightarrow>
          if c < sp_n s then
            (case sp_cli s c of
               CRet res \<Rightarrow> Some ((set_cli c (CSent res) s)\<lparr>sp_main := SpCollect (c + 1), sp_rs := sp_rs s @ [res]\<rparr>)
             | _ \<Rightarrow> None)
          else None
      | _ \<Rightarrow> None)"
| "spawn_act s (PDelete me) =
     (case sp_cli s me of CSent res \<Rightarrow> Some (set_cli me (CGone res) s) | _ \<Rightarrow> None)"

subsection \<open>The invariant\<close>

fun told :: "CliPc \<Rightarrow> bool" where
  "told CStart \<longleftrightarrow> False"
| "told (CRun _) \<longleftrightarrow> False"
| "told _ \<longleftrightarrow> True"

fun collected :: "CliPc \<Rightarrow> bool" where
  "collected (CSent _) \<longleftrightarrow> True"
| "collected (CGone _) \<longleftrightarrow> True"
| "collected _ \<longleftrightarrow> False"

fun counted :: "CliPc \<Rightarrow> ClntRes" where
  "counted CStart = no_res"
| "counted (CRun res) = res"
| "counted (CRet res) = res"
| "counted (CSent res) = res"
| "counted (CGone res) = res"

definition told_set :: "Spawn \<Rightarrow> nat set" where
  "told_set s = {me. me < sp_n s \<and> told (sp_cli s me)}"

definition got :: "Spawn \<Rightarrow> nat \<Rightarrow> bool" where
  "got s c \<longleftrightarrow> c \<le> sp_n s \<and> told_set s = {..<sp_n s} \<and> length (sp_rs s) = c \<and>
     (\<forall>me < sp_n s. collected (sp_cli s me) \<longleftrightarrow> me < c) \<and> (\<forall>me<c. sp_rs s ! me = counted (sp_cli s me))"

definition spawn_inv :: "Spawn \<Rightarrow> bool" where
  "spawn_inv s \<longleftrightarrow> (\<forall>me\<ge>sp_n s. sp_cli s me = CStart) \<and>
     (case sp_main s of
        SpSend i \<Rightarrow> card (told_set s) = i \<and> sp_rs s = [] \<and> (\<forall>me. \<not> collected (sp_cli s me))
      | SpCollect c \<Rightarrow> got s c
      | SpReturned \<Rightarrow> got s (sp_n s))"

lemma finite_told [simp]: "finite (told_set s)"
  by (simp add: told_set_def)

lemma told_subset: "told_set s \<subseteq> {..<sp_n s}"
  by (auto simp: told_set_def)

lemma told_all: "card (told_set s) = sp_n s \<Longrightarrow> told_set s = {..<sp_n s}"
  by (rule card_subset_eq [OF _ told_subset]) simp_all

lemma spawn_inv_init: "spawn_inv (spawn_init n)"
  by (simp add: spawn_inv_def spawn_init_def told_set_def)

text \<open>A step of a client by itself does not change what the main goroutine knows of it.\<close>

lemma spawn_inv_local:
  assumes inv: "spawn_inv s" and me: "me < sp_n s"
    and pc: "told pc = told (sp_cli s me)" "collected pc = collected (sp_cli s me)"
      "collected pc \<Longrightarrow> counted pc = counted (sp_cli s me)"
  shows "spawn_inv (set_cli me pc s)"
proof -
  have t: "told_set (set_cli me pc s) = told_set s" using pc(1) by (auto simp: told_set_def set_cli_def)
  have g: "got (set_cli me pc s) c" if "got s c" for c
    using that t pc me unfolding got_def by (auto simp: set_cli_def)
  show ?thesis
  proof (cases "sp_main s")
    case (SpSend i)
    with inv t pc(2) me show ?thesis by (auto simp: spawn_inv_def set_cli_def)
  qed (use inv g me in \<open>auto simp: spawn_inv_def set_cli_def\<close>)
qed

lemma busy_client: "spawn_inv s \<Longrightarrow> sp_cli s me \<noteq> CStart \<Longrightarrow> me < sp_n s"
  by (auto simp: spawn_inv_def not_le [symmetric])

lemma spawn_inv_done:
  assumes inv: "spawn_inv s" and i: "sp_main s = SpSend i" and c: "sp_cli s me = CRun res"
  shows "spawn_inv ((set_cli me (CRet res) s)\<lparr>sp_main := SpSend (i + 1)\<rparr>)"
proof -
  have me: "me < sp_n s" using busy_client [OF inv] c by simp
  have "told_set ((set_cli me (CRet res) s)\<lparr>sp_main := SpSend (i + 1)\<rparr>) = insert me (told_set s)"
    using me by (auto simp: told_set_def set_cli_def)
  moreover have "me \<notin> told_set s" using c by (simp add: told_set_def)
  ultimately show ?thesis using inv i me by (auto simp: spawn_inv_def set_cli_def)
qed

lemma spawn_inv_collect:
  assumes inv: "spawn_inv s" and c: "sp_main s = SpCollect c" "c < sp_n s" "sp_cli s c = CRet res"
  shows "spawn_inv ((set_cli c (CSent res) s)\<lparr>sp_main := SpCollect (c + 1), sp_rs := sp_rs s @ [res]\<rparr>)" (is "spawn_inv ?t")
proof -
  have g: "got s c" using inv c(1) by (simp add: spawn_inv_def)
  have "told_set ?t = told_set s" using c by (auto simp: told_set_def set_cli_def)
  then have "got ?t (c + 1)"
    using g c unfolding got_def by (auto simp: set_cli_def nth_append less_Suc_eq)
  then show ?thesis using inv c by (simp add: spawn_inv_def set_cli_def)
qed

lemma spawn_act_inv:
  assumes inv: "spawn_inv s" and act: "spawn_act s a = Some t"
  shows "spawn_inv t"
proof (cases a)
  case (PMake me)
  with act show ?thesis by (auto intro!: spawn_inv_local [OF inv] split: if_splits)
next
  case (POp me ok)
  with act show ?thesis using busy_client [OF inv, of me] by (auto intro!: spawn_inv_local [OF inv] split: CliPc.splits)
next
  case (PDone me)
  with act show ?thesis using spawn_inv_done [OF inv] by (auto split: SpawnPc.splits CliPc.splits if_splits)
next
  case PLoop
  show ?thesis
  proof (cases "sp_main s")
    case (SpSend i)
    with PLoop act have t: "t = s\<lparr>sp_main := SpCollect 0\<rparr>" "i = sp_n s" by (auto split: if_splits)
    with inv SpSend have "got s 0" using told_all [of s] by (simp add: spawn_inv_def got_def)
    with inv t show ?thesis by (simp add: spawn_inv_def got_def told_set_def)
  next
    case (SpCollect c)
    with PLoop act have "t = s\<lparr>sp_main := SpReturned\<rparr>" "c = sp_n s" by (auto split: if_splits)
    with inv SpCollect show ?thesis by (simp add: spawn_inv_def got_def told_set_def)
  qed (use PLoop act in simp)
next
  case PCollect
  with act show ?thesis using spawn_inv_collect [OF inv] by (auto split: SpawnPc.splits CliPc.splits if_splits)
next
  case (PDelete me)
  with act show ?thesis using busy_client [OF inv, of me] by (auto intro!: spawn_inv_local [OF inv] split: CliPc.splits)
qed

subsection \<open>What is collected\<close>

text \<open>The operations of a client in a run, by outcome.\<close>

definition n_ops_of :: "nat \<Rightarrow> bool \<Rightarrow> spawn_action list \<Rightarrow> int" where
  "n_ops_of me ok as = int (length (filter (\<lambda>a. a = POp me ok) as))"

lemma n_ops_of_simps [simp]:
  "n_ops_of me ok [] = 0"
  "n_ops_of me ok (a # as) = (if a = POp me ok then 1 else 0) + n_ops_of me ok as"
  by (simp_all add: n_ops_of_def)

lemma spawn_act_counted:
  assumes "spawn_act s a = Some t"
  shows "counted (sp_cli t me) = \<lparr>cr_Nok = cr_Nok (counted (sp_cli s me)) + (if a = POp me True then 1 else 0),
    cr_Nmaybe = cr_Nmaybe (counted (sp_cli s me)) + (if a = POp me False then 1 else 0)\<rparr>"
  using assms
  by (cases a) (auto simp: set_cli_def count_op_def no_res_def split: if_splits CliPc.splits SpawnPc.splits)

lemma run_counted:
  "run spawn_act s as = Some t \<Longrightarrow>
   counted (sp_cli t me) = \<lparr>cr_Nok = cr_Nok (counted (sp_cli s me)) + n_ops_of me True as,
     cr_Nmaybe = cr_Nmaybe (counted (sp_cli s me)) + n_ops_of me False as\<rparr>"
proof (induction as arbitrary: s)
  case (Cons a as)
  from Cons.prems obtain u where u: "spawn_act s a = Some u" "run spawn_act u as = Some t" by (auto split: option.splits)
  from Cons.IH [OF u(2)] spawn_act_counted [OF u(1), of me] show ?case by simp
qed simp

lemma spawn_act_n: "spawn_act s a = Some t \<Longrightarrow> sp_n t = sp_n s"
  by (cases a) (auto simp: set_cli_def split: if_splits CliPc.splits SpawnPc.splits)

text \<open>
  \<open>SpawnClientsAndWait\<close> returns one result per client, in the order of the clients, and the result of a client
  counts the operations it has made, those that were answered \<open>OK\<close> and those of unknown fate, whatever the
  order in which the clients run and are told to stop.
\<close>

theorem spawn_collects:
  assumes "run spawn_act (spawn_init n) as = Some s" "sp_main s = SpReturned"
  shows "sp_rs s = map (\<lambda>me. \<lparr>cr_Nok = n_ops_of me True as, cr_Nmaybe = n_ops_of me False as\<rparr>) [0..<n]"
proof -
  have "spawn_inv s \<and> sp_n s = n"
    by (rule run_keeps [OF assms(1)])
      (auto simp: spawn_inv_init intro: spawn_act_inv dest: spawn_act_n, simp add: spawn_init_def)
  then have "got s n" using assms(2) by (auto simp: spawn_inv_def)
  then have "length (sp_rs s) = n" "\<forall>me<n. sp_rs s ! me = counted (sp_cli s me)" by (simp_all add: got_def)
  then show ?thesis
    using run_counted [OF assms(1)] by (intro nth_equalityI) (simp_all add: spawn_init_def no_res_def)
qed

subsection \<open>It returns\<close>

text \<open>What the goroutines still have to do besides the operations of the clients.\<close>

definition cli_left :: "CliPc \<Rightarrow> nat" where
  "cli_left pc = (case pc of CStart \<Rightarrow> 4 | CRun _ \<Rightarrow> 3 | CRet _ \<Rightarrow> 2 | CSent _ \<Rightarrow> 1 | CGone _ \<Rightarrow> 0)"

definition spawner_left :: "SpawnPc \<Rightarrow> nat" where
  "spawner_left pc = (case pc of SpSend _ \<Rightarrow> 2 | SpCollect _ \<Rightarrow> 1 | SpReturned \<Rightarrow> 0)"

definition spawn_left :: "Spawn \<Rightarrow> nat" where
  "spawn_left s = (\<Sum>me < sp_n s. cli_left (sp_cli s me)) + spawner_left (sp_main s)"

lemma spawn_left_cli:
  assumes "me < sp_n s" "sp_n t = sp_n s" "sp_cli t = (sp_cli s)(me := pc)" "cli_left pc < cli_left (sp_cli s me)"
    "spawner_left (sp_main t) \<le> spawner_left (sp_main s)"
  shows "spawn_left t < spawn_left s"
proof -
  have "(\<Sum>i < sp_n s. cli_left (sp_cli t i)) < (\<Sum>i < sp_n s. cli_left (sp_cli s i))"
    by (rule sum_strict_mono_ex1) (use assms in \<open>auto intro!: bexI [of _ me]\<close>)
  with assms(2,5) show ?thesis by (simp add: spawn_left_def)
qed

lemma spawn_progress:
  assumes inv: "spawn_inv s" and act: "spawn_act s a = Some t" and a: "\<And>me ok. a \<noteq> POp me ok"
  shows "spawn_left t < spawn_left s"
proof -
  note n = spawn_act_n [OF act] and busy = busy_client [OF inv]
  show ?thesis
  proof (cases a)
    case (PMake me)
    with act have "me < sp_n s" "sp_cli s me = CStart" "t = set_cli me (CRun no_res) s" by (auto split: if_splits)
    with n show ?thesis by (intro spawn_left_cli [of me s t "CRun no_res"]) (simp_all add: set_cli_def cli_left_def)
  next
    case (POp me ok)
    with a [of me ok] show ?thesis by simp
  next
    case (PDone me)
    with act obtain i res where "sp_main s = SpSend i" "sp_cli s me = CRun res"
      "t = (set_cli me (CRet res) s)\<lparr>sp_main := SpSend (i + 1)\<rparr>" by (auto split: SpawnPc.splits CliPc.splits if_splits)
    with n busy [of me] show ?thesis
      by (intro spawn_left_cli [of me s t "CRet res"]) (simp_all add: set_cli_def cli_left_def spawner_left_def)
  next
    case PLoop
    with act show ?thesis by (auto simp: spawn_left_def spawner_left_def split: SpawnPc.splits if_splits)
  next
    case PCollect
    with act obtain c res where "sp_main s = SpCollect c" "c < sp_n s" "sp_cli s c = CRet res"
      "t = (set_cli c (CSent res) s)\<lparr>sp_main := SpCollect (c + 1), sp_rs := sp_rs s @ [res]\<rparr>"
      by (auto split: SpawnPc.splits CliPc.splits if_splits)
    with n show ?thesis
      by (intro spawn_left_cli [of c s t "CSent res"]) (simp_all add: set_cli_def cli_left_def spawner_left_def)
  next
    case (PDelete me)
    with act obtain res where "sp_cli s me = CSent res" "t = set_cli me (CGone res) s" by (auto split: CliPc.splits)
    with n busy [of me] show ?thesis
      by (intro spawn_left_cli [of me s t "CGone res"]) (simp_all add: set_cli_def cli_left_def)
  qed
qed

text \<open>Until it has returned there is something other than operations of clients to do.\<close>

lemma spawn_not_stuck:
  assumes inv: "spawn_inv s" and m: "sp_main s \<noteq> SpReturned"
  shows "\<exists>a t. spawn_act s a = Some t \<and> (\<forall>me ok. a \<noteq> POp me ok)"
proof (cases "sp_main s")
  case (SpSend i)
  show ?thesis
  proof (cases "i = sp_n s")
    case True
    with SpSend have "spawn_act s PLoop = Some (s\<lparr>sp_main := SpCollect 0\<rparr>)" by simp
    then show ?thesis by blast
  next
    case False
    from inv SpSend have card: "card (told_set s) = i" by (simp add: spawn_inv_def)
    have "i \<le> sp_n s" using card_mono [OF _ told_subset, of s] card by simp
    with False have i: "i < sp_n s" by simp
    have "told_set s \<noteq> {..<sp_n s}" using card False card_lessThan [of "sp_n s"] by metis
    with told_subset [of s] have "\<exists>me. me \<in> {..<sp_n s} \<and> me \<notin> told_set s" by blast
    then have "\<exists>me. me < sp_n s \<and> \<not> told (sp_cli s me)" by (simp add: told_set_def) blast
    then obtain me where me: "me < sp_n s" "\<not> told (sp_cli s me)" by blast
    then consider "sp_cli s me = CStart" | res where "sp_cli s me = CRun res" by (cases "sp_cli s me") auto
    then show ?thesis
    proof cases
      case 1
      with me have "spawn_act s (PMake me) = Some (set_cli me (CRun no_res) s)" by simp
      then show ?thesis by blast
    next
      case (2 res)
      with SpSend i have "spawn_act s (PDone me) = Some ((set_cli me (CRet res) s)\<lparr>sp_main := SpSend (i + 1)\<rparr>)" by simp
      then show ?thesis by blast
    qed
  qed
next
  case (SpCollect c)
  with inv have g: "got s c" by (simp add: spawn_inv_def)
  show ?thesis
  proof (cases "c = sp_n s")
    case True
    with SpCollect have "spawn_act s PLoop = Some (s\<lparr>sp_main := SpReturned\<rparr>)" by simp
    then show ?thesis by blast
  next
    case False
    with g have c: "c < sp_n s" "c \<in> told_set s" "\<not> collected (sp_cli s c)" by (auto simp: got_def)
    then obtain res where "sp_cli s c = CRet res" by (cases "sp_cli s c") (auto simp: told_set_def)
    with SpCollect c(1) have "spawn_act s PCollect =
        Some ((set_cli c (CSent res) s)\<lparr>sp_main := SpCollect (c + 1), sp_rs := sp_rs s @ [res]\<rparr>)" by simp
    then show ?thesis by blast
  qed
qed (use m in simp)

text \<open>
  \<open>SpawnClientsAndWait\<close> returns provided that the operations of the clients do: no goroutine waits for ever on a
  channel, and apart from the operations of clients only finitely many steps are left.
\<close>

theorem spawn_returns:
  assumes "run spawn_act (spawn_init n) as = Some s"
  shows "(spawn_act s a = Some t \<and> (\<forall>me ok. a \<noteq> POp me ok) \<longrightarrow> spawn_left t < spawn_left s) \<and>
    (sp_main s \<noteq> SpReturned \<longrightarrow> (\<exists>a t. spawn_act s a = Some t \<and> (\<forall>me ok. a \<noteq> POp me ok)))"
proof -
  have "spawn_inv s" by (rule run_keeps [OF assms]) (auto simp: spawn_inv_init intro: spawn_act_inv)
  then show ?thesis using spawn_progress spawn_not_stuck by blast
qed

text \<open>The last clerks may still have to be deleted when it returns.\<close>

lemma spawn_returns_before_delete:
  "map_option (\<lambda>s. (sp_main s, sp_cli s 0, sp_rs s))
     (run spawn_act (spawn_init 1) [PMake 0, POp 0 True, POp 0 False, PDone 0, PLoop, PCollect, PLoop]) =
   Some (SpReturned, CSent \<lparr>cr_Nok = 1, cr_Nmaybe = 1\<rparr>, [\<lparr>cr_Nok = 1, cr_Nmaybe = 1\<rparr>])"
  by code_simp

end
