(* ===== verification/TestRuns.thy ===== *)
theory TestRuns
  imports TesterCfg RsmSrv RfTest
begin

text \<open>
  How the tests of Raft (\<open>src/raft1/test.go\<close>), of the replicated state machine
  (\<open>src/kvraft1/rsm/test.go\<close>) and of the key/value services (\<open>src/kvtest1/kvtest.go\<close>) control their servers: creation, killing and restarting of servers, with the
  proxies through which a test talks to them, the end of a test, and the loop in which the
  test of the replicated state machine looks for a server that accepts its command.

  The slice \<open>ts.srvs\<close> is \<open>tb_proxies\<close>: \<^term>\<open>None\<close> for an interface that is nil, otherwise the process the
  proxy was made for (itself nil when the process could not be started). The annotations and the
  configuration are those of \<open>Annot\<close> and \<open>TesterCfg\<close>.
\<close>

subsection \<open>A test and its servers\<close>

record ('o, 'w, 'v, 'so, 'sv) Testbed =
  tb_cfg :: "('o, 'w, 'v, 'so, 'sv) Config"
  tb_ann :: annstate
  tb_proxies :: "'v DaemonClnt option option list"

definition tb_grp :: "('o, 'w, 'v, 'so, 'sv) Testbed \<Rightarrow> 'v ServerGrp option" where
  "tb_grp ts = lookupGroup (cf_groups (tb_cfg ts)) GRP0"

definition on_grp ::
  "(('o, 'w) net \<times> 'v ServerGrp \<Rightarrow> (('o, 'w) net \<times> 'v ServerGrp) option) \<Rightarrow>
     ('o, 'w, 'v, 'so, 'sv) Testbed \<Rightarrow> ('o, 'w, 'v, 'so, 'sv) Testbed option" where
  "on_grp f ts = do {
     (net, groups) \<leftarrow> on_group GRP0 f (cf_net (tb_cfg ts), cf_groups (tb_cfg ts));
     Some (ts\<lparr>tb_cfg := (tb_cfg ts)\<lparr>cf_net := net, cf_groups := groups\<rparr>\<rparr>)
   }"

text \<open>\<open>ts.mksrv(srv, ts.g.DaemonClnt(srv))\<close>\<close>

definition mksrv :: "nat \<Rightarrow> ('o, 'w, 'v, 'so, 'sv) Testbed \<Rightarrow> ('o, 'w, 'v, 'so, 'sv) Testbed option" where
  "mksrv srv ts = do {
     sg \<leftarrow> tb_grp ts;
     dc \<leftarrow> DaemonClnt_of sg srv;
     ps \<leftarrow> go_upd (tb_proxies ts) (int srv) (Some dc);
     Some (ts\<lparr>tb_proxies := ps\<rparr>)
   }"

definition set_ann ::
  "(annstate \<Rightarrow> annstate option) \<Rightarrow> ('o, 'w, 'v, 'so, 'sv) Testbed \<Rightarrow> ('o, 'w, 'v, 'so, 'sv) Testbed option" where
  "set_ann f ts = do { s \<leftarrow> f (tb_ann ts); Some (ts\<lparr>tb_ann := s\<rparr>) }"

subsection \<open>Tests of Raft\<close>

text \<open>What \<open>makeTest\<close> hands to the configuration of a test, and what it draws from its environment.\<close>

record ('o, 'w, 'so, 'sv) TestEnv =
  te_heap :: "nat \<Rightarrow> ('o, 'w) Server"
  te_clnts :: "nat \<Rightarrow> Clnt"
  te_endName :: string
  te_rpc :: 'so
  te_rpctyp :: "('so, 'sv) Method list"
  te_rand :: "nat \<Rightarrow> nat \<Rightarrow> string"
  te_start :: "nat \<Rightarrow> StartEnv"
  te_now :: int
  te_ann :: annstate

definition raft_makeTest ::
  "('o, 'w, 'so, 'sv) TestEnv \<Rightarrow> 'so \<Rightarrow> ('so, 'sv) Method list \<Rightarrow> nat \<Rightarrow> bool \<Rightarrow> bool \<Rightarrow>
     ('o, 'w, 'v, 'so, 'sv) Testbed option" where
  "raft_makeTest env ts_svc ts_typ n reliable snapshot = do {
     let args = (if snapshot then [''--max-raft-state=1''] else []);
     cfg \<leftarrow> MakeConfig (te_heap env) (te_clnts env) (te_endName env) (te_rpc env) (te_rpctyp env) (te_rand env) (te_start env)
              (te_now env) n reliable args;
     let cfg = SetLongDelays cfg True;
     let cfg = cfg_AddService cfg ''Test'' ts_svc ts_typ;
     for_each mksrv [0..<n] \<lparr>tb_cfg = cfg, tb_ann = te_ann env, tb_proxies = replicate n None\<rparr>
   }"

definition raft_kill :: "int \<Rightarrow> nat list \<Rightarrow> ('o, 'w, 'v, 'so, 'sv) Testbed \<Rightarrow> ('o, 'w, 'v, 'so, 'sv) Testbed option" where
  "raft_kill now srvs ts = do {
     ts \<leftarrow> on_grp (KillSrvs srvs) ts;
     ts \<leftarrow> set_ann (\<lambda>s. AnnotateShutdown now s (map int srvs)) ts;
     for_each (\<lambda>srv ts. do { ps \<leftarrow> go_upd (tb_proxies ts) (int srv) None; Some (ts\<lparr>tb_proxies := ps\<rparr>) }) srvs ts
   }"

definition raft_restart ::
  "int \<Rightarrow> (nat \<Rightarrow> StartEnv) \<Rightarrow> nat list \<Rightarrow> ('o, 'w, 'v, 'so, 'sv) Testbed \<Rightarrow> ('o, 'w, 'v, 'so, 'sv) Testbed option" where
  "raft_restart now env srvs ts = do {
     ts \<leftarrow> on_grp (StartSrvs env srvs) ts;
     ts \<leftarrow> set_ann (\<lambda>s. AnnotateRestart now s (map int srvs)) ts;
     for_each (\<lambda>srv ts. do { ts \<leftarrow> mksrv srv ts; on_grp (ConnectOne srv) ts }) srvs ts
   }"

subsection \<open>Tests of the replicated state machine\<close>

definition NSRV :: nat where "NSRV = 3"

record ('o, 'w, 'v, 'so, 'sv) RsmTest =
  rt_tb :: "('o, 'w, 'v, 'so, 'sv) Testbed"
  rt_leader :: int

definition rsm_makeTest ::
  "('o, 'w, 'so, 'sv) TestEnv \<Rightarrow> int \<Rightarrow> ('o, 'w, 'v, 'so, 'sv) RsmTest option" where
  "rsm_makeTest env maxraftstate = do {
     let args = [''--max-raft-state='' @ Itoa maxraftstate];
     cfg \<leftarrow> MakeConfig (te_heap env) (te_clnts env) (te_endName env) (te_rpc env) (te_rpctyp env) (te_rand env) (te_start env)
              (te_now env) NSRV True args;
     tb \<leftarrow> for_each mksrv [0..<NSRV] \<lparr>tb_cfg = cfg, tb_ann = te_ann env, tb_proxies = replicate NSRV None\<rparr>;
     Some \<lparr>rt_tb = tb, rt_leader = 0\<rparr>
   }"

definition rsm_kill :: "int \<Rightarrow> nat list \<Rightarrow> ('o, 'w, 'v, 'so, 'sv) Testbed \<Rightarrow> ('o, 'w, 'v, 'so, 'sv) Testbed option" where
  "rsm_kill now srvs ts = do {
     ts \<leftarrow> on_grp (KillSrvs srvs) ts;
     set_ann (\<lambda>s. AnnotateShutdown now s (map int srvs)) ts
   }"

definition rsm_restart ::
  "int \<Rightarrow> (nat \<Rightarrow> StartEnv) \<Rightarrow> nat list \<Rightarrow> ('o, 'w, 'v, 'so, 'sv) Testbed \<Rightarrow> ('o, 'w, 'v, 'so, 'sv) Testbed option" where
  "rsm_restart now env srvs ts = do {
     ts \<leftarrow> on_grp (StartSrvs env srvs) ts;
     ts \<leftarrow> on_grp ConnectAll ts;
     ts \<leftarrow> set_ann (\<lambda>s. AnnotateRestart now s (map int srvs)) ts;
     for_each mksrv srvs ts
   }"

fun inPartition :: "nat \<Rightarrow> nat list option \<Rightarrow> bool" where
  "inPartition s None \<longleftrightarrow> True"
| "inPartition s (Some p) \<longleftrightarrow> s \<in> set p"

text \<open>
  The loop over the servers in a round of \<open>onePartition\<close>, from server \<open>index\<close> on. \<open>call i req w\<close> is the remote
  call \<open>rsmSrv.SubmitRPC\<close> to server \<open>i\<close>: the reply, if there is one, and what the servers have become. A
  server that answers \<open>OK\<close> ends the search; \<^term>\<open>None\<close> for a panic.
\<close>

fun try_servers ::
  "(nat \<Rightarrow> RsmReq \<Rightarrow> 's \<Rightarrow> SubmitReply option \<times> 's) \<Rightarrow> nat list option \<Rightarrow> RsmReq \<Rightarrow> nat \<Rightarrow> int \<Rightarrow>
     ('o, 'w, 'v, 'so, 'sv) RsmTest \<Rightarrow> 's \<Rightarrow> ((('o, 'w, 'v, 'so, 'sv) RsmTest \<times> RsmRep option) option \<times> 's) option" where
  "try_servers call p req 0 index ts w = Some (None, w)"
| "try_servers call p req (Suc k) index ts w =
     (if index \<ge> int NSRV then None
      else do {
        sg \<leftarrow> tb_grp (rt_tb ts);
        c \<leftarrow> (if index \<noteq> -1 then IsConnected sg (nat index) else Some False);
        rsm \<leftarrow> (if c then go_nth (tb_proxies (rt_tb ts)) index else Some None);
        let again = try_servers call p req k ((index + 1) mod int (length (tb_proxies (rt_tb ts)))) ts;
        if rsm \<noteq> None \<and> inPartition (nat index) p then do {
          dc \<leftarrow> the rsm;
          let (reply, w) = call (nat index) req w;
          case proxy_Submit (\<lambda>_. reply) req of (err, rep) \<Rightarrow>
            if err = OK then
              Some (Some (\<lparr>rt_tb = (rt_tb ts)\<lparr>tb_cfg := cfg_OpInc (tb_cfg (rt_tb ts))\<rparr>, rt_leader = index\<rparr>, rep), w)
            else again w
        } else again w
      })"

text \<open>\<open>onePartition\<close>: the rounds that fit into ten seconds, with what the servers do in the pause after each.\<close>

fun onePartition ::
  "(nat \<Rightarrow> RsmReq \<Rightarrow> 's \<Rightarrow> SubmitReply option \<times> 's) \<Rightarrow> ('s \<Rightarrow> 's) list \<Rightarrow> nat list option \<Rightarrow> RsmReq \<Rightarrow>
     ('o, 'w, 'v, 'so, 'sv) RsmTest \<Rightarrow> 's \<Rightarrow> (RsmRep option \<times> ('o, 'w, 'v, 'so, 'sv) RsmTest \<times> 's) option" where
  "onePartition call [] p req ts w = Some (None, ts, w)"
| "onePartition call (pause # rounds) p req ts w = do {
     (r, w) \<leftarrow> try_servers call p req (length (tb_proxies (rt_tb ts))) (rt_leader ts) ts w;
     case r of
       Some (ts, rep) \<Rightarrow> Some (rep, ts, w)
     | None \<Rightarrow> onePartition call rounds p req ts (pause w)
   }"

definition oneInc ::
  "(nat \<Rightarrow> RsmReq \<Rightarrow> 's \<Rightarrow> SubmitReply option \<times> 's) \<Rightarrow> ('s \<Rightarrow> 's) list \<Rightarrow> ('o, 'w, 'v, 'so, 'sv) RsmTest \<Rightarrow> 's \<Rightarrow>
     (int \<times> ('o, 'w, 'v, 'so, 'sv) RsmTest \<times> 's) option" where
  "oneInc call rounds ts w = do {
     (rep, ts, w) \<leftarrow> onePartition call rounds None Inc ts w;
     case rep of
       None \<Rightarrow> Some (0, ts, w)
     | Some (IncRep n) \<Rightarrow> Some (n, ts, w)
     | Some _ \<Rightarrow> None
   }"

definition oneNull ::
  "(nat \<Rightarrow> RsmReq \<Rightarrow> 's \<Rightarrow> SubmitReply option \<times> 's) \<Rightarrow> ('s \<Rightarrow> 's) list \<Rightarrow> ('o, 'w, 'v, 'so, 'sv) RsmTest \<Rightarrow> 's \<Rightarrow>
     (('o, 'w, 'v, 'so, 'sv) RsmTest \<times> 's) option" where
  "oneNull call rounds ts w = do {
     (rep, ts, w) \<leftarrow> onePartition call rounds None Null ts w;
     case rep of
       None \<Rightarrow> Some (ts, w)
     | Some NullRep \<Rightarrow> Some (ts, w)
     | Some _ \<Rightarrow> None
   }"

text \<open>
  \<open>countValue\<close> asks all servers for their counters; \<open>ans i\<close> is the answer of server \<open>i\<close>, if there is one.
  \<open>checkCounter\<close> asks up to thirty times; the test ends on the left of the sum.
\<close>

fun count_from :: "(nat \<Rightarrow> int option) \<Rightarrow> int \<Rightarrow> nat \<Rightarrow> 'v DaemonClnt option option list \<Rightarrow> int \<Rightarrow> int option" where
  "count_from ans v j [] i = Some i"
| "count_from ans v j (s # srvs) i = do {
     rsm \<leftarrow> s;
     dc \<leftarrow> rsm;
     let c = proxy_GetCounter (ans j);
     count_from ans v (Suc j) srvs (if c = v then i + 1 else i)
   }"

definition countValue :: "(nat \<Rightarrow> int option) \<Rightarrow> int \<Rightarrow> ('o, 'w, 'v, 'so, 'sv) Testbed \<Rightarrow> int option" where
  "countValue ans v ts = count_from ans v 0 (tb_proxies ts) 0"

fun check_counter_loop :: "(nat \<Rightarrow> int option) list \<Rightarrow> int \<Rightarrow> int \<Rightarrow> int \<Rightarrow> ('o, 'w, 'v, 'so, 'sv) Testbed \<Rightarrow> (int + unit) option" where
  "check_counter_loop [] v nsrv n ts = Some (Inl n)"
| "check_counter_loop (ans # polls) v nsrv n ts = do {
     n \<leftarrow> countValue ans v ts;
     if n \<ge> nsrv then Some (Inr ()) else check_counter_loop polls v nsrv n ts
   }"

definition checkCounter ::
  "int \<Rightarrow> (nat \<Rightarrow> nat \<Rightarrow> int option) \<Rightarrow> int \<Rightarrow> int \<Rightarrow> ('o, 'w, 'v, 'so, 'sv) Testbed \<Rightarrow>
     (('o, 'w, 'v, 'so, 'sv) Testbed + ('o, 'w, 'v, 'so, 'sv) Testbed) option" where
  "checkCounter now ans v nsrv ts = do {
     r \<leftarrow> check_counter_loop (map ans [0..<30]) v nsrv 0 ts;
     case r of
       Inr _ \<Rightarrow> do {
         let text = ''all '' @ Itoa nsrv @ '' servers have counter value '' @ Itoa v;
         ts \<leftarrow> set_ann (\<lambda>s. AnnotateCheckerSuccess now s text text) ts;
         Some (Inr ts)
       }
     | Inl n \<Rightarrow> do {
         let err = ''checkCounter: only '' @ Itoa n @ '' srvs have '' @ Itoa v @ '' instead of '' @ Itoa nsrv;
         ts \<leftarrow> set_ann (\<lambda>s. AnnotateCheckerFailure now s err err) ts;
         Some (Inl (ts\<lparr>tb_cfg := cfg_Fatalf (tb_cfg ts)\<rparr>))
       }
   }"

definition disconnectLeader :: "('o, 'w, 'v, 'so, 'sv) RsmTest \<Rightarrow> (('o, 'w, 'v, 'so, 'sv) RsmTest \<times> int) option" where
  "disconnectLeader ts = do {
     tb \<leftarrow> on_grp (DisconnectAll (nat (rt_leader ts))) (rt_tb ts);
     Some (ts\<lparr>rt_tb := tb\<rparr>, rt_leader ts)
   }"

definition rsm_connect :: "nat \<Rightarrow> ('o, 'w, 'v, 'so, 'sv) RsmTest \<Rightarrow> ('o, 'w, 'v, 'so, 'sv) RsmTest option" where
  "rsm_connect i ts = do { tb \<leftarrow> on_grp (ConnectOne i) (rt_tb ts); Some (ts\<lparr>rt_tb := tb\<rparr>) }"

subsection \<open>The end of a test\<close>

text \<open>
  \<open>Cleanup\<close> of \<open>kvtest.go\<close>, and \<open>cleanup\<close> of the tests of the replicated state machine, which checks the time
  once more. The test ends on the left of the sum. The arguments before the test are those of \<open>cfg_Cleanup\<close>.
\<close>

definition kv_Cleanup ::
  "int list \<Rightarrow> string \<Rightarrow> bool \<Rightarrow> int \<Rightarrow> string list \<Rightarrow> ('o, 'w, 'v, 'so, 'sv) Testbed \<Rightarrow>
     (('o, 'w, 'v, 'so, 'sv) Testbed + ('o, 'w, 'v, 'so, 'sv) Testbed \<times> report option) option" where
  "kv_Cleanup order enabled opened now tags ts = do {
     r \<leftarrow> cfg_End now (tb_cfg ts);
     case r of
       Inl cfg \<Rightarrow> Some (Inl (ts\<lparr>tb_cfg := cfg\<rparr>))
     | Inr (cfg, rep) \<Rightarrow> do {
         (cfg, ann, vis) \<leftarrow> cfg_Cleanup order enabled opened now tags (tb_ann ts) cfg;
         Some (Inr (ts\<lparr>tb_cfg := cfg, tb_ann := ann\<rparr>, rep))
       }
   }"

definition rsm_cleanup ::
  "int list \<Rightarrow> string \<Rightarrow> bool \<Rightarrow> int \<Rightarrow> string list \<Rightarrow> ('o, 'w, 'v, 'so, 'sv) Testbed \<Rightarrow>
     (('o, 'w, 'v, 'so, 'sv) Testbed + ('o, 'w, 'v, 'so, 'sv) Testbed \<times> report option) option" where
  "rsm_cleanup order enabled opened now tags ts = do {
     r \<leftarrow> kv_Cleanup order enabled opened now tags ts;
     case r of
       Inl ts \<Rightarrow> Some (Inl ts)
     | Inr (ts, rep) \<Rightarrow>
         (case CheckTimeout now (tb_cfg ts) of
            Inl cfg \<Rightarrow> Some (Inl (ts\<lparr>tb_cfg := cfg\<rparr>))
          | Inr cfg \<Rightarrow> Some (Inr (ts\<lparr>tb_cfg := cfg\<rparr>, rep)))
   }"

subsection \<open>The search for a server\<close>

text \<open>All servers have been started, and the last server that accepted a command is one of them.\<close>

definition rsm_ok :: "('o, 'w, 'v, 'so, 'sv) RsmTest \<Rightarrow> bool" where
  "rsm_ok ts \<longleftrightarrow> length (tb_proxies (rt_tb ts)) = NSRV \<and> (\<forall>s\<in>set (tb_proxies (rt_tb ts)). \<exists>dc. s = Some (Some dc)) \<and>
     0 \<le> rt_leader ts \<and> rt_leader ts < int NSRV \<and> (\<exists>sg. tb_grp (rt_tb ts) = Some sg \<and> length (sg_connected sg) = NSRV)"

definition connected :: "('o, 'w, 'v, 'so, 'sv) RsmTest \<Rightarrow> nat \<Rightarrow> bool" where
  "connected ts i \<longleftrightarrow> (\<exists>sg. tb_grp (rt_tb ts) = Some sg \<and> i < length (sg_connected sg) \<and> sg_connected sg ! i)"

definition accepted :: "nat \<Rightarrow> ('o, 'w, 'v, 'so, 'sv) RsmTest \<Rightarrow> ('o, 'w, 'v, 'so, 'sv) RsmTest" where
  "accepted i ts = \<lparr>rt_tb = (rt_tb ts)\<lparr>tb_cfg := cfg_OpInc (tb_cfg (rt_tb ts))\<rparr>, rt_leader = int i\<rparr>"

text \<open>One server is asked, or passed over.\<close>

definition ask ::
  "(nat \<Rightarrow> RsmReq \<Rightarrow> 's \<Rightarrow> SubmitReply option \<times> 's) \<Rightarrow> nat list option \<Rightarrow> RsmReq \<Rightarrow> nat \<Rightarrow> ('o, 'w, 'v, 'so, 'sv) RsmTest \<Rightarrow>
     's \<Rightarrow> RsmRep option option \<times> 's" where
  "ask call p req i ts w =
     (if connected ts i \<and> inPartition i p
      then let (reply, w) = call i req w; (err, rep) = proxy_Submit (\<lambda>_. reply) req in (if err = OK then Some rep else None, w)
      else (None, w))"

lemma try_servers_step:
  assumes ok: "rsm_ok ts" and i: "i < NSRV"
  shows "try_servers call p req (Suc k) (int i) ts w =
    (case ask call p req i ts w of
       (Some rep, w) \<Rightarrow> Some (Some (accepted i ts, rep), w)
     | (None, w) \<Rightarrow> try_servers call p req k (int (Suc i mod NSRV)) ts w)"
proof -
  from ok obtain sg where sg: "tb_grp (rt_tb ts) = Some sg" "length (sg_connected sg) = NSRV"
    and len: "length (tb_proxies (rt_tb ts)) = NSRV" by (auto simp: rsm_ok_def)
  from ok i len obtain dc where dc: "tb_proxies (rt_tb ts) ! i = Some (Some dc)"
    unfolding rsm_ok_def by (metis nth_mem)
  have nxt: "(int i + 1) mod int NSRV = int (Suc i mod NSRV)" by (simp add: zmod_int add.commute)
  show ?thesis
    using i sg dc len nxt
    by (auto simp: ask_def connected_def accepted_def IsConnected_def go_nth_def Let_def split: prod.splits)
qed

lemma try_servers_spec:
  assumes ok: "rsm_ok ts" and i: "i < NSRV"
  shows "\<exists>r w'. try_servers call p req k (int i) ts w = Some (r, w') \<and>
    (case r of
       Some (ts', rep) \<Rightarrow> \<exists>j w0 w1. j < NSRV \<and> ask call p req j ts w0 = (Some rep, w1) \<and> ts' = accepted j ts
     | None \<Rightarrow> \<forall>m<k. \<exists>w0 w1. ask call p req ((i + m) mod NSRV) ts w0 = (None, w1))"
  using i
proof (induction k arbitrary: i w)
  case (Suc k)
  obtain a w1 where a: "ask call p req i ts w = (a, w1)" by force
  show ?case
  proof (cases a)
    case (Some rep)
    with a Suc.prems show ?thesis by (auto simp: try_servers_step [OF ok Suc.prems] simp del: try_servers.simps)
  next
    case None
    have i': "Suc i mod NSRV < NSRV" by (simp add: NSRV_def)
    from Suc.IH [OF i', of w1] obtain r w' where r: "try_servers call p req k (int (Suc i mod NSRV)) ts w1 = Some (r, w')"
      and spec: "case r of
         Some (ts', rep) \<Rightarrow> \<exists>j w0 w1. j < NSRV \<and> ask call p req j ts w0 = (Some rep, w1) \<and> ts' = accepted j ts
       | None \<Rightarrow> \<forall>m<k. \<exists>w0 w1. ask call p req ((Suc i mod NSRV + m) mod NSRV) ts w0 = (None, w1)" by blast
    have "\<exists>w0 w1. ask call p req ((i + m) mod NSRV) ts w0 = (None, w1)" if "r = None" "m < Suc k" for m
    proof (cases m)
      case 0
      with a None Suc.prems show ?thesis by (auto simp: mod_less)
    next
      case (Suc m')
      with spec that have "\<exists>w0 w1. ask call p req ((Suc i mod NSRV + m') mod NSRV) ts w0 = (None, w1)" by simp
      moreover have "(Suc i mod NSRV + m') mod NSRV = (i + m) mod NSRV" using Suc by (simp add: mod_add_left_eq)
      ultimately show ?thesis by simp
    qed
    with a None r spec show ?thesis
      by (cases r) (simp_all add: try_servers_step [OF ok Suc.prems] del: try_servers.simps)
  qed
qed simp

text \<open>A server that accepts the command whenever it is asked.\<close>

definition always_accepts ::
  "(nat \<Rightarrow> RsmReq \<Rightarrow> 's \<Rightarrow> SubmitReply option \<times> 's) \<Rightarrow> RsmReq \<Rightarrow> nat \<Rightarrow> bool" where
  "always_accepts call req i \<longleftrightarrow> (\<forall>w. \<exists>reply w'. call i req w = (Some reply, w') \<and> su_Err reply = OK)"

lemma try_servers_finds:
  assumes ok: "rsm_ok ts" and j: "j < NSRV" "connected ts j" "inPartition j p" "always_accepts call req j"
  shows "try_servers call p req NSRV (rt_leader ts) ts w \<noteq> Some (None, w')"
proof
  assume none: "try_servers call p req NSRV (rt_leader ts) ts w = Some (None, w')"
  obtain i where i: "rt_leader ts = int i" "i < NSRV" using ok by (metis rsm_ok_def nat_0_le of_nat_less_iff)
  from try_servers_spec [OF ok i(2), of call p req NSRV w] none i(1)
  have all: "\<exists>w0 w1. ask call p req ((i + m) mod NSRV) ts w0 = (None, w1)" if "m < NSRV" for m using that by auto
  have "(i + (j + NSRV - i) mod NSRV) mod NSRV = (i + (j + NSRV - i)) mod NSRV" by (rule mod_add_right_eq)
  also have "\<dots> = j" using i(2) j(1) by simp
  finally have "(i + (j + NSRV - i) mod NSRV) mod NSRV = j" .
  with all [of "(j + NSRV - i) mod NSRV"] obtain w0 w1 where a: "ask call p req j ts w0 = (None, w1)"
    by (auto simp: NSRV_def)
  from j(4) obtain reply w2 where "call j req w0 = (Some reply, w2)" "su_Err reply = OK"
    unfolding always_accepts_def by blast
  with a j show False by (simp add: ask_def proxy_Submit_def Let_def)
qed

text \<open>
  \<open>onePartition\<close> never panics. It returns a reply only if a connected server of the partition accepted the
  command with it, and remembers that server and counts the operation; otherwise it has changed nothing. A
  connected server of the partition that accepts whenever it is asked is found in the first round, whichever
  server the search starts from.
\<close>

theorem one_partition_finds:
  assumes "rsm_ok ts"
  shows "\<exists>rep ts' w'. onePartition call rounds p req ts w = Some (rep, ts', w') \<and> rsm_ok ts' \<and>
    (ts' = ts \<and> rep = None \<and>
       (rounds = [] \<or> \<not> (\<exists>j<NSRV. connected ts j \<and> inPartition j p \<and> always_accepts call req j)) \<or>
     (\<exists>i w0 reply w1. i < NSRV \<and> connected ts i \<and> inPartition i p \<and> ts' = accepted i ts \<and>
        call i req w0 = (Some reply, w1) \<and> su_Err reply = OK \<and> rep = su_Rep reply))"
proof (induction rounds arbitrary: w)
  case (Cons pause rounds)
  have len: "length (tb_proxies (rt_tb ts)) = NSRV" using assms by (simp add: rsm_ok_def)
  obtain i where i: "rt_leader ts = int i" "i < NSRV" using assms by (metis rsm_ok_def nat_0_le of_nat_less_iff)
  from try_servers_spec [OF assms i(2), of call p req NSRV w] obtain r w1
    where r: "try_servers call p req NSRV (rt_leader ts) ts w = Some (r, w1)"
      and spec: "case r of
         Some (ts', rep) \<Rightarrow> \<exists>j w0 w1. j < NSRV \<and> ask call p req j ts w0 = (Some rep, w1) \<and> ts' = accepted j ts
       | None \<Rightarrow> \<forall>m<NSRV. \<exists>w0 w1. ask call p req ((i + m) mod NSRV) ts w0 = (None, w1)" unfolding i(1) by blast
  show ?case
  proof (cases r)
    case None
    with r have "try_servers call p req NSRV (rt_leader ts) ts w = Some (None, w1)" by simp
    then have none: "\<not> (\<exists>j<NSRV. connected ts j \<and> inPartition j p \<and> always_accepts call req j)"
      using try_servers_finds [OF assms, where call = call and p = p and req = req and w = w and w' = w1] by auto
    have "onePartition call (pause # rounds) p req ts w = onePartition call rounds p req ts (pause w1)"
      by (simp add: len r None)
    with Cons.IH [of "pause w1"] none show ?thesis by auto
  next
    case (Some x)
    then obtain ts' rep where x: "r = Some (ts', rep)" by (cases x) auto
    with spec obtain j w0 w2 where j: "j < NSRV" "ask call p req j ts w0 = (Some rep, w2)" "ts' = accepted j ts" by auto
    obtain reply w3 where c: "call j req w0 = (reply, w3)" by force
    from j(2) c have "connected ts j" "inPartition j p" "\<exists>rp. reply = Some rp \<and> su_Err rp = OK \<and> rep = su_Rep rp"
      by (auto simp: ask_def proxy_Submit_def Let_def split: if_splits option.splits)
    moreover have "rsm_ok ts'" using assms j by (auto simp: rsm_ok_def accepted_def tb_grp_def cfg_OpInc_def)
    moreover have "onePartition call (pause # rounds) p req ts w = Some (rep, ts', w1)" by (simp add: len r x)
    ultimately show ?thesis using j c by blast
  qed
qed (use assms in simp)

subsection \<open>Counting\<close>

lemma count_from_eq:
  assumes "\<forall>s\<in>set srvs. \<exists>dc. s = Some (Some dc)"
  shows "count_from ans v j srvs i = Some (i + int (card {m. m < length srvs \<and> proxy_GetCounter (ans (j + m)) = v}))"
  using assms
proof (induction srvs arbitrary: j i)
  case (Cons s srvs)
  let ?P = "\<lambda>m. proxy_GetCounter (ans (j + m)) = v"
  have split: "{m. m < Suc (length srvs) \<and> ?P m} = {m. m = 0 \<and> ?P 0} \<union> Suc ` {m. m < length srvs \<and> ?P (Suc m)}"
    by (auto simp: image_iff less_Suc_eq_0_disj)
  have "card {m. m < Suc (length srvs) \<and> ?P m} = (if ?P 0 then 1 else 0) + card {m. m < length srvs \<and> ?P (Suc m)}"
    unfolding split by (subst card_Un_disjoint) (auto simp: card_image)
  moreover from Cons.prems obtain dc where "s = Some (Some dc)" by auto
  ultimately show ?case using Cons.IH [of "Suc j"] Cons.prems by (simp add: Let_def)
qed simp

text \<open>
  \<open>countValue\<close> counts the servers that answer with the value, and for the value 0 also those that do not answer:
  a failed call leaves the reply zero.
\<close>

theorem count_value_counts:
  assumes "rsm_ok ts"
  shows "countValue ans v (rt_tb ts) =
    Some (int (card {i. i < NSRV \<and> ans i = Some v}) + (if v = 0 then int (card {i. i < NSRV \<and> ans i = None}) else 0))"
proof -
  have split: "{i. i < NSRV \<and> proxy_GetCounter (ans i) = v} =
      {i. i < NSRV \<and> ans i = Some v} \<union> (if v = 0 then {i. i < NSRV \<and> ans i = None} else {})"
    by (auto simp: proxy_GetCounter_def split: option.splits)
  have "card {i. i < NSRV \<and> proxy_GetCounter (ans i) = v} =
      card {i. i < NSRV \<and> ans i = Some v} + (if v = 0 then card {i. i < NSRV \<and> ans i = None} else 0)"
    unfolding split by (subst card_Un_disjoint) auto
  then show ?thesis using assms by (simp add: countValue_def count_from_eq rsm_ok_def)
qed

text \<open>\<open>checkCounter\<close> ends the test unless one of its thirty polls counts enough servers.\<close>

lemma check_counter_loop_iff:
  assumes "\<And>ans. ans \<in> set polls \<Longrightarrow> \<exists>m. countValue ans v ts = Some m"
  shows "\<exists>r. check_counter_loop polls v nsrv n ts = Some r \<and>
    (r = Inr () \<longleftrightarrow> (\<exists>ans\<in>set polls. \<exists>m. countValue ans v ts = Some m \<and> nsrv \<le> m))"
  using assms
proof (induction polls arbitrary: n)
  case (Cons ans polls)
  from Cons.prems [of ans] obtain m where m: "countValue ans v ts = Some m" by auto
  from Cons.IH [of m] Cons.prems m show ?case by (cases "nsrv \<le> m") auto
qed simp

theorem check_counter_iff:
  assumes "rsm_ok ts" and ann: "as_finfo (tb_ann (rt_tb ts)) \<noteq> None"
  shows "\<exists>r. checkCounter now ans v nsrv (rt_tb ts) = Some r \<and>
    ((\<exists>ts'. r = Inr ts') \<longleftrightarrow> (\<exists>k<30. \<exists>m. countValue (ans k) v (rt_tb ts) = Some m \<and> nsrv \<le> m))"
proof -
  have c: "\<exists>m. countValue a v (rt_tb ts) = Some m" for a using count_value_counts [OF assms(1)] by blast
  from check_counter_loop_iff [of "map ans [0..<30]", OF c] obtain r
    where r: "check_counter_loop (map ans [0..<30]) v nsrv 0 (rt_tb ts) = Some r"
      and iff: "r = Inr () \<longleftrightarrow> (\<exists>a\<in>set (map ans [0..<30]). \<exists>m. countValue a v (rt_tb ts) = Some m \<and> nsrv \<le> m)" by blast
  have "\<exists>t. set_ann (\<lambda>s. AnnotateCheckerEnd now s x x col) (rt_tb ts) = Some t" for x col
    using ann by (auto simp: set_ann_def AnnotateCheckerEnd_def Let_def)
  then obtain f where f: "\<And>x col. set_ann (\<lambda>s. AnnotateCheckerEnd now s x x col) (rt_tb ts) = Some (f x col)" by metis
  have polls: "(\<exists>a\<in>set (map ans [0..<30]). \<exists>m. countValue a v (rt_tb ts) = Some m \<and> nsrv \<le> m) \<longleftrightarrow>
      (\<exists>k<30. \<exists>m. countValue (ans k) v (rt_tb ts) = Some m \<and> nsrv \<le> m)" by auto
  note ends = checkCounter_def r f AnnotateCheckerSuccess_def AnnotateCheckerFailure_def Let_def bind.bind_lunit sum.case
  show ?thesis
  proof (cases r)
    case (Inl n)
    with iff polls have "\<not> (\<exists>k<30. \<exists>m. countValue (ans k) v (rt_tb ts) = Some m \<and> nsrv \<le> m)" by auto
    moreover have "\<exists>t. checkCounter now ans v nsrv (rt_tb ts) = Some (Inl t)" by (simp only: Inl ends option.inject ex_simps) blast
    ultimately show ?thesis by auto
  next
    case (Inr u)
    with iff polls have "\<exists>k<30. \<exists>m. countValue (ans k) v (rt_tb ts) = Some m \<and> nsrv \<le> m" by auto
    moreover have "\<exists>t. checkCounter now ans v nsrv (rt_tb ts) = Some (Inr t)" by (simp only: Inr ends option.inject ex_simps) blast
    ultimately show ?thesis by auto
  qed
qed

subsection \<open>Proxies and processes\<close>

lemma on_grpD:
  assumes "on_grp f ts = Some ts'"
  obtains sg net' sg' where "tb_grp ts = Some sg" "f (cf_net (tb_cfg ts), sg) = Some (net', sg')" "tb_grp ts' = Some sg'"
    "tb_proxies ts' = tb_proxies ts"
  using assms by (auto simp: on_grp_def on_group_def tb_grp_def lookupGroup_def bind_eq_Some_conv split: prod.splits)

text \<open>Operations on one server of a group; connecting and disconnecting concern the network only.\<close>

lemma connections_srvs:
  "grp_connect i to (net, sg) = Some (net', sg') \<Longrightarrow> sg_srvs sg' = sg_srvs sg"
  "grp_disconnect i from_list (net, sg) = Some (net', sg') \<Longrightarrow> sg_srvs sg' = sg_srvs sg"
  by (auto simp: grp_connect_def grp_disconnect_def Let_def bind_eq_Some_conv split: if_splits)

lemma ConnectOne_srvs: "ConnectOne i (net, sg) = Some (net', sg') \<Longrightarrow> sg_srvs sg' = sg_srvs sg"
  by (simp add: ConnectOne_def connections_srvs)

lemma ShutdownServer_srvs:
  assumes "ShutdownServer i (net, sg) = Some (net', sg')"
  shows "i < length (sg_srvs sg) \<and> (\<exists>s. sg_srvs sg' = (sg_srvs sg)[i := s] \<and> sr_dc s = None)"
proof -
  from assms obtain net1 sg1 s s' where d: "DisconnectAll i (net, sg) = Some (net1, sg1)"
    and s: "go_nth (sg_srvs sg1) (int i) = Some s" "shutdown_srv s = Some s'" "sg_srvs sg' = (sg_srvs sg1)[i := s']"
    by (auto simp: ShutdownServer_def bind_eq_Some_conv)
  have "sg_srvs sg1 = sg_srvs sg" using d by (simp add: DisconnectAll_def connections_srvs)
  moreover have "sr_dc s' = None" using s(2) by (auto simp: shutdown_srv_def bind_eq_Some_conv split: option.splits)
  ultimately show ?thesis using s by (auto simp: go_nth_def split: if_splits)
qed

lemma StartServer_srvs:
  assumes "StartServer env i (net, sg) = Some (net', sg')"
  shows "i < length (sg_srvs sg) \<and> (\<exists>s. sg_srvs sg' = (sg_srvs sg)[i := s])"
proof -
  from assms obtain net1 srv and r :: "DaemonErr + _" where i: "i < length (sg_srvs sg)"
    and r: "(case r of
       Inl err \<Rightarrow> Some (net1, sg\<lparr>sg_srvs := (sg_srvs sg)[i := srv]\<rparr>)
     | Inr dc \<Rightarrow> do {
         p \<leftarrow> sr_saved srv;
         Some (AddServer (net1\<lparr>nw_heap := (nw_heap net1)(se_addr env := SetDispatch MakeServer (se_forward env))\<rparr>)
             (ServerName (sg_gid sg) (int i)) (se_addr env),
           sg\<lparr>sg_srvs := (sg_srvs sg)[i := srv\<lparr>sr_dc := Some (DaemonClnt_init dc p)\<rparr>]\<rparr>)
       }) = Some (net', sg')"
    by (auto simp: StartServer_def go_nth_def bind_eq_Some_conv Let_def split: if_splits)
  then show ?thesis by (cases r) (auto simp: bind_eq_Some_conv)
qed

text \<open>A loop over servers: the others stay, and what each step establishes and none destroys holds of all.\<close>

lemma for_each_srvs:
  assumes step: "\<And>i net sg net' sg'. f i (net, sg) = Some (net', sg') \<Longrightarrow>
      i < length (sg_srvs sg) \<and> (\<exists>s. sg_srvs sg' = (sg_srvs sg)[i := s] \<and> P s)"
    and run: "for_each f is (net, sg) = Some (net', sg')"
  shows "length (sg_srvs sg') = length (sg_srvs sg) \<and> (\<forall>j. j \<notin> set is \<longrightarrow> sg_srvs sg' ! j = sg_srvs sg ! j) \<and>
    (\<forall>j\<in>set is. j < length (sg_srvs sg) \<and> P (sg_srvs sg' ! j))"
  using run
proof (induction "is" arbitrary: net sg)
  case (Cons i "is")
  from Cons.prems obtain net1 sg1 where f: "f i (net, sg) = Some (net1, sg1)" and rest: "for_each f is (net1, sg1) = Some (net', sg')"
    by (auto split: option.splits)
  from step [OF f] obtain s where s: "i < length (sg_srvs sg)" "sg_srvs sg1 = (sg_srvs sg)[i := s]" "P s" by blast
  from Cons.IH [OF rest] s show ?case by (cases "i \<in> set is") (auto simp: nth_list_update)
qed simp

lemma KillSrvs_srvs:
  assumes "KillSrvs srvs (net, sg) = Some (net', sg')"
  shows "length (sg_srvs sg') = length (sg_srvs sg) \<and> (\<forall>j. j \<notin> set srvs \<longrightarrow> sg_srvs sg' ! j = sg_srvs sg ! j) \<and>
    (\<forall>j\<in>set srvs. j < length (sg_srvs sg) \<and> sr_dc (sg_srvs sg' ! j) = None)"
  by (rule for_each_srvs [where f = ShutdownServer, OF _ assms [unfolded KillSrvs_def]]) (rule ShutdownServer_srvs)

lemma StartSrvs_srvs:
  assumes "StartSrvs env srvs (net, sg) = Some (net', sg')"
  shows "length (sg_srvs sg') = length (sg_srvs sg) \<and> (\<forall>j. j \<notin> set srvs \<longrightarrow> sg_srvs sg' ! j = sg_srvs sg ! j)"
  using for_each_srvs [where f = "\<lambda>i. StartServer (env i) i" and P = "\<lambda>_. True", OF _ assms [unfolded StartSrvs_def]]
    StartServer_srvs by (metis (no_types, lifting))

text \<open>Every proxy that a test has is for the process that the server runs in now.\<close>

definition proxies_current :: "('o, 'w, 'v, 'so, 'sv) Testbed \<Rightarrow> bool" where
  "proxies_current ts \<longleftrightarrow> (\<exists>sg. tb_grp ts = Some sg \<and> length (tb_proxies ts) = length (sg_srvs sg) \<and>
     (\<forall>i<length (sg_srvs sg). \<forall>dc. tb_proxies ts ! i = Some dc \<longrightarrow> dc = sr_dc (sg_srvs sg ! i)))"

lemma set_annD: "set_ann f ts = Some ts' \<Longrightarrow> tb_proxies ts' = tb_proxies ts \<and> tb_grp ts' = tb_grp ts"
  by (auto simp: set_ann_def tb_grp_def bind_eq_Some_conv)

lemma mksrvD:
  assumes "mksrv i ts = Some ts'" "tb_grp ts = Some sg"
  shows "tb_grp ts' = Some sg \<and> i < length (tb_proxies ts) \<and> i < length (sg_srvs sg) \<and>
    tb_proxies ts' = (tb_proxies ts)[i := Some (sr_dc (sg_srvs sg ! i))]"
  using assms
  by (auto simp: mksrv_def DaemonClnt_of_def go_nth_def go_upd_def tb_grp_def bind_eq_Some_conv split: if_splits)

lemma for_each_proxies:
  assumes step: "\<And>i ts ts' sg. f i ts = Some ts' \<Longrightarrow> tb_grp ts = Some sg \<Longrightarrow>
      (\<exists>sg'. tb_grp ts' = Some sg' \<and> sg_srvs sg' = sg_srvs sg) \<and> i < length (tb_proxies ts) \<and>
      tb_proxies ts' = (tb_proxies ts)[i := g (sg_srvs sg) i]"
    and run: "for_each f is ts = Some ts'" "tb_grp ts = Some sg"
  shows "(\<exists>sg'. tb_grp ts' = Some sg' \<and> sg_srvs sg' = sg_srvs sg) \<and> length (tb_proxies ts') = length (tb_proxies ts) \<and>
    (\<forall>j. tb_proxies ts' ! j = (if j \<in> set is then g (sg_srvs sg) j else tb_proxies ts ! j)) \<and>
    (\<forall>j\<in>set is. j < length (tb_proxies ts))"
  using run
proof (induction "is" arbitrary: ts sg)
  case (Cons i "is")
  from Cons.prems obtain ts1 where f: "f i ts = Some ts1" and rest: "for_each f is ts1 = Some ts'"
    by (auto split: option.splits)
  from step [OF f Cons.prems(2)] obtain sg1 where s: "tb_grp ts1 = Some sg1" "sg_srvs sg1 = sg_srvs sg"
    "i < length (tb_proxies ts)" "tb_proxies ts1 = (tb_proxies ts)[i := g (sg_srvs sg) i]" by blast
  from Cons.IH [OF rest s(1)] s(2-4) show ?case by (auto simp: nth_list_update)
qed simp

lemma kill_proxies: "for_each (\<lambda>srv ts. do { ps \<leftarrow> go_upd (tb_proxies ts) (int srv) None; Some (ts\<lparr>tb_proxies := ps\<rparr>) }) srvs ts = Some ts' \<Longrightarrow>
  tb_grp ts = Some sg \<Longrightarrow>
  (\<exists>sg'. tb_grp ts' = Some sg' \<and> sg_srvs sg' = sg_srvs sg) \<and> length (tb_proxies ts') = length (tb_proxies ts) \<and>
  (\<forall>j. tb_proxies ts' ! j = (if j \<in> set srvs then None else tb_proxies ts ! j)) \<and> (\<forall>j\<in>set srvs. j < length (tb_proxies ts))"
  by (rule for_each_proxies [where g = "\<lambda>_ _. None"])
    (auto simp: go_upd_def tb_grp_def bind_eq_Some_conv split: if_splits)

text \<open>
  The tests of Raft never talk to a process they have killed: after the creation of a test, and after any
  \<open>kill\<close> and \<open>restart\<close>, every proxy is for the process that its server runs in now; the servers that were
  killed have none, the servers that were restarted have one each.
\<close>

theorem raft_proxies_kill:
  assumes "proxies_current ts" "raft_kill now srvs ts = Some ts'"
  shows "proxies_current ts' \<and> (\<forall>i\<in>set srvs. tb_proxies ts' ! i = None)"
proof -
  from assms(2) obtain ts1 ts2 where k: "on_grp (KillSrvs srvs) ts = Some ts1"
    "set_ann (\<lambda>s. AnnotateShutdown now s (map int srvs)) ts1 = Some ts2"
    "for_each (\<lambda>srv ts. do { ps \<leftarrow> go_upd (tb_proxies ts) (int srv) None; Some (ts\<lparr>tb_proxies := ps\<rparr>) }) srvs ts2 = Some ts'"
    by (auto simp: raft_kill_def bind_eq_Some_conv)
  from k(1) obtain sg net' sg' where g: "tb_grp ts = Some sg" "KillSrvs srvs (cf_net (tb_cfg ts), sg) = Some (net', sg')"
    "tb_grp ts1 = Some sg'" "tb_proxies ts1 = tb_proxies ts" by (rule on_grpD) blast
  have srvs: "length (sg_srvs sg') = length (sg_srvs sg) \<and> (\<forall>j. j \<notin> set srvs \<longrightarrow> sg_srvs sg' ! j = sg_srvs sg ! j)"
    using KillSrvs_srvs [OF g(2)] by blast
  from set_annD [OF k(2)] g(3) have g2: "tb_grp ts2 = Some sg'" by simp
  from kill_proxies [OF k(3) g2] set_annD [OF k(2)] g(4) assms(1) g(1) srvs show ?thesis
    unfolding proxies_current_def by auto
qed

theorem raft_proxies_restart:
  assumes "proxies_current ts" "raft_restart now env srvs ts = Some ts'"
  shows "proxies_current ts' \<and> (\<forall>i\<in>set srvs. tb_proxies ts' ! i \<noteq> None)"
proof -
  let ?f = "\<lambda>srv ts. do { ts \<leftarrow> mksrv srv ts; on_grp (ConnectOne srv) ts }"
  from assms(2) obtain ts1 ts2 where k: "on_grp (StartSrvs env srvs) ts = Some ts1"
    "set_ann (\<lambda>s. AnnotateRestart now s (map int srvs)) ts1 = Some ts2" "for_each ?f srvs ts2 = Some ts'"
    by (auto simp: raft_restart_def bind_eq_Some_conv)
  from k(1) obtain sg net' sg' where g: "tb_grp ts = Some sg" "StartSrvs env srvs (cf_net (tb_cfg ts), sg) = Some (net', sg')"
    "tb_grp ts1 = Some sg'" "tb_proxies ts1 = tb_proxies ts" by (rule on_grpD) blast
  note srvs = StartSrvs_srvs [OF g(2)]
  from set_annD [OF k(2)] g(3) have g2: "tb_grp ts2 = Some sg'" by simp
  have "(\<exists>b. tb_grp v = Some b \<and> sg_srvs b = sg_srvs a) \<and> i < length (tb_proxies u) \<and>
      tb_proxies v = (tb_proxies u)[i := Some (sr_dc (sg_srvs a ! i))]"
    if f: "?f i u = Some v" and a: "tb_grp u = Some a" for i u v a
  proof -
    from f obtain w where w: "mksrv i u = Some w" "on_grp (ConnectOne i) w = Some v" by (auto simp: bind_eq_Some_conv)
    from w(2) obtain c m d where c: "tb_grp w = Some c" "ConnectOne i (cf_net (tb_cfg w), c) = Some (m, d)" "tb_grp v = Some d"
      "tb_proxies v = tb_proxies w" by (rule on_grpD) blast
    from mksrvD [OF w(1) a] c ConnectOne_srvs [OF c(2)] show ?thesis by simp
  qed
  from for_each_proxies [where g = "\<lambda>a i. Some (sr_dc (a ! i))", OF this k(3) g2] set_annD [OF k(2)] g(4) assms(1) g(1) srvs
  show ?thesis unfolding proxies_current_def by auto
qed

lemma for_each_keeps: "for_each f is s = Some t \<Longrightarrow> (\<And>i s t. f i s = Some t \<Longrightarrow> g t = g s) \<Longrightarrow> g t = g s"
  by (induction "is" arbitrary: s) (auto split: option.splits)

lemma make_srvs_length: "make_srvs net gid n rand is = Some (net', ss) \<Longrightarrow> length ss = length is"
  by (induction "is" arbitrary: net net' ss) (auto simp: bind_eq_Some_conv)

lemma MakeConfig_group:
  assumes "MakeConfig heap clntheap endName svc typ rand env now n reliable args = Some cfg"
  shows "\<exists>sg. lookupGroup (cf_groups cfg) GRP0 = Some sg \<and> length (sg_srvs sg) = n"
proof -
  from assms obtain net groups where m: "MakeGroupStart args GRP0 n rand env (MakeNetwork heap, newGroups endName) = Some (net, groups)"
    and cfg: "cf_groups cfg = groups" by (auto simp: MakeConfig_def bind_eq_Some_conv Let_def)
  from m obtain net1 sg1 net2 sg2 where g: "makeSrvGrp (MakeNetwork heap) args endName GRP0 n rand = Some (net1, sg1)"
    "StartServers env (net1, sg1) = Some (net2, sg2)" "lookupGroup groups GRP0 = Some sg2"
    by (auto simp: MakeGroupStart_def MakeGroup_def on_group_def lookupGroup_def newGroups_def bind_eq_Some_conv)
  from g(2) obtain net3 sg3 where s: "StartSrvs env (all_srvs sg1) (net1, sg1) = Some (net3, sg3)"
    "ConnectAll (net3, sg3) = Some (net2, sg2)" by (auto simp: StartServers_def bind_eq_Some_conv)
  from StartSrvs_srvs [OF s(1)] have "length (sg_srvs sg3) = length (sg_srvs sg1)" by blast
  moreover have "sg_srvs (snd (net2, sg2)) = sg_srvs (snd (net3, sg3))"
    by (rule for_each_keeps [where g = "\<lambda>x. sg_srvs (snd x)", OF s(2) [unfolded ConnectAll_def prod.case]])
      (auto intro: ConnectOne_srvs)
  moreover have "length (sg_srvs sg1) = n" using g(1) by (auto simp: makeSrvGrp_def bind_eq_Some_conv dest: make_srvs_length)
  ultimately show ?thesis using g(3) cfg by simp
qed

theorem raft_proxies_make:
  assumes "raft_makeTest env svc typ n reliable snapshot = Some ts"
  shows "proxies_current ts \<and> (\<forall>i<n. tb_proxies ts ! i \<noteq> None)"
proof -
  from assms obtain cfg0 cfg ts0 where m: "MakeConfig (te_heap env) (te_clnts env) (te_endName env) (te_rpc env) (te_rpctyp env)
      (te_rand env) (te_start env) (te_now env) n reliable (if snapshot then [''--max-raft-state=1''] else []) = Some cfg0"
    and k: "for_each mksrv [0..<n] ts0 = Some ts" "tb_proxies ts0 = replicate n None" "cf_groups (tb_cfg ts0) = cf_groups cfg0"
    by (auto simp: raft_makeTest_def bind_eq_Some_conv Let_def SetLongDelays_def cfg_AddService_def split: option.splits)
  from MakeConfig_group [OF m] k(3) obtain sg where sg: "tb_grp ts0 = Some sg" "length (sg_srvs sg) = n"
    by (auto simp: tb_grp_def)
  have "(\<exists>b. tb_grp v = Some b \<and> sg_srvs b = sg_srvs a) \<and> i < length (tb_proxies u) \<and>
      tb_proxies v = (tb_proxies u)[i := Some (sr_dc (sg_srvs a ! i))]"
    if "mksrv i u = Some v" "tb_grp u = Some a" for i u v a
    using mksrvD [OF that] by simp
  from for_each_proxies [where g = "\<lambda>a i. Some (sr_dc (a ! i))", OF this k(1) sg(1)] k(2) sg(2)
  show ?thesis by (auto simp: proxies_current_def)
qed

text \<open>
  The tests of the replicated state machine do: \<open>kill\<close> leaves the proxies as they are, and the check for nil in
  \<open>onePartition\<close> passes for a server that was killed. A call to it fails, and for \<open>countValue\<close> its counter is 0.
\<close>

theorem rsm_kill_keeps_proxies:
  assumes "rsm_kill now srvs ts = Some ts'" "i \<in> set srvs"
  shows "tb_proxies ts' = tb_proxies ts \<and> (\<exists>sg. tb_grp ts' = Some sg \<and> sr_dc (sg_srvs sg ! i) = None)"
proof -
  from assms(1) obtain ts1 where k: "on_grp (KillSrvs srvs) ts = Some ts1"
    "set_ann (\<lambda>s. AnnotateShutdown now s (map int srvs)) ts1 = Some ts'" by (auto simp: rsm_kill_def bind_eq_Some_conv)
  from k(1) obtain sg net' sg' where g: "tb_grp ts = Some sg" "KillSrvs srvs (cf_net (tb_cfg ts), sg) = Some (net', sg')"
    "tb_grp ts1 = Some sg'" "tb_proxies ts1 = tb_proxies ts" by (rule on_grpD) blast
  have "sr_dc (sg_srvs sg' ! i) = None"
    using KillSrvs_srvs [OF g(2)] assms(2) by blast
  with set_annD [OF k(2)] g show ?thesis by simp
qed

end
