(* ===== verification/KvPartition.thy ===== *)
theory KvPartition
  imports TestRuns TesterPart KvTest
begin

text \<open>
  The goroutine \<open>Partitioner\<close> of \<open>src/kvtest1/kvtest.go\<close>, which divides the servers of a group at random again
  and again while a test of a key/value service runs: a round of its loop, on the groups of \<open>TesterGrp\<close>.
\<close>

text \<open>A round of \<open>Partitioner\<close>: \<open>a\<close> holds the random bits of the servers.\<close>

definition Partitioner_round ::
  "int \<Rightarrow> int \<Rightarrow> nat list \<Rightarrow> ('o, 'w, 'v, 'so, 'sv) Testbed \<Rightarrow> ('o, 'w, 'v, 'so, 'sv) Testbed option" where
  "Partitioner_round t gid a ts = do {
     let (p1, p2) = Partitioner_sides a;
     (net, groups) \<leftarrow> on_group gid (Partition p1 p2) (cf_net (tb_cfg ts), cf_groups (tb_cfg ts));
     Some (ts\<lparr>tb_cfg := (tb_cfg ts)\<lparr>cf_net := net, cf_groups := groups\<rparr>,
              tb_ann := AnnotateTwoPartitions t (tb_ann ts) (map int p1) (map int p2)\<rparr>)
   }"

lemma sides_spec:
  "set (fst (Partitioner_sides a)) = {i. i < length a \<and> a ! i = 0}"
    "set (snd (Partitioner_sides a)) = {i. i < length a \<and> a ! i = 1}"
  by (auto simp: Partitioner_sides_def Let_def)

text \<open>
  After a round of \<open>Partitioner\<close> two servers of the group reach each other exactly if the same bit was drawn
  for them.
\<close>

theorem partitioner_round_separates:
  assumes sg: "lookupGroup (cf_groups (tb_cfg ts)) gid = Some sg" and ok: "grp_ok n (cf_net (tb_cfg ts), sg)"
    and a: "length a = n" "\<forall>x\<in>set a. x < 2"
  shows "\<exists>ts' sg'. Partitioner_round t gid a ts = Some ts' \<and> lookupGroup (cf_groups (tb_cfg ts')) gid = Some sg' \<and>
    grp_ok n (cf_net (tb_cfg ts'), sg') \<and>
    (\<forall>i<n. \<forall>j<n. grp_link (cf_net (tb_cfg ts'), sg') i j \<longleftrightarrow> a ! i = a ! j)"
proof -
  obtain p1 p2 where p: "Partitioner_sides a = (p1, p2)" by force
  from sides_spec [of a] p a(1) have side: "set p1 = {i. i < n \<and> a ! i = 0}" "set p2 = {i. i < n \<and> a ! i = 1}" by simp_all
  have "set p1 \<subseteq> {..<n}" "set p2 \<subseteq> {..<n}" "set p1 \<inter> set p2 = {}" unfolding side by auto
  from grp.partition_spec [OF ok this] obtain net' sg' where part: "Partition p1 p2 (cf_net (tb_cfg ts), sg) = Some (net', sg')"
    "grp_ok n (net', sg')" "grp.side_done p1 p2 (net', sg')" "grp.side_done p2 p1 (net', sg')"
    unfolding Partition_part_one by (metis surj_pair)
  have "grp_link (net', sg') i j \<longleftrightarrow> a ! i = a ! j" if "i < n" "j < n" for i j
  proof -
    have "a ! i < 2" "a ! j < 2" using a that by simp_all
    then have "a ! i = 0 \<or> a ! i = 1" "a ! j = 0 \<or> a ! j = 1" by auto
    with part(3,4) side that show ?thesis by (auto simp: grp.side_done_def)
  qed
  moreover have "Partitioner_round t gid a ts = Some (ts\<lparr>tb_cfg := (tb_cfg ts)\<lparr>cf_net := net',
      cf_groups := (cf_groups (tb_cfg ts))\<lparr>gs_grps := (gs_grps (cf_groups (tb_cfg ts)))(gid \<mapsto> sg')\<rparr>\<rparr>,
      tb_ann := AnnotateTwoPartitions t (tb_ann ts) (map int p1) (map int p2)\<rparr>)"
    using sg part(1) by (simp add: Partitioner_round_def p on_group_def)
  ultimately show ?thesis using part(2) by (simp add: lookupGroup_def)
qed

end
