(* ===== verification/RaftWord.thy ===== *)
theory RaftWord
  imports RaftLog
begin

text \<open>
  The operations of a Raft peer with the integers of the machine. \<open>RaftNode\<close> and \<open>RaftLead\<close> compute terms and log
  indices exactly; here every sum and difference of \<open>src/raft1/raft.go\<close> is cut to 64 bits by \<^const>\<open>i64\<close> (the counter of
  votes to 32 bits), so that a message with an extreme number does what it does in Go. Sums and differences
  commute with the cut, so it is applied once to a linear expression. Three loops count an index down that is above
  another index, and counts of peers are at most the length of a slice; these cannot overflow and are left as they are.

  The theory shows that the two agree as long as the numbers in messages stay within \<open>2 ^ 61\<close> and a peer has made fewer than
  \<open>2 ^ 61\<close> steps, and gives the guarantees of one peer for the machine's operations: no handler panics, terms do not
  fall. Both fail for larger numbers.
\<close>

subsection \<open>The operations\<close>

definition i32 :: "int \<Rightarrow> int" where
  "i32 x = (x + 2 ^ 31) mod 2 ^ 32 - 2 ^ 31"

definition lastLogIndex_i64 :: "'c Raft \<Rightarrow> int" where
  "lastLogIndex_i64 rf = i64 (rf_lastIncludedIndex rf + int (length (rf_log rf)) - 1)"

definition termAt_i64 :: "'c Raft \<Rightarrow> int \<Rightarrow> int option" where
  "termAt_i64 rf index = map_option le_Term (go_nth (rf_log rf) (i64 (index - rf_lastIncludedIndex rf)))"

definition Snapshot_i64 :: "'c Raft \<Rightarrow> int \<Rightarrow> bytes \<Rightarrow> 'c Raft option" where
  "Snapshot_i64 rf index snapshot =
     (if index \<le> rf_lastIncludedIndex rf then Some rf
      else if index > lastLogIndex_i64 rf then Some rf
      else do {
        newLastTerm \<leftarrow> termAt_i64 rf index;
        _ \<leftarrow> go_make_cap 1 (i64 (int (length (rf_log rf)) - (index - rf_lastIncludedIndex rf)));
        tail \<leftarrow> go_from (rf_log rf) (i64 (index - rf_lastIncludedIndex rf + 1));
        Some (persistWithSnapshot
          (rf\<lparr>rf_log := \<lparr>le_Term = newLastTerm, le_Command = None\<rparr> # tail,
              rf_lastIncludedIndex := index, rf_lastIncludedTerm := newLastTerm\<rparr>) snapshot)
      })"

definition becomeLeader_i64 :: "'c Raft \<Rightarrow> 'c Raft option" where
  "becomeLeader_i64 rf = do {
     let last = lastLogIndex_i64 rf;
     next \<leftarrow> set_all (rf_nextIndex rf) (rf_peers rf) (i64 (last + 1));
     match \<leftarrow> set_all (rf_matchIndex rf) (rf_peers rf) 0;
     match \<leftarrow> go_upd match (rf_me rf) last;
     Some (rf\<lparr>rf_role := Leader, rf_nextIndex := next, rf_matchIndex := match\<rparr>)
   }"

definition RequestVote_i64 :: "int \<Rightarrow> 'c Raft \<Rightarrow> RequestVoteArgs \<Rightarrow> ('c Raft \<times> RequestVoteReply) option" where
  "RequestVote_i64 time rf args =
     (let reply = \<lparr>rvr_Term = rf_currentTerm rf, rvr_VoteGranted = False\<rparr>
      in if rv_Term args < rf_currentTerm rf then Some (rf, reply)
      else
        let (rf, reply) =
          (if rv_Term args > rf_currentTerm rf
           then let rf = becomeFollower rf (rv_Term args) in (rf, reply\<lparr>rvr_Term := rf_currentTerm rf\<rparr>)
           else (rf, reply))
        in do {
          let myLastIdx = lastLogIndex_i64 rf;
          myLastTerm \<leftarrow> lastLogTerm rf;
          let upToDate = (rv_LastLogTerm args > myLastTerm \<or>
                (rv_LastLogTerm args = myLastTerm \<and> rv_LastLogIndex args \<ge> myLastIdx));
          if (rf_votedFor rf = -1 \<or> rf_votedFor rf = rv_CandidateId args) \<and> upToDate
          then Some (persist (rf\<lparr>rf_votedFor := rv_CandidateId args, rf_lastHeardAt := time\<rparr>),
                     reply\<lparr>rvr_VoteGranted := True\<rparr>)
          else Some (rf, reply)
        })"

definition ae_commit_i64 :: "'c Raft \<Rightarrow> int \<Rightarrow> 'c Raft" where
  "ae_commit_i64 rf leaderCommit =
     (if leaderCommit > rf_commitIndex rf then
        let newCommit = (if leaderCommit > lastLogIndex_i64 rf then lastLogIndex_i64 rf else leaderCommit)
        in if newCommit > rf_commitIndex rf then rf\<lparr>rf_commitIndex := newCommit\<rparr> else rf
      else rf)"

function conflictIndex_i64 :: "'c Raft \<Rightarrow> int \<Rightarrow> int \<Rightarrow> int option" where
  "conflictIndex_i64 rf conflictTerm idx =
     (if idx > rf_lastIncludedIndex rf then do {
        t \<leftarrow> termAt_i64 rf (idx - 1);
        if t = conflictTerm then conflictIndex_i64 rf conflictTerm (idx - 1) else Some idx
      } else Some idx)"
  by pat_completeness auto
termination
  by (relation "measure (\<lambda>(rf, t, idx). nat (idx - rf_lastIncludedIndex rf))") auto

declare conflictIndex_i64.simps [simp del]

fun ae_merge_i64 :: "'c Raft \<Rightarrow> int \<Rightarrow> 'c LogEntry list \<Rightarrow> 'c LogEntry list option" where
  "ae_merge_i64 rf absIdx [] = Some (rf_log rf)"
| "ae_merge_i64 rf absIdx (e # es) =
     (if absIdx > lastLogIndex_i64 rf then Some (rf_log rf @ e # es)
      else do {
        t \<leftarrow> termAt_i64 rf absIdx;
        if t \<noteq> le_Term e then do {
          kept \<leftarrow> go_upto (rf_log rf) (i64 (absIdx - rf_lastIncludedIndex rf));
          Some (kept @ e # es)
        } else ae_merge_i64 rf (i64 (absIdx + 1)) es
      })"

definition ae_check_merge_i64 ::
  "'c Raft \<Rightarrow> 'c AppendEntriesArgs \<Rightarrow> AppendEntriesReply \<Rightarrow> ('c Raft \<times> AppendEntriesReply) option" where
  "ae_check_merge_i64 rf args reply =
     (if ae_PrevLogIndex args > lastLogIndex_i64 rf then
        Some (rf, reply\<lparr>aer_ConflictIndex := i64 (lastLogIndex_i64 rf + 1), aer_ConflictTerm := -1\<rparr>)
      else do {
        t \<leftarrow> termAt_i64 rf (ae_PrevLogIndex args);
        if t \<noteq> ae_PrevLogTerm args then do {
          idx \<leftarrow> conflictIndex_i64 rf t (ae_PrevLogIndex args);
          Some (rf, reply\<lparr>aer_ConflictTerm := t, aer_ConflictIndex := idx\<rparr>)
        } else do {
          log \<leftarrow> ae_merge_i64 rf (i64 (ae_PrevLogIndex args + 1)) (ae_Entries args);
          let rf = persist (rf\<lparr>rf_log := log\<rparr>);
          let rf = ae_commit_i64 rf (ae_LeaderCommit args);
          Some (rf, reply\<lparr>aer_Success := True\<rparr>)
        }
      })"

definition AppendEntries_i64 ::
  "int \<Rightarrow> 'c Raft \<Rightarrow> 'c AppendEntriesArgs \<Rightarrow> ('c Raft \<times> AppendEntriesReply) option" where
  "AppendEntries_i64 time rf args =
     (let reply = \<lparr>aer_Term = rf_currentTerm rf, aer_Success = False, aer_ConflictTerm = -1,
                   aer_ConflictIndex = -1, aer_XLen = i64 (lastLogIndex_i64 rf + 1)\<rparr>
      in if ae_Term args < rf_currentTerm rf then Some (rf, reply)
      else
        let (rf, reply) =
          (if ae_Term args > rf_currentTerm rf
           then let rf = becomeFollower rf (ae_Term args) in (rf, reply\<lparr>aer_Term := rf_currentTerm rf\<rparr>)
           else (rf, reply));
          rf = rf\<lparr>rf_role := Follower, rf_lastHeardAt := time\<rparr>
        in if ae_PrevLogIndex args < rf_lastIncludedIndex rf then
             let startAt = i64 (rf_lastIncludedIndex rf - ae_PrevLogIndex args)
             in if startAt > int (length (ae_Entries args)) then
                  Some (ae_commit_i64 rf (ae_LeaderCommit args), reply\<lparr>aer_Success := True\<rparr>)
                else do {
                  es \<leftarrow> go_from (ae_Entries args) startAt;
                  ae_check_merge_i64 rf
                    (args\<lparr>ae_PrevLogIndex := rf_lastIncludedIndex rf,
                          ae_PrevLogTerm := rf_lastIncludedTerm rf, ae_Entries := es\<rparr>) reply
                }
           else ae_check_merge_i64 rf args reply)"

definition InstallSnapshot_i64 ::
  "int \<Rightarrow> 'c Raft \<Rightarrow> InstallSnapshotArgs \<Rightarrow> ('c Raft \<times> InstallSnapshotReply) option" where
  "InstallSnapshot_i64 time rf args =
     (let reply = \<lparr>isr_Term = rf_currentTerm rf\<rparr>
      in if is_Term args < rf_currentTerm rf then Some (rf, reply)
      else
        let (rf, reply) =
          (if is_Term args > rf_currentTerm rf
           then let rf = becomeFollower rf (is_Term args) in (rf, reply\<lparr>isr_Term := rf_currentTerm rf\<rparr>)
           else (rf, reply));
          rf = rf\<lparr>rf_role := Follower, rf_lastHeardAt := time\<rparr>
        in if is_LastIncludedIndex args \<le> rf_lastIncludedIndex rf then Some (rf, reply)
        else do {
          same \<leftarrow> (if is_LastIncludedIndex args \<le> lastLogIndex_i64 rf
                   then map_option (\<lambda>t. t = is_LastIncludedTerm args) (termAt_i64 rf (is_LastIncludedIndex args))
                   else Some False);
          newLog \<leftarrow> (if same then do {
                        tail \<leftarrow> go_from (rf_log rf) (i64 (is_LastIncludedIndex args - rf_lastIncludedIndex rf + 1));
                        Some (\<lparr>le_Term = is_LastIncludedTerm args, le_Command = None\<rparr> # tail)
                      } else Some [\<lparr>le_Term = is_LastIncludedTerm args, le_Command = None\<rparr>]);
          let rf = rf\<lparr>rf_log := newLog, rf_lastIncludedIndex := is_LastIncludedIndex args,
                       rf_lastIncludedTerm := is_LastIncludedTerm args\<rparr>;
          let rf = (if rf_commitIndex rf < is_LastIncludedIndex args
                    then rf\<lparr>rf_commitIndex := is_LastIncludedIndex args\<rparr> else rf);
          let rf = (if rf_lastApplied rf < is_LastIncludedIndex args
                    then rf\<lparr>rf_lastApplied := is_LastIncludedIndex args\<rparr> else rf);
          let rf = persistWithSnapshot rf (data_bytes (is_Data args));
          Some (rf\<lparr>rf_pendingSnapshot := is_Data args,
                   rf_pendingSnapshotIndex := is_LastIncludedIndex args,
                   rf_pendingSnapshotTerm := is_LastIncludedTerm args\<rparr>, reply)
        })"

definition Start_i64 :: "'c Raft \<Rightarrow> 'c option \<Rightarrow> ('c Raft \<times> int \<times> int \<times> bool) option" where
  "Start_i64 rf command =
     (if rf_role rf \<noteq> Leader then Some (rf, -1, rf_currentTerm rf, False)
      else do {
        let entry = \<lparr>le_Term = rf_currentTerm rf, le_Command = command\<rparr>;
        let rf = rf\<lparr>rf_log := rf_log rf @ [entry]\<rparr>;
        let index = lastLogIndex_i64 rf;
        match \<leftarrow> go_upd (rf_matchIndex rf) (rf_me rf) index;
        next \<leftarrow> go_upd (rf_nextIndex rf) (rf_me rf) (i64 (index + 1));
        let rf = persist (rf\<lparr>rf_matchIndex := match, rf_nextIndex := next\<rparr>);
        Some (rf, index, rf_currentTerm rf, True)
      })"

definition startElection_i64 :: "int \<Rightarrow> int \<Rightarrow> 'c Raft \<Rightarrow> ('c Raft \<times> RequestVoteArgs) option" where
  "startElection_i64 time rand rf = do {
     let rf = rf\<lparr>rf_role := Candidate, rf_currentTerm := i64 (rf_currentTerm rf + 1), rf_votedFor := rf_me rf\<rparr>;
     let rf = persist (resetElectionTimer time rand rf);
     let lastIdx = lastLogIndex_i64 rf;
     lastTerm \<leftarrow> lastLogTerm rf;
     Some (rf, \<lparr>rv_Term = rf_currentTerm rf, rv_CandidateId = rf_me rf,
                rv_LastLogIndex = lastIdx, rv_LastLogTerm = lastTerm\<rparr>)
   }"

definition ticker_i64 :: "int \<Rightarrow> int \<Rightarrow> 'c Raft \<Rightarrow> ('c Raft \<times> RequestVoteArgs option) option" where
  "ticker_i64 time rand rf =
     (if rf_role rf \<noteq> Leader \<and> time - rf_lastHeardAt rf \<ge> rf_electionReset rf
      then do { (rf, args) \<leftarrow> startElection_i64 time rand rf; Some (rf, Some args) }
      else Some (rf, None))"

definition vote_reply_i64 ::
  "'c Raft \<Rightarrow> int \<Rightarrow> int \<Rightarrow> RequestVoteReply \<Rightarrow> ('c Raft \<times> int) option" where
  "vote_reply_i64 rf term votes reply =
     (if rf_currentTerm rf \<noteq> term \<or> rf_role rf \<noteq> Candidate then Some (rf, votes)
      else if rvr_Term reply > rf_currentTerm rf then Some (becomeFollower rf (rvr_Term reply), votes)
      else if rvr_VoteGranted reply then do {
        let n = i32 (votes + 1);
        if i64 (n * 2) > int (rf_peers rf) \<and> rf_role rf = Candidate
        then do { rf \<leftarrow> becomeLeader_i64 rf; Some (rf, n) }
        else Some (rf, n)
      } else Some (rf, votes))"

definition install_reply_i64 ::
  "'c Raft \<Rightarrow> nat \<Rightarrow> InstallSnapshotArgs \<Rightarrow> InstallSnapshotReply \<Rightarrow> 'c Raft option" where
  "install_reply_i64 rf peer args reply =
     (if rf_currentTerm rf \<noteq> is_Term args \<or> rf_role rf \<noteq> Leader then Some rf
      else if isr_Term reply > rf_currentTerm rf then Some (becomeFollower rf (isr_Term reply))
      else do {
        next \<leftarrow> go_nth (rf_nextIndex rf) (int peer);
        rf \<leftarrow> (if i64 (is_LastIncludedIndex args + 1) > next
               then do { ns \<leftarrow> go_upd (rf_nextIndex rf) (int peer) (i64 (is_LastIncludedIndex args + 1));
                         Some (rf\<lparr>rf_nextIndex := ns\<rparr>) }
               else Some rf);
        match \<leftarrow> go_nth (rf_matchIndex rf) (int peer);
        if is_LastIncludedIndex args > match
        then do { ms \<leftarrow> go_upd (rf_matchIndex rf) (int peer) (is_LastIncludedIndex args);
                  Some (rf\<lparr>rf_matchIndex := ms\<rparr>) }
        else Some rf
      })"

function advance_loop_i64 :: "'c Raft \<Rightarrow> int \<Rightarrow> 'c Raft option" where
  "advance_loop_i64 rf N =
     (if N > rf_commitIndex rf then
        if N \<le> rf_lastIncludedIndex rf then Some rf
        else do {
          t \<leftarrow> termAt_i64 rf N;
          if t \<noteq> rf_currentTerm rf then advance_loop_i64 rf (N - 1)
          else do {
            count \<leftarrow> count_match (rf_matchIndex rf) N (other_peers rf);
            if count * 2 > int (rf_peers rf) then Some (rf\<lparr>rf_commitIndex := N\<rparr>)
            else advance_loop_i64 rf (N - 1)
          }
        }
      else Some rf)"
  by pat_completeness auto
termination
  by (relation "measure (\<lambda>(rf, N). nat (N - rf_commitIndex rf))") auto

declare advance_loop_i64.simps [simp del]

function found_term_i64 :: "'c Raft \<Rightarrow> int \<Rightarrow> int \<Rightarrow> int option" where
  "found_term_i64 rf conflictTerm i =
     (if i > rf_lastIncludedIndex rf then do {
        t \<leftarrow> termAt_i64 rf i;
        if t = conflictTerm then Some i else found_term_i64 rf conflictTerm (i - 1)
      } else Some (-1))"
  by pat_completeness auto
termination
  by (relation "measure (\<lambda>(rf, t, i). nat (i - rf_lastIncludedIndex rf))") auto

declare found_term_i64.simps [simp del]

definition fast_backup_i64 :: "'c Raft \<Rightarrow> int \<Rightarrow> AppendEntriesReply \<Rightarrow> int option" where
  "fast_backup_i64 rf old reply =
     (if aer_ConflictTerm reply = -1 then
        Some (if aer_ConflictIndex reply > 0 then aer_ConflictIndex reply
              else if aer_XLen reply > 0 then aer_XLen reply else old)
      else do {
        found \<leftarrow> found_term_i64 rf (aer_ConflictTerm reply) (lastLogIndex_i64 rf);
        Some (if found \<noteq> -1 then i64 (found + 1) else aer_ConflictIndex reply)
      })"

definition append_reply_i64 ::
  "'c Raft \<Rightarrow> nat \<Rightarrow> 'c AppendEntriesArgs \<Rightarrow> AppendEntriesReply \<Rightarrow> ('c Raft \<times> bool) option" where
  "append_reply_i64 rf peer args reply =
     (if rf_currentTerm rf \<noteq> ae_Term args \<or> rf_role rf \<noteq> Leader then Some (rf, False)
      else if aer_Term reply > rf_currentTerm rf then Some (becomeFollower rf (aer_Term reply), False)
      else if aer_Success reply then do {
        let newMatch = i64 (ae_PrevLogIndex args + int (length (ae_Entries args)));
        match \<leftarrow> go_nth (rf_matchIndex rf) (int peer);
        rf \<leftarrow> (if newMatch > match
               then do { ms \<leftarrow> go_upd (rf_matchIndex rf) (int peer) newMatch; Some (rf\<lparr>rf_matchIndex := ms\<rparr>) }
               else Some rf);
        next \<leftarrow> go_nth (rf_nextIndex rf) (int peer);
        rf \<leftarrow> (if i64 (newMatch + 1) > next
               then do { ns \<leftarrow> go_upd (rf_nextIndex rf) (int peer) (i64 (newMatch + 1)); Some (rf\<lparr>rf_nextIndex := ns\<rparr>) }
               else Some rf);
        rf \<leftarrow> advance_loop_i64 rf (lastLogIndex_i64 rf);
        Some (rf, False)
      } else do {
        old \<leftarrow> go_nth (rf_nextIndex rf) (int peer);
        next \<leftarrow> fast_backup_i64 rf old reply;
        ns \<leftarrow> go_upd (rf_nextIndex rf) (int peer) (if next < 1 then 1 else next);
        Some (rf\<lparr>rf_nextIndex := ns\<rparr>, True)
      })"

definition applier_i64 :: "'c Raft \<Rightarrow> ('c Raft \<times> 'c ApplyMsg option) option" where
  "applier_i64 rf =
     (case rf_pendingSnapshot rf of
        Some data \<Rightarrow>
          Some (rf\<lparr>rf_pendingSnapshot := None\<rparr>,
                Some (snapshot_msg (Some data) (rf_pendingSnapshotIndex rf) (rf_pendingSnapshotTerm rf)))
      | None \<Rightarrow>
          if rf_lastApplied rf < rf_commitIndex rf \<and> rf_lastApplied rf \<ge> rf_lastIncludedIndex rf then
            let next = i64 (rf_lastApplied rf + 1)
            in if next \<le> rf_lastIncludedIndex rf
               then Some (rf\<lparr>rf_lastApplied := rf_lastIncludedIndex rf\<rparr>, None)
               else do {
                 entry \<leftarrow> go_nth (rf_log rf) (i64 (next - rf_lastIncludedIndex rf));
                 Some (rf, Some (command_msg (le_Command entry) next))
               }
          else Some (rf, None))"

subsection \<open>Agreement with the exact operations\<close>

text \<open>A peer whose indices are far from the end of the range, and numbers of messages that are.\<close>

definition log_fits :: "'c Raft \<Rightarrow> bool" where
  "log_fits rf \<longleftrightarrow> 0 \<le> rf_lastIncludedIndex rf \<and> rf_log rf \<noteq> [] \<and> rf_lastIncludedIndex rf + int (length (rf_log rf)) \<le> 2 ^ 62"

definition small :: "int \<Rightarrow> bool" where
  "small x \<longleftrightarrow> - (2 ^ 61) \<le> x \<and> x \<le> 2 ^ 61"

definition small_append :: "'c AppendEntriesArgs \<Rightarrow> bool" where
  "small_append args \<longleftrightarrow> small (ae_Term args) \<and> small (ae_PrevLogIndex args) \<and>
     ae_PrevLogIndex args + int (length (ae_Entries args)) \<le> 2 ^ 61"

lemma lastLogIndex_i64_eq [simp]: "log_fits rf \<Longrightarrow> lastLogIndex_i64 rf = lastLogIndex rf"
  unfolding lastLogIndex_i64_def lastLogIndex_def log_fits_def by (rule i64_in) simp_all

lemma i64_last_Suc [simp]: "log_fits rf \<Longrightarrow> i64 (lastLogIndex rf + 1) = lastLogIndex rf + 1"
  unfolding lastLogIndex_def log_fits_def by (rule i64_in) simp_all

lemma i64_near [simp]:
  "log_fits rf \<Longrightarrow> rf_lastIncludedIndex rf \<le> i \<Longrightarrow> i \<le> lastLogIndex rf \<Longrightarrow>
     i64 (i - rf_lastIncludedIndex rf) = i - rf_lastIncludedIndex rf"
  "log_fits rf \<Longrightarrow> rf_lastIncludedIndex rf \<le> i \<Longrightarrow> i \<le> lastLogIndex rf \<Longrightarrow>
     i64 (i - rf_lastIncludedIndex rf + 1) = i - rf_lastIncludedIndex rf + 1"
  "log_fits rf \<Longrightarrow> rf_lastIncludedIndex rf \<le> i \<Longrightarrow> i \<le> lastLogIndex rf \<Longrightarrow> i64 (i + 1) = i + 1"
  unfolding lastLogIndex_def log_fits_def by (auto intro!: i64_in)

lemma termAt_i64_eq [simp]:
  "log_fits rf \<Longrightarrow> rf_lastIncludedIndex rf \<le> i \<Longrightarrow> i \<le> lastLogIndex rf \<Longrightarrow> termAt_i64 rf i = termAt rf i"
  by (simp add: termAt_i64_def termAt_def)

lemma log_fits_upd [simp]:
  "log_fits (persist rf) = log_fits rf" "log_fits (becomeFollower rf t) = log_fits rf"
  "log_fits (rf\<lparr>rf_role := r\<rparr>) = log_fits rf" "log_fits (rf\<lparr>rf_lastHeardAt := h\<rparr>) = log_fits rf"
  "log_fits (rf\<lparr>rf_nextIndex := ns\<rparr>) = log_fits rf" "log_fits (rf\<lparr>rf_matchIndex := ms\<rparr>) = log_fits rf"
  by (auto simp: log_fits_def becomeFollower_def Let_def persist_def)

lemma Snapshot_i64_eq: "log_fits rf \<Longrightarrow> Snapshot_i64 rf index snap = Snapshot rf index snap"
proof -
  assume fits: "log_fits rf"
  then have "index \<le> lastLogIndex rf \<Longrightarrow> rf_lastIncludedIndex rf < index \<Longrightarrow>
      i64 (int (length (rf_log rf)) - (index - rf_lastIncludedIndex rf)) = int (length (rf_log rf)) - (index - rf_lastIncludedIndex rf)"
    unfolding log_fits_def lastLogIndex_def by (intro i64_in) auto
  with fits show ?thesis by (auto simp: Snapshot_i64_def Snapshot_def)
qed

lemma becomeLeader_i64_eq: "log_fits rf \<Longrightarrow> becomeLeader_i64 rf = becomeLeader rf"
  by (simp add: becomeLeader_i64_def becomeLeader_def Let_def)

lemma RequestVote_i64_eq: "log_fits rf \<Longrightarrow> RequestVote_i64 time rf args = RequestVote time rf args"
  by (simp add: RequestVote_i64_def RequestVote_def Let_def)

lemma ae_commit_i64_eq: "log_fits rf \<Longrightarrow> ae_commit_i64 rf c = ae_commit rf c"
  by (simp add: ae_commit_i64_def ae_commit_def)

lemma conflictIndex_i64_eq:
  "log_fits rf \<Longrightarrow> idx \<le> lastLogIndex rf \<Longrightarrow> conflictIndex_i64 rf t idx = conflictIndex rf t idx"
proof (induction rf t idx rule: conflictIndex.induct)
  case (1 rf t idx)
  then have "conflictIndex_i64 rf t (idx - 1) = conflictIndex rf t (idx - 1)"
    if "rf_lastIncludedIndex rf < idx" "termAt rf (idx - 1) = Some t" using that by simp
  with 1(2,3) show ?case
    by (cases "termAt rf (idx - 1)") (auto simp: conflictIndex_i64.simps [of rf t idx] conflictIndex.simps [of rf t idx])
qed

lemma ae_merge_i64_eq:
  "log_fits rf \<Longrightarrow> rf_lastIncludedIndex rf \<le> i \<Longrightarrow> ae_merge_i64 rf i es = ae_merge rf i es"
proof (induction es arbitrary: i)
  case (Cons e es)
  then have "ae_merge_i64 rf (i + 1) es = ae_merge rf (i + 1) es" by simp
  with Cons.prems show ?case by (cases "termAt rf i") simp_all
qed simp

lemma ae_merge_length:
  "ae_merge rf i es = Some l \<Longrightarrow> rf_lastIncludedIndex rf \<le> i \<Longrightarrow>
     int (length l) \<le> max (int (length (rf_log rf))) (i - rf_lastIncludedIndex rf + int (length es))"
proof (induction rf i es rule: ae_merge.induct)
  case (2 rf i e es)
  then show ?case
    by (auto simp: bind_eq_Some_conv go_upto_def lastLogIndex_def split: if_splits)
qed simp

lemma log_fits_merged:
  assumes "log_fits rf" "rf_lastIncludedIndex rf \<le> i" "i + int (length es) \<le> 2 ^ 62" "ae_merge rf i es = Some l"
  shows "log_fits (rf\<lparr>rf_log := l\<rparr>)"
proof -
  have "ae_merge rf i es = Some l \<Longrightarrow> rf_log rf \<noteq> [] \<Longrightarrow> l \<noteq> []"
    by (induction rf i es rule: ae_merge.induct) (auto simp: bind_eq_Some_conv split: if_splits)
  with assms(1,4) have "l \<noteq> []" by (simp add: log_fits_def)
  with ae_merge_length [OF assms(4,2)] assms(1,3) show ?thesis by (auto simp: log_fits_def)
qed

lemma ae_check_merge_i64_eq:
  assumes "log_fits rf" "rf_lastIncludedIndex rf \<le> ae_PrevLogIndex args"
    "ae_PrevLogIndex args + int (length (ae_Entries args)) < 2 ^ 62"
  shows "ae_check_merge_i64 rf args reply = ae_check_merge rf args reply"
proof (cases "ae_PrevLogIndex args \<le> lastLogIndex rf")
  case True
  let ?i = "ae_PrevLogIndex args + 1"
  have "ae_commit_i64 (persist (rf\<lparr>rf_log := l\<rparr>)) c = ae_commit (persist (rf\<lparr>rf_log := l\<rparr>)) c"
    if "ae_merge rf ?i (ae_Entries args) = Some l" for l c
    using log_fits_merged [OF assms(1) _ _ that] assms(2,3) by (simp add: ae_commit_i64_eq)
  with True assms(1,2) show ?thesis
    by (simp add: ae_check_merge_i64_def ae_check_merge_def Let_def conflictIndex_i64_eq ae_merge_i64_eq
        cong: if_cong bind_option_cong_simp)
qed (use assms(1) in \<open>simp add: ae_check_merge_i64_def ae_check_merge_def\<close>)

lemma AppendEntries_i64_eq:
  assumes "log_fits rf" "small_append args"
  shows "AppendEntries_i64 time rf args = AppendEntries time rf args"
proof -
  have "i64 (rf_lastIncludedIndex rf - ae_PrevLogIndex args) = rf_lastIncludedIndex rf - ae_PrevLogIndex args"
    if "ae_PrevLogIndex args < rf_lastIncludedIndex rf"
    using assms that unfolding log_fits_def small_def small_append_def by (intro i64_in) auto
  with assms show ?thesis
    by (auto simp: AppendEntries_i64_def AppendEntries_def Let_def ae_commit_i64_eq ae_check_merge_i64_eq small_append_def
        go_from_def)
qed

lemma InstallSnapshot_i64_eq: "log_fits rf \<Longrightarrow> InstallSnapshot_i64 time rf args = InstallSnapshot time rf args"
  by (cases "rf_lastIncludedIndex rf < is_LastIncludedIndex args \<and> is_LastIncludedIndex args \<le> lastLogIndex rf")
     (auto simp: InstallSnapshot_i64_def InstallSnapshot_def Let_def cong: if_cong)

lemma Start_i64_eq: "log_fits rf \<Longrightarrow> Start_i64 rf command = Start rf command"
proof -
  assume fits: "log_fits rf"
  let ?rf = "rf\<lparr>rf_log := rf_log rf @ [\<lparr>le_Term = rf_currentTerm rf, le_Command = command\<rparr>]\<rparr>"
  have "lastLogIndex_i64 ?rf = lastLogIndex ?rf" "i64 (lastLogIndex ?rf + 1) = lastLogIndex ?rf + 1"
    using fits unfolding lastLogIndex_i64_def lastLogIndex_def log_fits_def by (auto intro!: i64_in)
  then show ?thesis by (simp add: Start_i64_def Start_def Let_def)
qed

lemma startElection_i64_eq:
  assumes "log_fits rf" "0 \<le> rf_currentTerm rf" "rf_currentTerm rf < 2 ^ 62"
  shows "startElection_i64 time rand rf = startElection time rand rf"
proof -
  have "i64 (rf_currentTerm rf + 1) = rf_currentTerm rf + 1" using assms(2,3) by (intro i64_in) simp_all
  moreover have "log_fits (resetElectionTimer time rand (rf\<lparr>rf_role := r, rf_currentTerm := t, rf_votedFor := v\<rparr>))" for r t v
    using assms(1) by (simp add: log_fits_def resetElectionTimer_def)
  ultimately show ?thesis by (simp add: startElection_i64_def startElection_def Let_def)
qed

lemma ticker_i64_eq:
  "log_fits rf \<Longrightarrow> 0 \<le> rf_currentTerm rf \<Longrightarrow> rf_currentTerm rf < 2 ^ 62 \<Longrightarrow> ticker_i64 time rand rf = ticker time rand rf"
  by (simp add: ticker_i64_def ticker_def startElection_i64_eq)

lemma vote_reply_i64_eq:
  assumes "log_fits rf" "- (2 ^ 31) \<le> votes" "votes < 2 ^ 31 - 1"
  shows "vote_reply_i64 rf term votes reply = vote_reply rf term votes reply"
proof -
  have "i32 (votes + 1) = votes + 1" using assms(2,3) by (simp add: i32_def)
  moreover have "i64 ((votes + 1) * 2) = (votes + 1) * 2" using assms(2,3) by (intro i64_in) simp_all
  ultimately show ?thesis using assms(1) by (simp add: vote_reply_i64_def vote_reply_def Let_def becomeLeader_i64_eq)
qed

lemma install_reply_i64_eq:
  assumes "small (is_LastIncludedIndex args)"
  shows "install_reply_i64 rf peer args reply = install_reply rf peer args reply"
proof -
  have "i64 (is_LastIncludedIndex args + 1) = is_LastIncludedIndex args + 1"
    using assms unfolding small_def by (intro i64_in) simp_all
  then show ?thesis by (simp add: install_reply_i64_def install_reply_def cong: if_cong)
qed

lemma advance_loop_i64_eq: "log_fits rf \<Longrightarrow> N \<le> lastLogIndex rf \<Longrightarrow> advance_loop_i64 rf N = advance_loop rf N"
proof (induction rf N rule: advance_loop.induct)
  case (1 rf N)
  show ?case
  proof (cases "rf_commitIndex rf < N \<and> rf_lastIncludedIndex rf < N")
    case True
    then obtain u where u: "termAt rf N = Some u" using termAt_Some_iff [of rf N] 1(4) by auto
    moreover have "advance_loop_i64 rf (N - 1) = advance_loop rf (N - 1)" if "u \<noteq> rf_currentTerm rf"
      using 1 True u that by simp
    moreover have "advance_loop_i64 rf (N - 1) = advance_loop rf (N - 1)"
      if "u = rf_currentTerm rf" "count_match (rf_matchIndex rf) N (other_peers rf) = Some c" "\<not> c * 2 > int (rf_peers rf)" for c
      using 1 True u that by simp
    ultimately show ?thesis
      using True 1(3,4) by (cases "count_match (rf_matchIndex rf) N (other_peers rf)")
        (auto simp: advance_loop_i64.simps [of rf N] advance_loop.simps [of rf N])
  qed (auto simp: advance_loop_i64.simps [of rf N] advance_loop.simps [of rf N])
qed

lemma found_term_i64_eq: "log_fits rf \<Longrightarrow> i \<le> lastLogIndex rf \<Longrightarrow> found_term_i64 rf t i = found_term rf t i"
proof (induction rf t i rule: found_term.induct)
  case (1 rf t i)
  then have "found_term_i64 rf t (i - 1) = found_term rf t (i - 1)"
    if "rf_lastIncludedIndex rf < i" "termAt rf i = Some u" "u \<noteq> t" for u using that by simp
  with 1(2,3) show ?case
    by (cases "termAt rf i") (auto simp: found_term_i64.simps [of rf t i] found_term.simps [of rf t i])
qed

lemma fast_backup_i64_eq: "log_fits rf \<Longrightarrow> fast_backup_i64 rf old reply = fast_backup rf old reply"
proof -
  assume fits: "log_fits rf"
  then have "i64 (k + 1) = k + 1" if "found_term rf t (lastLogIndex rf) = Some k" for t k
    using found_term_le [OF that] fits by (auto simp: i64_in)
  with fits show ?thesis
    by (simp add: fast_backup_i64_def fast_backup_def found_term_i64_eq cong: bind_option_cong_simp if_cong)
qed

lemma append_reply_i64_eq:
  assumes "log_fits rf" "small_append args"
  shows "append_reply_i64 rf peer args reply = append_reply rf peer args reply"
proof -
  let ?m = "ae_PrevLogIndex args + int (length (ae_Entries args))"
  have m: "i64 ?m = ?m" "i64 (?m + 1) = ?m + 1"
    using assms(2) unfolding small_append_def small_def by (auto intro!: i64_in)
  have adv: "advance_loop_i64 rf' (lastLogIndex rf') = advanceCommit rf'" if "log_fits rf'" for rf' :: "'a Raft"
    using that by (simp add: advanceCommit_def advance_loop_i64_eq)
  show ?thesis unfolding append_reply_i64_def append_reply_def Let_def m
    by (intro if_cong refl bind_option_cong)
       (use assms(1) in \<open>auto simp: fast_backup_i64_eq bind_eq_Some_conv split: if_splits intro!: adv\<close>)
qed

lemma applier_i64_eq:
  assumes "log_fits rf" "rf_commitIndex rf \<le> 2 ^ 62"
  shows "applier_i64 rf = applier rf"
proof -
  have "i64 (rf_lastApplied rf + 1) = rf_lastApplied rf + 1"
    "i64 (rf_lastApplied rf + 1 - rf_lastIncludedIndex rf) = rf_lastApplied rf + 1 - rf_lastIncludedIndex rf"
    if "rf_lastApplied rf < rf_commitIndex rf" "rf_lastIncludedIndex rf \<le> rf_lastApplied rf"
    using assms that unfolding log_fits_def by (auto intro!: i64_in)
  then show ?thesis by (auto simp: applier_i64_def applier_def Let_def split: option.split)
qed

subsection \<open>Runs of one peer\<close>

text \<open>
  The operations of \<^const>\<open>raft_step\<close>, on the machine's integers. What other processes send (arguments and replies)
  is arbitrary except that terms and indices are within \<open>2 ^ 61\<close>; the argument of \<open>Snapshot\<close> may be any number. The counter of
  votes, which a goroutine of this peer holds, starts at 1 and is raised once per peer.
\<close>

inductive raft64_step :: "'c Raft \<Rightarrow> 'c Raft \<Rightarrow> bool" where
  vote: "RequestVote_i64 time rf args = Some (rf', r) \<Longrightarrow> small (rv_Term args) \<Longrightarrow> raft64_step rf rf'"
| append: "AppendEntries_i64 time rf aargs = Some (rf', ar) \<Longrightarrow> small_append aargs \<Longrightarrow> raft64_step rf rf'"
| install: "InstallSnapshot_i64 time rf iargs = Some (rf', ir) \<Longrightarrow> small (is_Term iargs) \<Longrightarrow>
    small (is_LastIncludedIndex iargs) \<Longrightarrow> raft64_step rf rf'"
| snapshot: "Snapshot_i64 rf index snap = Some rf' \<Longrightarrow> raft64_step rf rf'"
| start: "Start_i64 rf command = Some (rf', sr) \<Longrightarrow> raft64_step rf rf'"
| tick: "ticker_i64 time rand rf = Some (rf', targs) \<Longrightarrow> raft64_step rf rf'"
| voted: "vote_reply_i64 rf term votes reply = Some (rf', n) \<Longrightarrow> small (rvr_Term reply) \<Longrightarrow> 0 \<le> votes \<Longrightarrow> votes < 2 ^ 31 - 1 \<Longrightarrow>
    raft64_step rf rf'"
| installed: "peer < rf_peers rf \<Longrightarrow> install_reply_i64 rf peer iargs ireply = Some rf' \<Longrightarrow> small (isr_Term ireply) \<Longrightarrow>
    small (is_LastIncludedIndex iargs) \<Longrightarrow> raft64_step rf rf'"
| appended: "peer < rf_peers rf \<Longrightarrow> append_reply_i64 rf peer aargs areply = Some (rf', again) \<Longrightarrow> small (aer_Term areply) \<Longrightarrow>
    small_append aargs \<Longrightarrow> raft64_step rf rf'"
| apply_msg: "applier_i64 rf = Some (rf', m) \<Longrightarrow> raft64_step rf rf'"
| applied: "raft64_step rf (applier_sent rf msg)"
| kill: "raft64_step rf (Kill rf)"
| crash: "raft64_step rf (Make time rand (rf_peers rf) (rf_me rf) (Checkpoint (rf_persister rf)))"

text \<open>A run counts its steps.\<close>

inductive raft64_next :: "nat \<times> 'c Raft \<Rightarrow> nat \<times> 'c Raft \<Rightarrow> bool" where
  "raft64_step rf rf' \<Longrightarrow> raft64_next (k, rf) (Suc k, rf')"

text \<open>After \<open>k\<close> steps no term and no index is above \<open>2 ^ 61 + k\<close>.\<close>

definition within :: "nat \<Rightarrow> 'c Raft \<Rightarrow> bool" where
  "within k rf \<longleftrightarrow> 0 \<le> rf_currentTerm rf \<and> rf_currentTerm rf \<le> 2 ^ 61 + int k \<and>
     lastLogIndex rf \<le> 2 ^ 61 + int k \<and> rf_commitIndex rf \<le> 2 ^ 61 + int k"

lemma within_fits: "raft_wf rf \<Longrightarrow> within k rf \<Longrightarrow> k < 2 ^ 61 \<Longrightarrow> log_fits rf"
  by (auto simp: within_def log_fits_def raft_wf_def lastLogIndex_def)

lemma raft64_exact:
  assumes "raft64_step rf rf'" "log_fits rf" "0 \<le> rf_currentTerm rf" "rf_currentTerm rf < 2 ^ 62" "rf_commitIndex rf \<le> 2 ^ 62"
  shows "raft_step rf rf'"
  using assms
  by (induction rule: raft64_step.induct)
     (auto simp: RequestVote_i64_eq AppendEntries_i64_eq InstallSnapshot_i64_eq Snapshot_i64_eq Start_i64_eq ticker_i64_eq
       vote_reply_i64_eq install_reply_i64_eq append_reply_i64_eq applier_i64_eq intro: raft_step.intros)

text \<open>The bounds grow by at most one with every step.\<close>

lemma within_Suc: "within k rf \<Longrightarrow> within (Suc k) rf"
  by (auto simp: within_def)

lemma within_volatile [simp]:
  "within k (persist rf) = within k rf" "within k (rf\<lparr>rf_role := r\<rparr>) = within k rf"
  "within k (rf\<lparr>rf_votedFor := v\<rparr>) = within k rf" "within k (rf\<lparr>rf_lastHeardAt := h\<rparr>) = within k rf"
  "within k (rf\<lparr>rf_nextIndex := ns\<rparr>) = within k rf" "within k (rf\<lparr>rf_matchIndex := ms\<rparr>) = within k rf"
  "within k (rf\<lparr>rf_pendingSnapshot := p\<rparr>) = within k rf" "within k (rf\<lparr>rf_lastApplied := a\<rparr>) = within k rf"
  "within k (rf\<lparr>rf_dead := d\<rparr>) = within k rf"
  by (auto simp: within_def lastLogIndex_def persist_def)

lemma within_term [simp]:
  "small t \<Longrightarrow> within k rf \<Longrightarrow> within k (becomeFollower rf t)"
  "small t \<Longrightarrow> within k rf \<Longrightarrow> within k (seen_term rf t)"
  "small t \<Longrightarrow> within k rf \<Longrightarrow> within k (hear_leader time rf t)"
  by (auto simp: within_def small_def)

lemma within_vote:
  "raft_wf rf \<Longrightarrow> within k rf \<Longrightarrow> RequestVote time rf args = Some (rf', r) \<Longrightarrow> small (rv_Term args) \<Longrightarrow> within k rf'"
  by (auto simp: RequestVote_eq Let_def split: if_splits)

lemma within_commit: "within k rf \<Longrightarrow> within k (ae_commit rf c)"
  by (auto simp: within_def ae_commit_def lastLogIndex_def Let_def)

lemma within_merge:
  assumes "within k rf" "rf_lastIncludedIndex rf \<le> i" "i + int (length es) \<le> 2 ^ 61 + 1" "ae_merge rf i es = Some l"
  shows "within k (rf\<lparr>rf_log := l\<rparr>)"
  using ae_merge_length [OF assms(4,2)] assms(1,3) by (auto simp: within_def lastLogIndex_def)

lemma within_check_merge:
  assumes "within k rf" "rf_lastIncludedIndex rf \<le> ae_PrevLogIndex args"
    "ae_PrevLogIndex args + int (length (ae_Entries args)) \<le> 2 ^ 61" "ae_check_merge rf args reply = Some (rf', r)"
  shows "within k rf'"
  using assms(1,2,3,4)
  by (auto simp: ae_check_merge_def bind_eq_Some_conv Let_def split: if_splits intro!: within_commit)
     (rule within_merge; auto)

lemma within_append:
  assumes "within k rf" "small_append args" "AppendEntries time rf args = Some (rf', r)"
  shows "within k rf'"
proof -
  let ?rf = "hear_leader time rf (ae_Term args)"
  have w: "within k ?rf" using assms(1,2) by (simp add: small_append_def)
  have "within k rf'" if "\<not> ae_covered rf args" "ae_check_merge ?rf (ae_trim rf args) q = Some (rf', r)" for q
    using w _ _ that(2)
  proof (rule within_check_merge)
    show "rf_lastIncludedIndex ?rf \<le> ae_PrevLogIndex (ae_trim rf args)" using ae_trim_ge [of rf args] by simp
    show "ae_PrevLogIndex (ae_trim rf args) + int (length (ae_Entries (ae_trim rf args))) \<le> 2 ^ 61"
      using assms(2) that(1) by (auto simp: small_append_def ae_trim_def ae_covered_def)
  qed
  with assms w show ?thesis by (auto simp: AppendEntries_eq Let_def within_commit split: if_splits)
qed

lemma within_install:
  assumes "within k rf" "raft_wf rf" "small (is_Term args)" "small (is_LastIncludedIndex args)"
    "InstallSnapshot time rf args = Some (rf', r)"
  shows "within k rf'"
proof -
  let ?rf = "hear_leader time rf (is_Term args)"
  have w: "within k ?rf" using assms(1,3) by simp
  have "within k (is_installed ?rf args)" if "rf_lastIncludedIndex rf < is_LastIncludedIndex args"
    using w assms(2,4) that termAt_Some_iff [of rf "is_LastIncludedIndex args"]
    by (auto simp: within_def is_installed_def is_log_def lastLogIndex_def persist_defs small_def raft_wf_def)
  with assms w show ?thesis by (auto simp: InstallSnapshot_eq Let_def split: if_splits)
qed

lemma within_snapshot: "raft_wf rf \<Longrightarrow> within k rf \<Longrightarrow> Snapshot rf index snap = Some rf' \<Longrightarrow> within k rf'"
  by (auto simp: Snapshot_eq Let_def within_def lastLogIndex_def persist_defs split: if_splits)

lemma within_start: "raft_wf rf \<Longrightarrow> within k rf \<Longrightarrow> Start rf command = Some (rf', sr) \<Longrightarrow> within (Suc k) rf'"
  by (auto simp: Start_eq within_def lastLogIndex_def persist_defs split: if_splits)

lemma within_tick: "raft_wf rf \<Longrightarrow> within k rf \<Longrightarrow> ticker time rand rf = Some (rf', targs) \<Longrightarrow> within (Suc k) rf'"
  by (auto simp: ticker_def startElection_eq within_def lastLogIndex_def persist_defs split: if_splits)

lemma within_voted:
  "raft_wf rf \<Longrightarrow> within k rf \<Longrightarrow> vote_reply rf term votes reply = Some (rf', n) \<Longrightarrow> small (rvr_Term reply) \<Longrightarrow> within k rf'"
  by (auto simp: vote_reply_def becomeLeader_eq Let_def split: if_splits)

lemma within_installed:
  "raft_wf rf \<Longrightarrow> within k rf \<Longrightarrow> peer < rf_peers rf \<Longrightarrow> install_reply rf peer args reply = Some rf' \<Longrightarrow>
     small (isr_Term reply) \<Longrightarrow> within k rf'"
  by (auto simp: install_reply_eq raise_match_def raise_next_def split: if_splits)

lemma within_advance: "advance_loop rf N = Some rf' \<Longrightarrow> N \<le> lastLogIndex rf \<Longrightarrow> within k rf \<Longrightarrow> within k rf'"
proof (induction rf N rule: advance_loop.induct)
  case (1 rf N)
  have "within k (rf\<lparr>rf_commitIndex := N\<rparr>)" using 1(4,5) by (simp add: within_def lastLogIndex_def)
  with 1 show ?case by (auto simp: advance_loop.simps [of rf N] bind_eq_Some_conv split: if_splits)
qed

lemma within_appended:
  assumes "raft_wf rf" "within k rf" "peer < rf_peers rf" "append_reply rf peer args reply = Some (rf', again)" "small (aer_Term reply)"
  shows "within k rf'"
proof -
  have "within k rf'" if "advanceCommit (raise_next (raise_match rf peer v) peer w) = Some rf'" for v w
    using that assms(2) within_advance unfolding advanceCommit_def
    by (metis order_refl raise_match_def raise_next_def within_volatile(5,6))
  with assms show ?thesis by (auto simp: append_reply_eq Let_def split: if_splits)
qed

lemma within_make:
  assumes "raft_wf rf" "on_disk rf" "within k rf"
  shows "within k (Make time rand (rf_peers rf) (rf_me rf) (Checkpoint (rf_persister rf)))" (is "within k ?rf")
proof -
  have "raftstate ?rf = raftstate rf" using assms(2) by (rule restart_state)
  moreover have "rf_commitIndex ?rf = rf_lastIncludedIndex ?rf"
    by (auto simp: Make_def readPersist_def resetElectionTimer_def Let_def split: option.splits)
  ultimately show ?thesis using assms(1,3) lastLogIndex_ge [OF assms(1)]
    by (simp add: within_def raftstate_def lastLogIndex_def [of "Make _ _ _ _ _"]) (simp add: lastLogIndex_def)
qed

lemma raft64_within:
  assumes "raft64_step rf rf'" "raft_wf rf" "on_disk rf" "within k rf" "k < 2 ^ 61"
  shows "raft_step rf rf' \<and> within (Suc k) rf'"
proof -
  have fits: "log_fits rf" using assms(2,4,5) by (rule within_fits)
  have b: "0 \<le> rf_currentTerm rf" "rf_currentTerm rf < 2 ^ 62" "rf_commitIndex rf \<le> 2 ^ 62"
    using assms(4,5) by (auto simp: within_def)
  have "within (Suc k) rf'" using assms(1)
  proof cases
    case start then show ?thesis using fits assms(2,4) by (metis within_start Start_i64_eq prod_cases3)
  next
    case tick then show ?thesis using fits b assms(2,4) within_tick by (auto simp: ticker_i64_eq)
  next
    case apply_msg
    then have "within k rf'" using fits b assms(4)
      by (auto simp: applier_i64_eq applier_def bind_eq_Some_conv Let_def split: option.splits if_splits)
    then show ?thesis by (rule within_Suc)
  next
    case applied then show ?thesis using assms(4) by (auto simp: applier_sent_def Let_def intro: within_Suc)
  next
    case kill then show ?thesis using assms(4) by (auto simp: Kill_def intro: within_Suc)
  next
    case crash then show ?thesis using within_make [OF assms(2,3,4)] within_Suc by auto
  qed (use fits b assms(2,4) in \<open>auto simp: RequestVote_i64_eq AppendEntries_i64_eq InstallSnapshot_i64_eq Snapshot_i64_eq
       vote_reply_i64_eq install_reply_i64_eq append_reply_i64_eq intro!: within_Suc
       intro: within_vote within_append within_install within_snapshot within_voted within_installed within_appended\<close>)
  then show ?thesis using raft64_exact [OF assms(1) fits b] by blast
qed

text \<open>Within the bound a run on the machine's integers is a run of the exact model.\<close>

definition exact_run :: "nat \<times> 'c Raft \<Rightarrow> nat \<times> 'c Raft \<Rightarrow> bool" where
  "exact_run s t \<longleftrightarrow> raft_wf (snd s) \<and> on_disk (snd s) \<and> within (fst s) (snd s) \<longrightarrow>
     reach (snd s) raft_step (snd t) \<and> within (fst t) (snd t)"

lemma exact_run_next: "raft64_next t u \<Longrightarrow> exact_run s t \<Longrightarrow> fst u < 2 ^ 61 \<Longrightarrow> exact_run s u"
proof (induction rule: raft64_next.induct)
  case (1 rf rf' k)
  have "reach (snd s) raft_step rf' \<and> within (Suc k) rf'" if ok: "raft_wf (snd s)" "on_disk (snd s)" "within (fst s) (snd s)"
  proof -
    have r: "reach (snd s) raft_step rf" "within k rf" using 1(2) ok by (simp_all add: exact_run_def)
    then have "raft_wf rf" "on_disk rf" using raft_steps_move [OF r(1) ok(1,2)] by (simp_all add: raft_moves_def)
    then have "raft_step rf rf' \<and> within (Suc k) rf'" using raft64_within [OF 1(1) _ _ r(2)] 1(3) by simp
    then show ?thesis using reach_step [OF r(1)] by simp
  qed
  then show ?case by (simp add: exact_run_def)
qed

interpretation word: clocked_invariant s raft64_next fst "2 ^ 61" "exact_run s" for s :: "nat \<times> 'c Raft"
proof unfold_locales
  show "exact_run s s" by (simp add: exact_run_def reach_init)
  fix t u :: "nat \<times> 'c Raft"
  assume step: "raft64_next t u"
  then show "fst t \<le> fst u" by (auto simp: raft64_next.simps)
  assume "exact_run s t" "fst u < 2 ^ 61"
  with step show "exact_run s u" by (rule exact_run_next)
qed

lemma steps_grow: "reach s raft64_next t \<Longrightarrow> fst s \<le> fst t"
  by (induction rule: reach.induct) (auto simp: raft64_next.simps)

lemma within_fresh: "within 0 (Make time rand n me MakePersister)"
  by (simp add: within_def run_defs)

lemma raft64_reachable:
  assumes "reach (0, Make time rand n me MakePersister) raft64_next (k, rf)" "0 \<le> me" "me < int n" "k < 2 ^ 61"
  shows "raft_wf rf \<and> on_disk rf \<and> rf_peers rf = n \<and> within k rf \<and> log_fits rf"
proof -
  have r: "reach (Make time rand n me MakePersister) raft_step rf" "within k rf"
    using word.reach_inv [OF assms(1)] assms(4) raft_wf_Make [OF assms(2,3)] within_fresh by (auto simp: exact_run_def)
  then show ?thesis using raft_reachable [OF r(1) assms(2,3)] within_fits assms(4) by blast
qed

text \<open>
  \<^bold>\<open>C14\<close>: No RPC handler and no reply handler of a peer panics, on the machine's integers: in every state a peer can get into
  within \<open>2 ^ 61\<close> steps, under any operations, crashes and restarts, \<open>RequestVote\<close>, \<open>AppendEntries\<close>, \<open>InstallSnapshot\<close>,
  \<open>Snapshot\<close>, \<open>Start\<close>, \<open>startElection\<close> and the handling of the replies of its own calls index the log and the peer tables
  within their ranges, whatever the arguments and replies contain, as long as the indices of \<open>AppendEntries\<close> and
  \<open>InstallSnapshot\<close> stay within \<open>2 ^ 61\<close>.
\<close>

theorem raft_handlers_never_panic:
  assumes "reach (0, Make time rand n me MakePersister) raft64_next (k, rf)" "0 \<le> me" "me < int n" "k < 2 ^ 61" "peer < n"
    and "small_append aargs" "small_append aargs'" "small (is_LastIncludedIndex iargs')" "0 \<le> votes" "votes < 2 ^ 31 - 1"
  shows "RequestVote_i64 now rf args \<noteq> None \<and> AppendEntries_i64 now rf aargs \<noteq> None
    \<and> InstallSnapshot_i64 now rf iargs \<noteq> None \<and> Snapshot_i64 rf index snap \<noteq> None \<and> Start_i64 rf command \<noteq> None
    \<and> startElection_i64 now rand' rf \<noteq> None \<and> vote_reply_i64 rf term votes reply \<noteq> None
    \<and> install_reply_i64 rf peer iargs' ireply \<noteq> None \<and> append_reply_i64 rf peer aargs' areply \<noteq> None"
proof -
  have wf: "raft_wf rf" "on_disk rf" "rf_peers rf = n" "within k rf" "log_fits rf"
    using raft64_reachable [OF assms(1-4)] by auto
  have "0 \<le> rf_currentTerm rf" "rf_currentTerm rf < 2 ^ 62" using wf(4) assms(4) by (auto simp: within_def)
  then show ?thesis
    using handlers_total [OF wf(1,2)] assms(5-10) wf(3,5)
    by (simp add: RequestVote_i64_eq AppendEntries_i64_eq InstallSnapshot_i64_eq Snapshot_i64_eq Start_i64_eq
        startElection_i64_eq vote_reply_i64_eq install_reply_i64_eq append_reply_i64_eq)
qed

theorem raft_handlers_never_panic_witness:
  "reach (0, Make 0 0 3 0 MakePersister) raft64_next (0, peer0) \<and> AppendEntries_i64 0 peer0 far_append \<noteq> None"
proof -
  have r: "reach (0, Make 0 0 3 0 MakePersister) raft64_next (0, peer0)" by (simp add: peer0_def reach_init)
  have "small_append far_append" by (simp add: far_append_def small_append_def small_def)
  then show ?thesis
    using raft_handlers_never_panic [OF r, of 2 far_append far_append "\<lparr>is_Term = 0, is_LeaderId = 0,
      is_LastIncludedIndex = 0, is_LastIncludedTerm = 0, is_Data = None\<rparr>" 1 0] r by (simp add: small_def)
qed

text \<open>
  \<^bold>\<open>C16\<close>: Terms never go back and a peer votes at most once per term, on the machine's integers: along any run of
  fewer than \<open>2 ^ 61\<close> steps in which the messages carry terms and indices within \<open>2 ^ 61\<close>, with crashes and restarts, the
  current term of a peer does not fall, and while it stays the same the vote the peer has cast in that term does not change.
\<close>

theorem raft_vote_once_per_term:
  assumes "reach (0, Make time rand n me MakePersister) raft64_next (j, rf)" "reach (j, rf) raft64_next (k, rf')"
    "0 \<le> me" "me < int n" "k < 2 ^ 61"
  shows "rf_currentTerm rf \<le> rf_currentTerm rf'
    \<and> (rf_currentTerm rf' = rf_currentTerm rf \<and> rf_votedFor rf \<noteq> -1 \<longrightarrow> rf_votedFor rf' = rf_votedFor rf)"
proof -
  have "j \<le> k" using steps_grow [OF assms(2)] by simp
  then have wf: "raft_wf rf" "on_disk rf" "within j rf" using raft64_reachable [OF assms(1,3,4)] assms(5) by auto
  then have "reach rf raft_step rf'" using word.reach_inv [OF assms(2)] assms(5) by (simp add: exact_run_def)
  then show ?thesis using raft_steps_move wf by (auto simp: raft_moves_def)
qed

text \<open>The vote survives a crash followed by a request of another candidate in the same term.\<close>

lemma peer0_runs:
  "reach (0, Make 0 0 3 0 MakePersister) raft64_next (1, peer0_voted)"
  "reach (1, peer0_voted) raft64_next (3, peer0_again)"
proof -
  have "log_fits peer0" "log_fits peer0_again" by (simp_all add: peer0_again_def peer0_voted_eq peer0_def log_fits_def run_defs)
  then have v: "RequestVote_i64 5 peer0 vote2 = Some (peer0_voted, \<lparr>rvr_Term = 1, rvr_VoteGranted = True\<rparr>)"
    "RequestVote_i64 11 peer0_again vote1 = Some (peer0_again, \<lparr>rvr_Term = 1, rvr_VoteGranted = False\<rparr>)"
    by (simp_all add: RequestVote_i64_eq peer0_voted_state peer0_again_state)
  have small: "small (rv_Term vote2)" "small (rv_Term vote1)" by (simp_all add: small_def vote2_def vote1_def)
  have "raft64_step peer0_voted peer0_again"
    using raft64_step.crash [of peer0_voted 9 9] by (simp add: peer0_again_def peer0_again_state)
  then have 2: "raft64_next (1, peer0_voted) (2, peer0_again)" using raft64_next.intros [of _ _ 1] by (simp add: numeral_2_eq_2)
  have 3: "raft64_next (2, peer0_again) (3, peer0_again)"
    using raft64_next.intros [OF raft64_step.vote [OF v(2) small(2)], of 2] by simp
  show "reach (1, peer0_voted) raft64_next (3, peer0_again)"
    using 3 by (rule reach_step [OF reach_step [OF reach_init [of "(1, peer0_voted)" raft64_next] 2]])
  have "raft64_next (0, Make 0 0 3 0 MakePersister) (1, peer0_voted)"
    using raft64_next.intros [OF raft64_step.vote [OF v(1) small(1)], of 0] by (simp add: peer0_def)
  then show "reach (0, Make 0 0 3 0 MakePersister) raft64_next (1, peer0_voted)" by (rule reach_step [OF reach_init])
qed

theorem raft_vote_once_per_term_witness:
  "reach (1, peer0_voted) raft64_next (3, peer0_again) \<and> rf_votedFor peer0_again = 2"
  using raft_vote_once_per_term [OF peer0_runs] peer0_runs by (simp add: peer0_voted_state peer0_again_state)

subsection \<open>Beyond the bounds\<close>

text \<open>
  A request with the smallest number as \<open>PrevLogIndex\<close> makes \<open>startAt\<close> overflow on a fresh peer, and the
  slice of the entries panics; a request with the largest number as term makes the next election fall back to the smallest.
\<close>

lemma smallest_prev_panics:
  "AppendEntries_i64 0 peer0 \<lparr>ae_Term = 1, ae_LeaderId = 1, ae_PrevLogIndex = - (2 ^ 63), ae_PrevLogTerm = 0,
     ae_Entries = [], ae_LeaderCommit = 0\<rparr> = None"
  by (simp add: AppendEntries_i64_def peer0_def run_defs i64_def lastLogIndex_i64_def go_from_def)

lemma largest_term_falls:
  "\<exists>rf r rf' args. RequestVote_i64 0 peer0 \<lparr>rv_Term = 2 ^ 63 - 1, rv_CandidateId = 1, rv_LastLogIndex = 0, rv_LastLogTerm = 0\<rparr> = Some (rf, r)
     \<and> rf_currentTerm rf = 2 ^ 63 - 1 \<and> startElection_i64 0 0 rf = Some (rf', args) \<and> rf_currentTerm rf' = - (2 ^ 63)"
  by (simp add: RequestVote_i64_def startElection_i64_def peer0_def run_defs i64_def lastLogIndex_i64_def)

end
