(* ===== verification/Spec2Isabelle.thy ===== *)
theory Spec2Isabelle
  imports LockNet ShardCfg RaftTested MrTiming RsmSrv TesterPart TesterClnt KvTestOk SockRpc LabGob TesterCfg DaemonBoot KvSpawn KvPartition RaftWord
begin

text \<open>
  \<^bold>\<open>A linearizable key/value store in Go, and the services and test harness around it.\<close>

  The program. \<open>src/src/kvsrv1\<close> is a key/value server with versioned puts and its clerk, which retries over
  a lossy network and turns an ambiguous answer into \<open>ErrMaybe\<close>; \<open>kvsrv1/lock\<close> is a lock built on the clerk
  alone. \<open>src/src/raft1\<close> is an implementation of Raft with persistence, fast log backup, log compaction and
  snapshots. \<open>src/src/shardkv1/shardcfg\<close> holds the configuration of a sharded store, \<open>main/mrsequential.go\<close>
  and \<open>mrapps\<close> a sequential MapReduce. \<open>labrpc\<close>, \<open>tester1\<close>, \<open>kvtest1\<close>, \<open>models1\<close> and \<open>raft1/test.go\<close> are the
  simulated network and the harness that checks the services: they start, stop and partition servers, record
  operations and compare what servers have applied. All paths below are under \<open>src/src\<close>.

  \<^bold>\<open>How the model corresponds to the code.\<close> Every function, method and stretch of code that runs under a
  mutex is one HOL function with the name it has in Go (\<open>T_m\<close> where a method name is used by several types);
  a struct is a record with the struct's fields, a Go map a partial map or, where its order is observable, an
  association list. A panic (index out of range, \<open>log.Fatalf\<close>) is \<^term>\<open>None\<close>, a returned error a value of a
  datatype. Go's \<open>int\<close> is \<^typ>\<open>int\<close> where it counts what a run has done; where a message or an argument
  brings a number of any size (Raft's terms and indices in \<open>RaftWord\<close>, the counters of \<open>CheckAppends\<close>) sums are cut to 64 bits.
  Versions are 64-bit words. The theorems that depend on the width bound the numbers or the length of the run. A goroutine that releases its mutex around
  a remote call is one function per stretch; the interleaving is a step relation (or a list of actions) whose
  reachable states the invariants are about. The network may lose, delay, duplicate and reorder messages
  unless a theorem says otherwise.

  \<^bold>\<open>The theories.\<close>
  \<^item> \<open>Prelude\<close>: Go's slices, reachability, the interfaces \<open>clocked_invariant\<close> (invariance proofs) and
    \<open>simulation\<close> (refinement proofs), runs as data.
  \<^item> \<open>Rpc\<close>, \<open>KVServer\<close>, \<open>Clerk\<close>: \<open>kvsrv1/rpc/rpc.go\<close>, \<open>server.go\<close>, \<open>client.go\<close>; \<open>KvModel\<close>: the sequential
    model of \<open>models1/kv.go\<close>; \<open>KvLin\<close>: every history of clerks and server is linearizable with respect to
    that model, and the version of a key counts its puts.
  \<^item> \<open>KvLate\<close>, \<open>KvNet\<close>, \<open>KvNetLin\<close>: the same service over the network of \<open>Labrpc\<close>, with each call a request there and
    the tester changing the network. Handlers of requests that were given up may run late; \<open>KvNet\<close> implements \<open>KvLate\<close>,
    and the histories are linearizable when puts name versions that were learned, and need not be otherwise.
  \<^item> \<open>LockSrv\<close>: \<open>kvsrv1/lock/lock.go\<close>; mutual exclusion, also when requests run late, and \<open>Release\<close> does not spin.
    \<open>LockNet\<close>: lock clients on clerks in the network of \<open>Labrpc\<close>, next to clerks that use other keys; the system implements
    the one of \<open>LockSrv\<close>, so mutual exclusion holds end to end.
  \<^item> \<open>Persister\<close>: \<open>tester1/persister.go\<close>. \<open>RaftNode\<close> and \<open>RaftLead\<close>: \<open>raft1/raft.go\<close>, its handlers and its
    goroutines. \<open>RaftInv\<close>, \<open>RaftLocal\<close>: one peer by itself (no panic, what is on disk, votes).
    \<open>RaftLog\<close>: the effect of \<open>AppendEntries\<close>, \<open>Snapshot\<close>, \<open>advanceCommit\<close> and the apply loop.
    \<open>RaftWord\<close>: the operations of one peer on 64-bit integers; they agree with the exact ones as long as messages carry numbers
    within 2 to the 61 and a peer has made fewer than 2 to the 61 steps, so no handler panics and terms do not fall; beyond
    that a handler may panic and a term may fall.
  \<^item> \<open>RaftCluster\<close>: peers, network, crashes and services as one system of actions. \<open>RaftElection\<close>: at most
    one leader per term. \<open>RaftAbs\<close>: an abstract protocol without snapshots and indices, and its safety.
    \<open>RaftSim\<close>: the cluster simulates it, action by action. \<open>RaftSafety\<close>: log matching, leader completeness
    and state machine safety of the cluster. \<open>RaftNext\<close>: \<open>nextIndex\<close> and the apply loop stay within the log.
  \<^item> \<open>RfTest\<close>: \<open>raft1/server.go\<close>, \<open>raft1/test.go\<close>, \<open>raft1/proxy.go\<close>, the service that the tester runs and
    the tester's checks. \<open>RaftTested\<close>: the cluster passes the agreement check.
  \<^item> \<open>Labrpc\<close>: \<open>labrpc/labrpc.go\<close>, routing, losses and delays, dispatch; the state of a server is what its requests, each executed at most once, make of it.
  \<^item> \<open>Strconv\<close>, \<open>Daemon\<close>: command line and control calls of server processes (\<open>tester1/daemonclnt.go\<close>,
    \<open>daemonsrv.go\<close>). \<open>TesterGrp\<close>, \<open>TesterPart\<close>: server groups, their connection matrix and partitions
    (\<open>tester1/group.go\<close>, \<open>srv.go\<close>). \<open>DaemonBoot\<close>: the start of a server process, from the creation of
    its control socket, and the tester that dials it and calls it. The main goroutine and the control calls meet on one
    channel. Every interleaving ends, with the server ready unless a dial runs out of tries or the first call arrives before the
    control service is registered, which ends the process. \<open>TesterClnt\<close>: the clients of a test (\<open>tester1/clnts.go\<close>).
  \<^item> \<open>Demux\<close>, \<open>DemuxConn\<close>: \<open>tester1/demux\<close>, messages on a stream of bytes and the calls that share it: each call gets
    the reply to its own request, and none is left behind when the connection breaks. \<open>SockRpc\<close>: \<open>tester1/sockrpc\<close>,
    \<open>testsrv.go\<close>, \<open>testclnt.go\<close>, \<open>labrpc\<close> servers on sockets; a call runs its method once.
  \<^item> \<open>Annot\<close>: \<open>tester1/annotation.go\<close>, \<open>annotator.go\<close>; the fault annotation follows the faults, intervals of a tag do
    not overlap. \<open>TesterCfg\<close>: \<open>tester1/config.go\<close>, creation and end of a test, its statistics.
  \<^item> \<open>LabGob\<close>: \<open>labgob/labgob.go\<close>, the checks of types and of values that are decoded into.
  \<^item> \<open>KvTest\<close>, \<open>KvTestOk\<close>: \<open>kvtest1\<close>, the harness of the key/value services, and what its checks accept.
    \<open>KvSpawn\<close>: \<open>SpawnClientsAndWait\<close>, clients in goroutines that are all stopped and whose results are all collected.
    \<open>KvPartition\<close>: a round of the partitioner.
  \<^item> \<open>TestRuns\<close>: \<open>raft1/test.go\<close>, \<open>kvraft1/rsm/test.go\<close>, the runs of a test: creation, kill and restart of servers, the
    search for a leader that accepts an operation, the check of counters. While servers of a Raft test are killed and
    restarted, the tester's proxies are those of the running processes.
  \<^item> \<open>ShardCfg\<close>: \<open>shardkv1/shardcfg/shardcfg.go\<close>. \<open>MapReduce\<close>: \<open>main/mrsequential.go\<close>, \<open>mr\<close>, \<open>mrapps\<close>;
    \<open>MrTiming\<close>: the applications of \<open>mrapps\<close> that observe other workers through files.
  \<^item> \<open>RsmSrv\<close>: \<open>kvraft1/rsm/server.go\<close>, \<open>proxy.go\<close>, the counter with which the replicated state machine is tested.

  \<^bold>\<open>How the parts are put together.\<close> The linearizability and lock theorems are about systems of the clerk's
  and the server's own definitions; \<open>KvLin\<close> lets a network lose requests and replies, \<open>KvNet\<close> has the network itself, which
  implements the one of \<open>KvLate\<close>, and the proof of \<open>KvLin\<close> is reused there for the runs that come late. Raft's log safety is proved in two layers: \<open>RaftAbs\<close> states Raft over whole
  logs, with a message carrying a prefix of the leader's log, and proves by induction over its steps that an
  index that may still be committed is kept by those who have acknowledged it and is in the log of every later
  leader; \<open>RaftSim\<close> relates a peer's log, snapshot position and indices, and the arguments and replies of calls,
  to that state, and shows that every action of the cluster is one step or none. \<open>simulation\<close> is the interface
  between the layers; it is used again in \<open>RaftTested\<close>, where the tester's copies of the servers' logs are added
  to the relation. The peers of a cluster rely on the invariants of one peer (\<open>raft_moves\<close>), the cluster's
  witnesses are runs of its actions evaluated by the simplifier. The connection of \<open>DemuxConn\<close> is a system of the same
  kind, with the server's \<open>ServeRequest\<close> as an argument; \<open>SockRpc\<close> puts the dispatch of \<open>Labrpc\<close> there.

  \<^bold>\<open>Bounds and fuel.\<close> Loops that end by themselves are total functions with a measure. The balancing loop of
  \<open>Rebalance\<close> is a partial function; it is shown to return, the sum of the squares of the shares falling in
  every round. The retry loop \<open>PutAtLeastOnce\<close> takes fuel, and some amount is shown to be enough whenever every
  put of the clerk returns. Versions are bounded by the number of deliveries, so linearizability is stated for
  runs of fewer than 2 to the 64 steps. The tags of calls on a connection are 32 bits wide and never given back, so the
  theorems on connections are for fewer than 2 to the 32 calls. \<open>checkType\<close> is nested recursion over a table of types; it
  ends because every nested call marks a new type.

  \<^bold>\<open>Not modelled, and why.\<close> \<open>kvraft1\<close> apart from its test server, \<open>shardkv1\<close> apart from \<open>shardcfg\<close>, and the coordinator and worker of \<open>mr\<close> are
  skeletons without bodies. \<open>encoding/gob\<close> is outside the repository; where its round trip matters it is a
  hypothesis or the encoded values are kept as they are. Processes, sockets and files are arguments; the forced exit of a process after ten minutes is left out. Timers are arguments or
  nondeterministic. \<open>reflect\<close> is represented by the list of methods it reports. Snapshot contents are opaque
  bytes in the Raft theories. Liveness of Raft is not claimed: under losses it does not hold.
\<close>

end
